(* ===== verification/Prelude.thy ===== *)
theory Prelude
  imports Main "HOL-Library.Word" "HOL-Library.AList" "HOL-Library.Multiset"
    "HOL-Library.Monad_Syntax" "HOL-Library.Code_Target_Nat"
begin

unbundle bit_operations_syntax

text \<open>
  Shared vocabulary of the development: the machine types of the Rust sources, slices and
  big-endian integers, the std containers the engine uses (Vec, VecDeque, HashMap), and the
  generic lemmas about them that the component theories rely on.
\<close>

named_theorems byte_simps \<open>lengths and values of slices and big-endian encodings\<close>
named_theorems ring_simps \<open>bounded queues and rings\<close>
named_theorems inv_intros \<open>preservation of component invariants\<close>

section \<open>Machine types\<close>

type_synonym byte = "8 word"
type_synonym bytes = "8 word list"
type_synonym u16 = "16 word"
type_synonym u32 = "32 word"
type_synonym u64 = "64 word"

text \<open>\<open>usize\<close> on the 64-bit Android and desktop targets is a natural number below \<open>2 ^ 64\<close>.\<close>

definition usize_max :: nat where
  "usize_max = 2 ^ 64 - 1"

definition usize_checked_add :: "nat \<Rightarrow> nat \<Rightarrow> nat option" where
  "usize_checked_add a b = (if a + b \<le> usize_max then Some (a + b) else None)"

definition usize_saturating_add :: "nat \<Rightarrow> nat \<Rightarrow> nat" where
  "usize_saturating_add a b = min (a + b) usize_max"

definition u64_max :: nat where
  "u64_max = 2 ^ 64 - 1"

definition sat_add_u64 :: "nat \<Rightarrow> nat \<Rightarrow> nat" where
  "sat_add_u64 a b = min (a + b) u64_max"

lemma usize_checked_add_Some [simp]:
  "usize_checked_add a b = Some c \<longleftrightarrow> c = a + b \<and> a + b \<le> usize_max"
  by (auto simp: usize_checked_add_def)

lemma sat_add_u64_le: "sat_add_u64 a b \<le> a + b"
  by (simp add: sat_add_u64_def)

lemma sat_add_u64_mono: "a \<le> u64_max \<Longrightarrow> a \<le> sat_add_u64 a b"
  by (simp add: sat_add_u64_def)

lemma sat_add_u64_bound [simp]: "sat_add_u64 a b \<le> u64_max"
  by (simp add: sat_add_u64_def)

section \<open>Slices\<close>

text \<open>\<open>subslice bs a b\<close> is Rust's \<open>&bs[a..b]\<close> for \<open>a \<le> b \<le> length bs\<close>; a definition that slices
  guards the bounds the way the source does.\<close>

definition subslice :: "'a list \<Rightarrow> nat \<Rightarrow> nat \<Rightarrow> 'a list" where
  "subslice bs a b = take (b - a) (drop a bs)"

lemma length_subslice [byte_simps]: "b \<le> length bs \<Longrightarrow> length (subslice bs a b) = b - a"
  by (auto simp: subslice_def)

lemma subslice_append_left [byte_simps]: "b \<le> length xs \<Longrightarrow> subslice (xs @ ys) a b = subslice xs a b"
  by (auto simp: subslice_def)

lemma subslice_append_right [byte_simps]:
  "length xs \<le> a \<Longrightarrow> subslice (xs @ ys) a b = subslice ys (a - length xs) (b - length xs)"
  by (auto simp: subslice_def)

lemma subslice_all [byte_simps]: "length xs = b \<Longrightarrow> subslice xs 0 b = xs"
  by (auto simp: subslice_def)

lemma subslice_empty [simp]: "subslice xs a a = []"
  by (simp add: subslice_def)

lemma subslice_0: "subslice xs 0 b = take b xs"
  by (simp add: subslice_def)

lemma nth_subslice: "a + i < b \<Longrightarrow> b \<le> length xs \<Longrightarrow> subslice xs a b ! i = xs ! (a + i)"
  by (auto simp: subslice_def)

lemma take_append_subslice: "a \<le> b \<Longrightarrow> take a xs @ subslice xs a b = take b xs"
  by (simp add: subslice_def) (metis le_add_diff_inverse take_add)

lemma subslice_append: "a \<le> b \<Longrightarrow> b \<le> c \<Longrightarrow> subslice xs a b @ subslice xs b c = subslice xs a c"
proof -
  assume ab: "a \<le> b" and bc: "b \<le> c"
  have "drop b xs = drop (b - a) (drop a xs)" using ab by simp
  hence "subslice xs a b @ subslice xs b c = take (b - a) (drop a xs) @ take (c - b) (drop (b - a) (drop a xs))"
    by (simp only: subslice_def)
  also have "\<dots> = take ((b - a) + (c - b)) (drop a xs)" by (simp only: take_add)
  finally show ?thesis using ab bc by (simp add: subslice_def)
qed

lemma subslice_drop: "subslice xs a (length xs) = drop a xs"
  by (simp add: subslice_def)

text \<open>\<open>bs.get(a..b)\<close> and \<open>bs.get(a..)\<close>.\<close>

definition get_range :: "'a list \<Rightarrow> nat \<Rightarrow> nat \<Rightarrow> 'a list option" where
  "get_range xs a b = (if a \<le> b \<and> b \<le> length xs then Some (subslice xs a b) else None)"

definition get_from :: "'a list \<Rightarrow> nat \<Rightarrow> 'a list option" where
  "get_from xs a = (if a \<le> length xs then Some (drop a xs) else None)"

lemma get_range_Some [simp]: "get_range xs a b = Some ys \<longleftrightarrow> a \<le> b \<and> b \<le> length xs \<and> ys = subslice xs a b"
  by (auto simp: get_range_def)

text \<open>\<open>starts_with\<close>.\<close>

definition starts_with :: "'a list \<Rightarrow> 'a list \<Rightarrow> bool" where
  "starts_with xs p = (take (length p) xs = p)"

lemma starts_with_append [simp]: "starts_with (p @ xs) p"
  by (simp add: starts_with_def)

lemma starts_with_iff: "starts_with xs p \<longleftrightarrow> (\<exists>ys. xs = p @ ys)"
  unfolding starts_with_def by (metis append_eq_conv_conj append_take_drop_id)

text \<open>The bytes of an ASCII literal.\<close>

definition ascii :: "string \<Rightarrow> bytes" where
  "ascii s = map (\<lambda>c. word_of_nat (of_char c)) s"

section \<open>Big-endian integers\<close>

text \<open>\<open>to_be_bytes\<close> and \<open>from_be_bytes\<close> of the unsigned integer types, over the value as a natural
  number and the width in bytes.\<close>

fun to_be :: "nat \<Rightarrow> nat \<Rightarrow> bytes" where
  "to_be 0 n = []"
| "to_be (Suc k) n = to_be k (n div 256) @ [word_of_nat (n mod 256)]"

definition be_nat :: "bytes \<Rightarrow> nat" where
  "be_nat bs = foldl (\<lambda>a b. a * 256 + unat b) 0 bs"

lemma length_to_be [simp, byte_simps]: "length (to_be k n) = k"
  by (induction k n rule: to_be.induct) auto

lemma be_nat_Nil [simp]: "be_nat [] = 0"
  by (simp add: be_nat_def)

lemma be_nat_snoc [simp]: "be_nat (bs @ [b]) = be_nat bs * 256 + unat b"
  by (simp add: be_nat_def)

lemma unat_byte_bound: "unat (b :: byte) < 256"
  using unsigned_less [of b, where ?'a = nat] by simp

lemma unat_byte_of_nat: "n < 256 \<Longrightarrow> unat (word_of_nat n :: byte) = n"
  by (simp add: unat_of_nat)

lemma be_nat_to_be: "be_nat (to_be k n) = n mod 256 ^ k"
proof (induction k n rule: to_be.induct)
  case (2 k n)
  have "unat (word_of_nat (n mod 256) :: byte) = n mod 256"
    by (rule unat_byte_of_nat) simp
  thus ?case using 2 by (simp add: mod_mult2_eq algebra_simps)
qed simp

lemma be_nat_to_be_small [byte_simps]: "n < 256 ^ k \<Longrightarrow> be_nat (to_be k n) = n"
  by (simp add: be_nat_to_be)

lemma be_nat_bound: "be_nat bs < 256 ^ length bs"
proof (induction bs rule: rev_induct)
  case (snoc b bs)
  have "be_nat bs + 1 \<le> 256 ^ length bs" using snoc by simp
  hence "(be_nat bs + 1) * 256 \<le> 256 ^ length bs * 256" by (rule mult_le_mono1)
  thus ?case using unat_byte_bound [of b] by simp
qed simp

lemma to_be_be_nat: "to_be (length bs) (be_nat bs) = bs"
proof (induction bs rule: rev_induct)
  case (snoc b bs)
  have "(be_nat bs * 256 + unat b) div 256 = be_nat bs"
    using unat_byte_bound [of b] by simp
  moreover have "(be_nat bs * 256 + unat b) mod 256 = unat b"
    using unat_byte_bound [of b] by simp
  ultimately show ?case using snoc by simp
qed simp

lemma to_be_be_nat' [byte_simps]: "length bs = k \<Longrightarrow> to_be k (be_nat bs) = bs"
  using to_be_be_nat by auto

definition u16_to_be :: "u16 \<Rightarrow> bytes" where
  "u16_to_be w = to_be 2 (unat w)"

definition u32_to_be :: "u32 \<Rightarrow> bytes" where
  "u32_to_be w = to_be 4 (unat w)"

definition u64_to_be :: "u64 \<Rightarrow> bytes" where
  "u64_to_be w = to_be 8 (unat w)"

definition u16_of_be :: "bytes \<Rightarrow> u16" where
  "u16_of_be bs = word_of_nat (be_nat bs)"

definition u32_of_be :: "bytes \<Rightarrow> u32" where
  "u32_of_be bs = word_of_nat (be_nat bs)"

definition u64_of_be :: "bytes \<Rightarrow> u64" where
  "u64_of_be bs = word_of_nat (be_nat bs)"

lemma length_uN_to_be [simp, byte_simps]:
  "length (u16_to_be a) = 2" "length (u32_to_be b) = 4" "length (u64_to_be c) = 8"
  by (simp_all add: u16_to_be_def u32_to_be_def u64_to_be_def)

lemma unat16_bound: "unat (w :: u16) < 65536"
  using unsigned_less [of w, where ?'a = nat] by simp

lemma unat32_bound: "unat (w :: u32) < 4294967296"
  using unsigned_less [of w, where ?'a = nat] by simp

lemma unat64_bound: "unat (w :: u64) < 18446744073709551616"
  using unsigned_less [of w, where ?'a = nat] by simp

lemma u16_of_to_be [simp, byte_simps]: "u16_of_be (u16_to_be w) = w"
  by (simp add: u16_of_be_def u16_to_be_def be_nat_to_be unat16_bound)

lemma u32_of_to_be [simp, byte_simps]: "u32_of_be (u32_to_be w) = w"
  by (simp add: u32_of_be_def u32_to_be_def be_nat_to_be unat32_bound)

lemma u64_of_to_be [simp, byte_simps]: "u64_of_be (u64_to_be w) = w"
  by (simp add: u64_of_be_def u64_to_be_def be_nat_to_be unat64_bound)

lemma unat_u16_of_be [byte_simps]: "length bs = 2 \<Longrightarrow> unat (u16_of_be bs) = be_nat bs"
  using be_nat_bound [of bs] by (simp add: u16_of_be_def unat_of_nat)

lemma unat_u32_of_be [byte_simps]: "length bs = 4 \<Longrightarrow> unat (u32_of_be bs) = be_nat bs"
  using be_nat_bound [of bs] by (simp add: u32_of_be_def unat_of_nat)

lemma unat_u64_of_be [byte_simps]: "length bs = 8 \<Longrightarrow> unat (u64_of_be bs) = be_nat bs"
  using be_nat_bound [of bs] by (simp add: u64_of_be_def unat_of_nat)

lemma u16_to_of_be [byte_simps]: "length bs = 2 \<Longrightarrow> u16_to_be (u16_of_be bs) = bs"
  by (simp add: u16_to_be_def unat_u16_of_be to_be_be_nat')

lemma u32_to_of_be [byte_simps]: "length bs = 4 \<Longrightarrow> u32_to_be (u32_of_be bs) = bs"
  by (simp add: u32_to_be_def unat_u32_of_be to_be_be_nat')

lemma u64_to_of_be [byte_simps]: "length bs = 8 \<Longrightarrow> u64_to_be (u64_of_be bs) = bs"
  by (simp add: u64_to_be_def unat_u64_of_be to_be_be_nat')

lemma u16_to_be_eq: "u16_to_be w = [word_of_nat (unat w div 256), word_of_nat (unat w mod 256)]"
  using unat16_bound [of w] by (simp add: u16_to_be_def numeral_2_eq_2)

section \<open>Vectors\<close>

text \<open>\<open>Vec::swap_remove(i)\<close> returns the \<open>i\<close>-th element and moves the last one into its place.\<close>

definition swap_remove :: "'a list \<Rightarrow> nat \<Rightarrow> 'a list" where
  "swap_remove xs i = (if i = length xs - 1 then butlast xs else (butlast xs)[i := last xs])"

lemma length_swap_remove [simp]: "length (swap_remove xs i) = length xs - 1"
  by (simp add: swap_remove_def)

lemma mset_swap_remove: "i < length xs \<Longrightarrow> mset (swap_remove xs i) = mset xs - {#xs ! i#}"
proof (cases xs rule: rev_cases)
  case (snoc ys y)
  assume i: "i < length xs"
  show ?thesis
  proof (cases "i = length ys")
    case True thus ?thesis using snoc by (simp add: swap_remove_def)
  next
    case False
    hence "i < length ys" using i snoc by simp
    moreover from this have "ys ! i \<in># mset ys" by simp
    ultimately show ?thesis using snoc False
      by (simp add: swap_remove_def mset_update nth_append)
  qed
qed simp

lemma mset_swap_remove_add: "i < length xs \<Longrightarrow> mset xs = add_mset (xs ! i) (mset (swap_remove xs i))"
  by (simp add: mset_swap_remove)

lemma set_swap_remove_subset: "i < length xs \<Longrightarrow> set (swap_remove xs i) \<subseteq> set xs"
  by (metis mset_swap_remove_add set_mset_add_mset_insert set_mset_mset subset_insertI)

text \<open>\<open>Vec::remove(i)\<close> closes the gap.\<close>

definition remove_at :: "nat \<Rightarrow> 'a list \<Rightarrow> 'a list" where
  "remove_at i xs = take i xs @ drop (Suc i) xs"

lemma remove_at_Nil [simp]: "remove_at i [] = []"
  by (simp add: remove_at_def)

lemma length_remove_at: "i < length xs \<Longrightarrow> length (remove_at i xs) = length xs - 1"
  by (simp add: remove_at_def)

lemma set_remove_at: "set (remove_at i xs) \<subseteq> set xs"
  by (auto simp: remove_at_def dest: in_set_takeD in_set_dropD)

lemma map_remove_at: "map f (remove_at i xs) = remove_at i (map f xs)"
  by (simp add: remove_at_def take_map drop_map)

lemma remove_at_split: "i < length xs \<Longrightarrow> distinct xs \<Longrightarrow> distinct (remove_at i xs) \<and> xs ! i \<notin> set (remove_at i xs)"
proof -
  assume i: "i < length xs" and d: "distinct xs"
  have "distinct (take i xs @ xs ! i # drop (Suc i) xs)" using d id_take_nth_drop [OF i] by simp
  thus ?thesis by (simp add: remove_at_def)
qed

lemma distinct_remove_at: "distinct xs \<Longrightarrow> distinct (remove_at i xs)"
  by (cases "i < length xs") (auto simp: remove_at_split, simp add: remove_at_def)

lemma remove_at_not_in: "distinct xs \<Longrightarrow> i < length xs \<Longrightarrow> xs ! i \<notin> set (remove_at i xs)"
  by (simp add: remove_at_split)

text \<open>\<open>position\<close>: the index of the first element that satisfies a predicate.\<close>

fun position :: "('a \<Rightarrow> bool) \<Rightarrow> 'a list \<Rightarrow> nat option" where
  "position P [] = None"
| "position P (x # xs) = (if P x then Some 0 else map_option Suc (position P xs))"

lemma position_None [simp]: "position P xs = None \<longleftrightarrow> (\<forall>x\<in>set xs. \<not> P x)"
  by (induction xs) auto

lemma position_SomeD: "position P xs = Some i \<Longrightarrow> i < length xs \<and> P (xs ! i)"
  by (induction xs arbitrary: i) (auto split: if_splits)

lemma position_Some_first: "position P xs = Some i \<Longrightarrow> j < i \<Longrightarrow> \<not> P (xs ! j)"
  by (induction xs arbitrary: i j) (auto split: if_splits simp: nth_Cons split: nat.splits)

text \<open>\<open>Iterator::min_by_key\<close>: the first element of minimal key.\<close>

fun min_by_key :: "('a \<Rightarrow> 'k::linorder) \<Rightarrow> 'a list \<Rightarrow> 'a option" where
  "min_by_key f [] = None"
| "min_by_key f (x # xs) = (case min_by_key f xs of None \<Rightarrow> Some x
     | Some y \<Rightarrow> if f x \<le> f y then Some x else Some y)"

lemma min_by_key_None [simp]: "min_by_key f xs = None \<longleftrightarrow> xs = []"
  by (induction xs) (auto split: option.splits if_splits)

lemma min_by_key_SomeD: "min_by_key f xs = Some x \<Longrightarrow> x \<in> set xs \<and> (\<forall>y\<in>set xs. f x \<le> f y)"
proof (induction xs arbitrary: x)
  case (Cons a xs)
  show ?case
  proof (cases "min_by_key f xs")
    case None
    thus ?thesis using Cons.prems by simp
  next
    case (Some y)
    note IH = Cons.IH [OF Some]
    show ?thesis using Cons.prems Some IH by (cases "f a \<le> f y") force+
  qed
qed simp

text \<open>The indexed elements of a vector (\<open>iter().enumerate()\<close>).\<close>

definition enumerated :: "'a list \<Rightarrow> (nat \<times> 'a) list" where
  "enumerated xs = zip [0..<length xs] xs"

lemma set_enumerated: "(i, x) \<in> set (enumerated xs) \<longleftrightarrow> i < length xs \<and> x = xs ! i"
  by (force simp: enumerated_def set_zip)

section \<open>Hash maps\<close>

text \<open>A \<open>HashMap\<close> is an association list with distinct keys. No definition of the development
  depends on the order of the entries where the source does not.\<close>

type_synonym ('k, 'v) hmap = "('k \<times> 'v) list"

definition hm_ok :: "('k, 'v) hmap \<Rightarrow> bool" where
  "hm_ok m = distinct (map fst m)"

definition hm_get :: "('k, 'v) hmap \<Rightarrow> 'k \<Rightarrow> 'v option" where
  "hm_get m k = map_of m k"

definition hm_has :: "('k, 'v) hmap \<Rightarrow> 'k \<Rightarrow> bool" where
  "hm_has m k = (map_of m k \<noteq> None)"

definition hm_put :: "'k \<Rightarrow> 'v \<Rightarrow> ('k, 'v) hmap \<Rightarrow> ('k, 'v) hmap" where
  "hm_put k v m = AList.update k v m"

definition hm_del :: "'k \<Rightarrow> ('k, 'v) hmap \<Rightarrow> ('k, 'v) hmap" where
  "hm_del k m = AList.delete k m"

lemma hm_ok_Nil [simp]: "hm_ok []"
  by (simp add: hm_ok_def)

lemma hm_get_Nil [simp]: "hm_get [] k = None"
  by (simp add: hm_get_def)

lemma hm_has_Nil [simp]: "\<not> hm_has [] k"
  by (simp add: hm_has_def)

lemma hm_has_get: "hm_has m k \<longleftrightarrow> hm_get m k \<noteq> None"
  by (simp add: hm_has_def hm_get_def)

lemma hm_get_put [simp]: "hm_get (hm_put k v m) k' = (if k' = k then Some v else hm_get m k')"
  by (simp add: hm_get_def hm_put_def update_conv)

lemma hm_get_del [simp]: "hm_get (hm_del k m) k' = (if k' = k then None else hm_get m k')"
  by (simp add: hm_get_def hm_del_def delete_conv)

lemma hm_ok_put [simp, inv_intros]: "hm_ok m \<Longrightarrow> hm_ok (hm_put k v m)"
  by (simp add: hm_ok_def hm_put_def distinct_update)

lemma hm_ok_del [simp, inv_intros]: "hm_ok m \<Longrightarrow> hm_ok (hm_del k m)"
  by (simp add: hm_ok_def hm_del_def distinct_delete)

lemma length_hm_put: "length (hm_put k v m) = (if hm_has m k then length m else Suc (length m))"
  unfolding hm_put_def hm_has_def by (induction m) auto

lemma set_hm_put_subset: "set (hm_put k v m) \<subseteq> insert (k, v) (set m)"
  unfolding hm_put_def by (induction m) auto

lemma hm_get_Some_in: "hm_get m k = Some v \<Longrightarrow> (k, v) \<in> set m"
  by (simp add: hm_get_def map_of_SomeD)

lemma hm_in_get: "hm_ok m \<Longrightarrow> (k, v) \<in> set m \<Longrightarrow> hm_get m k = Some v"
  by (simp add: hm_get_def hm_ok_def)

definition hm_keys :: "('k, 'v) hmap \<Rightarrow> 'k set" where
  "hm_keys m = fst ` set m"

lemma hm_has_keys: "hm_has m k \<longleftrightarrow> k \<in> hm_keys m"
  by (force simp: hm_has_def hm_keys_def map_of_eq_None_iff)

lemma hm_keys_put [simp]: "hm_keys (hm_put k v m) = insert k (hm_keys m)"
  unfolding hm_keys_def hm_put_def by (induction m) auto

lemma hm_keys_Nil [simp]: "hm_keys [] = {}"
  by (simp add: hm_keys_def)

lemma finite_hm_keys [simp]: "finite (hm_keys m)"
  by (simp add: hm_keys_def)

lemma card_hm_keys: "hm_ok m \<Longrightarrow> card (hm_keys m) = length m"
  unfolding hm_ok_def hm_keys_def using distinct_card [of "map fst m"] by simp

lemma hm_get_in_keys: "hm_get m k = Some v \<Longrightarrow> k \<in> hm_keys m"
  using hm_has_keys [of m k] by (simp add: hm_has_get)

text \<open>The sum of a measure over the values, and how one insertion changes it.\<close>

definition hm_sum :: "('v \<Rightarrow> nat) \<Rightarrow> ('k, 'v) hmap \<Rightarrow> nat" where
  "hm_sum f m = sum_list (map (\<lambda>(k, v). f v) m)"

lemma hm_sum_Nil [simp]: "hm_sum f [] = 0"
  by (simp add: hm_sum_def)

lemma hm_sum_put:
  "hm_sum f (hm_put k v m) + (case hm_get m k of None \<Rightarrow> 0 | Some u \<Rightarrow> f u) = hm_sum f m + f v"
  unfolding hm_sum_def hm_put_def hm_get_def by (induction m) (auto split: option.splits)

lemma hm_sum_get_le: "hm_get m k = Some v \<Longrightarrow> f v \<le> hm_sum f m"
  unfolding hm_sum_def hm_get_def by (induction m) (auto split: if_splits)

section \<open>Wrapping sequence numbers\<close>

lemma word_diff_eq_iff: "(a :: 'a::len word) - c = b - c \<longleftrightarrow> a = b"
  by simp

lemma unat_diff_eq_0 [simp]: "unat ((a :: 'a::len word) - b) = 0 \<longleftrightarrow> a = b"
  by (simp add: unat_eq_zero)

section \<open>Results\<close>

text \<open>Rust's \<open>Result<T, E>\<close> as a sum: \<open>Inl\<close> is \<open>Err\<close>, \<open>Inr\<close> is \<open>Ok\<close>.\<close>

definition is_ok :: "'e + 'a \<Rightarrow> bool" where
  "is_ok r = (case r of Inl e \<Rightarrow> False | Inr v \<Rightarrow> True)"

lemma is_ok_simps [simp]: "is_ok (Inr v)" "\<not> is_ok (Inl e)"
  by (simp_all add: is_ok_def)

definition bind_result :: "'e + 'a \<Rightarrow> ('a \<Rightarrow> 'e + 'b) \<Rightarrow> 'e + 'b" where
  "bind_result r f = (case r of Inl e \<Rightarrow> Inl e | Inr v \<Rightarrow> f v)"

lemma bind_result_simps [simp]:
  "bind_result (Inr v) f = f v" "bind_result (Inl e) f = Inl e"
  by (simp_all add: bind_result_def)

lemma bind_result_Inr [simp]: "bind_result r f = Inr v \<longleftrightarrow> (\<exists>u. r = Inr u \<and> f u = Inr v)"
  by (cases r) auto

end
