(* ===== verification/StunCodec.thy ===== *)
theory StunCodec
  imports Prelude
begin

text \<open>
  \<open>stun_codec.rs\<close>: decoding a STUN message, iterating its attributes and checking its
  fingerprint. CRC-32 is a library routine and an argument \<open>crc\<close>.
\<close>

section \<open>Data\<close>

definition HEADER_SIZE :: nat where "HEADER_SIZE = 20"
definition MAGIC_COOKIE :: u32 where "MAGIC_COOKIE = 0x2112a442"
definition ATTR_FINGERPRINT :: u16 where "ATTR_FINGERPRINT = 0x8028"
definition FINGERPRINT_XOR :: u32 where "FINGERPRINT_XOR = 0x5354554e"

datatype stun_class = Request | Indication | Success | ErrorClass

record stun_attribute =
  at_kind :: u16
  at_value :: bytes
  at_header_start :: nat
  at_value_end :: nat

record stun_message =
  sm_raw :: bytes
  sm_kind :: u16
  sm_transaction :: bytes
  sm_end :: nat

datatype stun_error =
    HeaderTruncated | LeadingBits | TypeZero | CookieMismatch | LengthNotAligned
  | LengthMismatch | AttrHeaderTruncated | AttrValueTruncated

section \<open>Operations\<close>

text \<open>\<open>(length + 3) & !3\<close>.\<close>

definition pad4 :: "nat \<Rightarrow> nat" where
  "pad4 n = (n + 3) div 4 * 4"

definition be16_at :: "bytes \<Rightarrow> nat \<Rightarrow> u16" where
  "be16_at raw i = u16_of_be [raw ! i, raw ! (i + 1)]"

text \<open>The loop of \<open>decode\<close> over the attribute headers.\<close>

function check_attributes :: "bytes \<Rightarrow> nat \<Rightarrow> nat \<Rightarrow> stun_error option" where
  "check_attributes raw pos end =
    (if end \<le> pos then None
     else if end - pos < 4 then Some AttrHeaderTruncated
     else let len = unat (be16_at raw (pos + 2));
              value_start = pos + 4;
              next = value_start + pad4 len
          in if end < next \<or> end < value_start + len then Some AttrValueTruncated
             else check_attributes raw next end)"
  by pat_completeness auto
termination
  by (relation "measure (\<lambda>(raw, pos, end). end - pos)") auto

declare check_attributes.simps [simp del]

definition stun_decode :: "bytes \<Rightarrow> stun_error + stun_message" where
  "stun_decode raw =
    (if length raw < HEADER_SIZE then Inl HeaderTruncated else
     let kind = be16_at raw 0 in
     if kind AND 0xc000 \<noteq> 0 then Inl LeadingBits
     else if kind = 0 then Inl TypeZero
     else if subslice raw 4 8 \<noteq> u32_to_be MAGIC_COOKIE then Inl CookieMismatch
     else let declared = unat (be16_at raw 2) in
     if declared mod 4 \<noteq> 0 then Inl LengthNotAligned
     else let end = HEADER_SIZE + declared in
     if length raw \<noteq> end then Inl LengthMismatch
     else case check_attributes raw HEADER_SIZE end of
       Some e \<Rightarrow> Inl e
     | None \<Rightarrow> Inr \<lparr>sm_raw = raw, sm_kind = kind, sm_transaction = subslice raw 8 20, sm_end = end\<rparr>)"

definition stun_class_of :: "stun_message \<Rightarrow> stun_class" where
  "stun_class_of m =
    (let c = (drop_bit 4 (sm_kind m) AND 1) OR (drop_bit 7 (sm_kind m) AND 2)
     in if c = 0 then Request else if c = 1 then Indication else if c = 2 then Success else ErrorClass)"

definition stun_method :: "stun_message \<Rightarrow> u16" where
  "stun_method m = (sm_kind m AND 0x000f) OR (drop_bit 1 (sm_kind m) AND 0x0070)
     OR (drop_bit 2 (sm_kind m) AND 0x0f80)"

text \<open>One step of the attribute iterator, and the attributes it yields.\<close>

definition attribute_at :: "bytes \<Rightarrow> nat \<Rightarrow> stun_attribute" where
  "attribute_at raw p =
    (let kind = be16_at raw p; len = unat (be16_at raw (p + 2))
     in \<lparr>at_kind = (if kind = 0x8020 then 0x0020 else kind),
         at_value = subslice raw (p + 4) (p + 4 + len), at_header_start = p,
         at_value_end = p + 4 + len\<rparr>)"

function attributes_from :: "bytes \<Rightarrow> nat \<Rightarrow> nat \<Rightarrow> stun_attribute list" where
  "attributes_from raw pos end =
    (if end \<le> pos then []
     else attribute_at raw pos
       # attributes_from raw (pos + 4 + pad4 (unat (be16_at raw (pos + 2)))) end)"
  by pat_completeness auto
termination
  by (relation "measure (\<lambda>(raw, pos, end). end - pos)") auto

declare attributes_from.simps [simp del]

definition attributes :: "stun_message \<Rightarrow> stun_attribute list" where
  "attributes m = attributes_from (sm_raw m) HEADER_SIZE (sm_end m)"

definition attribute :: "u16 \<Rightarrow> stun_message \<Rightarrow> stun_attribute option" where
  "attribute target m = find (\<lambda>a. at_kind a = target) (attributes m)"

definition fingerprint_valid :: "(bytes \<Rightarrow> u32) \<Rightarrow> stun_message \<Rightarrow> bool option" where
  "fingerprint_valid crc m = (case attribute ATTR_FINGERPRINT m of None \<Rightarrow> None
     | Some a \<Rightarrow>
       if length (at_value a) \<noteq> 4 \<or> at_header_start a + 8 \<noteq> sm_end m then Some False
       else Some (u32_of_be (at_value a) = crc (take (at_header_start a) (sm_raw m)) XOR FINGERPRINT_XOR))"

section \<open>Lemmas\<close>

lemma pad4_props: "n \<le> pad4 n" "pad4 n < n + 4" "4 dvd pad4 n"
  unfolding pad4_def by simp_all

lemma pad4_id: "4 dvd n \<Longrightarrow> pad4 n = n"
  unfolding pad4_def by (elim dvdE) simp

lemma decode_Inr:
  assumes "stun_decode raw = Inr m"
  shows "sm_raw m = raw" "sm_end m = length raw" "HEADER_SIZE \<le> length raw" "4 dvd length raw"
    "check_attributes raw HEADER_SIZE (length raw) = None" "sm_transaction m = subslice raw 8 20"
    "sm_kind m = be16_at raw 0"
  using assms
  by (auto simp: stun_decode_def Let_def HEADER_SIZE_def mod_eq_0_iff_dvd split: if_splits option.splits)

text \<open>An attribute lies inside the message.\<close>

definition attribute_ok :: "bytes \<Rightarrow> stun_attribute \<Rightarrow> bool" where
  "attribute_ok raw a \<longleftrightarrow> HEADER_SIZE \<le> at_header_start a \<and> 4 dvd at_header_start a
     \<and> at_header_start a + 4 + length (at_value a) = at_value_end a \<and> at_value_end a \<le> length raw
     \<and> at_value a = subslice raw (at_header_start a + 4) (at_value_end a)"

lemma attribute_at_ok:
  assumes "HEADER_SIZE \<le> p" "4 dvd p" "p + 4 + unat (be16_at raw (p + 2)) \<le> length raw"
  shows "attribute_ok raw (attribute_at raw p)"
  using assms by (simp add: attribute_ok_def attribute_at_def Let_def length_subslice)

text \<open>Successive attributes do not overlap.\<close>

definition follows :: "stun_attribute \<Rightarrow> stun_attribute \<Rightarrow> bool" where
  "follows a b \<longleftrightarrow> at_value_end a \<le> at_header_start b"

lemma checked_attributes:
  assumes "check_attributes raw p (length raw) = None" "HEADER_SIZE \<le> p" "4 dvd p"
  shows "(\<forall>a\<in>set (attributes_from raw p (length raw)). attribute_ok raw a \<and> p \<le> at_header_start a)
    \<and> sorted_wrt follows (attributes_from raw p (length raw))"
  using assms
proof (induction raw p "length raw" rule: check_attributes.induct)
  case (1 raw p)
  show ?case
  proof (cases "length raw \<le> p")
    case True
    thus ?thesis by (simp add: attributes_from.simps)
  next
    case False
    let ?len = "unat (be16_at raw (p + 2))" and ?next = "p + 4 + pad4 (unat (be16_at raw (p + 2)))"
    have st: "\<not> length raw - p < 4" "?next \<le> length raw" "p + 4 + ?len \<le> length raw"
      "check_attributes raw ?next (length raw) = None"
      using 1(2) False by (subst (asm) check_attributes.simps, auto simp: Let_def not_less split: if_splits)+
    have IH: "(\<forall>a\<in>set (attributes_from raw ?next (length raw)). attribute_ok raw a \<and> ?next \<le> at_header_start a)
      \<and> sorted_wrt follows (attributes_from raw ?next (length raw))"
      using 1(1) [OF False st(1) refl refl refl] st 1(3,4) pad4_props [of ?len] by simp
    have now: "attribute_ok raw (attribute_at raw p)" by (rule attribute_at_ok [OF 1(3,4) st(3)])
    have "p + 4 + ?len \<le> ?next" using pad4_props [of ?len] by simp
    thus ?thesis using IH now False
      by (subst (1 2) attributes_from.simps)
         (fastforce simp: attribute_at_def Let_def follows_def)
  qed
qed

lemma attribute_SomeD: "attribute k m = Some a \<Longrightarrow> a \<in> set (attributes m) \<and> at_kind a = k"
  by (auto simp: attribute_def find_Some_iff)

lemma decoded_attributes:
  assumes "stun_decode raw = Inr m"
  shows "\<forall>a\<in>set (attributes m). attribute_ok raw a" "sorted_wrt follows (attributes m)"
  using checked_attributes [OF decode_Inr(5) [OF assms]] decode_Inr(1,2) [OF assms]
  by (auto simp: attributes_def HEADER_SIZE_def)

section \<open>Properties\<close>

text \<open>Decoding accepts only datagrams whose attributes all lie inside the datagram: every attribute
  the iterator yields has a 4-aligned header behind the STUN header, a value that is exactly the bytes its
  length declares, and ends before the next one starts and within the datagram, so no index of
  the iterator or of its callers is out of bounds.\<close>

theorem stun_attributes_in_bounds:
  assumes "stun_decode raw = Inr m"
  shows "(\<forall>a\<in>set (attributes m). attribute_ok raw a) \<and> sorted_wrt follows (attributes m)
    \<and> length (sm_transaction m) = 12 \<and> sm_end m = length raw"
  using decoded_attributes [OF assms] decode_Inr [OF assms] by (simp add: length_subslice HEADER_SIZE_def)

text \<open>An Allocate success response with one SOFTWARE attribute of three bytes.\<close>

definition sample_stun :: bytes where
  "sample_stun = [0x01, 0x03, 0, 8, 0x21, 0x12, 0xa4, 0x42, 1, 2, 3, 4, 5, 6, 7, 8, 9, 10, 11, 12,
     0x80, 0x22, 0, 3, 65, 66, 67, 0]"

lemma stun_attributes_in_bounds_witness:
  "\<exists>m. stun_decode sample_stun = Inr m \<and> length (attributes m) = 1 \<and> (\<forall>a. a \<in> set (attributes m) = (a \<in> set (attributes m) \<and> attribute_ok sample_stun a))"
proof -
  have d: "stun_decode sample_stun = Inr \<lparr>sm_raw = sample_stun, sm_kind = 0x0103,
      sm_transaction = [1, 2, 3, 4, 5, 6, 7, 8, 9, 10, 11, 12], sm_end = 28\<rparr>"
    by code_simp
  have "length (attributes \<lparr>sm_raw = sample_stun, sm_kind = 0x0103,
      sm_transaction = [1, 2, 3, 4, 5, 6, 7, 8, 9, 10, 11, 12], sm_end = 28\<rparr>) = 1"
    by code_simp
  thus ?thesis using stun_attributes_in_bounds [OF d] d by blast
qed

end
