(* ===== verification/TurnMessage.thy ===== *)
theory TurnMessage
  imports StunCodec
begin

text \<open>
  The message level of \<open>turn_core.rs\<close>: building STUN requests (\<open>MessageBuilder\<close>), the integrity
  check of responses, the XOR-mapped addresses and the readers of single attributes. HMAC-SHA1,
  MD5 and CRC-32 are library routines; they are the fields of a record that the definitions take.
\<close>

section \<open>Addresses and cryptographic routines\<close>

datatype ip_addr = V4 u32 | V6 bytes

record socket_addr =
  sa_ip :: ip_addr
  sa_port :: u16

definition is_ipv4 :: "socket_addr \<Rightarrow> bool" where
  "is_ipv4 a = (case sa_ip a of V4 w \<Rightarrow> True | V6 bs \<Rightarrow> False)"

text \<open>An IPv6 address has 16 octets.\<close>

definition addr_ok :: "socket_addr \<Rightarrow> bool" where
  "addr_ok a = (case sa_ip a of V4 w \<Rightarrow> True | V6 bs \<Rightarrow> length bs = 16)"

record crypto =
  cr_crc32 :: "bytes \<Rightarrow> u32"
  cr_hmac_sha1 :: "bytes \<Rightarrow> bytes \<Rightarrow> bytes"
  cr_md5 :: "bytes \<Rightarrow> bytes"

text \<open>Documented sizes of the digests.\<close>

definition crypto_sizes :: "crypto \<Rightarrow> bool" where
  "crypto_sizes cr \<longleftrightarrow> (\<forall>k m. length (cr_hmac_sha1 cr k m) = 20) \<and> (\<forall>m. length (cr_md5 cr m) = 16)"

section \<open>Attribute kinds\<close>

definition ATTR_USERNAME :: u16 where "ATTR_USERNAME = 0x0006"
definition ATTR_MESSAGE_INTEGRITY :: u16 where "ATTR_MESSAGE_INTEGRITY = 0x0008"
definition ATTR_ERROR_CODE :: u16 where "ATTR_ERROR_CODE = 0x0009"
definition ATTR_CHANNEL_NUMBER :: u16 where "ATTR_CHANNEL_NUMBER = 0x000c"
definition ATTR_LIFETIME :: u16 where "ATTR_LIFETIME = 0x000d"
definition ATTR_XOR_PEER_ADDRESS :: u16 where "ATTR_XOR_PEER_ADDRESS = 0x0012"
definition ATTR_REALM :: u16 where "ATTR_REALM = 0x0014"
definition ATTR_NONCE :: u16 where "ATTR_NONCE = 0x0015"
definition ATTR_XOR_RELAYED_ADDRESS :: u16 where "ATTR_XOR_RELAYED_ADDRESS = 0x0016"
definition ATTR_REQUESTED_ADDRESS_FAMILY :: u16 where "ATTR_REQUESTED_ADDRESS_FAMILY = 0x0017"
definition ATTR_REQUESTED_TRANSPORT :: u16 where "ATTR_REQUESTED_TRANSPORT = 0x0019"

lemmas attr_defs = ATTR_USERNAME_def ATTR_MESSAGE_INTEGRITY_def ATTR_ERROR_CODE_def
  ATTR_CHANNEL_NUMBER_def ATTR_LIFETIME_def ATTR_XOR_PEER_ADDRESS_def ATTR_REALM_def ATTR_NONCE_def
  ATTR_XOR_RELAYED_ADDRESS_def ATTR_REQUESTED_ADDRESS_FAMILY_def ATTR_REQUESTED_TRANSPORT_def
  ATTR_FINGERPRINT_def

section \<open>Addresses under the XOR mask\<close>

definition xor_mask :: "bytes \<Rightarrow> bytes" where
  "xor_mask transaction = u32_to_be MAGIC_COOKIE @ transaction"

definition xor_bytes :: "bytes \<Rightarrow> bytes \<Rightarrow> bytes" where
  "xor_bytes = map2 (\<lambda>a b. a XOR b)"

definition encode_xor_address :: "socket_addr \<Rightarrow> bytes \<Rightarrow> bytes" where
  "encode_xor_address a transaction =
     [0, if is_ipv4 a then 1 else 2] @ u16_to_be (sa_port a XOR 0x2112)
     @ (case sa_ip a of V4 w \<Rightarrow> u32_to_be (w XOR MAGIC_COOKIE)
        | V6 octets \<Rightarrow> xor_bytes octets (xor_mask transaction))"

datatype address_error = AddressMalformed | AddressFamilyInvalid

definition decode_xor_address :: "bytes \<Rightarrow> bytes \<Rightarrow> address_error + socket_addr" where
  "decode_xor_address v transaction =
    (if length v < 4 \<or> v ! 0 \<noteq> 0 then Inl AddressMalformed else
     let port = be16_at v 2 XOR 0x2112 in
     if v ! 1 = 1 \<and> length v = 8 then
       Inr \<lparr>sa_ip = V4 (u32_of_be (subslice v 4 8) XOR MAGIC_COOKIE), sa_port = port\<rparr>
     else if v ! 1 = 2 \<and> length v = 20 then
       Inr \<lparr>sa_ip = V6 (xor_bytes (drop 4 v) (xor_mask transaction)), sa_port = port\<rparr>
     else Inl AddressFamilyInvalid)"

section \<open>The builder\<close>

record builder =
  mb_bytes :: bytes
  mb_transaction :: bytes

definition with_transaction :: "u16 \<Rightarrow> bytes \<Rightarrow> builder" where
  "with_transaction kind transaction =
     \<lparr>mb_bytes = u16_to_be kind @ u16_to_be 0 @ u32_to_be MAGIC_COOKIE @ transaction,
      mb_transaction = transaction\<rparr>"

text \<open>Zero bytes up to the next multiple of four of the whole message.\<close>

definition zero_pad :: "bytes \<Rightarrow> bytes" where
  "zero_pad bs = bs @ replicate (pad4 (length bs) - length bs) 0"

definition add_attribute :: "u16 \<Rightarrow> bytes \<Rightarrow> builder \<Rightarrow> builder" where
  "add_attribute kind v b = b\<lparr>mb_bytes := zero_pad
     (mb_bytes b @ u16_to_be kind @ u16_to_be (word_of_nat (length v)) @ v)\<rparr>"

definition add_xor_address :: "u16 \<Rightarrow> socket_addr \<Rightarrow> builder \<Rightarrow> builder" where
  "add_xor_address kind a b = add_attribute kind (encode_xor_address a (mb_transaction b)) b"

text \<open>\<open>set_message_length\<close> fails when the length does not fit the 16-bit field.\<close>

definition set_message_length :: "nat \<Rightarrow> bytes \<Rightarrow> bytes option" where
  "set_message_length trailing bs =
    (let len = length bs - 20 + trailing
     in if len < 2 ^ 16 then Some (take 2 bs @ u16_to_be (word_of_nat len) @ drop 4 bs) else None)"

definition finish :: "(bytes \<Rightarrow> u32) \<Rightarrow> builder \<Rightarrow> bytes option" where
  "finish crc b = (case set_message_length 8 (mb_bytes b) of None \<Rightarrow> None
     | Some bs \<Rightarrow> Some (mb_bytes (add_attribute ATTR_FINGERPRINT
         (u32_to_be (crc bs XOR FINGERPRINT_XOR)) (b\<lparr>mb_bytes := bs\<rparr>))))"

definition finish_authenticated :: "crypto \<Rightarrow> bytes \<Rightarrow> builder \<Rightarrow> bytes option" where
  "finish_authenticated cr key b = (case set_message_length 24 (mb_bytes b) of None \<Rightarrow> None
     | Some bs \<Rightarrow> finish (cr_crc32 cr) (add_attribute ATTR_MESSAGE_INTEGRITY (cr_hmac_sha1 cr key bs)
         (b\<lparr>mb_bytes := bs\<rparr>)))"

section \<open>Reading responses\<close>

definition verify_integrity :: "crypto \<Rightarrow> bytes \<Rightarrow> stun_message \<Rightarrow> bytes option \<Rightarrow> bool" where
  "verify_integrity cr packet m key = (case (key, attribute ATTR_MESSAGE_INTEGRITY m) of
     (Some k, Some integrity) \<Rightarrow>
       if length (at_value integrity) \<noteq> 20 \<or> at_header_start integrity < 20 then False
       else if 2 ^ 16 \<le> at_header_start integrity + 24 - 20 then False
       else let signed = take (at_header_start integrity) packet;
                signed' = take 2 signed @ u16_to_be (word_of_nat (at_header_start integrity + 24 - 20))
                            @ drop 4 signed
            in cr_hmac_sha1 cr k signed' = at_value integrity
   | _ \<Rightarrow> False)"

definition error_code :: "stun_message \<Rightarrow> nat option" where
  "error_code m = (case attribute ATTR_ERROR_CODE m of None \<Rightarrow> None
     | Some a \<Rightarrow> let v = at_value a in
       if length v < 4 \<or> 6 < v ! 2 \<or> 99 < v ! 3 then None
       else Some (unat (v ! 2) * 100 + unat (v ! 3)))"

definition response_requires_integrity :: "stun_message \<Rightarrow> bool" where
  "response_requires_integrity m = (case stun_class_of m of
     Success \<Rightarrow> True
   | ErrorClass \<Rightarrow> error_code m \<notin> {Some 400, Some 401, Some 420, Some 438}
   | _ \<Rightarrow> False)"

definition is_fingerprinted_allocation_mismatch :: "(bytes \<Rightarrow> u32) \<Rightarrow> stun_message \<Rightarrow> bool" where
  "is_fingerprinted_allocation_mismatch crc m \<longleftrightarrow> stun_class_of m = ErrorClass
     \<and> error_code m = Some 437 \<and> fingerprint_valid crc m = Some True"

definition attribute_u32 :: "stun_message \<Rightarrow> u16 \<Rightarrow> nat option" where
  "attribute_u32 m kind = (case attribute kind m of None \<Rightarrow> None
     | Some a \<Rightarrow> if length (at_value a) = 4 then Some (unat (u32_of_be (at_value a))) else None)"

section \<open>Address lemmas\<close>

lemma length_xor_bytes [simp]: "length (xor_bytes a b) = min (length a) (length b)"
  by (simp add: xor_bytes_def)

lemma xor_bytes_self: "length a \<le> length m \<Longrightarrow> xor_bytes (xor_bytes a m) m = a"
  by (rule nth_equalityI) (auto simp: xor_bytes_def xor.assoc)

lemma xor_cancel: "((a :: 'a::len word) XOR k) XOR k = a"
  by (simp add: xor.assoc)

lemma be16_u16 [simp]: "be16_at (x # y # u16_to_be w @ r) 2 = w"
proof -
  obtain a b where ab: "u16_to_be w = [a, b]"
    by (metis (no_types) length_uN_to_be(1) length_0_conv length_Suc_conv numeral_2_eq_2)
  show ?thesis using u16_of_to_be [of w] by (simp add: be16_at_def ab)
qed

lemma xor_address_roundtrip:
  assumes "addr_ok a" "length transaction = 12"
  shows "decode_xor_address (encode_xor_address a transaction) transaction = Inr a"
proof (cases "sa_ip a")
  case (V4 w)
  have "subslice (encode_xor_address a transaction) 4 8 = u32_to_be (w XOR MAGIC_COOKIE)"
    by (simp add: encode_xor_address_def V4 subslice_def is_ipv4_def u16_to_be_def numeral_2_eq_2)
  thus ?thesis using V4
    by (simp add: decode_xor_address_def encode_xor_address_def is_ipv4_def xor_cancel)
next
  case (V6 octets)
  have l: "length octets = 16" using assms(1) V6 by (simp add: addr_ok_def)
  have "drop 4 (encode_xor_address a transaction) = xor_bytes octets (xor_mask transaction)"
    by (simp add: encode_xor_address_def V6 is_ipv4_def u16_to_be_def numeral_2_eq_2)
  thus ?thesis using V6 l assms(2)
    by (simp add: decode_xor_address_def encode_xor_address_def is_ipv4_def xor_cancel xor_bytes_self xor_mask_def)
qed

lemma decode_xor_sound:
  assumes "decode_xor_address v transaction = Inr a" "length transaction = 12"
  shows "addr_ok a \<and> encode_xor_address a transaction = v"
proof -
  have len: "4 \<le> length v" and v0: "v ! 0 = 0"
    using assms(1) by (auto simp: decode_xor_address_def split: if_splits)
  have split: "v = [v ! 0, v ! 1] @ [v ! 2, v ! 3] @ drop 4 v"
    using len by (auto simp: numeral_eq_Suc Suc_le_length_iff)
  have port: "u16_to_be (be16_at v 2) = [v ! 2, v ! 3]" by (simp add: be16_at_def u16_to_of_be)
  consider (ipv4) "v ! 1 = 1" "length v = 8"
      "a = \<lparr>sa_ip = V4 (u32_of_be (subslice v 4 8) XOR MAGIC_COOKIE), sa_port = be16_at v 2 XOR 0x2112\<rparr>"
    | (ipv6) "v ! 1 = 2" "length v = 20"
      "a = \<lparr>sa_ip = V6 (xor_bytes (drop 4 v) (xor_mask transaction)), sa_port = be16_at v 2 XOR 0x2112\<rparr>"
    using assms(1) by (auto simp: decode_xor_address_def Let_def split: if_splits)
  thus ?thesis
  proof cases
    case ipv4
    have "u32_to_be (u32_of_be (subslice v 4 8)) = drop 4 v"
      using ipv4(2) subslice_drop [of v 4] by (simp add: u32_to_of_be length_subslice)
    hence "encode_xor_address a transaction = [0, 1] @ [v ! 2, v ! 3] @ drop 4 v"
      using port by (simp add: ipv4(3) encode_xor_address_def is_ipv4_def xor_cancel)
    thus ?thesis using split v0 ipv4 by (simp add: addr_ok_def)
  next
    case ipv6
    hence "encode_xor_address a transaction = [0, 2] @ [v ! 2, v ! 3] @ drop 4 v"
      using port assms(2) by (simp add: encode_xor_address_def is_ipv4_def xor_cancel xor_bytes_self xor_mask_def)
    thus ?thesis using split v0 ipv6 assms(2) by (simp add: addr_ok_def xor_mask_def)
  qed
qed

section \<open>What the builder produces\<close>

text \<open>The bytes of one attribute, and of a list of them, at a 4-aligned position.\<close>

definition attr_bytes :: "u16 \<times> bytes \<Rightarrow> bytes" where
  "attr_bytes kv = (case kv of (k, v) \<Rightarrow>
     u16_to_be k @ u16_to_be (word_of_nat (length v)) @ v @ replicate (pad4 (length v) - length v) 0)"

definition attrs_bytes :: "(u16 \<times> bytes) list \<Rightarrow> bytes" where
  "attrs_bytes kvs = concat (map attr_bytes kvs)"

definition message_header :: "u16 \<Rightarrow> nat \<Rightarrow> bytes \<Rightarrow> bytes" where
  "message_header kind len transaction =
     u16_to_be kind @ u16_to_be (word_of_nat len) @ u32_to_be MAGIC_COOKIE @ transaction"

lemma length_message_header [simp]: "length (message_header k n t) = 8 + length t"
  by (simp add: message_header_def)

lemma pad4_add: "4 dvd n \<Longrightarrow> pad4 (n + m) = n + pad4 m"
  unfolding pad4_def by presburger

lemma length_attr_bytes: "length (attr_bytes (k, v)) = 4 + pad4 (length v)"
  using pad4_props(1) [of "length v"] by (simp add: attr_bytes_def)

lemma length_attr_bytes_dvd: "4 dvd length (attr_bytes kv)"
  by (cases kv) (simp add: length_attr_bytes pad4_props(3))

lemma length_attrs_bytes_dvd: "4 dvd length (attrs_bytes kvs)"
  by (induction kvs) (auto simp: attrs_bytes_def length_attr_bytes_dvd)

lemma attrs_bytes_simps [simp]:
  "attrs_bytes [] = []" "attrs_bytes (kv # kvs) = attr_bytes kv @ attrs_bytes kvs"
  "attrs_bytes (xs @ ys) = attrs_bytes xs @ attrs_bytes ys"
  by (simp_all add: attrs_bytes_def)

text \<open>The builder's state after a list of attributes.\<close>

definition built :: "builder \<Rightarrow> u16 \<Rightarrow> nat \<Rightarrow> bytes \<Rightarrow> (u16 \<times> bytes) list \<Rightarrow> bool" where
  "built b kind len transaction kvs \<longleftrightarrow> mb_bytes b = message_header kind len transaction @ attrs_bytes kvs
     \<and> mb_transaction b = transaction"

lemma built_start: "built (with_transaction kind t) kind 0 t []"
  by (simp add: built_def with_transaction_def message_header_def)

lemma built_add:
  assumes "built b kind n t kvs" "length t = 12"
  shows "built (add_attribute k v b) kind n t (kvs @ [(k, v)])"
proof -
  let ?pre = "message_header kind n t @ attrs_bytes kvs"
  have d: "4 dvd length ?pre" using assms(2) length_attrs_bytes_dvd [of kvs] by (simp add: dvd_add)
  hence "pad4 (length ?pre + (4 + length v)) = length ?pre + pad4 (4 + length v)" by (rule pad4_add)
  also have "pad4 (4 + length v) = 4 + pad4 (length v)" by (rule pad4_add) simp
  finally have "pad4 (length ?pre + (4 + length v)) - (length ?pre + (4 + length v)) = pad4 (length v) - length v"
    by simp
  thus ?thesis using assms
    by (simp add: built_def add_attribute_def zero_pad_def attr_bytes_def)
qed

lemma built_xor: "built b kind n t kvs \<Longrightarrow> length t = 12
   \<Longrightarrow> built (add_xor_address k a b) kind n t (kvs @ [(k, encode_xor_address a t)])"
  using built_add [of b kind n t kvs k "encode_xor_address a t"]
  by (cases "mb_transaction b = t") (simp_all add: add_xor_address_def, simp add: built_def)

lemma built_length:
  assumes "built b kind n t kvs" "length t = 12" "set_message_length trailing (mb_bytes b) = Some bs"
  shows "bs = message_header kind (length (attrs_bytes kvs) + trailing) t @ attrs_bytes kvs"
    "length (attrs_bytes kvs) + trailing < 2 ^ 16"
  using assms by (auto simp: set_message_length_def built_def message_header_def Let_def split: if_splits)

fun add_attributes :: "(u16 \<times> bytes) list \<Rightarrow> builder \<Rightarrow> builder" where
  "add_attributes [] b = b"
| "add_attributes ((k, v) # kvs) b = add_attributes kvs (add_attribute k v b)"

lemma built_add_attributes:
  "built b kind n t xs \<Longrightarrow> length t = 12 \<Longrightarrow> built (add_attributes kvs b) kind n t (xs @ kvs)"
proof (induction kvs b arbitrary: xs rule: add_attributes.induct)
  case (2 k v kvs b)
  thus ?case using 2(1) [OF built_add [OF 2(2,3)]] by simp
qed simp

text \<open>Both kinds of request as header and attributes.\<close>

definition fingerprint_of :: "(bytes \<Rightarrow> u32) \<Rightarrow> u16 \<Rightarrow> bytes \<Rightarrow> (u16 \<times> bytes) list \<Rightarrow> bytes" where
  "fingerprint_of crc kind t kvs =
     u32_to_be (crc (message_header kind (length (attrs_bytes kvs) + 8) t @ attrs_bytes kvs) XOR FINGERPRINT_XOR)"

definition message_bytes :: "u16 \<Rightarrow> bytes \<Rightarrow> (u16 \<times> bytes) list \<Rightarrow> bytes" where
  "message_bytes kind t kvs = message_header kind (length (attrs_bytes kvs)) t @ attrs_bytes kvs"

lemma finish_bytes:
  assumes "built b kind n t kvs" "length t = 12" "finish crc b = Some p"
  shows "p = message_bytes kind t (kvs @ [(ATTR_FINGERPRINT, fingerprint_of crc kind t kvs)])"
    "length (attrs_bytes kvs) + 8 < 2 ^ 16"
proof -
  obtain bs where bs: "set_message_length 8 (mb_bytes b) = Some bs"
    "p = mb_bytes (add_attribute ATTR_FINGERPRINT (u32_to_be (crc bs XOR FINGERPRINT_XOR)) (b\<lparr>mb_bytes := bs\<rparr>))"
    using assms(3) by (auto simp: finish_def split: option.splits)
  note len = built_length [OF assms(1,2) bs(1)]
  have "built (b\<lparr>mb_bytes := bs\<rparr>) kind (length (attrs_bytes kvs) + 8) t kvs"
    using assms(1) len(1) by (simp add: built_def)
  from built_add [OF this assms(2)]
  show "p = message_bytes kind t (kvs @ [(ATTR_FINGERPRINT, fingerprint_of crc kind t kvs)])"
    using bs(2) len(1) by (simp add: built_def message_bytes_def fingerprint_of_def length_attr_bytes pad4_def)
  show "length (attrs_bytes kvs) + 8 < 2 ^ 16" by (rule len(2))
qed

definition integrity_of :: "crypto \<Rightarrow> bytes \<Rightarrow> u16 \<Rightarrow> bytes \<Rightarrow> (u16 \<times> bytes) list \<Rightarrow> bytes" where
  "integrity_of cr key kind t kvs =
     cr_hmac_sha1 cr key (message_header kind (length (attrs_bytes kvs) + 24) t @ attrs_bytes kvs)"

definition signed_attrs :: "crypto \<Rightarrow> bytes \<Rightarrow> u16 \<Rightarrow> bytes \<Rightarrow> (u16 \<times> bytes) list \<Rightarrow> (u16 \<times> bytes) list" where
  "signed_attrs cr key kind t kvs = kvs @ [(ATTR_MESSAGE_INTEGRITY, integrity_of cr key kind t kvs)]"

definition final_attrs :: "(bytes \<Rightarrow> u32) \<Rightarrow> u16 \<Rightarrow> bytes \<Rightarrow> (u16 \<times> bytes) list \<Rightarrow> (u16 \<times> bytes) list" where
  "final_attrs crc kind t kvs = kvs @ [(ATTR_FINGERPRINT, fingerprint_of crc kind t kvs)]"

lemma finish_authenticated_bytes:
  assumes "built b kind n t kvs" "length t = 12" "finish_authenticated cr key b = Some p"
  shows "p = message_bytes kind t (final_attrs (cr_crc32 cr) kind t (signed_attrs cr key kind t kvs))"
    "length (attrs_bytes (signed_attrs cr key kind t kvs)) + 8 < 2 ^ 16"
proof -
  obtain bs where bs: "set_message_length 24 (mb_bytes b) = Some bs"
    "finish (cr_crc32 cr) (add_attribute ATTR_MESSAGE_INTEGRITY (cr_hmac_sha1 cr key bs) (b\<lparr>mb_bytes := bs\<rparr>)) = Some p"
    using assms(3) by (auto simp: finish_authenticated_def split: option.splits)
  note len = built_length [OF assms(1,2) bs(1)]
  have "built (b\<lparr>mb_bytes := bs\<rparr>) kind (length (attrs_bytes kvs) + 24) t kvs"
    using assms(1) len(1) by (simp add: built_def)
  from built_add [OF this assms(2), of ATTR_MESSAGE_INTEGRITY "cr_hmac_sha1 cr key bs"]
  have "built (add_attribute ATTR_MESSAGE_INTEGRITY (cr_hmac_sha1 cr key bs) (b\<lparr>mb_bytes := bs\<rparr>)) kind
      (length (attrs_bytes kvs) + 24) t (signed_attrs cr key kind t kvs)"
    using len(1) by (simp add: signed_attrs_def integrity_of_def)
  from finish_bytes [OF this assms(2) bs(2)]
  show "p = message_bytes kind t (final_attrs (cr_crc32 cr) kind t (signed_attrs cr key kind t kvs))"
    "length (attrs_bytes (signed_attrs cr key kind t kvs)) + 8 < 2 ^ 16"
    by (simp_all add: final_attrs_def)
qed

lemma length_set_message_length:
  "set_message_length n bs = Some bs' \<Longrightarrow> 4 \<le> length bs \<Longrightarrow> length bs' = length bs"
  by (auto simp: set_message_length_def Let_def split: if_splits)

lemma set_message_length_Some: "length bs - 20 + n < 2 ^ 16 \<Longrightarrow> \<exists>bs'. set_message_length n bs = Some bs'"
  by (simp add: set_message_length_def)

text \<open>A request of up to 60000 bytes is always built.\<close>

lemma finish_authenticated_total:
  assumes "4 \<le> length (mb_bytes b)" "length (mb_bytes b) \<le> 60000" "crypto_sizes cr"
  shows "\<exists>p. finish_authenticated cr key b = Some p"
proof -
  obtain bs where bs: "set_message_length 24 (mb_bytes b) = Some bs"
    using assms(2) by (cases "set_message_length 24 (mb_bytes b)")
      (auto simp: set_message_length_def Let_def split: if_splits)
  let ?b = "add_attribute ATTR_MESSAGE_INTEGRITY (cr_hmac_sha1 cr key bs) (b\<lparr>mb_bytes := bs\<rparr>)"
  have "length (mb_bytes ?b) = pad4 (length bs + 24)"
    using assms(3) pad4_props(1) [of "length bs + 24"]
    by (simp add: add_attribute_def zero_pad_def crypto_sizes_def add.commute)
  hence "length (mb_bytes ?b) < 60100"
    using pad4_props(2) [of "length bs + 24"] assms(2) length_set_message_length [OF bs assms(1)] by simp
  hence "\<exists>bs'. set_message_length 8 (mb_bytes ?b) = Some bs'" by (intro set_message_length_Some) simp
  thus ?thesis by (auto simp: finish_authenticated_def bs finish_def)
qed

section \<open>Decoding what was built\<close>

text \<open>The attributes a decoder should see: kind \<open>0x8020\<close> is the old XOR-MAPPED-ADDRESS.\<close>

definition seen_kind :: "u16 \<Rightarrow> u16" where
  "seen_kind k = (if k = 0x8020 then 0x0020 else k)"

definition seen :: "stun_attribute \<Rightarrow> u16 \<times> bytes" where
  "seen a = (at_kind a, at_value a)"

definition small_values :: "(u16 \<times> bytes) list \<Rightarrow> bool" where
  "small_values kvs \<longleftrightarrow> (\<forall>(k, v)\<in>set kvs. length v < 2 ^ 16)"

lemma be16_at_append: "length pre = p \<Longrightarrow> be16_at (pre @ u16_to_be w @ rest) p = w"
proof -
  assume p: "length pre = p"
  obtain a b where ab: "u16_to_be w = [a, b]"
    by (metis (no_types) length_uN_to_be(1) length_0_conv length_Suc_conv numeral_2_eq_2)
  show ?thesis using u16_of_to_be [of w] p by (simp add: be16_at_def ab nth_append)
qed

lemma attr_header:
  assumes "length pre = p" "length v < 2 ^ 16"
  shows "be16_at (pre @ attr_bytes (k, v) @ rest) p = k"
    "unat (be16_at (pre @ attr_bytes (k, v) @ rest) (p + 2)) = length v"
    "subslice (pre @ attr_bytes (k, v) @ rest) (p + 4) (p + 4 + length v) = v"
proof -
  show "be16_at (pre @ attr_bytes (k, v) @ rest) p = k"
    using be16_at_append [OF assms(1)] by (simp add: attr_bytes_def)
  have "be16_at ((pre @ u16_to_be k) @ u16_to_be (word_of_nat (length v))
      @ (v @ replicate (pad4 (length v) - length v) 0 @ rest)) (p + 2) = word_of_nat (length v)"
    by (rule be16_at_append) (simp add: assms(1))
  thus "unat (be16_at (pre @ attr_bytes (k, v) @ rest) (p + 2)) = length v"
    using assms(2) by (simp add: attr_bytes_def unat_of_nat take_bit_nat_eq_self)
  show "subslice (pre @ attr_bytes (k, v) @ rest) (p + 4) (p + 4 + length v) = v"
    using assms(1) by (simp add: attr_bytes_def subslice_def)
qed

text \<open>Walking over a built message: the check passes and the iterator yields the attributes.\<close>

lemma walk_built:
  assumes "small_values kvs" "length pre = p"
  shows "check_attributes (pre @ attrs_bytes kvs) p (p + length (attrs_bytes kvs)) = None"
    "map seen (attributes_from (pre @ attrs_bytes kvs) p (p + length (attrs_bytes kvs)))
       = map (\<lambda>(k, v). (seen_kind k, v)) kvs"
    "map at_header_start (attributes_from (pre @ attrs_bytes kvs) p (p + length (attrs_bytes kvs)))
       = map (\<lambda>i. p + length (attrs_bytes (take i kvs))) [0..<length kvs]"
proof -
  have "check_attributes (pre @ attrs_bytes kvs) p (p + length (attrs_bytes kvs)) = None
    \<and> map seen (attributes_from (pre @ attrs_bytes kvs) p (p + length (attrs_bytes kvs)))
       = map (\<lambda>(k, v). (seen_kind k, v)) kvs
    \<and> map at_header_start (attributes_from (pre @ attrs_bytes kvs) p (p + length (attrs_bytes kvs)))
       = map (\<lambda>i. p + length (attrs_bytes (take i kvs))) [0..<length kvs]"
    using assms
  proof (induction kvs arbitrary: pre p)
    case Nil
    thus ?case by (simp add: check_attributes.simps attributes_from.simps)
  next
    case (Cons kv kvs)
    obtain k v where kv: "kv = (k, v)" by force
    have v: "length v < 2 ^ 16" and small: "small_values kvs"
      using Cons.prems(1) by (auto simp: small_values_def kv)
    note hdr = attr_header [OF Cons.prems(2) v, of k "attrs_bytes kvs"]
    let ?raw = "pre @ attr_bytes (k, v) @ attrs_bytes kvs"
    let ?e = "p + (4 + pad4 (length v)) + length (attrs_bytes kvs)"
    have IH: "check_attributes ?raw (p + 4 + pad4 (length v)) ?e = None
      \<and> map seen (attributes_from ?raw (p + 4 + pad4 (length v)) ?e) = map (\<lambda>(k, v). (seen_kind k, v)) kvs
      \<and> map at_header_start (attributes_from ?raw (p + 4 + pad4 (length v)) ?e)
       = map (\<lambda>i. p + 4 + pad4 (length v) + length (attrs_bytes (take i kvs))) [0..<length kvs]"
      using Cons.IH [OF small, of "pre @ attr_bytes (k, v)" "p + 4 + pad4 (length v)"] Cons.prems(2)
      by (simp add: length_attr_bytes add.assoc)
    have "check_attributes ?raw p ?e = None"
      using IH hdr(2) pad4_props(1) [of "length v"]
      by (subst check_attributes.simps) (simp add: Let_def add.assoc)
    moreover have cons: "attributes_from ?raw p ?e
        = attribute_at ?raw p # attributes_from ?raw (p + 4 + pad4 (length v)) ?e"
      using hdr(2) by (subst attributes_from.simps) (simp add: add.assoc)
    moreover have "seen (attribute_at ?raw p) = (seen_kind k, v)" "at_header_start (attribute_at ?raw p) = p"
      using hdr by (simp_all add: seen_def seen_kind_def attribute_at_def Let_def)
    ultimately show ?case using IH
      by (simp add: kv length_attr_bytes add.assoc upt_conv_Cons map_Suc_upt [symmetric] o_def del: upt_Suc)
  qed
  thus "check_attributes (pre @ attrs_bytes kvs) p (p + length (attrs_bytes kvs)) = None"
    "map seen (attributes_from (pre @ attrs_bytes kvs) p (p + length (attrs_bytes kvs)))
       = map (\<lambda>(k, v). (seen_kind k, v)) kvs"
    "map at_header_start (attributes_from (pre @ attrs_bytes kvs) p (p + length (attrs_bytes kvs)))
       = map (\<lambda>i. p + length (attrs_bytes (take i kvs))) [0..<length kvs]"
    by simp_all
qed

definition valid_kind :: "u16 \<Rightarrow> bool" where
  "valid_kind kind \<longleftrightarrow> kind AND 0xc000 = 0 \<and> kind \<noteq> 0"

definition message_of :: "u16 \<Rightarrow> bytes \<Rightarrow> (u16 \<times> bytes) list \<Rightarrow> stun_message" where
  "message_of kind t kvs = \<lparr>sm_raw = message_bytes kind t kvs, sm_kind = kind, sm_transaction = t,
     sm_end = 20 + length (attrs_bytes kvs)\<rparr>"

lemma decode_message_bytes:
  assumes "valid_kind kind" "length t = 12" "small_values kvs" "length (attrs_bytes kvs) < 2 ^ 16"
  shows "stun_decode (message_bytes kind t kvs) = Inr (message_of kind t kvs)"
proof -
  let ?raw = "message_bytes kind t kvs" and ?n = "length (attrs_bytes kvs)"
  have fields: "be16_at ?raw 0 = kind" "be16_at ?raw 2 = word_of_nat ?n"
    "subslice ?raw 4 8 = u32_to_be MAGIC_COOKIE" "subslice ?raw 8 20 = t" "length ?raw = 20 + ?n"
    using be16_at_append [of "[]" 0 kind] be16_at_append [of "u16_to_be kind" 2 "word_of_nat ?n"] assms(2)
    by (simp_all add: message_bytes_def message_header_def subslice_def)
  have n: "unat (word_of_nat ?n :: u16) = ?n" using assms(4) by (simp add: unat_of_nat take_bit_nat_eq_self)
  have "check_attributes ?raw 20 (20 + ?n) = None"
    using walk_built(1) [OF assms(3), of "message_header kind ?n t" 20] assms(2)
    by (simp add: message_bytes_def)
  thus ?thesis using fields n assms(1) length_attrs_bytes_dvd [of kvs]
    by (simp add: stun_decode_def Let_def HEADER_SIZE_def valid_kind_def message_of_def mod_eq_0_iff_dvd)
qed

lemma attributes_message_of:
  assumes "length t = 12" "small_values kvs"
  shows "map seen (attributes (message_of kind t kvs)) = map (\<lambda>(k, v). (seen_kind k, v)) kvs"
    "map at_header_start (attributes (message_of kind t kvs))
       = map (\<lambda>i. 20 + length (attrs_bytes (take i kvs))) [0..<length kvs]"
  using walk_built(2,3) [OF assms(2), of "message_header kind (length (attrs_bytes kvs)) t" 20] assms(1)
  by (simp_all add: attributes_def message_of_def message_bytes_def HEADER_SIZE_def)

lemma attribute_message_of:
  assumes t: "length t = 12" "small_values kvs" and i: "i < length kvs" "seen_kind (fst (kvs ! i)) = k"
    "\<forall>j<i. seen_kind (fst (kvs ! j)) \<noteq> k"
  obtains a where "attribute k (message_of kind t kvs) = Some a" "at_value a = snd (kvs ! i)"
    "at_header_start a = 20 + length (attrs_bytes (take i kvs))"
proof -
  let ?as = "attributes (message_of kind t kvs)"
  note am = attributes_message_of [OF t, of kind]
  have len: "length ?as = length kvs" using arg_cong [OF am(1), of length] by simp
  have nth: "at_kind (?as ! j) = seen_kind (fst (kvs ! j))" "at_value (?as ! j) = snd (kvs ! j)" if "j < length kvs" for j
    using that len arg_cong [OF am(1), of "\<lambda>xs. xs ! j"] by (auto simp: seen_def split: prod.splits)
  have "at_header_start (?as ! i) = 20 + length (attrs_bytes (take i kvs))"
    using i(1) len arg_cong [OF am(2), of "\<lambda>xs. xs ! i"] by simp
  moreover have "attribute k (message_of kind t kvs) = Some (?as ! i)"
    using i len nth by (auto simp: attribute_def find_Some_iff intro!: exI [of _ i])
  ultimately show thesis using that nth i(1) by blast
qed

lemma fingerprint_message:
  assumes "length t = 12" "small_values kvs" "ATTR_FINGERPRINT \<notin> fst ` set kvs"
  shows "fingerprint_valid crc (message_of kind t (final_attrs crc kind t kvs)) = Some True"
proof -
  let ?fin = "final_attrs crc kind t kvs" and ?v = "fingerprint_of crc kind t kvs"
  have lenv: "length ?v = 4" by (simp add: fingerprint_of_def)
  have sm: "small_values ?fin" using assms(2) lenv by (auto simp: small_values_def final_attrs_def)
  have i: "length kvs < length ?fin" "seen_kind (fst (?fin ! length kvs)) = ATTR_FINGERPRINT"
    "snd (?fin ! length kvs) = ?v" "take (length kvs) ?fin = kvs"
    by (simp_all add: final_attrs_def seen_kind_def ATTR_FINGERPRINT_def)
  have "\<forall>j<length kvs. seen_kind (fst (?fin ! j)) \<noteq> ATTR_FINGERPRINT"
  proof (intro allI impI)
    fix j assume j: "j < length kvs"
    hence "fst (kvs ! j) \<noteq> ATTR_FINGERPRINT" using assms(3) by (metis image_eqI nth_mem)
    thus "seen_kind (fst (?fin ! j)) \<noteq> ATTR_FINGERPRINT"
      using j by (auto simp: final_attrs_def seen_kind_def nth_append ATTR_FINGERPRINT_def)
  qed
  then obtain a where a: "attribute ATTR_FINGERPRINT (message_of kind t ?fin) = Some a" "at_value a = ?v"
    "at_header_start a = 20 + length (attrs_bytes kvs)"
    using attribute_message_of [OF assms(1) sm i(1,2)] i(3,4) by metis
  have e: "length (attrs_bytes ?fin) = length (attrs_bytes kvs) + 8"
    using lenv by (simp add: final_attrs_def length_attr_bytes pad4_def)
  have "take (20 + length (attrs_bytes kvs)) (message_bytes kind t ?fin)
      = message_header kind (length (attrs_bytes kvs) + 8) t @ attrs_bytes kvs"
    unfolding message_bytes_def e using assms(1) by (simp add: final_attrs_def)
  thus ?thesis using a e lenv
    by (simp add: fingerprint_valid_def message_of_def) (simp add: fingerprint_of_def)
qed

lemma integrity_message:
  assumes "length t = 12" "small_values kvs" "ATTR_MESSAGE_INTEGRITY \<notin> fst ` set kvs" "crypto_sizes cr"
    and "length (attrs_bytes (signed_attrs cr key kind t kvs)) + 8 < 2 ^ 16"
  defines "fin \<equiv> final_attrs (cr_crc32 cr) kind t (signed_attrs cr key kind t kvs)"
  shows "verify_integrity cr (message_bytes kind t fin) (message_of kind t fin) (Some key)"
proof -
  let ?v = "integrity_of cr key kind t kvs"
  have lenv: "length ?v = 20" using assms(4) by (simp add: integrity_of_def crypto_sizes_def)
  have sm: "small_values fin" using assms(2) lenv
    by (auto simp: small_values_def fin_def final_attrs_def signed_attrs_def fingerprint_of_def)
  have i: "length kvs < length fin" "seen_kind (fst (fin ! length kvs)) = ATTR_MESSAGE_INTEGRITY"
    "snd (fin ! length kvs) = ?v" "take (length kvs) fin = kvs"
    by (simp_all add: fin_def final_attrs_def signed_attrs_def nth_append seen_kind_def ATTR_MESSAGE_INTEGRITY_def)
  have "\<forall>j<length kvs. seen_kind (fst (fin ! j)) \<noteq> ATTR_MESSAGE_INTEGRITY"
  proof (intro allI impI)
    fix j assume j: "j < length kvs"
    hence "fst (kvs ! j) \<noteq> ATTR_MESSAGE_INTEGRITY" using assms(3) by (metis image_eqI nth_mem)
    thus "seen_kind (fst (fin ! j)) \<noteq> ATTR_MESSAGE_INTEGRITY"
      using j by (auto simp: fin_def final_attrs_def signed_attrs_def seen_kind_def nth_append ATTR_MESSAGE_INTEGRITY_def)
  qed
  then obtain a where a: "attribute ATTR_MESSAGE_INTEGRITY (message_of kind t fin) = Some a" "at_value a = ?v"
    "at_header_start a = 20 + length (attrs_bytes kvs)"
    using attribute_message_of [OF assms(1) sm i(1,2)] i(3,4) by metis
  have fit: "length (attrs_bytes kvs) + 24 < 2 ^ 16"
    using assms(5) lenv by (simp add: signed_attrs_def length_attr_bytes pad4_def)
  have "take (20 + length (attrs_bytes kvs)) (message_bytes kind t fin)
      = message_header kind (length (attrs_bytes fin)) t @ attrs_bytes kvs"
    using assms(1) by (simp add: message_bytes_def fin_def final_attrs_def signed_attrs_def)
  thus ?thesis using a lenv fit
    by (simp add: verify_integrity_def Let_def integrity_of_def message_header_def add.commute)
qed

section \<open>Properties\<close>

text \<open>C39: a request built with credentials is understood by a peer that runs the same code: it decodes,
  with the kind and transaction given, its attributes are those added (in order) followed by the
  integrity and the fingerprint, the fingerprint is valid and the integrity verifies under the key.
  HMAC-SHA1 and CRC-32 are any functions with the documented digest length.\<close>

theorem built_request_verifies:
  assumes "valid_kind kind" "length t = 12" "small_values kvs" "crypto_sizes cr"
    and "ATTR_FINGERPRINT \<notin> fst ` set kvs" "ATTR_MESSAGE_INTEGRITY \<notin> fst ` set kvs"
    and "finish_authenticated cr key (add_attributes kvs (with_transaction kind t)) = Some p"
  shows "\<exists>m. stun_decode p = Inr m \<and> sm_kind m = kind \<and> sm_transaction m = t
    \<and> fingerprint_valid (cr_crc32 cr) m = Some True \<and> verify_integrity cr p m (Some key)
    \<and> map seen (take (length kvs) (attributes m)) = map (\<lambda>(k, v). (seen_kind k, v)) kvs
    \<and> length (attributes m) = length kvs + 2"
proof -
  have b: "built (add_attributes kvs (with_transaction kind t)) kind 0 t kvs"
    by (metis append_Nil built_add_attributes built_start assms(2))
  let ?sg = "signed_attrs cr key kind t kvs"
  let ?fin = "final_attrs (cr_crc32 cr) kind t ?sg"
  note fin = finish_authenticated_bytes [OF b assms(2,7)]
  have sg: "small_values ?sg" "ATTR_FINGERPRINT \<notin> fst ` set ?sg"
    using assms(3,4,5) by (auto simp: small_values_def signed_attrs_def integrity_of_def crypto_sizes_def
        ATTR_FINGERPRINT_def ATTR_MESSAGE_INTEGRITY_def)
  have sf: "small_values ?fin" using sg(1) by (auto simp: small_values_def final_attrs_def fingerprint_of_def)
  have "length (attrs_bytes ?fin) < 2 ^ 16"
    using fin(2) by (simp add: final_attrs_def length_attr_bytes fingerprint_of_def pad4_def)
  from decode_message_bytes [OF assms(1,2) sf this] have d: "stun_decode p = Inr (message_of kind t ?fin)"
    using fin(1) by simp
  note am = attributes_message_of [OF assms(2) sf, of kind]
  have "map seen (take (length kvs) (attributes (message_of kind t ?fin))) = map (\<lambda>(k, v). (seen_kind k, v)) kvs"
    unfolding take_map [symmetric] am(1) by (simp add: take_map final_attrs_def signed_attrs_def)
  moreover have "length (attributes (message_of kind t ?fin)) = length kvs + 2"
    using arg_cong [OF am(1), of length] by (simp add: final_attrs_def signed_attrs_def)
  moreover have "verify_integrity cr p (message_of kind t ?fin) (Some key)"
    using integrity_message [OF assms(2,3,6,4) fin(2)] fin(1) by simp
  ultimately show ?thesis
    using d fingerprint_message [OF assms(2) sg, of "cr_crc32 cr" kind]
    by (intro exI [of _ "message_of kind t ?fin"]) (simp add: message_of_def)
qed

text \<open>Constant digests of the documented sizes.\<close>

definition constant_crypto :: crypto where
  "constant_crypto = \<lparr>cr_crc32 = (\<lambda>m. 0), cr_hmac_sha1 = (\<lambda>k m. replicate 20 7), cr_md5 = (\<lambda>m. replicate 16 9)\<rparr>"

lemma built_request_verifies_witness:
  "\<exists>p m. finish_authenticated constant_crypto [] (add_attributes [(ATTR_USERNAME, [1, 2, 3])]
       (with_transaction 4 (replicate 12 1))) = Some p \<and> stun_decode p = Inr m \<and> sm_kind m = 4
     \<and> verify_integrity constant_crypto p m (Some [])"
proof -
  let ?b = "add_attributes [(ATTR_USERNAME, [1, 2, 3])] (with_transaction 4 (replicate 12 1))"
  have "built ?b 4 0 (replicate 12 1) [(ATTR_USERNAME, [1, 2, 3])]"
    using built_add_attributes [OF built_start, where t = "replicate 12 1" and kind = 4
        and kvs = "[(ATTR_USERNAME, [1, 2, 3])]"] by simp
  hence len: "length (mb_bytes ?b) = 28"
    by (simp add: built_def length_attr_bytes pad4_def)
  then obtain p where p: "finish_authenticated constant_crypto [] ?b = Some p"
    using finish_authenticated_total [of ?b constant_crypto "[]"] by (auto simp: crypto_sizes_def constant_crypto_def)
  have "\<exists>m. stun_decode p = Inr m \<and> sm_kind m = 4 \<and> verify_integrity constant_crypto p m (Some [])"
    using built_request_verifies [OF _ _ _ _ _ _ p]
    by (auto simp: valid_kind_def small_values_def crypto_sizes_def constant_crypto_def ATTR_USERNAME_def
        ATTR_FINGERPRINT_def ATTR_MESSAGE_INTEGRITY_def)
  thus ?thesis using p by blast
qed

text \<open>XOR-mapped addresses: decoding what was encoded under the same transaction gives the address
  back, and whatever decodes is exactly the encoding of the result, for both families.\<close>

theorem xor_address_codec:
  assumes "length transaction = 12"
  shows "(addr_ok a \<longrightarrow> decode_xor_address (encode_xor_address a transaction) transaction = Inr a)
    \<and> (decode_xor_address v transaction = Inr a \<longrightarrow> addr_ok a \<and> encode_xor_address a transaction = v)"
  using xor_address_roundtrip [OF _ assms] decode_xor_sound [OF _ assms] by blast

lemma xor_address_codec_witness:
  "decode_xor_address (encode_xor_address \<lparr>sa_ip = V4 0x01020304, sa_port = 443\<rparr> (replicate 12 5)) (replicate 12 5)
     = Inr \<lparr>sa_ip = V4 0x01020304, sa_port = 443\<rparr>"
  using xor_address_codec [of "replicate 12 5" "\<lparr>sa_ip = V4 0x01020304, sa_port = 443\<rparr>"] by (simp add: addr_ok_def)

end
