(* ===== verification/TurnCore.thy ===== *)
theory TurnCore
  imports TurnMessage
begin

text \<open>
  The sans-IO TURN client of \<open>turn_core.rs\<close> (\<open>NativeCore\<close> and its \<open>Inner\<close>): allocation,
  permission and channel requests, their retransmission, the maintenance timers, teardown.
  Instants and durations are nanoseconds. Every operation is one critical section of the source's mutex; the clock reading
  \<open>now\<close> and the random transaction ids \<open>tx\<close> of a call are arguments.
\<close>

section \<open>Constants\<close>

definition msec :: "nat \<Rightarrow> nat" where "msec n = n * 1000000"
definition secs :: "nat \<Rightarrow> nat" where "secs n = n * 1000000000"

definition RESULT_BUFFER_TOO_SMALL :: int where "RESULT_BUFFER_TOO_SMALL = -2"
definition RESULT_INVALID_ARGUMENT :: int where "RESULT_INVALID_ARGUMENT = -3"
definition RESULT_CLOSED :: int where "RESULT_CLOSED = -4"
definition RESULT_NOT_CONTROL :: int where "RESULT_NOT_CONTROL = -5"
definition RESULT_TIMEOUT :: int where "RESULT_TIMEOUT = -6"
definition RESULT_AUTHENTICATION :: int where "RESULT_AUTHENTICATION = -7"
definition RESULT_PROTOCOL :: int where "RESULT_PROTOCOL = -8"

definition EVENT_STATE :: nat where "EVENT_STATE = 1"
definition EVENT_REQUEST_COMPLETE :: nat where "EVENT_REQUEST_COMPLETE = 2"
definition EVENT_CHANNEL_BOUND :: nat where "EVENT_CHANNEL_BOUND = 3"
definition EVENT_RELAY_ADDRESS :: nat where "EVENT_RELAY_ADDRESS = 4"
definition EVENT_CONTROL_OVERFLOW :: nat where "EVENT_CONTROL_OVERFLOW = 5"
definition EVENT_FORCED_DESTROY :: nat where "EVENT_FORCED_DESTROY = 7"
definition EVENT_EVENT_OVERFLOW :: nat where "EVENT_EVENT_OVERFLOW = 8"
definition EVENT_STUN_RESPONSE_ERROR :: nat where "EVENT_STUN_RESPONSE_ERROR = 9"
definition EVENT_CHANNEL_REBIND_EXHAUSTED :: nat where "EVENT_CHANNEL_REBIND_EXHAUSTED = 10"

definition CONTROL_CAPACITY :: nat where "CONTROL_CAPACITY = 16"
definition EVENT_CAPACITY :: nat where "EVENT_CAPACITY = 64"
definition INITIAL_RTO :: nat where "INITIAL_RTO = msec 200"
definition MAX_RTO :: nat where "MAX_RTO = msec 1600"
definition MAX_TRANSMISSIONS :: nat where "MAX_TRANSMISSIONS = 7"
definition STREAM_TRANSACTION_TIMEOUT :: nat where "STREAM_TRANSACTION_TIMEOUT = secs 12"
definition REQUESTED_ALLOCATION_LIFETIME_SECS :: nat where "REQUESTED_ALLOCATION_LIFETIME_SECS = 600"
definition MAINTENANCE_RETRY_BASE :: nat where "MAINTENANCE_RETRY_BASE = secs 1"
definition MAINTENANCE_RETRY_MAX :: nat where "MAINTENANCE_RETRY_MAX = secs 30"
definition MAX_CHANNEL_MAINTENANCE_FAILURES :: nat where "MAX_CHANNEL_MAINTENANCE_FAILURES = 4"
definition CHANNEL_NUMBER :: u16 where "CHANNEL_NUMBER = 0x4000"

section \<open>Data\<close>

datatype transport_kind = Datagram | StreamTransport

datatype turn_state = StNull | StAllocating | StReady | StDeallocating | StDeallocated | StDestroying

fun state_code :: "turn_state \<Rightarrow> nat" where
  "state_code StNull = 0"
| "state_code StAllocating = 3"
| "state_code StReady = 4"
| "state_code StDeallocating = 5"
| "state_code StDeallocated = 6"
| "state_code StDestroying = 7"

record turn_profile =
  tp_allocation_refresh :: nat
  tp_maintenance_refresh :: nat
  tp_keepalive_interval :: nat
  tp_max_nonce_retries :: nat

definition PJNATH_COMPAT :: turn_profile where
  "PJNATH_COMPAT = \<lparr>tp_allocation_refresh = secs 300, tp_maintenance_refresh = secs 175,
     tp_keepalive_interval = secs 10, tp_max_nonce_retries = 3\<rparr>"

record native_address =
  na_family :: byte
  na_port :: u16
  na_ip :: bytes

definition no_address :: native_address where
  "no_address = \<lparr>na_family = 0, na_port = 0, na_ip = replicate 16 0\<rparr>"

definition from_socket_addr :: "socket_addr \<Rightarrow> native_address" where
  "from_socket_addr a = \<lparr>na_family = (if is_ipv4 a then 4 else 6), na_port = sa_port a,
     na_ip = (case sa_ip a of V4 w \<Rightarrow> u32_to_be w @ replicate 12 0 | V6 bs \<Rightarrow> bs)\<rparr>"

definition to_socket_addr :: "native_address \<Rightarrow> socket_addr option" where
  "to_socket_addr n = (if na_family n = 4
       then Some \<lparr>sa_ip = V4 (u32_of_be (take 4 (na_ip n))), sa_port = na_port n\<rparr>
     else if na_family n = 6 then Some \<lparr>sa_ip = V6 (na_ip n), sa_port = na_port n\<rparr> else None)"

record native_event =
  ev_kind :: nat
  ev_method :: nat
  ev_status :: int
  ev_stun_code :: int
  ev_state :: nat
  ev_previous_state :: nat
  ev_dropped :: nat
  ev_channel :: u16
  ev_address :: native_address

definition blank_event :: "nat \<Rightarrow> native_event" where
  "blank_event kind = \<lparr>ev_kind = kind, ev_method = 0, ev_status = 0, ev_stun_code = 0, ev_state = 0,
     ev_previous_state = 0, ev_dropped = 0, ev_channel = 0, ev_address = no_address\<rparr>"

datatype operation = Allocate | Refresh | Deallocate | Permission | Channel

fun op_method :: "operation \<Rightarrow> nat" where
  "op_method Allocate = 3"
| "op_method Refresh = 4"
| "op_method Deallocate = 4"
| "op_method Permission = 8"
| "op_method Channel = 9"

record request =
  rq_operation :: operation
  rq_transaction :: bytes
  rq_packet :: bytes
  rq_next_attempt :: nat
  rq_rto :: nat
  rq_transmissions :: nat
  rq_nonce_retries :: nat
  rq_authenticated :: bool

record control =
  ct_packet :: bytes
  ct_destination :: socket_addr

record core =
  c_server :: socket_addr
  c_peer :: socket_addr
  c_username :: bytes
  c_password :: bytes
  c_realm :: "bytes option"
  c_nonce :: "bytes option"
  c_key :: "bytes option"
  c_state :: turn_state
  c_relay :: "socket_addr option"
  c_channel :: "u16 option"
  c_controls :: "control list"
  c_events :: "native_event list"
  c_pending :: "request list"
  c_allocation_refresh :: "nat option"
  c_allocation_expires_at :: "nat option"
  c_maintenance_refresh :: "nat option"
  c_permission_retry :: "nat option"
  c_channel_retry :: "nat option"
  c_refresh_failures :: nat
  c_permission_failures :: nat
  c_channel_failures :: nat
  c_keepalive :: "nat option"
  c_shutting_down :: bool
  c_destroyed :: bool
  c_profile :: turn_profile
  c_transport :: transport_kind

definition create_core :: "socket_addr \<Rightarrow> bytes \<Rightarrow> bytes \<Rightarrow> socket_addr \<Rightarrow> turn_profile \<Rightarrow> transport_kind
    \<Rightarrow> core option" where
  "create_core server username password peer profile transport =
    (if sa_port server = 0 \<or> sa_port peer = 0 then None
     else if username = [] \<or> 512 < length username \<or> password = [] \<or> 512 < length password then None
     else Some \<lparr>c_server = server, c_peer = peer, c_username = username, c_password = password,
       c_realm = None, c_nonce = None, c_key = None, c_state = StNull, c_relay = None,
       c_channel = None, c_controls = [], c_events = [], c_pending = [],
       c_allocation_refresh = None, c_allocation_expires_at = None, c_maintenance_refresh = None,
       c_permission_retry = None, c_channel_retry = None, c_refresh_failures = 0,
       c_permission_failures = 0, c_channel_failures = 0, c_keepalive = None,
       c_shutting_down = False, c_destroyed = False, c_profile = profile, c_transport = transport\<rparr>)"

section \<open>Queues and state changes\<close>

definition event_ring :: "native_event \<Rightarrow> native_event list \<Rightarrow> native_event list" where
  "event_ring e evs = (if length evs = EVENT_CAPACITY
     then tl evs @ [(blank_event EVENT_EVENT_OVERFLOW)\<lparr>ev_status := RESULT_BUFFER_TOO_SMALL, ev_dropped := 1\<rparr>]
     else evs @ [e])"

definition push_event :: "native_event \<Rightarrow> core \<Rightarrow> core" where
  "push_event e c = c\<lparr>c_events := event_ring e (c_events c)\<rparr>"

definition set_state :: "turn_state \<Rightarrow> core \<Rightarrow> core" where
  "set_state st c = (if c_state c = st then c
     else push_event ((blank_event EVENT_STATE)\<lparr>ev_state := state_code st,
            ev_previous_state := state_code (c_state c)\<rparr>) (c\<lparr>c_state := st\<rparr>))"

definition queue_packet :: "bytes \<Rightarrow> core \<Rightarrow> core" where
  "queue_packet packet c =
    (let c1 = (if length (c_controls c) = CONTROL_CAPACITY
               then push_event ((blank_event EVENT_CONTROL_OVERFLOW)
                      \<lparr>ev_status := RESULT_BUFFER_TOO_SMALL, ev_dropped := 1\<rparr>)
                      (c\<lparr>c_controls := tl (c_controls c)\<rparr>)
               else c)
     in c1\<lparr>c_controls := c_controls c1 @ [\<lparr>ct_packet = packet, ct_destination = c_server c1\<rparr>]\<rparr>)"

definition queue_keepalive :: "core \<Rightarrow> core" where
  "queue_keepalive c = (case c_channel c of None \<Rightarrow> c
     | Some channel \<Rightarrow> queue_packet (u16_to_be channel @ u16_to_be 1 @ [0xff, 0, 0, 0]) c)"

definition remove_queued_transaction :: "bytes \<Rightarrow> core \<Rightarrow> core" where
  "remove_queued_transaction transaction c = c\<lparr>c_controls :=
     filter (\<lambda>ct. get_range (ct_packet ct) 8 20 \<noteq> Some transaction) (c_controls c)\<rparr>"

definition complete :: "operation \<Rightarrow> int \<Rightarrow> int \<Rightarrow> core \<Rightarrow> core" where
  "complete op status code c = push_event ((blank_event EVENT_REQUEST_COMPLETE)
     \<lparr>ev_method := op_method op, ev_status := status, ev_stun_code := code,
      ev_state := state_code (c_state c),
      ev_channel := (case c_channel c of None \<Rightarrow> 0 | Some n \<Rightarrow> n),
      ev_address := (case c_relay c of None \<Rightarrow> no_address | Some a \<Rightarrow> from_socket_addr a)\<rparr>) c"

definition set_auth :: "crypto \<Rightarrow> bytes \<Rightarrow> bytes \<Rightarrow> core \<Rightarrow> core" where
  "set_auth cr realm nonce c = c\<lparr>c_key := Some (cr_md5 cr (c_username c @ ascii '':'' @ realm
       @ ascii '':'' @ c_password c)), c_realm := Some realm, c_nonce := Some nonce\<rparr>"

section \<open>Starting a request\<close>

definition has_operation :: "operation \<Rightarrow> core \<Rightarrow> bool" where
  "has_operation op c = (\<exists>p\<in>set (c_pending c). rq_operation p = op)"

definition transaction_timeout :: "core \<Rightarrow> nat" where
  "transaction_timeout c = (case c_transport c of Datagram \<Rightarrow> INITIAL_RTO
     | StreamTransport \<Rightarrow> STREAM_TRANSACTION_TIMEOUT)"

definition request_attributes :: "core \<Rightarrow> operation \<Rightarrow> builder \<Rightarrow> builder" where
  "request_attributes c op b = (case op of
     Allocate \<Rightarrow> add_attribute ATTR_LIFETIME (u32_to_be (word_of_nat REQUESTED_ALLOCATION_LIFETIME_SECS))
       (add_attribute ATTR_REQUESTED_ADDRESS_FAMILY [if is_ipv4 (c_peer c) then 1 else 2, 0, 0, 0]
         (add_attribute ATTR_REQUESTED_TRANSPORT [17, 0, 0, 0] b))
   | Refresh \<Rightarrow> add_attribute ATTR_LIFETIME (u32_to_be (word_of_nat REQUESTED_ALLOCATION_LIFETIME_SECS)) b
   | Deallocate \<Rightarrow> add_attribute ATTR_LIFETIME (u32_to_be 0) b
   | Permission \<Rightarrow> add_xor_address ATTR_XOR_PEER_ADDRESS (c_peer c) b
   | Channel \<Rightarrow> add_xor_address ATTR_XOR_PEER_ADDRESS (c_peer c)
       (add_attribute ATTR_CHANNEL_NUMBER [0x40, 0, 0, 0] b))"

definition or_empty :: "bytes option \<Rightarrow> bytes" where
  "or_empty x = (case x of None \<Rightarrow> [] | Some bs \<Rightarrow> bs)"

definition build_request :: "crypto \<Rightarrow> core \<Rightarrow> operation \<Rightarrow> bytes \<Rightarrow> bool \<Rightarrow> bytes option" where
  "build_request cr c op transaction authenticated =
    (let b = request_attributes c op (with_transaction (word_of_nat (op_method op)) transaction)
     in if authenticated then
          (case c_key c of None \<Rightarrow> None
           | Some key \<Rightarrow> finish_authenticated cr key
               (add_attribute ATTR_NONCE (or_empty (c_nonce c))
                 (add_attribute ATTR_REALM (or_empty (c_realm c))
                   (add_attribute ATTR_USERNAME (c_username c) b))))
        else finish (cr_crc32 cr) b)"

definition auth_ready :: "core \<Rightarrow> bool" where
  "auth_ready c \<longleftrightarrow> c_realm c \<noteq> None \<and> c_nonce c \<noteq> None \<and> c_key c \<noteq> None"

text \<open>\<open>None\<close> is the error result; nothing has changed then.\<close>

definition start_operation :: "crypto \<Rightarrow> (operation \<Rightarrow> bytes) \<Rightarrow> nat \<Rightarrow> operation \<Rightarrow> bool \<Rightarrow> nat
    \<Rightarrow> core \<Rightarrow> core option" where
  "start_operation cr tx now op authenticated nonce_retries c =
    (if has_operation op c then
       Some (if op = Channel then
               (case find (\<lambda>p. rq_operation p = op) (c_pending c) of None \<Rightarrow> c
                | Some p \<Rightarrow> queue_packet (rq_packet p) c)
             else c)
     else if authenticated \<and> \<not> auth_ready c then None
     else case build_request cr c op (tx op) authenticated of None \<Rightarrow> None
       | Some packet \<Rightarrow>
         let c1 = queue_packet packet c
         in Some (c1\<lparr>c_pending := c_pending c1 @
              [\<lparr>rq_operation = op, rq_transaction = tx op, rq_packet = packet,
                rq_next_attempt = now + transaction_timeout c1, rq_rto = INITIAL_RTO,
                rq_transmissions = 1, rq_nonce_retries = nonce_retries,
                rq_authenticated = authenticated\<rparr>]\<rparr>))"

section \<open>Completion\<close>

definition destroy_allocation :: "operation \<Rightarrow> int \<Rightarrow> int \<Rightarrow> core \<Rightarrow> core" where
  "destroy_allocation op status code c =
    (let c1 = complete op status code c;
         c2 = c1\<lparr>c_controls := [], c_pending := [], c_channel := None, c_allocation_refresh := None,
                 c_allocation_expires_at := None, c_maintenance_refresh := None,
                 c_permission_retry := None, c_channel_retry := None, c_keepalive := None,
                 c_relay := None\<rparr>
     in if op = Deallocate then set_state StDeallocated c2 else set_state StDestroying c2)"

definition destroy_after_channel_rebind_exhausted :: "core \<Rightarrow> core" where
  "destroy_after_channel_rebind_exhausted c =
    set_state StDestroying
      (push_event ((blank_event EVENT_CHANNEL_REBIND_EXHAUSTED)
          \<lparr>ev_status := RESULT_TIMEOUT, ev_state := state_code StDestroying\<rparr>)
        (c\<lparr>c_controls := [], c_pending := [], c_channel := None, c_maintenance_refresh := None,
           c_permission_retry := None, c_channel_retry := None, c_keepalive := None\<rparr>))"

definition u8_saturating_succ :: "nat \<Rightarrow> nat" where
  "u8_saturating_succ n = min (n + 1) 255"

definition retry_delay :: "nat \<Rightarrow> nat" where
  "retry_delay failures = min (MAINTENANCE_RETRY_BASE * 2 ^ min (failures - 1) 5) MAINTENANCE_RETRY_MAX"

definition schedule_maintenance_retry :: "operation \<Rightarrow> nat \<Rightarrow> core \<Rightarrow> bool \<times> core" where
  "schedule_maintenance_retry op now c = (case op of
     Refresh \<Rightarrow> let n = u8_saturating_succ (c_refresh_failures c)
       in (True, c\<lparr>c_refresh_failures := n, c_allocation_refresh := Some (now + retry_delay n)\<rparr>)
   | Permission \<Rightarrow> let n = u8_saturating_succ (c_permission_failures c)
       in (True, c\<lparr>c_permission_failures := n, c_permission_retry := Some (now + retry_delay n)\<rparr>)
   | Channel \<Rightarrow> let n = u8_saturating_succ (c_channel_failures c)
       in if MAX_CHANNEL_MAINTENANCE_FAILURES \<le> n then (False, c\<lparr>c_channel_failures := n\<rparr>)
          else (True, c\<lparr>c_channel_failures := n, c_channel_retry := Some (now + retry_delay n)\<rparr>)
   | _ \<Rightarrow> (True, c))"

definition before_deadline :: "nat \<Rightarrow> nat option \<Rightarrow> bool" where
  "before_deadline now d = (case d of None \<Rightarrow> False | Some t \<Rightarrow> now < t)"

definition due :: "nat \<Rightarrow> nat option \<Rightarrow> bool" where
  "due now d = (case d of None \<Rightarrow> False | Some t \<Rightarrow> t \<le> now)"

definition complete_failure :: "operation \<Rightarrow> int \<Rightarrow> int \<Rightarrow> nat \<Rightarrow> core \<Rightarrow> core" where
  "complete_failure op status code now c =
    (if op \<in> {Refresh, Permission, Channel} \<and> c_state c = StReady
        \<and> before_deadline now (c_allocation_expires_at c) then
       let (scheduled, c1) = schedule_maintenance_retry op now (complete op status code c)
       in if scheduled then c1 else destroy_after_channel_rebind_exhausted c1
     else destroy_allocation op status code c)"

definition allocation_refresh_deadline :: "nat \<Rightarrow> nat option \<Rightarrow> nat \<Rightarrow> nat" where
  "allocation_refresh_deadline now lifetime interval =
    (let l = secs (case lifetime of None \<Rightarrow> REQUESTED_ALLOCATION_LIFETIME_SECS | Some n \<Rightarrow> n)
     in now + max (min interval (l div 2)) (msec 500))"

definition keepalive_mix :: "socket_addr \<Rightarrow> u64" where
  "keepalive_mix relay = (case sa_ip relay of
     V4 w \<Rightarrow> ucast (sa_port relay) XOR ucast w
   | V6 o6 \<Rightarrow> ucast (sa_port relay) XOR u64_of_be (subslice o6 8 16))"

definition first_keepalive_deadline :: "nat \<Rightarrow> nat \<Rightarrow> socket_addr \<Rightarrow> nat" where
  "first_keepalive_deadline now interval relay =
    (let ms = interval div 1000000; span = max (ms div 5) 1
     in now + msec (ms - span + unat (keepalive_mix relay) mod (span * 2 + 1)))"

text \<open>The allocation fields of an accepted Allocate response.\<close>

definition store_allocation :: "nat \<Rightarrow> socket_addr \<Rightarrow> nat option \<Rightarrow> core \<Rightarrow> core" where
  "store_allocation now relay returned c =
    (let lifetime = (case returned of None \<Rightarrow> REQUESTED_ALLOCATION_LIFETIME_SECS | Some n \<Rightarrow> n)
     in push_event ((blank_event EVENT_RELAY_ADDRESS)\<lparr>ev_address := from_socket_addr relay\<rparr>)
       (c\<lparr>c_relay := Some relay,
          c_allocation_refresh := Some (allocation_refresh_deadline now returned
            (tp_allocation_refresh (c_profile c))),
          c_allocation_expires_at := Some (now + secs lifetime), c_refresh_failures := 0,
          c_maintenance_refresh := Some (now + tp_maintenance_refresh (c_profile c)),
          c_keepalive := Some (first_keepalive_deadline now (tp_keepalive_interval (c_profile c)) relay)\<rparr>))"

text \<open>The first component is \<open>False\<close> where the source returns an error.\<close>

definition complete_success :: "crypto \<Rightarrow> (operation \<Rightarrow> bytes) \<Rightarrow> nat \<Rightarrow> operation \<Rightarrow> stun_message
    \<Rightarrow> core \<Rightarrow> bool \<times> core" where
  "complete_success cr tx now op m c = (case op of
     Allocate \<Rightarrow>
       (case attribute ATTR_XOR_RELAYED_ADDRESS m of None \<Rightarrow> (False, c)
        | Some a \<Rightarrow> (case decode_xor_address (at_value a) (sm_transaction m) of Inl e \<Rightarrow> (False, c)
          | Inr relay \<Rightarrow>
            if is_ipv4 relay \<noteq> is_ipv4 (c_peer c) \<or> sa_port relay = 0 then (False, c)
            else let returned = attribute_u32 m ATTR_LIFETIME in
            if returned = Some 0 then (False, c)
            else let c1 = store_allocation now relay returned c in
            if c_shutting_down c1 then
              (let c2 = set_state StDeallocating c1
               in case start_operation cr tx now Deallocate True 0 c2 of None \<Rightarrow> (False, c2)
                  | Some c3 \<Rightarrow> (True, c3))
            else (True, complete op 0 0 (set_state StReady c1))))
   | Refresh \<Rightarrow>
       (let returned = attribute_u32 m ATTR_LIFETIME;
            lifetime = (case returned of None \<Rightarrow> REQUESTED_ALLOCATION_LIFETIME_SECS | Some n \<Rightarrow> n)
        in if lifetime = 0 then (False, c)
           else (True, complete op 0 0 (c\<lparr>
             c_allocation_refresh := Some (allocation_refresh_deadline now returned
               (tp_allocation_refresh (c_profile c))),
             c_allocation_expires_at := Some (now + secs lifetime), c_refresh_failures := 0\<rparr>)))
   | Deallocate \<Rightarrow>
       (if (case attribute_u32 m ATTR_LIFETIME of None \<Rightarrow> 0 | Some n \<Rightarrow> n) \<noteq> 0 then (False, c)
        else (True, set_state StDeallocated (complete op 0 0 (c\<lparr>c_relay := None,
          c_allocation_refresh := None, c_allocation_expires_at := None\<rparr>))))
   | Permission \<Rightarrow> (True, complete op 0 0 (c\<lparr>c_permission_failures := 0\<rparr>))
   | Channel \<Rightarrow> (True, complete op 0 0
       (push_event ((blank_event EVENT_CHANNEL_BOUND)\<lparr>ev_channel := CHANNEL_NUMBER,
            ev_address := from_socket_addr (c_peer c)\<rparr>)
         (c\<lparr>c_channel := Some CHANNEL_NUMBER, c_channel_failures := 0\<rparr>))))"

section \<open>Retransmission\<close>

definition retransmit :: "nat \<Rightarrow> request \<Rightarrow> request" where
  "retransmit now p = (let rto = min (rq_rto p * 2) MAX_RTO
     in p\<lparr>rq_transmissions := rq_transmissions p + 1, rq_rto := rto, rq_next_attempt := now + rto\<rparr>)"

definition time_out :: "nat \<Rightarrow> nat \<Rightarrow> core \<Rightarrow> core" where
  "time_out now i c =
    (let p = c_pending c ! i;
         c1 = remove_queued_transaction (rq_transaction p) (c\<lparr>c_pending := remove_at i (c_pending c)\<rparr>)
     in complete_failure (rq_operation p) RESULT_TIMEOUT 0 now c1)"

lemma push_event_pending [simp]: "c_pending (push_event e c) = c_pending c"
  by (simp add: push_event_def)

lemma set_state_pending [simp]: "c_pending (set_state st c) = c_pending c"
  by (simp add: set_state_def)

lemma queue_packet_pending [simp]: "c_pending (queue_packet p c) = c_pending c"
  by (simp add: queue_packet_def Let_def)

lemma complete_pending [simp]: "c_pending (complete op s k c) = c_pending c"
  by (simp add: complete_def)

lemma retry_pending [simp]: "c_pending (snd (schedule_maintenance_retry op now c)) = c_pending c"
  by (cases op) (auto simp: schedule_maintenance_retry_def Let_def)

lemma destroy_allocation_pending [simp]: "c_pending (destroy_allocation op s k c) = []"
  by (simp add: destroy_allocation_def Let_def)

lemma destroy_exhausted_pending [simp]: "c_pending (destroy_after_channel_rebind_exhausted c) = []"
  by (simp add: destroy_after_channel_rebind_exhausted_def)

lemma complete_failure_pending:
  "c_pending (complete_failure op s k now c) = c_pending c \<or> c_pending (complete_failure op s k now c) = []"
proof -
  obtain b c1 where r: "schedule_maintenance_retry op now (complete op s k c) = (b, c1)" by force
  have "c_pending c1 = c_pending c" using retry_pending [of op now "complete op s k c"] r by simp
  thus ?thesis by (simp add: complete_failure_def r)
qed

lemma remove_queued_pending [simp]: "c_pending (remove_queued_transaction t c) = c_pending c"
  by (simp add: remove_queued_transaction_def)

lemma time_out_pending:
  "c_pending (time_out now i c) = remove_at i (c_pending c) \<or> c_pending (time_out now i c) = []"
  using complete_failure_pending [of "rq_operation (c_pending c ! i)" RESULT_TIMEOUT 0 now
      "remove_queued_transaction (rq_transaction (c_pending c ! i)) (c\<lparr>c_pending := remove_at i (c_pending c)\<rparr>)"]
  by (simp add: time_out_def Let_def)

function expire_from :: "nat \<Rightarrow> nat \<Rightarrow> core \<Rightarrow> core" where
  "expire_from now i c =
    (if length (c_pending c) \<le> i then c
     else let p = c_pending c ! i in
       if now < rq_next_attempt p then expire_from now (i + 1) c
       else if MAX_TRANSMISSIONS \<le> rq_transmissions p then expire_from now i (time_out now i c)
       else if c_transport c = StreamTransport then expire_from now i (time_out now i c)
       else let c1 = queue_packet (rq_packet p) c
            in expire_from now (i + 1) (c1\<lparr>c_pending := (c_pending c1)[i := retransmit now p]\<rparr>))"
  by pat_completeness auto
termination
proof (relation "measure (\<lambda>(now, i, c). length (c_pending c) - i)", goal_cases)
  case (3 now i c p)
  thus ?case using time_out_pending [of now i c] by (auto simp: length_remove_at)
next
  case (4 now i c p)
  thus ?case using time_out_pending [of now i c] by (auto simp: length_remove_at)
qed auto

declare expire_from.simps [simp del]

definition expire_transactions :: "nat \<Rightarrow> core \<Rightarrow> core" where
  "expire_transactions now c = expire_from now 0 c"

section \<open>The public operations\<close>

definition require_open :: "core \<Rightarrow> bool" where
  "require_open c \<longleftrightarrow> \<not> (c_destroyed c \<or> c_shutting_down c)"

definition require_ready :: "core \<Rightarrow> bool" where
  "require_ready c \<longleftrightarrow> require_open c \<and> c_state c = StReady"

definition ok_or :: "core \<Rightarrow> core option \<Rightarrow> bool \<times> core" where
  "ok_or c r = (case r of None \<Rightarrow> (False, c) | Some c1 \<Rightarrow> (True, c1))"

definition start_allocation :: "crypto \<Rightarrow> (operation \<Rightarrow> bytes) \<Rightarrow> nat \<Rightarrow> core \<Rightarrow> bool \<times> core" where
  "start_allocation cr tx now c =
    (if \<not> require_open c \<or> c_state c \<noteq> StNull then (False, c)
     else let c1 = set_state StAllocating c in ok_or c1 (start_operation cr tx now Allocate False 0 c1))"

definition start_channel :: "crypto \<Rightarrow> (operation \<Rightarrow> bytes) \<Rightarrow> nat \<Rightarrow> core \<Rightarrow> bool \<times> core" where
  "start_channel cr tx now c = (if \<not> require_ready c then (False, c)
     else ok_or c (start_operation cr tx now Channel True 0 c))"

definition start_permission :: "crypto \<Rightarrow> (operation \<Rightarrow> bytes) \<Rightarrow> nat \<Rightarrow> core \<Rightarrow> bool \<times> core" where
  "start_permission cr tx now c = (if \<not> require_ready c then (False, c)
     else ok_or c (start_operation cr tx now Permission True 0 c))"

definition requires_allocation_recreate :: "operation \<Rightarrow> nat \<Rightarrow> bool" where
  "requires_allocation_recreate op code \<longleftrightarrow> code = 437 \<or> (op = Channel \<and> code = 400)"

definition response_error :: "nat \<Rightarrow> int \<Rightarrow> nat \<Rightarrow> core \<Rightarrow> core" where
  "response_error method status code c = push_event ((blank_event EVENT_STUN_RESPONSE_ERROR)
     \<lparr>ev_method := method, ev_status := status, ev_stun_code := int code,
      ev_state := state_code (c_state c)\<rparr>) c"

text \<open>The branch of \<open>input_stun\<close> for an error response to the request \<open>p\<close>, already removed.\<close>

definition input_error :: "crypto \<Rightarrow> (operation \<Rightarrow> bytes) \<Rightarrow> nat \<Rightarrow> stun_message \<Rightarrow> nat \<Rightarrow> request
    \<Rightarrow> core \<Rightarrow> core" where
  "input_error cr tx now m method p c =
    (let code = (case error_code m of None \<Rightarrow> 0 | Some k \<Rightarrow> k)
     in if code = 0 then
          complete_failure (rq_operation p) RESULT_PROTOCOL 0 now (response_error method RESULT_PROTOCOL 0 c)
        else if requires_allocation_recreate (rq_operation p) code then
          destroy_allocation (rq_operation p) RESULT_PROTOCOL (int code) (response_error method 0 code c)
        else
          let realm = (case attribute ATTR_REALM m of Some a \<Rightarrow> Some (at_value a)
                       | None \<Rightarrow> if code = 438 then c_realm c else None);
              nonce = map_option at_value (attribute ATTR_NONCE m);
              gave_up = (\<lambda>c'. complete_failure (rq_operation p) RESULT_PROTOCOL (int code) now
                          (push_event ((blank_event EVENT_STUN_RESPONSE_ERROR)\<lparr>ev_method := method,
                             ev_stun_code := int code, ev_state := state_code (c_state c)\<rparr>) c'))
          in if (code = 401 \<or> code = 438) \<and> rq_nonce_retries p < tp_max_nonce_retries (c_profile c) then
               (case (realm, nonce) of
                  (Some rl, Some nc) \<Rightarrow>
                    let c1 = set_auth cr rl nc c
                    in (case start_operation cr tx now (rq_operation p) True (rq_nonce_retries p + 1) c1 of
                          Some c2 \<Rightarrow> c2
                        | None \<Rightarrow> gave_up c1)
                | _ \<Rightarrow> gave_up c)
             else gave_up c)"

definition input_stun :: "crypto \<Rightarrow> (operation \<Rightarrow> bytes) \<Rightarrow> nat \<Rightarrow> bytes \<Rightarrow> core \<Rightarrow> int \<times> core" where
  "input_stun cr tx now packet c = (case stun_decode packet of Inl e \<Rightarrow> (RESULT_INVALID_ARGUMENT, c)
   | Inr m \<Rightarrow>
     if stun_class_of m \<noteq> Success \<and> stun_class_of m \<noteq> ErrorClass then (RESULT_NOT_CONTROL, c)
     else if fingerprint_valid (cr_crc32 cr) m = Some False then (RESULT_INVALID_ARGUMENT, c)
     else let method = unat (stun_method m) in
     case position (\<lambda>p. rq_transaction p = sm_transaction m \<and> op_method (rq_operation p) = method) (c_pending c) of
       None \<Rightarrow> (RESULT_NOT_CONTROL, c)
     | Some i \<Rightarrow>
       let p = c_pending c ! i in
       if rq_authenticated p \<and> response_requires_integrity m
          \<and> \<not> verify_integrity cr packet m (c_key c)
          \<and> \<not> is_fingerprinted_allocation_mismatch (cr_crc32 cr) m then
         (RESULT_AUTHENTICATION,
          if stun_class_of m = ErrorClass then
            (case error_code m of None \<Rightarrow> c | Some code \<Rightarrow> response_error method RESULT_AUTHENTICATION code c)
          else c)
       else let c1 = remove_queued_transaction (sm_transaction m) (c\<lparr>c_pending := remove_at i (c_pending c)\<rparr>) in
       if stun_class_of m = Success \<and> \<not> rq_authenticated p then
         (RESULT_AUTHENTICATION, complete_failure (rq_operation p) RESULT_AUTHENTICATION 0 now c1)
       else if stun_class_of m = ErrorClass then (0, input_error cr tx now m method p c1)
       else let (ok, c2) = complete_success cr tx now (rq_operation p) m c1
            in if ok then (0, c2) else (RESULT_PROTOCOL, complete_failure (rq_operation p) RESULT_PROTOCOL 0 now c2))"

definition next_deadline :: "core \<Rightarrow> nat option" where
  "next_deadline c = (case map rq_next_attempt (c_pending c)
       @ concat (map (\<lambda>d. case d of None \<Rightarrow> [] | Some t \<Rightarrow> [t])
           [c_allocation_refresh c, c_maintenance_refresh c, c_permission_retry c, c_channel_retry c, c_keepalive c]) of
     [] \<Rightarrow> None | t # ts \<Rightarrow> Some (foldl min t ts))"

text \<open>The timers of a READY allocation; \<open>None\<close> stands for the error of a request that could not be
  started, the state being the one reached so far.\<close>

definition poll_refresh :: "crypto \<Rightarrow> (operation \<Rightarrow> bytes) \<Rightarrow> nat \<Rightarrow> core \<Rightarrow> bool \<times> core" where
  "poll_refresh cr tx now c =
    (if due now (c_allocation_refresh c) \<and> \<not> has_operation Refresh c then
       let c1 = c\<lparr>c_allocation_refresh := None\<rparr> in ok_or c1 (start_operation cr tx now Refresh True 0 c1)
     else (True, c))"

definition poll_permission :: "crypto \<Rightarrow> (operation \<Rightarrow> bytes) \<Rightarrow> nat \<Rightarrow> bool \<Rightarrow> core \<Rightarrow> bool \<times> core" where
  "poll_permission cr tx now wanted c =
    (if wanted \<and> \<not> has_operation Permission c then
       let c1 = c\<lparr>c_permission_retry := None\<rparr> in ok_or c1 (start_operation cr tx now Permission True 0 c1)
     else (True, c))"

definition poll_channel :: "crypto \<Rightarrow> (operation \<Rightarrow> bytes) \<Rightarrow> nat \<Rightarrow> bool \<Rightarrow> core \<Rightarrow> bool \<times> core" where
  "poll_channel cr tx now wanted c =
    (if wanted \<and> \<not> has_operation Channel c then
       let c1 = c\<lparr>c_channel_retry := None\<rparr> in ok_or c1 (start_operation cr tx now Channel True 0 c1)
     else (True, c))"

definition poll_keepalive :: "nat \<Rightarrow> core \<Rightarrow> core" where
  "poll_keepalive now c = (if due now (c_keepalive c)
     then queue_keepalive (c\<lparr>c_keepalive := Some (now + tp_keepalive_interval (c_profile c))\<rparr>) else c)"

definition poll_ready :: "crypto \<Rightarrow> (operation \<Rightarrow> bytes) \<Rightarrow> nat \<Rightarrow> core \<Rightarrow> bool \<times> core" where
  "poll_ready cr tx now c =
    (let maintenance_due = due now (c_maintenance_refresh c);
         permission_due = due now (c_permission_retry c);
         channel_due = due now (c_channel_retry c);
         (ok1, c1) = poll_refresh cr tx now c
     in if \<not> ok1 then (False, c1) else
     let c2 = (if maintenance_due
               then c1\<lparr>c_maintenance_refresh := Some (now + tp_maintenance_refresh (c_profile c1))\<rparr> else c1);
         (ok3, c3) = poll_permission cr tx now (maintenance_due \<or> permission_due) c2
     in if \<not> ok3 then (False, c3) else
     let (ok4, c4) = poll_channel cr tx now (maintenance_due \<or> channel_due) c3
     in if \<not> ok4 then (False, c4) else (True, poll_keepalive now c4))"

text \<open>\<open>poll\<close> returns the time to the next deadline, at least 1 ms; \<open>Inl ()\<close> is the error.\<close>

definition poll_expire :: "nat \<Rightarrow> core \<Rightarrow> core" where
  "poll_expire now c =
    (let c1 = expire_transactions now c
     in if \<not> c_shutting_down c1 \<and> c_state c1 = StReady \<and> due now (c_allocation_expires_at c1)
        then destroy_allocation Refresh RESULT_TIMEOUT 0 c1 else c1)"

definition poll :: "crypto \<Rightarrow> (operation \<Rightarrow> bytes) \<Rightarrow> nat \<Rightarrow> core \<Rightarrow> (unit + nat option) \<times> core" where
  "poll cr tx now c =
    (if c_destroyed c then (Inr None, c) else
     let c2 = poll_expire now c;
         (ok, c3) = (if \<not> c_shutting_down c2 \<and> c_state c2 = StReady then poll_ready cr tx now c2 else (True, c2))
     in if \<not> ok then (Inl (), c3)
        else (Inr (map_option (\<lambda>d. max (d - now) (msec 1)) (next_deadline c3)), c3))"

definition resync_after_suspend :: "nat \<Rightarrow> nat \<Rightarrow> core \<Rightarrow> bool \<times> core" where
  "resync_after_suspend now gap c =
    (if c_destroyed c \<or> c_shutting_down c \<or> c_state c \<noteq> StReady then (False, c) else
     let probe = (\<lambda>c'. (False, c'\<lparr>c_allocation_refresh := Some now, c_maintenance_refresh := Some now,
                     c_keepalive := Some now\<rparr>))
     in case c_allocation_expires_at c of None \<Rightarrow> probe c
     | Some e \<Rightarrow> if gap \<le> e \<and> now < e - gap then probe (c\<lparr>c_allocation_expires_at := Some (e - gap)\<rparr>)
         else (True, destroy_allocation Refresh RESULT_TIMEOUT 0 c))"

text \<open>\<open>pull_control\<close> hands out the oldest packet; one above the 1024-byte buffer is an error and gone.\<close>

definition pull_control :: "core \<Rightarrow> (unit + (bytes \<times> socket_addr) option) \<times> core" where
  "pull_control c = (case c_controls c of [] \<Rightarrow> (Inr None, c)
     | ct # rest \<Rightarrow> (if 1024 < length (ct_packet ct) then Inl () else Inr (Some (ct_packet ct, ct_destination ct)),
         c\<lparr>c_controls := rest\<rparr>))"

definition pull_event :: "core \<Rightarrow> native_event option \<times> core" where
  "pull_event c = (case c_events c of [] \<Rightarrow> (None, c) | e # es \<Rightarrow> (Some e, c\<lparr>c_events := es\<rparr>))"

definition graceful_shutdown :: "crypto \<Rightarrow> (operation \<Rightarrow> bytes) \<Rightarrow> nat \<Rightarrow> core \<Rightarrow> bool \<times> core" where
  "graceful_shutdown cr tx now c =
    (if c_destroyed c \<or> c_shutting_down c then (True, c) else
     let c1 = c\<lparr>c_shutting_down := True, c_channel := None, c_maintenance_refresh := None,
                c_permission_retry := None, c_channel_retry := None, c_keepalive := None, c_controls := []\<rparr>
     in if c_state c1 = StReady \<or> (c_state c1 = StDestroying \<and> c_allocation_expires_at c1 \<noteq> None) then
          let c2 = set_state StDeallocating (c1\<lparr>c_pending := []\<rparr>)
          in ok_or c2 (start_operation cr tx now Deallocate True 0 c2)
        else if c_state c1 \<noteq> StAllocating then (True, c1\<lparr>c_pending := []\<rparr>)
        else (True, c1))"

definition force_destroy :: "int \<Rightarrow> core \<Rightarrow> core" where
  "force_destroy status c = (if c_destroyed c then c else
     push_event ((blank_event EVENT_FORCED_DESTROY)\<lparr>ev_status := status, ev_state := state_code StDestroying\<rparr>)
       (set_state StDestroying (c\<lparr>c_destroyed := True, c_controls := [], c_pending := []\<rparr>)))"

section \<open>Steps\<close>

datatype core_call =
    CallStartAllocation | CallStartChannel | CallStartPermission | CallInput bytes | CallPoll
  | CallResync nat | CallPullControl | CallPullEvent | CallShutdown | CallForceDestroy int

record core_event =
  ce_call :: core_call
  ce_now :: nat
  ce_tx :: "operation \<Rightarrow> bytes"

definition core_step :: "crypto \<Rightarrow> core_event \<Rightarrow> core \<Rightarrow> core" where
  "core_step cr e c = (let now = ce_now e; tx = ce_tx e in case ce_call e of
     CallStartAllocation \<Rightarrow> snd (start_allocation cr tx now c)
   | CallStartChannel \<Rightarrow> snd (start_channel cr tx now c)
   | CallStartPermission \<Rightarrow> snd (start_permission cr tx now c)
   | CallInput packet \<Rightarrow> snd (input_stun cr tx now packet c)
   | CallPoll \<Rightarrow> snd (poll cr tx now c)
   | CallResync gap \<Rightarrow> snd (resync_after_suspend now gap c)
   | CallPullControl \<Rightarrow> snd (pull_control c)
   | CallPullEvent \<Rightarrow> snd (pull_event c)
   | CallShutdown \<Rightarrow> snd (graceful_shutdown cr tx now c)
   | CallForceDestroy status \<Rightarrow> force_destroy status c)"

end
