(* ===== verification/BoundedQueue.thy ===== *)
theory BoundedQueue
  imports Prelude
begin

text \<open>
  The interface of \<open>crossbeam_queue::ArrayQueue\<close>, which the packet pool, the packet queues and the
  uplink bridge share, and the generic argument for invariants of a component that is driven by a
  sequence of operations. The queue is not part of the repository: its operations are a record
  that the definitions take as an argument, and what its documentation promises is the predicate
  \<open>queue_laws\<close> against the list of the queued elements, oldest first.
\<close>

section \<open>The queue interface\<close>

record ('a, 'q) queue_ops =
  qo_new :: "nat \<Rightarrow> 'q"
  qo_push :: "'a \<Rightarrow> 'q \<Rightarrow> 'q option"
  qo_force_push :: "'a \<Rightarrow> 'q \<Rightarrow> 'a option \<times> 'q"
  qo_pop :: "'q \<Rightarrow> ('a \<times> 'q) option"
  qo_len :: "'q \<Rightarrow> nat"

text \<open>\<open>items\<close> is the contents, \<open>cap\<close> the capacity given at creation. \<open>push\<close> fails
  on a full queue, \<open>force_push\<close> then replaces the oldest element and returns it.\<close>

definition queue_laws :: "('a, 'q) queue_ops \<Rightarrow> ('q \<Rightarrow> 'a list) \<Rightarrow> ('q \<Rightarrow> nat) \<Rightarrow> bool" where
  "queue_laws ops items cap \<longleftrightarrow>
     (\<forall>n. 0 < n \<longrightarrow> items (qo_new ops n) = [] \<and> cap (qo_new ops n) = n)
   \<and> (\<forall>x q. length (items q) < cap q \<longrightarrow>
        (\<exists>q'. qo_push ops x q = Some q' \<and> items q' = items q @ [x] \<and> cap q' = cap q))
   \<and> (\<forall>x q. cap q \<le> length (items q) \<longrightarrow> qo_push ops x q = None)
   \<and> (\<forall>x q. items (snd (qo_force_push ops x q)) =
          (if length (items q) < cap q then items q @ [x] else tl (items q) @ [x])
        \<and> cap (snd (qo_force_push ops x q)) = cap q
        \<and> fst (qo_force_push ops x q) = (if length (items q) < cap q then None else Some (hd (items q))))
   \<and> (\<forall>q. items q = [] \<longrightarrow> qo_pop ops q = None)
   \<and> (\<forall>q x xs. items q = x # xs \<longrightarrow>
        (\<exists>q'. qo_pop ops q = Some (x, q') \<and> items q' = xs \<and> cap q' = cap q))
   \<and> (\<forall>q. qo_len ops q = length (items q))"

text \<open>The obvious list implementation, on which the interface is interpreted.\<close>

record 'a list_queue =
  lq_items :: "'a list"
  lq_cap :: nat

definition list_queue_ops :: "('a, 'a list_queue) queue_ops" where
  "list_queue_ops =
    \<lparr>qo_new = (\<lambda>n. \<lparr>lq_items = [], lq_cap = n\<rparr>),
     qo_push = (\<lambda>x q. if length (lq_items q) < lq_cap q then Some (q\<lparr>lq_items := lq_items q @ [x]\<rparr>) else None),
     qo_force_push = (\<lambda>x q. if length (lq_items q) < lq_cap q then (None, q\<lparr>lq_items := lq_items q @ [x]\<rparr>)
        else (Some (hd (lq_items q)), q\<lparr>lq_items := tl (lq_items q) @ [x]\<rparr>)),
     qo_pop = (\<lambda>q. case lq_items q of [] \<Rightarrow> None | x # xs \<Rightarrow> Some (x, q\<lparr>lq_items := xs\<rparr>)),
     qo_len = (\<lambda>q. length (lq_items q))\<rparr>"

lemma list_queue_laws: "queue_laws list_queue_ops lq_items lq_cap"
  by (auto simp: queue_laws_def list_queue_ops_def)

locale array_queue =
  fixes ops :: "('a, 'q) queue_ops" and items :: "'q \<Rightarrow> 'a list" and cap :: "'q \<Rightarrow> nat"
  assumes laws: "queue_laws ops items cap"
begin

lemma new_items: "0 < n \<Longrightarrow> items (qo_new ops n) = []" "0 < n \<Longrightarrow> cap (qo_new ops n) = n"
  using laws by (auto simp: queue_laws_def)

lemma push_Some: "qo_push ops x q = Some q' \<Longrightarrow> items q' = items q @ [x] \<and> cap q' = cap q \<and> length (items q) < cap q"
  using laws unfolding queue_laws_def by (metis not_less option.distinct(1) option.inject)

lemma push_None: "qo_push ops x q = None \<longleftrightarrow> cap q \<le> length (items q)"
  using laws unfolding queue_laws_def by (metis not_less option.distinct(1))

lemma pop_None: "qo_pop ops q = None \<longleftrightarrow> items q = []"
  using laws unfolding queue_laws_def by (metis list.exhaust option.distinct(1))

lemma pop_Some: "qo_pop ops q = Some (x, q') \<Longrightarrow> items q = x # items q' \<and> cap q' = cap q"
  using laws unfolding queue_laws_def by (metis Pair_inject list.exhaust option.distinct(1) option.inject)

lemma len_items [simp]: "qo_len ops q = length (items q)"
  using laws by (auto simp: queue_laws_def)

lemma force_push_items:
  "items (snd (qo_force_push ops x q)) = (if length (items q) < cap q then items q @ [x] else tl (items q) @ [x])"
  "cap (snd (qo_force_push ops x q)) = cap q"
  "fst (qo_force_push ops x q) = (if length (items q) < cap q then None else Some (hd (items q)))"
  using laws unfolding queue_laws_def by blast+

lemma bounded_push: "length (items q) \<le> cap q \<Longrightarrow> qo_push ops x q = Some q' \<Longrightarrow> length (items q') \<le> cap q'"
  using push_Some by fastforce

lemma bounded_pop: "length (items q) \<le> cap q \<Longrightarrow> qo_pop ops q = Some (x, q') \<Longrightarrow> length (items q') \<le> cap q'"
  using pop_Some by fastforce

lemma bounded_force_push:
  "0 < cap q \<Longrightarrow> length (items q) \<le> cap q
   \<Longrightarrow> length (items (snd (qo_force_push ops x q))) \<le> cap (snd (qo_force_push ops x q))"
  by (auto simp: force_push_items)

end

interpretation lqi: array_queue list_queue_ops lq_items lq_cap
  by unfold_locales (rule list_queue_laws)

section \<open>Components driven by operations\<close>

text \<open>A component with an invariant that every operation keeps: the invariant holds after any
  sequence of operations.\<close>

fun run_ops :: "('e \<Rightarrow> 's \<Rightarrow> 's) \<Rightarrow> 'e list \<Rightarrow> 's \<Rightarrow> 's" where
  "run_ops step [] s = s"
| "run_ops step (e # es) s = run_ops step es (step e s)"

lemma run_ops_append: "run_ops step (es @ es') s = run_ops step es' (run_ops step es s)"
  by (induction es arbitrary: s) auto

locale driven =
  fixes step :: "'e \<Rightarrow> 's \<Rightarrow> 's" and inv :: "'s \<Rightarrow> bool"
  assumes preserved: "inv s \<Longrightarrow> inv (step e s)"
begin

lemma run_inv: "inv s \<Longrightarrow> inv (run_ops step es s)"
  by (induction es arbitrary: s) (auto intro: preserved)

end

end
