(* ===== verification/Packet.thy ===== *)
theory Packet
  imports BoundedQueue
begin

text \<open>
  \<open>packet.rs\<close>: the packet buffer with headroom (\<open>PacketBuf\<close>) and the pool that limits how many
  buffers exist (\<open>PacketPool\<close>). The contents of a fresh buffer are uninitialised memory in the
  source and an argument here.
\<close>

section \<open>Constants\<close>

definition PACKET_HEADROOM :: nat where "PACKET_HEADROOM = 64"
definition PACKET_CAPACITY :: nat where "PACKET_CAPACITY = 2304"
definition PACKET_POOL_PER_WORKER :: nat where "PACKET_POOL_PER_WORKER = 256"
definition PACKET_POOL_SHARED :: nat where "PACKET_POOL_SHARED = 512"
definition PACKET_POOL_RETAINED_MAX :: nat where "PACKET_POOL_RETAINED_MAX = 2048"

definition packet_pool_size :: "nat \<Rightarrow> nat" where
  "packet_pool_size workers =
     usize_saturating_add (min (workers * PACKET_POOL_PER_WORKER) usize_max) PACKET_POOL_SHARED"

section \<open>Buffers\<close>

record packet_buf =
  pb_storage :: bytes
  pb_start :: nat
  pb_end :: nat

datatype packet_error =
    ReadExceedsCapacity | PrependExceedsHeadroom | TailLengthOverflow | TailExceedsCapacity
  | TrimExceedsLength | TruncateExceedsLength | InvalidRange

definition buf_len :: "packet_buf \<Rightarrow> nat" where
  "buf_len b = pb_end b - pb_start b"

definition buf_is_empty :: "packet_buf \<Rightarrow> bool" where
  "buf_is_empty b = (buf_len b = 0)"

definition as_slice :: "packet_buf \<Rightarrow> bytes" where
  "as_slice b = subslice (pb_storage b) (pb_start b) (pb_end b)"

text \<open>Writing through one of the \<open>&mut [u8]\<close> regions the operations return: \<open>data\<close> is copied
  to the storage at \<open>pos\<close>.\<close>

definition write_at :: "nat \<Rightarrow> bytes \<Rightarrow> packet_buf \<Rightarrow> packet_buf" where
  "write_at pos data b = b\<lparr>pb_storage := take pos (pb_storage b) @ data @ drop (pos + length data) (pb_storage b)\<rparr>"

definition read_area_len :: nat where
  "read_area_len = PACKET_CAPACITY - PACKET_HEADROOM"

definition set_read_len :: "nat \<Rightarrow> packet_buf \<Rightarrow> packet_error + packet_buf" where
  "set_read_len len b = (if PACKET_CAPACITY - PACKET_HEADROOM < len then Inl ReadExceedsCapacity
     else Inr (b\<lparr>pb_start := PACKET_HEADROOM, pb_end := PACKET_HEADROOM + len\<rparr>))"

definition prepend :: "nat \<Rightarrow> packet_buf \<Rightarrow> packet_error + packet_buf" where
  "prepend len b = (if pb_start b < len then Inl PrependExceedsHeadroom
     else Inr (b\<lparr>pb_start := pb_start b - len\<rparr>))"

definition extend_tail :: "nat \<Rightarrow> packet_buf \<Rightarrow> packet_error + packet_buf" where
  "extend_tail len b = (case usize_checked_add (pb_end b) len of None \<Rightarrow> Inl TailLengthOverflow
     | Some e \<Rightarrow> if PACKET_CAPACITY < e then Inl TailExceedsCapacity else Inr (b\<lparr>pb_end := e\<rparr>))"

definition trim_front :: "nat \<Rightarrow> packet_buf \<Rightarrow> packet_error + packet_buf" where
  "trim_front len b = (if buf_len b < len then Inl TrimExceedsLength
     else Inr (b\<lparr>pb_start := pb_start b + len\<rparr>))"

definition truncate_buf :: "nat \<Rightarrow> packet_buf \<Rightarrow> packet_error + packet_buf" where
  "truncate_buf len b = (if buf_len b < len then Inl TruncateExceedsLength
     else Inr (b\<lparr>pb_end := pb_start b + len\<rparr>))"

definition set_range :: "nat \<Rightarrow> nat \<Rightarrow> packet_buf \<Rightarrow> packet_error + packet_buf" where
  "set_range s e b = (if e < s \<or> PACKET_CAPACITY < e then Inl InvalidRange
     else Inr (b\<lparr>pb_start := s, pb_end := e\<rparr>))"

definition packet_ok :: "packet_buf \<Rightarrow> bool" where
  "packet_ok b \<longleftrightarrow> pb_start b \<le> pb_end b \<and> pb_end b \<le> PACKET_CAPACITY \<and> length (pb_storage b) = PACKET_CAPACITY"

section \<open>The pool\<close>

record 'q packet_pool =
  pl_queue :: 'q
  pl_allocated :: nat
  pl_limit :: nat

definition new_pool :: "(bytes, 'q) queue_ops \<Rightarrow> nat \<Rightarrow> 'q packet_pool" where
  "new_pool ops buffers =
    (let capacity = max buffers 1; retained_limit = min capacity PACKET_POOL_RETAINED_MAX
     in \<lparr>pl_queue = qo_new ops retained_limit, pl_allocated = 0, pl_limit = capacity\<rparr>)"

definition buf_of :: "bytes \<Rightarrow> packet_buf" where
  "buf_of storage = \<lparr>pb_storage = storage, pb_start = PACKET_HEADROOM, pb_end = PACKET_HEADROOM\<rparr>"

definition try_acquire :: "(bytes, 'q) queue_ops \<Rightarrow> bytes \<Rightarrow> 'q packet_pool
    \<Rightarrow> (packet_buf \<times> 'q packet_pool) option" where
  "try_acquire ops fresh p = (case qo_pop ops (pl_queue p) of
     Some (storage, q) \<Rightarrow> Some (buf_of storage, p\<lparr>pl_queue := q\<rparr>)
   | None \<Rightarrow> if pl_allocated p < pl_limit p
       then Some (buf_of fresh, p\<lparr>pl_allocated := pl_allocated p + 1\<rparr>) else None)"

definition release_buf :: "(bytes, 'q) queue_ops \<Rightarrow> packet_buf \<Rightarrow> 'q packet_pool \<Rightarrow> 'q packet_pool" where
  "release_buf ops b p =
    (if length (pb_storage b) \<noteq> PACKET_CAPACITY then p\<lparr>pl_allocated := pl_allocated p - 1\<rparr>
     else case qo_push ops (pb_storage b) (pl_queue p) of
       Some q \<Rightarrow> p\<lparr>pl_queue := q\<rparr>
     | None \<Rightarrow> p\<lparr>pl_allocated := pl_allocated p - 1\<rparr>)"

definition try_duplicate :: "(bytes, 'q) queue_ops \<Rightarrow> bytes \<Rightarrow> packet_buf \<Rightarrow> 'q packet_pool
    \<Rightarrow> packet_buf option \<times> 'q packet_pool" where
  "try_duplicate ops fresh b p = (case try_acquire ops fresh p of None \<Rightarrow> (None, p)
     | Some (copy, p1) \<Rightarrow>
       if read_area_len < length (as_slice b) then (None, release_buf ops copy p1)
       else case set_read_len (length (as_slice b)) (write_at PACKET_HEADROOM (as_slice b) copy) of
         Inl e \<Rightarrow> (None, release_buf ops copy p1)
       | Inr c \<Rightarrow> (Some c, p1))"

text \<open>The pool together with the buffers its users hold: acquire, any operation on a held
  buffer (it may even replace the storage, as \<open>storage_mut\<close> allows), duplicate, drop.\<close>

datatype pool_event =
    PAcquire bytes
  | PMutate nat packet_buf
  | PDuplicate nat bytes
  | PDrop nat

type_synonym 'q pool_system = "'q packet_pool \<times> packet_buf list"

fun pool_step :: "(bytes, 'q) queue_ops \<Rightarrow> pool_event \<Rightarrow> 'q pool_system \<Rightarrow> 'q pool_system" where
  "pool_step ops (PAcquire fresh) (p, held) = (case try_acquire ops fresh p of None \<Rightarrow> (p, held)
     | Some (b, p') \<Rightarrow> (p', held @ [b]))"
| "pool_step ops (PMutate i b) (p, held) = (p, held[i := b])"
| "pool_step ops (PDuplicate i fresh) (p, held) =
     (if i < length held then case try_duplicate ops fresh (held ! i) p of
        (None, p') \<Rightarrow> (p', held) | (Some c, p') \<Rightarrow> (p', held @ [c])
      else (p, held))"
| "pool_step ops (PDrop i) (p, held) =
     (if i < length held then (release_buf ops (held ! i) p, take i held @ drop (Suc i) held) else (p, held))"

section \<open>Buffer lemmas\<close>

lemma packet_ok_acquired [inv_intros]: "length storage = PACKET_CAPACITY \<Longrightarrow> packet_ok (buf_of storage)"
  by (simp add: packet_ok_def buf_of_def PACKET_CAPACITY_def PACKET_HEADROOM_def)

lemma length_as_slice: "packet_ok b \<Longrightarrow> length (as_slice b) = buf_len b"
  by (simp add: as_slice_def packet_ok_def length_subslice buf_len_def)

lemma packet_ok_ops [inv_intros]:
  assumes "packet_ok b"
  shows "set_read_len n b = Inr c \<Longrightarrow> packet_ok c" "prepend n b = Inr c \<Longrightarrow> packet_ok c"
    "extend_tail n b = Inr c \<Longrightarrow> packet_ok c" "trim_front n b = Inr c \<Longrightarrow> packet_ok c"
    "truncate_buf n b = Inr c \<Longrightarrow> packet_ok c" "set_range s e b = Inr c \<Longrightarrow> packet_ok c"
    "pos + length data \<le> PACKET_CAPACITY \<Longrightarrow> packet_ok (write_at pos data b)"
  using assms
  by (auto simp: packet_ok_def set_read_len_def prepend_def extend_tail_def trim_front_def truncate_buf_def
      set_range_def write_at_def buf_len_def PACKET_CAPACITY_def PACKET_HEADROOM_def split: if_splits option.splits)

lemma subslice_write:
  "pos + length d \<le> length xs \<Longrightarrow> subslice (take pos xs @ d @ drop (pos + length d) xs) pos (pos + length d) = d"
  by (simp add: subslice_def)

lemma prepend_write:
  assumes "packet_ok b" "prepend (length d) b = Inr c"
  shows "as_slice (write_at (pb_start c) d c) = d @ as_slice b"
proof -
  have c: "length d \<le> pb_start b" "c = b\<lparr>pb_start := pb_start b - length d\<rparr>"
    using assms(2) by (auto simp: prepend_def split: if_splits)
  have "pb_start b \<le> pb_end b" "pb_end b \<le> length (pb_storage b)" using assms(1) by (auto simp: packet_ok_def)
  thus ?thesis using c by (simp add: as_slice_def write_at_def subslice_def)
qed

lemma extend_write:
  assumes "packet_ok b" "extend_tail (length d) b = Inr c"
  shows "as_slice (write_at (pb_end b) d c) = as_slice b @ d"
proof -
  have c: "pb_end b + length d \<le> PACKET_CAPACITY" "c = b\<lparr>pb_end := pb_end b + length d\<rparr>"
    using assms(2) by (auto simp: extend_tail_def split: if_splits option.splits)
  have b: "pb_start b \<le> pb_end b" "length (pb_storage b) = PACKET_CAPACITY" using assms(1) by (auto simp: packet_ok_def)
  have "subslice (take (pb_end b) (pb_storage b) @ d @ drop (pb_end b + length d) (pb_storage b)) (pb_start b) (pb_end b)
      = as_slice b"
    using b c(1) by (simp add: subslice_append_left as_slice_def) (simp add: subslice_def drop_take)
  thus ?thesis using subslice_append [of "pb_start b" "pb_end b" "pb_end b + length d"
      "take (pb_end b) (pb_storage b) @ d @ drop (pb_end b + length d) (pb_storage b)"] b c
    by (simp add: as_slice_def write_at_def subslice_write)
qed

lemma trim_slice: "trim_front n b = Inr c \<Longrightarrow> as_slice c = drop n (as_slice b)"
  by (auto simp: trim_front_def as_slice_def subslice_def buf_len_def drop_take add.commute split: if_splits)

lemma truncate_slice: "truncate_buf n b = Inr c \<Longrightarrow> as_slice c = take n (as_slice b)"
  by (auto simp: truncate_buf_def as_slice_def subslice_def buf_len_def min_def split: if_splits)

lemma duplicate_slice:
  assumes "try_duplicate ops fresh b p = (Some c, p')" "packet_ok b"
    "\<And>x p1. try_acquire ops fresh p = Some (x, p1) \<Longrightarrow> length (pb_storage x) = PACKET_CAPACITY"
  shows "as_slice c = as_slice b"
proof -
  obtain x where a: "try_acquire ops fresh p = Some (x, p')" "length (as_slice b) \<le> read_area_len"
    "set_read_len (length (as_slice b)) (write_at PACKET_HEADROOM (as_slice b) x) = Inr c"
    using assms(1) by (auto simp: try_duplicate_def split: option.splits if_splits sum.splits)
  have "PACKET_HEADROOM + length (as_slice b) \<le> length (pb_storage x)"
    using a(2) assms(3) [OF a(1)] by (simp add: read_area_len_def PACKET_CAPACITY_def PACKET_HEADROOM_def)
  thus ?thesis using a(3)
    by (auto simp: set_read_len_def as_slice_def [of c] write_at_def subslice_write split: if_splits)
qed

section \<open>Accounting of the pool\<close>

locale pool_queue = array_queue ops items cap
  for ops :: "(bytes, 'q) queue_ops" and items :: "'q \<Rightarrow> bytes list" and cap :: "'q \<Rightarrow> nat"
begin

definition pool_inv :: "'q pool_system \<Rightarrow> bool" where
  "pool_inv s \<longleftrightarrow> (case s of (p, held) \<Rightarrow>
     pl_allocated p = length held + length (items (pl_queue p)) \<and> pl_allocated p \<le> pl_limit p
     \<and> length (items (pl_queue p)) \<le> cap (pl_queue p)
     \<and> (\<forall>st\<in>set (items (pl_queue p)). length st = PACKET_CAPACITY))"

lemma acquire_inv:
  "pool_inv (p, held) \<Longrightarrow> try_acquire ops fresh p = Some (b, p') \<Longrightarrow> pool_inv (p', held @ [b]) \<and> pl_limit p' = pl_limit p"
  by (auto simp: try_acquire_def pool_inv_def pop_None dest!: pop_Some split: option.splits if_splits)

lemma acquire_None: "pool_inv (p, held) \<Longrightarrow> try_acquire ops fresh p = None \<longleftrightarrow> length held = pl_limit p"
  by (auto simp: try_acquire_def pool_inv_def pop_None dest!: pop_Some split: option.splits)

lemma release_inv:
  assumes "pool_inv (p, held1 @ b # held2)"
  shows "pool_inv (release_buf ops b p, held1 @ held2) \<and> pl_limit (release_buf ops b p) = pl_limit p"
  using assms by (auto simp: release_buf_def pool_inv_def push_None dest!: push_Some split: option.splits)

lemma release_acquired: "pool_inv (p, held @ [b]) \<Longrightarrow> pool_inv (release_buf ops b p, held) \<and> pl_limit (release_buf ops b p) = pl_limit p"
  using release_inv [of p held b "[]"] by simp

lemma duplicate_inv:
  assumes inv: "pool_inv (p, held)" and run: "try_duplicate ops fresh b p = (r, p')"
  shows "pool_inv (p', held @ (case r of None \<Rightarrow> [] | Some c \<Rightarrow> [c])) \<and> pl_limit p' = pl_limit p"
proof (cases "try_acquire ops fresh p")
  case None
  thus ?thesis using assms by (auto simp: try_duplicate_def)
next
  case (Some x)
  obtain c p1 where x: "x = (c, p1)" by force
  have ok: "pool_inv (p1, held @ [c])" "pl_limit p1 = pl_limit p" using acquire_inv [OF inv] Some x by auto
  have any: "pool_inv (p1, held @ [d])" for d using ok(1) by (auto simp: pool_inv_def)
  show ?thesis
    using run Some x ok(2) any release_acquired [OF ok(1)]
    by (auto simp: try_duplicate_def split: if_splits sum.splits)
qed

lemma step_inv: "pool_inv s \<Longrightarrow> pool_inv (pool_step ops e s) \<and> pl_limit (fst (pool_step ops e s)) = pl_limit (fst s)"
proof (cases s)
  case (Pair p held)
  assume inv: "pool_inv s"
  show ?thesis
  proof (cases e)
    case (PAcquire fresh)
    thus ?thesis using inv acquire_inv [of p held fresh] Pair by (auto split: option.splits)
  next
    case (PMutate i b)
    thus ?thesis using inv Pair by (auto simp: pool_inv_def)
  next
    case (PDuplicate i fresh)
    obtain r p' where d: "try_duplicate ops fresh (held ! i) p = (r, p')" by force
    show ?thesis using duplicate_inv [OF inv [unfolded Pair] d] inv PDuplicate Pair d by (auto split: option.splits)
  next
    case (PDrop i)
    show ?thesis
    proof (cases "i < length held")
      case True
      hence "held = take i held @ held ! i # drop (Suc i) held" by (simp add: id_take_nth_drop)
      thus ?thesis using release_inv [of p "take i held" "held ! i" "drop (Suc i) held"] inv PDrop Pair True by simp
    qed (use inv PDrop Pair in auto)
  qed
qed

lemma new_pool_inv: "pool_inv (new_pool ops n, [])"
  using new_items [of "min (max n 1) PACKET_POOL_RETAINED_MAX"]
  by (simp add: pool_inv_def new_pool_def Let_def PACKET_POOL_RETAINED_MAX_def)

end

sublocale pool_queue \<subseteq> pool: driven "pool_step ops" "\<lambda>s. pool_inv s \<and> pl_limit (fst s) = m"
  by unfold_locales (use step_inv in auto)

context pool_queue
begin

lemma run_pool:
  "pool_inv (run_ops (pool_step ops) es (new_pool ops n, []))"
  "pl_limit (fst (run_ops (pool_step ops) es (new_pool ops n, []))) = max n 1"
  using pool.run_inv [of "(new_pool ops n, [])" "max n 1" es] new_pool_inv [of n]
  by (simp_all add: new_pool_def Let_def)

end

interpretation lpq: pool_queue list_queue_ops lq_items lq_cap
  by unfold_locales

section \<open>Properties\<close>

text \<open>No buffer leaks and the pool never exceeds its limit: after any sequence of acquisitions,
  operations on held buffers (including a replaced storage), duplications and drops, the
  allocation counter equals the buffers held plus the buffers retained, is at most the limit
  given at creation, and an acquisition fails exactly when every buffer of the limit is held. The queue is
  any implementation that satisfies the documented laws of a bounded FIFO.\<close>

theorem pool_accounting:
  assumes "queue_laws ops items cap"
    and "run_ops (pool_step ops) es (new_pool ops n, []) = (p, held)"
  shows "pl_allocated p = length held + length (items (pl_queue p)) \<and> pl_allocated p \<le> max n 1
    \<and> (try_acquire ops fresh p = None \<longleftrightarrow> length held = max n 1)"
proof -
  have pq: "pool_queue ops items cap"
    by (intro pool_queue.intro array_queue.intro) (rule assms(1))
  have "pool_queue.pool_inv items cap (p, held) \<and> pl_limit p = max n 1"
    using pool_queue.run_pool [OF pq, of es n] assms(2) by simp
  thus ?thesis using pool_queue.acquire_None [OF pq, of p held fresh]
    by (auto simp: pool_queue.pool_inv_def [OF pq])
qed

lemma pool_accounting_witness:
  "let (p, held) = run_ops (pool_step list_queue_ops)
       [PAcquire [], PAcquire [], PDrop 0] (new_pool list_queue_ops 1, [])
   in pl_allocated p = length held + length (lq_items (pl_queue p)) \<and> held = []"
proof -
  let ?r = "run_ops (pool_step list_queue_ops) [PAcquire [], PAcquire [], PDrop 0] (new_pool list_queue_ops 1, [])"
  have "held = []" if "?r = (p, held)" for p held
    using that by (simp add: new_pool_def list_queue_ops_def try_acquire_def PACKET_POOL_RETAINED_MAX_def)
  thus ?thesis using pool_accounting [OF list_queue_laws, of "[PAcquire [], PAcquire [], PDrop 0]" 1]
    by (auto split: prod.splits)
qed

text \<open>The view of a packet. On a well-formed buffer every operation either fails leaving nothing
  changed or yields a well-formed buffer, and it acts on the visible bytes as intended: a prepend
  followed by writing the region puts the data in front, an extension puts it behind, trimming and
  truncating cut the two ends, and trimming what was prepended restores the view.\<close>

theorem packet_views:
  assumes "packet_ok b"
  shows "(prepend (length d) b = Inr c \<longrightarrow> packet_ok (write_at (pb_start c) d c)
            \<and> as_slice (write_at (pb_start c) d c) = d @ as_slice b
            \<and> (\<exists>t. trim_front (length d) (write_at (pb_start c) d c) = Inr t \<and> as_slice t = as_slice b))
    \<and> (extend_tail (length d) b = Inr c \<longrightarrow> packet_ok (write_at (pb_end b) d c)
            \<and> as_slice (write_at (pb_end b) d c) = as_slice b @ d)
    \<and> (trim_front n b = (if n \<le> length (as_slice b) then Inr (b\<lparr>pb_start := pb_start b + n\<rparr>) else Inl TrimExceedsLength))
    \<and> (trim_front n b = Inr c \<longrightarrow> packet_ok c \<and> as_slice c = drop n (as_slice b))
    \<and> (truncate_buf n b = Inr c \<longrightarrow> packet_ok c \<and> as_slice c = take n (as_slice b))"
proof (intro conjI impI)
  assume p: "prepend (length d) b = Inr c"
  note ok = packet_ok_ops(2) [OF assms p]
  have st: "pb_start c + length d \<le> pb_end c" "pb_end c \<le> PACKET_CAPACITY"
    using p assms by (auto simp: prepend_def packet_ok_def split: if_splits)
  show w: "packet_ok (write_at (pb_start c) d c)" using packet_ok_ops(7) [OF ok] st by simp
  show s: "as_slice (write_at (pb_start c) d c) = d @ as_slice b" by (rule prepend_write [OF assms p])
  obtain t where t: "trim_front (length d) (write_at (pb_start c) d c) = Inr t"
    using length_as_slice [OF w] s by (simp add: trim_front_def)
  thus "\<exists>t. trim_front (length d) (write_at (pb_start c) d c) = Inr t \<and> as_slice t = as_slice b"
    using trim_slice [OF t] s by simp
next
  assume e: "extend_tail (length d) b = Inr c"
  note ok = packet_ok_ops(3) [OF assms e]
  have "pb_end b + length d \<le> PACKET_CAPACITY" using e by (auto simp: extend_tail_def split: if_splits option.splits)
  thus "packet_ok (write_at (pb_end b) d c)" using packet_ok_ops(7) [OF ok] by simp
  show "as_slice (write_at (pb_end b) d c) = as_slice b @ d" by (rule extend_write [OF assms e])
qed (use assms in \<open>auto simp: length_as_slice trim_front_def trim_slice truncate_slice
        intro: packet_ok_ops split: if_splits\<close>)

lemma packet_views_witness:
  "let b = (buf_of (replicate 2304 0))\<lparr>pb_end := 67\<rparr>
   in \<exists>c. prepend 2 b = Inr c \<and> as_slice (write_at (pb_start c) [7, 8] c) = [7, 8, 0, 0, 0]"
proof -
  let ?b = "(buf_of (replicate 2304 0))\<lparr>pb_end := 67\<rparr>"
  have ok: "packet_ok ?b"
    by (simp add: packet_ok_def buf_of_def PACKET_HEADROOM_def PACKET_CAPACITY_def)
  obtain c where c: "prepend (length [7, 8 :: byte]) ?b = Inr c"
    by (simp add: prepend_def buf_of_def PACKET_HEADROOM_def)
  have "as_slice ?b = [0, 0, 0]"
    by (simp add: as_slice_def subslice_def buf_of_def PACKET_HEADROOM_def numeral_eq_Suc)
  thus ?thesis using packet_views [OF ok, of "[7, 8]" c 0] c by (simp add: numeral_2_eq_2)
qed

end
