(* ===== verification/TurnStream.thy ===== *)
theory TurnStream
  imports Packet StunCodec
begin

text \<open>
  \<open>turn_stream.rs\<close>: TURN over TCP or TLS. The reader cuts the byte stream into STUN messages and
  ChannelData frames, however the socket delivers it; the writer drains a control queue and a
  data queue with priority to control. Sockets, TLS and the tokio channels are library code: a
  read is an element of a list the model consumes, a channel is a list with a closed flag.
\<close>

section \<open>Frames\<close>

definition MAX_CONTROL_FRAME_BYTES :: nat where "MAX_CONTROL_FRAME_BYTES = 4096"
definition MAX_DATA_FRAME_BYTES :: nat where "MAX_DATA_FRAME_BYTES = PACKET_CAPACITY - PACKET_HEADROOM"
definition STREAM_READ_BUFFER_BYTES :: nat where "STREAM_READ_BUFFER_BYTES = MAX_CONTROL_FRAME_BYTES"
definition COOKIE_BYTES :: bytes where "COOKIE_BYTES = [0x21, 0x12, 0xa4, 0x42]"

datatype stream_frame = FControl bytes | FData packet_buf | FDataDropped

datatype frame_kind = ControlFrame nat | ChannelDataFrame nat nat

datatype stream_error =
    ControlUnaligned | ControlLengthOverflow | ControlTooLong | CookieInvalid | ReservedType
  | DataLengthOverflow | DataTooLong | PacketFailed packet_error
  | BufferHardLimit | StreamReadFailed | StreamClosed

text \<open>\<open>(4 - n % 4) % 4\<close>: the padding of a ChannelData payload.\<close>

definition data_padding :: "nat \<Rightarrow> nat" where
  "data_padding n = (4 - n mod 4) mod 4"

definition frame_start :: "bytes \<Rightarrow> stream_error + frame_kind option" where
  "frame_start bs =
    (if length bs < 4 then Inr None else
     let declared = unat (u16_of_be [bs ! 2, bs ! 3]) in
     if bs ! 0 AND 0xc0 = 0 then
       (if declared mod 4 \<noteq> 0 then Inl ControlUnaligned
        else case usize_checked_add 20 declared of None \<Rightarrow> Inl ControlLengthOverflow
        | Some frame_bytes \<Rightarrow>
          if MAX_CONTROL_FRAME_BYTES < frame_bytes then Inl ControlTooLong
          else if length bs < 8 then Inr None
          else if subslice bs 4 8 \<noteq> COOKIE_BYTES then Inl CookieInvalid
          else Inr (Some (ControlFrame frame_bytes)))
     else if bs ! 0 AND 0xc0 \<noteq> 0x40 then Inl ReservedType
     else case usize_checked_add 4 declared of None \<Rightarrow> Inl DataLengthOverflow
     | Some frame_bytes \<Rightarrow>
       let padding = data_padding declared in
       if MAX_DATA_FRAME_BYTES < frame_bytes + padding then Inl DataTooLong
       else Inr (Some (ChannelDataFrame frame_bytes padding)))"

definition copy_channel_data :: "(bytes, 'q) queue_ops \<Rightarrow> bytes \<Rightarrow> bytes \<Rightarrow> 'q packet_pool
    \<Rightarrow> (stream_error + stream_frame) \<times> 'q packet_pool" where
  "copy_channel_data ops fresh wire pool =
    (case try_acquire ops fresh pool of None \<Rightarrow> (Inr FDataDropped, pool)
     | Some (packet, pool') \<Rightarrow>
       (case set_read_len (length wire) packet of
          Inl e \<Rightarrow> (Inl (PacketFailed e), release_buf ops packet pool')
        | Inr p \<Rightarrow> (Inr (FData (write_at (pb_start p) wire p)), pool')))"

text \<open>\<open>decode_stream_frame\<close> and \<open>take_frame\<close>: the result, what stays in the buffer, and the pool.\<close>

definition decode_stream_frame :: "(bytes, 'q) queue_ops \<Rightarrow> bytes \<Rightarrow> bytes \<Rightarrow> 'q packet_pool
    \<Rightarrow> (stream_error + stream_frame option) \<times> bytes \<times> 'q packet_pool" where
  "decode_stream_frame ops fresh buf pool =
    (case frame_start buf of
       Inl e \<Rightarrow> (Inl e, buf, pool)
     | Inr None \<Rightarrow> (Inr None, buf, pool)
     | Inr (Some (ControlFrame n)) \<Rightarrow>
         if length buf < n then (Inr None, buf, pool)
         else (Inr (Some (FControl (take n buf))), drop n buf, pool)
     | Inr (Some (ChannelDataFrame n padding)) \<Rightarrow>
         if length buf < n + padding then (Inr None, buf, pool)
         else case copy_channel_data ops fresh (take (n + padding) buf) pool of
            (Inl e, pool') \<Rightarrow> (Inl e, drop (n + padding) buf, pool')
          | (Inr f, pool') \<Rightarrow> (Inr (Some f), drop (n + padding) buf, pool'))"

text \<open>One element per \<open>read_buf\<close>: bytes (an empty read is the end of the stream) or an error.\<close>

datatype stream_read = ReadBytes bytes | ReadError

datatype read_result = ReadFrame stream_frame | ReadFailed stream_error | ReadPending

fun read_frame :: "(bytes, 'q) queue_ops \<Rightarrow> bytes \<Rightarrow> bytes \<Rightarrow> 'q packet_pool \<Rightarrow> stream_read list
    \<Rightarrow> read_result \<times> bytes \<times> 'q packet_pool \<times> stream_read list" where
  "read_frame ops fresh buf pool reads =
    (case decode_stream_frame ops fresh buf pool of
       (Inl e, buf', pool') \<Rightarrow> (ReadFailed e, buf', pool', reads)
     | (Inr (Some f), buf', pool') \<Rightarrow> (ReadFrame f, buf', pool', reads)
     | (Inr None, buf', pool') \<Rightarrow>
         if STREAM_READ_BUFFER_BYTES \<le> length buf' then (ReadFailed BufferHardLimit, buf', pool', reads)
         else case reads of
            [] \<Rightarrow> (ReadPending, buf', pool', [])
          | ReadError # rest \<Rightarrow> (ReadFailed StreamReadFailed, buf', pool', rest)
          | ReadBytes bs # rest \<Rightarrow>
              if bs = [] then (ReadFailed StreamClosed, buf', pool', rest)
              else read_frame ops fresh (buf' @ bs) pool' rest)"

declare read_frame.simps [simp del]

text \<open>The driver's loop reads a frame at a time; one argument per frame for the uninitialised memory.\<close>

fun read_frames :: "(bytes, 'q) queue_ops \<Rightarrow> bytes list \<Rightarrow> bytes \<Rightarrow> 'q packet_pool \<Rightarrow> stream_read list
    \<Rightarrow> read_result list \<times> 'q packet_pool" where
  "read_frames ops [] buf pool reads = ([], pool)"
| "read_frames ops (fresh # fs) buf pool reads =
    (case read_frame ops fresh buf pool reads of (r, buf', pool', reads') \<Rightarrow>
       (case r of ReadFrame f \<Rightarrow> (case read_frames ops fs buf' pool' reads' of (rs, q) \<Rightarrow> (r # rs, q))
        | _ \<Rightarrow> ([r], pool')))"

section \<open>The writer\<close>

record writer_queues =
  wq_control :: "bytes list"
  wq_control_closed :: bool
  wq_data :: "bytes list"
  wq_data_closed :: bool

definition CONTROL_QUEUE_CAPACITY :: nat where "CONTROL_QUEUE_CAPACITY = 16"
definition DATA_QUEUE_CAPACITY :: nat where "DATA_QUEUE_CAPACITY = 32"

text \<open>\<open>write_control\<close> and \<open>write_data\<close>: an error once the writer task is gone, a wait (\<open>Inr None\<close>) while
  the queue is full.\<close>

definition write_control :: "bool \<Rightarrow> bytes \<Rightarrow> writer_queues \<Rightarrow> unit + writer_queues option" where
  "write_control gone wire q = (if gone then Inl ()
     else if CONTROL_QUEUE_CAPACITY \<le> length (wq_control q) then Inr None
     else Inr (Some (q\<lparr>wq_control := wq_control q @ [wire]\<rparr>)))"

definition write_data :: "bool \<Rightarrow> bytes \<Rightarrow> writer_queues \<Rightarrow> unit + writer_queues option" where
  "write_data gone wire q = (if gone then Inl ()
     else if DATA_QUEUE_CAPACITY \<le> length (wq_data q) then Inr None
     else Inr (Some (q\<lparr>wq_data := wq_data q @ [wire]\<rparr>)))"

text \<open>The choice of the next message in \<open>writer_loop\<close>: a message, a wait, or the end. \<open>is_closed\<close> is the sender's
  side: messages still queued are received first.\<close>

datatype writer_choice = WriterSend bytes writer_queues | WriterWait | WriterEnd

definition writer_next :: "writer_queues \<Rightarrow> writer_choice" where
  "writer_next q =
    (case wq_control q of c # cs \<Rightarrow> WriterSend c (q\<lparr>wq_control := cs\<rparr>)
     | [] \<Rightarrow>
       if wq_control_closed q then
         (case wq_data q of d # ds \<Rightarrow> WriterSend d (q\<lparr>wq_data := ds\<rparr>)
          | [] \<Rightarrow> if wq_data_closed q then WriterEnd else WriterWait)
       else if wq_data_closed q then WriterWait
       else (case wq_data q of d # ds \<Rightarrow> WriterSend d (q\<lparr>wq_data := ds\<rparr>) | [] \<Rightarrow> WriterWait))"

text \<open>At most \<open>n\<close> rounds; \<open>ok k\<close> tells whether the \<open>k\<close>-th write succeeds. The last component is the
  published write failure.\<close>

fun writer_run :: "(nat \<Rightarrow> bool) \<Rightarrow> nat \<Rightarrow> bytes list \<Rightarrow> writer_queues \<Rightarrow> bytes list \<times> writer_queues \<times> bool" where
  "writer_run ok 0 written q = (written, q, False)"
| "writer_run ok (Suc n) written q = (case writer_next q of
     WriterSend w q' \<Rightarrow> if ok (length written) then writer_run ok n (written @ [w]) q' else (written, q', True)
   | _ \<Rightarrow> (written, q, False))"

section \<open>Lemmas\<close>

lemma frame_start_cong:
  assumes "4 \<le> length bs" "4 \<le> length cs" "bs ! 0 = cs ! 0" "bs ! 2 = cs ! 2" "bs ! 3 = cs ! 3"
    "length bs < 8 \<longleftrightarrow> length cs < 8" "subslice bs 4 8 = subslice cs 4 8"
  shows "frame_start bs = frame_start cs"
  using assms unfolding frame_start_def by (simp only: not_less [symmetric] if_False)

lemma frame_start_prefix:
  assumes "frame_start bs = r" "r \<noteq> Inr None"
  shows "frame_start (bs @ xs) = r"
proof -
  have 4: "4 \<le> length bs"
  proof (rule ccontr)
    assume "\<not> 4 \<le> length bs"
    hence "frame_start bs = Inr None" by (simp add: frame_start_def)
    thus False using assms by simp
  qed
  show ?thesis
  proof (cases "length bs < 8")
    case False
    have "frame_start (bs @ xs) = frame_start bs"
      by (rule frame_start_cong) (use 4 False in \<open>auto simp: nth_append subslice_append_left\<close>)
    thus ?thesis using assms by simp
  next
    case True
    have n: "(bs @ xs) ! 0 = bs ! 0" "(bs @ xs) ! 2 = bs ! 2" "(bs @ xs) ! 3 = bs ! 3"
      using 4 by (auto simp: nth_append)
    have l: "\<not> length bs < 4" "\<not> length (bs @ xs) < 4" using 4 by auto
    have ne: "frame_start bs \<noteq> Inr None" using assms by simp
    have "frame_start (bs @ xs) = frame_start bs"
      using ne True unfolding frame_start_def n Let_def if_not_P [OF l(1)] if_not_P [OF l(2)]
      by (cases "bs ! 0 AND 0xc0 = 0"; cases "unat (u16_of_be [bs ! 2, bs ! 3]) mod 4 \<noteq> 0";
          cases "usize_checked_add 20 (unat (u16_of_be [bs ! 2, bs ! 3]))") (simp_all del: usize_checked_add_Some split: if_splits)
    thus ?thesis using assms by simp
  qed
qed

lemma frame_start_control: "frame_start bs = Inr (Some (ControlFrame n)) \<Longrightarrow> 20 \<le> n \<and> n \<le> 4096"
  by (auto simp: frame_start_def Let_def MAX_CONTROL_FRAME_BYTES_def split: if_splits option.splits)

lemma frame_start_data: "frame_start bs = Inr (Some (ChannelDataFrame n k)) \<Longrightarrow> 4 \<le> n \<and> n + k \<le> 2240"
  by (auto simp: frame_start_def Let_def MAX_DATA_FRAME_BYTES_def PACKET_CAPACITY_def PACKET_HEADROOM_def
      split: if_splits option.splits)

lemma frame_start_None: "frame_start bs = Inr None \<Longrightarrow> length bs < 8"
  by (auto simp: frame_start_def Let_def split: if_splits option.splits)

text \<open>An incomplete frame is shorter than the limit, so the hard limit never fires.\<close>

lemma decode_stream_frame_incomplete:
  assumes "decode_stream_frame ops fresh buf pool = (Inr None, buf', pool')"
  shows "buf' = buf" "pool' = pool" "length buf < STREAM_READ_BUFFER_BYTES"
  using assms frame_start_control [of buf] frame_start_data [of buf] frame_start_None [of buf]
  by (auto simp: decode_stream_frame_def STREAM_READ_BUFFER_BYTES_def MAX_CONTROL_FRAME_BYTES_def
      split: sum.splits option.splits frame_kind.splits if_splits prod.splits)

lemma decode_stream_frame_prefix:
  assumes "decode_stream_frame ops fresh buf pool = (r, buf', pool')" "r \<noteq> Inr None"
  shows "decode_stream_frame ops fresh (buf @ xs) pool = (r, buf' @ xs, pool')"
proof (cases "frame_start buf")
  case (Inl e)
  thus ?thesis using assms frame_start_prefix [OF Inl] by (auto simp: decode_stream_frame_def)
next
  case (Inr k)
  show ?thesis
  proof (cases k)
    case None thus ?thesis using assms Inr by (simp add: decode_stream_frame_def)
  next
    case (Some kind)
    have "frame_start (buf @ xs) = Inr (Some kind)" using frame_start_prefix [of buf "Inr k"] Inr Some by simp
    thus ?thesis using assms Inr Some
      by (auto simp: decode_stream_frame_def split: frame_kind.splits if_splits prod.splits sum.splits)
  qed
qed

definition result_of :: "stream_error + stream_frame option \<Rightarrow> read_result" where
  "result_of d = (case d of Inl e \<Rightarrow> ReadFailed e | Inr None \<Rightarrow> ReadPending | Inr (Some f) \<Rightarrow> ReadFrame f)"

definition chunks :: "bytes list \<Rightarrow> stream_read list" where
  "chunks cs = map ReadBytes cs"

lemma read_frame_chunks:
  assumes "[] \<notin> set cs" "decode_stream_frame ops fresh (buf @ concat cs) pool = (d, left, q)"
  shows "\<exists>buf' ds. read_frame ops fresh buf pool (chunks cs) = (result_of d, buf', q, chunks ds)
    \<and> buf' @ concat ds = left \<and> [] \<notin> set ds"
  using assms
proof (induction cs arbitrary: buf)
  case Nil
  have n: "length left < STREAM_READ_BUFFER_BYTES" if "d = Inr None"
    using decode_stream_frame_incomplete [of ops fresh buf pool left q] Nil(2) that by simp
  show ?case
    by (rule exI [of _ left], rule exI [of _ "[]"])
       (use Nil(2) n in \<open>auto simp: read_frame.simps chunks_def result_of_def split: sum.splits option.splits\<close>)
next
  case (Cons c cs)
  obtain d1 b1 q1 where d1: "decode_stream_frame ops fresh buf pool = (d1, b1, q1)" by (metis prod_cases3)
  show ?case
  proof (cases "d1 = Inr None")
    case True
    note inc = decode_stream_frame_incomplete [OF d1 [unfolded True]]
    have "read_frame ops fresh buf pool (chunks (c # cs)) = read_frame ops fresh (buf @ c) pool (chunks cs)"
      using Cons.prems(1) inc d1 True by (subst read_frame.simps) (auto simp: chunks_def)
    thus ?thesis using Cons.IH [of "buf @ c"] Cons.prems by simp
  next
    case False
    have "d = d1" "left = b1 @ concat (c # cs)" "q = q1"
      using decode_stream_frame_prefix [OF d1 False, of "concat (c # cs)"] Cons.prems(2) by auto
    moreover have "read_frame ops fresh buf pool (chunks (c # cs)) = (result_of d1, b1, q1, chunks (c # cs))"
      using d1 False by (subst read_frame.simps) (auto simp: result_of_def split: sum.splits option.splits)
    ultimately show ?thesis using Cons.prems(1) by blast
  qed
qed

lemma read_frames_bytes:
  assumes "[] \<notin> set cs" "[] \<notin> set ds" "buf @ concat cs = buf' @ concat ds"
  shows "read_frames ops fs buf pool (chunks cs) = read_frames ops fs buf' pool (chunks ds)"
  using assms
proof (induction fs arbitrary: buf buf' pool cs ds)
  case (Cons f fs)
  obtain d left q where d: "decode_stream_frame ops f (buf @ concat cs) pool = (d, left, q)" by (metis prod_cases3)
  obtain b1 c1 where 1: "read_frame ops f buf pool (chunks cs) = (result_of d, b1, q, chunks c1)"
    "b1 @ concat c1 = left" "[] \<notin> set c1"
    using read_frame_chunks [OF Cons.prems(1) d] by blast
  obtain b2 c2 where 2: "read_frame ops f buf' pool (chunks ds) = (result_of d, b2, q, chunks c2)"
    "b2 @ concat c2 = left" "[] \<notin> set c2"
    using read_frame_chunks [of ds ops f buf' pool d left q] Cons.prems d by auto
  show ?case using Cons.IH [OF 1(3) 2(3), of b1 b2 q] 1 2 by (simp split: read_result.splits)
qed simp

text \<open>While the stream is open and writes succeed, the writer sends what is queued: all control
  messages first, each class in order.\<close>

lemma writer_order:
  assumes "\<forall>k. ok k" "\<not> wq_control_closed q" "\<not> wq_data_closed q"
  shows "fst (writer_run ok n written q) = written @ take n (wq_control q @ wq_data q)"
  using assms
proof (induction n arbitrary: written q)
  case (Suc n)
  show ?case
  proof (cases "wq_control q")
    case (Cons c cs)
    thus ?thesis using Suc by (simp add: writer_next_def)
  next
    case Nil
    thus ?thesis using Suc by (cases "wq_data q") (simp_all add: writer_next_def)
  qed
qed simp



section \<open>Properties\<close>

text \<open>The frames a TURN stream yields do not depend on how the socket cuts the byte stream: any
  two deliveries of the same bytes in nonempty reads give the same sequence of control messages,
  data packets, drops and errors and leave the packet pool in the same state.\<close>

theorem chunking_independent:
  assumes "[] \<notin> set cs" "[] \<notin> set ds" "concat cs = concat ds"
  shows "read_frames ops fs [] pool (chunks cs) = read_frames ops fs [] pool (chunks ds)"
  by (rule read_frames_bytes [OF assms(1,2)]) (simp add: assms(3))

lemma chunking_independent_witness:
  "concat [take 5 sample_stun, drop 5 sample_stun] = sample_stun
   \<and> read_frames list_queue_ops [[]] [] (new_pool list_queue_ops 1) (chunks [take 5 sample_stun, drop 5 sample_stun])
     = read_frames list_queue_ops [[]] [] (new_pool list_queue_ops 1) (chunks [sample_stun])"
proof -
  have a: "[] \<notin> set [take 5 sample_stun, drop 5 sample_stun]" "[] \<notin> set [sample_stun]"
    by (simp_all add: sample_stun_def)
  show ?thesis by (intro conjI chunking_independent [OF a]) simp_all
qed

end
