(* ===== verification/ChannelData.thy ===== *)
theory ChannelData
  imports TurnStream
begin

text \<open>
  The data plane codec of \<open>turn.rs\<close>: wrapping a packet into a TURN ChannelData message in place,
  recognising one on the way in, and the split between data and STUN. Together with the stream
  reader it gives the recovery of a sequence of messages from a byte stream.
\<close>

section \<open>Operations\<close>

datatype channel_error = ChannelInvalid | PayloadTooLarge | ExceedsPacketBuffer | BufferFailed packet_error

definition valid_channel :: "u16 \<Rightarrow> bool" where
  "valid_channel ch \<longleftrightarrow> 0x4000 \<le> ch \<and> ch \<le> 0x7fff"

definition channel_data_padding :: "packet_buf \<Rightarrow> u16 \<Rightarrow> channel_error + nat" where
  "channel_data_padding b ch =
    (if \<not> valid_channel ch then Inl ChannelInvalid
     else if 65535 < buf_len b then Inl PayloadTooLarge
     else let padding = data_padding (buf_len b) in
     if pb_start b < 4 \<or> (case usize_checked_add (pb_end b) padding of None \<Rightarrow> True | Some e \<Rightarrow> PACKET_CAPACITY < e)
     then Inl ExceedsPacketBuffer else Inr padding)"

definition channel_header :: "u16 \<Rightarrow> nat \<Rightarrow> bytes" where
  "channel_header ch len = u16_to_be ch @ u16_to_be (word_of_nat len)"

definition encode_channel_data :: "u16 \<Rightarrow> packet_buf \<Rightarrow> channel_error + packet_buf" where
  "encode_channel_data ch b = (case channel_data_padding b ch of Inl e \<Rightarrow> Inl e | Inr padding \<Rightarrow>
     (case extend_tail padding b of Inl e \<Rightarrow> Inl (BufferFailed e) | Inr b1 \<Rightarrow>
       (let b2 = write_at (pb_end b) (replicate padding 0) b1
        in case prepend 4 b2 of Inl e \<Rightarrow> Inl (BufferFailed e)
           | Inr b3 \<Rightarrow> Inr (write_at (pb_start b3) (channel_header ch (buf_len b)) b3))))"

definition channel_data_header :: "bytes \<Rightarrow> (u16 \<times> nat) option" where
  "channel_data_header wire =
    (if length wire < 4 \<or> wire ! 0 AND 0xc0 \<noteq> 0x40 then None else
     let channel = u16_of_be [wire ! 0, wire ! 1] in
     if \<not> valid_channel channel then None else
     let payload_length = unat (u16_of_be [wire ! 2, wire ! 3]) in
     if length wire - 4 < payload_length then None
     else if 3 < length wire - 4 - payload_length then None
     else Some (channel, payload_length))"

definition is_stun :: "bytes \<Rightarrow> bool" where
  "is_stun wire \<longleftrightarrow> 20 \<le> length wire \<and> wire ! 0 AND 0xc0 = 0 \<and> subslice wire 4 8 = COOKIE_BYTES"

section \<open>The encoded message\<close>

lemma valid_channel_nat: "valid_channel ch \<longleftrightarrow> 0x4000 \<le> unat ch \<and> unat ch \<le> 0x7fff"
  by (simp add: valid_channel_def word_le_nat_alt)

lemma leading_two: "(b :: byte) AND 0xc0 = word_of_nat (unat b div 64 * 64)"
proof -
  have m: "(0xc0 :: byte) = NOT (mask 6)" by (simp add: mask_numeral)
  have "b AND 0xc0 = push_bit 6 (drop_bit 6 b)" unfolding m by (simp add: bit_eq_iff bit_simps) auto
  also have "\<dots> = word_of_nat (unat (push_bit 6 (drop_bit 6 b)))" by simp
  also have "unat (push_bit 6 (drop_bit 6 b)) = unat b div 64 * 64"
  proof -
    have "unat (push_bit 6 (drop_bit 6 b)) = take_bit 8 (push_bit 6 (drop_bit 6 (unat b)))"
      by (simp only: unsigned_push_bit_eq unat_drop_bit_eq) simp
    also have "\<dots> = unat b div 64 * 64"
      using unat_byte_bound [of b] by (simp add: take_bit_eq_mod push_bit_eq_mult drop_bit_eq_div)
    finally show ?thesis .
  qed
  finally show ?thesis .
qed
lemma leading_byte_bits: "(b :: byte) AND 0xc0 = 0 \<longleftrightarrow> unat b < 64"
proof -
  have "unat (word_of_nat (unat b div 64 * 64) :: byte) = unat b div 64 * 64"
    using unat_byte_bound [of b] by (intro unat_byte_of_nat) (rule order.strict_trans1 [OF div_times_less_eq_dividend])
  hence "(word_of_nat (unat b div 64 * 64) :: byte) = 0 \<longleftrightarrow> unat b div 64 * 64 = 0"
    by (simp only: unat_eq_zero [symmetric])
  also have "\<dots> \<longleftrightarrow> unat b < 64" by (simp add: div_eq_0_iff)
  finally show ?thesis unfolding leading_two .
qed
lemma channel_first_byte:
  assumes "valid_channel ch"
  shows "(word_of_nat (unat ch div 256) :: byte) AND 0xc0 = 0x40"
proof -
  define n where "n = unat ch div 256"
  have n: "64 \<le> n" "n < 128" using assms by (auto simp: n_def valid_channel_nat)
  have "n div 64 = 1" using n by simp
  thus ?thesis unfolding leading_two n_def [symmetric] using n by (simp add: unat_byte_of_nat)
qed

definition channel_message :: "u16 \<Rightarrow> bytes \<Rightarrow> bytes" where
  "channel_message ch payload = channel_header ch (length payload) @ payload
     @ replicate (data_padding (length payload)) 0"

lemma padded_length: "n + data_padding n = pad4 n"
proof -
  define q where "q = n div 4"
  define r where "r = n mod 4"
  have n: "n = r + 4 * q" "r < 4" by (simp_all add: q_def r_def)
  have p: "pad4 n = 4 * (q + (r + 3) div 4)"
  proof -
    have "n + 3 = (r + 3) + 4 * q" using n by simp
    hence "(n + 3) div 4 = q + (r + 3) div 4" by simp
    thus ?thesis by (simp add: pad4_def)
  qed
  have d: "data_padding n = (4 - r) mod 4" by (simp add: data_padding_def r_def)
  have "r = 0 \<or> r = 1 \<or> r = 2 \<or> r = 3" using n by arith
  thus ?thesis unfolding p d using n by (elim disjE) simp_all
qed

lemma length_channel_message: "length (channel_message ch d) = 4 + pad4 (length d)"
  using padded_length [of "length d"] by (simp add: channel_message_def channel_header_def)

lemma padding_Inr:
  assumes "channel_data_padding b ch = Inr k"
  shows "valid_channel ch" "buf_len b \<le> 65535" "k = data_padding (buf_len b)"
proof -
  show v: "valid_channel ch" using assms unfolding channel_data_padding_def by (cases "valid_channel ch") simp_all
  have nb: "\<not> 65535 < buf_len b"
  proof
    assume "65535 < buf_len b"
    thus False using assms v unfolding channel_data_padding_def by simp
  qed
  thus "buf_len b \<le> 65535" by simp
  show "k = data_padding (buf_len b)"
    using assms v nb unfolding channel_data_padding_def Let_def
    by (simp only: not_True_eq_False if_False sum.inject sum.distinct split: if_splits)
qed

lemma encode_steps:
  assumes "encode_channel_data ch b = Inr c"
  obtains k b1 b3 where "channel_data_padding b ch = Inr k"
    "extend_tail (length (replicate k (0 :: byte))) b = Inr b1"
    "prepend (length (channel_header ch (buf_len b))) (write_at (pb_end b) (replicate k 0) b1) = Inr b3"
    "c = write_at (pb_start b3) (channel_header ch (buf_len b)) b3"
proof -
  have "length (channel_header ch (buf_len b)) = 4" by (simp add: channel_header_def)
  thus ?thesis using assms that unfolding encode_channel_data_def Let_def
    by (simp split: sum.splits)
qed

lemma encode_bytes:
  assumes "packet_ok b" "encode_channel_data ch b = Inr c"
  shows "as_slice c = channel_message ch (as_slice b)" "packet_ok c" "valid_channel ch" "length (as_slice b) < 65536"
proof -
  obtain k b1 b3 where e: "channel_data_padding b ch = Inr k"
    "extend_tail (length (replicate k (0 :: byte))) b = Inr b1"
    "prepend (length (channel_header ch (buf_len b))) (write_at (pb_end b) (replicate k 0) b1) = Inr b3"
    "c = write_at (pb_start b3) (channel_header ch (buf_len b)) b3"
    by (rule encode_steps [OF assms(2)])
  note k = padding_Inr [OF e(1)] and len = length_as_slice [OF assms(1)]
  show "valid_channel ch" "length (as_slice b) < 65536" using k len by simp_all
  let ?b2 = "write_at (pb_end b) (replicate k 0) b1"
  have cap: "pb_end b + k \<le> PACKET_CAPACITY"
    using e(2) by (simp add: extend_tail_def split: option.splits if_splits)
  have ok2: "packet_ok ?b2" using packet_ok_ops(7) [OF packet_ok_ops(3) [OF assms(1) e(2)]] cap by simp
  have v2: "as_slice ?b2 = as_slice b @ replicate k 0" by (rule extend_write [OF assms(1) e(2)])
  have "pb_start b3 + 4 \<le> PACKET_CAPACITY"
    using e(3) ok2 by (auto simp: prepend_def packet_ok_def channel_header_def split: if_splits)
  thus "packet_ok c" using packet_ok_ops(7) [OF packet_ok_ops(2) [OF ok2 e(3)]] e(4) by (simp add: channel_header_def)
  have "as_slice c = channel_header ch (buf_len b) @ as_slice ?b2" using prepend_write [OF ok2 e(3)] e(4) by simp
  thus "as_slice c = channel_message ch (as_slice b)" using k len v2 by (simp only: channel_message_def)
qed

lemma message_header_bytes:
  assumes "length d < 65536"
  shows "channel_message ch d ! 0 = word_of_nat (unat ch div 256)"
    "u16_of_be [channel_message ch d ! 0, channel_message ch d ! 1] = ch"
    "unat (u16_of_be [channel_message ch d ! 2, channel_message ch d ! 3]) = length d"
proof -
  let ?w = "word_of_nat (length d) :: u16"
  have l: "unat ?w = length d" using assms by (simp add: unat_of_nat)
  show "channel_message ch d ! 0 = word_of_nat (unat ch div 256)"
    "u16_of_be [channel_message ch d ! 0, channel_message ch d ! 1] = ch"
    using u16_of_to_be [of ch] by (simp_all add: channel_message_def channel_header_def u16_to_be_eq)
  have "u16_of_be [channel_message ch d ! 2, channel_message ch d ! 3] = ?w"
    using u16_of_to_be [of ?w] by (simp add: channel_message_def channel_header_def u16_to_be_eq)
  thus "unat (u16_of_be [channel_message ch d ! 2, channel_message ch d ! 3]) = length d" using l by simp
qed

lemma header_of_message:
  assumes "valid_channel ch" "length d < 65536"
  shows "channel_data_header (channel_message ch d) = Some (ch, length d)"
  using message_header_bytes [OF assms(2), of ch] channel_first_byte [OF assms(1)] pad4_props [of "length d"] assms
  by (simp add: channel_data_header_def length_channel_message Let_def)

lemma start_of_message:
  assumes "valid_channel ch" "4 + pad4 (length d) \<le> MAX_DATA_FRAME_BYTES"
  shows "frame_start (channel_message ch d)
    = Inr (Some (ChannelDataFrame (4 + length d) (data_padding (length d))))"
proof -
  have small: "length d \<le> 2236"
    using assms(2) pad4_props [of "length d"] by (simp add: MAX_DATA_FRAME_BYTES_def PACKET_CAPACITY_def PACKET_HEADROOM_def)
  have c: "usize_checked_add 4 (length d) = Some (4 + length d)" using small by (simp add: usize_max_def)
  have len: "\<not> length (channel_message ch d) < 4" by (simp add: length_channel_message)
  have b: "channel_message ch d ! 0 AND 0xc0 = 0x40"
    "unat (u16_of_be [channel_message ch d ! 2, channel_message ch d ! 3]) = length d"
    using small message_header_bytes [of d ch] channel_first_byte [OF assms(1)] by simp_all
  have f: "\<not> MAX_DATA_FRAME_BYTES < 4 + length d + data_padding (length d)"
    using assms(2) padded_length [of "length d"] by (simp only: add.assoc not_less)
  have ne: "(0x40 :: byte) \<noteq> 0" by simp
  show ?thesis
    unfolding frame_start_def Let_def if_not_P [OF len] b c option.case if_not_P [OF f]
    by (simp only: ne if_False refl not_True_eq_False)
qed

text \<open>A datagram is never both: data and STUN differ in the two leading bits.\<close>

lemma data_not_stun: "channel_data_header wire \<noteq> None \<Longrightarrow> \<not> is_stun wire"
  by (auto simp: channel_data_header_def is_stun_def split: if_splits)

lemma leading_word_bits:
  assumes "(w :: u16) AND 0xc000 = 0"
  shows "unat w < 16384"
proof -
  have d: "unat (drop_bit 14 w) = unat w div 16384"
    by (simp add: unat_drop_bit_eq flip: drop_bit_eq_div) (simp add: drop_bit_eq_div)
  have "drop_bit 14 w AND 3 = drop_bit 14 (w AND 0xc000)" by (simp add: drop_bit_and)
  hence "take_bit 2 (drop_bit 14 w) = 0" using assms by (simp add: take_bit_eq_mask mask_numeral)
  hence "unat (take_bit 2 (drop_bit 14 w)) = 0" by (simp only: unsigned_0)
  hence "take_bit 2 (unat (drop_bit 14 w)) = 0" by (simp only: unsigned_take_bit_eq)
  hence "unat w div 16384 mod 4 = 0" using d by (simp add: take_bit_eq_mod)
  hence z: "unat w div 16384 mod 4 = 0" .
  have e: "n < 65536 \<Longrightarrow> n div 16384 mod 4 = 0 \<Longrightarrow> n < (16384 :: nat)" for n by simp
  show ?thesis by (rule e [OF unat16_bound z])
qed

lemma stun_decode_is_stun: "stun_decode raw = Inr m \<Longrightarrow> is_stun raw"
proof -
  assume d: "stun_decode raw = Inr m"
  have cookie: "u32_to_be MAGIC_COOKIE = COOKIE_BYTES" by code_simp
  have c: "subslice raw 4 8 = COOKIE_BYTES" "20 \<le> length raw" "be16_at raw 0 AND 0xc000 = 0"
    using d cookie by (auto simp: stun_decode_def Let_def HEADER_SIZE_def split: if_splits)
  have "unat (be16_at raw 0) = unat (raw ! 0) * 256 + unat (raw ! 1)"
    by (simp add: be16_at_def unat_u16_of_be be_nat_def)
  hence "unat (raw ! 0) < 64" using leading_word_bits [OF c(3)] by simp
  thus ?thesis using c by (simp add: is_stun_def leading_byte_bits)
qed

lemma start_of_stun:
  assumes "stun_decode raw = Inr m" "length raw \<le> MAX_CONTROL_FRAME_BYTES"
  shows "frame_start raw = Inr (Some (ControlFrame (length raw)))"
proof -
  note st = stun_decode_is_stun [OF assms(1)]
  have d: "length raw = 20 + unat (u16_of_be [raw ! 2, raw ! 3])" "unat (u16_of_be [raw ! 2, raw ! 3]) mod 4 = 0"
  proof -
    have "length raw = HEADER_SIZE + unat (be16_at raw 2) \<and> unat (be16_at raw 2) mod 4 = 0"
      using assms(1) by (auto simp: stun_decode_def Let_def split: if_splits)
    thus "length raw = 20 + unat (u16_of_be [raw ! 2, raw ! 3])" "unat (u16_of_be [raw ! 2, raw ! 3]) mod 4 = 0"
      by (simp_all add: be16_at_def HEADER_SIZE_def)
  qed
  have c: "usize_checked_add 20 (unat (u16_of_be [raw ! 2, raw ! 3])) = Some (length raw)"
    using assms(2) d(1) by (simp add: usize_max_def MAX_CONTROL_FRAME_BYTES_def)
  show ?thesis using st assms(2) d(2) unfolding frame_start_def Let_def c by (simp add: is_stun_def)
qed

section \<open>A sequence of messages over a stream\<close>

text \<open>What the two sides put on a TURN stream: STUN messages and ChannelData messages.\<close>

definition stream_wire :: "bytes \<Rightarrow> bool" where
  "stream_wire w \<longleftrightarrow> is_ok (stun_decode w) \<and> length w \<le> MAX_CONTROL_FRAME_BYTES
     \<or> (\<exists>ch d. valid_channel ch \<and> w = channel_message ch d \<and> 4 + pad4 (length d) \<le> MAX_DATA_FRAME_BYTES)"

text \<open>A result of the reader that stands for the message \<open>w\<close>: data may be dropped for want of a buffer.\<close>

definition delivers :: "bytes \<Rightarrow> read_result \<Rightarrow> bool" where
  "delivers w r = (case r of
     ReadFrame (FControl b) \<Rightarrow> b = w \<and> is_stun w
   | ReadFrame (FData p) \<Rightarrow> as_slice p = w \<and> channel_data_header w \<noteq> None
   | ReadFrame FDataDropped \<Rightarrow> channel_data_header w \<noteq> None
   | _ \<Rightarrow> False)"

lemma decode_control:
  assumes "stun_decode w = Inr m" "length w \<le> MAX_CONTROL_FRAME_BYTES"
  shows "decode_stream_frame ops fresh (w @ xs) pool = (Inr (Some (FControl w)), xs, pool)"
  using frame_start_prefix [OF start_of_stun [OF assms], of xs] by (simp add: decode_stream_frame_def)

lemma decode_data:
  assumes "valid_channel ch" "w = channel_message ch d" "4 + pad4 (length d) \<le> MAX_DATA_FRAME_BYTES"
    "copy_channel_data ops fresh w pool = (Inr f, pool')"
  shows "decode_stream_frame ops fresh (w @ xs) pool = (Inr (Some f), xs, pool')"
proof -
  have l: "4 + length d + data_padding (length d) = length w"
    using assms(2) padded_length [of "length d"] by (simp add: length_channel_message)
  have "frame_start (w @ xs) = Inr (Some (ChannelDataFrame (4 + length d) (data_padding (length d))))"
    using frame_start_prefix [OF start_of_message [OF assms(1,3)]] assms(2) by simp
  thus ?thesis using assms(4) by (simp add: decode_stream_frame_def l)
qed

context pool_queue
begin

definition storage_ok :: "'q packet_pool \<Rightarrow> bool" where
  "storage_ok p \<longleftrightarrow> (\<forall>st\<in>set (items (pl_queue p)). length st = PACKET_CAPACITY)"

lemma acquire_storage:
  assumes "storage_ok p" "length fresh = PACKET_CAPACITY" "try_acquire ops fresh p = Some (b, p')"
  shows "storage_ok p'" "packet_ok b"
  using assms by (auto simp: storage_ok_def try_acquire_def packet_ok_acquired dest!: pop_Some
      split: option.splits if_splits)

lemma copy_delivers:
  assumes "storage_ok pool" "length fresh = PACKET_CAPACITY" "length w \<le> MAX_DATA_FRAME_BYTES"
    "channel_data_header w \<noteq> None"
  shows "\<exists>f pool'. copy_channel_data ops fresh w pool = (Inr f, pool') \<and> storage_ok pool' \<and> delivers w (ReadFrame f)"
proof (cases "try_acquire ops fresh pool")
  case None
  thus ?thesis using assms by (simp add: copy_channel_data_def delivers_def)
next
  case (Some x)
  obtain b p1 where a: "try_acquire ops fresh pool = Some (b, p1)" using Some by (cases x) auto
  note ok = acquire_storage [OF assms(1,2) a]
  obtain p where p: "set_read_len (length w) b = Inr p" "pb_start p = PACKET_HEADROOM"
    "pb_end p = PACKET_HEADROOM + length w" "pb_storage p = pb_storage b"
    using assms(3) that [of "b\<lparr>pb_start := PACKET_HEADROOM, pb_end := PACKET_HEADROOM + length w\<rparr>"]
    by (simp add: set_read_len_def MAX_DATA_FRAME_BYTES_def)
  have "PACKET_HEADROOM + length w \<le> length (pb_storage p)"
    using ok(2) p(4) assms(3) by (simp add: packet_ok_def MAX_DATA_FRAME_BYTES_def PACKET_CAPACITY_def PACKET_HEADROOM_def)
  hence "as_slice (write_at (pb_start p) w p) = w"
    using p by (simp add: as_slice_def write_at_def subslice_write)
  thus ?thesis using a p(1) ok(1) assms(4) by (simp add: copy_channel_data_def delivers_def)
qed

lemma decode_delivers:
  assumes "storage_ok pool" "length fresh = PACKET_CAPACITY" "stream_wire w"
  shows "\<exists>f pool'. decode_stream_frame ops fresh (w @ xs) pool = (Inr (Some f), xs, pool') \<and> storage_ok pool'
    \<and> delivers w (ReadFrame f)"
  using assms(3) unfolding stream_wire_def
proof (elim disjE exE conjE)
  assume "is_ok (stun_decode w)" "length w \<le> MAX_CONTROL_FRAME_BYTES"
  then obtain m where m: "stun_decode w = Inr m" by (auto simp: is_ok_def split: sum.splits)
  show ?thesis
    by (rule exI [of _ "FControl w"], rule exI [of _ pool])
       (simp add: decode_control [OF m \<open>length w \<le> MAX_CONTROL_FRAME_BYTES\<close>] assms(1)
          stun_decode_is_stun [OF m] delivers_def)
next
  fix ch d
  assume w: "valid_channel ch" "w = channel_message ch d" "4 + pad4 (length d) \<le> MAX_DATA_FRAME_BYTES"
  have "length d < 65536"
    using w(3) pad4_props [of "length d"] by (simp add: MAX_DATA_FRAME_BYTES_def PACKET_CAPACITY_def)
  hence h: "channel_data_header w \<noteq> None" using header_of_message [OF w(1)] w(2) by simp
  have "length w \<le> MAX_DATA_FRAME_BYTES" using w by (simp add: length_channel_message)
  then obtain f pool' where f: "copy_channel_data ops fresh w pool = (Inr f, pool')" "storage_ok pool'"
    "delivers w (ReadFrame f)"
    using copy_delivers [OF assms(1,2) _ h] by blast
  show ?thesis using decode_data [OF w f(1)] f by blast
qed

lemma stream_recovered:
  assumes "storage_ok pool" "\<forall>f\<in>set fs. length f = PACKET_CAPACITY" "length fs = length ws" "\<forall>w\<in>set ws. stream_wire w"
  shows "list_all2 delivers ws (fst (read_frames ops fs (concat ws) pool []))"
  using assms
proof (induction ws arbitrary: fs pool)
  case (Cons w ws)
  obtain g gs where fs: "fs = g # gs" using Cons.prems(3) by (cases fs) auto
  obtain f pool' where d: "decode_stream_frame ops g (w @ concat ws) pool = (Inr (Some f), concat ws, pool')"
    "storage_ok pool'" "delivers w (ReadFrame f)"
    using decode_delivers [of pool g w "concat ws"] Cons.prems fs by auto
  have "read_frame ops g (w @ concat ws) pool [] = (ReadFrame f, concat ws, pool', [])"
    using d(1) by (subst read_frame.simps) simp
  thus ?case using Cons.IH [OF d(2), of gs] Cons.prems d(3) fs
    by (auto split: prod.splits)
qed simp

end

section \<open>Properties\<close>

text \<open>ChannelData framing round trip. When a well-formed packet can be encoded for a channel, the
  result is a well-formed packet whose length is a multiple of four; the receiver recognises it
  as data of that channel (and not as STUN), and stripping the header and truncating to the
  declared length yields exactly the original bytes.\<close>

theorem channel_data_roundtrip:
  assumes "packet_ok b" "encode_channel_data ch b = Inr c"
  shows "packet_ok c \<and> 4 dvd length (as_slice c)
    \<and> channel_data_header (as_slice c) = Some (ch, length (as_slice b)) \<and> \<not> is_stun (as_slice c)
    \<and> (\<exists>t u. trim_front 4 c = Inr t \<and> truncate_buf (length (as_slice b)) t = Inr u \<and> as_slice u = as_slice b)"
proof -
  note e = encode_bytes [OF assms]
  have h: "channel_data_header (as_slice c) = Some (ch, length (as_slice b))"
    using header_of_message [OF e(3,4)] e(1) by simp
  have len: "length (as_slice c) = 4 + pad4 (length (as_slice b))" using e(1) by (simp add: length_channel_message)
  obtain t where t: "trim_front 4 c = Inr t" using len length_as_slice [OF e(2)] by (simp add: trim_front_def)
  have ts: "as_slice t = drop 4 (as_slice c)" "packet_ok t"
    using trim_slice [OF t] packet_ok_ops(4) [OF e(2) t] by simp_all
  have "length (as_slice b) \<le> length (as_slice t)"
    using ts(1) len pad4_props [of "length (as_slice b)"] by simp
  then obtain u where u: "truncate_buf (length (as_slice b)) t = Inr u"
    using length_as_slice [OF ts(2)] by (auto simp: truncate_buf_def)
  have "as_slice u = as_slice b"
    using truncate_slice [OF u] ts(1) e(1) by (simp add: channel_message_def channel_header_def)
  thus ?thesis using e(2) h len t u pad4_props [of "length (as_slice b)"] data_not_stun [of "as_slice c"] by auto
qed

lemma channel_data_roundtrip_witness:
  "\<exists>c. encode_channel_data 0x4000 ((buf_of (replicate 2304 0))\<lparr>pb_end := 66\<rparr>) = Inr c
    \<and> channel_data_header (as_slice c) = Some (0x4000, 2)"
proof -
  let ?b = "(buf_of (replicate 2304 0))\<lparr>pb_end := 66\<rparr>"
  have ok: "packet_ok ?b" by (simp add: packet_ok_def buf_of_def PACKET_HEADROOM_def PACKET_CAPACITY_def)
  obtain c where c: "encode_channel_data 0x4000 ?b = Inr c"
    by (simp add: encode_channel_data_def channel_data_padding_def valid_channel_def buf_len_def buf_of_def
        PACKET_HEADROOM_def PACKET_CAPACITY_def data_padding_def usize_checked_add_def usize_max_def
        extend_tail_def prepend_def write_at_def Let_def)
  have "length (as_slice ?b) = 2" using length_as_slice [OF ok] by (simp add: buf_len_def buf_of_def PACKET_HEADROOM_def)
  thus ?thesis using channel_data_roundtrip [OF ok c] c by auto
qed

text \<open>Messages survive the stream. If the peer writes any sequence of STUN messages of at most
  4096 bytes and of ChannelData messages that fit a packet, then however the stream is cut into nonempty reads the
  reader yields exactly one frame per message, in order: the STUN bytes, the data
  bytes, or a drop of a data message when the pool is empty; never an error and never bytes of two messages in one frame.\<close>

theorem stream_messages_recovered:
  assumes "queue_laws ops items cap" "\<forall>st\<in>set (items (pl_queue pool)). length st = PACKET_CAPACITY"
    "\<forall>f\<in>set fs. length f = PACKET_CAPACITY" "length fs = length ws"
    "\<forall>w\<in>set ws. stream_wire w" "[] \<notin> set cs" "concat cs = concat ws"
  shows "list_all2 delivers ws (fst (read_frames ops fs [] pool (chunks cs)))"
proof -
  have pq: "pool_queue ops items cap" by (intro pool_queue.intro array_queue.intro) (rule assms(1))
  have "read_frames ops fs [] pool (chunks cs) = read_frames ops fs (concat ws) pool (chunks [])"
    by (rule read_frames_bytes) (use assms(6,7) in auto)
  thus ?thesis
    using pool_queue.stream_recovered [OF pq, of pool fs ws] assms(2-5)
    by (simp add: pool_queue.storage_ok_def [OF pq] chunks_def)
qed

lemma stream_messages_recovered_witness:
  "list_all2 delivers [sample_stun, channel_message 0x4000 [7, 8]]
    (fst (read_frames list_queue_ops [replicate 2304 0, replicate 2304 0] [] (new_pool list_queue_ops 4)
       (chunks [take 9 sample_stun, drop 9 sample_stun @ channel_message 0x4000 [7, 8]])))"
proof (rule stream_messages_recovered [OF list_queue_laws])
  have "is_ok (stun_decode sample_stun)" "length sample_stun \<le> MAX_CONTROL_FRAME_BYTES" by code_simp+
  moreover have "stream_wire (channel_message 0x4000 [7, 8])"
    unfolding stream_wire_def by (rule disjI2, rule exI [of _ "0x4000"], rule exI [of _ "[7, 8]"])
      (simp add: valid_channel_def pad4_def MAX_DATA_FRAME_BYTES_def PACKET_CAPACITY_def PACKET_HEADROOM_def)
  ultimately show "\<forall>w\<in>set [sample_stun, channel_message 0x4000 [7, 8]]. stream_wire w"
    by (simp add: stream_wire_def)
qed (simp_all add: new_pool_def list_queue_ops_def PACKET_CAPACITY_def sample_stun_def)

end
