(* ===== verification/FlowFrame.thy ===== *)
theory FlowFrame
  imports Prelude
begin

text \<open>
  \<open>shared/flow_frame.rs\<close>, sending side: the 24-byte frame header (\<open>FrameHeader\<close>), the flow
  identifier of a TCP packet (\<open>tcp_flow_id\<close>) and the per-flow sequence numbers
  (\<open>FlowSequencer\<close>). The receiving side is in FlowReassembly.
\<close>

section \<open>Constants and data\<close>

definition FRAME_LEN :: nat where "FRAME_LEN = 24"
definition MAX_TRACKED_FLOWS :: nat where "MAX_TRACKED_FLOWS = 4096"

definition FRAME_MAGIC :: bytes where
  "FRAME_MAGIC = [0x43, 0x51, 0x46, 0x31]"

record frame_header =
  fh_sender_id :: u64
  fh_flow_id :: u64
  fh_sequence :: u32

section \<open>The header codec\<close>

definition frame_bytes :: "frame_header \<Rightarrow> bytes" where
  "frame_bytes h = FRAME_MAGIC @ u64_to_be (fh_sender_id h) @ u64_to_be (fh_flow_id h)
     @ u32_to_be (fh_sequence h)"

definition encode_frame :: "frame_header \<Rightarrow> bytes \<Rightarrow> bool \<times> bytes" where
  "encode_frame h out = (if length out < FRAME_LEN then (False, out)
     else (True, frame_bytes h @ drop FRAME_LEN out))"

definition decode_frame :: "bytes \<Rightarrow> (frame_header \<times> bytes) option" where
  "decode_frame p = (if length p < FRAME_LEN \<or> take 4 p \<noteq> FRAME_MAGIC then None
     else Some (\<lparr>fh_sender_id = u64_of_be (subslice p 4 12), fh_flow_id = u64_of_be (subslice p 12 20),
                 fh_sequence = u32_of_be (subslice p 20 24)\<rparr>, drop FRAME_LEN p))"

definition frame_payload :: "bytes \<Rightarrow> bytes" where
  "frame_payload p = (case decode_frame p of None \<Rightarrow> p | Some (h, rest) \<Rightarrow> rest)"

section \<open>Flow identifiers\<close>

fun hash_bytes :: "u64 \<Rightarrow> bytes \<Rightarrow> u64" where
  "hash_bytes h [] = h"
| "hash_bytes h (b # bs) = hash_bytes ((h XOR ucast b) * 0x100000001b3) bs"

definition mix64 :: "u64 \<Rightarrow> u64" where
  "mix64 v0 = (let v1 = (v0 XOR drop_bit 30 v0) * 0xbf58476d1ce4e5b9;
                   v2 = (v1 XOR drop_bit 27 v1) * 0x94d049bb133111eb
               in v2 XOR drop_bit 31 v2)"

text \<open>The first match of \<open>tcp_flow_id\<close>: header length, protocol, source and destination address.\<close>

definition ip_fields :: "bytes \<Rightarrow> (nat \<times> byte \<times> bytes \<times> bytes) option" where
  "ip_fields p = (if p = [] then None else
     let version = drop_bit 4 (p ! 0) in
     if version = 4 then
       (if length p < 20 then None else
        let header_len = unat (p ! 0 AND 0x0f) * 4 in
        if header_len < 20 \<or> length p < header_len + 20 then None
        else Some (header_len, p ! 9, subslice p 12 16, subslice p 16 20))
     else if version = 6 then
       (if length p < 60 then None else Some (40, p ! 6, subslice p 8 24, subslice p 24 40))
     else None)"

definition tcp_flow_id :: "bytes \<Rightarrow> u64 option" where
  "tcp_flow_id p = (case ip_fields p of None \<Rightarrow> None
     | Some (header_len, protocol, source, destination) \<Rightarrow>
       if protocol \<noteq> 6 then None else
       let tcp = drop header_len p; data_offset = unat (drop_bit 4 (tcp ! 12)) * 4 in
       if data_offset < 20 \<or> length tcp < data_offset then None else
       let flags = tcp ! 13 in
       if length tcp = data_offset \<and> flags AND 0x03 = 0 then None else
       let h0 = hash_bytes 0xcbf29ce484222325 [protocol];
           h1 = hash_bytes h0 source;
           h2 = hash_bytes h1 destination;
           h3 = hash_bytes h2 (take 4 tcp)
       in Some (mix64 h3))"

section \<open>The sequencer\<close>

record flow_sequencer =
  fq_sender_id :: u64
  fq_sequences :: "(u64, u32) hmap"

definition with_sender_id :: "u64 \<Rightarrow> flow_sequencer" where
  "with_sender_id s = \<lparr>fq_sender_id = max s 1, fq_sequences = []\<rparr>"

text \<open>\<open>FlowSequencer::new\<close> mixes the clock with a stack address; both are arguments here.\<close>

definition new_sequencer :: "u64 \<Rightarrow> u64 \<Rightarrow> flow_sequencer" where
  "new_sequencer clock address = with_sender_id (mix64 (clock XOR address))"

definition rotate_sender :: "u64 \<Rightarrow> u64" where
  "rotate_sender s = max (mix64 (s + 0x9e3779b97f4a7c15)) 1"

definition next_header :: "flow_sequencer \<Rightarrow> bytes \<Rightarrow> frame_header option \<times> flow_sequencer" where
  "next_header s p = (case tcp_flow_id p of None \<Rightarrow> (None, s)
     | Some flow \<Rightarrow>
       let s1 = (if length (fq_sequences s) = MAX_TRACKED_FLOWS \<and> \<not> hm_has (fq_sequences s) flow
                 then \<lparr>fq_sender_id = rotate_sender (fq_sender_id s), fq_sequences = []\<rparr> else s);
           seq = (case hm_get (fq_sequences s1) flow of None \<Rightarrow> 0 | Some n \<Rightarrow> n)
       in (Some \<lparr>fh_sender_id = fq_sender_id s1, fh_flow_id = flow, fh_sequence = seq\<rparr>,
           s1\<lparr>fq_sequences := hm_put flow (seq + 1) (fq_sequences s1)\<rparr>))"

fun run_sequencer :: "flow_sequencer \<Rightarrow> bytes list \<Rightarrow> frame_header option list \<times> flow_sequencer" where
  "run_sequencer s [] = ([], s)"
| "run_sequencer s (p # ps) = (let (h, s1) = next_header s p; (hs, s2) = run_sequencer s1 ps
     in (h # hs, s2))"

section \<open>Lemmas\<close>

lemma length_frame_bytes [simp, byte_simps]: "length (frame_bytes h) = FRAME_LEN"
  by (simp add: frame_bytes_def FRAME_MAGIC_def FRAME_LEN_def)

lemma length_FRAME_MAGIC [simp]: "length FRAME_MAGIC = 4"
  by (simp add: FRAME_MAGIC_def)

lemma frame_fields:
  "take 4 (frame_bytes h @ rest) = FRAME_MAGIC"
  "subslice (frame_bytes h @ rest) 4 12 = u64_to_be (fh_sender_id h)"
  "subslice (frame_bytes h @ rest) 12 20 = u64_to_be (fh_flow_id h)"
  "subslice (frame_bytes h @ rest) 20 24 = u32_to_be (fh_sequence h)"
  by (simp_all add: frame_bytes_def subslice_def)

lemma decode_frame_bytes: "decode_frame (frame_bytes h @ rest) = Some (h, rest)"
  using length_frame_bytes [of h] unfolding decode_frame_def frame_fields
  by (simp add: FRAME_LEN_def)

lemma decode_frame_sound:
  assumes "decode_frame p = Some (h, rest)"
  shows "p = frame_bytes h @ rest"
proof -
  have len: "24 \<le> length p" and magic: "take 4 p = FRAME_MAGIC" and rest: "rest = drop 24 p"
    and h: "h = \<lparr>fh_sender_id = u64_of_be (subslice p 4 12), fh_flow_id = u64_of_be (subslice p 12 20),
                 fh_sequence = u32_of_be (subslice p 20 24)\<rparr>"
    using assms by (auto simp: decode_frame_def FRAME_LEN_def split: if_splits)
  have "frame_bytes h = take 4 p @ subslice p 4 12 @ subslice p 12 20 @ subslice p 20 24"
    using len by (simp add: frame_bytes_def h magic u64_to_of_be u32_to_of_be length_subslice)
  also have "\<dots> = take 24 p"
    by (simp add: subslice_append take_append_subslice)
  finally show ?thesis by (simp add: rest)
qed

text \<open>Every index that \<open>tcp_flow_id\<close> uses on the TCP header is in bounds.\<close>

lemma ip_fields_bounds: "ip_fields p = Some (hl, pr, s, d) \<Longrightarrow> 20 \<le> hl \<and> hl + 20 \<le> length p"
  by (auto simp: ip_fields_def Let_def split: if_splits)

section \<open>Sequencer invariant\<close>

definition sequencer_ok :: "flow_sequencer \<Rightarrow> bool" where
  "sequencer_ok s \<longleftrightarrow> hm_ok (fq_sequences s) \<and> length (fq_sequences s) \<le> MAX_TRACKED_FLOWS
     \<and> fq_sender_id s \<noteq> 0"

lemma max_1_nonzero: "max (w :: u64) 1 \<noteq> 0"
  by (auto simp: max_def)

lemma sequencer_ok_new [inv_intros]: "sequencer_ok (with_sender_id s)"
  by (simp add: sequencer_ok_def with_sender_id_def max_1_nonzero)

lemma sequencer_ok_next [inv_intros]: "sequencer_ok s \<Longrightarrow> sequencer_ok (snd (next_header s p))"
  by (auto simp: sequencer_ok_def next_header_def Let_def length_hm_put rotate_sender_def max_1_nonzero
        MAX_TRACKED_FLOWS_def split: option.splits)

lemma sequencer_ok_run: "sequencer_ok s \<Longrightarrow> sequencer_ok (snd (run_sequencer s ps))"
proof (induction ps arbitrary: s)
  case (Cons p ps)
  have "sequencer_ok (snd (next_header s p))" using Cons.prems by (rule sequencer_ok_next)
  hence "sequencer_ok (snd (run_sequencer (snd (next_header s p)) ps))" by (rule Cons.IH)
  thus ?case by (simp add: case_prod_beta Let_def)
qed simp

text \<open>The headers a run emits for one flow, and the flows it touches.\<close>

definition flow_headers :: "u64 \<Rightarrow> frame_header option list \<Rightarrow> frame_header list" where
  "flow_headers f hs = [h. Some h \<leftarrow> hs, fh_flow_id h = f]"

definition flows_of :: "bytes list \<Rightarrow> u64 set" where
  "flows_of ps = {f. \<exists>p\<in>set ps. tcp_flow_id p = Some f}"

lemma next_header_no_reset:
  assumes "tcp_flow_id p = Some f"
    and "\<not> (length (fq_sequences s) = MAX_TRACKED_FLOWS \<and> \<not> hm_has (fq_sequences s) f)"
  shows "next_header s p =
    (Some \<lparr>fh_sender_id = fq_sender_id s, fh_flow_id = f,
           fh_sequence = (case hm_get (fq_sequences s) f of None \<Rightarrow> 0 | Some n \<Rightarrow> n)\<rparr>,
     s\<lparr>fq_sequences := hm_put f ((case hm_get (fq_sequences s) f of None \<Rightarrow> 0 | Some n \<Rightarrow> n) + 1)
        (fq_sequences s)\<rparr>)"
  using assms by (auto simp: next_header_def Let_def)

definition next_seq :: "flow_sequencer \<Rightarrow> u64 \<Rightarrow> u32" where
  "next_seq s f = (case hm_get (fq_sequences s) f of None \<Rightarrow> 0 | Some n \<Rightarrow> n)"

text \<open>As long as no more than 4096 flows are seen in all, no reset happens: every flow keeps the
  sender id and its headers number \<open>0, 1, 2, ...\<close> from the next number on.\<close>

lemma run_sequencer_Cons:
  "fst (run_sequencer s (p # ps)) = fst (next_header s p) # fst (run_sequencer (snd (next_header s p)) ps)"
  by (simp add: case_prod_beta Let_def)

lemma flow_headers_Cons:
  "flow_headers f (h # hs) = (case h of None \<Rightarrow> [] | Some x \<Rightarrow> if fh_flow_id x = f then [x] else [])
     @ flow_headers f hs"
  by (simp add: flow_headers_def split: option.splits)

definition room_for :: "u64 set \<Rightarrow> flow_sequencer \<Rightarrow> bool" where
  "room_for F s \<longleftrightarrow> hm_ok (fq_sequences s) \<and> finite F \<and> card F \<le> MAX_TRACKED_FLOWS
     \<and> hm_keys (fq_sequences s) \<subseteq> F"

lemma room_for_no_reset:
  assumes "room_for F s" "f \<in> F"
  shows "\<not> (length (fq_sequences s) = MAX_TRACKED_FLOWS \<and> \<not> hm_has (fq_sequences s) f)"
proof
  assume a: "length (fq_sequences s) = MAX_TRACKED_FLOWS \<and> \<not> hm_has (fq_sequences s) f"
  hence "card (insert f (hm_keys (fq_sequences s))) = Suc MAX_TRACKED_FLOWS"
    using assms by (simp add: room_for_def card_hm_keys hm_has_keys)
  moreover have "card (insert f (hm_keys (fq_sequences s))) \<le> card F"
    using assms by (intro card_mono) (auto simp: room_for_def)
  ultimately show False using assms by (simp add: room_for_def)
qed

lemma next_seq_update [simp]:
  "next_seq (s\<lparr>fq_sequences := hm_put f v (fq_sequences s)\<rparr>) g = (if g = f then v else next_seq s g)"
  by (simp add: next_seq_def)

lemma next_header_tracked:
  assumes "room_for F s" "f \<in> F" "tcp_flow_id p = Some f"
  defines "s' \<equiv> s\<lparr>fq_sequences := hm_put f (next_seq s f + 1) (fq_sequences s)\<rparr>"
  shows "next_header s p = (Some \<lparr>fh_sender_id = fq_sender_id s, fh_flow_id = f, fh_sequence = next_seq s f\<rparr>, s')"
    and "room_for F s'"
  using next_header_no_reset [OF assms(3) room_for_no_reset [OF assms(1,2)]] assms
  by (auto simp: next_seq_def room_for_def)

lemma upt_Suc_conv: "[0..<Suc n] = 0 # map Suc [0..<n]"
  by (simp only: upt_conv_Cons [OF zero_less_Suc] map_Suc_upt)

lemma run_sequencer_consecutive:
  assumes "room_for F s" "flows_of ps \<subseteq> F"
  shows "flow_headers f (fst (run_sequencer s ps))
    = map (\<lambda>i. \<lparr>fh_sender_id = fq_sender_id s, fh_flow_id = f, fh_sequence = next_seq s f + word_of_nat i\<rparr>)
        [0..<length [p \<leftarrow> ps. tcp_flow_id p = Some f]]"
  using assms
proof (induction ps arbitrary: s)
  case Nil
  show ?case by (simp add: flow_headers_def)
next
  case (Cons p ps)
  have psF: "flows_of ps \<subseteq> F" using Cons.prems(2) by (auto simp: flows_of_def)
  show ?case
  proof (cases "tcp_flow_id p")
    case None
    hence "next_header s p = (None, s)" by (simp add: next_header_def)
    thus ?thesis using Cons.IH [OF Cons.prems(1) psF] None
      by (simp add: run_sequencer_Cons flow_headers_Cons del: run_sequencer.simps)
  next
    case (Some g)
    have gF: "g \<in> F" using Cons.prems(2) Some by (auto simp: flows_of_def)
    note t = next_header_tracked [OF Cons.prems(1) gF Some]
    show ?thesis using Cons.IH [OF t(2) psF]
      by (auto simp: run_sequencer_Cons flow_headers_Cons t(1) Some upt_Suc_conv o_def algebra_simps
            simp del: run_sequencer.simps upt_Suc)
  qed
qed

section \<open>Properties\<close>

text \<open>Writing a frame header into a buffer of at least 24 bytes and decoding the buffer gives the
  header back with the rest of the buffer as payload; and a packet decodes only if it is
  exactly the encoding of the header followed by the payload.\<close>

theorem frame_roundtrip:
  shows "(FRAME_LEN \<le> length out \<longrightarrow>
            decode_frame (snd (encode_frame h out)) = Some (h, drop FRAME_LEN out))
       \<and> (decode_frame p = Some (h, rest) \<longrightarrow> p = frame_bytes h @ rest \<and> frame_payload p = rest
            \<and> encode_frame h p = (True, p))"
  by (auto simp: encode_frame_def decode_frame_bytes frame_payload_def
        dest: decode_frame_sound)

lemma frame_roundtrip_witness:
  "decode_frame (snd (encode_frame \<lparr>fh_sender_id = 5, fh_flow_id = 2 ^ 63, fh_sequence = 258\<rparr>
       (replicate 26 9))) = Some (\<lparr>fh_sender_id = 5, fh_flow_id = 2 ^ 63, fh_sequence = 258\<rparr>, [9, 9])"
  using frame_roundtrip [of "replicate 26 9" "\<lparr>fh_sender_id = 5, fh_flow_id = 2 ^ 63, fh_sequence = 258\<rparr>" "[]" "[]"]
  by (simp add: FRAME_LEN_def numeral_eq_Suc)

end
