(* ===== verification/SelectiveFec.thy ===== *)
theory SelectiveFec
  imports FlowFrame
begin

text \<open>
  \<open>shared/selective_fec.rs\<close>: which packets are worth a second copy (\<open>should_duplicate\<close>,
  \<open>is_quic_initial_sized\<close>) and the token bucket that bounds how many copies are sent (\<open>Budget\<close>).
  Instants are nanoseconds of one monotonic clock.
\<close>

section \<open>The budget\<close>

definition MAX_SMALL_UDP_PAYLOAD :: nat where "MAX_SMALL_UDP_PAYLOAD = 256"
definition DUPLICATES_PER_SECOND :: nat where "DUPLICATES_PER_SECOND = 80"
definition DUPLICATE_BURST :: nat where "DUPLICATE_BURST = 16"

definition REFILL_INTERVAL :: nat where
  "REFILL_INTERVAL = (1000 div DUPLICATES_PER_SECOND) * 1000000"

definition u32_max :: nat where "u32_max = 2 ^ 32 - 1"

record budget =
  bg_tokens :: nat
  bg_updated :: nat

definition new_budget :: "nat \<Rightarrow> budget" where
  "new_budget now = \<lparr>bg_tokens = DUPLICATE_BURST, bg_updated = now\<rparr>"

definition budget_refill :: "nat \<Rightarrow> budget \<Rightarrow> budget" where
  "budget_refill now b =
    (let refill = (now - bg_updated b) div REFILL_INTERVAL
     in if refill = 0 then b else
        let r = min refill u32_max
        in \<lparr>bg_tokens = min (min (bg_tokens b + r) u32_max) DUPLICATE_BURST,
            bg_updated = bg_updated b + REFILL_INTERVAL * r\<rparr>)"

definition budget_allow :: "nat \<Rightarrow> budget \<Rightarrow> bool \<times> budget" where
  "budget_allow now b =
    (let b1 = budget_refill now b
     in if bg_tokens b1 = 0 then (False, b1) else (True, b1\<lparr>bg_tokens := bg_tokens b1 - 1\<rparr>))"

fun budget_run :: "nat list \<Rightarrow> budget \<Rightarrow> nat \<times> budget" where
  "budget_run [] b = (0, b)"
| "budget_run (t # ts) b = (let (ok, b1) = budget_allow t b; (n, b2) = budget_run ts b1
     in (if ok then Suc n else n, b2))"

section \<open>Classification\<close>

record transport =
  tr_protocol :: byte
  tr_bytes :: bytes

definition is_control :: "bytes \<Rightarrow> bool" where
  "is_control p \<longleftrightarrow> starts_with p (ascii ''GETCONF:'') \<or> starts_with p (ascii ''TUNCONF:'')
     \<or> p = ascii ''READY'' \<or> p = ascii ''READY_OK'' \<or> starts_with p (ascii ''DENIED:'')
     \<or> starts_with p (ascii ''DISCONNECT:'')"

definition port_source :: "bytes \<Rightarrow> u16" where "port_source t = u16_of_be [t ! 0, t ! 1]"
definition port_destination :: "bytes \<Rightarrow> u16" where "port_destination t = u16_of_be [t ! 2, t ! 3]"

definition classify_transport :: "transport \<Rightarrow> bool" where
  "classify_transport t =
    (if tr_protocol t = 6 \<and> 14 \<le> length (tr_bytes t) then
       port_source (tr_bytes t) = 53 \<or> port_destination (tr_bytes t) = 53
         \<or> tr_bytes t ! 13 AND 0x02 \<noteq> 0
     else if tr_protocol t = 17 \<and> 8 \<le> length (tr_bytes t) then
       port_source (tr_bytes t) = 53 \<or> port_destination (tr_bytes t) = 53
         \<or> length (tr_bytes t) - 8 \<le> MAX_SMALL_UDP_PAYLOAD
     else False)"

definition quic_initial_transport :: "transport \<Rightarrow> bool" where
  "quic_initial_transport t \<longleftrightarrow> tr_protocol t = 17 \<and> 8 \<le> length (tr_bytes t)
     \<and> port_destination (tr_bytes t) = 443
     \<and> 1200 \<le> length (tr_bytes t) - 8 \<and> length (tr_bytes t) - 8 \<le> 1280"

definition fec_ipv4_transport :: "bytes \<Rightarrow> transport option" where
  "fec_ipv4_transport p =
    (if length p < 20 \<or> drop_bit 4 (p ! 0) \<noteq> 4 then None else
     let header_len = unat (p ! 0 AND 0x0f) * 4 in
     if header_len < 20 \<or> length p < header_len then None
     else if u16_of_be [p ! 6, p ! 7] AND 0x1fff \<noteq> 0 then None
     else Some \<lparr>tr_protocol = p ! 9, tr_bytes = drop header_len p\<rparr>)"

text \<open>One extension header: the next protocol and the offset behind it. \<open>None\<close> is the source's
  early return.\<close>

definition ext_header :: "bytes \<Rightarrow> byte \<Rightarrow> nat \<Rightarrow> (byte \<times> nat) option" where
  "ext_header p protocol offset =
    (if protocol = 0 \<or> protocol = 43 \<or> protocol = 60 then do {
       e \<leftarrow> usize_checked_add offset 2;
       header \<leftarrow> get_range p offset e;
       next \<leftarrow> usize_checked_add offset ((unat (header ! 1) + 1) * 8);
       Some (header ! 0, next) }
     else if protocol = 44 then do {
       e \<leftarrow> usize_checked_add offset 8;
       header \<leftarrow> get_range p offset e;
       if u16_of_be [header ! 2, header ! 3] AND 0xfff8 \<noteq> 0 then None
       else do { next \<leftarrow> usize_checked_add offset 8; Some (header ! 0, next) } }
     else do {
       e \<leftarrow> usize_checked_add offset 2;
       header \<leftarrow> get_range p offset e;
       next \<leftarrow> usize_checked_add offset ((unat (header ! 1) + 2) * 4);
       Some (header ! 0, next) })"

definition is_ext :: "byte \<Rightarrow> bool" where
  "is_ext protocol \<longleftrightarrow> protocol \<in> {0, 43, 60, 44, 51}"

text \<open>The \<open>for _ in 0..8\<close> loop: at most \<open>n\<close> extension headers.\<close>

fun fec_ipv6_walk :: "nat \<Rightarrow> bytes \<Rightarrow> byte \<Rightarrow> nat \<Rightarrow> (byte \<times> nat) option" where
  "fec_ipv6_walk 0 p protocol offset = Some (protocol, offset)"
| "fec_ipv6_walk (Suc n) p protocol offset =
    (if \<not> is_ext protocol then Some (protocol, offset) else
     case ext_header p protocol offset of None \<Rightarrow> None
     | Some (protocol', offset') \<Rightarrow>
       if length p < offset' then None else fec_ipv6_walk n p protocol' offset')"

definition fec_ipv6_transport :: "bytes \<Rightarrow> transport option" where
  "fec_ipv6_transport p =
    (if length p < 40 \<or> drop_bit 4 (p ! 0) \<noteq> 6 then None else
     case fec_ipv6_walk 8 p (p ! 6) 40 of None \<Rightarrow> None
     | Some (protocol, offset) \<Rightarrow> (case get_from p offset of None \<Rightarrow> None
         | Some bs \<Rightarrow> Some \<lparr>tr_protocol = protocol, tr_bytes = bs\<rparr>))"

definition version_nibble :: "bytes \<Rightarrow> byte option" where
  "version_nibble p = (if p = [] then None else Some (drop_bit 4 (p ! 0)))"

definition option_test :: "('a \<Rightarrow> bool) \<Rightarrow> 'a option \<Rightarrow> bool" where
  "option_test P x = (case x of None \<Rightarrow> False | Some v \<Rightarrow> P v)"

definition should_duplicate :: "bytes \<Rightarrow> bool" where
  "should_duplicate packet =
    (let p = frame_payload packet in
     if is_control p then True
     else if version_nibble p = Some 4 then option_test classify_transport (fec_ipv4_transport p)
     else if version_nibble p = Some 6 then option_test classify_transport (fec_ipv6_transport p)
     else False)"

definition is_quic_initial_sized :: "bytes \<Rightarrow> bool" where
  "is_quic_initial_sized packet =
    (let p = frame_payload packet in
     if version_nibble p = Some 4 then option_test quic_initial_transport (fec_ipv4_transport p)
     else if version_nibble p = Some 6 then option_test quic_initial_transport (fec_ipv6_transport p)
     else False)"

section \<open>Lemmas\<close>

lemma REFILL_INTERVAL_pos [simp]: "0 < REFILL_INTERVAL"
  by (simp add: REFILL_INTERVAL_def DUPLICATES_PER_SECOND_def)

lemma option_test_simps [simp]:
  "option_test P None = False" "option_test P (Some v) = P v"
  by (simp_all add: option_test_def)

lemma option_testD: "option_test P x \<Longrightarrow> \<exists>v. x = Some v \<and> P v"
  by (cases x) auto

text \<open>The invariant of the bucket against the number \<open>n\<close> of copies granted since creation at
  \<open>t0\<close>: every refill advances the bucket's own clock by one interval.\<close>

definition budget_inv :: "nat \<Rightarrow> nat \<Rightarrow> nat \<Rightarrow> budget \<Rightarrow> bool" where
  "budget_inv t0 now n b \<longleftrightarrow> bg_tokens b \<le> DUPLICATE_BURST \<and> t0 \<le> bg_updated b \<and> bg_updated b \<le> now
     \<and> n + bg_tokens b \<le> DUPLICATE_BURST + (bg_updated b - t0) div REFILL_INTERVAL
     \<and> REFILL_INTERVAL dvd (bg_updated b - t0)"

lemma budget_inv_new [inv_intros]: "budget_inv t0 t0 0 (new_budget t0)"
  by (simp add: budget_inv_def new_budget_def)

lemma budget_inv_allow:
  assumes inv: "budget_inv t0 now n b" and "now \<le> t" and run: "budget_allow t b = (ok, b')"
  shows "budget_inv t0 t (if ok then Suc n else n) b'"
proof -
  define r where "r = min ((t - bg_updated b) div REFILL_INTERVAL) u32_max"
  define b1 where "b1 = \<lparr>bg_tokens = min (bg_tokens b + r) DUPLICATE_BURST,
    bg_updated = bg_updated b + REFILL_INTERVAL * r\<rparr>"
  have le: "REFILL_INTERVAL * r \<le> t - bg_updated b"
    by (metis r_def min.cobounded1 mult.commute mult_le_mono1 order_trans times_div_less_eq_dividend)
  have diff: "bg_updated b + REFILL_INTERVAL * r - t0 = (bg_updated b - t0) + REFILL_INTERVAL * r"
    using inv by (simp add: budget_inv_def)
  have dv: "(bg_updated b + REFILL_INTERVAL * r - t0) div REFILL_INTERVAL = (bg_updated b - t0) div REFILL_INTERVAL + r"
    by (simp add: diff)
  have dvd: "REFILL_INTERVAL dvd bg_updated b + REFILL_INTERVAL * r - t0"
    unfolding diff using inv by (intro dvd_add) (simp_all add: budget_inv_def)
  have inv1: "budget_inv t0 t n b1"
    using inv le assms(2) dv dvd by (auto simp: budget_inv_def b1_def)
  have burst: "DUPLICATE_BURST \<le> u32_max" by (simp add: DUPLICATE_BURST_def u32_max_def)
  have "budget_refill t b = b1"
    using inv burst unfolding budget_refill_def Let_def r_def [symmetric]
    by (auto simp: b1_def budget_inv_def r_def)
  hence "(ok, b') = (if bg_tokens b1 = 0 then (False, b1) else (True, b1\<lparr>bg_tokens := bg_tokens b1 - 1\<rparr>))"
    using run by (simp add: budget_allow_def)
  thus ?thesis using inv1 by (auto simp: budget_inv_def split: if_splits)
qed

lemma budget_inv_run:
  "budget_inv t0 now n b \<Longrightarrow> sorted (now # ts) \<Longrightarrow> budget_run ts b = (m, b')
   \<Longrightarrow> budget_inv t0 (last (now # ts)) (n + m) b'"
proof (induction ts arbitrary: now n b m)
  case (Cons t ts)
  obtain ok b1 where a: "budget_allow t b = (ok, b1)" by force
  obtain m1 where r: "budget_run ts b1 = (m1, b')"
    using Cons.prems(3) a by (auto simp: case_prod_beta Let_def) (metis prod.collapse)
  have "budget_inv t0 t (if ok then Suc n else n) b1"
    using budget_inv_allow [OF Cons.prems(1) _ a] Cons.prems(2) by simp
  from Cons.IH [OF this _ r] show ?case using Cons.prems(2,3) a r by (auto simp: Let_def split: if_splits)
qed simp

lemma budget_after_interval:
  assumes "bg_updated b + REFILL_INTERVAL \<le> t"
  shows "fst (budget_allow t b)"
proof -
  have "0 < (t - bg_updated b) div REFILL_INTERVAL"
    using assms by (simp add: div_greater_zero_iff)
  moreover have "0 < u32_max" "0 < DUPLICATE_BURST" by (simp_all add: u32_max_def DUPLICATE_BURST_def)
  ultimately show ?thesis by (simp add: budget_allow_def budget_refill_def Let_def)
qed

text \<open>The source divides by a rounded-down interval: 12 ms, not 12.5 ms.\<close>

lemma REFILL_INTERVAL_value: "REFILL_INTERVAL = 12000000"
  by (simp add: REFILL_INTERVAL_def DUPLICATES_PER_SECOND_def)

lemma fec_ipv6_walk_bound:
  "fec_ipv6_walk n p pr off = Some (pr', off') \<Longrightarrow> off \<le> length p \<Longrightarrow> off' \<le> length p"
  by (induction n p pr off rule: fec_ipv6_walk.induct) (auto split: if_splits option.splits prod.splits)

section \<open>Properties\<close>

text \<open>The duplication budget is a token bucket: in any sequence of requests at non-decreasing
  times after its creation at \<open>t0\<close> it grants at most 16 copies plus one per elapsed 12 ms,
  never holds more than 16 tokens, and always grants a request that comes 12 ms after
  the bucket's clock.\<close>

theorem budget_bounded:
  assumes "sorted (t0 # ts)" and "budget_run ts (new_budget t0) = (granted, b)"
  shows "granted \<le> DUPLICATE_BURST + (last (t0 # ts) - t0) div 12000000
    \<and> bg_tokens b \<le> DUPLICATE_BURST
    \<and> (bg_updated b + 12000000 \<le> t \<longrightarrow> fst (budget_allow t b))"
proof -
  have inv: "budget_inv t0 (last (t0 # ts)) (0 + granted) b"
    by (rule budget_inv_run [OF budget_inv_new assms])
  hence "granted \<le> DUPLICATE_BURST + (bg_updated b - t0) div 12000000"
    by (simp add: budget_inv_def REFILL_INTERVAL_value)
  also have "(bg_updated b - t0) div 12000000 \<le> (last (t0 # ts) - t0) div 12000000"
    using inv by (intro div_le_mono diff_le_mono) (simp add: budget_inv_def)
  finally show ?thesis
    using inv budget_after_interval [of b t] by (simp add: budget_inv_def REFILL_INTERVAL_value)
qed

lemma numeral_18: "(18 :: nat) = Suc (Suc (Suc (Suc (Suc (Suc (Suc (Suc (Suc (Suc (Suc (Suc (Suc (Suc (Suc (Suc (Suc (Suc 0)))))))))))))))))"
  by simp

lemma budget_bounded_witness:
  "let r = budget_run (replicate 18 0 @ [12000000, 12000001]) (new_budget 0)
   in fst r = 17 \<and> fst r \<le> 16 + 12000001 div 12000000 \<and> fst (budget_allow 24000000 (snd r))"
proof -
  let ?ts = "replicate 18 0 @ [12000000, 12000001] :: nat list"
  let ?r = "budget_run ?ts (new_budget 0)"
  have r: "?r = (17, \<lparr>bg_tokens = 0, bg_updated = 12000000\<rparr>)"
    by (simp add: replicate_Suc numeral_18 budget_allow_def Let_def new_budget_def REFILL_INTERVAL_value DUPLICATE_BURST_def u32_max_def
        budget_refill_def)
  have "sorted (0 # ?ts)" by (simp add: replicate_Suc numeral_18)
  from budget_bounded [OF this r, of 24000000] r show ?thesis
    by (simp add: DUPLICATE_BURST_def)
qed

end
