(* ===== verification/StripedScheduler.thy ===== *)
theory StripedScheduler
  imports SelectiveFec
begin

text \<open>
  \<open>shared/striped_scheduler.rs\<close>: the class of a packet (which decides its queue, the size of a
  stripe and the datagram batch) and which packets survive a full queue.
\<close>

section \<open>Classes\<close>

definition SMALL_PACKET_MAX :: nat where "SMALL_PACKET_MAX = 164"
definition MEDIUM_PACKET_MAX :: nat where "MEDIUM_PACKET_MAX = 999"
definition SMALL_STREAM_STRIPE_PACKET_CHUNK :: nat where "SMALL_STREAM_STRIPE_PACKET_CHUNK = 4"
definition MEDIUM_STREAM_STRIPE_PACKET_CHUNK :: nat where "MEDIUM_STREAM_STRIPE_PACKET_CHUNK = 16"
definition BULK_STREAM_STRIPE_PACKET_CHUNK :: nat where "BULK_STREAM_STRIPE_PACKET_CHUNK = 32"

datatype traffic_class = Small | Medium | Bulk

fun class_index :: "traffic_class \<Rightarrow> nat" where
  "class_index Small = 0"
| "class_index Medium = 1"
| "class_index Bulk = 2"

fun stream_chunk :: "traffic_class \<Rightarrow> nat" where
  "stream_chunk Small = SMALL_STREAM_STRIPE_PACKET_CHUNK"
| "stream_chunk Medium = MEDIUM_STREAM_STRIPE_PACKET_CHUNK"
| "stream_chunk Bulk = BULK_STREAM_STRIPE_PACKET_CHUNK"

fun datagram_batch :: "traffic_class \<Rightarrow> nat" where
  "datagram_batch Small = 16"
| "datagram_batch Medium = 64"
| "datagram_batch Bulk = 128"

text \<open>Priority order of the classes: the queue index.\<close>

instantiation traffic_class :: linorder
begin

definition less_eq_traffic_class :: "traffic_class \<Rightarrow> traffic_class \<Rightarrow> bool" where
  "less_eq_traffic_class a b \<longleftrightarrow> class_index a \<le> class_index b"

definition less_traffic_class :: "traffic_class \<Rightarrow> traffic_class \<Rightarrow> bool" where
  "less_traffic_class a b \<longleftrightarrow> class_index a < class_index b"

instance
proof
  fix a b :: traffic_class
  show "a \<le> b \<Longrightarrow> b \<le> a \<Longrightarrow> a = b"
    by (cases a; cases b) (auto simp: less_eq_traffic_class_def)
qed (auto simp: less_eq_traffic_class_def less_traffic_class_def)

end

definition size_class :: "nat \<Rightarrow> traffic_class" where
  "size_class len = (if len \<le> SMALL_PACKET_MAX then Small
     else if len \<le> MEDIUM_PACKET_MAX then Medium else Bulk)"

section \<open>Finding the transport header\<close>

fun sched_ipv6_walk :: "nat \<Rightarrow> bytes \<Rightarrow> byte \<Rightarrow> nat \<Rightarrow> (byte \<times> nat) option" where
  "sched_ipv6_walk 0 p protocol offset = Some (protocol, offset)"
| "sched_ipv6_walk (Suc n) p protocol offset =
    (if protocol = 0 \<or> protocol = 43 \<or> protocol = 60 \<or> protocol = 44 \<or> protocol = 51 then
       (case ext_header p protocol offset of None \<Rightarrow> None
        | Some (protocol', offset') \<Rightarrow>
            if length p < offset' then None else sched_ipv6_walk n p protocol' offset')
     else Some (protocol, offset))"

definition internet_transport :: "bytes \<Rightarrow> (byte \<times> nat) option" where
  "internet_transport p =
    (if version_nibble p = Some 4 then
       let header_len = unat (p ! 0 AND 0x0f) * 4
       in if 20 \<le> header_len \<and> header_len \<le> length p then Some (p ! 9, header_len) else None
     else if version_nibble p = Some 6 \<and> 40 \<le> length p then sched_ipv6_walk 8 p (p ! 6) 40
     else None)"

definition is_dns :: "bytes \<Rightarrow> byte \<Rightarrow> nat \<Rightarrow> bool" where
  "is_dns p transport offset =
    (if transport \<noteq> 6 \<and> transport \<noteq> 17 then False else
     case get_range p offset (usize_saturating_add offset 4) of None \<Rightarrow> False
     | Some ports \<Rightarrow> port_source ports = 53 \<or> port_destination ports = 53)"

definition is_tcp_control :: "bytes \<Rightarrow> nat \<Rightarrow> bool" where
  "is_tcp_control p offset =
    (case get_range p offset (usize_saturating_add offset 14) of None \<Rightarrow> False
     | Some header \<Rightarrow>
       let flags = header ! 13 in
       if flags AND (0x02 OR 0x01 OR 0x04) \<noteq> 0 then True
       else if flags AND 0x10 = 0 then False
       else let header_len = unat (drop_bit 4 (header ! 12)) * 4
            in 20 \<le> header_len \<and> length p \<le> usize_saturating_add offset header_len)"

definition packet_class :: "bytes \<Rightarrow> traffic_class" where
  "packet_class packet =
    (let p = frame_payload packet in
     case internet_transport p of None \<Rightarrow> size_class (length p)
     | Some (transport, offset) \<Rightarrow>
       if transport = 1 \<or> transport = 58 \<or> is_dns p transport offset then Small
       else if transport = 6 \<and> is_tcp_control p offset then Small
       else if transport = 17 then
         (case size_class (length p) of Bulk \<Rightarrow> Medium | c \<Rightarrow> c)
       else size_class (length p))"

definition keep_under_pressure :: "bytes \<Rightarrow> bool" where
  "keep_under_pressure packet =
    (let p = frame_payload packet in
     if packet_class p = Small then True
     else case internet_transport p of None \<Rightarrow> False | Some (protocol, offset) \<Rightarrow> protocol = 17)"

section \<open>Lemmas\<close>

lemma class_index_bound [simp]: "class_index c < 3"
  by (cases c) auto

lemma class_index_inj [simp]: "class_index a = class_index b \<longleftrightarrow> a = b"
  by (cases a; cases b) auto

lemma stream_chunk_pos [simp]: "0 < stream_chunk c"
  by (cases c) (auto simp: SMALL_STREAM_STRIPE_PACKET_CHUNK_def MEDIUM_STREAM_STRIPE_PACKET_CHUNK_def
      BULK_STREAM_STRIPE_PACKET_CHUNK_def)

text \<open>The two IPv6 walkers, written separately in the source, agree.\<close>

lemma walkers_agree: "sched_ipv6_walk n p pr off = fec_ipv6_walk n p pr off"
  by (induction n p pr off rule: sched_ipv6_walk.induct)
     (auto simp: is_ext_def split: option.splits prod.splits)

lemma frame_nibble: "decode_frame p \<noteq> None \<Longrightarrow> p ! 0 = 0x43 \<and> p \<noteq> []"
  by (auto simp: decode_frame_def FRAME_MAGIC_def FRAME_LEN_def split: if_splits)
     (metis nth_Cons_0 nth_take zero_less_numeral)

text \<open>A frame header starts with \<open>C\<close>, an IPv4 packet of 12 header bytes: no transport is found
  in a frame.\<close>

lemma frame_no_transport:
  assumes "decode_frame p \<noteq> None"
  shows "internet_transport p = None" "fec_ipv4_transport p = None" "version_nibble p = Some 4"
proof -
  have p: "p ! 0 = 0x43" "p \<noteq> []" using frame_nibble [OF assms] by auto
  show "version_nibble p = Some 4" by (simp add: version_nibble_def p)
  thus "internet_transport p = None" by (simp add: internet_transport_def p)
  show "fec_ipv4_transport p = None" by (simp add: fec_ipv4_transport_def p Let_def)
qed

lemma frame_payload_transport: "internet_transport p \<noteq> None \<Longrightarrow> frame_payload p = p"
  using frame_no_transport [of p] by (cases "decode_frame p") (auto simp: frame_payload_def)

text \<open>Where FEC finds a transport header, the scheduler finds the same one.\<close>

lemma fec_transport_agrees:
  assumes "length p \<le> usize_max"
    and "(version_nibble p = Some 4 \<and> fec_ipv4_transport p = Some t)
       \<or> (version_nibble p = Some 6 \<and> fec_ipv6_transport p = Some t)"
  obtains off where "internet_transport p = Some (tr_protocol t, off)" "off \<le> length p"
    "tr_bytes t = drop off p"
proof (cases "version_nibble p = Some 4")
  case True
  hence "fec_ipv4_transport p = Some t" using assms(2) by auto
  thus thesis using True that [of "unat (p ! 0 AND 0x0f) * 4"]
    by (auto simp: fec_ipv4_transport_def internet_transport_def Let_def split: if_splits)
next
  case False
  hence six: "version_nibble p = Some 6" "fec_ipv6_transport p = Some t" using assms(2) by auto
  then obtain pr off where w: "fec_ipv6_walk 8 p (p ! 6) 40 = Some (pr, off)" "40 \<le> length p"
    "get_from p off = Some (tr_bytes t)" "tr_protocol t = pr"
    by (auto simp: fec_ipv6_transport_def split: if_splits option.splits prod.splits)
  show thesis
    by (rule that [of off]) (use w six in \<open>auto simp: internet_transport_def walkers_agree get_from_def split: if_splits\<close>)
qed

lemma packet_class_transport:
  "internet_transport p = Some (tr, off) \<Longrightarrow> packet_class p =
     (if tr = 1 \<or> tr = 58 \<or> is_dns p tr off then Small
      else if tr = 6 \<and> is_tcp_control p off then Small
      else if tr = 17 then (case size_class (length p) of Bulk \<Rightarrow> Medium | c \<Rightarrow> c)
      else size_class (length p))"
  using frame_payload_transport [of p] by (simp add: packet_class_def Let_def)

lemma subslice_nth: "i < n \<Longrightarrow> off + n \<le> length p \<Longrightarrow> subslice p off (off + n) ! i = drop off p ! i"
  by (simp add: nth_subslice)

lemma dns_ports:
  assumes "off + 4 \<le> length p" "length p \<le> usize_max" "tr = 6 \<or> tr = 17"
  shows "is_dns p tr off \<longleftrightarrow> port_source (drop off p) = 53 \<or> port_destination (drop off p) = 53"
proof -
  have "usize_saturating_add off 4 = off + 4" using assms by (simp add: usize_saturating_add_def)
  thus ?thesis using assms subslice_nth [of _ 4 off p]
    by (auto simp: is_dns_def get_range_def port_source_def port_destination_def)
qed

lemma syn_is_control:
  assumes "off + 14 \<le> length p" "length p \<le> usize_max" "drop off p ! 13 AND 0x02 \<noteq> 0"
  shows "is_tcp_control p off"
proof -
  have "usize_saturating_add off 14 = off + 14" using assms by (simp add: usize_saturating_add_def)
  moreover have "subslice p off (off + 14) ! 13 = drop off p ! 13"
    using assms(1) by (intro subslice_nth) auto
  moreover have "w AND (0x02 OR 0x01 OR 0x04) \<noteq> 0" if "w AND 0x02 \<noteq> 0" for w :: byte
  proof
    assume z: "w AND (0x02 OR 0x01 OR 0x04) = 0"
    have "w AND 0x02 = w AND ((0x02 OR 0x01 OR 0x04) AND 0x02)" by simp
    also have "\<dots> = (w AND (0x02 OR 0x01 OR 0x04)) AND 0x02" by (rule and.assoc [symmetric])
    also have "\<dots> = 0" unfolding z by simp
    finally show False using that by simp
  qed
  ultimately show ?thesis using assms
    by (simp add: is_tcp_control_def get_range_def Let_def)
qed

section \<open>Properties\<close>

text \<open>The packets that get a second copy are packets the full queues keep: a packet that
  \<open>should_duplicate\<close> selects and that is not a control message is either of the Small class or
  UDP, for IPv4 and IPv6 with any extension headers, framed or not.\<close>

theorem duplicated_is_kept:
  assumes "should_duplicate packet" "\<not> is_control (frame_payload packet)" "length packet \<le> usize_max"
  shows "keep_under_pressure packet"
proof -
  let ?p = "frame_payload packet"
  have len: "length ?p \<le> usize_max"
    using assms(3) by (auto simp: frame_payload_def decode_frame_def split: option.splits if_splits)
  obtain t where t: "classify_transport t" "(version_nibble ?p = Some 4 \<and> fec_ipv4_transport ?p = Some t)
       \<or> (version_nibble ?p = Some 6 \<and> fec_ipv6_transport ?p = Some t)"
    using assms(1,2) by (auto simp: should_duplicate_def Let_def split: if_splits dest!: option_testD)
  obtain off where it: "internet_transport ?p = Some (tr_protocol t, off)" "off \<le> length ?p"
    "tr_bytes t = drop off ?p"
    using fec_transport_agrees [OF len t(2)] by blast
  have "tr_protocol t = 17 \<or> packet_class ?p = Small"
  proof (cases "tr_protocol t = 17")
    case False
    hence six: "tr_protocol t = 6" "off + 14 \<le> length ?p"
      "port_source (drop off ?p) = 53 \<or> port_destination (drop off ?p) = 53 \<or> drop off ?p ! 13 AND 0x02 \<noteq> 0"
      using t(1) it(2,3) by (auto simp: classify_transport_def split: if_splits)
    have "is_dns ?p 6 off \<or> is_tcp_control ?p off"
      using six dns_ports [of off ?p 6] syn_is_control [of off ?p] len by auto
    thus ?thesis using it(1) six(1) by (auto simp: packet_class_transport)
  qed simp
  thus ?thesis using it(1) by (auto simp: keep_under_pressure_def Let_def)
qed

text \<open>UDP is never of the Bulk class and always survives a full queue, and the class of a packet does not
  change when the dispatcher puts its frame header in front.\<close>

theorem udp_stays_off_bulk:
  assumes "internet_transport p = Some (17, off)"
  shows "packet_class p \<noteq> Bulk \<and> keep_under_pressure p
    \<and> packet_class (frame_bytes h @ p) = packet_class p
    \<and> keep_under_pressure (frame_bytes h @ p)
    \<and> should_duplicate (frame_bytes h @ p) = should_duplicate p"
proof -
  have p: "frame_payload p = p" using frame_payload_transport assms by simp
  have f: "frame_payload (frame_bytes h @ p) = p" by (simp add: frame_payload_def decode_frame_bytes)
  have "packet_class p \<noteq> Bulk"
    using assms by (auto simp: packet_class_transport split: traffic_class.splits)
  moreover have "keep_under_pressure p" using assms by (simp add: keep_under_pressure_def Let_def p)
  ultimately show ?thesis
    by (auto simp: packet_class_def should_duplicate_def keep_under_pressure_def p f)
qed

text \<open>An unfragmented IPv4 UDP datagram to port 443 with \<open>n\<close> payload bytes.\<close>

definition sample_udp :: "nat \<Rightarrow> bytes" where
  "sample_udp n = [0x45, 0, 0, 0, 0, 0, 0, 0, 64, 17, 0, 0, 10, 0, 0, 2, 1, 1, 1, 1,
     3, 232, 1, 187, 0, 0, 0, 0] @ replicate n 0"

lemma udp_stays_off_bulk_witness:
  "packet_class (sample_udp 1200) \<noteq> Bulk \<and> keep_under_pressure (sample_udp 1200)"
proof -
  have "internet_transport (sample_udp 1200) = Some (17, 20)"
    by (simp add: internet_transport_def version_nibble_def sample_udp_def)
  thus ?thesis using udp_stays_off_bulk by blast
qed

lemma duplicated_is_kept_witness:
  "should_duplicate (sample_udp 40) \<and> keep_under_pressure (sample_udp 40)"
proof -
  have p: "frame_payload (sample_udp 40) = sample_udp 40"
    by (simp add: frame_payload_def decode_frame_def sample_udp_def FRAME_MAGIC_def)
  have c: "\<not> is_control (sample_udp 40)"
    by (simp add: is_control_def starts_with_def ascii_def sample_udp_def)
  have d: "should_duplicate (sample_udp 40)"
    by (simp add: should_duplicate_def p c) (simp add: version_nibble_def fec_ipv4_transport_def
        sample_udp_def Let_def classify_transport_def MAX_SMALL_UDP_PAYLOAD_def u16_of_be_def be_nat_def
        port_source_def port_destination_def)
  moreover have "length (sample_udp 40) \<le> usize_max" by (simp add: sample_udp_def usize_max_def)
  ultimately show ?thesis using duplicated_is_kept [OF d] c p by simp
qed

end
