(* ===== verification/TurnDriver.thy ===== *)
theory TurnDriver
  imports TurnCore ChannelData StripedScheduler
begin

text \<open>
  The driver of \<open>turn.rs\<close>: the task that owns the TURN client core, moves its control packets to
  the socket, translates its events into the snapshot the rest of the engine watches, and sorts
  inbound packets into data and control. The socket and the tokio channels are library code: a
  send succeeds or fails as the argument \<open>io\<close> says, \<open>incoming\<close> is a list of capacity 256 with a
  closed flag. Between two calls of the model any operation of the core may run; within one call
  of \<open>pump_native\<close> the model runs the core without interleaving.
\<close>

section \<open>State\<close>

definition INCOMING_QUEUE_CAPACITY :: nat where "INCOMING_QUEUE_CAPACITY = PACKET_POOL_PER_WORKER"
definition PROTECTED_INCOMING :: nat where "PROTECTED_INCOMING = 32"
definition EVENT_DATA_REJECTED :: nat where "EVENT_DATA_REJECTED = 6"
definition METHOD_ALLOCATE :: nat where "METHOD_ALLOCATE = 3"
definition METHOD_REFRESH :: nat where "METHOD_REFRESH = 4"
definition METHOD_CREATE_PERMISSION :: nat where "METHOD_CREATE_PERMISSION = 8"
definition METHOD_CHANNEL_BIND :: nat where "METHOD_CHANNEL_BIND = 9"
definition CLEANUP_TIMEOUT :: nat where "CLEANUP_TIMEOUT = secs 35"
definition READY_CLEANUP_TIMEOUT :: nat where "READY_CLEANUP_TIMEOUT = secs 12"

text \<open>The terminal reasons, one constructor per message the source formats.\<close>

datatype fail_reason =
    RequestFailed nat int int
  | UnexpectedPeer socket_addr
  | InvalidChannel u16
  | ControlOverflow nat
  | ForceDestroyed
  | EventOverflow nat
  | UnknownEvent nat
  | RebindExhausted
  | EnteredDestroying
  | DriverFailed string

record completion =
  cp_sequence :: u64
  cp_status :: int
  cp_stun_code :: int

record core_snapshot =
  sn_state :: nat
  sn_relay :: "socket_addr option"
  sn_channel :: "u16 option"
  sn_allocate :: completion
  sn_refresh :: completion
  sn_permission :: completion
  sn_channel_bind :: completion
  sn_terminal :: "fail_reason option"

record driver_shared =
  sh_snapshot :: core_snapshot
  sh_closing :: bool
  sh_terminal_present :: bool
  sh_control_sent :: bool
  sh_channel :: u16
  sh_queue_full_drops :: u64
  sh_pool_deficit_drops :: u64
  sh_protected :: "packet_buf list"
  sh_incoming :: "packet_buf list"
  sh_incoming_closed :: bool

definition blank_completion :: completion where
  "blank_completion = \<lparr>cp_sequence = 0, cp_status = 0, cp_stun_code = 0\<rparr>"

definition blank_snapshot :: core_snapshot where
  "blank_snapshot = \<lparr>sn_state = 0, sn_relay = None, sn_channel = None, sn_allocate = blank_completion,
     sn_refresh = blank_completion, sn_permission = blank_completion, sn_channel_bind = blank_completion,
     sn_terminal = None\<rparr>"

definition new_shared :: driver_shared where
  "new_shared = \<lparr>sh_snapshot = blank_snapshot, sh_closing = False, sh_terminal_present = False,
     sh_control_sent = False, sh_channel = 0, sh_queue_full_drops = 0, sh_pool_deficit_drops = 0,
     sh_protected = [], sh_incoming = [], sh_incoming_closed = False\<rparr>"

definition completion_of :: "nat \<Rightarrow> core_snapshot \<Rightarrow> completion" where
  "completion_of mth sn = (if mth = METHOD_ALLOCATE then sn_allocate sn
     else if mth = METHOD_REFRESH then sn_refresh sn
     else if mth = METHOD_CREATE_PERMISSION then sn_permission sn
     else if mth = METHOD_CHANNEL_BIND then sn_channel_bind sn
     else sn_allocate sn)"

definition update_completion :: "nat \<Rightarrow> (completion \<Rightarrow> completion) \<Rightarrow> core_snapshot \<Rightarrow> core_snapshot" where
  "update_completion mth f sn = (if mth = METHOD_ALLOCATE then sn\<lparr>sn_allocate := f (sn_allocate sn)\<rparr>
     else if mth = METHOD_REFRESH then sn\<lparr>sn_refresh := f (sn_refresh sn)\<rparr>
     else if mth = METHOD_CREATE_PERMISSION then sn\<lparr>sn_permission := f (sn_permission sn)\<rparr>
     else if mth = METHOD_CHANNEL_BIND then sn\<lparr>sn_channel_bind := f (sn_channel_bind sn)\<rparr>
     else sn)"

section \<open>Failure and cleanup\<close>

definition driver_fail :: "fail_reason \<Rightarrow> driver_shared \<Rightarrow> driver_shared" where
  "driver_fail reason sh = (if sh_closing sh then sh
     else if sn_terminal (sh_snapshot sh) = None
       then sh\<lparr>sh_snapshot := (sh_snapshot sh)\<lparr>sn_terminal := Some reason\<rparr>, sh_terminal_present := True\<rparr>
     else sh)"

definition terminal :: "driver_shared \<Rightarrow> fail_reason option" where
  "terminal sh = (if sh_terminal_present sh then sn_terminal (sh_snapshot sh) else None)"

definition request_cleanup :: "driver_shared \<Rightarrow> driver_shared" where
  "request_cleanup sh = sh\<lparr>sh_closing := True, sh_channel := 0\<rparr>"

definition stash_protected :: "packet_buf \<Rightarrow> driver_shared \<Rightarrow> driver_shared" where
  "stash_protected b sh = sh\<lparr>sh_protected :=
     (if PROTECTED_INCOMING \<le> length (sh_protected sh) then tl (sh_protected sh) else sh_protected sh) @ [b]\<rparr>"

definition is_retryable_maintenance :: "nat \<Rightarrow> bool" where
  "is_retryable_maintenance mth \<longleftrightarrow> mth = METHOD_CREATE_PERMISSION \<or> mth = METHOD_CHANNEL_BIND \<or> mth = METHOD_REFRESH"

definition is_allocation_mismatch_stun :: "nat \<Rightarrow> int \<Rightarrow> bool" where
  "is_allocation_mismatch_stun mth code \<longleftrightarrow> code = 437 \<or> (mth = METHOD_CHANNEL_BIND \<and> code = 400)"

definition start_driver_cleanup :: "crypto \<Rightarrow> (operation \<Rightarrow> bytes) \<Rightarrow> nat \<Rightarrow> nat \<Rightarrow> nat option \<times> bool \<times> core
    \<Rightarrow> nat \<times> bool \<times> (nat option \<times> bool \<times> core)" where
  "start_driver_cleanup cr tx now state s = (case s of (cleanup_deadline, shutdown_requested, c) \<Rightarrow>
     (let proposed = now + (if state_code StReady \<le> state then READY_CLEANUP_TIMEOUT else CLEANUP_TIMEOUT);
          deadline = (case cleanup_deadline of None \<Rightarrow> proposed | Some d \<Rightarrow> min d proposed);
          c' = (if shutdown_requested then c else snd (graceful_shutdown cr tx now c))
      in (deadline, \<not> shutdown_requested, (Some deadline, True, c'))))"

definition observe_wake :: "nat \<Rightarrow> nat \<Rightarrow> nat \<Rightarrow> nat \<Rightarrow> core \<Rightarrow> bool \<times> nat \<times> core" where
  "observe_wake now current gap last_epoch c = (if current = last_epoch then (False, last_epoch, c)
     else (True, current, snd (resync_after_suspend now gap c)))"

section \<open>Events\<close>

definition state_event :: "native_event \<Rightarrow> driver_shared \<Rightarrow> driver_shared" where
  "state_event e sh =
    (let sh1 = (if ev_state e \<noteq> state_code StReady then sh\<lparr>sh_channel := 0\<rparr> else sh);
         sn = (sh_snapshot sh1)\<lparr>sn_state := ev_state e\<rparr>;
         sn1 = (if ev_state e \<noteq> state_code StReady then sn\<lparr>sn_channel := None\<rparr> else sn);
         sn2 = (if state_code StDeallocated \<le> ev_state e then sn1\<lparr>sn_relay := None\<rparr> else sn1)
     in sh1\<lparr>sh_snapshot := sn2\<rparr>)"

definition complete_event :: "native_event \<Rightarrow> driver_shared \<Rightarrow> driver_shared" where
  "complete_event e sh =
    (let sh1 = sh\<lparr>sh_snapshot := update_completion (ev_method e)
           (\<lambda>cp. \<lparr>cp_sequence = cp_sequence cp + 1, cp_status = ev_status e, cp_stun_code = ev_stun_code e\<rparr>)
           (sh_snapshot sh)\<rparr>
     in if (ev_status e \<noteq> 0 \<or> ev_stun_code e \<noteq> 0) \<and> \<not> sh_closing sh1
           \<and> (\<not> is_retryable_maintenance (ev_method e) \<or> is_allocation_mismatch_stun (ev_method e) (ev_stun_code e))
        then driver_fail (RequestFailed (ev_method e) (ev_status e) (ev_stun_code e)) sh1 else sh1)"

definition response_error_event :: "native_event \<Rightarrow> driver_shared \<Rightarrow> driver_shared" where
  "response_error_event e sh =
    (if \<not> sh_closing sh \<and> is_allocation_mismatch_stun (ev_method e) (ev_stun_code e)
     then driver_fail (RequestFailed (ev_method e) (ev_status e) (ev_stun_code e)) sh else sh)"

text \<open>\<open>None\<close> where the source returns an error.\<close>

definition channel_event :: "socket_addr \<Rightarrow> native_event \<Rightarrow> driver_shared \<Rightarrow> driver_shared option" where
  "channel_event peer e sh = (case to_socket_addr (ev_address e) of None \<Rightarrow> None
     | Some p \<Rightarrow> Some (if p \<noteq> peer then driver_fail (UnexpectedPeer p) sh
         else if \<not> valid_channel (ev_channel e) then driver_fail (InvalidChannel (ev_channel e)) sh
         else sh\<lparr>sh_channel := ev_channel e, sh_snapshot := (sh_snapshot sh)\<lparr>sn_channel := Some (ev_channel e)\<rparr>\<rparr>))"

definition relay_event :: "core \<Rightarrow> native_event \<Rightarrow> driver_shared \<Rightarrow> driver_shared option" where
  "relay_event c e sh = (case to_socket_addr (ev_address e) of None \<Rightarrow> None
     | Some relay \<Rightarrow> if c_relay c = Some relay
         then Some (sh\<lparr>sh_snapshot := (sh_snapshot sh)\<lparr>sn_relay := Some relay\<rparr>\<rparr>) else None)"

record pump_flags =
  pf_unexpected_destroy :: bool
  pf_rebind_exhausted :: bool

definition handle_event :: "socket_addr \<Rightarrow> core \<Rightarrow> native_event \<Rightarrow> driver_shared \<times> pump_flags
    \<Rightarrow> (driver_shared \<times> pump_flags) option" where
  "handle_event peer c e s = (case s of (sh, fl) \<Rightarrow>
     if ev_kind e = EVENT_STATE then
       (let sh1 = state_event e sh
        in Some (sh1, if ev_state e = state_code StDestroying \<and> \<not> sh_closing sh1
                      then fl\<lparr>pf_unexpected_destroy := True\<rparr> else fl))
     else if ev_kind e = EVENT_REQUEST_COMPLETE then Some (complete_event e sh, fl)
     else if ev_kind e = EVENT_STUN_RESPONSE_ERROR then Some (response_error_event e sh, fl)
     else if ev_kind e = EVENT_CHANNEL_BOUND then map_option (\<lambda>sh'. (sh', fl)) (channel_event peer e sh)
     else if ev_kind e = EVENT_RELAY_ADDRESS then map_option (\<lambda>sh'. (sh', fl)) (relay_event c e sh)
     else if ev_kind e = EVENT_CONTROL_OVERFLOW then Some (driver_fail (ControlOverflow (ev_dropped e)) sh, fl)
     else if ev_kind e = EVENT_DATA_REJECTED then Some (sh, fl)
     else if ev_kind e = EVENT_FORCED_DESTROY then
       Some (if sh_closing sh then sh else driver_fail ForceDestroyed sh, fl)
     else if ev_kind e = EVENT_CHANNEL_REBIND_EXHAUSTED then Some (sh, fl\<lparr>pf_rebind_exhausted := True\<rparr>)
     else if ev_kind e = EVENT_EVENT_OVERFLOW then Some (driver_fail (EventOverflow (ev_dropped e)) sh, fl)
     else Some (driver_fail (UnknownEvent (ev_kind e)) sh, fl))"

text \<open>The loop over \<open>pull_event\<close>: on an error the events still queued stay queued.\<close>

function drain_events :: "socket_addr \<Rightarrow> core \<Rightarrow> driver_shared \<times> pump_flags
    \<Rightarrow> bool \<times> core \<times> driver_shared \<times> pump_flags" where
  "drain_events peer c s = (case pull_event c of (None, c1) \<Rightarrow> (True, c1, s)
     | (Some e, c1) \<Rightarrow> (case handle_event peer c1 e s of None \<Rightarrow> (False, c1, s)
         | Some s1 \<Rightarrow> drain_events peer c1 s1))"
  by pat_completeness auto
termination
  by (relation "measure (\<lambda>(peer, c, s). length (c_events c))") (auto simp: pull_event_def split: list.splits)

declare drain_events.simps [simp del]

text \<open>The loop over \<open>pull_control\<close>; \<open>io n\<close> tells whether the \<open>n\<close>-th send of the driver succeeds.\<close>

function drain_controls :: "(nat \<Rightarrow> bool) \<Rightarrow> socket_addr \<Rightarrow> core \<Rightarrow> bytes list \<Rightarrow> driver_shared
    \<Rightarrow> bool \<times> core \<times> bytes list \<times> driver_shared" where
  "drain_controls io server c sent sh = (case pull_control c of
      (Inl u, c1) \<Rightarrow> (False, c1, sent, sh)
    | (Inr None, c1) \<Rightarrow> (True, c1, sent, sh)
    | (Inr (Some (wire, destination)), c1) \<Rightarrow>
        if destination \<noteq> server then (False, c1, sent, sh)
        else if \<not> io (length sent) then (False, c1, sent, sh)
        else drain_controls io server c1 (sent @ [wire]) (sh\<lparr>sh_control_sent := True\<rparr>))"
  by pat_completeness auto
termination
  by (relation "measure (\<lambda>(io, server, c, sent, sh). length (c_controls c))")
     (auto simp: pull_control_def split: list.splits if_splits)

declare drain_controls.simps [simp del]

definition finish_pump :: "driver_shared \<times> pump_flags \<Rightarrow> driver_shared" where
  "finish_pump s = (case s of (sh, fl) \<Rightarrow>
     if pf_unexpected_destroy fl \<and> terminal sh = None
     then driver_fail (if pf_rebind_exhausted fl then RebindExhausted else EnteredDestroying) sh else sh)"

definition no_flags :: pump_flags where
  "no_flags = \<lparr>pf_unexpected_destroy = False, pf_rebind_exhausted = False\<rparr>"

definition pump_native :: "crypto \<Rightarrow> (operation \<Rightarrow> bytes) \<Rightarrow> nat \<Rightarrow> (nat \<Rightarrow> bool) \<Rightarrow> socket_addr \<Rightarrow> socket_addr
    \<Rightarrow> core \<times> bytes list \<times> driver_shared \<Rightarrow> (unit + nat option) \<times> core \<times> bytes list \<times> driver_shared" where
  "pump_native cr tx now io server peer s = (case s of (c, sent, sh) \<Rightarrow>
     case poll cr tx now c of
       (Inl u, c1) \<Rightarrow> (Inl (), c1, sent, sh)
     | (Inr next_timer, c1) \<Rightarrow>
         (case drain_controls io server c1 sent sh of
            (False, c2, sent', sh1) \<Rightarrow> (Inl (), c2, sent', sh1)
          | (True, c2, sent', sh1) \<Rightarrow>
              (case drain_events peer c2 (sh1, no_flags) of
                 (False, c3, s3) \<Rightarrow> (Inl (), c3, sent', fst s3)
               | (True, c3, s3) \<Rightarrow> (Inr next_timer, c3, sent', finish_pump s3))))"

section \<open>Inbound packets\<close>

datatype packet_action = Wait | Pump | OwnerClosed

text \<open>\<open>try_send\<close> on the incoming channel fails on a closed or a full channel.\<close>

definition deliver_packet :: "packet_buf \<Rightarrow> driver_shared \<Rightarrow> packet_action \<times> driver_shared" where
  "deliver_packet b sh = (if sh_incoming_closed sh then (OwnerClosed, sh)
     else if length (sh_incoming sh) < INCOMING_QUEUE_CAPACITY
       then (Wait, sh\<lparr>sh_incoming := sh_incoming sh @ [b]\<rparr>)
     else if keep_under_pressure (as_slice b) then (Wait, stash_protected b sh)
     else (Wait, sh\<lparr>sh_queue_full_drops := sh_queue_full_drops sh + 1\<rparr>))"

definition process_packet :: "crypto \<Rightarrow> (operation \<Rightarrow> bytes) \<Rightarrow> nat \<Rightarrow> packet_buf \<Rightarrow> core \<times> driver_shared
    \<Rightarrow> packet_action \<times> core \<times> driver_shared" where
  "process_packet cr tx now b s = (case s of (c, sh) \<Rightarrow>
     case channel_data_header (as_slice b) of
       Some (channel, payload_length) \<Rightarrow>
         if channel \<noteq> sh_channel sh then (Wait, c, sh)
         else (case trim_front 4 b of Inl e \<Rightarrow> (Wait, c, sh)
           | Inr b1 \<Rightarrow> (case truncate_buf payload_length b1 of Inl e \<Rightarrow> (Wait, c, sh)
             | Inr b2 \<Rightarrow> (case deliver_packet b2 sh of (a, sh') \<Rightarrow> (a, c, sh'))))
     | None \<Rightarrow> if is_stun (as_slice b) then (Pump, snd (input_stun cr tx now (as_slice b) c), sh) else (Wait, c, sh))"

definition process_deficit_packet :: "crypto \<Rightarrow> (operation \<Rightarrow> bytes) \<Rightarrow> nat \<Rightarrow> bytes \<Rightarrow> core \<times> driver_shared
    \<Rightarrow> packet_action \<times> core \<times> driver_shared" where
  "process_deficit_packet cr tx now wire s = (case s of (c, sh) \<Rightarrow>
     case channel_data_header wire of
       Some (channel, payload_length) \<Rightarrow>
         (Wait, c, if channel = sh_channel sh then sh\<lparr>sh_pool_deficit_drops := sh_pool_deficit_drops sh + 1\<rparr> else sh)
     | None \<Rightarrow> if is_stun wire then (Pump, snd (input_stun cr tx now wire c), sh) else (Wait, c, sh))"

text \<open>\<open>TurnReceiver::recv\<close>: what it returns now, if anything.\<close>

datatype recv_result = RecvFailed "fail_reason option" | RecvPacket packet_buf | RecvPending

definition receiver_poll :: "driver_shared \<Rightarrow> recv_result \<times> driver_shared" where
  "receiver_poll sh = (case terminal sh of Some r \<Rightarrow> (RecvFailed (Some r), sh)
     | None \<Rightarrow> (case sh_protected sh of b # bs \<Rightarrow> (RecvPacket b, sh\<lparr>sh_protected := bs\<rparr>)
       | [] \<Rightarrow> (case sh_incoming sh of b # bs \<Rightarrow> (RecvPacket b, sh\<lparr>sh_incoming := bs\<rparr>)
         | [] \<Rightarrow> if sh_incoming_closed sh then (RecvFailed None, sh) else (RecvPending, sh))))"

section \<open>Outbound data\<close>

datatype send_error = SendClosing | SendTerminal fail_reason | SendUnbound | SendEncoding channel_error

definition ensure_open :: "driver_shared \<Rightarrow> send_error option" where
  "ensure_open sh = (if sh_closing sh then Some SendClosing
     else case terminal sh of Some r \<Rightarrow> Some (SendTerminal r) | None \<Rightarrow> None)"

definition prepare_single :: "packet_buf \<Rightarrow> driver_shared \<Rightarrow> send_error + packet_buf" where
  "prepare_single b sh = (case ensure_open sh of Some e \<Rightarrow> Inl e
     | None \<Rightarrow> if sh_channel sh = 0 then Inl SendUnbound
       else case encode_channel_data (sh_channel sh) b of Inl e \<Rightarrow> Inl (SendEncoding e) | Inr b' \<Rightarrow> Inr b')"

fun validate_all :: "u16 \<Rightarrow> packet_buf list \<Rightarrow> channel_error option" where
  "validate_all ch [] = None"
| "validate_all ch (b # bs) = (case channel_data_padding b ch of Inl e \<Rightarrow> Some e | Inr k \<Rightarrow> validate_all ch bs)"

fun encode_all :: "u16 \<Rightarrow> packet_buf list \<Rightarrow> channel_error + packet_buf list" where
  "encode_all ch [] = Inr []"
| "encode_all ch (b # bs) = (case encode_channel_data ch b of Inl e \<Rightarrow> Inl e
     | Inr b' \<Rightarrow> (case encode_all ch bs of Inl e \<Rightarrow> Inl e | Inr bs' \<Rightarrow> Inr (b' # bs')))"

definition prepare_batch :: "packet_buf list \<Rightarrow> driver_shared \<Rightarrow> send_error + packet_buf list" where
  "prepare_batch bs sh = (if bs = [] then Inr [] else case ensure_open sh of Some e \<Rightarrow> Inl e
     | None \<Rightarrow> if sh_channel sh = 0 then Inl SendUnbound
       else case validate_all (sh_channel sh) bs of Some e \<Rightarrow> Inl (SendEncoding e)
       | None \<Rightarrow> (case encode_all (sh_channel sh) bs of Inl e \<Rightarrow> Inl (SendEncoding e) | Inr bs' \<Rightarrow> Inr bs'))"

text \<open>\<open>wait_for_completion\<close> looks at one snapshot: done, failed, or not yet.\<close>

datatype wait_result = WaitOk | WaitRequestError nat int int | WaitTerminal fail_reason | WaitMore

definition check_completion :: "nat \<Rightarrow> u64 \<Rightarrow> core_snapshot \<Rightarrow> wait_result" where
  "check_completion mth baseline sn =
    (let cp = completion_of mth sn in
     if baseline < cp_sequence cp then
       (if cp_status cp = 0 \<and> cp_stun_code cp = 0 then WaitOk
        else WaitRequestError mth (cp_status cp) (cp_stun_code cp))
     else case sn_terminal sn of Some r \<Rightarrow> WaitTerminal r | None \<Rightarrow> WaitMore)"

section \<open>Steps of the driver\<close>

datatype driver_call =
    DrPump | DrPacket packet_buf | DrDeficit bytes | DrFail fail_reason | DrCleanup | DrReceive
  | DrOwnerGone | DrCore core_call

record driver_event =
  de_call :: driver_call
  de_now :: nat
  de_tx :: "operation \<Rightarrow> bytes"
  de_io :: "nat \<Rightarrow> bool"

type_synonym driver = "core \<times> bytes list \<times> driver_shared"

definition driver_step :: "crypto \<Rightarrow> socket_addr \<Rightarrow> socket_addr \<Rightarrow> driver_event \<Rightarrow> driver \<Rightarrow> driver" where
  "driver_step cr server peer e s = (case s of (c, sent, sh) \<Rightarrow> (case de_call e of
     DrPump \<Rightarrow> snd (pump_native cr (de_tx e) (de_now e) (de_io e) server peer (c, sent, sh))
   | DrPacket b \<Rightarrow> (case process_packet cr (de_tx e) (de_now e) b (c, sh) of (a, c', sh') \<Rightarrow> (c', sent, sh'))
   | DrDeficit w \<Rightarrow> (case process_deficit_packet cr (de_tx e) (de_now e) w (c, sh) of (a, c', sh') \<Rightarrow> (c', sent, sh'))
   | DrFail r \<Rightarrow> (c, sent, driver_fail r sh)
   | DrCleanup \<Rightarrow> (c, sent, request_cleanup sh)
   | DrReceive \<Rightarrow> (c, sent, snd (receiver_poll sh))
   | DrOwnerGone \<Rightarrow> (c, sent, sh\<lparr>sh_incoming_closed := True\<rparr>)
   | DrCore call \<Rightarrow> (core_step cr \<lparr>ce_call = call, ce_now = de_now e, ce_tx = de_tx e\<rparr> c, sent, sh)))"

section \<open>Invariant and persistence\<close>

definition shared_inv :: "driver_shared \<Rightarrow> bool" where
  "shared_inv sh \<longleftrightarrow> sh_terminal_present sh = (sn_terminal (sh_snapshot sh) \<noteq> None)
     \<and> length (sh_protected sh) \<le> PROTECTED_INCOMING \<and> length (sh_incoming sh) \<le> INCOMING_QUEUE_CAPACITY
     \<and> (sh_channel sh = 0 \<or> valid_channel (sh_channel sh) \<and> sn_channel (sh_snapshot sh) = Some (sh_channel sh))
     \<and> (sh_closing sh \<or> sn_channel (sh_snapshot sh) = None \<or> sh_channel sh \<noteq> 0)"

text \<open>What a step may never undo.\<close>

definition persists :: "driver_shared \<Rightarrow> driver_shared \<Rightarrow> bool" where
  "persists sh sh' \<longleftrightarrow> (sh_closing sh \<longrightarrow> sh_closing sh') \<and> (sh_control_sent sh \<longrightarrow> sh_control_sent sh')
     \<and> (\<forall>r. sn_terminal (sh_snapshot sh) = Some r \<longrightarrow> sn_terminal (sh_snapshot sh') = Some r)"

end
