(* ===== verification/TurnCoreInv.thy ===== *)
theory TurnCoreInv
  imports TurnCore BoundedQueue
begin

text \<open>
  What the TURN client of TurnCore keeps true: bounded queues, at most one request per operation,
  each in the state it belongs to, retransmission parameters that follow the RTO ladder, and an
  allocation that is complete whenever the state is READY.
\<close>

section \<open>Bounded rings\<close>

text \<open>A ring drops its oldest entry when full; it never exceeds its capacity.\<close>

locale drop_oldest =
  fixes push :: "'e \<Rightarrow> 'e list \<Rightarrow> 'e list" and cap :: nat
  assumes push_len: "length xs \<le> cap \<Longrightarrow> length (push x xs) \<le> cap"
    and push_keeps: "length xs < cap \<Longrightarrow> push x xs = xs @ [x]"
begin

lemma push_all_len: "length xs \<le> cap \<Longrightarrow> length (foldl (\<lambda>acc x. push x acc) xs ys) \<le> cap"
  by (induction ys arbitrary: xs) (auto intro: push_len)

lemma push_all_keeps: "length xs + length ys \<le> cap \<Longrightarrow> foldl (\<lambda>acc x. push x acc) xs ys = xs @ ys"
  by (induction ys arbitrary: xs) (auto simp: push_keeps)

end

interpretation ering: drop_oldest event_ring EVENT_CAPACITY
  by unfold_locales (auto simp: event_ring_def EVENT_CAPACITY_def)

section \<open>The invariant\<close>

text \<open>The state an operation belongs to.\<close>

fun home :: "operation \<Rightarrow> turn_state" where
  "home Allocate = StAllocating"
| "home Deallocate = StDeallocating"
| "home Refresh = StReady"
| "home Permission = StReady"
| "home Channel = StReady"

definition rto_at :: "nat \<Rightarrow> nat" where
  "rto_at transmissions = min (INITIAL_RTO * 2 ^ (transmissions - 1)) MAX_RTO"

definition request_ok :: "core \<Rightarrow> request \<Rightarrow> bool" where
  "request_ok c p \<longleftrightarrow> c_state c = home (rq_operation p)
     \<and> 1 \<le> rq_transmissions p \<and> rq_transmissions p \<le> MAX_TRANSMISSIONS
     \<and> rq_rto p = rto_at (rq_transmissions p)
     \<and> rq_nonce_retries p \<le> tp_max_nonce_retries (c_profile c)
     \<and> (rq_authenticated p \<longrightarrow> auth_ready c)
     \<and> (rq_operation p \<noteq> Allocate \<longrightarrow> rq_authenticated p)"

definition queues_ok :: "core \<Rightarrow> bool" where
  "queues_ok c \<longleftrightarrow> length (c_controls c) \<le> CONTROL_CAPACITY \<and> length (c_events c) \<le> EVENT_CAPACITY"

definition pending_ok :: "core \<Rightarrow> bool" where
  "pending_ok c \<longleftrightarrow> distinct (map rq_operation (c_pending c)) \<and> (\<forall>p\<in>set (c_pending c). request_ok c p)"

definition state_ok :: "core \<Rightarrow> bool" where
  "state_ok c \<longleftrightarrow>
     (c_state c = StReady \<longrightarrow> c_relay c \<noteq> None \<and> c_allocation_expires_at c \<noteq> None \<and> auth_ready c
        \<and> \<not> c_shutting_down c)
   \<and> (c_channel c \<noteq> None \<longrightarrow> c_state c = StReady \<or> c_destroyed c)
   \<and> (c_destroyed c \<longrightarrow> c_state c = StDestroying \<and> c_pending c = [] \<and> c_controls c = [])"

definition core_inv :: "core \<Rightarrow> bool" where
  "core_inv c \<longleftrightarrow> queues_ok c \<and> pending_ok c \<and> state_ok c"

lemma core_inv_create [inv_intros]: "create_core s u pw peer pr tr = Some c \<Longrightarrow> core_inv c"
  by (auto simp: create_core_def core_inv_def queues_ok_def pending_ok_def state_ok_def split: if_splits)

section \<open>Queue operations\<close>

text \<open>The fields that the queue operations leave alone.\<close>

lemma queue_packet_fields [simp]:
  "c_state (queue_packet p c) = c_state c" "c_profile (queue_packet p c) = c_profile c"
  "auth_ready (queue_packet p c) = auth_ready c" "c_destroyed (queue_packet p c) = c_destroyed c"
  "c_shutting_down (queue_packet p c) = c_shutting_down c" "c_transport (queue_packet p c) = c_transport c"
  "c_channel (queue_packet p c) = c_channel c" "c_relay (queue_packet p c) = c_relay c"
  "c_allocation_expires_at (queue_packet p c) = c_allocation_expires_at c"
  by (simp_all add: queue_packet_def Let_def push_event_def auth_ready_def)

lemma push_event_fields [simp]:
  "c_state (push_event e c) = c_state c" "c_profile (push_event e c) = c_profile c"
  "auth_ready (push_event e c) = auth_ready c" "c_destroyed (push_event e c) = c_destroyed c"
  "c_shutting_down (push_event e c) = c_shutting_down c" "c_transport (push_event e c) = c_transport c"
  "c_channel (push_event e c) = c_channel c" "c_relay (push_event e c) = c_relay c"
  "c_allocation_expires_at (push_event e c) = c_allocation_expires_at c"
  "c_controls (push_event e c) = c_controls c"
  by (simp_all add: push_event_def auth_ready_def)

lemma complete_fields [simp]:
  "c_state (complete op s k c) = c_state c" "c_destroyed (complete op s k c) = c_destroyed c"
  "c_shutting_down (complete op s k c) = c_shutting_down c" "auth_ready (complete op s k c) = auth_ready c"
  "c_allocation_expires_at (complete op s k c) = c_allocation_expires_at c"
  by (simp_all add: complete_def)

lemma set_state_fields [simp]:
  "c_state (set_state st c) = st" "c_destroyed (set_state st c) = c_destroyed c"
  "c_shutting_down (set_state st c) = c_shutting_down c" "auth_ready (set_state st c) = auth_ready c"
  "c_profile (set_state st c) = c_profile c"
  by (auto simp: set_state_def push_event_def auth_ready_def)

lemma remove_queued_fields [simp]:
  "c_state (remove_queued_transaction t c) = c_state c"
  "c_destroyed (remove_queued_transaction t c) = c_destroyed c"
  "c_shutting_down (remove_queued_transaction t c) = c_shutting_down c"
  "auth_ready (remove_queued_transaction t c) = auth_ready c"
  "c_profile (remove_queued_transaction t c) = c_profile c"
  by (simp_all add: remove_queued_transaction_def auth_ready_def)

lemma request_ok_cong:
  "c_state c' = c_state c \<Longrightarrow> c_profile c' = c_profile c \<Longrightarrow> auth_ready c' = auth_ready c
   \<Longrightarrow> request_ok c' = request_ok c"
  by (rule ext) (simp add: request_ok_def)

lemma core_inv_cong:
  assumes "core_inv c" "c_state c' = c_state c" "c_profile c' = c_profile c" "auth_ready c' = auth_ready c"
    "c_shutting_down c' = c_shutting_down c" "c_destroyed c' = c_destroyed c" "c_channel c' = c_channel c"
    "c_relay c' = c_relay c" "c_allocation_expires_at c' = c_allocation_expires_at c"
    "c_pending c' = c_pending c" "queues_ok c'" "c_destroyed c \<Longrightarrow> c_controls c' = []"
  shows "core_inv c'"
  using assms(1,11,12) unfolding core_inv_def pending_ok_def state_ok_def
  by (simp add: assms(2-10) request_ok_cong [OF assms(2-4)])

lemma event_ring_len: "length evs \<le> EVENT_CAPACITY \<Longrightarrow> length (event_ring e evs) \<le> EVENT_CAPACITY"
  by (rule ering.push_len)

lemma push_event_queues: "queues_ok c \<Longrightarrow> queues_ok (push_event e c)"
  by (simp add: queues_ok_def push_event_def event_ring_len)

lemma push_event_inv [inv_intros]:
  assumes "core_inv c"
  shows "core_inv (push_event e c)"
  by (rule core_inv_cong [OF assms]) (use assms in \<open>auto simp: core_inv_def push_event_queues state_ok_def\<close>)

lemma complete_inv [inv_intros]: "core_inv c \<Longrightarrow> core_inv (complete op s k c)"
  unfolding complete_def by (rule push_event_inv)

lemma response_error_inv [inv_intros]: "core_inv c \<Longrightarrow> core_inv (response_error m s k c)"
  unfolding response_error_def by (rule push_event_inv)

lemma queue_packet_queues: "queues_ok c \<Longrightarrow> queues_ok (queue_packet p c)"
  by (auto simp: queues_ok_def queue_packet_def Let_def push_event_def event_ring_len CONTROL_CAPACITY_def)

lemma queue_packet_inv [inv_intros]:
  assumes "core_inv c" "\<not> c_destroyed c"
  shows "core_inv (queue_packet p c)"
  by (rule core_inv_cong [OF assms(1)]) (use assms in \<open>auto simp: core_inv_def queue_packet_queues\<close>)

lemma remove_queued_inv [inv_intros]:
  assumes "core_inv c"
  shows "core_inv (remove_queued_transaction t c)"
  by (rule core_inv_cong [OF assms])
     (use assms in \<open>auto simp: core_inv_def queues_ok_def remove_queued_transaction_def auth_ready_def state_ok_def
       intro: order.trans [OF length_filter_le]\<close>)

lemma remove_pending_inv [inv_intros]:
  assumes "core_inv c"
  shows "core_inv (c\<lparr>c_pending := remove_at i (c_pending c)\<rparr>)"
proof -
  have "request_ok (c\<lparr>c_pending := remove_at i (c_pending c)\<rparr>) = request_ok c"
    by (rule request_ok_cong) (simp_all add: auth_ready_def)
  thus ?thesis using assms set_remove_at [of i "c_pending c"]
    by (auto simp: core_inv_def queues_ok_def pending_ok_def state_ok_def auth_ready_def
        map_remove_at distinct_remove_at)
qed

section \<open>Starting requests\<close>

lemma add_request_inv:
  assumes "core_inv c" "INITIAL_RTO \<le> MAX_RTO" "\<not> c_destroyed c" "request_ok c p"
    "rq_operation p \<notin> rq_operation ` set (c_pending c)" "c_pending c = ps"
    "c' = c\<lparr>c_pending := ps @ [p]\<rparr>"
  shows "core_inv c'"
proof -
  have "request_ok c' = request_ok c" unfolding assms(7) by (rule request_ok_cong) (simp_all add: auth_ready_def)
  thus ?thesis using assms
    by (auto simp: core_inv_def queues_ok_def pending_ok_def state_ok_def auth_ready_def)
qed

lemma start_operation_inv [inv_intros]:
  assumes "core_inv c" "\<not> c_destroyed c" "c_state c = home op" "n \<le> tp_max_nonce_retries (c_profile c)"
    "op \<noteq> Allocate \<longrightarrow> auth" "start_operation cr tx now op auth n c = Some c'"
  shows "core_inv c'"
proof (cases "has_operation op c")
  case True
  thus ?thesis using assms
    by (auto simp: start_operation_def queue_packet_inv split: option.splits if_splits)
next
  case False
  obtain p where p: "c' = (queue_packet p c)\<lparr>c_pending := c_pending c @
      [\<lparr>rq_operation = op, rq_transaction = tx op, rq_packet = p,
        rq_next_attempt = now + transaction_timeout (queue_packet p c), rq_rto = INITIAL_RTO,
        rq_transmissions = 1, rq_nonce_retries = n, rq_authenticated = auth\<rparr>]\<rparr>"
    "auth \<longrightarrow> auth_ready c"
    using assms(6) False by (auto simp: start_operation_def Let_def split: if_splits option.splits)
  have "core_inv (queue_packet p c)" using assms(1,2) by (rule queue_packet_inv)
  moreover have "INITIAL_RTO \<le> MAX_RTO" by (simp add: INITIAL_RTO_def MAX_RTO_def msec_def)
  ultimately show ?thesis
    by (rule add_request_inv) (use assms(2-5) False p \<open>INITIAL_RTO \<le> MAX_RTO\<close> in
        \<open>auto simp: has_operation_def request_ok_def rto_at_def MAX_TRANSMISSIONS_def\<close>)
qed

lemma start_operation_state:
  "start_operation cr tx now op auth n c = Some c' \<Longrightarrow> c_state c' = c_state c \<and> c_destroyed c' = c_destroyed c
     \<and> c_shutting_down c' = c_shutting_down c \<and> auth_ready c' = auth_ready c \<and> c_profile c' = c_profile c"
  by (auto simp: start_operation_def Let_def auth_ready_def queue_packet_def push_event_def
      split: if_splits option.splits)

section \<open>Teardown and retries\<close>

lemma set_state_cleared [inv_intros]:
  assumes "queues_ok c" "c_pending c = []" "c_channel c = None" "\<not> c_destroyed c" "st \<noteq> StReady"
  shows "core_inv (set_state st c)"
  using assms push_event_queues [of "c\<lparr>c_state := st\<rparr>"]
  by (auto simp: set_state_def core_inv_def pending_ok_def state_ok_def) (simp_all add: queues_ok_def)

lemma destroy_allocation_inv [inv_intros]:
  assumes "core_inv c" "\<not> c_destroyed c"
  shows "core_inv (destroy_allocation op s k c)"
proof -
  have "queues_ok (complete op s k c)" using complete_inv [OF assms(1)] by (simp add: core_inv_def)
  hence "length (c_events (complete op s k c)) \<le> EVENT_CAPACITY" by (simp add: queues_ok_def)
  thus ?thesis using assms(2) unfolding destroy_allocation_def Let_def
    by (auto intro!: set_state_cleared simp: queues_ok_def)
qed

lemma destroy_exhausted_inv [inv_intros]:
  assumes "core_inv c" "\<not> c_destroyed c"
  shows "core_inv (destroy_after_channel_rebind_exhausted c)"
  using assms unfolding destroy_after_channel_rebind_exhausted_def
  by (intro set_state_cleared push_event_queues) (auto simp: core_inv_def queues_ok_def)

lemma schedule_retry_inv [inv_intros]:
  "core_inv c \<Longrightarrow> core_inv (snd (schedule_maintenance_retry op now c))"
  by (cases op) (auto simp: schedule_maintenance_retry_def Let_def core_inv_def queues_ok_def pending_ok_def
      state_ok_def request_ok_def auth_ready_def)

lemma schedule_retry_fields:
  "schedule_maintenance_retry op now c = (b, c') \<Longrightarrow> c_state c' = c_state c \<and> c_destroyed c' = c_destroyed c
    \<and> c_shutting_down c' = c_shutting_down c \<and> auth_ready c' = auth_ready c"
  by (cases op) (auto simp: schedule_maintenance_retry_def Let_def auth_ready_def split: if_splits)

lemma complete_failure_inv [inv_intros]:
  assumes "core_inv c" "\<not> c_destroyed c"
  shows "core_inv (complete_failure op s k now c)"
proof -
  obtain b c1 where r: "schedule_maintenance_retry op now (complete op s k c) = (b, c1)" by force
  have "core_inv c1" using schedule_retry_inv [OF complete_inv [OF assms(1)], of op now op s k] r by simp
  moreover have "\<not> c_destroyed c1" using schedule_retry_fields [OF r] assms(2) by simp
  ultimately show ?thesis
    using assms destroy_allocation_inv destroy_exhausted_inv by (simp add: complete_failure_def r)
qed

lemma destroy_allocation_fields [simp]:
  "c_destroyed (destroy_allocation op s k c) = c_destroyed c"
  "c_shutting_down (destroy_allocation op s k c) = c_shutting_down c"
  "c_state (destroy_allocation op s k c) = (if op = Deallocate then StDeallocated else StDestroying)"
  by (auto simp: destroy_allocation_def Let_def)

lemma destroy_exhausted_fields [simp]:
  "c_destroyed (destroy_after_channel_rebind_exhausted c) = c_destroyed c"
  "c_shutting_down (destroy_after_channel_rebind_exhausted c) = c_shutting_down c"
  "c_state (destroy_after_channel_rebind_exhausted c) = StDestroying"
  by (simp_all add: destroy_after_channel_rebind_exhausted_def)

lemma complete_failure_destroyed [simp]:
  "c_destroyed (complete_failure op s k now c) = c_destroyed c"
proof -
  obtain b c1 where r: "schedule_maintenance_retry op now (complete op s k c) = (b, c1)" by force
  show ?thesis using schedule_retry_fields [OF r] by (simp add: complete_failure_def r)
qed

section \<open>Retransmission\<close>

lemma time_out_inv [inv_intros]:
  assumes "core_inv c" "\<not> c_destroyed c"
  shows "core_inv (time_out now i c)" "\<not> c_destroyed (time_out now i c)"
proof -
  let ?c1 = "remove_queued_transaction (rq_transaction (c_pending c ! i)) (c\<lparr>c_pending := remove_at i (c_pending c)\<rparr>)"
  have "core_inv ?c1" by (intro remove_queued_inv remove_pending_inv assms(1))
  thus "core_inv (time_out now i c)" unfolding time_out_def Let_def
    by (rule complete_failure_inv) (simp add: assms(2))
  show "\<not> c_destroyed (time_out now i c)"
    using assms(2) by (simp add: time_out_def Let_def complete_failure_destroyed)
qed

lemma rto_step: "1 \<le> n \<Longrightarrow> min (rto_at n * 2) MAX_RTO = rto_at (n + 1)"
proof -
  assume n: "1 \<le> n"
  then obtain m where m: "n = Suc m" by (cases n) auto
  have "min (min a b * 2) b = min (a * 2) b" for a b :: nat by (auto simp: min_def)
  thus ?thesis by (simp add: rto_at_def m algebra_simps)
qed

lemma retransmit_inv:
  assumes "core_inv c" "\<not> c_destroyed c" "i < length (c_pending c)"
    "rq_transmissions (c_pending c ! i) < MAX_TRANSMISSIONS"
  shows "core_inv (c\<lparr>c_pending := (c_pending c)[i := retransmit now (c_pending c ! i)]\<rparr>)"
proof -
  let ?p = "c_pending c ! i" and ?c' = "c\<lparr>c_pending := (c_pending c)[i := retransmit now (c_pending c ! i)]\<rparr>"
  have eq: "request_ok ?c' = request_ok c" by (rule request_ok_cong) (simp_all add: auth_ready_def)
  have p: "request_ok c ?p" using assms(1,3) by (auto simp: core_inv_def pending_ok_def)
  have "request_ok c (retransmit now ?p)"
    using p assms(4) rto_step [of "rq_transmissions ?p"]
    by (simp add: request_ok_def retransmit_def Let_def)
  moreover have "map rq_operation (c_pending ?c') = map rq_operation (c_pending c)"
    using assms(3) by (simp add: map_update list_update_same_conv retransmit_def Let_def)
  ultimately have "pending_ok ?c'" using assms(1)
    unfolding pending_ok_def eq core_inv_def by (auto dest!: set_update_subset_insert [THEN subsetD])
  thus ?thesis using assms(1,2) by (simp add: core_inv_def queues_ok_def state_ok_def auth_ready_def)
qed

lemma expire_from_inv:
  "core_inv c \<Longrightarrow> \<not> c_destroyed c \<Longrightarrow> core_inv (expire_from now i c) \<and> \<not> c_destroyed (expire_from now i c)"
proof (induction now i c rule: expire_from.induct)
  case (1 now i c)
  let ?p = "c_pending c ! i"
  consider (stop) "length (c_pending c) \<le> i"
    | (wait) "i < length (c_pending c)" "now < rq_next_attempt ?p"
    | (fail) "i < length (c_pending c)" "\<not> now < rq_next_attempt ?p"
        "MAX_TRANSMISSIONS \<le> rq_transmissions ?p \<or> c_transport c = StreamTransport"
    | (resend) "i < length (c_pending c)" "\<not> now < rq_next_attempt ?p"
        "rq_transmissions ?p < MAX_TRANSMISSIONS" "c_transport c \<noteq> StreamTransport"
    by linarith
  thus ?case
  proof cases
    case stop
    thus ?thesis using 1(5,6) by (simp add: expire_from.simps [of now i c])
  next
    case wait
    thus ?thesis using 1(1) [OF _ refl wait(2) 1(5,6)] by (simp add: expire_from.simps [of now i c])
  next
    case fail
    have "expire_from now i c = expire_from now i (time_out now i c)"
      using fail by (subst expire_from.simps) (auto simp: Let_def)
    thus ?thesis using 1(2,3) fail time_out_inv [OF 1(5,6)] by (metis not_le)
  next
    case resend
    let ?c1 = "queue_packet (rq_packet ?p) c"
    have "core_inv (?c1\<lparr>c_pending := (c_pending ?c1)[i := retransmit now ?p]\<rparr>)"
      using retransmit_inv [OF queue_packet_inv [OF 1(5,6)], of "rq_packet ?p" i now] resend 1(6) by simp
    moreover have "expire_from now i c = expire_from now (i + 1) (?c1\<lparr>c_pending := (c_pending ?c1)[i := retransmit now ?p]\<rparr>)"
      using resend by (subst expire_from.simps) (auto simp: Let_def)
    ultimately show ?thesis using 1(4) [OF _ refl resend(2) _ resend(4) refl] resend 1(6) by auto
  qed
qed

section \<open>Responses\<close>

lemma set_state_Ready_inv:
  assumes "core_inv c" "c_pending c = []" "c_relay c \<noteq> None" "c_allocation_expires_at c \<noteq> None"
    "auth_ready c" "\<not> c_shutting_down c" "\<not> c_destroyed c"
  shows "core_inv (set_state StReady c)"
  using assms push_event_queues [of "c\<lparr>c_state := StReady\<rparr>"]
  by (auto simp: set_state_def core_inv_def pending_ok_def state_ok_def auth_ready_def)
     (auto simp: queues_ok_def push_event_def)

lemma store_allocation_inv:
  assumes "core_inv c" "c_state c \<noteq> StReady" "\<not> c_destroyed c" "c_pending c = []"
  shows "core_inv (store_allocation now relay ret c)"
  using assms unfolding store_allocation_def Let_def
  by (intro push_event_inv) (auto simp: core_inv_def queues_ok_def pending_ok_def state_ok_def)

lemma store_allocation_fields [simp]:
  "c_state (store_allocation now relay ret c) = c_state c"
  "c_pending (store_allocation now relay ret c) = c_pending c"
  "c_destroyed (store_allocation now relay ret c) = c_destroyed c"
  "c_shutting_down (store_allocation now relay ret c) = c_shutting_down c"
  "c_channel (store_allocation now relay ret c) = c_channel c"
  "c_profile (store_allocation now relay ret c) = c_profile c"
  "auth_ready (store_allocation now relay ret c) = auth_ready c"
  "c_relay (store_allocation now relay ret c) = Some relay"
  "c_allocation_expires_at (store_allocation now relay ret c) =
     Some (now + secs (case ret of None \<Rightarrow> REQUESTED_ALLOCATION_LIFETIME_SECS | Some n \<Rightarrow> n))"
  by (simp_all add: store_allocation_def Let_def auth_ready_def push_event_def)

lemma no_channel: "core_inv c \<Longrightarrow> \<not> c_destroyed c \<Longrightarrow> c_state c \<noteq> StReady \<Longrightarrow> c_channel c = None"
  by (auto simp: core_inv_def state_ok_def)

text \<open>\<open>taken op c\<close>: the state after the request \<open>op\<close> has been taken out of the pending list.\<close>

definition taken :: "operation \<Rightarrow> core \<Rightarrow> bool" where
  "taken op c \<longleftrightarrow> core_inv c \<and> \<not> c_destroyed c \<and> c_state c = home op \<and> op \<notin> rq_operation ` set (c_pending c)"

lemma taken_alone: "taken op c \<Longrightarrow> home op \<noteq> StReady \<Longrightarrow> c_pending c = []"
proof -
  assume t: "taken op c" and h: "home op \<noteq> StReady"
  have "False" if "p \<in> set (c_pending c)" for p
  proof -
    have "home (rq_operation p) = home op" "rq_operation p \<noteq> op"
      using t that by (auto simp: taken_def core_inv_def pending_ok_def request_ok_def)
    thus False using h by (cases op; cases "rq_operation p") auto
  qed
  thus ?thesis by (metis all_not_in_conv set_empty)
qed

lemma complete_success_Allocate:
  assumes "taken Allocate c" "auth_ready c" "complete_success cr tx now Allocate m c = (ok, c')"
  shows "core_inv c' \<and> \<not> c_destroyed c'"
proof -
  have c: "core_inv c" "\<not> c_destroyed c" "c_state c = StAllocating" "c_pending c = []"
    using assms(1) taken_alone [OF assms(1)] by (auto simp: taken_def)
  have s: "core_inv (store_allocation now r l c)" for r l
    using c by (intro store_allocation_inv) auto
  have ready: "core_inv (set_state StReady (store_allocation now r l c))" if "\<not> c_shutting_down c" for r l
    by (rule set_state_Ready_inv [OF s]) (use c assms(2) that in auto)
  have cl: "core_inv (set_state StDeallocating (store_allocation now r l c))" for r l
    by (rule set_state_cleared) (use c s no_channel [OF c(1,2)] in \<open>auto simp: core_inv_def\<close>)
  have st: "core_inv c3 \<and> \<not> c_destroyed c3"
    if "start_operation cr tx now Deallocate True 0 (set_state StDeallocating (store_allocation now r l c)) = Some c3"
    for r l c3
    using start_operation_inv [OF cl _ _ _ _ that] start_operation_state [OF that] c(2) by simp
  show ?thesis using assms(3) c(1,2) ready cl st
    by (auto simp: complete_success_def Let_def complete_inv split: option.splits sum.splits if_splits)
qed

lemma complete_success_inv:
  assumes "taken op c" "auth_ready c" "complete_success cr tx now op m c = (ok, c')"
  shows "core_inv c' \<and> \<not> c_destroyed c'"
proof (cases op)
  case Allocate
  thus ?thesis using complete_success_Allocate assms by blast
next
  case Refresh
  have "core_inv (c\<lparr>c_allocation_refresh := r, c_allocation_expires_at := Some e, c_refresh_failures := 0\<rparr>)" for r e
  proof -
    have "request_ok (c\<lparr>c_allocation_refresh := r, c_allocation_expires_at := Some e, c_refresh_failures := 0\<rparr>)
        = request_ok c" by (rule request_ok_cong) (simp_all add: auth_ready_def)
    thus ?thesis using assms(1)
      by (auto simp: taken_def core_inv_def queues_ok_def pending_ok_def state_ok_def auth_ready_def)
  qed
  thus ?thesis using assms Refresh
    by (auto simp: complete_success_def Let_def taken_def complete_inv split: if_splits)
next
  case Deallocate
  note p = taken_alone [OF assms(1)]
  have "core_inv (set_state StDeallocated (complete Deallocate 0 0 (c\<lparr>c_relay := None,
          c_allocation_refresh := None, c_allocation_expires_at := None\<rparr>)))"
    by (rule set_state_cleared)
       (use assms(1) p Deallocate in \<open>auto simp: taken_def complete_def push_event_def no_channel
          core_inv_def queues_ok_def event_ring_len\<close>)
  thus ?thesis using assms Deallocate by (auto simp: complete_success_def taken_def split: if_splits)
next
  case Permission
  have "core_inv (c\<lparr>c_permission_failures := 0\<rparr>)"
    by (rule core_inv_cong [of c]) (use assms(1) in \<open>auto simp: taken_def core_inv_def queues_ok_def auth_ready_def state_ok_def\<close>)
  thus ?thesis using assms Permission by (auto simp: complete_success_def taken_def complete_inv)
next
  case Channel
  have "request_ok (c\<lparr>c_channel := Some CHANNEL_NUMBER, c_channel_failures := 0\<rparr>) = request_ok c"
    by (rule request_ok_cong) (simp_all add: auth_ready_def)
  hence "core_inv (c\<lparr>c_channel := Some CHANNEL_NUMBER, c_channel_failures := 0\<rparr>)"
    using assms(1) Channel
    by (auto simp: taken_def core_inv_def queues_ok_def pending_ok_def state_ok_def auth_ready_def)
  thus ?thesis using assms Channel
    by (auto simp: complete_success_def taken_def complete_inv push_event_inv)
qed

lemma set_auth_inv [inv_intros]: "core_inv c \<Longrightarrow> core_inv (set_auth cr realm nonce c)"
  by (auto simp: core_inv_def set_auth_def queues_ok_def pending_ok_def state_ok_def request_ok_def auth_ready_def)

lemma set_auth_fields [simp]:
  "c_state (set_auth cr realm nonce c) = c_state c" "c_destroyed (set_auth cr realm nonce c) = c_destroyed c"
  "c_profile (set_auth cr realm nonce c) = c_profile c" "auth_ready (set_auth cr realm nonce c)"
  "c_pending (set_auth cr realm nonce c) = c_pending c"
  by (simp_all add: set_auth_def auth_ready_def)

lemma response_error_fields [simp]:
  "c_destroyed (response_error m s k c) = c_destroyed c" "c_state (response_error m s k c) = c_state c"
  "c_pending (response_error m s k c) = c_pending c"
  by (simp_all add: response_error_def)

lemma input_error_inv:
  assumes "taken (rq_operation p) c"
  shows "core_inv (input_error cr tx now m method p c) \<and> \<not> c_destroyed (input_error cr tx now m method p c)"
proof -
  have c: "core_inv c" "\<not> c_destroyed c" "c_state c = home (rq_operation p)"
    using assms by (auto simp: taken_def)
  have fail: "core_inv (complete_failure op s k now (push_event e c'))
      \<and> \<not> c_destroyed (complete_failure op s k now (push_event e c'))"
    if "core_inv c'" "\<not> c_destroyed c'" for op s k e c'
    using complete_failure_inv [OF push_event_inv [OF that(1)]] that(2) by simp
  have retry: "core_inv c2 \<and> \<not> c_destroyed c2"
    if "start_operation cr tx now (rq_operation p) True (rq_nonce_retries p + 1) (set_auth cr rl nc c) = Some c2"
      "rq_nonce_retries p < tp_max_nonce_retries (c_profile c)" for rl nc c2
    using start_operation_inv [OF set_auth_inv [OF c(1)] _ _ _ _ that(1)] start_operation_state [OF that(1)]
      c(2,3) that(2) by simp
  show ?thesis
    using c fail [of c] fail [OF set_auth_inv [OF c(1)]] retry response_error_inv [OF c(1)]
    unfolding input_error_def Let_def response_error_def
    by (auto simp: destroy_allocation_inv push_event_inv split: option.splits)
qed

lemma auth_ready_pending [simp]: "auth_ready (c\<lparr>c_pending := ps\<rparr>) = auth_ready c"
  by (simp add: auth_ready_def)

lemma position_taken:
  assumes "core_inv c" "position P (c_pending c) = Some i"
  shows "request_ok c (c_pending c ! i)"
    "\<not> c_destroyed c \<Longrightarrow> taken (rq_operation (c_pending c ! i))
       (remove_queued_transaction t (c\<lparr>c_pending := remove_at i (c_pending c)\<rparr>))"
proof -
  have i: "i < length (c_pending c)" using position_SomeD [OF assms(2)] by simp
  show ok: "request_ok c (c_pending c ! i)" using assms(1) i by (auto simp: core_inv_def pending_ok_def)
  have "map rq_operation (c_pending c) ! i \<notin> set (remove_at i (map rq_operation (c_pending c)))"
    using assms(1) i by (intro remove_at_not_in) (auto simp: core_inv_def pending_ok_def)
  thus "taken (rq_operation (c_pending c ! i))
       (remove_queued_transaction t (c\<lparr>c_pending := remove_at i (c_pending c)\<rparr>))" if "\<not> c_destroyed c"
    using i ok that remove_queued_inv [OF remove_pending_inv [OF assms(1)]]
    by (simp add: taken_def request_ok_def map_remove_at [symmetric])
qed

lemma input_stun_inv [inv_intros]:
  assumes "core_inv c"
  shows "core_inv (snd (input_stun cr tx now packet c))"
proof (cases "c_destroyed c")
  case True
  hence "c_pending c = []" using assms by (simp add: core_inv_def state_ok_def)
  thus ?thesis using assms by (auto simp: input_stun_def Let_def split: sum.splits)
next
  case nd: False
  show ?thesis
  proof (cases "stun_decode packet")
    case (Inl e)
    thus ?thesis using assms by (simp add: input_stun_def)
  next
    case m: (Inr m)
    let ?P = "\<lambda>p. rq_transaction p = sm_transaction m \<and> op_method (rq_operation p) = unat (stun_method m)"
    show ?thesis
    proof (cases "position ?P (c_pending c)")
      case None
      have "snd (input_stun cr tx now packet c) = c"
        unfolding input_stun_def m sum.case Let_def None option.case by simp
      thus ?thesis using assms by simp
    next
      case (Some i)
      let ?p = "c_pending c ! i"
      let ?c1 = "remove_queued_transaction (sm_transaction m) (c\<lparr>c_pending := remove_at i (c_pending c)\<rparr>)"
      have tk: "taken (rq_operation ?p) ?c1" by (rule position_taken(2) [OF assms Some nd])
      have ok: "request_ok c ?p" by (rule position_taken(1) [OF assms Some])
      have c1: "core_inv ?c1" "\<not> c_destroyed ?c1" using tk by (auto simp: taken_def)
      obtain b c2 where cs: "complete_success cr tx now (rq_operation ?p) m ?c1 = (b, c2)" by force
      have succ: "core_inv c2 \<and> \<not> c_destroyed c2" if "rq_authenticated ?p"
        by (rule complete_success_inv [OF tk _ cs]) (use ok that in \<open>simp add: request_ok_def\<close>)
      show ?thesis
        unfolding input_stun_def m sum.case Let_def Some option.case cs prod.case
        using assms c1 succ input_error_inv [OF tk] complete_failure_inv
        by (auto simp: response_error_inv split: option.splits)
    qed
  qed
qed

section \<open>Timers and teardown\<close>

text \<open>The deadlines are not part of the invariant, except the expiry.\<close>

lemma core_inv_deadlines:
  assumes "core_inv c"
  shows "core_inv (c\<lparr>c_allocation_refresh := a\<rparr>)" "core_inv (c\<lparr>c_maintenance_refresh := a\<rparr>)"
    "core_inv (c\<lparr>c_permission_retry := a\<rparr>)" "core_inv (c\<lparr>c_channel_retry := a\<rparr>)"
    "core_inv (c\<lparr>c_keepalive := a\<rparr>)" "core_inv (c\<lparr>c_events := es\<rparr>) \<longleftrightarrow> length es \<le> EVENT_CAPACITY"
  using assms
  by (auto simp: core_inv_def queues_ok_def pending_ok_def state_ok_def request_ok_def auth_ready_def)

lemma auth_ready_deadlines [simp]:
  "auth_ready (c\<lparr>c_allocation_refresh := a\<rparr>) = auth_ready c"
  "auth_ready (c\<lparr>c_permission_retry := a\<rparr>) = auth_ready c"
  "auth_ready (c\<lparr>c_channel_retry := a\<rparr>) = auth_ready c"
  by (simp_all add: auth_ready_def)

lemma ok_or_inv:
  assumes "core_inv c" "\<not> c_destroyed c" "c_state c = home op" "op \<noteq> Allocate \<longrightarrow> auth"
    "ok_or c (start_operation cr tx now op auth 0 c) = (ok, c')"
  shows "core_inv c' \<and> \<not> c_destroyed c' \<and> c_state c' = home op"
proof (cases "start_operation cr tx now op auth 0 c")
  case None
  thus ?thesis using assms by (simp add: ok_or_def)
next
  case (Some c1)
  thus ?thesis using start_operation_inv [OF assms(1-3) _ assms(4) Some] start_operation_state [OF Some] assms
    by (simp add: ok_or_def)
qed

definition live_ready :: "core \<Rightarrow> bool" where
  "live_ready c \<longleftrightarrow> core_inv c \<and> \<not> c_destroyed c \<and> c_state c = StReady"

lemma start_ready:
  assumes "live_ready c" "home op = StReady"
  shows "live_ready (snd (ok_or c (start_operation cr tx now op True 0 c)))"
proof -
  obtain b c' where e: "ok_or c (start_operation cr tx now op True 0 c) = (b, c')" by force
  show ?thesis using ok_or_inv [OF _ _ _ _ e] assms e by (auto simp: live_ready_def)
qed

lemma live_ready_deadlines:
  assumes "live_ready c"
  shows "live_ready (c\<lparr>c_allocation_refresh := a\<rparr>)" "live_ready (c\<lparr>c_maintenance_refresh := a\<rparr>)"
    "live_ready (c\<lparr>c_permission_retry := a\<rparr>)" "live_ready (c\<lparr>c_channel_retry := a\<rparr>)"
    "live_ready (c\<lparr>c_keepalive := a\<rparr>)"
  using assms by (auto simp: live_ready_def core_inv_deadlines)

lemma poll_refresh_ready: "live_ready c \<Longrightarrow> live_ready (snd (poll_refresh cr tx now c))"
  using start_ready [OF live_ready_deadlines(1)] by (simp add: poll_refresh_def Let_def)

lemma poll_permission_ready: "live_ready c \<Longrightarrow> live_ready (snd (poll_permission cr tx now w c))"
  using start_ready [OF live_ready_deadlines(3)] by (simp add: poll_permission_def Let_def)

lemma poll_channel_ready: "live_ready c \<Longrightarrow> live_ready (snd (poll_channel cr tx now w c))"
  using start_ready [OF live_ready_deadlines(4)] by (simp add: poll_channel_def Let_def)

lemma poll_keepalive_ready: "live_ready c \<Longrightarrow> live_ready (poll_keepalive now c)"
  by (auto simp: poll_keepalive_def live_ready_def queue_keepalive_def core_inv_deadlines queue_packet_inv
      split: option.splits)

lemma poll_ready_inv: "live_ready c \<Longrightarrow> live_ready (snd (poll_ready cr tx now c))"
proof -
  assume c: "live_ready c"
  obtain ok1 c1 where 1: "poll_refresh cr tx now c = (ok1, c1)" by force
  have r1: "live_ready c1" using poll_refresh_ready [OF c] 1 by (metis snd_conv)
  define c2 where "c2 = (if due now (c_maintenance_refresh c)
    then c1\<lparr>c_maintenance_refresh := Some (now + tp_maintenance_refresh (c_profile c1))\<rparr> else c1)"
  have r2: "live_ready c2" using r1 by (simp add: c2_def live_ready_def core_inv_deadlines)
  obtain ok3 c3 where 3: "poll_permission cr tx now (due now (c_maintenance_refresh c) \<or> due now (c_permission_retry c)) c2 = (ok3, c3)" by force
  have r3: "live_ready c3" using poll_permission_ready [OF r2] 3 by (metis snd_conv)
  obtain ok4 c4 where 4: "poll_channel cr tx now (due now (c_maintenance_refresh c) \<or> due now (c_channel_retry c)) c3 = (ok4, c4)" by force
  have r4: "live_ready c4" using poll_channel_ready [OF r3] 4 by (metis snd_conv)
  show ?thesis using r1 r3 r4 poll_keepalive_ready
    unfolding poll_ready_def Let_def 1 prod.case c2_def [symmetric] 3 4 by simp
qed

lemma poll_inv [inv_intros]:
  assumes "core_inv c"
  shows "core_inv (snd (poll cr tx now c))"
proof (cases "c_destroyed c")
  case True
  thus ?thesis using assms by (simp add: poll_def)
next
  case False
  have "core_inv (poll_expire now c)" "\<not> c_destroyed (poll_expire now c)"
    using expire_from_inv [OF assms False, of now 0] destroy_allocation_inv
    by (auto simp: poll_expire_def Let_def expire_transactions_def)
  thus ?thesis using False poll_ready_inv [of "poll_expire now c" cr tx now]
    by (auto simp: poll_def Let_def live_ready_def case_prod_beta)
qed

lemma resync_inv [inv_intros]: "core_inv c \<Longrightarrow> core_inv (snd (resync_after_suspend now gap c))"
proof -
  assume c: "core_inv c"
  have "core_inv (c\<lparr>c_allocation_expires_at := Some e\<rparr>)" if "c_state c = StReady" for e
  proof -
    have "request_ok (c\<lparr>c_allocation_expires_at := Some e\<rparr>) = request_ok c"
      by (rule request_ok_cong) (simp_all add: auth_ready_def)
    thus ?thesis using c by (auto simp: core_inv_def queues_ok_def pending_ok_def state_ok_def auth_ready_def)
  qed
  thus ?thesis using c
    by (auto simp: resync_after_suspend_def Let_def core_inv_deadlines destroy_allocation_inv split: option.splits)
qed

lemma graceful_shutdown_inv [inv_intros]: "core_inv c \<Longrightarrow> core_inv (snd (graceful_shutdown cr tx now c))"
proof -
  assume c: "core_inv c"
  define c1 where "c1 = c\<lparr>c_shutting_down := True, c_channel := None, c_maintenance_refresh := None,
                c_permission_retry := None, c_channel_retry := None, c_keepalive := None, c_controls := []\<rparr>"
  have q: "queues_ok c1" using c by (simp add: c1_def core_inv_def queues_ok_def)
  show ?thesis
  proof (cases "c_destroyed c \<or> c_shutting_down c")
    case True
    thus ?thesis using c by (auto simp: graceful_shutdown_def)
  next
    case False
    have i2: "core_inv (set_state StDeallocating (c1\<lparr>c_pending := []\<rparr>))"
      by (rule set_state_cleared) (use q False in \<open>auto simp: c1_def queues_ok_def\<close>)
    have i3: "core_inv (snd (ok_or (set_state StDeallocating (c1\<lparr>c_pending := []\<rparr>))
        (start_operation cr tx now Deallocate True 0 (set_state StDeallocating (c1\<lparr>c_pending := []\<rparr>)))))"
      using ok_or_inv [OF i2, of Deallocate True cr tx now] False by (auto simp: c1_def) (metis prod.collapse)
    have i4: "core_inv (c1\<lparr>c_pending := []\<rparr>)" if "c_state c \<noteq> StReady"
      using q False that by (auto simp: core_inv_def pending_ok_def state_ok_def c1_def queues_ok_def)
    have "request_ok c1 = request_ok c" by (rule request_ok_cong) (simp_all add: c1_def auth_ready_def)
    hence i5: "core_inv c1" if "c_state c \<noteq> StReady"
      using c that q by (auto simp: core_inv_def pending_ok_def state_ok_def c1_def)
    have s: "c_state c1 = c_state c" by (simp add: c1_def)
    show ?thesis using i3 i4 i5 False s
      unfolding graceful_shutdown_def Let_def c1_def [symmetric] by auto
  qed
qed

lemma force_destroy_inv [inv_intros]: "core_inv c \<Longrightarrow> core_inv (force_destroy status c)"
proof -
  assume c: "core_inv c"
  have "core_inv (set_state StDestroying (c\<lparr>c_destroyed := True, c_controls := [], c_pending := []\<rparr>))"
    if "\<not> c_destroyed c"
    using c that push_event_queues
    by (auto simp: set_state_def core_inv_def queues_ok_def pending_ok_def state_ok_def push_event_def event_ring_len)
  thus ?thesis using c by (auto simp: force_destroy_def push_event_inv)
qed

end
