(* ===== verification/TurnCoreProps.thy ===== *)
theory TurnCoreProps
  imports TurnCoreInv
begin

text \<open>
  The properties of the TURN client: its invariant over any sequence of calls, the one-way life of
  an allocation, what unauthenticated responses can do, the retransmission ladder and the
  maintenance retries.
\<close>

section \<open>Any sequence of calls\<close>

lemma core_step_inv: "core_inv c \<Longrightarrow> core_inv (core_step cr e c)"
proof (cases "ce_call e")
  case CallStartAllocation
  assume c: "core_inv c"
  have "core_inv (snd (start_allocation cr tx now c))" for tx now
  proof (cases "require_open c \<and> c_state c = StNull")
    case True
    hence st: "c_state c = StNull" "\<not> c_destroyed c" by (auto simp: require_open_def)
    have p: "c_pending c = []"
      using c st home.elims by (auto simp: core_inv_def pending_ok_def request_ok_def)
        (metis home.elims last_in_set turn_state.distinct(1,3,5))
    have i: "core_inv (set_state StAllocating c)"
      by (rule set_state_cleared) (use c st p no_channel [OF c st(2)] in \<open>auto simp: core_inv_def\<close>)
    obtain b c' where e: "ok_or (set_state StAllocating c)
        (start_operation cr tx now Allocate False 0 (set_state StAllocating c)) = (b, c')" by force
    show ?thesis using ok_or_inv [OF i _ _ _ e] st True e by (simp add: start_allocation_def Let_def)
  next
    case False
    thus ?thesis using c by (auto simp: start_allocation_def)
  qed
  thus ?thesis using CallStartAllocation by (simp add: core_step_def Let_def)
next
  case CallStartChannel
  assume c: "core_inv c"
  have "core_inv (snd (start_channel cr tx now c))" for tx now
    using start_ready [of c Channel cr tx now] c
    by (auto simp: start_channel_def require_ready_def require_open_def live_ready_def)
  thus ?thesis using CallStartChannel by (simp add: core_step_def Let_def)
next
  case CallStartPermission
  assume c: "core_inv c"
  have "core_inv (snd (start_permission cr tx now c))" for tx now
    using start_ready [of c Permission cr tx now] c
    by (auto simp: start_permission_def require_ready_def require_open_def live_ready_def)
  thus ?thesis using CallStartPermission by (simp add: core_step_def Let_def)
next
  case CallPullControl
  assume c: "core_inv c"
  have "core_inv (c\<lparr>c_controls := tl (c_controls c)\<rparr>)"
    by (rule core_inv_cong [OF c]) (use c in \<open>auto simp: core_inv_def queues_ok_def state_ok_def auth_ready_def\<close>)
  thus ?thesis using CallPullControl c
    by (auto simp: core_step_def Let_def pull_control_def split: list.splits)
next
  case CallPullEvent
  assume c: "core_inv c"
  thus ?thesis using CallPullEvent
    by (auto simp: core_step_def Let_def pull_event_def core_inv_deadlines(6) core_inv_def queues_ok_def
        split: list.splits) (auto simp: core_inv_def queues_ok_def pending_ok_def state_ok_def request_ok_def auth_ready_def)
qed (auto simp: core_step_def Let_def input_stun_inv poll_inv resync_inv graceful_shutdown_inv force_destroy_inv)

interpretation client: driven "core_step cr" core_inv for cr
  by unfold_locales (rule core_step_inv)

section \<open>The life of an allocation\<close>

fun rank :: "turn_state \<Rightarrow> nat" where
  "rank StNull = 0"
| "rank StAllocating = 1"
| "rank StReady = 2"
| "rank StDeallocating = 3"
| "rank StDeallocated = 3"
| "rank StDestroying = 3"

lemma rank_le_3: "rank st \<le> 3"
  by (cases st) auto

definition onward :: "core \<Rightarrow> core \<Rightarrow> bool" where
  "onward c c' \<longleftrightarrow> rank (c_state c) \<le> rank (c_state c')"

lemma onward_trans: "onward a b \<Longrightarrow> onward b c \<Longrightarrow> onward a c"
  by (simp add: onward_def)

lemma onward_refl [simp]: "onward c c"
  by (simp add: onward_def)

lemma onward_destroy [simp]: "onward c (destroy_allocation op s k c')"
  by (simp add: onward_def rank_le_3)

lemma complete_failure_onward:
  assumes "c_state c' = c_state c"
  shows "onward c (complete_failure op s k now c')"
proof -
  obtain b c1 where r: "schedule_maintenance_retry op now (complete op s k c') = (b, c1)" by force
  show ?thesis using schedule_retry_fields [OF r] assms
    by (simp add: complete_failure_def r onward_def rank_le_3)
qed

lemma ok_or_onward: "onward c (snd (ok_or c (start_operation cr tx now op auth n c)))"
  using start_operation_state by (auto simp: ok_or_def onward_def split: option.splits)

lemma time_out_onward: "onward c (time_out now i c)"
  unfolding time_out_def Let_def by (rule complete_failure_onward) simp

lemma expire_onward: "onward c (expire_from now i c)"
proof (induction now i c rule: expire_from.induct)
  case (1 now i c)
  let ?p = "c_pending c ! i"
  consider (stop) "length (c_pending c) \<le> i"
    | (wait) "\<not> length (c_pending c) \<le> i" "now < rq_next_attempt ?p"
    | (full) "\<not> length (c_pending c) \<le> i" "\<not> now < rq_next_attempt ?p" "MAX_TRANSMISSIONS \<le> rq_transmissions ?p"
    | (stream) "\<not> length (c_pending c) \<le> i" "\<not> now < rq_next_attempt ?p"
        "\<not> MAX_TRANSMISSIONS \<le> rq_transmissions ?p" "c_transport c = StreamTransport"
    | (resend) "\<not> length (c_pending c) \<le> i" "\<not> now < rq_next_attempt ?p"
        "\<not> MAX_TRANSMISSIONS \<le> rq_transmissions ?p" "c_transport c \<noteq> StreamTransport"
    by blast
  thus ?case
  proof cases
    case full
    thus ?thesis using 1(2) [OF full(1) refl full(2,3)] onward_trans [OF time_out_onward]
      by (subst expire_from.simps) (simp add: Let_def)
  next
    case stream
    thus ?thesis using 1(3) [OF stream(1) refl stream(2,3,4)] onward_trans [OF time_out_onward]
      by (subst expire_from.simps) (simp add: Let_def)
  next
    case resend
    thus ?thesis using 1(4) [OF resend(1) refl resend(2,3,4) refl]
      by (subst expire_from.simps) (simp add: Let_def onward_def)
  next
    case wait
    thus ?thesis using 1(1) [OF wait(1) refl wait(2)] by (subst expire_from.simps) (simp add: Let_def)
  qed (subst expire_from.simps, simp)
qed

lemma complete_success_onward:
  assumes "complete_success cr tx now op m c = (b, c')" "op = Allocate \<Longrightarrow> c_state c = StAllocating"
  shows "onward c c'"
proof (cases op)
  case Allocate
  have "c_state c3 = StDeallocating"
    if "start_operation cr tx now Deallocate True 0 (set_state StDeallocating (store_allocation now r l c)) = Some c3"
    for r l c3 using start_operation_state [OF that] by simp
  thus ?thesis using assms Allocate
    by (auto simp: complete_success_def Let_def onward_def split: option.splits sum.splits if_splits)
qed (use assms in \<open>auto simp: complete_success_def Let_def onward_def rank_le_3 split: if_splits\<close>)

lemma input_error_onward: "onward c (input_error cr tx now m method p c)"
proof -
  have "onward c c2"
    if "start_operation cr tx now (rq_operation p) True (rq_nonce_retries p + 1) (set_auth cr rl nc c) = Some c2"
    for rl nc c2 using start_operation_state [OF that] by (simp add: onward_def)
  thus ?thesis unfolding input_error_def Let_def
    by (auto intro: complete_failure_onward split: option.splits)
qed

lemma input_stun_onward:
  assumes "core_inv c"
  shows "onward c (snd (input_stun cr tx now packet c))"
proof (cases "stun_decode packet")
  case (Inl e)
  thus ?thesis by (simp add: input_stun_def)
next
  case m: (Inr m)
  let ?P = "\<lambda>p. rq_transaction p = sm_transaction m \<and> op_method (rq_operation p) = unat (stun_method m)"
  show ?thesis
  proof (cases "position ?P (c_pending c)")
    case None
    thus ?thesis unfolding input_stun_def m sum.case Let_def None option.case by simp
  next
    case (Some i)
    let ?p = "c_pending c ! i"
    let ?c1 = "remove_queued_transaction (sm_transaction m) (c\<lparr>c_pending := remove_at i (c_pending c)\<rparr>)"
    have st: "c_state ?c1 = c_state c" by simp
    have home: "c_state c = home (rq_operation ?p)"
      using position_taken(1) [OF assms Some] by (simp add: request_ok_def)
    obtain b c2 where cs: "complete_success cr tx now (rq_operation ?p) m ?c1 = (b, c2)" by force
    have o2: "onward c c2"
      using complete_success_onward [OF cs] home st by (simp add: onward_def)
    have of: "onward c (complete_failure op s k now c2)" for op s k
      by (rule onward_trans [OF o2 complete_failure_onward]) simp
    have oe: "onward c (input_error cr tx now m mth ?p ?c1)" for mth
      using input_error_onward [of ?c1] by (simp add: onward_def)
    show ?thesis
      unfolding input_stun_def m sum.case Let_def Some option.case cs prod.case
      using o2 of oe complete_failure_onward [of ?c1 c]
      by (auto simp: onward_def split: option.splits)
  qed
qed

lemma keepalive_state [simp]: "c_state (poll_keepalive now c) = c_state c"
  by (auto simp: poll_keepalive_def queue_keepalive_def split: option.splits)

lemma poll_onward:
  assumes "core_inv c"
  shows "onward c (snd (poll cr tx now c))"
proof (cases "c_destroyed c")
  case True
  thus ?thesis by (simp add: poll_def)
next
  case False
  have inv: "core_inv (poll_expire now c)" "\<not> c_destroyed (poll_expire now c)"
    using expire_from_inv [OF assms False, of now 0] destroy_allocation_inv
    by (auto simp: poll_expire_def Let_def expire_transactions_def)
  have e: "onward c (poll_expire now c)"
    using expire_onward [of c now 0]
    by (auto simp: poll_expire_def Let_def expire_transactions_def onward_def)
  have r: "c_state (snd (poll_ready cr tx now (poll_expire now c))) = StReady" if "c_state (poll_expire now c) = StReady"
    using poll_ready_inv [of "poll_expire now c" cr tx now] inv that by (simp add: live_ready_def)
  show ?thesis using e r False by (auto simp: poll_def Let_def case_prod_beta onward_def)
qed

lemma core_step_onward:
  assumes "core_inv c"
  shows "onward c (core_step cr e c)"
proof (cases "ce_call e")
  case CallStartAllocation
  have "onward c (snd (start_allocation cr tx now c))" for tx now
    using ok_or_onward [of "set_state StAllocating c"]
    by (auto simp: start_allocation_def Let_def onward_def)
  thus ?thesis using CallStartAllocation by (simp add: core_step_def Let_def)
next
  case CallShutdown
  have "rank (c_state (snd (ok_or (set_state StDeallocating x) (start_operation cr tx now Deallocate True 0
      (set_state StDeallocating x))))) = 3" for x tx now
    using start_operation_state [of cr tx now Deallocate True 0 "set_state StDeallocating x"]
    by (auto simp: ok_or_def split: option.splits)
  hence "onward c (snd (graceful_shutdown cr tx now c))" for tx now
    by (auto simp: graceful_shutdown_def Let_def onward_def rank_le_3)
  thus ?thesis using CallShutdown by (simp add: core_step_def Let_def)
next
  case (CallResync gap)
  thus ?thesis by (auto simp: core_step_def Let_def resync_after_suspend_def onward_def rank_le_3 split: option.splits)
qed (use ok_or_onward input_stun_onward [OF assms] poll_onward [OF assms] in
      \<open>auto simp: core_step_def Let_def start_channel_def start_permission_def pull_control_def pull_event_def
         force_destroy_def rank_le_3 onward_def split: list.splits\<close>)

section \<open>Unauthenticated responses\<close>

lemma input_unverified:
  assumes inv: "core_inv c" and ready: "c_state c = StReady"
    and m: "stun_decode packet = Inr m" "response_requires_integrity m"
      "\<not> verify_integrity cr packet m (c_key c)" "\<not> is_fingerprinted_allocation_mismatch (cr_crc32 cr) m"
  shows "\<exists>evs. snd (input_stun cr tx now packet c) = c\<lparr>c_events := evs\<rparr>"
proof -
  let ?P = "\<lambda>p. rq_transaction p = sm_transaction m \<and> op_method (rq_operation p) = unat (stun_method m)"
  have same: "c = c\<lparr>c_events := c_events c\<rparr>" by simp
  show ?thesis
  proof (cases "position ?P (c_pending c)")
    case None
    hence "snd (input_stun cr tx now packet c) = c"
      unfolding input_stun_def m(1) sum.case Let_def None option.case by simp
    thus ?thesis using same by metis
  next
    case (Some i)
    let ?p = "c_pending c ! i"
    have "request_ok c ?p" by (rule position_taken(1) [OF inv Some])
    hence "rq_authenticated ?p" using ready by (cases "rq_operation ?p") (auto simp: request_ok_def)
    hence "snd (input_stun cr tx now packet c) \<in> {c} \<union> {push_event e c | e. True}"
      using m(2-4) unfolding input_stun_def m(1) sum.case Let_def Some option.case
      by (auto simp: response_error_def split: option.splits)
    thus ?thesis using same unfolding push_event_def by (elim UnE) (metis singletonD, blast)
  qed
qed

section \<open>The retransmission ladder\<close>

text \<open>\<open>n\<close> polls, each exactly at the deadline of the only pending request.\<close>

fun deadline_polls :: "nat \<Rightarrow> core \<Rightarrow> core" where
  "deadline_polls 0 c = c"
| "deadline_polls (Suc n) c = deadline_polls n
     (expire_transactions (rq_next_attempt (hd (c_pending c))) c)"

text \<open>The deadline after \<open>n\<close> transmissions of a request first sent at \<open>t0\<close>.\<close>

definition ladder :: "nat \<Rightarrow> nat" where
  "ladder n = sum_list (map rto_at [1..<n + 1])"

lemma ladder_Suc: "ladder (Suc n) = ladder n + rto_at (Suc n)"
  by (simp add: ladder_def)

lemma ladder_values:
  "ladder 1 = msec 200" "ladder 2 = msec 600" "ladder 3 = msec 1400" "ladder 4 = msec 3000"
  "ladder 5 = msec 4600" "ladder 6 = msec 6200" "ladder 7 = msec 7800"
  by (simp_all add: ladder_def rto_at_def INITIAL_RTO_def MAX_RTO_def msec_def upt_rec)

lemma expire_single:
  assumes "c_pending c = [p]" "c_transport c = Datagram" "rq_transmissions p < MAX_TRANSMISSIONS"
  shows "expire_transactions (rq_next_attempt p) c =
    (queue_packet (rq_packet p) c)\<lparr>c_pending := [retransmit (rq_next_attempt p) p]\<rparr>"
  unfolding expire_transactions_def
  using assms by (subst expire_from.simps) (simp add: Let_def, subst expire_from.simps, simp)

lemma expire_last:
  assumes "c_pending c = [p]" "c_transport c = Datagram" "MAX_TRANSMISSIONS \<le> rq_transmissions p"
  shows "expire_transactions (rq_next_attempt p) c = time_out (rq_next_attempt p) 0 c"
proof -
  have "length (c_pending (time_out (rq_next_attempt p) 0 c)) = 0"
    using time_out_pending [of "rq_next_attempt p" 0 c] assms(1) by (auto simp: remove_at_def)
  thus ?thesis unfolding expire_transactions_def
    using assms by (subst expire_from.simps) (simp add: Let_def, subst expire_from.simps, simp)
qed

lemma ladder_run:
  assumes "c_pending c = [p]" "c_transport c = Datagram" "rq_transmissions p = k" "1 \<le> k" "k + n \<le> 7"
    "rq_rto p = rto_at k" "rq_next_attempt p = t0 + ladder k"
  shows "\<exists>q. c_pending (deadline_polls n c) = [q] \<and> rq_transmissions q = k + n
    \<and> rq_next_attempt q = t0 + ladder (k + n) \<and> rq_operation q = rq_operation p
    \<and> c_transport (deadline_polls n c) = Datagram"
  using assms
proof (induction n arbitrary: c p k)
  case (Suc n)
  let ?q = "retransmit (rq_next_attempt p) p"
  let ?c1 = "(queue_packet (rq_packet p) c)\<lparr>c_pending := [?q]\<rparr>"
  have e: "expire_transactions (rq_next_attempt p) c = ?c1"
    using Suc.prems by (intro expire_single) (auto simp: MAX_TRANSMISSIONS_def)
  have q: "rq_transmissions ?q = Suc k" "rq_rto ?q = rto_at (Suc k)" "rq_operation ?q = rq_operation p"
    "rq_next_attempt ?q = t0 + ladder (Suc k)"
    using Suc.prems rto_step [of k] by (simp_all add: retransmit_def Let_def ladder_Suc)
  have "\<exists>r. c_pending (deadline_polls n ?c1) = [r] \<and> rq_transmissions r = Suc k + n
    \<and> rq_next_attempt r = t0 + ladder (Suc k + n) \<and> rq_operation r = rq_operation ?q
    \<and> c_transport (deadline_polls n ?c1) = Datagram"
    by (rule Suc.IH) (use Suc.prems q in auto)
  thus ?case using Suc.prems(1) e q(3) by simp
qed simp

section \<open>Properties\<close>

text \<open>C3: in every state a TURN client can reach by any sequence of calls (any packets, clock
  readings and transaction ids) the control queue holds at most 16 packets and the event queue 64,
  there is at most one request per operation and only in the state that operation belongs to, sent at most 7
  times, with the RTO of the ladder, and in READY the relay address, the expiry and the credentials are present.\<close>

theorem core_reachable:
  assumes "create_core server username password peer profile transport = Some c0"
    and "run_ops (core_step cr) es c0 = c"
  shows "length (c_controls c) \<le> 16 \<and> length (c_events c) \<le> 64 \<and> distinct (map rq_operation (c_pending c))
    \<and> (\<forall>p\<in>set (c_pending c). c_state c = home (rq_operation p) \<and> rq_transmissions p \<le> 7
         \<and> rq_rto p = rto_at (rq_transmissions p))
    \<and> (c_state c = StReady \<longrightarrow> c_relay c \<noteq> None \<and> c_allocation_expires_at c \<noteq> None \<and> auth_ready c
         \<and> \<not> c_shutting_down c)"
proof -
  have "core_inv c" using client.run_inv [OF core_inv_create [OF assms(1)], of cr es] assms(2) by simp
  thus ?thesis
    by (auto simp: core_inv_def queues_ok_def pending_ok_def state_ok_def request_ok_def CONTROL_CAPACITY_def
        EVENT_CAPACITY_def MAX_TRANSMISSIONS_def)
qed

definition sample_server :: socket_addr where
  "sample_server = \<lparr>sa_ip = V4 0x0a000001, sa_port = 3478\<rparr>"

definition sample_core :: core where
  "sample_core = the (create_core sample_server [1] [2] sample_server PJNATH_COMPAT Datagram)"

lemma sample_core_created:
  "create_core sample_server [1] [2] sample_server PJNATH_COMPAT Datagram = Some sample_core"
  by (simp add: sample_core_def create_core_def sample_server_def)

definition sample_calls :: "core_event list" where
  "sample_calls = [\<lparr>ce_call = CallStartAllocation, ce_now = 0, ce_tx = (\<lambda>op. replicate 12 3)\<rparr>,
     \<lparr>ce_call = CallPoll, ce_now = 250000000, ce_tx = (\<lambda>op. replicate 12 4)\<rparr>]"

lemma core_reachable_witness:
  "length (c_controls (run_ops (core_step constant_crypto) sample_calls sample_core)) \<le> 16"
  using core_reachable [OF sample_core_created refl, of constant_crypto sample_calls] by blast

text \<open>C20: an allocation lives once: NULL, ALLOCATING, READY and teardown (DEALLOCATING, DEALLOCATED,
  DESTROYING) are passed in this order only. No call of a reachable client leads back: READY left is never
  entered again, and a client torn down never allocates again.\<close>

theorem allocation_one_way:
  assumes "create_core server username password peer profile transport = Some c0"
    and "run_ops (core_step cr) es c0 = c"
  shows "rank (c_state c) \<le> rank (c_state (run_ops (core_step cr) es' c))"
proof -
  have inv: "core_inv c" using client.run_inv [OF core_inv_create [OF assms(1)], of cr es] assms(2) by simp
  have "core_inv c \<Longrightarrow> onward c (run_ops (core_step cr) es' c)" for c
  proof (induction es' arbitrary: c)
    case (Cons e es')
    show ?case using onward_trans [OF core_step_onward [OF Cons.prems] Cons.IH [OF core_step_inv [OF Cons.prems]]]
      by simp
  qed simp
  thus ?thesis using inv by (simp add: onward_def)
qed

lemma allocation_one_way_witness:
  "rank (c_state (run_ops (core_step constant_crypto) sample_calls sample_core))
     \<le> rank (c_state (run_ops (core_step constant_crypto) sample_calls (run_ops (core_step constant_crypto) sample_calls sample_core)))"
  by (rule allocation_one_way [OF sample_core_created refl])

text \<open>C4: a READY client ignores forged responses. A response whose integrity does not verify, other than the
  error codes the protocol sends unsigned (400, 401, 420, 438) and a fingerprinted 437, changes nothing but the
  event queue: state, relay, expiry, channel, timers and pending requests are as before.\<close>

theorem forged_response_ignored:
  assumes "create_core server username password peer profile transport = Some c0"
    and "run_ops (core_step cr) es c0 = c" "c_state c = StReady"
    and "stun_decode packet = Inr m" "response_requires_integrity m"
    and "\<not> verify_integrity cr packet m (c_key c)" "\<not> is_fingerprinted_allocation_mismatch (cr_crc32 cr) m"
  shows "\<exists>evs. snd (input_stun cr tx now packet c) = c\<lparr>c_events := evs\<rparr>"
proof -
  have "core_inv c" using client.run_inv [OF core_inv_create [OF assms(1)], of cr es] assms(2) by simp
  thus ?thesis by (rule input_unverified [OF _ assms(3-7)])
qed

text \<open>A server that answers the first request with a 401 challenge and the second with an allocation, and a
  ChannelBind in flight; the digests are the constant ones.\<close>

definition challenge :: bytes where
  "challenge = message_bytes 0x0113 (replicate 12 3)
     [(ATTR_ERROR_CODE, [0, 0, 4, 1]), (ATTR_REALM, [114]), (ATTR_NONCE, [110])]"

definition allocated :: bytes where
  "allocated = message_bytes 0x0103 (replicate 12 4)
     [(ATTR_XOR_RELAYED_ADDRESS, encode_xor_address sample_server (replicate 12 4)),
      (ATTR_MESSAGE_INTEGRITY, replicate 20 7)]"

definition ready_calls :: "core_event list" where
  "ready_calls = [\<lparr>ce_call = CallStartAllocation, ce_now = 0, ce_tx = (\<lambda>op. replicate 12 3)\<rparr>,
     \<lparr>ce_call = CallInput challenge, ce_now = 1, ce_tx = (\<lambda>op. replicate 12 4)\<rparr>,
     \<lparr>ce_call = CallInput allocated, ce_now = 2, ce_tx = (\<lambda>op. replicate 12 5)\<rparr>,
     \<lparr>ce_call = CallStartChannel, ce_now = 3, ce_tx = (\<lambda>op. replicate 12 6)\<rparr>]"

definition forged_bind :: bytes where
  "forged_bind = message_bytes 0x0109 (replicate 12 6) [(ATTR_MESSAGE_INTEGRITY, replicate 20 8)]"

lemma ready_calls_reach: "c_state (run_ops (core_step constant_crypto) ready_calls sample_core) = StReady"
  by code_simp

lemma forged_decodes:
  "stun_decode forged_bind = Inr (message_of 0x0109 (replicate 12 6) [(ATTR_MESSAGE_INTEGRITY, replicate 20 8)])"
  by code_simp

lemma forged_response_ignored_witness:
  "\<exists>evs. snd (input_stun constant_crypto (\<lambda>op. replicate 12 7) 4 forged_bind
       (run_ops (core_step constant_crypto) ready_calls sample_core))
     = (run_ops (core_step constant_crypto) ready_calls sample_core)\<lparr>c_events := evs\<rparr>"
proof (rule forged_response_ignored [OF sample_core_created refl ready_calls_reach forged_decodes])
  let ?m = "message_of 0x0109 (replicate 12 6) [(ATTR_MESSAGE_INTEGRITY, replicate 20 8)]"
  show "response_requires_integrity ?m" by code_simp
  show "\<not> is_fingerprinted_allocation_mismatch (cr_crc32 constant_crypto) ?m" by code_simp
  show "\<not> verify_integrity constant_crypto forged_bind ?m (c_key (run_ops (core_step constant_crypto) ready_calls sample_core))"
    by code_simp
qed

text \<open>The retransmission ladder over UDP: a request first sent at \<open>t0\<close> and polled at its deadlines
  is transmitted again after 200, 600, 1400, 3000, 4600 and 6200 ms, seven times in all, and the
  poll at 7800 ms gives it up with a timeout.\<close>

theorem retransmission_ladder:
  assumes "c_pending c = [p]" "c_transport c = Datagram" "rq_transmissions p = 1" "rq_rto p = INITIAL_RTO"
    "rq_next_attempt p = t0 + msec 200"
  shows "(n \<le> 6 \<longrightarrow> (\<exists>q. c_pending (deadline_polls n c) = [q] \<and> rq_transmissions q = n + 1
             \<and> rq_next_attempt q = t0 + ladder (n + 1)))
    \<and> deadline_polls 7 c = time_out (t0 + msec 7800) 0 (deadline_polls 6 c)
    \<and> map ladder [1..<8] = map msec [200, 600, 1400, 3000, 4600, 6200, 7800]"
proof -
  have r1: "rto_at 1 = INITIAL_RTO" by (simp add: rto_at_def INITIAL_RTO_def MAX_RTO_def msec_def)
  have run: "\<exists>q. c_pending (deadline_polls n c) = [q] \<and> rq_transmissions q = 1 + n
    \<and> rq_next_attempt q = t0 + ladder (1 + n) \<and> rq_operation q = rq_operation p
    \<and> c_transport (deadline_polls n c) = Datagram" if "n \<le> 6" for n
    by (rule ladder_run) (use assms r1 that ladder_values(1) in auto)
  obtain q where q: "c_pending (deadline_polls 6 c) = [q]" "rq_transmissions q = 7"
    "rq_next_attempt q = t0 + ladder 7" "c_transport (deadline_polls 6 c) = Datagram"
    using run [of 6] by auto
  have snoc: "deadline_polls (Suc m) x = expire_transactions (rq_next_attempt (hd (c_pending (deadline_polls m x)))) (deadline_polls m x)"
    for m x by (induction m arbitrary: x) auto
  have "deadline_polls 7 c = time_out (t0 + msec 7800) 0 (deadline_polls 6 c)"
    using snoc [of 6 c] expire_last [OF q(1,4)] q ladder_values(7) by (simp add: MAX_TRANSMISSIONS_def)
  moreover have "[1..<8] = [1, 2, 3, 4, 5, 6, 7 :: nat]" by code_simp
  hence "map ladder [1..<8] = map msec [200, 600, 1400, 3000, 4600, 6200, 7800]"
    using ladder_values by simp
  ultimately show ?thesis using run [of n] by auto
qed

definition sample_request :: request where
  "sample_request = \<lparr>rq_operation = Allocate, rq_transaction = replicate 12 3, rq_packet = [], rq_next_attempt = msec 200,
     rq_rto = INITIAL_RTO, rq_transmissions = 1, rq_nonce_retries = 0, rq_authenticated = False\<rparr>"

lemma retransmission_ladder_witness:
  "deadline_polls 7 (sample_core\<lparr>c_pending := [sample_request]\<rparr>)
     = time_out (msec 7800) 0 (deadline_polls 6 (sample_core\<lparr>c_pending := [sample_request]\<rparr>))"
proof -
  let ?c = "sample_core\<lparr>c_pending := [sample_request]\<rparr>"
  have "c_transport sample_core = Datagram" by code_simp
  hence "c_pending ?c = [sample_request]" "c_transport ?c = Datagram" "rq_transmissions sample_request = 1"
    "rq_rto sample_request = INITIAL_RTO" "rq_next_attempt sample_request = 0 + msec 200"
    by (simp_all add: sample_request_def)
  from retransmission_ladder [OF this, of 0] show ?thesis unfolding add_0 by blast
qed

text \<open>Maintenance failures. While the allocation has not expired, a failed Refresh or CreatePermission, and the
  first three failed ChannelBinds in a row, keep the allocation READY and schedule one retry between 1 and 30 s
  later, doubling from failure to failure; the fourth failed ChannelBind tears the client down.\<close>

theorem maintenance_retries:
  assumes "c_state c = StReady" "before_deadline now (c_allocation_expires_at c)"
  shows "c_state (complete_failure Refresh s k now c) = StReady
    \<and> c_allocation_refresh (complete_failure Refresh s k now c) = Some (now + retry_delay (u8_saturating_succ (c_refresh_failures c)))
    \<and> c_state (complete_failure Permission s k now c) = StReady
    \<and> c_permission_retry (complete_failure Permission s k now c) = Some (now + retry_delay (u8_saturating_succ (c_permission_failures c)))
    \<and> (if c_channel_failures c < 3
        then c_state (complete_failure Channel s k now c) = StReady
           \<and> c_channel_retry (complete_failure Channel s k now c) = Some (now + retry_delay (c_channel_failures c + 1))
        else c_state (complete_failure Channel s k now c) = StDestroying
           \<and> c_pending (complete_failure Channel s k now c) = [])
    \<and> secs 1 \<le> retry_delay n \<and> retry_delay n \<le> secs 30 \<and> map retry_delay [1, 2, 3, 4, 5, 6] = map secs [1, 2, 4, 8, 16, 30]"
  using assms
  by (auto simp: complete_failure_def schedule_maintenance_retry_def Let_def u8_saturating_succ_def complete_def
      push_event_def MAX_CHANNEL_MAINTENANCE_FAILURES_def retry_delay_def MAINTENANCE_RETRY_BASE_def
      MAINTENANCE_RETRY_MAX_def secs_def)

lemma maintenance_retries_witness:
  "c_state (complete_failure Channel 0 0 5 (sample_core\<lparr>c_state := StReady, c_allocation_expires_at := Some 9,
       c_channel_failures := 3\<rparr>)) = StDestroying"
  using maintenance_retries [of "sample_core\<lparr>c_state := StReady, c_allocation_expires_at := Some 9,
       c_channel_failures := 3\<rparr>" 5 0 0 0]
  by (simp add: before_deadline_def)

text \<open>A full event queue loses two events for one reported: the oldest is dropped and the new one is
  replaced by the overflow notice, whose count says 1.\<close>

theorem event_overflow_loses_two:
  assumes "length (c_events c) = 64"
  shows "c_events (push_event e c) = tl (c_events c)
      @ [(blank_event EVENT_EVENT_OVERFLOW)\<lparr>ev_status := RESULT_BUFFER_TOO_SMALL, ev_dropped := 1\<rparr>]
    \<and> (ev_kind e \<noteq> EVENT_EVENT_OVERFLOW \<longrightarrow> e \<notin> set (tl (c_events c)) \<longrightarrow> e \<notin> set (c_events (push_event e c)))"
  using assms by (auto simp: push_event_def event_ring_def EVENT_CAPACITY_def blank_event_def)

lemma event_overflow_loses_two_witness:
  "blank_event 1 \<notin> set (c_events (push_event (blank_event 1) (sample_core\<lparr>c_events := replicate 64 (blank_event 2)\<rparr>)))"
  using event_overflow_loses_two [of "sample_core\<lparr>c_events := replicate 64 (blank_event 2)\<rparr>" "blank_event 1"]
  by (auto simp: blank_event_def EVENT_EVENT_OVERFLOW_def dest!: list.set_sel(2) [rotated])

end
