(* ===== verification/TurnDriverProps.thy ===== *)
theory TurnDriverProps
  imports TurnDriver TurnCoreProps
begin

text \<open>
  What the driver of \<open>TurnDriver\<close> guarantees: its shared state keeps its invariant and its first
  failure for good, an inbound packet is delivered only from the bound channel and stripped to its
  payload, a batch is encoded completely or not at all, and an allocation mismatch is
  reported under its own name.
\<close>

section \<open>Persistence\<close>

lemma persists_refl [simp]: "persists sh sh"
  by (simp add: persists_def)

lemma persists_trans: "persists a b \<Longrightarrow> persists b c \<Longrightarrow> persists a c"
  by (auto simp: persists_def)

lemma fail_kept [inv_intros]: "persists sh (driver_fail r sh)" "shared_inv sh \<Longrightarrow> shared_inv (driver_fail r sh)"
  by (auto simp: persists_def driver_fail_def shared_inv_def)

lemma cleanup_kept [inv_intros]: "persists sh (request_cleanup sh)" "shared_inv sh \<Longrightarrow> shared_inv (request_cleanup sh)"
  by (auto simp: persists_def request_cleanup_def shared_inv_def)

lemma update_completion_kept [simp]:
  "sn_terminal (update_completion mth f sn) = sn_terminal sn" "sn_channel (update_completion mth f sn) = sn_channel sn"
  by (simp_all add: update_completion_def)

lemma state_event_kept [inv_intros]: "persists sh (state_event e sh)" "shared_inv sh \<Longrightarrow> shared_inv (state_event e sh)"
  by (auto simp: persists_def state_event_def shared_inv_def Let_def)

lemma complete_event_kept [inv_intros]:
  "persists sh (complete_event e sh)" "shared_inv sh \<Longrightarrow> shared_inv (complete_event e sh)"
proof -
  let ?sh = "sh\<lparr>sh_snapshot := update_completion (ev_method e)
           (\<lambda>cp. \<lparr>cp_sequence = cp_sequence cp + 1, cp_status = ev_status e, cp_stun_code = ev_stun_code e\<rparr>)
           (sh_snapshot sh)\<rparr>"
  have "persists sh ?sh" by (simp add: persists_def)
  thus "persists sh (complete_event e sh)"
    unfolding complete_event_def Let_def using fail_kept(1) persists_trans by auto
  assume "shared_inv sh"
  hence "shared_inv ?sh" by (simp add: shared_inv_def)
  thus "shared_inv (complete_event e sh)" unfolding complete_event_def Let_def using fail_kept(2) by auto
qed

lemma no_zero_channel [simp]: "\<not> valid_channel 0"
  by (simp add: valid_channel_def)

lemma channel_event_kept [inv_intros]:
  "channel_event peer e sh = Some sh' \<Longrightarrow> persists sh sh'"
  "channel_event peer e sh = Some sh' \<Longrightarrow> shared_inv sh \<Longrightarrow> shared_inv sh'"
  unfolding channel_event_def by (auto simp: fail_kept split: option.splits if_splits)
    (auto simp: persists_def shared_inv_def)

lemma relay_event_kept [inv_intros]:
  "relay_event c e sh = Some sh' \<Longrightarrow> persists sh sh'"
  "relay_event c e sh = Some sh' \<Longrightarrow> shared_inv sh \<Longrightarrow> shared_inv sh'"
  unfolding relay_event_def by (auto simp: persists_def shared_inv_def split: option.splits if_splits)

lemma handle_event_kept:
  assumes "handle_event peer c e (sh, fl) = Some (sh', fl')"
  shows "persists sh sh' \<and> (shared_inv sh \<longrightarrow> shared_inv sh')"
  using assms unfolding handle_event_def response_error_event_def
  by (auto simp: Let_def fail_kept state_event_kept complete_event_kept intro: channel_event_kept relay_event_kept
      split: if_splits)

lemma drain_events_kept:
  "drain_events peer c s = (ok, c', s') \<Longrightarrow> persists (fst s) (fst s') \<and> (shared_inv (fst s) \<longrightarrow> shared_inv (fst s'))"
proof (induction peer c s rule: drain_events.induct)
  case (1 peer c s)
  obtain o1 c1 where p: "pull_event c = (o1, c1)" by force
  show ?case
  proof (cases o1)
    case None
    thus ?thesis using 1(2) p by (subst (asm) drain_events.simps) simp
  next
    case (Some e)
    show ?thesis
    proof (cases "handle_event peer c1 e s")
      case None
      thus ?thesis using 1(2) p Some by (subst (asm) drain_events.simps) simp
    next
      case h: (Some s1)
      have "drain_events peer c1 s1 = (ok, c', s')"
        using 1(2) p Some h by (subst (asm) drain_events.simps) simp
      note IH = 1(1) [OF p [symmetric] Some h this]
      show ?thesis using IH handle_event_kept [of peer c1 e "fst s" "snd s" "fst s1" "snd s1"] h persists_trans by auto
    qed
  qed
qed

lemma drain_controls_kept:
  "drain_controls io server c sent sh = (ok, c', sent', sh') \<Longrightarrow> persists sh sh' \<and> (shared_inv sh \<longrightarrow> shared_inv sh')"
proof (induction io server c sent sh rule: drain_controls.induct)
  case (1 io server c sent sh)
  have k: "persists sh (sh\<lparr>sh_control_sent := True\<rparr>)" "shared_inv sh \<Longrightarrow> shared_inv (sh\<lparr>sh_control_sent := True\<rparr>)"
    by (auto simp: persists_def shared_inv_def)
  obtain r c1 where p: "pull_control c = (r, c1)" by force
  show ?case
  proof (cases "\<exists>wire. r = Inr (Some (wire, server)) \<and> io (length sent)")
    case True
    then obtain wire where r: "r = Inr (Some (wire, server))" "io (length sent)" by blast
    have "drain_controls io server c1 (sent @ [wire]) (sh\<lparr>sh_control_sent := True\<rparr>) = (ok, c', sent', sh')"
      using 1(2) p r by (subst (asm) drain_controls.simps) simp
    thus ?thesis using 1(1) [OF p [symmetric] r(1) refl refl] r k persists_trans by auto
  next
    case False
    thus ?thesis using 1(2) p
      by (subst (asm) drain_controls.simps) (auto split: sum.splits option.splits prod.splits if_splits)
  qed
qed

lemma pump_kept:
  assumes "pump_native cr tx now io server peer (c, sent, sh) = (r, c', sent', sh')"
  shows "persists sh sh' \<and> (shared_inv sh \<longrightarrow> shared_inv sh')"
proof -
  obtain pr c1 where p: "poll cr tx now c = (pr, c1)" by force
  show ?thesis
  proof (cases pr)
    case (Inl u)
    thus ?thesis using assms p by (simp add: pump_native_def)
  next
    case (Inr nt)
    obtain ok c2 s2 sh1 where d: "drain_controls io server c1 sent sh = (ok, c2, s2, sh1)" by (metis prod_cases4)
    note k1 = drain_controls_kept [OF d]
    obtain ok3 c3 s3 where e: "drain_events peer c2 (sh1, no_flags) = (ok3, c3, s3)" by (metis prod_cases3)
    have k2: "persists sh1 (fst s3) \<and> (shared_inv sh1 \<longrightarrow> shared_inv (fst s3))"
      using drain_events_kept [OF e] by simp
    have k3: "persists (fst s3) (finish_pump s3) \<and> (shared_inv (fst s3) \<longrightarrow> shared_inv (finish_pump s3))"
      by (cases s3) (auto simp: finish_pump_def fail_kept)
    have "sh' = sh1 \<or> sh' = fst s3 \<or> sh' = finish_pump s3"
      using assms p Inr d e by (auto simp: pump_native_def split: bool.splits)
    thus ?thesis using k1 k2 k3 persists_trans by blast
  qed
qed

lemma deliver_kept:
  "deliver_packet b sh = (a, sh') \<Longrightarrow> persists sh sh' \<and> (shared_inv sh \<longrightarrow> shared_inv sh')"
  by (auto simp: deliver_packet_def stash_protected_def persists_def shared_inv_def PROTECTED_INCOMING_def
      split: if_splits)

lemma process_packet_kept:
  "process_packet cr tx now b (c, sh) = (a, c', sh') \<Longrightarrow> persists sh sh' \<and> (shared_inv sh \<longrightarrow> shared_inv sh')"
  by (auto simp: process_packet_def deliver_kept split: option.splits prod.splits if_splits sum.splits)

lemma deficit_kept:
  "process_deficit_packet cr tx now w (c, sh) = (a, c', sh') \<Longrightarrow> persists sh sh' \<and> (shared_inv sh \<longrightarrow> shared_inv sh')"
  by (auto simp: process_deficit_packet_def persists_def shared_inv_def split: option.splits prod.splits if_splits)

lemma receiver_kept: "persists sh (snd (receiver_poll sh)) \<and> (shared_inv sh \<longrightarrow> shared_inv (snd (receiver_poll sh)))"
  by (auto simp: receiver_poll_def persists_def shared_inv_def split: option.splits list.splits)

lemma driver_step_kept:
  assumes "driver_step cr server peer e (c, sent, sh) = (c', sent', sh')"
  shows "persists sh sh' \<and> (shared_inv sh \<longrightarrow> shared_inv sh')"
proof (cases "de_call e")
  case DrPump
  obtain r x y z where "pump_native cr (de_tx e) (de_now e) (de_io e) server peer (c, sent, sh) = (r, x, y, z)"
    by (metis prod_cases4)
  thus ?thesis using pump_kept assms DrPump by (fastforce simp: driver_step_def)
next
  case (DrPacket b)
  thus ?thesis using assms by (auto simp: driver_step_def dest: process_packet_kept split: prod.splits)
next
  case (DrDeficit w)
  thus ?thesis using assms by (auto simp: driver_step_def dest: deficit_kept split: prod.splits)
next
  case DrReceive
  thus ?thesis using assms receiver_kept [of sh] by (auto simp: driver_step_def)
next
  case DrOwnerGone
  thus ?thesis using assms by (auto simp: driver_step_def persists_def shared_inv_def)
qed (use assms in \<open>auto simp: driver_step_def fail_kept cleanup_kept\<close>)

interpretation turn_driver: driven "driver_step cr server peer"
  "\<lambda>s. shared_inv (snd (snd s)) \<and> persists sh0 (snd (snd s))"
proof
  fix s :: driver and e
  assume a: "shared_inv (snd (snd s)) \<and> persists sh0 (snd (snd s))"
  obtain c sent sh where s: "s = (c, sent, sh)" by (rule prod_cases3)
  obtain c' sent' sh' where r: "driver_step cr server peer e s = (c', sent', sh')" by (rule prod_cases3)
  show "shared_inv (snd (snd (driver_step cr server peer e s)))
      \<and> persists sh0 (snd (snd (driver_step cr server peer e s)))"
    using driver_step_kept [of cr server peer e c sent sh c' sent' sh'] a s r persists_trans by auto
qed

section \<open>Data packets\<close>

lemma encode_after_validation:
  assumes "packet_ok b" "channel_data_padding b ch = Inr k"
  shows "\<exists>c. encode_channel_data ch b = Inr c"
proof -
  have e: "pb_start b \<ge> 4" "\<exists>e. usize_checked_add (pb_end b) k = Some e \<and> e \<le> PACKET_CAPACITY"
    using assms(2) unfolding channel_data_padding_def Let_def
    by (cases "valid_channel ch"; cases "65535 < buf_len b"; auto simp: not_less split: if_splits option.splits)+
  obtain b1 where b1: "extend_tail k b = Inr b1" "pb_start b1 = pb_start b"
  proof -
    obtain x where x: "usize_checked_add (pb_end b) k = Some x" "x \<le> PACKET_CAPACITY" using e(2) by blast
    have "extend_tail k b = Inr (b\<lparr>pb_end := x\<rparr>)"
      unfolding extend_tail_def x(1) option.case using x(2) by simp
    thus ?thesis using that by simp
  qed
  have "\<exists>b3. prepend 4 (write_at (pb_end b) (replicate k 0) b1) = Inr b3"
    using e(1) b1(2) by (simp add: prepend_def write_at_def)
  thus ?thesis using assms(2) b1(1) by (auto simp: encode_channel_data_def Let_def)
qed

lemma encode_all_total:
  "\<forall>b\<in>set bs. packet_ok b \<Longrightarrow> validate_all ch bs = None
    \<Longrightarrow> \<exists>cs. encode_all ch bs = Inr cs \<and> list_all2 (\<lambda>b c. as_slice c = channel_message ch (as_slice b)) bs cs"
proof (induction bs)
  case (Cons b bs)
  obtain k where k: "channel_data_padding b ch = Inr k" "validate_all ch bs = None"
    using Cons.prems(2) by (auto split: sum.splits)
  obtain c where c: "encode_channel_data ch b = Inr c" using encode_after_validation [OF _ k(1)] Cons.prems(1) by auto
  show ?case using Cons.IH k(2) c encode_bytes(1) [OF _ c] Cons.prems(1) by auto
qed simp

section \<open>Properties\<close>

text \<open>The shared state of the TURN driver over any sequence of its steps (pumping the core, data and
  control packets, failures, cleanup, reads by the owner, any call of the core in between): the
  first terminal reason is never replaced or cleared, closing and the sent flag are never
  unset, the flag that guards the terminal reason agrees with it, the protected queue holds at
  most 32 and the incoming queue at most 256 packets, and the channel on which data is accepted and sent is either
  none or the valid channel published in the snapshot.\<close>

theorem driver_shared_safe:
  assumes "shared_inv sh0" "run_ops (driver_step cr server peer) es (c0, sent0, sh0) = (c, sent, sh)"
  shows "shared_inv sh \<and> (\<forall>r. sn_terminal (sh_snapshot sh0) = Some r \<longrightarrow> sn_terminal (sh_snapshot sh) = Some r \<and> terminal sh = Some r)
    \<and> (sh_closing sh0 \<longrightarrow> sh_closing sh) \<and> (sh_control_sent sh0 \<longrightarrow> sh_control_sent sh)"
proof -
  have "shared_inv sh \<and> persists sh0 sh"
    using turn_driver.run_inv [where s = "(c0, sent0, sh0)" and ?sh0.0 = sh0 and es = es and cr = cr and server = server and peer = peer] assms by simp
  thus ?thesis by (auto simp: persists_def terminal_def shared_inv_def)
qed

lemma driver_shared_safe_witness:
  "\<exists>c sent sh. run_ops (driver_step constant_crypto (c_server sample_core) (c_peer sample_core))
      [\<lparr>de_call = DrFail ForceDestroyed, de_now = 0, de_tx = (\<lambda>_. []), de_io = (\<lambda>_. True)\<rparr>,
       \<lparr>de_call = DrFail RebindExhausted, de_now = 0, de_tx = (\<lambda>_. []), de_io = (\<lambda>_. True)\<rparr>]
      (sample_core, [], new_shared) = (c, sent, sh) \<and> shared_inv sh \<and> terminal sh = Some ForceDestroyed"
proof -
  let ?e = "\<lambda>r. \<lparr>de_call = DrFail r, de_now = 0, de_tx = (\<lambda>_. []), de_io = (\<lambda>_. True)\<rparr>"
  let ?run = "\<lambda>es s. run_ops (driver_step constant_crypto (c_server sample_core) (c_peer sample_core)) es s"
  have 0: "shared_inv new_shared" by (simp add: shared_inv_def new_shared_def blank_snapshot_def)
  obtain c sent sh where r: "?run [?e ForceDestroyed] (sample_core, [], new_shared) = (c, sent, sh)"
    by (rule prod_cases3)
  have t: "sn_terminal (sh_snapshot sh) = Some ForceDestroyed"
    using r by (auto simp: driver_step_def driver_fail_def new_shared_def blank_snapshot_def)
  obtain c' sent' sh' where r': "?run [?e RebindExhausted] (c, sent, sh) = (c', sent', sh')" by (rule prod_cases3)
  show ?thesis using driver_shared_safe [OF 0 r] driver_shared_safe [OF _ r'] t r r' by auto
qed

text \<open>An inbound packet reaches the session only if it is a complete ChannelData message of the bound
  channel, and then as exactly its payload: nothing is delivered from another channel,
  from STUN or from malformed packets, and what is delivered is appended to the incoming queue, or, when that is full, to the
  protected queue if the packet is one that must survive pressure (the oldest protected one
  then makes room), or counted as dropped.\<close>

theorem delivered_payload:
  assumes "packet_ok b" "process_packet cr tx now b (c, sh) = (a, c', sh')" "sh' \<noteq> sh"
  shows "\<exists>n p. channel_data_header (as_slice b) = Some (sh_channel sh, n) \<and> c' = c
    \<and> as_slice p = take n (drop 4 (as_slice b)) \<and> length (as_slice p) = n
    \<and> (if length (sh_incoming sh) < INCOMING_QUEUE_CAPACITY then sh' = sh\<lparr>sh_incoming := sh_incoming sh @ [p]\<rparr>
       else if keep_under_pressure (as_slice p) then sh' = stash_protected p sh
       else sh' = sh\<lparr>sh_queue_full_drops := sh_queue_full_drops sh + 1\<rparr>)"
proof -
  obtain n b1 b2 where h: "channel_data_header (as_slice b) = Some (sh_channel sh, n)"
    "trim_front 4 b = Inr b1" "truncate_buf n b1 = Inr b2" "deliver_packet b2 sh = (a, sh')" "c' = c"
    using assms(2,3) by (auto simp: process_packet_def split: option.splits prod.splits if_splits sum.splits)
  have p: "as_slice b2 = take n (drop 4 (as_slice b))" using trim_slice [OF h(2)] truncate_slice [OF h(3)] by simp
  have "n \<le> length (as_slice b) - 4" using h(1) by (auto simp: channel_data_header_def Let_def split: if_splits)
  hence "length (as_slice b2) = n" using p by simp
  thus ?thesis using h(1,4,5) p assms(3)
    by (intro exI [of _ n] exI [of _ b2]) (auto simp: deliver_packet_def split: if_splits)
qed

text \<open>A batch of outbound packets is encoded completely or not at all. If validation accepts it, the
  encoding cannot fail halfway and the packets on the wire are the ChannelData messages of the given payloads in order; an
  error leaves every packet unencoded, and nothing is sent on a closing or failed allocation
  or before a channel is bound.\<close>

theorem batch_all_or_nothing:
  assumes "\<forall>b\<in>set bs. packet_ok b" "bs \<noteq> []"
  shows "case prepare_batch bs sh of
      Inr cs \<Rightarrow> \<not> sh_closing sh \<and> terminal sh = None \<and> sh_channel sh \<noteq> 0
        \<and> list_all2 (\<lambda>b c. as_slice c = channel_message (sh_channel sh) (as_slice b)) bs cs
    | Inl (SendEncoding e) \<Rightarrow> validate_all (sh_channel sh) bs = Some e
    | Inl e \<Rightarrow> sh_closing sh \<or> terminal sh \<noteq> None \<or> sh_channel sh = 0"
  using encode_all_total [OF assms(1), of "sh_channel sh"] assms(2)
  by (auto simp: prepare_batch_def ensure_open_def split: sum.splits option.splits if_splits send_error.splits)

text \<open>A data packet of two bytes on channel 0x4000, and a driver with that channel bound.\<close>

definition sample_data :: packet_buf where
  "sample_data = (write_at 64 (channel_message 0x4000 [7, 8]) (buf_of (replicate 2304 0)))\<lparr>pb_end := 72\<rparr>"

definition bound_shared :: driver_shared where
  "bound_shared = new_shared\<lparr>sh_channel := 0x4000, sh_snapshot := blank_snapshot\<lparr>sn_channel := Some 0x4000\<rparr>\<rparr>"

lemma sample_data_ok: "packet_ok sample_data" "as_slice sample_data = channel_message 0x4000 [7, 8]"
proof -
  have l: "length (channel_message 0x4000 [7, 8]) = 8" by (simp add: length_channel_message pad4_def)
  show "packet_ok sample_data"
    by (simp add: sample_data_def packet_ok_def write_at_def buf_of_def PACKET_CAPACITY_def PACKET_HEADROOM_def l)
  have "subslice (take 64 (replicate 2304 0) @ channel_message 0x4000 [7, 8] @ drop (64 + 8) (replicate 2304 0)) 64 (64 + 8)
      = channel_message 0x4000 [7, 8]"
    using subslice_write [of 64 "channel_message 0x4000 [7, 8]" "replicate 2304 0"] l by simp
  thus "as_slice sample_data = channel_message 0x4000 [7, 8]"
    by (simp add: sample_data_def as_slice_def write_at_def buf_of_def PACKET_HEADROOM_def l)
qed

lemma delivered_payload_witness:
  "\<exists>a c' sh'. process_packet constant_crypto (\<lambda>_. []) 0 sample_data (sample_core, bound_shared) = (a, c', sh')
    \<and> map as_slice (sh_incoming sh') = [[7, 8]]"
proof -
  obtain a c' sh' where r: "process_packet constant_crypto (\<lambda>_. []) 0 sample_data (sample_core, bound_shared) = (a, c', sh')"
    by (rule prod_cases3)
  have h: "channel_data_header (as_slice sample_data) = Some (0x4000, 2)"
    using header_of_message [of "0x4000" "[7, 8]"] sample_data_ok(2) by (simp add: valid_channel_def)
  obtain b1 b2 where b: "trim_front 4 sample_data = Inr b1" "truncate_buf 2 b1 = Inr b2"
    by (simp add: trim_front_def truncate_buf_def buf_len_def sample_data_def buf_of_def write_at_def PACKET_HEADROOM_def)
  have ne: "sh' \<noteq> bound_shared"
    using r h b by (auto simp: process_packet_def bound_shared_def new_shared_def
        deliver_packet_def INCOMING_QUEUE_CAPACITY_def PACKET_POOL_PER_WORKER_def)
  obtain n p where n: "channel_data_header (as_slice sample_data) = Some (sh_channel bound_shared, n)"
    "as_slice p = take n (drop 4 (as_slice sample_data))" "sh' = bound_shared\<lparr>sh_incoming := sh_incoming bound_shared @ [p]\<rparr>"
    using delivered_payload [OF sample_data_ok(1) r ne]
    by (auto simp: bound_shared_def new_shared_def INCOMING_QUEUE_CAPACITY_def PACKET_POOL_PER_WORKER_def)
  have "as_slice p = [7, 8]" using n(1,2) h sample_data_ok(2) by (simp add: channel_message_def channel_header_def)
  thus ?thesis using r n(3) by (simp add: bound_shared_def new_shared_def)
qed

lemma batch_all_or_nothing_witness:
  "prepare_batch [sample_data, sample_data] new_shared = Inl SendUnbound
   \<and> (case prepare_batch [sample_data, sample_data] bound_shared of Inr cs \<Rightarrow> length cs = 2
      | Inl e \<Rightarrow> sh_channel bound_shared = 0 \<or> (\<exists>x. e = SendEncoding x))"
proof -
  have "\<forall>b\<in>set [sample_data, sample_data]. packet_ok b" using sample_data_ok by simp
  from batch_all_or_nothing [OF this, of bound_shared] show ?thesis
    by (auto simp: bound_shared_def new_shared_def prepare_batch_def ensure_open_def terminal_def blank_snapshot_def
        split: sum.splits send_error.splits dest: list_all2_lengthD)
qed

section \<open>Allocation mismatches\<close>

lemma mismatch_agrees: "requires_allocation_recreate op code \<longleftrightarrow> is_allocation_mismatch_stun (op_method op) (int code)"
  by (cases op) (auto simp: requires_allocation_recreate_def is_allocation_mismatch_stun_def METHOD_CHANNEL_BIND_def)

text \<open>An allocation mismatch is reported under its own name. When a pending request is answered by an
  error that means the allocation is gone (437, or 400 to a ChannelBind), the core destroys
  the allocation and the driver, on draining the events, ends with the terminal reason that names that request and
  code, not with the anonymous report that the allocation was destroyed; the channel is withdrawn.\<close>

theorem mismatch_named:
  assumes "error_code m = Some code" "code \<noteq> 0" "requires_allocation_recreate (rq_operation p) code"
    "c_events c = []" "c_state c = StReady" "rq_operation p \<noteq> Deallocate"
    "\<not> sh_closing sh" "sn_terminal (sh_snapshot sh) = None"
    "drain_events peer (input_error cr tx now m (op_method (rq_operation p)) p c) (sh, no_flags) = (ok, c', s')"
  shows "ok \<and> terminal (finish_pump s') = Some (RequestFailed (op_method (rq_operation p)) 0 (int code))
    \<and> sh_channel (finish_pump s') = 0 \<and> sn_channel (sh_snapshot (finish_pump s')) = None
    \<and> sn_state (sh_snapshot (finish_pump s')) = state_code StDestroying"
proof -
  have mm: "is_allocation_mismatch_stun (op_method (rq_operation p)) (int code)"
    using assms(3) by (simp add: mismatch_agrees)
  show ?thesis using assms mm
    by (simp add: input_error_def Let_def response_error_def push_event_def event_ring_def destroy_allocation_def
        complete_def set_state_def EVENT_CAPACITY_def drain_events.simps pull_event_def handle_event_def
        blank_event_def EVENT_STATE_def EVENT_REQUEST_COMPLETE_def EVENT_STUN_RESPONSE_ERROR_def
        response_error_event_def complete_event_def state_event_def driver_fail_def no_flags_def
        finish_pump_def terminal_def RESULT_PROTOCOL_def) auto
qed

text \<open>A Refresh error response with code 437, the request it answers, and a READY core.\<close>

definition mismatch_response :: bytes where
  "mismatch_response = [0x01, 0x14, 0, 8, 0x21, 0x12, 0xa4, 0x42, 1, 2, 3, 4, 5, 6, 7, 8, 9, 10, 11, 12,
     0, 9, 0, 4, 0, 0, 4, 37]"

definition refresh_request :: request where
  "refresh_request = \<lparr>rq_operation = Refresh, rq_transaction = [1, 2, 3, 4, 5, 6, 7, 8, 9, 10, 11, 12],
     rq_packet = [], rq_next_attempt = 0, rq_rto = 0, rq_transmissions = 1, rq_nonce_retries = 0, rq_authenticated = True\<rparr>"

lemma mismatch_named_witness:
  "\<exists>m ok c' s'. stun_decode mismatch_response = Inr m
    \<and> drain_events (c_peer sample_core) (input_error constant_crypto (\<lambda>_. []) 0 m 4 refresh_request
         (sample_core\<lparr>c_state := StReady\<rparr>)) (bound_shared, no_flags) = (ok, c', s')
    \<and> terminal (finish_pump s') = Some (RequestFailed 4 0 437)"
proof -
  let ?m = "\<lparr>sm_raw = mismatch_response, sm_kind = 0x0114,
      sm_transaction = [1, 2, 3, 4, 5, 6, 7, 8, 9, 10, 11, 12], sm_end = 28\<rparr>"
  have d: "stun_decode mismatch_response = Inr ?m" by code_simp
  have e: "error_code ?m = Some 437" by code_simp
  obtain ok c' s' where r: "drain_events (c_peer sample_core) (input_error constant_crypto (\<lambda>_. []) 0 ?m
      (op_method (rq_operation refresh_request)) refresh_request (sample_core\<lparr>c_state := StReady\<rparr>)) (bound_shared, no_flags) = (ok, c', s')"
    by (rule prod_cases3)
  have "terminal (finish_pump s') = Some (RequestFailed (op_method (rq_operation refresh_request)) 0 (int 437))"
    using mismatch_named [OF e _ _ _ _ _ _ _ r]
    by (simp add: requires_allocation_recreate_def refresh_request_def sample_core_def create_core_def sample_server_def
        bound_shared_def new_shared_def blank_snapshot_def)
  thus ?thesis using d r by (intro exI conjI) (auto simp: refresh_request_def)
qed

end
