(* ===== verification/Text.thy ===== *)
theory Text
  imports Prelude
begin

text \<open>
  The operations of \<open>str\<close> the engine's parsers and printers use. Text is a list of characters with
  codes below 256, the first page of Unicode; \<open>trim\<close> removes the white space of that page.
\<close>

section \<open>Strings\<close>

text \<open>The operations of \<open>str\<close> the parser uses.\<close>

definition is_space :: "char \<Rightarrow> bool" where
  "is_space c \<longleftrightarrow> of_char c \<in> {9, 10, 11, 12, 13, 32, 0x85, 0xa0 :: nat}"

definition trim :: "string \<Rightarrow> string" where
  "trim s = rev (dropWhile is_space (rev (dropWhile is_space s)))"

definition ascii_lower :: "char \<Rightarrow> char" where
  "ascii_lower c = (if 65 \<le> (of_char c :: nat) \<and> (of_char c :: nat) \<le> 90 then char_of (of_char c + 32 :: nat) else c)"

definition to_lower :: "string \<Rightarrow> string" where
  "to_lower s = map ascii_lower s"

definition split_once :: "char \<Rightarrow> string \<Rightarrow> (string \<times> string) option" where
  "split_once c s = (if c \<in> set s then Some (takeWhile (\<lambda>x. x \<noteq> c) s, tl (dropWhile (\<lambda>x. x \<noteq> c) s)) else None)"

definition rsplit_once :: "char \<Rightarrow> string \<Rightarrow> (string \<times> string) option" where
  "rsplit_once c s = map_option (\<lambda>(a, b). (rev b, rev a)) (split_once c (rev s))"

text \<open>\<open>split_once\<close> at a two-character separator.\<close>

fun split_once2 :: "char \<Rightarrow> char \<Rightarrow> string \<Rightarrow> (string \<times> string) option" where
  "split_once2 c d (x # y # s) = (if x = c \<and> y = d then Some ([], s)
     else map_option (\<lambda>(a, b). (x # a, b)) (split_once2 c d (y # s)))"
| "split_once2 c d s = None"

fun split_all :: "char \<Rightarrow> string \<Rightarrow> string list" where
  "split_all c [] = [[]]"
| "split_all c (x # s) = (if x = c then [] # split_all c s
     else case split_all c s of p # ps \<Rightarrow> (x # p) # ps | [] \<Rightarrow> [[x]])"

text \<open>\<open>parse::<u16>()\<close>: an optional plus sign and at least one digit.\<close>

definition digit :: "char \<Rightarrow> nat option" where
  "digit c = (if 48 \<le> (of_char c :: nat) \<and> (of_char c :: nat) \<le> 57 then Some (of_char c - 48) else None)"

fun digits :: "nat \<Rightarrow> nat \<Rightarrow> string \<Rightarrow> nat option" where
  "digits limit n [] = Some n"
| "digits limit n (c # s) = (case digit c of None \<Rightarrow> None
     | Some d \<Rightarrow> if limit < n * 10 + d then None else digits limit (n * 10 + d) s)"

definition parse_unsigned :: "nat \<Rightarrow> string \<Rightarrow> nat option" where
  "parse_unsigned limit s =
    (let t = (case s of c # r \<Rightarrow> if c = CHR ''+'' \<and> r \<noteq> [] then r else s | [] \<Rightarrow> s)
     in if t = [] then None else digits limit 0 t)"

definition parse_u16 :: "string \<Rightarrow> u16 option" where
  "parse_u16 s = map_option word_of_nat (parse_unsigned 65535 s)"

text \<open>Decimal printing (\<open>to_string\<close>).\<close>

fun decimal :: "nat \<Rightarrow> string" where
  "decimal n = (if n < 10 then [char_of (48 + n)] else decimal (n div 10) @ [char_of (48 + n mod 10)])"

declare decimal.simps [simp del]

section \<open>Facts about printing and splitting\<close>

lemma digit_char: "d < 10 \<Longrightarrow> digit (char_of (48 + d)) = Some d"
  by (simp add: digit_def of_char_of)

lemma digits_append: "digits l n (s @ t) = (case digits l n s of None \<Rightarrow> None | Some m \<Rightarrow> digits l m t)"
  by (induction l n s rule: digits.induct) (auto split: option.splits)

lemma decimal_not_Nil [simp]: "decimal n \<noteq> []"
  by (subst decimal.simps) simp

lemma decimal_digits: "n \<le> l \<Longrightarrow> digits l 0 (decimal n) = Some n"
proof (induction n rule: decimal.induct)
  case (1 n)
  show ?case
  proof (cases "n < 10")
    case True
    thus ?thesis using 1(2) by (subst decimal.simps) (simp add: digit_char del: char_of_nat)
  next
    case False
    have "digits l 0 (decimal (n div 10)) = Some (n div 10)" using 1 False by simp
    moreover have "n div 10 * 10 + n mod 10 = n" by simp
    ultimately show ?thesis using False 1(2)
      by (subst decimal.simps) (simp add: digits_append digit_char)
  qed
qed

lemma decimal_chars: "c \<in> set (decimal n) \<Longrightarrow> \<exists>d<10. c = char_of (48 + d :: nat)"
proof (induction n rule: decimal.induct)
  case (1 n)
  show ?case
  proof (cases "n < 10")
    case True
    thus ?thesis using 1(2) by (subst (asm) decimal.simps) auto
  next
    case False
    have "c \<in> set (decimal (n div 10)) \<or> c = char_of (48 + n mod 10)"
      using 1(2) False by (subst (asm) decimal.simps) auto
    thus ?thesis
    proof
      assume "c = char_of (48 + n mod 10)"
      thus ?thesis by (intro exI [of _ "n mod 10"]) simp
    qed (use 1(1) False in blast)
  qed
qed

lemma decimal_no_char:
  assumes "(of_char c :: nat) < 48 \<or> 57 < (of_char c :: nat)"
  shows "c \<notin> set (decimal n)"
proof
  assume "c \<in> set (decimal n)"
  then obtain d where "d < 10" "c = char_of (48 + d :: nat)" using decimal_chars by blast
  thus False using assms by (simp add: of_char_of)
qed

lemma parse_decimal: "parse_u16 (decimal (unat p)) = Some p"
proof -
  have p: "unat p \<le> 65535" using unat16_bound [of p] by simp
  have "CHR ''+'' \<notin> set (decimal (unat p))" by (rule decimal_no_char) simp
  moreover obtain c r where cr: "decimal (unat p) = c # r" by (cases "decimal (unat p)") auto
  ultimately have "parse_unsigned 65535 (decimal (unat p)) = digits 65535 0 (decimal (unat p))"
    by (auto simp: parse_unsigned_def Let_def)
  thus ?thesis using decimal_digits [OF p] by (simp add: parse_u16_def)
qed

lemma trim_id: "\<forall>c\<in>set s. \<not> is_space c \<Longrightarrow> trim s = s"
proof -
  assume a: "\<forall>c\<in>set s. \<not> is_space c"
  have d: "dropWhile is_space t = t" if "\<forall>c\<in>set t. \<not> is_space c" for t using that by (cases t) auto
  show ?thesis using a by (simp add: trim_def d)
qed

lemma split_once2_first:
  "c \<notin> set h \<Longrightarrow> split_once2 c d (h @ c # d # r) = Some (h, r)"
proof (induction h)
  case (Cons x h)
  thus ?case by (cases h) auto
qed simp

lemma split_once_None: "c \<notin> set s \<Longrightarrow> split_once c s = None"
  by (simp add: split_once_def)

lemma rsplit_once_last: "c \<notin> set r \<Longrightarrow> rsplit_once c (h @ c # r) = Some (h, r)"
  by (auto simp: rsplit_once_def split_once_def takeWhile_append dropWhile_append)

lemma split_all_simple: "c \<notin> set s \<Longrightarrow> split_all c s = [s]"
  by (induction s) auto

lemma split_all_sep: "c \<notin> set h \<Longrightarrow> split_all c (h @ c # r) = h # split_all c r"
  by (induction h) auto

end
