(* ===== verification/TurnEndpoint.thy ===== *)
theory TurnEndpoint
  imports Text
begin

text \<open>
  \<open>turn_endpoint.rs\<close>: parsing a TURN address and choosing the transports it may be reached over.
  Parsing an IP address is the standard library's and an argument.
\<close>

section \<open>Data\<close>

datatype transport_mode = ModeUdp | ModeTcpTls

datatype wire_transport = WireUdp | WireTcp | WireTls

record turn_endpoint =
  te_host :: string
  te_port :: u16
  te_transport :: wire_transport

datatype turn_scheme = Turn | Turns | Bare

datatype uri_transport = UriUdp | UriTcp

datatype endpoint_error =
    EndpointEmpty | AuthorityEmpty | TransportUnsupported | TransportDuplicate | TurnsOverUdp
  | Ipv6Malformed | Ipv6Unbracketed | HostEmpty | PortInvalid
  | TlsInUdpMode | TcpInUdpMode | UdpInTcpMode | NotTls | TlsNeedsHostname

definition parse_transport_mode :: "string \<Rightarrow> transport_mode option" where
  "parse_transport_mode s = (let v = to_lower (trim s) in
     if v = ''udp'' then Some ModeUdp
     else if v \<in> {''tcp'', ''tcp_tls'', ''tcp-tls'', ''tcp/tls''} then Some ModeTcpTls else None)"

definition mode_text :: "transport_mode \<Rightarrow> string" where
  "mode_text m = (case m of ModeUdp \<Rightarrow> ''UDP'' | ModeTcpTls \<Rightarrow> ''TCP'')"

definition wire_text :: "wire_transport \<Rightarrow> string" where
  "wire_text t = (case t of WireUdp \<Rightarrow> ''UDP'' | WireTcp \<Rightarrow> ''TCP'' | WireTls \<Rightarrow> ''TLS'')"

section \<open>Operations\<close>

definition socket_authority :: "turn_endpoint \<Rightarrow> string" where
  "socket_authority e = (if CHR '':'' \<in> set (te_host e)
     then ''['' @ te_host e @ '']:'' @ decimal (unat (te_port e))
     else te_host e @ '':'' @ decimal (unat (te_port e)))"

definition tls_server_name :: "(string \<Rightarrow> bool) \<Rightarrow> turn_endpoint \<Rightarrow> endpoint_error + string" where
  "tls_server_name is_ip e = (if te_transport e \<noteq> WireTls then Inl NotTls
     else if is_ip (te_host e) then Inl TlsNeedsHostname else Inr (te_host e))"

definition strip_scheme :: "string \<Rightarrow> turn_scheme \<times> string" where
  "strip_scheme v = (if starts_with (to_lower v) ''turns:'' then (Turns, drop 6 v)
     else if starts_with (to_lower v) ''turn:'' then (Turn, drop 5 v) else (Bare, v))"

definition parse_parameter :: "string \<Rightarrow> endpoint_error + uri_transport option" where
  "parse_parameter p =
    (let (key, v) = (case split_once (CHR ''='') p of Some kv \<Rightarrow> kv | None \<Rightarrow> (p, []))
     in if to_lower key = ''transport'' then
          (if to_lower v = ''udp'' then Inr (Some UriUdp) else if to_lower v = ''tcp'' then Inr (Some UriTcp)
           else Inl TransportUnsupported)
        else Inr None)"

fun parse_parameters :: "string list \<Rightarrow> uri_transport option \<Rightarrow> endpoint_error + uri_transport option" where
  "parse_parameters [] t = Inr t"
| "parse_parameters (p # ps) t =
    (if p = [] then parse_parameters ps t else
     case parse_parameter p of Inl e \<Rightarrow> Inl e
     | Inr None \<Rightarrow> parse_parameters ps t
     | Inr (Some u) \<Rightarrow> if t \<noteq> None then Inl TransportDuplicate else parse_parameters ps (Some u))"

definition parse_turn_uri :: "string \<Rightarrow> endpoint_error + turn_scheme \<times> string \<times> uri_transport option" where
  "parse_turn_uri s =
    (let v = trim s in
     if v = [] then Inl EndpointEmpty else
     let (scheme, rest) = strip_scheme v;
         (authority, query) = (case split_once (CHR ''?'') rest of Some aq \<Rightarrow> aq | None \<Rightarrow> (rest, []))
     in if authority = [] then Inl AuthorityEmpty
        else case parse_parameters (split_all (CHR ''&'') query) None of Inl e \<Rightarrow> Inl e
        | Inr t \<Rightarrow> if scheme = Turns \<and> t = Some UriUdp then Inl TurnsOverUdp else Inr (scheme, authority, t))"

definition default_port :: "turn_scheme \<Rightarrow> u16" where
  "default_port s = (case s of Turns \<Rightarrow> 5349 | _ \<Rightarrow> 3478)"

definition port_of :: "string \<Rightarrow> endpoint_error + u16" where
  "port_of s = (case parse_u16 s of None \<Rightarrow> Inl PortInvalid | Some p \<Rightarrow> Inr p)"

definition parse_authority :: "string \<Rightarrow> turn_scheme \<Rightarrow> endpoint_error + string \<times> u16" where
  "parse_authority v scheme =
    (if starts_with v ''['' then
       (case split_once2 (CHR '']'') (CHR '':'') (tl v) of
          Some (host, port) \<Rightarrow> bind_result (port_of port) (\<lambda>p. Inr (host, p))
        | None \<Rightarrow> if tl v \<noteq> [] \<and> last (tl v) = CHR '']'' then Inr (butlast (tl v), default_port scheme)
                  else Inl Ipv6Malformed)
     else if 1 < length (filter (\<lambda>c. c = CHR '':'') v) then Inl Ipv6Unbracketed
     else case rsplit_once (CHR '':'') v of
       Some (host, port) \<Rightarrow> if host = [] then Inl HostEmpty else bind_result (port_of port) (\<lambda>p. Inr (host, p))
     | None \<Rightarrow> Inr (v, default_port scheme))"

definition choose_transport :: "transport_mode \<Rightarrow> turn_scheme \<Rightarrow> uri_transport option \<Rightarrow> endpoint_error + wire_transport" where
  "choose_transport m scheme t = (case m of
     ModeUdp \<Rightarrow> if scheme = Turns then Inl TlsInUdpMode
       else if t = Some UriTcp then Inl TcpInUdpMode else Inr WireUdp
   | ModeTcpTls \<Rightarrow> if t = Some UriUdp then Inl UdpInTcpMode
       else if scheme = Turns then Inr WireTls else Inr WireTcp)"

definition override :: "string option \<Rightarrow> string option" where
  "override v = (case v of None \<Rightarrow> None | Some s \<Rightarrow> if trim s = [] then None else Some (trim s))"

definition resolve_turn_endpoints :: "string \<Rightarrow> string option \<Rightarrow> string option \<Rightarrow> transport_mode
    \<Rightarrow> endpoint_error + turn_endpoint list" where
  "resolve_turn_endpoints v override_host override_port m =
    (case parse_turn_uri v of Inl e \<Rightarrow> Inl e | Inr (scheme, authority, t) \<Rightarrow>
     (case parse_authority authority scheme of Inl e \<Rightarrow> Inl e | Inr (original_host, original_port) \<Rightarrow>
      (let host = (case override override_host of Some h \<Rightarrow> h | None \<Rightarrow> original_host)
       in case (case override override_port of Some p \<Rightarrow> port_of p | None \<Rightarrow> Inr original_port) of Inl e \<Rightarrow> Inl e
          | Inr port \<Rightarrow> if host = [] then Inl HostEmpty
            else case choose_transport m scheme t of Inl e \<Rightarrow> Inl e
            | Inr w \<Rightarrow> Inr (map (\<lambda>x. \<lparr>te_host = host, te_port = port, te_transport = x\<rparr>) [w]))))"

definition is_supported_turn_uri :: "string \<Rightarrow> bool" where
  "is_supported_turn_uri v = is_ok (parse_turn_uri v)"

section \<open>Lemmas\<close>

lemma lower_colon: "ascii_lower c = CHR '':'' \<longleftrightarrow> c = CHR '':''"
proof -
  have "of_char (ascii_lower c) = (58 :: nat) \<longleftrightarrow> of_char c = (58 :: nat)"
    by (auto simp: ascii_lower_def of_char_of)
  moreover have "of_char (CHR '':'') = (58 :: nat)" by simp
  ultimately show ?thesis by (metis of_char_eq_iff)
qed

text \<open>Text without a colon before the first one is not read as a scheme, unless it is one.\<close>

lemma scheme_of_host:
  assumes "CHR '':'' \<notin> set h" "to_lower h \<notin> {''turn'', ''turns''}"
  shows "strip_scheme (h @ CHR '':'' # r) = (Bare, h @ CHR '':'' # r)"
proof -
  have tw: "takeWhile (\<lambda>x. x \<noteq> CHR '':'') (to_lower (h @ CHR '':'' # r)) = to_lower h"
    using assms(1) lower_colon by (induction h) (auto simp: to_lower_def)
  have "\<not> starts_with (to_lower (h @ CHR '':'' # r)) (t @ '':'')" if "CHR '':'' \<notin> set t" "t \<noteq> to_lower h" for t
  proof
    assume "starts_with (to_lower (h @ CHR '':'' # r)) (t @ '':'')"
    then obtain z where "to_lower (h @ CHR '':'' # r) = t @ CHR '':'' # z" by (auto simp: starts_with_iff)
    hence "to_lower h = takeWhile (\<lambda>x. x \<noteq> CHR '':'') (t @ CHR '':'' # z)" using tw by simp
    also have "\<dots> = t" using that(1) by (induction t) auto
    finally show False using that(2) by simp
  qed
  from this [of "''turns''"] this [of "''turn''"] show ?thesis using assms(2) by (auto simp: strip_scheme_def)
qed

lemma scheme_of_bracket: "strip_scheme (CHR ''['' # r) = (Bare, CHR ''['' # r)"
proof -
  have "ascii_lower (CHR ''['') = CHR ''[''" by (simp add: ascii_lower_def)
  thus ?thesis by (simp add: strip_scheme_def starts_with_def to_lower_def)
qed

text \<open>A host that can be written into an authority and read back.\<close>

definition plain_host :: "string \<Rightarrow> bool" where
  "plain_host h \<longleftrightarrow> h \<noteq> [] \<and> (\<forall>c\<in>set h. \<not> is_space c \<and> c \<notin> {CHR ''?'', CHR ''['', CHR '']''})
     \<and> (CHR '':'' \<notin> set h \<longrightarrow> to_lower h \<notin> {''turn'', ''turns''})"

lemma authority_chars:
  assumes "plain_host (te_host e)"
  shows "\<forall>c\<in>set (socket_authority e). \<not> is_space c" "CHR ''?'' \<notin> set (socket_authority e)" "socket_authority e \<noteq> []"
proof -
  have sp: "\<not> is_space c" if "c \<in> set (decimal n)" for c n
    using decimal_chars [OF that] by (auto simp: is_space_def of_char_of)
  have q: "CHR ''?'' \<notin> set (decimal n)" for n by (rule decimal_no_char) simp
  have br: "\<not> is_space (CHR ''['')" "\<not> is_space (CHR '']'')" "\<not> is_space (CHR '':'')" by (simp_all add: is_space_def)
  show "\<forall>c\<in>set (socket_authority e). \<not> is_space c" "CHR ''?'' \<notin> set (socket_authority e)" "socket_authority e \<noteq> []"
    using assms sp q br by (auto simp: plain_host_def socket_authority_def)
qed

lemma filter_absent: "c \<notin> set s \<Longrightarrow> filter (\<lambda>y. y = c) s = []"
  by (induction s) auto

lemma parse_printed_authority:
  assumes "plain_host (te_host e)"
  shows "parse_authority (socket_authority e) s = Inr (te_host e, te_port e)"
proof (cases "CHR '':'' \<in> set (te_host e)")
  case True
  have "CHR '']'' \<notin> set (te_host e)" using assms by (auto simp: plain_host_def)
  thus ?thesis using True split_once2_first [of "CHR '']''" "te_host e" "CHR '':''" "decimal (unat (te_port e))"]
    by (simp add: parse_authority_def socket_authority_def starts_with_def port_of_def parse_decimal)
next
  case False
  have c: "CHR '':'' \<notin> set (decimal (unat (te_port e)))" by (rule decimal_no_char) simp
  obtain x h where h: "te_host e = x # h" "x \<noteq> CHR ''[''" using assms by (cases "te_host e") (auto simp: plain_host_def)
  have "filter (\<lambda>y. y = CHR '':'') (socket_authority e) = [CHR '':'']"
    using False c by (simp add: socket_authority_def filter_absent)
  thus ?thesis using False h rsplit_once_last [OF c, of "te_host e"]
    by (simp add: parse_authority_def socket_authority_def starts_with_def port_of_def parse_decimal)
qed

lemma parse_printed:
  assumes "plain_host (te_host e)"
  shows "parse_turn_uri (socket_authority e) = Inr (Bare, socket_authority e, None)"
proof -
  note c = authority_chars [OF assms]
  have "strip_scheme (socket_authority e) = (Bare, socket_authority e)"
  proof (cases "CHR '':'' \<in> set (te_host e)")
    case True
    thus ?thesis using scheme_of_bracket by (simp add: socket_authority_def)
  next
    case False
    thus ?thesis using scheme_of_host [OF False] assms by (auto simp: socket_authority_def plain_host_def)
  qed
  thus ?thesis using c by (simp add: parse_turn_uri_def trim_id split_once_None)
qed

section \<open>Properties\<close>

text \<open>Resolving a TURN address yields exactly one endpoint or an error. The endpoint has a nonempty
  host, in UDP mode it is UDP and the address was neither a \<open>turns:\<close> address nor asked for TCP, in
  TCP mode it is TLS exactly for a \<open>turns:\<close> address and TCP otherwise and the address did not ask for UDP; an
  override of the host or port that is not blank replaces the one of the address.\<close>

theorem resolved_endpoint:
  assumes "resolve_turn_endpoints v oh op m = Inr es"
  shows "\<exists>e scheme authority t. es = [e] \<and> te_host e \<noteq> [] \<and> parse_turn_uri v = Inr (scheme, authority, t)
    \<and> (te_transport e = WireUdp \<longleftrightarrow> m = ModeUdp) \<and> (te_transport e = WireTls \<longleftrightarrow> m = ModeTcpTls \<and> scheme = Turns)
    \<and> (m = ModeUdp \<longrightarrow> scheme \<noteq> Turns \<and> t \<noteq> Some UriTcp) \<and> (m = ModeTcpTls \<longrightarrow> t \<noteq> Some UriUdp)
    \<and> (\<forall>h. oh = Some h \<and> trim h \<noteq> [] \<longrightarrow> te_host e = trim h)
    \<and> (\<forall>p. op = Some p \<and> trim p \<noteq> [] \<longrightarrow> parse_u16 (trim p) = Some (te_port e))"
proof -
  obtain scheme authority t where u: "parse_turn_uri v = Inr (scheme, authority, t)"
    using assms by (auto simp: resolve_turn_endpoints_def split: sum.splits)
  obtain h0 p0 where a: "parse_authority authority scheme = Inr (h0, p0)"
    using assms u by (auto simp: resolve_turn_endpoints_def split: sum.splits)
  obtain port where p: "(case override op of Some p \<Rightarrow> port_of p | None \<Rightarrow> Inr p0) = Inr port"
    using assms u a by (auto simp: resolve_turn_endpoints_def Let_def split: sum.splits)
  let ?h = "case override oh of Some h \<Rightarrow> h | None \<Rightarrow> h0"
  obtain w where w: "choose_transport m scheme t = Inr w" "?h \<noteq> []" "es = [\<lparr>te_host = ?h, te_port = port, te_transport = w\<rparr>]"
    using assms u a p by (auto simp: resolve_turn_endpoints_def Let_def split: sum.splits if_splits)
  have t: "(w = WireUdp \<longleftrightarrow> m = ModeUdp) \<and> (w = WireTls \<longleftrightarrow> m = ModeTcpTls \<and> scheme = Turns)
    \<and> (m = ModeUdp \<longrightarrow> scheme \<noteq> Turns \<and> t \<noteq> Some UriTcp) \<and> (m = ModeTcpTls \<longrightarrow> t \<noteq> Some UriUdp)"
    using w(1) by (auto simp: choose_transport_def split: transport_mode.splits if_splits)
  have o: "\<forall>h. oh = Some h \<and> trim h \<noteq> [] \<longrightarrow> ?h = trim h" by (simp add: override_def)
  have q: "\<forall>x. op = Some x \<and> trim x \<noteq> [] \<longrightarrow> parse_u16 (trim x) = Some port"
    using p by (auto simp: override_def port_of_def split: option.splits)
  show ?thesis using u w(2,3) t o q by auto
qed

lemma resolved_endpoint_witness:
  "\<exists>e. resolve_turn_endpoints ''turns:relay.example'' None (Some '' 443 '') ModeTcpTls = Inr [e]
    \<and> te_transport e = WireTls \<and> parse_u16 (trim '' 443 '') = Some (te_port e)"
proof -
  obtain es where r: "resolve_turn_endpoints ''turns:relay.example'' None (Some '' 443 '') ModeTcpTls = Inr es"
    "parse_turn_uri ''turns:relay.example'' = Inr (Turns, ''relay.example'', None)" "trim '' 443 '' \<noteq> []"
  proof
    show "resolve_turn_endpoints ''turns:relay.example'' None (Some '' 443 '') ModeTcpTls
      = Inr [\<lparr>te_host = ''relay.example'', te_port = 443, te_transport = WireTls\<rparr>]" by code_simp
    show "parse_turn_uri ''turns:relay.example'' = Inr (Turns, ''relay.example'', None)" by code_simp
    show "trim '' 443 '' \<noteq> []" by code_simp
  qed
  show ?thesis using resolved_endpoint [OF r(1)] r by auto
qed

text \<open>An endpoint survives being written and read. The authority printed for an endpoint, with brackets
  if the host contains a colon, resolves back to the same endpoint in the mode of its
  transport, for every host that contains no white space, brackets or question mark and is not
  itself the word \<open>turn\<close> or \<open>turns\<close>, which would be read as a scheme.\<close>

theorem authority_roundtrip:
  assumes "plain_host (te_host e)" "te_transport e \<noteq> WireTls"
  shows "resolve_turn_endpoints (socket_authority e) None None
      (if te_transport e = WireUdp then ModeUdp else ModeTcpTls) = Inr [e]"
  using parse_printed [OF assms(1)] parse_printed_authority [OF assms(1)] assms
  by (cases "te_transport e")
     (auto simp: resolve_turn_endpoints_def override_def choose_transport_def plain_host_def)

lemma authority_roundtrip_witness:
  "resolve_turn_endpoints (socket_authority \<lparr>te_host = ''fe80::1'', te_port = 3478, te_transport = WireUdp\<rparr>) None None ModeUdp
    = Inr [\<lparr>te_host = ''fe80::1'', te_port = 3478, te_transport = WireUdp\<rparr>]"
  using authority_roundtrip [of "\<lparr>te_host = ''fe80::1'', te_port = 3478, te_transport = WireUdp\<rparr>"]
  by (simp add: plain_host_def is_space_def)

end
