(* ===== verification/UdpBatch.thy ===== *)
theory UdpBatch
  imports Packet
begin

text \<open>
  UDP batches (\<open>udp_batch.rs\<close>): the adaptive batch limit, sending and receiving several datagrams per system call with the
  fall-back to one call per datagram, and the loops that send a whole batch. The kernel is the list of the results
  its calls will have. A connected socket and one with explicit destinations differ in the destination only, so the
  source's two copies of each routine are one definition with the destination as an argument.
\<close>

section \<open>The batch limit\<close>

definition MIN_DATAGRAMS :: nat where "MIN_DATAGRAMS = 16"
definition MAX_DATAGRAMS :: nat where "MAX_DATAGRAMS = 128"

definition adapt_batch_limit :: "nat \<Rightarrow> nat \<Rightarrow> nat" where
  "adapt_batch_limit current received =
    (if current \<le> received \<and> current < MAX_DATAGRAMS then
       (if current \<le> MIN_DATAGRAMS then 32 else if 17 \<le> current \<and> current \<le> 32 then 64 else MAX_DATAGRAMS)
     else if received = 0 \<or> min (received * 4) usize_max \<le> current then
       (if 65 \<le> current then 64 else if 33 \<le> current \<and> current \<le> 64 then 32 else MIN_DATAGRAMS)
     else current)"

section \<open>Results of system calls\<close>

datatype os_errno = EAGAIN | ENOSYS | EPERM | EOPNOTSUPP | EINTR | EOTHER int

datatype io_error = WouldBlock | Interrupted | WriteZero | InvalidData | InvalidInput | Os os_errno

definition of_errno :: "os_errno \<Rightarrow> io_error" where
  "of_errno e = (case e of EAGAIN \<Rightarrow> WouldBlock | EINTR \<Rightarrow> Interrupted | _ \<Rightarrow> Os e)"

definition mmsg_unavailable :: "io_error \<Rightarrow> bool" where
  "mmsg_unavailable e \<longleftrightarrow> e = Os ENOSYS \<or> e = Os EPERM \<or> e = Os EOPNOTSUPP"

definition validate_batch_len :: "nat \<Rightarrow> io_error + unit" where
  "validate_batch_len len = (if len \<le> MAX_DATAGRAMS then Inr () else Inl InvalidInput)"

definition validate_receive_batch :: "nat \<Rightarrow> nat \<Rightarrow> io_error + unit" where
  "validate_receive_batch packet_count source_count = bind_result (validate_batch_len packet_count) (\<lambda>_.
     if packet_count = source_count then Inr () else Inl InvalidInput)"

section \<open>Sending\<close>

text \<open>A call's result: a count (of datagrams for the batch call, of bytes for the single one) or an error.\<close>

datatype sys_send = SendCount nat | SendErrno os_errno

record 'a udp_sender =
  us_calls :: "sys_send list"
  us_wire :: "('a \<times> bytes) list"
  us_mmsg :: bool

definition put_wire :: "'a \<Rightarrow> bytes list \<Rightarrow> 'a udp_sender \<Rightarrow> 'a udp_sender" where
  "put_wire dest ds s = s\<lparr>us_wire := us_wire s @ map (Pair dest) ds\<rparr>"

text \<open>The loop of \<open>try_send_mmsg\<close> around the system call; without a result the socket is not writable.\<close>

fun send_mmsg_call :: "sys_send list \<Rightarrow> (io_error + nat) \<times> sys_send list" where
  "send_mmsg_call [] = (Inl WouldBlock, [])"
| "send_mmsg_call (SendCount n # calls) = (if n = 0 then Inl WouldBlock else Inr n, calls)"
| "send_mmsg_call (SendErrno e # calls) = (if e = EINTR then send_mmsg_call calls else (Inl (of_errno e), calls))"

definition try_send_mmsg :: "'a \<Rightarrow> bytes list \<Rightarrow> 'a udp_sender \<Rightarrow> (io_error + nat) \<times> 'a udp_sender" where
  "try_send_mmsg dest ds s = (if ds = [] then (Inr 0, s)
     else case send_mmsg_call (us_calls s) of
       (Inl e, calls) \<Rightarrow> (Inl e, s\<lparr>us_calls := calls\<rparr>)
     | (Inr n, calls) \<Rightarrow> (if length ds < n then Inl InvalidData else Inr n, put_wire dest (take n ds) (s\<lparr>us_calls := calls\<rparr>)))"

fun portable_send :: "'a \<Rightarrow> bytes list \<Rightarrow> nat \<Rightarrow> 'a udp_sender \<Rightarrow> (io_error + nat) \<times> 'a udp_sender" where
  "portable_send dest [] sent s = (Inr sent, s)"
| "portable_send dest (d # ds) sent s =
    (let (r, calls) = (case us_calls s of [] \<Rightarrow> (SendErrno EAGAIN, []) | c # cs \<Rightarrow> (c, cs)); s1 = s\<lparr>us_calls := calls\<rparr> in
     case r of
       SendCount n \<Rightarrow> (let s2 = put_wire dest [take n d] s1 in
         if n = length d then portable_send dest ds (sent + 1) s2 else (Inl WriteZero, s2))
     | SendErrno e \<Rightarrow> (if e = EAGAIN \<and> 0 < sent then Inr sent else Inl (of_errno e), s1))"

definition platform_send :: "'a \<Rightarrow> bytes list \<Rightarrow> 'a udp_sender \<Rightarrow> (io_error + nat) \<times> 'a udp_sender" where
  "platform_send dest ds s = (if \<not> us_mmsg s then portable_send dest ds 0 s
     else case try_send_mmsg dest ds s of
       (Inl e, s1) \<Rightarrow> if mmsg_unavailable e then portable_send dest ds 0 (s1\<lparr>us_mmsg := False\<rparr>) else (Inl e, s1)
     | r \<Rightarrow> r)"

definition try_send_batch :: "'a \<Rightarrow> bytes list \<Rightarrow> 'a udp_sender \<Rightarrow> (io_error + nat) \<times> 'a udp_sender" where
  "try_send_batch dest ds s = (case validate_batch_len (length ds) of Inl e \<Rightarrow> (Inl e, s) | Inr _ \<Rightarrow> platform_send dest ds s)"

lemma send_mmsg_call_uses: "calls \<noteq> [] \<Longrightarrow> length (snd (send_mmsg_call calls)) < length calls"
proof (induction calls)
  case (Cons c calls)
  have "length (snd (send_mmsg_call calls)) \<le> length calls" using Cons.IH by (cases calls) auto
  thus ?case by (cases c) auto
qed simp

lemma put_wire_simps [simp]:
  "us_calls (put_wire dest ds s) = us_calls s" "us_mmsg (put_wire dest ds s) = us_mmsg s"
  "us_wire (put_wire dest ds s) = us_wire s @ map (Pair dest) ds"
  by (simp_all add: put_wire_def)

lemma portable_send_calls: "length (us_calls (snd (portable_send dest ds k s))) \<le> length (us_calls s)"
proof (induction ds arbitrary: k s)
  case (Cons d ds)
  obtain r calls where r: "(case us_calls s of [] \<Rightarrow> (SendErrno EAGAIN, []) | c # cs \<Rightarrow> (c, cs)) = (r, calls)" by force
  hence "length calls \<le> length (us_calls s)" by (auto split: list.splits)
  thus ?case using r order_trans [OF Cons.IH [of "k + 1" "put_wire dest [d] (s\<lparr>us_calls := calls\<rparr>)"]]
    by (auto simp: Let_def split: sys_send.splits)
qed simp

lemma portable_send_uses:
  "ds \<noteq> [] \<Longrightarrow> us_calls s \<noteq> [] \<Longrightarrow> length (us_calls (snd (portable_send dest ds k s))) < length (us_calls s)"
proof (cases ds)
  case (Cons d ds1)
  assume "us_calls s \<noteq> []"
  then obtain c cs where c: "us_calls s = c # cs" by (cases "us_calls s") auto
  show ?thesis using portable_send_calls [of dest ds1 "k + 1" "put_wire dest [d] (s\<lparr>us_calls := cs\<rparr>)"]
    by (auto simp: Cons c Let_def split: sys_send.splits)
qed simp

lemma platform_send_uses:
  assumes "ds \<noteq> []" "us_calls s \<noteq> []"
  shows "length (us_calls (snd (platform_send dest ds s))) < length (us_calls s)"
proof (cases "us_mmsg s")
  case False
  thus ?thesis using portable_send_uses [OF assms] by (simp add: platform_send_def)
next
  case True
  obtain r calls where r: "send_mmsg_call (us_calls s) = (r, calls)" by force
  hence lt: "length calls < length (us_calls s)" using send_mmsg_call_uses [OF assms(2)] by simp
  show ?thesis
    using True r lt assms(1) order_le_less_trans [OF portable_send_calls [of dest ds 0 "s\<lparr>us_calls := calls, us_mmsg := False\<rparr>"]]
    by (auto simp: platform_send_def try_send_mmsg_def mmsg_unavailable_def split: sum.splits)
qed

lemma try_send_batch_uses:
  assumes "try_send_batch dest ds s = (r, s1)" "r \<noteq> Inl InvalidInput \<or> length ds \<le> MAX_DATAGRAMS" "ds \<noteq> []" "us_calls s \<noteq> []"
  shows "length (us_calls s1) < length (us_calls s)"
  using assms platform_send_uses [OF assms(3,4), of dest]
  by (auto simp: try_send_batch_def validate_batch_len_def split: if_splits)

text \<open>The loop that sends a whole batch. It waits when the socket is not writable and the kernel has nothing more to tell.\<close>

datatype send_end = SendDone | SendFailed io_error | SendWaiting

function send_rest :: "'a \<Rightarrow> bytes list \<Rightarrow> 'a udp_sender \<Rightarrow> send_end \<times> 'a udp_sender" where
  "send_rest dest ds s = (if ds = [] then (SendDone, s)
     else if us_calls s = [] then (SendWaiting, s)
     else case try_send_batch dest ds s of
       (Inr n, s1) \<Rightarrow> send_rest dest (drop n ds) s1
     | (Inl e, s1) \<Rightarrow> if e = WouldBlock then send_rest dest ds s1 else (SendFailed e, s1))"
  by pat_completeness auto

termination by (relation "measure (\<lambda>(dest, ds, s). length (us_calls s))") (auto intro: try_send_batch_uses [OF sym])

declare send_rest.simps [simp del]

definition send_batch :: "'a \<Rightarrow> bytes list \<Rightarrow> 'a udp_sender \<Rightarrow> send_end \<times> 'a udp_sender" where
  "send_batch dest ds s = (case validate_batch_len (length ds) of Inl e \<Rightarrow> (SendFailed e, s) | Inr _ \<Rightarrow> send_rest dest ds s)"

section \<open>Receiving\<close>

text \<open>A message of the batch call: its source (missing when the kernel's address is not that of an IP socket), what was
  written to the packet's read area, the length reported, and whether it was truncated.\<close>

record 'a received =
  rv_source :: "'a option"
  rv_data :: bytes
  rv_len :: nat
  rv_truncated :: bool

datatype 'a sys_recv = RecvMessages "'a received list" | RecvErrno os_errno

record 'a udp_receiver =
  ur_calls :: "'a sys_recv list"
  ur_mmsg :: bool

fun recv_mmsg_call :: "'a sys_recv list \<Rightarrow> (io_error + 'a received list) \<times> 'a sys_recv list" where
  "recv_mmsg_call [] = (Inl WouldBlock, [])"
| "recv_mmsg_call (RecvMessages ms # calls) = (if ms = [] then Inl WouldBlock else Inr ms, calls)"
| "recv_mmsg_call (RecvErrno e # calls) = (if e = EINTR then recv_mmsg_call calls else (Inl (of_errno e), calls))"

definition fill_packet :: "'a received \<Rightarrow> packet_buf \<Rightarrow> packet_buf" where
  "fill_packet m b = write_at PACKET_HEADROOM (take read_area_len (rv_data m)) b"

definition check_message :: "bool \<Rightarrow> 'a received \<Rightarrow> io_error + unit" where
  "check_message sources m = (if rv_truncated m then Inl InvalidData
     else if PACKET_CAPACITY - PACKET_HEADROOM < rv_len m then Inl InvalidData
     else if sources \<and> rv_source m = None then Inl InvalidData else Inr ())"

fun check_messages :: "bool \<Rightarrow> 'a received list \<Rightarrow> io_error + unit" where
  "check_messages sources [] = Inr ()"
| "check_messages sources (m # ms) = bind_result (check_message sources m) (\<lambda>_. check_messages sources ms)"

definition accept_message :: "'a received \<times> packet_buf \<Rightarrow> packet_buf" where
  "accept_message = (\<lambda>(m, b). case set_read_len (rv_len m) b of Inr b' \<Rightarrow> b' | Inl _ \<Rightarrow> b)"

text \<open>The call fills the packets of the messages; their lengths and the sources are set only when every message is acceptable.
  \<open>sources\<close> tells the variant that reports the senders.\<close>

definition try_recv_mmsg :: "bool \<Rightarrow> packet_buf list \<Rightarrow> 'a list \<Rightarrow> 'a udp_receiver
    \<Rightarrow> (io_error + nat) \<times> packet_buf list \<times> 'a list \<times> 'a udp_receiver" where
  "try_recv_mmsg sources packets srcs s = (if packets = [] then (Inr 0, packets, srcs, s)
     else case recv_mmsg_call (ur_calls s) of
       (Inl e, calls) \<Rightarrow> (Inl e, packets, srcs, s\<lparr>ur_calls := calls\<rparr>)
     | (Inr ms, calls) \<Rightarrow> (let s1 = s\<lparr>ur_calls := calls\<rparr> in
         if length packets < length ms then (Inl InvalidData, packets, srcs, s1)
         else let filled = map2 fill_packet ms packets; rest = drop (length ms) packets in
           case check_messages sources ms of
             Inl e \<Rightarrow> (Inl e, filled @ rest, srcs, s1)
           | Inr _ \<Rightarrow> (Inr (length ms), map accept_message (zip ms filled) @ rest,
               if sources then map (\<lambda>m. the (rv_source m)) ms @ drop (length ms) srcs else srcs, s1)))"

definition try_recv_mmsg_connected :: "packet_buf list \<Rightarrow> 'a udp_receiver \<Rightarrow> (io_error + nat) \<times> packet_buf list \<times> 'a udp_receiver" where
  "try_recv_mmsg_connected packets s = (case try_recv_mmsg False packets [] s of (r, p1, _, s1) \<Rightarrow> (r, p1, s1))"

text \<open>One call per datagram: the number received so far is lost when a later call fails.\<close>

fun portable_recv :: "bool \<Rightarrow> packet_buf list \<Rightarrow> 'a list \<Rightarrow> nat \<Rightarrow> 'a udp_receiver
    \<Rightarrow> (io_error + nat) \<times> packet_buf list \<times> 'a list \<times> 'a udp_receiver" where
  "portable_recv sources [] srcs got s = (Inr got, [], srcs, s)"
| "portable_recv sources (b # bs) srcs got s =
    (let (r, calls) = (case ur_calls s of [] \<Rightarrow> (RecvErrno EAGAIN, []) | c # cs \<Rightarrow> (c, cs)); s1 = s\<lparr>ur_calls := calls\<rparr> in
     case r of
       RecvMessages (m # _) \<Rightarrow> (case set_read_len (rv_len m) (fill_packet m b) of
         Inl _ \<Rightarrow> (Inl InvalidData, fill_packet m b # bs, srcs, s1)
       | Inr b1 \<Rightarrow> (let srcs1 = (if sources then srcs[got := (case rv_source m of Some a \<Rightarrow> a | None \<Rightarrow> srcs ! got)] else srcs) in
           case portable_recv sources bs srcs1 (got + 1) s1 of (r1, bs1, srcs2, s2) \<Rightarrow> (r1, b1 # bs1, srcs2, s2)))
     | RecvMessages [] \<Rightarrow> (if 0 < got then Inr got else Inl WouldBlock, b # bs, srcs, s1)
     | RecvErrno e \<Rightarrow> (if e = EAGAIN \<and> 0 < got then Inr got else Inl (of_errno e), b # bs, srcs, s1))"

definition platform_recv :: "bool \<Rightarrow> packet_buf list \<Rightarrow> 'a list \<Rightarrow> 'a udp_receiver
    \<Rightarrow> (io_error + nat) \<times> packet_buf list \<times> 'a list \<times> 'a udp_receiver" where
  "platform_recv sources packets srcs s = (if \<not> ur_mmsg s then portable_recv sources packets srcs 0 s
     else case try_recv_mmsg sources packets srcs s of
       (Inl e, p1, c1, s1) \<Rightarrow> if mmsg_unavailable e then portable_recv sources p1 c1 0 (s1\<lparr>ur_mmsg := False\<rparr>) else (Inl e, p1, c1, s1)
     | r \<Rightarrow> r)"

definition try_recv_batch :: "packet_buf list \<Rightarrow> 'a udp_receiver \<Rightarrow> (io_error + nat) \<times> packet_buf list \<times> 'a udp_receiver" where
  "try_recv_batch packets s = (case validate_batch_len (length packets) of Inl e \<Rightarrow> (Inl e, packets, s)
     | Inr _ \<Rightarrow> (case platform_recv False packets [] s of (r, p1, _, s1) \<Rightarrow> (r, p1, s1)))"

definition try_recv_from_batch :: "packet_buf list \<Rightarrow> 'a list \<Rightarrow> 'a udp_receiver
    \<Rightarrow> (io_error + nat) \<times> packet_buf list \<times> 'a list \<times> 'a udp_receiver" where
  "try_recv_from_batch packets srcs s = (case validate_receive_batch (length packets) (length srcs) of
     Inl e \<Rightarrow> (Inl e, packets, srcs, s) | Inr _ \<Rightarrow> platform_recv True packets srcs s)"

section \<open>A batch is sent in order, once\<close>

lemma portable_send_prefix:
  "portable_send dest ds k s = (r, s') \<Longrightarrow> \<exists>j\<le>length ds. us_wire s' = us_wire s @ map (Pair dest) (take j ds) \<and> (\<forall>n. r = Inr n \<longrightarrow> n = k + j)
       \<and> (r = Inl WouldBlock \<longrightarrow> k + j = 0)
     \<or> r = Inl WriteZero"
proof (induction ds arbitrary: k s)
  case (Cons d ds)
  obtain c calls where c: "(case us_calls s of [] \<Rightarrow> (SendErrno EAGAIN, []) | c # cs \<Rightarrow> (c, cs)) = (c, calls)" by force
  show ?case
  proof (cases c)
    case (SendErrno e)
    thus ?thesis using Cons.prems c by (cases e) (auto simp: Let_def of_errno_def split: if_splits intro!: exI [of _ 0])
  next
    case (SendCount n)
    show ?thesis
    proof (cases "n = length d")
      case False
      thus ?thesis using Cons.prems c SendCount by (auto simp: Let_def)
    next
      case True
      hence "portable_send dest ds (k + 1) (put_wire dest [d] (s\<lparr>us_calls := calls\<rparr>)) = (r, s')"
        using Cons.prems c SendCount by (simp add: Let_def)
      from Cons.IH [OF this] show ?thesis
        by (elim exE disjE conjE) (auto intro!: exI [of _ "Suc _"])
    qed
  qed
qed auto

text \<open>What has been put on the wire is a prefix of the batch, unless the kernel cut a datagram short.\<close>

definition sent_prefix :: "'a \<Rightarrow> bytes list \<Rightarrow> nat \<Rightarrow> 'a udp_sender \<Rightarrow> 'a udp_sender \<Rightarrow> bool" where
  "sent_prefix dest ds j s s' \<longleftrightarrow> j \<le> length ds \<and> us_wire s' = us_wire s @ map (Pair dest) (take j ds)"

lemma platform_send_prefix:
  assumes "platform_send dest ds s = (r, s')"
  shows "r = Inl WriteZero \<or> (\<exists>j. sent_prefix dest ds j s s' \<and> (\<forall>n. r = Inr n \<longrightarrow> n = j) \<and> (r = Inl WouldBlock \<longrightarrow> j = 0))"
proof -
  have p: "r = Inl WriteZero \<or> (\<exists>j. sent_prefix dest ds j s s' \<and> (\<forall>n. r = Inr n \<longrightarrow> n = j) \<and> (r = Inl WouldBlock \<longrightarrow> j = 0))"
    if "portable_send dest ds 0 s0 = (r, s')" "us_wire s0 = us_wire s" for s0
    using portable_send_prefix [OF that(1)] that(2) by (auto simp: sent_prefix_def)
  show ?thesis
  proof (cases "us_mmsg s")
    case False
    thus ?thesis using assms p [of s] by (simp add: platform_send_def)
  next
    case True
    obtain q calls where c: "send_mmsg_call (us_calls s) = (q, calls)" by force
    show ?thesis
    proof (cases "\<exists>e. q = Inl e \<and> mmsg_unavailable e \<and> ds \<noteq> []")
      case True
      thus ?thesis using assms \<open>us_mmsg s\<close> c p [of "s\<lparr>us_calls := calls, us_mmsg := False\<rparr>"]
        by (auto simp: platform_send_def try_send_mmsg_def)
    next
      case False
      thus ?thesis using assms \<open>us_mmsg s\<close> c
        by (auto simp: platform_send_def try_send_mmsg_def mmsg_unavailable_def sent_prefix_def split: sum.splits if_splits
            intro: exI [of _ 0] exI [of _ "length ds"])
    qed
  qed
qed

lemma send_rest_prefix:
  "send_rest dest ds s = (r, s') \<Longrightarrow> length ds \<le> MAX_DATAGRAMS \<Longrightarrow>
   r = SendFailed WriteZero \<or> (\<exists>j. sent_prefix dest ds j s s' \<and> (r = SendDone \<longrightarrow> j = length ds))"
proof (induction dest ds s rule: send_rest.induct)
  case (1 dest ds s)
  show ?case
  proof (cases "ds = [] \<or> us_calls s = []")
    case True
    thus ?thesis using "1.prems"(1) by (subst (asm) send_rest.simps) (auto simp: sent_prefix_def intro: exI [of _ 0] split: if_splits)
  next
    case False
    obtain q s1 where q: "try_send_batch dest ds s = (q, s1)" by force
    hence "platform_send dest ds s = (q, s1)" using "1.prems"(2) by (simp add: try_send_batch_def validate_batch_len_def)
    note P = platform_send_prefix [OF this]
    show ?thesis
    proof (cases q)
      case (Inl e)
      show ?thesis
      proof (cases "e = WouldBlock")
        case True
        have "send_rest dest ds s1 = (r, s')" using "1.prems"(1) False q Inl True by (subst (asm) send_rest.simps) simp
        from "1.IH"(1) [OF _ _ q [symmetric] Inl True this "1.prems"(2)] False P Inl True
        show ?thesis by (auto simp: sent_prefix_def)
      next
        case n: False
        have "r = SendFailed e" "s' = s1" using "1.prems"(1) False q Inl n by (subst (asm) send_rest.simps; simp)+
        thus ?thesis using P Inl by (auto simp: sent_prefix_def)
      qed
    next
      case (Inr n)
      have r: "send_rest dest (drop n ds) s1 = (r, s')" using "1.prems"(1) False q Inr by (subst (asm) send_rest.simps) simp
      have j: "sent_prefix dest ds n s s1" using P Inr by auto
      have "length (drop n ds) \<le> MAX_DATAGRAMS" using "1.prems"(2) by simp
      from "1.IH"(2) [OF _ _ q [symmetric] Inr r this] False
      have I: "r = SendFailed WriteZero \<or> (\<exists>j. sent_prefix dest (drop n ds) j s1 s' \<and> (r = SendDone \<longrightarrow> j = length (drop n ds)))" by simp
      have "sent_prefix dest ds (n + k) s s'" if "sent_prefix dest (drop n ds) k s1 s'" for k
        using j that by (auto simp: sent_prefix_def take_add)
      moreover have "n + length (drop n ds) = length ds" using j by (simp add: sent_prefix_def)
      ultimately show ?thesis using I by metis
    qed
  qed
qed

text \<open>A batch goes out in order, once. Whatever the kernel accepts at a time, and whether the batch call is available, disappears in the middle, or
  is interrupted, the loop that sends a batch puts on the wire a prefix of the datagrams, each once and in order; all of
  them when it reports success. The exception is a datagram that the kernel cut short, which is reported.\<close>

theorem batch_sent_in_order:
  assumes "send_batch dest ds s = (r, s')"
  shows "r = SendFailed WriteZero \<or> (\<exists>j\<le>length ds. us_wire s' = us_wire s @ map (Pair dest) (take j ds) \<and> (r = SendDone \<longrightarrow> j = length ds))"
proof (cases "length ds \<le> MAX_DATAGRAMS")
  case True
  thus ?thesis using assms send_rest_prefix [of dest ds s r s'] by (auto simp: send_batch_def validate_batch_len_def sent_prefix_def)
next
  case False
  thus ?thesis using assms by (auto simp: send_batch_def validate_batch_len_def intro: exI [of _ 0])
qed

lemma batch_sent_in_order_witness:
  "us_wire (snd (send_batch (7 :: nat) [[1], [2, 2], [3]] \<lparr>us_calls = [SendErrno EINTR, SendCount 1, SendErrno EAGAIN, SendErrno ENOSYS, SendCount 2, SendCount 1],
     us_wire = [], us_mmsg = True\<rparr>)) = [(7, [1]), (7, [2, 2]), (7, [3])]"
proof -
  let ?s = "\<lparr>us_calls = [SendErrno EINTR, SendCount 1, SendErrno EAGAIN, SendErrno ENOSYS, SendCount 2, SendCount 1], us_wire = [], us_mmsg = True\<rparr>"
  obtain r s' where r: "send_batch (7 :: nat) [[1], [2, 2], [3]] ?s = (r, s')" by force
  have "fst (send_batch (7 :: nat) [[1], [2, 2], [3]] ?s) = SendDone" by code_simp
  with batch_sent_in_order [OF r] r show ?thesis by auto
qed

text \<open>Calls that accept datagrams, are interrupted, or find the socket full.\<close>

definition transient_call :: "sys_send \<Rightarrow> bool" where
  "transient_call c = (case c of SendCount _ \<Rightarrow> True | SendErrno e \<Rightarrow> e = EAGAIN \<or> e = EINTR)"

definition accepted :: "sys_send list \<Rightarrow> nat" where
  "accepted calls = sum_list (map (\<lambda>c. case c of SendCount n \<Rightarrow> n | SendErrno _ \<Rightarrow> 0) calls)"

lemma accepted_simps [simp]:
  "accepted [] = 0" "accepted (SendCount n # cs) = n + accepted cs" "accepted (SendErrno e # cs) = accepted cs"
  by (simp_all add: accepted_def)

lemma send_mmsg_call_accepts:
  "list_all transient_call calls \<Longrightarrow> send_mmsg_call calls = (q, calls') \<Longrightarrow> list_all transient_call calls'
     \<and> (q = Inl WouldBlock \<and> accepted calls' = accepted calls \<or> (\<exists>n. q = Inr n \<and> n + accepted calls' = accepted calls))"
  by (induction calls rule: send_mmsg_call.induct) (auto simp: transient_call_def of_errno_def split: if_splits)

lemma send_rest_completes:
  "us_mmsg s \<Longrightarrow> list_all transient_call (us_calls s) \<Longrightarrow> accepted (us_calls s) = length ds \<Longrightarrow> length ds \<le> MAX_DATAGRAMS \<Longrightarrow>
   fst (send_rest dest ds s) = SendDone"
proof (induction dest ds s rule: send_rest.induct)
  case (1 dest ds s)
  show ?case
  proof (cases "ds = []")
    case True
    thus ?thesis by (subst send_rest.simps) simp
  next
    case False
    hence nc: "us_calls s \<noteq> []" using "1.prems"(3) by auto
    obtain q calls where c: "send_mmsg_call (us_calls s) = (q, calls)" by force
    note A = send_mmsg_call_accepts [OF "1.prems"(2) c]
    have b: "try_send_batch dest ds s = platform_send dest ds s" using "1.prems"(4) by (simp add: try_send_batch_def validate_batch_len_def)
    show ?thesis
    proof (cases "\<exists>n. q = Inr n")
      case False
      hence w: "q = Inl WouldBlock" "accepted calls = length ds" using A "1.prems"(3) by auto
      have t: "try_send_batch dest ds s = (Inl WouldBlock, s\<lparr>us_calls := calls\<rparr>)"
        using b c w \<open>ds \<noteq> []\<close> "1.prems"(1) by (simp add: platform_send_def try_send_mmsg_def mmsg_unavailable_def)
      have "fst (send_rest dest ds (s\<lparr>us_calls := calls\<rparr>)) = SendDone"
        using "1.IH"(1) [OF \<open>ds \<noteq> []\<close> nc t [symmetric] refl refl] "1.prems" A w by simp
      thus ?thesis using t nc \<open>ds \<noteq> []\<close> by (subst send_rest.simps) simp
    next
      case True
      then obtain n where n: "q = Inr n" "n + accepted calls = length ds" using A "1.prems"(3) by auto
      let ?s = "put_wire dest (take n ds) (s\<lparr>us_calls := calls\<rparr>)"
      have t: "try_send_batch dest ds s = (Inr n, ?s)"
        using b c n \<open>ds \<noteq> []\<close> "1.prems"(1) by (simp add: platform_send_def try_send_mmsg_def)
      have "fst (send_rest dest (drop n ds) ?s) = SendDone"
        using "1.IH"(2) [OF \<open>ds \<noteq> []\<close> nc t [symmetric] refl] "1.prems" A n by simp
      thus ?thesis using t nc \<open>ds \<noteq> []\<close> by (subst send_rest.simps) simp
    qed
  qed
qed

text \<open>The send loop ends. When the kernel, over any number of calls, some of them interrupted and some finding the socket full, accepts as
  many datagrams as the batch has, the loop ends with success, and all of them have been sent.\<close>

theorem send_loop_ends:
  assumes "us_mmsg s" "list_all transient_call (us_calls s)" "accepted (us_calls s) = length ds" "length ds \<le> MAX_DATAGRAMS"
  shows "\<exists>s'. send_batch dest ds s = (SendDone, s') \<and> us_wire s' = us_wire s @ map (Pair dest) ds"
proof -
  obtain r s' where r: "send_rest dest ds s = (r, s')" by force
  have "r = SendDone" using send_rest_completes [OF assms, of dest] r by simp
  thus ?thesis using send_rest_prefix [OF r assms(4)] r assms(4) by (auto simp: send_batch_def validate_batch_len_def sent_prefix_def)
qed

lemma send_loop_ends_witness:
  "\<exists>s'. send_batch (7 :: nat) [[1], [2, 2], [3]] \<lparr>us_calls = [SendErrno EINTR, SendCount 2, SendErrno EAGAIN, SendCount 1], us_wire = [], us_mmsg = True\<rparr>
     = (SendDone, s') \<and> us_wire s' = [(7, [1]), (7, [2, 2]), (7, [3])]"
  using send_loop_ends [of "\<lparr>us_calls = [SendErrno EINTR, SendCount 2, SendErrno EAGAIN, SendCount 1], us_wire = [], us_mmsg = True\<rparr>"
      "[[1], [2, 2], [3]]" "7 :: nat"]
  by (simp add: transient_call_def MAX_DATAGRAMS_def)

section \<open>A batch is received whole or not at all\<close>

lemma as_slice_filled:
  assumes "packet_ok b" "set_read_len (rv_len m) (fill_packet m b) = Inr b'" "rv_len m = length (rv_data m)"
  shows "as_slice b' = rv_data m"
proof -
  have l: "length (rv_data m) \<le> PACKET_CAPACITY - PACKET_HEADROOM" and b': "pb_storage b' = pb_storage (fill_packet m b)"
      "pb_start b' = PACKET_HEADROOM" "pb_end b' = PACKET_HEADROOM + length (rv_data m)"
    using assms(2,3) by (auto simp: set_read_len_def split: if_splits)
  hence t: "take read_area_len (rv_data m) = rv_data m" by (simp add: read_area_len_def)
  have "PACKET_HEADROOM \<le> length (pb_storage b)" using assms(1) by (simp add: packet_ok_def PACKET_HEADROOM_def PACKET_CAPACITY_def)
  thus ?thesis unfolding as_slice_def b' fill_packet_def t write_at_def by (simp add: subslice_def)
qed

lemma check_messages_ok:
  "check_messages sources ms = Inr () \<longleftrightarrow> (\<forall>m\<in>set ms. \<not> rv_truncated m \<and> rv_len m \<le> PACKET_CAPACITY - PACKET_HEADROOM
     \<and> (sources \<longrightarrow> rv_source m \<noteq> None))"
  by (induction ms) (auto simp: check_message_def split: if_splits)

definition extent :: "packet_buf \<Rightarrow> nat \<times> nat" where
  "extent b = (pb_start b, pb_end b)"

text \<open>A batch is received whole or not at all. A batch call that fails, because of one message that was truncated, too long or from an unknown
  kind of address, leaves the length of every packet and every source as it was; one that succeeds gives the first packets
  exactly the datagrams of the kernel in order, with their senders, none of them truncated, and leaves the rest untouched.\<close>

theorem batch_received_whole:
  assumes r: "try_recv_mmsg sources packets srcs s = (r, packets', srcs', s')"
    and ok: "list_all packet_ok packets" "sources \<longrightarrow> length srcs = length packets" "packets \<noteq> []"
  shows "case r of Inl e \<Rightarrow> map extent packets' = map extent packets \<and> srcs' = srcs
    | Inr n \<Rightarrow> (\<exists>ms. fst (recv_mmsg_call (ur_calls s)) = Inr ms \<and> n = length ms \<and> n \<le> length packets
        \<and> (\<forall>i<n. \<not> rv_truncated (ms ! i) \<and> (rv_len (ms ! i) = length (rv_data (ms ! i)) \<longrightarrow> as_slice (packets' ! i) = rv_data (ms ! i))
             \<and> (sources \<longrightarrow> rv_source (ms ! i) = Some (srcs' ! i)))
        \<and> drop n packets' = drop n packets)"
proof -
  obtain q calls where c: "recv_mmsg_call (ur_calls s) = (q, calls)" by force
  have e: "extent (fill_packet m b) = extent b" for m :: "'a received" and b by (simp add: extent_def fill_packet_def write_at_def)
  show ?thesis
  proof (cases "\<exists>ms. q = Inr ms \<and> length ms \<le> length packets")
    case False
    thus ?thesis using r c ok(3) by (auto simp: try_recv_mmsg_def Let_def split: sum.splits if_splits)
  next
    case True
    then obtain ms where ms: "q = Inr ms" "length ms \<le> length packets" by blast
    let ?f = "map2 fill_packet ms packets"
    have ex: "map extent (?f @ drop (length ms) packets) = map extent packets"
      by (rule nth_equalityI) (use ms(2) in \<open>auto simp: nth_append e\<close>)
    show ?thesis
    proof (cases "check_messages sources ms")
      case (Inl x)
      thus ?thesis using r c ms ok(3) ex by (auto simp: try_recv_mmsg_def Let_def)
    next
      case (Inr u)
      hence chk: "\<forall>m\<in>set ms. \<not> rv_truncated m \<and> rv_len m \<le> PACKET_CAPACITY - PACKET_HEADROOM \<and> (sources \<longrightarrow> rv_source m \<noteq> None)"
        using check_messages_ok [of sources ms] by simp
      have res: "r = Inr (length ms)" "packets' = map accept_message (zip ms ?f) @ drop (length ms) packets"
          "srcs' = (if sources then map (\<lambda>m. the (rv_source m)) ms @ drop (length ms) srcs else srcs)"
        using r c ms ok(3) Inr by (auto simp: try_recv_mmsg_def Let_def)
      have "\<not> rv_truncated (ms ! i) \<and> (rv_len (ms ! i) = length (rv_data (ms ! i)) \<longrightarrow> as_slice (packets' ! i) = rv_data (ms ! i))
             \<and> (sources \<longrightarrow> rv_source (ms ! i) = Some (srcs' ! i))" if i: "i < length ms" for i
      proof -
        let ?m = "ms ! i" and ?b = "packets ! i"
        have m: "?m \<in> set ms" using i by simp
        have pi: "packets' ! i = accept_message (?m, fill_packet ?m ?b)" using i ms(2) by (simp add: res(2) nth_append)
        have "packet_ok ?b" using ok(1) i ms(2) by (simp add: list_all_length)
        moreover obtain b' where b': "set_read_len (rv_len ?m) (fill_packet ?m ?b) = Inr b'" using chk m by (auto simp: set_read_len_def)
        moreover have "packets' ! i = b'" using pi b' by (simp add: accept_message_def)
        ultimately have "rv_len ?m = length (rv_data ?m) \<longrightarrow> as_slice (packets' ! i) = rv_data ?m"
          using as_slice_filled [of ?b ?m b'] by blast
        thus ?thesis using chk m i by (auto simp: res(3) nth_append)
      qed
      moreover have "drop (length ms) packets' = drop (length ms) packets" using ms(2) by (simp add: res(2))
      ultimately show ?thesis using res(1) ms c by auto
    qed
  qed
qed

lemma batch_received_whole_witness:
  "as_slice (hd (fst (snd (try_recv_mmsg True [buf_of (replicate PACKET_CAPACITY 0)] [9 :: nat]
     \<lparr>ur_calls = [RecvMessages [\<lparr>rv_source = Some 4, rv_data = [1, 2, 3], rv_len = 3, rv_truncated = False\<rparr>]], ur_mmsg = True\<rparr>)))) = [1, 2, 3]"
proof -
  let ?b = "buf_of (replicate PACKET_CAPACITY 0)"
  let ?s = "\<lparr>ur_calls = [RecvMessages [\<lparr>rv_source = Some 4, rv_data = [1, 2, 3], rv_len = 3, rv_truncated = False\<rparr>]], ur_mmsg = True\<rparr>"
  obtain r p c s where r: "try_recv_mmsg True [?b] [9 :: nat] ?s = (r, p, c, s)" by (rule prod_cases4)
  have i: "r = Inr 1" and l: "length p = 1" using r by (auto simp: try_recv_mmsg_def Let_def check_message_def PACKET_CAPACITY_def PACKET_HEADROOM_def)
  have "list_all packet_ok [?b]" by (simp add: packet_ok_acquired)
  from batch_received_whole [OF r this] i have "as_slice (p ! 0) = [1, 2, 3]" by simp
  thus ?thesis using r l by (cases p) auto
qed

text \<open>The fall-back is weaker: when a later call fails, the datagrams already received are given up with the error.\<close>

lemma portable_recv_loses:
  assumes "rv_len m \<le> read_area_len"
  shows "fst (portable_recv False [a, b] [] 0 \<lparr>ur_calls = [RecvMessages [m], RecvErrno (EOTHER 111)], ur_mmsg = False\<rparr>) = Inl (Os (EOTHER 111))"
  using assms by (simp add: set_read_len_def read_area_len_def of_errno_def Let_def)

section \<open>The ladder\<close>

definition batch_ladder :: "nat set" where
  "batch_ladder = {16, 32, 64, 128}"

lemma quarter: "min (n * 4) usize_max \<le> k \<longleftrightarrow> n * 4 \<le> k" if "k \<le> 128" for k n :: nat
  using that by (simp add: usize_max_def min_le_iff_disj)

lemma adapt_steps:
  "adapt_batch_limit 16 n = (if 16 \<le> n then 32 else 16)"
  "adapt_batch_limit 32 n = (if 32 \<le> n then 64 else if n \<le> 8 then 16 else 32)"
  "adapt_batch_limit 64 n = (if 64 \<le> n then 128 else if n \<le> 16 then 32 else 64)"
  "adapt_batch_limit 128 n = (if n \<le> 32 then 64 else 128)"
  by (simp_all add: adapt_batch_limit_def quarter MAX_DATAGRAMS_def MIN_DATAGRAMS_def)

text \<open>The batch limit adapts. From 16 the limit never leaves the ladder 16, 32, 64, 128, whatever is received; it moves
  by one step at a time, up only when a batch was full and down only when at most a quarter of it was; three full batches
  reach the maximum from anywhere, and three empty ones the minimum.\<close>

theorem batch_limit_ladder:
  assumes "c \<in> batch_ladder"
  shows "adapt_batch_limit c n \<in> batch_ladder \<and> (c < adapt_batch_limit c n \<longrightarrow> c \<le> n \<and> adapt_batch_limit c n = 2 * c)
    \<and> (adapt_batch_limit c n < c \<longrightarrow> n * 4 \<le> c \<and> 2 * adapt_batch_limit c n = c)
    \<and> (adapt_batch_limit c n = c \<longrightarrow> c = 128 \<and> 32 < n \<or> c = 16 \<and> n < 16 \<or> c < 4 * n \<and> n < c)
    \<and> (\<forall>n1\<ge>128. \<forall>n2\<ge>128. \<forall>n3\<ge>128. adapt_batch_limit (adapt_batch_limit (adapt_batch_limit c n1) n2) n3 = 128)
    \<and> adapt_batch_limit (adapt_batch_limit (adapt_batch_limit c 0) 0) 0 = 16"
  using assms unfolding batch_ladder_def by (elim insertE emptyE) (simp_all add: adapt_steps)

lemma batch_limit_ladder_witness: "adapt_batch_limit 32 8 \<in> batch_ladder"
  using batch_limit_ladder [of 32 8] by (simp add: batch_ladder_def)

end
