(* ===== verification/TurnLoop.thy ===== *)
theory TurnLoop
  imports TurnDriverProps TurnEndpoint UdpBatch
begin

text \<open>
  The two driver loops of \<open>turn.rs\<close> around the handlers of TurnDriver, for a UDP socket and for a stream.
  Each round of a loop takes the clock readings,
  the results of the socket and what the round's wait returned as arguments; between two rounds other tasks act on the shared state.
\<close>

section \<open>The state of a driver and its rounds\<close>

definition CLEANUP_ERROR_RETRY :: nat where "CLEANUP_ERROR_RETRY = msec 100"

text \<open>\<open>td_limit\<close> is the batch limit of the UDP loop.\<close>

record turn_driver =
  td_core :: core
  td_sent :: "bytes list"
  td_shared :: driver_shared
  td_cleanup :: "nat option"
  td_permit :: bool
  td_shutdown :: bool
  td_native :: nat
  td_pump :: bool
  td_epoch :: nat
  td_limit :: nat

definition new_driver :: "nat \<Rightarrow> nat \<Rightarrow> core \<Rightarrow> turn_driver" where
  "new_driver now epoch c = \<lparr>td_core = c, td_sent = [], td_shared = new_shared, td_cleanup = None, td_permit = False,
     td_shutdown = False, td_native = now, td_pump = True, td_epoch = epoch, td_limit = MIN_DATAGRAMS\<rparr>"

text \<open>What a round reads: the clock at its successive readings, transaction ids, which sends succeed, the wake epoch with its last gap, and
  whether a cleanup permit is free.\<close>

record driver_input =
  di_clock :: "nat \<Rightarrow> nat"
  di_tx :: "operation \<Rightarrow> bytes"
  di_io :: "nat \<Rightarrow> bool"
  di_epoch :: nat
  di_gap :: nat
  di_permit :: bool

definition woken :: "driver_input \<Rightarrow> turn_driver \<Rightarrow> turn_driver" where
  "woken i d = (case observe_wake (di_clock i 0) (di_epoch i) (di_gap i) (td_epoch d) (td_core d) of (w, epoch, c) \<Rightarrow>
     d\<lparr>td_core := c, td_epoch := epoch, td_pump := td_pump d \<or> w\<rparr>)"

text \<open>The part of a round that a closing allocation adds; the first component tells that the loop ends.\<close>

definition cleanup_round :: "crypto \<Rightarrow> driver_input \<Rightarrow> turn_driver \<Rightarrow> bool \<times> turn_driver" where
  "cleanup_round cr i d =
    (if \<not> sh_closing (td_shared d) then (False, d)
     else if \<not> sh_control_sent (td_shared d) then (True, d)
     else if \<not> td_permit d \<and> \<not> di_permit i then (True, d)
     else let state = sn_state (sh_snapshot (td_shared d)) in
       (case start_driver_cleanup cr (di_tx i) (di_clock i 1) state (td_cleanup d, td_shutdown d, td_core d) of
          (deadline, started, (cleanup, requested, c)) \<Rightarrow>
            (state_code StDeallocated \<le> state \<or> deadline \<le> di_clock i 2,
             d\<lparr>td_permit := True, td_cleanup := cleanup, td_shutdown := requested, td_core := c, td_pump := td_pump d \<or> started\<rparr>)))"

text \<open>How a round ends: the loop is left, or goes on at once (after sleeping), or after the wait of at most that duration.\<close>

datatype round_end = DriverEnds | DriverAgain nat | DriverWaits nat

definition pump_round :: "crypto \<Rightarrow> socket_addr \<Rightarrow> socket_addr \<Rightarrow> driver_input \<Rightarrow> turn_driver \<Rightarrow> round_end \<times> turn_driver" where
  "pump_round cr server peer i d =
    (case pump_native cr (di_tx i) (di_clock i 4) (di_io i) server peer (td_core d, td_sent d, td_shared d) of
       (Inr delay, c, sent, sh) \<Rightarrow> (DriverAgain 0, d\<lparr>td_core := c, td_sent := sent, td_shared := sh, td_pump := False,
          td_native := di_clock i 5 + (case delay of Some t \<Rightarrow> t | None \<Rightarrow> secs 86400)\<rparr>)
     | (Inl _, c, sent, sh) \<Rightarrow>
         (let d1 = d\<lparr>td_core := c, td_sent := sent, td_shared := request_cleanup (driver_fail (DriverFailed ''TURN core'') sh), td_pump := True\<rparr> in
          if \<not> sh_control_sent (td_shared d1) then (DriverEnds, d1)
          else case td_cleanup d1 of None \<Rightarrow> (DriverAgain 0, d1)
          | Some deadline \<Rightarrow> if deadline \<le> di_clock i 5 then (DriverEnds, d1)
              else (DriverAgain (min CLEANUP_ERROR_RETRY (deadline - di_clock i 5)), d1)))"

definition wait_time :: "driver_input \<Rightarrow> turn_driver \<Rightarrow> nat" where
  "wait_time i d = (let deadline = (case td_cleanup d of None \<Rightarrow> td_native d | Some c \<Rightarrow> min c (td_native d));
     wait = deadline - di_clock i 6 in if wait = 0 then msec 1 else wait)"

definition driver_head :: "crypto \<Rightarrow> socket_addr \<Rightarrow> socket_addr \<Rightarrow> driver_input \<Rightarrow> turn_driver \<Rightarrow> round_end \<times> turn_driver" where
  "driver_head cr server peer i d = (case cleanup_round cr i (woken i d) of
     (True, d1) \<Rightarrow> (DriverEnds, d1)
   | (False, d1) \<Rightarrow> if td_pump d1 \<or> td_native d1 \<le> di_clock i 3 then pump_round cr server peer i d1 else (DriverWaits (wait_time i d1), d1))"

definition shared_op :: "(driver_shared \<Rightarrow> driver_shared) \<Rightarrow> turn_driver \<Rightarrow> turn_driver" where
  "shared_op f d = d\<lparr>td_shared := f (td_shared d)\<rparr>"

definition set_pump :: "bool \<Rightarrow> turn_driver \<Rightarrow> turn_driver" where
  "set_pump b d = d\<lparr>td_pump := b\<rparr>"

text \<open>A packet without a buffer, and one with; the clock reading of the core is that of the end of the wait.\<close>

definition deficit_packet :: "crypto \<Rightarrow> driver_input \<Rightarrow> bytes \<Rightarrow> turn_driver \<Rightarrow> packet_action \<times> turn_driver" where
  "deficit_packet cr i wire d = (case process_deficit_packet cr (di_tx i) (di_clock i 7) wire (td_core d, td_shared d) of
     (a, c, sh) \<Rightarrow> (a, d\<lparr>td_core := c, td_shared := sh\<rparr>))"

definition data_packet :: "crypto \<Rightarrow> driver_input \<Rightarrow> packet_buf \<Rightarrow> turn_driver \<Rightarrow> packet_action \<times> turn_driver" where
  "data_packet cr i b d = (case process_packet cr (di_tx i) (di_clock i 7) b (td_core d, td_shared d) of
     (a, c, sh) \<Rightarrow> (a, d\<lparr>td_core := c, td_shared := sh\<rparr>))"

definition pump_if :: "packet_action \<times> turn_driver \<Rightarrow> turn_driver" where
  "pump_if = (\<lambda>(a, d). if a = Pump then set_pump True d else d)"

section \<open>The stream loop\<close>

text \<open>What its wait returns. A write failure may have been taken back when it is read.\<close>

datatype stream_event = StWake | StTimer | StOwnerClosed | StWriteFailure bool | StWriteFailureClosed
  | StFrame stream_frame | StFrameError

definition stream_event_step :: "crypto \<Rightarrow> driver_input \<Rightarrow> stream_event \<Rightarrow> turn_driver \<Rightarrow> turn_driver" where
  "stream_event_step cr i e d = (case e of
     StWake \<Rightarrow> set_pump True d
   | StTimer \<Rightarrow> set_pump True d
   | StOwnerClosed \<Rightarrow> shared_op request_cleanup d
   | StWriteFailure present \<Rightarrow> if present \<and> \<not> sh_closing (td_shared d)
       then set_pump True (shared_op (request_cleanup \<circ> driver_fail (DriverFailed ''TURN stream transmit failed'')) d) else d
   | StWriteFailureClosed \<Rightarrow> d
   | StFrame (FControl frame) \<Rightarrow> pump_if (deficit_packet cr i frame d)
   | StFrame (FData b) \<Rightarrow> (case data_packet cr i b d of
       (OwnerClosed, d1) \<Rightarrow> shared_op request_cleanup d1 | r \<Rightarrow> pump_if r)
   | StFrame FDataDropped \<Rightarrow> shared_op (\<lambda>sh. sh\<lparr>sh_pool_deficit_drops := sh_pool_deficit_drops sh + 1\<rparr>) d
   | StFrameError \<Rightarrow> set_pump True (shared_op request_cleanup (if sh_closing (td_shared d) then d
       else shared_op (driver_fail (DriverFailed ''TURN stream receive failed'')) d)))"

definition stream_round :: "crypto \<Rightarrow> socket_addr \<Rightarrow> socket_addr \<Rightarrow> driver_input \<times> stream_event \<Rightarrow> turn_driver \<Rightarrow> round_end \<times> turn_driver" where
  "stream_round cr server peer = (\<lambda>(i, e) d. case driver_head cr server peer i d of
     (DriverWaits w, d1) \<Rightarrow> (DriverWaits w, stream_event_step cr i e d1) | r \<Rightarrow> r)"

section \<open>The UDP loop\<close>

text \<open>One read of the burst: how many buffers the pool gave, and what the socket returned: packets (one datagram without a buffer), nothing, or an
  error. The count of the batch call is checked against the buffers.\<close>

datatype burst_read = ReadDatagram bytes | ReadPackets "packet_buf list" | ReadNothing | ReadFailure

record burst_round =
  br_acquired :: nat
  br_read :: burst_read

definition receive_failed :: "string \<Rightarrow> turn_driver \<Rightarrow> turn_driver" where
  "receive_failed reason d = set_pump True (shared_op (request_cleanup \<circ> driver_fail (DriverFailed reason)) d)"

fun burst_packets :: "crypto \<Rightarrow> driver_input \<Rightarrow> packet_buf list \<Rightarrow> turn_driver \<Rightarrow> bool \<times> turn_driver" where
  "burst_packets cr i [] d = (False, d)"
| "burst_packets cr i (b # bs) d = (case data_packet cr i b d of
     (OwnerClosed, d1) \<Rightarrow> (True, d1) | r \<Rightarrow> burst_packets cr i bs (pump_if r))"

text \<open>The burst after \<open>count\<close> packets; \<open>reads\<close> gives the read that follows \<open>n\<close> packets. The result: the packets counted and whether the socket was idle.\<close>

function burst :: "crypto \<Rightarrow> driver_input \<Rightarrow> (nat \<Rightarrow> burst_round) \<Rightarrow> nat \<Rightarrow> turn_driver \<Rightarrow> nat \<times> bool \<times> turn_driver" where
  "burst cr i reads k d =
    (if MAX_DATAGRAMS \<le> k then (k, False, d) else
     let slots = min (br_acquired (reads k)) (min (MAX_DATAGRAMS - k) (td_limit d)) in
     if slots = 0 then (case br_read (reads k) of
         ReadDatagram w \<Rightarrow> burst cr i reads (k + 1) (pump_if (deficit_packet cr i w d))
       | ReadFailure \<Rightarrow> (k, False, receive_failed ''TURN UDP receive failed'' d)
       | _ \<Rightarrow> (k, True, d))
     else (case br_read (reads k) of
         ReadPackets (b # bs) \<Rightarrow>
           (if slots < length (b # bs) then (k, False, receive_failed ''TURN UDP batch receive returned an invalid count'' d)
            else let d1 = (if slots = td_limit d then d\<lparr>td_limit := adapt_batch_limit (td_limit d) (length (b # bs))\<rparr> else d) in
              (case burst_packets cr i (b # bs) d1 of
                 (True, d2) \<Rightarrow> (k + length (b # bs), False, shared_op request_cleanup d2)
               | (False, d2) \<Rightarrow> burst cr i reads (k + length (b # bs)) d2))
       | ReadFailure \<Rightarrow> (k, False, receive_failed ''TURN UDP receive failed'' d)
       | _ \<Rightarrow> (k, True, d\<lparr>td_limit := adapt_batch_limit (td_limit d) 0\<rparr>)))"
  by pat_completeness auto

termination by (relation "measure (\<lambda>(cr, i, reads, k, d). MAX_DATAGRAMS - k)") auto

declare burst.simps [simp del]

text \<open>What the wait returns: a notification, the timer, the loss of the owner, the readiness of the socket, or (when closing) a packet.\<close>

datatype udp_event = UdWake | UdTimer | UdOwnerClosed | UdReadable bool | UdPacket "bytes option"

record udp_input =
  ui_reads :: "nat \<Rightarrow> burst_round"
  ui_drained :: "bytes list"
  ui_event :: udp_event

text \<open>A closing allocation: the datagrams that are there, then the wait. The sleep after a failed receive is part of the wait.\<close>

definition udp_closing :: "crypto \<Rightarrow> driver_input \<Rightarrow> udp_input \<Rightarrow> turn_driver \<Rightarrow> turn_driver" where
  "udp_closing cr i u d = (let d1 = fold (\<lambda>w d. pump_if (deficit_packet cr i w d)) (ui_drained u) d in
     case ui_event u of
       UdWake \<Rightarrow> set_pump True d1
     | UdTimer \<Rightarrow> set_pump True d1
     | UdPacket (Some w) \<Rightarrow> (case deficit_packet cr i w d1 of (a, d2) \<Rightarrow> set_pump (a = Pump) d2)
     | UdPacket None \<Rightarrow> set_pump True (shared_op (driver_fail (DriverFailed ''TURN UDP receive failed'')) d1)
     | _ \<Rightarrow> d1)"

definition udp_open :: "crypto \<Rightarrow> driver_input \<Rightarrow> udp_input \<Rightarrow> nat \<Rightarrow> turn_driver \<Rightarrow> round_end \<times> turn_driver" where
  "udp_open cr i u w d = (case burst cr i (ui_reads u) 0 d of (k, socket_empty, d1) \<Rightarrow>
     if td_pump d1 then (DriverAgain 0, d1)
     else if 0 < k \<and> \<not> socket_empty then (DriverAgain 0, d1)
     else (DriverWaits w, (case ui_event u of
         UdWake \<Rightarrow> set_pump True d1
       | UdTimer \<Rightarrow> set_pump True d1
       | UdOwnerClosed \<Rightarrow> shared_op request_cleanup d1
       | UdReadable ok \<Rightarrow> if ok then d1 else receive_failed ''TURN UDP readiness failed'' d1
       | _ \<Rightarrow> d1)))"

definition udp_round :: "crypto \<Rightarrow> socket_addr \<Rightarrow> socket_addr \<Rightarrow> driver_input \<times> udp_input \<Rightarrow> turn_driver \<Rightarrow> round_end \<times> turn_driver" where
  "udp_round cr server peer = (\<lambda>(i, u) d. case driver_head cr server peer i d of
     (DriverWaits w, d1) \<Rightarrow> if sh_closing (td_shared d1) then (DriverWaits w, udp_closing cr i u d1) else udp_open cr i u w d1
   | r \<Rightarrow> r)"

section \<open>Running a loop\<close>

definition others :: "crypto \<Rightarrow> socket_addr \<Rightarrow> socket_addr \<Rightarrow> driver_event list \<Rightarrow> turn_driver \<Rightarrow> turn_driver" where
  "others cr server peer es d = (case fold (driver_step cr server peer) es (td_core d, td_sent d, td_shared d) of
     (c, sent, sh) \<Rightarrow> d\<lparr>td_core := c, td_sent := sent, td_shared := sh\<rparr>)"

text \<open>The rounds of a loop, each after what other tasks did; when the loop is left the core is destroyed. The first component tells that it was.\<close>

fun drive :: "(driver_event list \<Rightarrow> turn_driver \<Rightarrow> turn_driver) \<Rightarrow> ('i \<Rightarrow> turn_driver \<Rightarrow> round_end \<times> turn_driver)
    \<Rightarrow> (driver_event list \<times> 'i) list \<Rightarrow> turn_driver \<Rightarrow> bool \<times> turn_driver" where
  "drive other step [] d = (False, d)"
| "drive other step ((es, i) # rest) d = (case step i (other es d) of
     (DriverEnds, d1) \<Rightarrow> (True, d1\<lparr>td_core := force_destroy 0 (td_core d1)\<rparr>)
   | (_, d1) \<Rightarrow> drive other step rest d1)"

section \<open>What a round keeps\<close>

text \<open>What the handling of an event leaves alone: the deadlines, the permit, and what persists of the shared state, whose invariant it keeps.\<close>

definition keeps :: "driver_shared \<Rightarrow> driver_shared \<Rightarrow> bool" where
  "keeps sh sh' \<longleftrightarrow> persists sh sh' \<and> (shared_inv sh \<longrightarrow> shared_inv sh')"

definition rides :: "turn_driver \<Rightarrow> turn_driver \<Rightarrow> bool" where
  "rides d d' \<longleftrightarrow> keeps (td_shared d) (td_shared d') \<and> td_cleanup d' = td_cleanup d \<and> td_permit d' = td_permit d
     \<and> td_shutdown d' = td_shutdown d \<and> td_native d' = td_native d"

lemma keeps_refl: "keeps sh sh"
  by (simp add: keeps_def)

lemma keeps_trans: "keeps a b \<Longrightarrow> keeps b c \<Longrightarrow> keeps a c"
  by (auto simp: keeps_def intro: persists_trans)

lemma rides_refl: "rides d d"
  by (simp add: rides_def keeps_refl)

lemma rides_trans: "rides a b \<Longrightarrow> rides b c \<Longrightarrow> rides a c"
  by (auto simp: rides_def intro: keeps_trans)

lemma rides_set_pump: "rides d (set_pump b d)"
  by (simp add: rides_def set_pump_def keeps_refl)

lemma rides_limit: "rides d (d\<lparr>td_limit := n\<rparr>)"
  by (simp add: rides_def keeps_refl)

lemma rides_shared_op: "(\<And>sh. keeps sh (f sh)) \<Longrightarrow> rides d (shared_op f d)"
  by (simp add: rides_def shared_op_def)

lemma rides_cleanup: "rides d (shared_op request_cleanup d)"
  by (rule rides_shared_op) (simp add: keeps_def cleanup_kept)

lemma rides_fail: "rides d (shared_op (driver_fail r) d)"
  by (rule rides_shared_op) (simp add: keeps_def fail_kept)

lemma keeps_fail_cleanup: "keeps sh ((request_cleanup \<circ> driver_fail r) sh)"
  by (rule keeps_trans [of _ "driver_fail r sh"]) (simp_all add: keeps_def fail_kept cleanup_kept)

lemma rides_failed: "rides d (receive_failed reason d)"
  unfolding receive_failed_def by (rule rides_trans [OF rides_shared_op rides_set_pump]) (rule keeps_fail_cleanup)

lemma rides_deficit: "rides d (snd (deficit_packet cr i w d))"
  using deficit_kept [of cr "di_tx i" "di_clock i 7" w "td_core d" "td_shared d"]
  by (auto simp: deficit_packet_def rides_def keeps_def split: prod.splits)

lemma rides_data: "rides d (snd (data_packet cr i b d))"
  using process_packet_kept [of cr "di_tx i" "di_clock i 7" b "td_core d" "td_shared d"]
  by (auto simp: data_packet_def rides_def keeps_def split: prod.splits)

lemma rides_pump_if: "rides d (snd r) \<Longrightarrow> rides d (pump_if r)"
  by (cases r) (auto simp: pump_if_def intro: rides_trans rides_set_pump)

lemma rides_stream_event: "rides d (stream_event_step cr i e d)"
proof (cases e)
  case (StFrame f)
  show ?thesis
  proof (cases f)
    case (FControl w)
    show ?thesis unfolding StFrame FControl stream_event_step_def by (simp add: rides_pump_if rides_deficit)
  next
    case (FData b)
    obtain a d1 where r: "data_packet cr i b d = (a, d1)" by force
    have "rides d d1" using rides_data [of d cr i b] by (simp add: r)
    then show ?thesis unfolding StFrame FData stream_event_step_def using r
      by (cases a) (auto simp: pump_if_def intro: rides_trans rides_cleanup rides_set_pump)
  next
    case FDataDropped
    show ?thesis unfolding StFrame FDataDropped stream_event_step_def by (simp add: rides_shared_op keeps_def persists_def shared_inv_def)
  qed
qed (auto simp: stream_event_step_def rides_refl rides_set_pump rides_cleanup receive_failed_def [symmetric] rides_failed
    intro: rides_trans [OF rides_cleanup rides_set_pump] rides_trans [OF rides_trans [OF rides_fail rides_cleanup] rides_set_pump])

lemma rides_burst_packets: "burst_packets cr i bs d = (closed, d') \<Longrightarrow> rides d d'"
proof (induction bs arbitrary: d)
  case Nil
  then show ?case by (simp add: rides_refl)
next
  case (Cons b bs)
  obtain a d1 where r: "data_packet cr i b d = (a, d1)" by force
  have d1: "rides d d1" using rides_data [of d cr i b] by (simp add: r)
  show ?case
  proof (cases a)
    case OwnerClosed
    then show ?thesis using Cons.prems d1 by (simp add: r)
  qed (use Cons.prems in \<open>auto simp: r pump_if_def intro: rides_trans [OF d1 Cons.IH] rides_trans [OF d1 rides_trans [OF rides_set_pump Cons.IH]]\<close>)
qed

lemma rides_burst: "burst cr i reads k d = (k', idle, d') \<Longrightarrow> rides d d'"
proof (induction cr i reads k d arbitrary: k' idle d' rule: burst.induct)
  case (1 cr i reads k d)
  let ?slots = "min (br_acquired (reads k)) (min (MAX_DATAGRAMS - k) (td_limit d))"
  show ?case
  proof (cases "MAX_DATAGRAMS \<le> k")
    case True
    then show ?thesis using "1.prems" by (simp add: burst.simps rides_refl)
  next
    case lt: False
    note eq = burst.simps [of cr i reads k d, unfolded Let_def]
    show ?thesis
    proof (cases "?slots = 0")
      case True
      show ?thesis
      proof (cases "br_read (reads k)")
        case (ReadDatagram w)
        have "rides (pump_if (deficit_packet cr i w d)) d'"
          using "1.IH"(1) [OF lt refl True ReadDatagram] "1.prems" lt True ReadDatagram by (simp add: eq)
        then show ?thesis by (rule rides_trans [rotated]) (intro rides_pump_if rides_deficit)
      qed (use "1.prems" lt True in \<open>auto simp: eq rides_refl rides_failed\<close>)
    next
      case slots: False
      show ?thesis
      proof (cases "br_read (reads k)")
        case (ReadPackets ps)
        show ?thesis
        proof (cases ps)
          case Nil
          then show ?thesis using "1.prems" lt slots ReadPackets by (auto simp: eq rides_limit)
        next
          case (Cons b bs)
          show ?thesis
          proof (cases "?slots < length (b # bs)")
            case True
            then show ?thesis using "1.prems" lt slots ReadPackets Cons by (auto simp: eq rides_failed)
          next
            case fits: False
            define d1 where "d1 = (if ?slots = td_limit d then d\<lparr>td_limit := adapt_batch_limit (td_limit d) (length (b # bs))\<rparr> else d)"
            have d1: "rides d d1" by (simp add: d1_def rides_limit rides_refl)
            obtain closed d2 where p: "burst_packets cr i (b # bs) d1 = (closed, d2)" by force
            have d2: "rides d d2" using rides_trans [OF d1 rides_burst_packets [OF p]] .
            have b: "burst cr i reads k d = (if closed then (k + length (b # bs), False, shared_op request_cleanup d2)
                else burst cr i reads (k + length (b # bs)) d2)"
              using lt slots ReadPackets Cons fits p by (simp add: eq d1_def [symmetric] del: burst_packets.simps)
            show ?thesis
            proof (cases closed)
              case True
              then show ?thesis using b "1.prems" d2 by (auto intro: rides_trans rides_cleanup)
            next
              case False
              then have "burst cr i reads (k + length (b # bs)) d2 = (k', idle, d')" using b "1.prems" by simp
              then have "rides d2 d'" using "1.IH"(2) [OF lt refl slots ReadPackets Cons fits d1_def p [symmetric]] False by blast
              then show ?thesis by (rule rides_trans [OF d2])
            qed
          qed
        qed
      qed (use "1.prems" lt slots in \<open>auto simp: eq rides_limit rides_failed\<close>)
    qed
  qed
qed

lemma rides_drained: "rides d (fold (\<lambda>w d. pump_if (deficit_packet cr i w d)) ws d)"
proof (induction ws arbitrary: d)
  case (Cons w ws)
  show ?case using rides_trans [OF rides_pump_if [OF rides_deficit] Cons.IH] by simp
qed (simp add: rides_refl)

lemma rides_closing: "rides d (udp_closing cr i u d)"
proof -
  define d1 where "d1 = fold (\<lambda>w d. pump_if (deficit_packet cr i w d)) (ui_drained u) d"
  have d1: "rides d d1" unfolding d1_def by (rule rides_drained)
  have "rides d1 (udp_closing cr i u d)"
  proof (cases "ui_event u")
    case (UdPacket p)
    show ?thesis
    proof (cases p)
      case None
      then show ?thesis unfolding udp_closing_def Let_def d1_def [symmetric] UdPacket
        by (auto intro: rides_trans [OF rides_fail rides_set_pump])
    next
      case (Some w)
      obtain a d2 where r: "deficit_packet cr i w d1 = (a, d2)" by force
      have "rides d1 d2" using rides_deficit [of d1 cr i w] by (simp add: r)
      then show ?thesis unfolding udp_closing_def Let_def d1_def [symmetric] UdPacket Some using r
        by (auto intro: rides_trans rides_set_pump)
    qed
  qed (auto simp: udp_closing_def Let_def d1_def [symmetric] rides_set_pump rides_refl)
  then show ?thesis by (rule rides_trans [OF d1])
qed

lemma rides_open: "udp_open cr i u w d = (r, d') \<Longrightarrow> rides d d' \<and> (r = DriverAgain 0 \<or> r = DriverWaits w)"
proof -
  assume r: "udp_open cr i u w d = (r, d')"
  obtain k idle d1 where b: "burst cr i (ui_reads u) 0 d = (k, idle, d1)" by (metis prod_cases3)
  have d1: "rides d d1" by (rule rides_burst [OF b])
  show ?thesis using r b d1
    by (auto simp: udp_open_def split: if_splits udp_event.splits intro: rides_trans rides_set_pump rides_cleanup rides_failed)
qed

section \<open>The teardown of a closing allocation\<close>

lemma cleanup_deadline:
  assumes "cleanup_round cr i d = (False, d1)" "sh_closing (td_shared d)"
  shows "\<exists>D. td_cleanup d1 = Some D \<and> D \<le> di_clock i 1 + CLEANUP_TIMEOUT \<and> di_clock i 2 < D
    \<and> (\<forall>D0. td_cleanup d = Some D0 \<longrightarrow> D \<le> D0)"
  using assms by (auto simp: cleanup_round_def start_driver_cleanup_def Let_def CLEANUP_TIMEOUT_def READY_CLEANUP_TIMEOUT_def secs_def
      split: if_splits option.splits)

lemma cleanup_shared: "cleanup_round cr i d = (b, d1) \<Longrightarrow> td_shared d1 = td_shared d \<and> (\<not> sh_closing (td_shared d) \<longrightarrow> td_cleanup d1 = td_cleanup d)"
  by (auto simp: cleanup_round_def Let_def split: if_splits prod.splits)

lemma woken_keeps: "td_shared (woken i d) = td_shared d \<and> td_cleanup (woken i d) = td_cleanup d"
  by (auto simp: woken_def split: prod.splits)

lemma pump_round_keeps:
  "pump_round cr server peer i d = (r, d1) \<Longrightarrow> td_cleanup d1 = td_cleanup d \<and> (sh_closing (td_shared d) \<longrightarrow> sh_closing (td_shared d1))
    \<and> (r = DriverEnds \<or> (\<exists>n. r = DriverAgain n))"
  using pump_kept [of cr "di_tx i" "di_clock i 4" "di_io i" server peer "td_core d" "td_sent d" "td_shared d"]
  by (auto simp: pump_round_def Let_def persists_def request_cleanup_def split: prod.splits sum.splits option.splits if_splits)

text \<open>A round of a closing driver that does not end has a deadline in the future, at most 35 s after the round's start, and never
  later than the deadline of the round before. What it waits for does not reach beyond that.\<close>

lemma head_deadline:
  assumes "driver_head cr server peer i d = (r, d1)" "r \<noteq> DriverEnds" "sh_closing (td_shared d)"
  shows "sh_closing (td_shared d1) \<and> (\<exists>D. td_cleanup d1 = Some D \<and> D \<le> di_clock i 1 + CLEANUP_TIMEOUT \<and> di_clock i 2 < D
      \<and> (\<forall>D0. td_cleanup d = Some D0 \<longrightarrow> D \<le> D0)
      \<and> (\<forall>w. r = DriverWaits w \<longrightarrow> w \<le> max (msec 1) (D - di_clock i 6)))"
proof -
  obtain b d0 where c: "cleanup_round cr i (woken i d) = (b, d0)" by force
  have b: "\<not> b" using assms(1,2) c by (auto simp: driver_head_def)
  have sh: "sh_closing (td_shared (woken i d))" "td_cleanup (woken i d) = td_cleanup d" using assms(3) woken_keeps by simp_all
  obtain D where D: "td_cleanup d0 = Some D" "D \<le> di_clock i 1 + CLEANUP_TIMEOUT" "di_clock i 2 < D" "\<forall>D0. td_cleanup d = Some D0 \<longrightarrow> D \<le> D0"
    using cleanup_deadline [of cr i "woken i d" d0] c b sh by auto
  have cl: "sh_closing (td_shared d0)" using cleanup_shared [OF c] sh by simp
  show ?thesis
  proof (cases "td_pump d0 \<or> td_native d0 \<le> di_clock i 3")
    case True
    then have "pump_round cr server peer i d0 = (r, d1)" using assms(1) c b by (simp add: driver_head_def)
    then show ?thesis using pump_round_keeps assms(2) D cl by fastforce
  next
    case False
    then have "r = DriverWaits (wait_time i d0)" "d1 = d0" using assms(1) c b by (auto simp: driver_head_def)
    then show ?thesis using D cl by (auto simp: wait_time_def Let_def min_def msec_def)
  qed
qed

lemma pump_round_shared:
  assumes "pump_round cr server peer i d = (r, d1)"
  shows "keeps (td_shared d) (td_shared d1)"
proof -
  obtain p c sent sh where p: "pump_native cr (di_tx i) (di_clock i 4) (di_io i) server peer (td_core d, td_sent d, td_shared d) = (p, c, sent, sh)"
    by (metis prod_cases4)
  have k: "keeps (td_shared d) sh" using pump_kept [OF p] by (simp add: keeps_def)
  have "td_shared d1 = sh \<or> td_shared d1 = request_cleanup (driver_fail (DriverFailed ''TURN core'') sh)"
    using assms p by (auto simp: pump_round_def Let_def split: sum.splits option.splits if_splits)
  then show ?thesis using k keeps_trans [OF k keeps_fail_cleanup] by auto
qed

lemma head_keeps: "driver_head cr server peer i d = (r, d1) \<Longrightarrow> keeps (td_shared d) (td_shared d1)"
proof -
  assume h: "driver_head cr server peer i d = (r, d1)"
  obtain b d0 where c: "cleanup_round cr i (woken i d) = (b, d0)" by force
  have sh: "td_shared d0 = td_shared d" using cleanup_shared [OF c] woken_keeps by simp
  have "d1 = d0 \<or> pump_round cr server peer i d0 = (r, d1)" using h c by (auto simp: driver_head_def split: bool.splits if_splits)
  then show ?thesis using sh pump_round_shared keeps_refl by metis
qed

lemma others_keeps: "keeps (td_shared d) (td_shared (others cr server peer es d))"
proof -
  have "keeps (snd (snd s)) (snd (snd (fold (driver_step cr server peer) es s)))" for s
  proof (induction es arbitrary: s)
    case (Cons e es)
    obtain c sent sh where s: "s = (c, sent, sh)" by (metis prod_cases3)
    obtain c' sent' sh' where s': "driver_step cr server peer e (c, sent, sh) = (c', sent', sh')" by (metis prod_cases3)
    have "keeps sh sh'" using driver_step_kept [OF s'] by (simp add: keeps_def)
    then show ?case using keeps_trans Cons.IH [of "(c', sent', sh')"] by (simp add: s s')
  qed (simp add: keeps_refl)
  from this [of "(td_core d, td_sent d, td_shared d)"] show ?thesis
    by (cases "fold (driver_step cr server peer) es (td_core d, td_sent d, td_shared d)") (simp add: others_def)
qed

text \<open>A loop is the common head of a round and, when the head waits, the handling of what the wait returned.\<close>

locale driver_loop =
  fixes step :: "'i \<Rightarrow> turn_driver \<Rightarrow> round_end \<times> turn_driver" and input_of :: "'i \<Rightarrow> driver_input"
    and cr :: crypto and server peer :: socket_addr
  assumes head_only: "driver_head cr server peer (input_of x) d = (r, d1) \<Longrightarrow> \<nexists>w. r = DriverWaits w \<Longrightarrow> step x d = (r, d1)"
    and head_waits: "driver_head cr server peer (input_of x) d = (DriverWaits w, d1) \<Longrightarrow>
      \<exists>r d2. step x d = (r, d2) \<and> (r = DriverAgain 0 \<or> r = DriverWaits w) \<and> rides d1 d2"
begin

abbreviation run where "run \<equiv> drive (others cr server peer) step"

lemma step_deadline:
  assumes "step x d = (r, d2)" "r \<noteq> DriverEnds" "sh_closing (td_shared d)"
  shows "sh_closing (td_shared d2) \<and> (\<exists>D. td_cleanup d2 = Some D \<and> D \<le> di_clock (input_of x) 1 + CLEANUP_TIMEOUT \<and> di_clock (input_of x) 2 < D
      \<and> (\<forall>D0. td_cleanup d = Some D0 \<longrightarrow> D \<le> D0) \<and> (\<forall>w. r = DriverWaits w \<longrightarrow> w \<le> max (msec 1) (D - di_clock (input_of x) 6)))"
proof -
  obtain h d1 where h: "driver_head cr server peer (input_of x) d = (h, d1)" by force
  show ?thesis
  proof (cases "\<exists>w. h = DriverWaits w")
    case True
    then obtain w where w: "h = DriverWaits w" by blast
    then have "(r = DriverAgain 0 \<or> r = DriverWaits w) \<and> rides d1 d2" using head_waits [of x d w d1] h assms(1) by auto
    then show ?thesis using head_deadline [OF h _ assms(3)] w by (auto simp: rides_def keeps_def persists_def)
  next
    case False
    then show ?thesis using head_only [OF h] assms head_deadline [OF h _ assms(3)] by auto
  qed
qed

lemma others_keep: "td_cleanup (others cr server peer es d) = td_cleanup d"
  by (simp add: others_def split: prod.splits)

lemma others_closing: "sh_closing (td_shared d) \<Longrightarrow> sh_closing (td_shared (others cr server peer es d))"
  using others_keeps [of d cr server peer es] by (simp add: keeps_def persists_def)

text \<open>Whatever a round does, the shared state keeps its invariant and what persists.\<close>

lemma step_keeps: "step x d = (r, d2) \<Longrightarrow> keeps (td_shared d) (td_shared d2)"
proof -
  assume s: "step x d = (r, d2)"
  obtain h d1 where h: "driver_head cr server peer (input_of x) d = (h, d1)" by force
  show ?thesis
  proof (cases "\<exists>w. h = DriverWaits w")
    case True
    then obtain w where "h = DriverWaits w" by blast
    then have "rides d1 d2" using head_waits [of x d w d1] h s by auto
    then show ?thesis using keeps_trans [OF head_keeps [OF h]] by (simp add: rides_def)
  next
    case False
    then show ?thesis using head_only [OF h] s head_keeps [OF h] by auto
  qed
qed

lemma run_after_deadline:
  assumes "run xs d = (False, d')" "sh_closing (td_shared d)" "td_cleanup d = Some D" "(es, x) \<in> set xs"
  shows "di_clock (input_of x) 2 < D"
  using assms
proof (induction xs arbitrary: d D)
  case (Cons y ys)
  obtain es0 i where y: "y = (es0, i)" by force
  obtain r d1 where s: "step i (others cr server peer es0 d) = (r, d1)" by force
  have r: "r \<noteq> DriverEnds" using Cons.prems(1) by (auto simp: y s)
  have rest: "run ys d1 = (False, d')" using Cons.prems(1) r by (cases r) (auto simp: y s)
  obtain D1 where D1: "td_cleanup d1 = Some D1" "di_clock (input_of i) 2 < D1" "D1 \<le> D" "sh_closing (td_shared d1)"
    using step_deadline [OF s r others_closing [OF Cons.prems(2)]] Cons.prems(3) by (auto simp: others_keep)
  show ?case using Cons.IH [OF rest D1(4,1)] D1 Cons.prems(4) by (auto simp: y)
qed simp

lemma teardown:
  assumes "run ((es, x) # rest) d = (False, d')" "sh_closing (td_shared (others cr server peer es d))" "(es', y) \<in> set rest"
  shows "di_clock (input_of y) 2 < di_clock (input_of x) 1 + CLEANUP_TIMEOUT"
proof -
  obtain r d1 where s: "step x (others cr server peer es d) = (r, d1)" by force
  have r: "r \<noteq> DriverEnds" using assms(1) by (auto simp: s)
  have rest: "run rest d1 = (False, d')" using assms(1) r by (cases r) (auto simp: s)
  obtain D where "td_cleanup d1 = Some D" "D \<le> di_clock (input_of x) 1 + CLEANUP_TIMEOUT" "sh_closing (td_shared d1)"
    using step_deadline [OF s r assms(2)] by auto
  then show ?thesis using run_after_deadline [OF rest _ _ assms(3)] by fastforce
qed

lemma ended_destroyed: "run xs d = (True, d') \<Longrightarrow> c_destroyed (td_core d')"
proof (induction xs arbitrary: d)
  case (Cons y ys)
  obtain es0 i where y: "y = (es0, i)" by force
  obtain r d1 where s: "step i (others cr server peer es0 d) = (r, d1)" by force
  show ?case
  proof (cases r)
    case DriverEnds
    then show ?thesis using Cons.prems by (auto simp: y s force_destroy_def push_event_def set_state_def Let_def)
  qed (use Cons in \<open>auto simp: y s\<close>)
qed simp

end

interpretation stream_loop: driver_loop "stream_round cr server peer" fst cr server peer for cr server peer
proof
  fix x :: "driver_input \<times> stream_event" and d r d1
  assume h: "driver_head cr server peer (fst x) d = (r, d1)" "\<nexists>w. r = DriverWaits w"
  show "stream_round cr server peer x d = (r, d1)" using h by (cases r) (auto simp: stream_round_def split: prod.splits)
next
  fix x :: "driver_input \<times> stream_event" and d w d1
  assume h: "driver_head cr server peer (fst x) d = (DriverWaits w, d1)"
  show "\<exists>r d2. stream_round cr server peer x d = (r, d2) \<and> (r = DriverAgain 0 \<or> r = DriverWaits w) \<and> rides d1 d2"
    using h by (auto simp: stream_round_def rides_stream_event split: prod.splits)
qed

interpretation udp_loop: driver_loop "udp_round cr server peer" fst cr server peer for cr server peer
proof
  fix x :: "driver_input \<times> udp_input" and d r d1
  assume h: "driver_head cr server peer (fst x) d = (r, d1)" "\<nexists>w. r = DriverWaits w"
  show "udp_round cr server peer x d = (r, d1)" using h by (cases r) (auto simp: udp_round_def split: prod.splits)
next
  fix x :: "driver_input \<times> udp_input" and d w d1
  assume h: "driver_head cr server peer (fst x) d = (DriverWaits w, d1)"
  obtain i u where x: "x = (i, u)" by force
  show "\<exists>r d2. udp_round cr server peer x d = (r, d2) \<and> (r = DriverAgain 0 \<or> r = DriverWaits w) \<and> rides d1 d2"
    using h rides_open [of cr i u w d1] rides_closing [of d1 cr i u] by (cases "udp_open cr i u w d1") (auto simp: udp_round_def x)
qed

text \<open>C24: A closed allocation is torn down in time. Once a round of the UDP driver finds the allocation closing, the loop starts no
  later round at 35 s or more after it, whatever arrives from the relay, fails, or is done by other tasks
  meanwhile; and when the loop is left, the TURN client is destroyed.\<close>

theorem driver_teardown:
  assumes "drive (others cr server peer) (udp_round cr server peer) ((es, x) # rest) d = (ended, d')"
    and "sh_closing (td_shared (others cr server peer es d))"
  shows "if ended then c_destroyed (td_core d') else \<forall>(es', y)\<in>set rest. di_clock (fst y) 2 < di_clock (fst x) 1 + secs 35"
proof (cases ended)
  case True
  then have "ended = True" by simp
  from udp_loop.ended_destroyed [OF assms(1) [unfolded this]] show ?thesis using True by (simp only: if_True)
next
  case False
  then have e: "ended = False" by simp
  have "di_clock (fst y) 2 < di_clock (fst x) 1 + secs 35" if "(es', y) \<in> set rest" for es' y
    using udp_loop.teardown [OF assms(1) [unfolded e] assms(2) that] by (simp only: CLEANUP_TIMEOUT_def)
  then show ?thesis using False by auto
qed

text \<open>The same for the driver of a stream.\<close>

lemma stream_driver_teardown:
  assumes "drive (others cr server peer) (stream_round cr server peer) ((es, x) # rest) d = (ended, d')"
    and "sh_closing (td_shared (others cr server peer es d))"
  shows "if ended then c_destroyed (td_core d') else \<forall>(es', y)\<in>set rest. di_clock (fst y) 2 < di_clock (fst x) 1 + secs 35"
proof (cases ended)
  case True
  then have "ended = True" by simp
  from stream_loop.ended_destroyed [OF assms(1) [unfolded this]] show ?thesis using True by (simp only: if_True)
next
  case False
  then have e: "ended = False" by simp
  have "di_clock (fst y) 2 < di_clock (fst x) 1 + secs 35" if "(es', y) \<in> set rest" for es' y
    using stream_loop.teardown [OF assms(1) [unfolded e] assms(2) that] by (simp only: CLEANUP_TIMEOUT_def)
  then show ?thesis using False by auto
qed

text \<open>While it closes, the UDP driver can forget to pump: a STUN response read while draining asks for it, and a datagram that is not
  STUN, returned by the wait, takes the request back. The open loop pumps before it waits.\<close>

lemma closing_forgets_pump:
  assumes "is_stun w1" "channel_data_header w1 = None" "\<not> is_stun w2"
    and "ui_drained u = [w1]" "ui_event u = UdPacket (Some w2)"
  shows "td_core (udp_closing cr i u d) = snd (input_stun cr (di_tx i) (di_clock i 7) w1 (td_core d)) \<and> \<not> td_pump (udp_closing cr i u d)"
proof -
  have first: "deficit_packet cr i w1 d = (Pump, d\<lparr>td_core := snd (input_stun cr (di_tx i) (di_clock i 7) w1 (td_core d))\<rparr>)"
    using assms(1,2) by (simp add: deficit_packet_def process_deficit_packet_def)
  have second: "fst (deficit_packet cr i w2 d1) = Wait \<and> td_core (snd (deficit_packet cr i w2 d1)) = td_core d1" for d1
    using assms(3) by (auto simp: deficit_packet_def process_deficit_packet_def split: option.splits)
  show ?thesis using second [of "pump_if (deficit_packet cr i w1 d)"]
    by (cases "deficit_packet cr i w2 (pump_if (deficit_packet cr i w1 d))")
      (simp add: udp_closing_def assms(4,5) first pump_if_def set_pump_def Let_def)
qed

text \<open>A closing driver with a client that has not started: its first round shuts the client down and pumps, the second is the last.\<close>

definition sample_round :: "nat \<Rightarrow> driver_event list \<times> driver_input \<times> udp_input" where
  "sample_round t = ([], \<lparr>di_clock = (\<lambda>_. t), di_tx = (\<lambda>_. replicate 12 0), di_io = (\<lambda>_. True), di_epoch = 0, di_gap = 0, di_permit = True\<rparr>,
     \<lparr>ui_reads = (\<lambda>_. \<lparr>br_acquired = 0, br_read = ReadNothing\<rparr>), ui_drained = [], ui_event = UdTimer\<rparr>)"

definition sample_driver :: turn_driver where
  "sample_driver = (new_driver 0 0 sample_core)\<lparr>td_shared := new_shared\<lparr>sh_closing := True, sh_control_sent := True\<rparr>\<rparr>"

lemma driver_teardown_witness:
  "c_destroyed (td_core (snd (drive (others constant_crypto sample_server sample_server)
     (udp_round constant_crypto sample_server sample_server) [sample_round 5, sample_round (secs 41)] sample_driver)))"
proof -
  let ?o = "others constant_crypto sample_server sample_server"
  let ?d = "drive ?o (udp_round constant_crypto sample_server sample_server) [sample_round 5, sample_round (secs 41)] sample_driver"
  have "fst ?d" by code_simp
  then have run: "drive ?o (udp_round constant_crypto sample_server sample_server)
      ((fst (sample_round 5), snd (sample_round 5)) # [sample_round (secs 41)]) sample_driver = (True, snd ?d)"
    by (simp only: prod.collapse) (metis prod.collapse)
  have "sh_closing (td_shared (?o (fst (sample_round 5)) sample_driver))"
    by (simp add: others_def sample_round_def sample_driver_def new_driver_def)
  from driver_teardown [OF run this] show ?thesis by (simp only: if_True)
qed

end
