(* ===== verification/TurnAllocation.thy ===== *)
theory TurnAllocation
  imports TurnLoop TurnStream
begin

text \<open>
  \<open>TurnAllocation\<close> of \<open>turn.rs\<close>, the side of the driver that a session calls: connecting, binding the channel, sending, deallocating.
  The driver's task runs between the suspensions of these calls; its rounds (TurnLoop) are the events of their waits. Opening a socket and resolving a
  name are arguments.
\<close>

section \<open>The driver's task seen from its owner\<close>

datatype relay_round = UdpRound "driver_event list" driver_input udp_input | StreamRound "driver_event list" driver_input stream_event

definition ended_core :: "round_end \<times> turn_driver \<Rightarrow> turn_driver" where
  "ended_core = (\<lambda>(r, d). if r = DriverEnds then d\<lparr>td_core := force_destroy 0 (td_core d)\<rparr> else d)"

definition relay_step :: "crypto \<Rightarrow> socket_addr \<Rightarrow> socket_addr \<Rightarrow> relay_round \<Rightarrow> turn_driver \<Rightarrow> turn_driver" where
  "relay_step cr server peer e d = (case e of
     UdpRound es i u \<Rightarrow> ended_core (udp_round cr server peer (i, u) (others cr server peer es d))
   | StreamRound es i v \<Rightarrow> ended_core (stream_round cr server peer (i, v) (others cr server peer es d)))"

text \<open>A wait on the published snapshot: it looks, and looks again after every change, until its time is up (\<open>None\<close>). The channel
  cannot close, for its sender is part of the allocation.\<close>

fun await :: "('e \<Rightarrow> turn_driver \<Rightarrow> turn_driver) \<Rightarrow> (driver_shared \<Rightarrow> 'r option) \<Rightarrow> 'e list \<Rightarrow> turn_driver \<Rightarrow> 'r option \<times> 'e list \<times> turn_driver" where
  "await step look [] d = (look (td_shared d), [], d)"
| "await step look (e # es) d = (case look (td_shared d) of Some r \<Rightarrow> (Some r, e # es, d) | None \<Rightarrow> await step look es (step e d))"

definition look_completion :: "nat \<Rightarrow> u64 \<Rightarrow> driver_shared \<Rightarrow> wait_result option" where
  "look_completion mth baseline sh = (case check_completion mth baseline (sh_snapshot sh) of WaitMore \<Rightarrow> None | r \<Rightarrow> Some r)"

definition look_ready :: "driver_shared \<Rightarrow> (fail_reason + socket_addr) option" where
  "look_ready sh = (case sn_terminal (sh_snapshot sh) of Some r \<Rightarrow> Some (Inl r)
     | None \<Rightarrow> if sn_state (sh_snapshot sh) = state_code StReady then map_option Inr (sn_relay (sh_snapshot sh)) else None)"

definition look_channel :: "driver_shared \<Rightarrow> (fail_reason + unit) option" where
  "look_channel sh = (case sn_terminal (sh_snapshot sh) of Some r \<Rightarrow> Some (Inl r)
     | None \<Rightarrow> if sn_channel (sh_snapshot sh) \<noteq> None then Some (Inr ()) else None)"

definition completion_sequence :: "nat \<Rightarrow> turn_driver \<Rightarrow> u64" where
  "completion_sequence mth d = cp_sequence (completion_of mth (sh_snapshot (td_shared d)))"

section \<open>The allocation\<close>

text \<open>What it sends on: a connected UDP socket, or the queues of the stream's writer task, with the data messages the writer has taken from
  them and whether it is gone.\<close>

record stream_out =
  so_queue :: writer_queues
  so_taken :: "bytes list"
  so_gone :: bool

datatype outbound = OutUdp "unit udp_sender" | OutStream stream_out

record turn_allocation =
  ta_driver :: turn_driver
  ta_out :: outbound
  ta_server :: socket_addr
  ta_peer :: socket_addr
  ta_relay :: socket_addr
  ta_receiver :: bool
  ta_task :: bool
  ta_deallocated :: bool

datatype alloc_error = UsernameLong | PasswordLong | EndpointRefused endpoint_error | TransportsUnavailable string | CoreRefused | StartRefused
  | RequestUnanswered wait_result | AllocationTerminal fail_reason | AllocationTimeout | OperationRefused send_error

fun join_bars :: "string list \<Rightarrow> string" where
  "join_bars [] = []"
| "join_bars [t] = t"
| "join_bars (t # ts) = t @ '' | '' @ join_bars ts"

text \<open>Each endpoint in turn; the errors of all when none can be reached.\<close>

fun connect_endpoints :: "(string \<Rightarrow> string + socket_addr) \<Rightarrow> (turn_endpoint \<Rightarrow> socket_addr \<Rightarrow> string + outbound) \<Rightarrow> turn_endpoint list \<Rightarrow> string list
    \<Rightarrow> alloc_error + (outbound \<times> socket_addr \<times> wire_transport)" where
  "connect_endpoints resolve dial [] failures = Inl (TransportsUnavailable (join_bars failures))"
| "connect_endpoints resolve dial (e # es) failures =
    (case bind_result (resolve (socket_authority e)) (\<lambda>server. bind_result (dial e server) (\<lambda>out. Inr (out, server))) of
       Inr (out, server) \<Rightarrow> Inr (out, server, te_transport e)
     | Inl error \<Rightarrow> connect_endpoints resolve dial es (failures @ [wire_text (te_transport e) @ '': '' @ error]))"

definition connect_transport :: "(string \<Rightarrow> string + socket_addr) \<Rightarrow> (turn_endpoint \<Rightarrow> socket_addr \<Rightarrow> string + outbound) \<Rightarrow> turn_endpoint list
    \<Rightarrow> alloc_error + (outbound \<times> socket_addr \<times> wire_transport)" where
  "connect_transport resolve dial es = connect_endpoints resolve dial es []"

definition ensure_usable :: "turn_driver \<Rightarrow> alloc_error + unit" where
  "ensure_usable d = (case ensure_open (td_shared d) of Some e \<Rightarrow> Inl (OperationRefused e) | None \<Rightarrow> Inr ())"

text \<open>\<open>wait_for_completion\<close> within its time limit.\<close>

definition wait_for_completion :: "('e \<Rightarrow> turn_driver \<Rightarrow> turn_driver) \<Rightarrow> nat \<Rightarrow> u64 \<Rightarrow> 'e list \<Rightarrow> turn_driver \<Rightarrow> (alloc_error + unit) \<times> 'e list \<times> turn_driver" where
  "wait_for_completion step mth baseline es d = (case await step (look_completion mth baseline) es d of
     (None, es1, d1) \<Rightarrow> (Inl AllocationTimeout, es1, d1)
   | (Some WaitOk, es1, d1) \<Rightarrow> (Inr (), es1, d1)
   | (Some r, es1, d1) \<Rightarrow> (Inl (RequestUnanswered r), es1, d1))"

text \<open>The request and then the state share one limit; the last argument tells that the timer of the request runs out just before
  that of the whole.\<close>

definition wait_for_allocation :: "('e \<Rightarrow> turn_driver \<Rightarrow> turn_driver) \<Rightarrow> u64 \<Rightarrow> 'e list \<Rightarrow> bool \<Rightarrow> turn_driver \<Rightarrow> (alloc_error + socket_addr) \<times> turn_driver" where
  "wait_for_allocation step baseline es inner d = (case wait_for_completion step METHOD_ALLOCATE baseline es d of
     (Inl AllocationTimeout, es1, d1) \<Rightarrow> (Inl AllocationTimeout,
        if inner then d1 else d1\<lparr>td_shared := driver_fail (DriverFailed ''TURN Allocate exceeded the hard safety deadline'') (td_shared d1)\<rparr>)
   | (Inl e, es1, d1) \<Rightarrow> (Inl e, d1)
   | (Inr u, es1, d1) \<Rightarrow> (case await step look_ready es1 d1 of
       (None, es2, d2) \<Rightarrow> (Inl AllocationTimeout,
          d2\<lparr>td_shared := driver_fail (DriverFailed ''TURN Allocate exceeded the hard safety deadline'') (td_shared d2)\<rparr>)
     | (Some (Inl r), es2, d2) \<Rightarrow> (Inl (AllocationTerminal r), d2)
     | (Some (Inr relay), es2, d2) \<Rightarrow> (Inr relay, d2)))"

text \<open>Dropping the allocation leaves a driver that cleans up.\<close>

definition drop_allocation :: "crypto \<Rightarrow> (operation \<Rightarrow> bytes) \<Rightarrow> nat \<Rightarrow> turn_driver \<Rightarrow> turn_driver" where
  "drop_allocation cr tx now d = d\<lparr>td_shared := request_cleanup (td_shared d), td_core := snd (graceful_shutdown cr tx now (td_core d))\<rparr>"

record connect_env =
  cn_resolve :: "string \<Rightarrow> string + socket_addr"
  cn_dial :: "turn_endpoint \<Rightarrow> socket_addr \<Rightarrow> string + outbound"
  cn_clock :: "nat \<Rightarrow> nat"
  cn_tx :: "nat \<Rightarrow> operation \<Rightarrow> bytes"
  cn_epoch :: nat
  cn_rounds :: "relay_round list"
  cn_inner :: bool

text \<open>\<open>connect\<close>, with the driver that an error leaves behind, if it was started.\<close>

definition connect_allocation :: "crypto \<Rightarrow> connect_env \<Rightarrow> string \<Rightarrow> string option \<Rightarrow> string option \<Rightarrow> transport_mode \<Rightarrow> bytes \<Rightarrow> bytes \<Rightarrow> socket_addr
    \<Rightarrow> (alloc_error + turn_allocation) \<times> turn_driver option" where
  "connect_allocation cr env address override_host override_port mode username password peer =
    (if 512 < length username then (Inl UsernameLong, None)
     else if 512 < length password then (Inl PasswordLong, None)
     else case resolve_turn_endpoints address override_host override_port mode of Inl e \<Rightarrow> (Inl (EndpointRefused e), None)
     | Inr endpoints \<Rightarrow> (case connect_transport (cn_resolve env) (cn_dial env) endpoints of Inl e \<Rightarrow> (Inl e, None)
     | Inr (out, server, transport) \<Rightarrow>
       (case create_core server username password peer PJNATH_COMPAT (if transport = WireUdp then Datagram else StreamTransport) of
          None \<Rightarrow> (Inl CoreRefused, None)
        | Some core \<Rightarrow>
          (let d = new_driver (cn_clock env 0) (cn_epoch env) core; baseline = completion_sequence METHOD_ALLOCATE d;
               gone = drop_allocation cr (cn_tx env 1) (cn_clock env 2) in
           case start_allocation cr (cn_tx env 0) (cn_clock env 1) (td_core d) of
             (False, c) \<Rightarrow> (Inl StartRefused, Some (gone (d\<lparr>td_core := c, td_shared := driver_fail (DriverFailed ''TURN core'') (td_shared d)\<rparr>)))
           | (True, c) \<Rightarrow>
             (case wait_for_allocation (relay_step cr server peer) baseline (cn_rounds env) (cn_inner env) (d\<lparr>td_core := c\<rparr>) of
                (Inl e, d1) \<Rightarrow> (Inl e, Some (gone d1))
              | (Inr relay, d1) \<Rightarrow> (Inr \<lparr>ta_driver = d1, ta_out = out, ta_server = server, ta_peer = peer, ta_relay = relay,
                   ta_receiver = True, ta_task = True, ta_deallocated = False\<rparr>, None))))))"

definition take_receiver :: "turn_allocation \<Rightarrow> unit option \<times> turn_allocation" where
  "take_receiver a = (if ta_receiver a then Some () else None, a\<lparr>ta_receiver := False\<rparr>)"

section \<open>Binding the channel\<close>

definition fail_start :: "turn_driver \<Rightarrow> turn_driver" where
  "fail_start d = d\<lparr>td_shared := driver_fail (DriverFailed ''TURN core'') (td_shared d)\<rparr>"

text \<open>The permission and the channel are requested together; the two waits have separate limits.\<close>

definition bind_channel :: "crypto \<Rightarrow> ('e \<Rightarrow> turn_driver \<Rightarrow> turn_driver) \<Rightarrow> (nat \<Rightarrow> operation \<Rightarrow> bytes) \<Rightarrow> (nat \<Rightarrow> nat) \<Rightarrow> 'e list \<Rightarrow> 'e list \<Rightarrow> turn_driver
    \<Rightarrow> (alloc_error + unit) \<times> turn_driver" where
  "bind_channel cr step tx clock es fs d = (let baseline = completion_sequence METHOD_CHANNEL_BIND d in
     case start_permission cr (tx 0) (clock 0) (td_core d) of
       (False, c) \<Rightarrow> (Inl StartRefused, fail_start (d\<lparr>td_core := c\<rparr>))
     | (True, c) \<Rightarrow> (case start_channel cr (tx 1) (clock 1) c of
         (False, c1) \<Rightarrow> (Inl StartRefused, fail_start (d\<lparr>td_core := c1\<rparr>))
       | (True, c1) \<Rightarrow> (case wait_for_completion step METHOD_CHANNEL_BIND baseline es (d\<lparr>td_core := c1\<rparr>) of
           (Inl e, es1, d1) \<Rightarrow> (Inl e, d1)
         | (Inr u, es1, d1) \<Rightarrow> (case await step look_channel fs d1 of
             (None, fs1, d2) \<Rightarrow> (Inl AllocationTimeout, d2)
           | (Some (Inl r), fs1, d2) \<Rightarrow> (Inl (AllocationTerminal r), d2)
           | (Some (Inr u), fs1, d2) \<Rightarrow> (Inr (), d2)))))"

definition prepare_channel :: "crypto \<Rightarrow> (nat \<Rightarrow> operation \<Rightarrow> bytes) \<Rightarrow> (nat \<Rightarrow> nat) \<Rightarrow> relay_round list \<Rightarrow> relay_round list \<Rightarrow> turn_allocation
    \<Rightarrow> (alloc_error + unit) \<times> turn_allocation" where
  "prepare_channel cr tx clock es fs a = (case ensure_usable (ta_driver a) of Inl e \<Rightarrow> (Inl e, a)
   | Inr u \<Rightarrow> if sh_channel (td_shared (ta_driver a)) \<noteq> 0 then (Inr (), a)
     else case bind_channel cr (relay_step cr (ta_server a) (ta_peer a)) tx clock es fs (ta_driver a) of (r, d) \<Rightarrow> (r, a\<lparr>ta_driver := d\<rparr>))"

section \<open>Sending\<close>

datatype send_result = SentAll | SendRefused send_error | SendIo io_error | WriterGone | SendPending

text \<open>\<open>send\<close> of a connected socket waits while it is not writable; what it sent of a datagram is on the wire.\<close>

fun udp_send :: "bytes \<Rightarrow> sys_send list \<Rightarrow> unit udp_sender \<Rightarrow> send_result \<times> unit udp_sender" where
  "udp_send wire [] s = (SendPending, s\<lparr>us_calls := []\<rparr>)"
| "udp_send wire (SendCount n # calls) s = (SentAll, put_wire () [take n wire] (s\<lparr>us_calls := calls\<rparr>))"
| "udp_send wire (SendErrno e # calls) s = (if e = EAGAIN then udp_send wire calls s else (SendIo (of_errno e), s\<lparr>us_calls := calls\<rparr>))"

text \<open>A duplicate is tried once and its result ignored.\<close>

definition udp_try_duplicate :: "bytes \<Rightarrow> unit udp_sender \<Rightarrow> unit udp_sender" where
  "udp_try_duplicate wire s = (case us_calls s of [] \<Rightarrow> s
     | SendCount n # calls \<Rightarrow> put_wire () [take n wire] (s\<lparr>us_calls := calls\<rparr>)
     | SendErrno e # calls \<Rightarrow> s\<lparr>us_calls := calls\<rparr>)"

text \<open>The writer task takes messages while a sender waits: how many, before each look at the queue.\<close>

definition writer_takes :: "nat \<Rightarrow> stream_out \<Rightarrow> stream_out" where
  "writer_takes n s = (let q = so_queue s in
     s\<lparr>so_taken := so_taken s @ take n (wq_data q), so_queue := q\<lparr>wq_data := drop n (wq_data q)\<rparr>\<rparr>)"

fun stream_write :: "nat list \<Rightarrow> bytes \<Rightarrow> stream_out \<Rightarrow> send_result \<times> stream_out" where
  "stream_write [] wire s = (case write_data (so_gone s) wire (so_queue s) of
     Inl u \<Rightarrow> (WriterGone, s) | Inr None \<Rightarrow> (SendPending, s) | Inr (Some q) \<Rightarrow> (SentAll, s\<lparr>so_queue := q\<rparr>))"
| "stream_write (n # ns) wire s = (case write_data (so_gone s) wire (so_queue s) of
     Inl u \<Rightarrow> (WriterGone, s) | Inr None \<Rightarrow> stream_write ns wire (writer_takes n s) | Inr (Some q) \<Rightarrow> (SentAll, s\<lparr>so_queue := q\<rparr>))"

definition send_with_duplicate :: "nat list \<Rightarrow> packet_buf \<Rightarrow> bool \<Rightarrow> turn_allocation \<Rightarrow> send_result \<times> turn_allocation" where
  "send_with_duplicate ns b duplicate a = (case prepare_single b (td_shared (ta_driver a)) of Inl e \<Rightarrow> (SendRefused e, a)
   | Inr b1 \<Rightarrow> (case ta_out a of
       OutUdp s \<Rightarrow> (case udp_send (as_slice b1) (us_calls s) s of
         (SentAll, s1) \<Rightarrow> (SentAll, a\<lparr>ta_out := OutUdp (if duplicate then udp_try_duplicate (as_slice b1) s1 else s1)\<rparr>)
       | (r, s1) \<Rightarrow> (r, a\<lparr>ta_out := OutUdp s1\<rparr>))
     | OutStream s \<Rightarrow> (case stream_write ns (as_slice b1) s of (r, s1) \<Rightarrow> (r, a\<lparr>ta_out := OutStream s1\<rparr>))))"

text \<open>The chunks of a batch that one call may send.\<close>

function batch_chunks :: "nat \<Rightarrow> 'a list \<Rightarrow> 'a list list" where
  "batch_chunks k xs = (if xs = [] then [] else take (max 1 k) xs # batch_chunks k (drop (max 1 k) xs))"
  by pat_completeness auto
termination by (relation "measure (\<lambda>(k, xs). length xs)") auto

declare batch_chunks.simps [simp del]

fun send_chunks :: "bytes list list \<Rightarrow> unit udp_sender \<Rightarrow> send_result \<times> unit udp_sender" where
  "send_chunks [] s = (SentAll, s)"
| "send_chunks (ds # rest) s = (case send_batch () ds s of
     (SendDone, s1) \<Rightarrow> send_chunks rest s1 | (SendFailed e, s1) \<Rightarrow> (SendIo e, s1) | (SendWaiting, s1) \<Rightarrow> (SendPending, s1))"

fun stream_write_all :: "(nat \<Rightarrow> nat list) \<Rightarrow> bytes list \<Rightarrow> stream_out \<Rightarrow> send_result \<times> stream_out" where
  "stream_write_all ns [] s = (SentAll, s)"
| "stream_write_all ns (w # ws) s = (case stream_write (ns 0) w s of
     (SentAll, s1) \<Rightarrow> stream_write_all (ns \<circ> Suc) ws s1 | r \<Rightarrow> r)"

definition send_data_batch :: "(nat \<Rightarrow> nat list) \<Rightarrow> packet_buf list \<Rightarrow> turn_allocation \<Rightarrow> send_result \<times> turn_allocation" where
  "send_data_batch ns bs a = (if bs = [] then (SentAll, a) else case prepare_batch bs (td_shared (ta_driver a)) of Inl e \<Rightarrow> (SendRefused e, a)
   | Inr cs \<Rightarrow> (case ta_out a of
       OutUdp s \<Rightarrow> (case send_chunks (batch_chunks MAX_DATAGRAMS (map as_slice cs)) s of (r, s1) \<Rightarrow> (r, a\<lparr>ta_out := OutUdp s1\<rparr>))
     | OutStream s \<Rightarrow> (case stream_write_all ns (map as_slice cs) s of (r, s1) \<Rightarrow> (r, a\<lparr>ta_out := OutStream s1\<rparr>))))"

section \<open>Deallocating\<close>

text \<open>The driver's task is awaited for one second more than it may take; if it is still running (\<open>late\<close>), its core is destroyed and it is aborted.\<close>

definition deallocate :: "crypto \<Rightarrow> (operation \<Rightarrow> bytes) \<Rightarrow> nat \<Rightarrow> relay_round list \<Rightarrow> bool \<Rightarrow> turn_allocation \<Rightarrow> turn_allocation" where
  "deallocate cr tx now es late a = (if ta_deallocated a then a
     else let d = drop_allocation cr tx now (ta_driver a) in
       if \<not> ta_task a then a\<lparr>ta_deallocated := True, ta_driver := d\<rparr>
       else let d1 = fold (relay_step cr (ta_server a) (ta_peer a)) es d in
         a\<lparr>ta_deallocated := True, ta_task := False, ta_driver := (if late then d1\<lparr>td_core := force_destroy 0 (td_core d1)\<rparr> else d1)\<rparr>)"

section \<open>What the waits and sends do\<close>

text \<open>What has been handed to the network, in order: datagrams on the wire, or data messages in or through the writer's queue.\<close>

definition on_the_way :: "outbound \<Rightarrow> bytes list" where
  "on_the_way out = (case out of OutUdp s \<Rightarrow> map snd (us_wire s) | OutStream s \<Rightarrow> so_taken s @ wq_data (so_queue s))"

lemma await_looked: "await step look es d = (Some r, es', d') \<Longrightarrow> look (td_shared d') = Some r"
  by (induction es arbitrary: d) (auto split: option.splits)


lemma relay_step_keeps: "keeps (td_shared d) (td_shared (relay_step cr server peer e d))"
proof (cases e)
  case (UdpRound es i u)
  obtain r d1 where s: "udp_round cr server peer (i, u) (others cr server peer es d) = (r, d1)" by force
  show ?thesis using keeps_trans [OF others_keeps udp_loop.step_keeps [OF s]] by (simp add: UdpRound relay_step_def ended_core_def s)
next
  case (StreamRound es i v)
  obtain r d1 where s: "stream_round cr server peer (i, v) (others cr server peer es d) = (r, d1)" by force
  show ?thesis using keeps_trans [OF others_keeps stream_loop.step_keeps [OF s]] by (simp add: StreamRound relay_step_def ended_core_def s)
qed

lemma relay_steps_keep: "keeps (td_shared d) (td_shared (fold (relay_step cr server peer) es d))"
  by (induction es arbitrary: d) (auto simp: keeps_refl intro: keeps_trans [OF relay_step_keeps])


text \<open>A wait for the allocation that succeeds has seen a ready client and its relay address.\<close>

lemma allocation_ready:
  assumes "wait_for_allocation step baseline es inner d = (Inr relay, d')"
  shows "look_ready (td_shared d') = Some (Inr relay)"
  using assms by (auto simp: wait_for_allocation_def await_looked split: prod.splits sum.splits option.splits alloc_error.splits)



text \<open>A driver whose loop starts no round 35 s or more after the first.\<close>

definition winds_down :: "(driver_event list \<Rightarrow> turn_driver \<Rightarrow> turn_driver) \<Rightarrow> ('i \<Rightarrow> turn_driver \<Rightarrow> round_end \<times> turn_driver) \<Rightarrow> ('i \<Rightarrow> driver_input) \<Rightarrow> turn_driver \<Rightarrow> bool" where
  "winds_down other step input_of d \<longleftrightarrow> (\<forall>es x rest d'. drive other step ((es, x) # rest) d = (False, d')
     \<longrightarrow> (\<forall>(es', y)\<in>set rest. di_clock (input_of y) 2 < di_clock (input_of x) 1 + CLEANUP_TIMEOUT))"

lemma closing_winds_down:
  assumes "sh_closing (td_shared d)"
  shows "winds_down (others cr server peer) (udp_round cr server peer) fst d" "winds_down (others cr server peer) (stream_round cr server peer) fst d"
  using udp_loop.teardown [OF _ udp_loop.others_closing [OF assms]] stream_loop.teardown [OF _ stream_loop.others_closing [OF assms]]
  unfolding winds_down_def by blast+

section \<open>Properties\<close>

text \<open>C21: Connecting to a relay ends in one of two ways. Either the allocation is ready: the client has its relay address, which the
  allocation reports, no failure, and the receiver is still to be taken. Or there is an error, and then no driver was started, or the driver left behind is
  told to clean up and accepts no data; so its loop is torn down in time.\<close>

theorem connect_settles:
  assumes "connect_allocation cr env address host port mode username password peer = (r, left)"
  shows "case r of
      Inr a \<Rightarrow> left = None \<and> ta_receiver a \<and> ta_task a \<and> \<not> ta_deallocated a
        \<and> (let sn = sh_snapshot (td_shared (ta_driver a)) in sn_state sn = state_code StReady \<and> sn_relay sn = Some (ta_relay a) \<and> sn_terminal sn = None)
    | Inl e \<Rightarrow> (case left of None \<Rightarrow> True | Some d \<Rightarrow> sh_closing (td_shared d) \<and> sh_channel (td_shared d) = 0
        \<and> winds_down (others cr server peer) (udp_round cr server peer) fst d
        \<and> winds_down (others cr server peer) (stream_round cr server peer) fst d)"
proof -
  have gone: "sh_closing (td_shared (drop_allocation cr tx now d)) \<and> sh_channel (td_shared (drop_allocation cr tx now d)) = 0" for tx now d
    by (simp add: drop_allocation_def request_cleanup_def)
  show ?thesis
  proof (cases r)
    case (Inr a)
    then have "left = None" "ta_receiver a" "ta_task a" "\<not> ta_deallocated a" "look_ready (td_shared (ta_driver a)) = Some (Inr (ta_relay a))"
      using assms allocation_ready
      by (auto simp: connect_allocation_def Let_def split: if_splits sum.splits option.splits prod.splits bool.splits)
    then show ?thesis by (auto simp: Inr look_ready_def Let_def split: option.splits if_splits)
  next
    case (Inl e)
    then have "left = None \<or> (\<exists>tx now d. left = Some (drop_allocation cr tx now d))" using assms
      by (auto simp: connect_allocation_def Let_def split: if_splits sum.splits option.splits prod.splits bool.splits)
    then show ?thesis using gone closing_winds_down by (auto simp: Inl)
  qed
qed




section \<open>Data in order\<close>

lemma stream_write_way:
  "stream_write ns w s = (r, s') \<Longrightarrow> on_the_way (OutStream s') = on_the_way (OutStream s) @ (if r = SentAll then [w] else [])"
proof (induction ns arbitrary: s)
  case Nil
  then show ?case by (auto simp: on_the_way_def write_data_def split: if_splits)
next
  case (Cons n ns)
  have "on_the_way (OutStream (writer_takes n s)) = on_the_way (OutStream s)" by (simp add: on_the_way_def writer_takes_def Let_def)
  then show ?case using Cons.prems Cons.IH [of "writer_takes n s"] by (auto simp: on_the_way_def write_data_def split: if_splits)
qed

lemma stream_all_way:
  "stream_write_all ns ws s = (r, s') \<Longrightarrow> \<exists>j\<le>length ws. on_the_way (OutStream s') = on_the_way (OutStream s) @ take j ws \<and> (r = SentAll \<longrightarrow> j = length ws)"
proof (induction ws arbitrary: ns s)
  case (Cons w ws)
  obtain q s1 where q: "stream_write (ns 0) w s = (q, s1)" by force
  show ?case
  proof (cases "q = SentAll")
    case True
    then have "stream_write_all (ns \<circ> Suc) ws s1 = (r, s')" using Cons.prems q by simp
    from Cons.IH [OF this] obtain j where j: "j \<le> length ws" "on_the_way (OutStream s') = on_the_way (OutStream s1) @ take j ws" "r = SentAll \<longrightarrow> j = length ws" by blast
    then show ?thesis using stream_write_way [OF q] True by (intro exI [of _ "Suc j"]) simp
  next
    case False
    then have "r = q" "s' = s1" using Cons.prems q by (cases q; simp)+
    then show ?thesis using stream_write_way [OF q] False by (intro exI [of _ 0]) simp
  qed
qed simp

lemma concat_chunks: "concat (batch_chunks k xs) = xs"
proof (induction k xs rule: batch_chunks.induct)
  case (1 k xs)
  then show ?case by (cases "xs = []") (simp_all add: batch_chunks.simps [of k xs] batch_chunks.simps [of k "[]"])
qed

lemma chunks_way:
  "send_chunks dss s = (r, s') \<Longrightarrow> r = SendIo WriteZero
    \<or> (\<exists>j\<le>length (concat dss). us_wire s' = us_wire s @ map (Pair ()) (take j (concat dss)) \<and> (r = SentAll \<longrightarrow> j = length (concat dss)))"
proof (induction dss arbitrary: s)
  case (Cons ds dss)
  obtain q s1 where q: "send_batch () ds s = (q, s1)" by force
  consider (short) "q = SendFailed WriteZero" | (sent) "q = SendDone" | (stopped) "q \<noteq> SendDone" "q \<noteq> SendFailed WriteZero" by blast
  then show ?case
  proof cases
    case short
    then show ?thesis using Cons.prems q by simp
  next
    case sent
    have w: "us_wire s1 = us_wire s @ map (Pair ()) ds" using batch_sent_in_order [OF q] sent by auto
    have "send_chunks dss s1 = (r, s')" using Cons.prems q sent by simp
    from Cons.IH [OF this] show ?thesis
    proof (elim disjE exE conjE)
      fix j
      assume j: "j \<le> length (concat dss)" "us_wire s' = us_wire s1 @ map (Pair ()) (take j (concat dss))" "r = SentAll \<longrightarrow> j = length (concat dss)"
      then show ?thesis using w by (intro disjI2 exI [of _ "length ds + j"]) simp
    qed simp
  next
    case stopped
    then have r: "r \<noteq> SentAll" "s' = s1" using Cons.prems q by (cases q; auto)+
    obtain j where "j \<le> length ds" "us_wire s1 = us_wire s @ map (Pair ()) (take j ds)" using batch_sent_in_order [OF q] stopped by auto
    then show ?thesis using r by (intro disjI2 exI [of _ j]) simp
  qed
qed simp

lemma chunks_not_refused: "send_chunks dss s = (r, s') \<Longrightarrow> r \<noteq> SendRefused e"
  by (induction dss arbitrary: s) (auto split: prod.splits send_end.splits)

lemma stream_all_not_refused: "stream_write_all ns ws s = (r, s') \<Longrightarrow> r \<noteq> SendRefused e"
proof (induction ws arbitrary: ns s)
  case (Cons w ws)
  have "stream_write ks w s = (q, s1) \<Longrightarrow> q \<noteq> SendRefused e" for ks q s1
    by (induction ks arbitrary: s) (auto split: sum.splits option.splits)
  then show ?case using Cons by (auto split: prod.splits send_result.splits)
qed simp

lemma messages_of:
  "list_all2 (\<lambda>b c. as_slice c = channel_message ch (as_slice b)) bs cs \<Longrightarrow> map as_slice cs = map (\<lambda>b. channel_message ch (as_slice b)) bs"
  by (induction rule: list_all2_induct) simp_all

text \<open>C23: A batch of data packets goes on its way in order. On a UDP socket as on a stream, and however the kernel or the writer task takes
  them, a prefix of the packets leaves, each once, in order and as the ChannelData message of its payload on the bound channel; all of them when
  success is reported. A batch that is refused (closing, failed, no channel, a packet that does not fit) leaves nothing. The exception is
  a datagram that the kernel cut short, which is reported.\<close>

theorem data_batch_in_order:
  assumes "send_data_batch ns bs a = (r, a')" "\<forall>b\<in>set bs. packet_ok b"
  shows "r = SendIo WriteZero \<or> (\<exists>j\<le>length bs. (r = SentAll \<longrightarrow> j = length bs) \<and> ((\<exists>e. r = SendRefused e) \<longrightarrow> j = 0)
    \<and> on_the_way (ta_out a') = on_the_way (ta_out a) @ map (\<lambda>b. channel_message (sh_channel (td_shared (ta_driver a))) (as_slice b)) (take j bs))"
proof (cases "bs = [] \<or> (\<exists>e. prepare_batch bs (td_shared (ta_driver a)) = Inl e)")
  case True
  then have "a' = a" "bs \<noteq> [] \<longrightarrow> r \<noteq> SentAll" using assms(1) by (auto simp: send_data_batch_def split: if_splits)
  then show ?thesis by (intro disjI2 exI [of _ 0]) auto
next
  case False
  let ?ch = "sh_channel (td_shared (ta_driver a))"
  obtain cs where cs: "prepare_batch bs (td_shared (ta_driver a)) = Inr cs" using False by (cases "prepare_batch bs (td_shared (ta_driver a))") auto
  have ms: "map as_slice cs = map (\<lambda>b. channel_message ?ch (as_slice b)) bs"
    using batch_all_or_nothing [OF assms(2), of "td_shared (ta_driver a)"] False cs messages_of by auto
  then have len: "length cs = length bs" using length_map [of as_slice cs] by simp
  have "r = SendIo WriteZero \<or> (\<exists>j\<le>length cs. (r = SentAll \<longrightarrow> j = length cs) \<and> (\<forall>e. r \<noteq> SendRefused e)
    \<and> on_the_way (ta_out a') = on_the_way (ta_out a) @ take j (map as_slice cs))"
  proof (cases "ta_out a")
    case (OutUdp s)
    obtain s1 where s1: "send_chunks (batch_chunks MAX_DATAGRAMS (map as_slice cs)) s = (r, s1)" "ta_out a' = OutUdp s1"
      using assms(1) False cs OutUdp by (auto simp: send_data_batch_def split: prod.splits)
    have w: "us_wire s1 = us_wire s @ map (Pair ()) xs \<Longrightarrow> on_the_way (ta_out a') = on_the_way (ta_out a) @ xs" for xs
      by (simp add: on_the_way_def OutUdp s1(2) comp_def)
    show ?thesis using chunks_way [OF s1(1)] chunks_not_refused [OF s1(1)] w unfolding concat_chunks length_map by blast
  next
    case (OutStream s)
    obtain s1 where s1: "stream_write_all ns (map as_slice cs) s = (r, s1)" "ta_out a' = OutStream s1"
      using assms(1) False cs OutStream by (auto simp: send_data_batch_def split: prod.splits)
    show ?thesis using stream_all_way [OF s1(1)] stream_all_not_refused [OF s1(1)] unfolding OutStream s1(2) length_map by blast
  qed
  then show ?thesis unfolding ms len take_map by blast
qed

text \<open>A deallocated allocation is silent. After \<open>deallocate\<close>, whatever its driver does until it ends, no packet is sent, no channel is bound,
  and a second \<open>deallocate\<close> does nothing; a driver that did not end in time is destroyed.\<close>

theorem deallocated_is_silent:
  assumes "\<not> ta_deallocated a" "a1 = deallocate cr tx now es late a"
    and "a2 = a1\<lparr>ta_driver := fold (relay_step cr (ta_server a) (ta_peer a)) fs (ta_driver a1)\<rparr>"
  shows "send_with_duplicate ns b duplicate a2 = (SendRefused SendClosing, a2) \<and> send_data_batch ms (b # bs) a2 = (SendRefused SendClosing, a2)
    \<and> prepare_channel cr txs clock gs hs a2 = (Inl (OperationRefused SendClosing), a2) \<and> deallocate cr tx' now' es' late' a2 = a2
    \<and> (late \<and> ta_task a \<longrightarrow> c_destroyed (td_core (ta_driver a1)))"
proof -
  let ?d = "drop_allocation cr tx now (ta_driver a)"
  have "sh_closing (td_shared ?d)" by (simp add: drop_allocation_def request_cleanup_def)
  then have "sh_closing (td_shared (ta_driver a1))"
    using assms(1,2) relay_steps_keep [of ?d cr "ta_server a" "ta_peer a" es] by (auto simp: deallocate_def Let_def keeps_def persists_def)
  then have c: "sh_closing (td_shared (ta_driver a2))"
    using assms(3) relay_steps_keep [of "ta_driver a1" cr "ta_server a" "ta_peer a" fs] by (auto simp: keeps_def persists_def)
  have d: "ta_deallocated a2" using assms by (auto simp: deallocate_def Let_def)
  have "late \<and> ta_task a \<longrightarrow> c_destroyed (td_core (ta_driver a1))"
    using assms(1,2) by (auto simp: deallocate_def Let_def force_destroy_def push_event_def set_state_def)
  then show ?thesis using c d by (simp add: send_with_duplicate_def prepare_single_def send_data_batch_def prepare_batch_def ensure_open_def
      prepare_channel_def ensure_usable_def deallocate_def)
qed

section \<open>Witnesses\<close>

text \<open>A UDP relay that never answers, and an allocation with its channel bound on a socket that takes one datagram, then is full, then takes the rest.\<close>

definition silent_env :: connect_env where
  "silent_env = \<lparr>cn_resolve = (\<lambda>a. Inr sample_server), cn_dial = (\<lambda>e a. Inr (OutUdp \<lparr>us_calls = [], us_wire = [], us_mmsg = True\<rparr>)),
     cn_clock = (\<lambda>k. k), cn_tx = (\<lambda>k op. replicate 12 0), cn_epoch = 0, cn_rounds = [], cn_inner = False\<rparr>"

lemma connect_unanswered:
  assumes "length username \<le> 512" "length password \<le> 512" "resolve_turn_endpoints address host port mode = Inr es"
    "connect_transport (cn_resolve env) (cn_dial env) es = Inr (out, server, w)" "cn_rounds env = []"
    "create_core server username password peer PJNATH_COMPAT (if w = WireUdp then Datagram else StreamTransport) = Some c"
  shows "\<exists>e d. connect_allocation cr env address host port mode username password peer = (Inl e, Some d)"
proof -
  obtain b c1 where s: "start_allocation cr (cn_tx env 0) (cn_clock env 1) c = (b, c1)" by force
  have n: "td_core (new_driver t k c) = c" "td_shared (new_driver t k c) = new_shared" for t k by (simp_all add: new_driver_def)
  have l: "look_completion METHOD_ALLOCATE 0 new_shared = None" "completion_of METHOD_ALLOCATE (sh_snapshot new_shared) = blank_completion"
    by (simp_all add: look_completion_def check_completion_def completion_of_def new_shared_def blank_snapshot_def blank_completion_def)
  show ?thesis using assms by (cases b) (simp_all add: connect_allocation_def Let_def s n l completion_sequence_def blank_completion_def
      wait_for_allocation_def wait_for_completion_def del: One_nat_def)
qed

lemma connect_settles_witness:
  "\<exists>e d. connect_allocation constant_crypto silent_env ''turn:relay.example'' None None ModeUdp [1] [2] sample_server = (Inl e, Some d)
     \<and> sh_closing (td_shared d) \<and> winds_down (others constant_crypto sample_server sample_server) (udp_round constant_crypto sample_server sample_server) fst d"
proof -
  have e: "resolve_turn_endpoints ''turn:relay.example'' None None ModeUdp = Inr [\<lparr>te_host = ''relay.example'', te_port = 3478, te_transport = WireUdp\<rparr>]"
    by code_simp
  have t: "connect_transport (cn_resolve silent_env) (cn_dial silent_env) [\<lparr>te_host = ''relay.example'', te_port = 3478, te_transport = WireUdp\<rparr>]
      = Inr (OutUdp \<lparr>us_calls = [], us_wire = [], us_mmsg = True\<rparr>, sample_server, WireUdp)" by (simp add: connect_transport_def silent_env_def)
  have rounds: "cn_rounds silent_env = []" by (simp add: silent_env_def)
  obtain c where c: "create_core sample_server [1] [2] sample_server PJNATH_COMPAT (if WireUdp = WireUdp then Datagram else StreamTransport) = Some c"
    by (simp add: create_core_def sample_server_def)
  obtain err d where r: "connect_allocation constant_crypto silent_env ''turn:relay.example'' None None ModeUdp [1] [2] sample_server = (Inl err, Some d)"
    using connect_unanswered [OF _ _ e t _ c, of constant_crypto] by (auto simp: rounds)
  from connect_settles [OF r] r show ?thesis by auto
qed

definition bound_allocation :: turn_allocation where
  "bound_allocation = \<lparr>ta_driver = (new_driver 0 0 sample_core)\<lparr>td_shared := bound_shared\<rparr>,
     ta_out = OutUdp \<lparr>us_calls = [SendCount 1, SendErrno EAGAIN, SendCount 1], us_wire = [], us_mmsg = True\<rparr>,
     ta_server = sample_server, ta_peer = sample_server, ta_relay = sample_server, ta_receiver = True, ta_task = True, ta_deallocated = False\<rparr>"

lemma bound_shared_ok: "shared_inv bound_shared" "\<not> sh_closing bound_shared" "sh_channel bound_shared = 0x4000" "terminal bound_shared = None"
  by (simp_all add: shared_inv_def bound_shared_def new_shared_def blank_snapshot_def valid_channel_def terminal_def)

lemma sample_fits: "\<exists>k. channel_data_padding sample_data 0x4000 = Inr k"
  by (simp add: channel_data_padding_def sample_data_def write_at_def buf_of_def buf_len_def valid_channel_def Let_def usize_checked_add_def
      PACKET_HEADROOM_def PACKET_CAPACITY_def data_padding_def usize_max_def)


lemma data_batch_in_order_witness:
  "\<exists>a'. send_data_batch (\<lambda>_. []) [sample_data, sample_data] bound_allocation = (SentAll, a')
     \<and> on_the_way (ta_out a') = replicate 2 (channel_message 0x4000 (as_slice sample_data))"
proof -
  obtain c where c: "encode_channel_data 0x4000 sample_data = Inr c" using sample_fits encode_after_validation [OF sample_data_ok(1)] by blast
  obtain cs where cs: "prepare_batch [sample_data, sample_data] bound_shared = Inr cs"
    using sample_fits c bound_shared_ok by (auto simp: prepare_batch_def ensure_open_def)
  have "length cs = 2" using batch_all_or_nothing [of "[sample_data, sample_data]" bound_shared] sample_data_ok(1) cs by (auto dest: list_all2_lengthD)
  then obtain x y where xy: "map as_slice cs = [x, y]" by (cases cs; cases "tl cs") auto
  let ?s = "\<lparr>us_calls = [SendCount 1, SendErrno EAGAIN, SendCount 1], us_wire = [], us_mmsg = True\<rparr> :: unit udp_sender"
  have p: "td_shared (ta_driver bound_allocation) = bound_shared" "ta_out bound_allocation = OutUdp ?s" by (simp_all add: bound_allocation_def)
  have k: "batch_chunks MAX_DATAGRAMS [x, y] = [[x, y]]" by (simp add: MAX_DATAGRAMS_def batch_chunks.simps)
  have sd: "fst (send_batch () [x, y] ?s) = SendDone"
    by (simp add: send_batch_def validate_batch_len_def MAX_DATAGRAMS_def send_rest.simps try_send_batch_def platform_send_def try_send_mmsg_def
        mmsg_unavailable_def of_errno_def put_wire_def)
  then obtain s1 where sb: "send_batch () [x, y] ?s = (SendDone, s1)" by (cases "send_batch () [x, y] ?s") simp
  then have r: "send_data_batch (\<lambda>_. []) [sample_data, sample_data] bound_allocation = (SentAll, bound_allocation\<lparr>ta_out := OutUdp s1\<rparr>)"
    unfolding send_data_batch_def p cs sum.case outbound.case xy k by (simp add: sb)
  show ?thesis using data_batch_in_order [OF r] sample_data_ok(1) r
    by (intro exI [of _ "bound_allocation\<lparr>ta_out := OutUdp s1\<rparr>"])
       (simp add: p bound_shared_ok on_the_way_def numeral_2_eq_2 split: if_splits)
qed

lemma deallocated_is_silent_witness:
  "\<exists>a1. a1 = deallocate constant_crypto (\<lambda>_. []) 0 [] True bound_allocation \<and> send_with_duplicate [] sample_data True a1 = (SendRefused SendClosing, a1)
     \<and> c_destroyed (td_core (ta_driver a1))"
proof -
  let ?a = "deallocate constant_crypto (\<lambda>_. []) 0 [] True bound_allocation"
  have "\<not> ta_deallocated bound_allocation" "ta_task bound_allocation" by (simp_all add: bound_allocation_def)
  then show ?thesis using deallocated_is_silent [of bound_allocation ?a constant_crypto "\<lambda>_. []" 0 "[]" True ?a "[]" "[]" sample_data True] by simp
qed

end
