(* ===== verification/PacketChannel.thy ===== *)
theory PacketChannel
  imports Packet "HOL-Library.Sublist"
begin

text \<open>
  The packet queues of \<open>dispatcher.rs\<close> (\<open>PacketQueue\<close> with its \<open>PacketSender\<close> and \<open>PacketReceiver\<close>):
  a bounded FIFO shared by several senders and one receiver, with an epoch that invalidates
  everything queued before the receiver resumed, and the wake-up protocol between them.
\<close>

section \<open>State and operations\<close>

definition QUEUE_ACTIVE :: u64 where "QUEUE_ACTIVE = 1"

record 'p queued_packet =
  qp_packet :: 'p
  qp_epoch :: u64

text \<open>\<open>pq_wakes\<close> counts the calls of \<open>notify_one\<close>, \<open>pq_broadcasts\<close> those of \<open>notify_waiters\<close>.\<close>

record 'q packet_queue =
  pq_queue :: 'q
  pq_capacity :: nat
  pq_state :: u64
  pq_senders :: nat
  pq_open :: bool
  pq_wakes :: nat
  pq_broadcasts :: nat

type_synonym ('p, 'q) pq_ops = "('p queued_packet, 'q) queue_ops"

definition packet_channel :: "('p, 'q) pq_ops \<Rightarrow> nat \<Rightarrow> bool \<Rightarrow> 'q packet_queue" where
  "packet_channel ops capacity active =
    \<lparr>pq_queue = qo_new ops (max capacity 1), pq_capacity = max capacity 1,
     pq_state = (if active then QUEUE_ACTIVE else 0), pq_senders = 1, pq_open = True,
     pq_wakes = 0, pq_broadcasts = 0\<rparr>"

definition notify_one :: "'q packet_queue \<Rightarrow> 'q packet_queue" where
  "notify_one q = q\<lparr>pq_wakes := pq_wakes q + 1\<rparr>"

definition notify_all :: "'q packet_queue \<Rightarrow> 'q packet_queue" where
  "notify_all q = q\<lparr>pq_broadcasts := pq_broadcasts q + 1\<rparr>"

definition queue_active :: "u64 \<Rightarrow> bool" where
  "queue_active state \<longleftrightarrow> state AND QUEUE_ACTIVE \<noteq> 0"

definition state_epoch :: "u64 \<Rightarrow> u64" where
  "state_epoch state = drop_bit 1 state"

definition clone_sender :: "'q packet_queue \<Rightarrow> 'q packet_queue" where
  "clone_sender q = q\<lparr>pq_senders := pq_senders q + 1\<rparr>"

definition drop_sender :: "'q packet_queue \<Rightarrow> 'q packet_queue" where
  "drop_sender q = (let q1 = q\<lparr>pq_senders := pq_senders q - 1\<rparr> in if pq_senders q = 1 then notify_all q1 else q1)"

definition send_inner :: "('p, 'q) pq_ops \<Rightarrow> 'p \<Rightarrow> bool \<Rightarrow> 'q packet_queue \<Rightarrow> ('p + unit) \<times> 'q packet_queue" where
  "send_inner ops packet force q = (if \<not> pq_open q then (Inl packet, q)
     else let state = pq_state q in
       if \<not> queue_active state then (Inl packet, q)
       else let queued = \<lparr>qp_packet = packet, qp_epoch = state_epoch state\<rparr> in
         if force then (Inr (), notify_one (q\<lparr>pq_queue := snd (qo_force_push ops queued (pq_queue q))\<rparr>))
         else case qo_push ops queued (pq_queue q) of
             None \<Rightarrow> (Inl packet, q)
           | Some q' \<Rightarrow> if qo_len ops q' = 1 then (Inr (), notify_one (q\<lparr>pq_queue := q'\<rparr>))
               else (Inr (), q\<lparr>pq_queue := q'\<rparr>))"

definition try_send :: "('p, 'q) pq_ops \<Rightarrow> 'p \<Rightarrow> 'q packet_queue \<Rightarrow> ('p + unit) \<times> 'q packet_queue" where
  "try_send ops packet q = send_inner ops packet False q"

definition force_send :: "('p, 'q) pq_ops \<Rightarrow> 'p \<Rightarrow> 'q packet_queue \<Rightarrow> ('p + unit) \<times> 'q packet_queue" where
  "force_send ops packet q = send_inner ops packet True q"

text \<open>The loop \<open>while let Some(queued) = queue.pop()\<close>, run alone: it ends after as many rounds as elements
  are queued.\<close>

fun pop_all :: "('a, 'q) queue_ops \<Rightarrow> nat \<Rightarrow> 'q \<Rightarrow> 'a list \<times> 'q" where
  "pop_all ops 0 q = ([], q)"
| "pop_all ops (Suc n) q = (case qo_pop ops q of None \<Rightarrow> ([], q)
     | Some (x, q') \<Rightarrow> (let (xs, q'') = pop_all ops n q' in (x # xs, q'')))"

definition steal :: "('p, 'q) pq_ops \<Rightarrow> 'q packet_queue \<Rightarrow> 'p list \<times> 'q packet_queue" where
  "steal ops q = (let (xs, q') = pop_all ops (qo_len ops (pq_queue q)) (pq_queue q)
     in (map qp_packet xs, q\<lparr>pq_queue := q'\<rparr>))"

definition queued_len :: "('p, 'q) pq_ops \<Rightarrow> 'q packet_queue \<Rightarrow> nat" where
  "queued_len ops q = qo_len ops (pq_queue q)"

definition is_congested :: "('p, 'q) pq_ops \<Rightarrow> 'q packet_queue \<Rightarrow> bool" where
  "is_congested ops q \<longleftrightarrow> 0 < pq_capacity q \<and> pq_capacity q \<le> queued_len ops q * 2"

fun recv_loop :: "('p, 'q) pq_ops \<Rightarrow> u64 \<Rightarrow> nat \<Rightarrow> 'q \<Rightarrow> 'p option \<times> 'q" where
  "recv_loop ops state 0 q = (None, q)"
| "recv_loop ops state (Suc n) q = (case qo_pop ops q of None \<Rightarrow> (None, q)
     | Some (queued, q') \<Rightarrow>
         if queue_active state \<and> qp_epoch queued = state_epoch state then (Some (qp_packet queued), q')
         else recv_loop ops state n q')"

definition try_recv :: "('p, 'q) pq_ops \<Rightarrow> 'q packet_queue \<Rightarrow> 'p option \<times> 'q packet_queue" where
  "try_recv ops q = (let (r, q') = recv_loop ops (pq_state q) (qo_len ops (pq_queue q)) (pq_queue q)
     in (r, q\<lparr>pq_queue := q'\<rparr>))"

definition purge :: "('p, 'q) pq_ops \<Rightarrow> 'q packet_queue \<Rightarrow> 'q packet_queue" where
  "purge ops q = snd (steal ops q)"

definition resume_epoch :: "u64 \<Rightarrow> u64" where
  "resume_epoch state = (if state_epoch state = -1 then -1 else state_epoch state + 1)"

definition resume :: "('p, 'q) pq_ops \<Rightarrow> 'q packet_queue \<Rightarrow> 'q packet_queue" where
  "resume ops q = (let epoch = resume_epoch (pq_state q);
       q1 = purge ops (q\<lparr>pq_state := push_bit 1 epoch\<rparr>)
     in notify_all (q1\<lparr>pq_state := push_bit 1 epoch OR QUEUE_ACTIVE\<rparr>))"

definition is_closed :: "('p, 'q) pq_ops \<Rightarrow> 'q packet_queue \<Rightarrow> bool" where
  "is_closed ops q \<longleftrightarrow> pq_senders q = 0 \<and> qo_len ops (pq_queue q) = 0"

definition has_queued_packet :: "('p, 'q) pq_ops \<Rightarrow> 'q packet_queue \<Rightarrow> bool" where
  "has_queued_packet ops q \<longleftrightarrow> qo_len ops (pq_queue q) \<noteq> 0"

definition drop_receiver :: "'q packet_queue \<Rightarrow> 'q packet_queue" where
  "drop_receiver q = notify_all (q\<lparr>pq_open := False\<rparr>)"

text \<open>One round of \<open>recv\<close> with nothing happening in between: it returns, or waits for a wake-up.\<close>

datatype 'a recv_outcome = Returned "'a option" | Waits

definition recv_round :: "('p, 'q) pq_ops \<Rightarrow> bool \<Rightarrow> 'q packet_queue \<Rightarrow> 'p recv_outcome \<times> 'q packet_queue" where
  "recv_round ops cancelled q = (if cancelled then (Returned None, q)
     else case try_recv ops q of
       (Some p, q1) \<Rightarrow> (Returned (Some p), q1)
     | (None, q1) \<Rightarrow> if pq_senders q1 = 0 then (Returned None, q1)
         else (case try_recv ops q1 of
             (Some p, q2) \<Rightarrow> (Returned (Some p), q2)
           | (None, q2) \<Rightarrow> if pq_senders q2 = 0 then (Returned None, q2) else (Waits, q2)))"

section \<open>The wake-up protocol\<close>

text \<open>Senders and the receiver run in parallel. \<open>try_send\<close> pushes and then reads the length (\<open>queue.len() == 1\<close>) to decide on
  \<open>notify_one\<close>; \<open>force_send\<close> pushes, in place of the oldest element if the queue is full, and then notifies unconditionally; each is two
  steps. The receiver pops until the queue is empty, then waits for a permit. Packets are only counted; \<open>wk_pushed\<close> and
  \<open>wk_forced\<close> are the senders between the two steps of a \<open>try_send\<close> and of a \<open>force_send\<close>.\<close>

record wake_state =
  wk_len :: nat
  wk_permit :: bool
  wk_waiting :: bool
  wk_pushed :: "nat set"
  wk_forced :: "nat set"

definition wake_initial :: wake_state where
  "wake_initial = \<lparr>wk_len = 0, wk_permit = False, wk_waiting = True, wk_pushed = {}, wk_forced = {}\<rparr>"

definition idle_sender :: "nat \<Rightarrow> wake_state \<Rightarrow> bool" where
  "idle_sender i s \<longleftrightarrow> i \<notin> wk_pushed s \<and> i \<notin> wk_forced s"

inductive send_step :: "nat \<Rightarrow> nat set \<Rightarrow> wake_state \<Rightarrow> wake_state \<Rightarrow> bool" for cap senders where
  push: "i \<in> senders \<Longrightarrow> idle_sender i s \<Longrightarrow> wk_len s < cap
    \<Longrightarrow> send_step cap senders s (s\<lparr>wk_len := wk_len s + 1, wk_pushed := insert i (wk_pushed s)\<rparr>)"
| check: "i \<in> wk_pushed s
    \<Longrightarrow> send_step cap senders s (s\<lparr>wk_permit := wk_permit s \<or> wk_len s = 1, wk_pushed := wk_pushed s - {i}\<rparr>)"

inductive force_step :: "nat \<Rightarrow> nat set \<Rightarrow> wake_state \<Rightarrow> wake_state \<Rightarrow> bool" for cap senders where
  force_push: "i \<in> senders \<Longrightarrow> idle_sender i s
    \<Longrightarrow> force_step cap senders s (s\<lparr>wk_len := (if wk_len s < cap then wk_len s + 1 else wk_len s), wk_forced := insert i (wk_forced s)\<rparr>)"
| notify: "i \<in> wk_forced s \<Longrightarrow> force_step cap senders s (s\<lparr>wk_permit := True, wk_forced := wk_forced s - {i}\<rparr>)"

inductive wake_step :: "nat \<Rightarrow> nat set \<Rightarrow> wake_state \<Rightarrow> wake_state \<Rightarrow> bool" for cap senders where
  sender: "send_step cap senders s s' \<Longrightarrow> wake_step cap senders s s'"
| forcer: "force_step cap senders s s' \<Longrightarrow> wake_step cap senders s s'"
| pop: "\<not> wk_waiting s \<Longrightarrow> 0 < wk_len s \<Longrightarrow> wake_step cap senders s (s\<lparr>wk_len := wk_len s - 1\<rparr>)"
| sleep: "\<not> wk_waiting s \<Longrightarrow> wk_len s = 0 \<Longrightarrow> wake_step cap senders s (s\<lparr>wk_waiting := True\<rparr>)"
| awake: "wk_waiting s \<Longrightarrow> wk_permit s \<Longrightarrow> wake_step cap senders s (s\<lparr>wk_waiting := False, wk_permit := False\<rparr>)"

inductive_cases send_stepE: "send_step cap senders s s'"
inductive_cases force_stepE: "force_step cap senders s s'"
inductive_cases wake_stepE: "wake_step cap senders s s'"

section \<open>Queue contents\<close>

lemma queue_active_bit: "queue_active state \<longleftrightarrow> bit state 0"
  by (simp add: queue_active_def QUEUE_ACTIVE_def and_one_eq bit_0 odd_iff_mod_2_eq_one)

lemma state_bits:
  "queue_active (push_bit 1 e OR QUEUE_ACTIVE)" "\<not> queue_active (push_bit 1 e)"
  unfolding queue_active_bit QUEUE_ACTIVE_def
  by (simp_all only: bit_or_iff bit_push_bit_iff bit_1_iff) simp_all

lemma state_epoch_63: "\<not> bit (state_epoch s) 63"
  using bit_imp_le_length [of s 64] by (auto simp: state_epoch_def bit_drop_bit_eq)

lemma epoch_bits: "\<not> bit e 63 \<Longrightarrow> state_epoch (push_bit 1 e OR QUEUE_ACTIVE) = e"
proof -
  assume e: "\<not> bit e 63"
  show ?thesis
  proof (rule bit_word_eqI)
    fix n assume n: "n < LENGTH(64)"
    have "bit (state_epoch (push_bit 1 e OR QUEUE_ACTIVE)) n = (n + 1 < 64 \<and> bit e n)"
      unfolding state_epoch_def QUEUE_ACTIVE_def
      by (simp only: bit_drop_bit_eq bit_or_iff bit_push_bit_iff bit_1_iff comp_def) (use bit_imp_le_length [of e n] in auto)
    thus "bit (state_epoch (push_bit 1 e OR QUEUE_ACTIVE)) n = bit e n"
      using e n by (cases "n = 63") auto
  qed
qed

section \<open>Runs of a channel\<close>

text \<open>What can happen to a channel between two resumes. \<open>ChLate\<close> is the push of a sender that had read
  the state word before, plain or forced: the receiver may have resumed in between.\<close>

datatype 'p chan_event = ChSend 'p | ChForce 'p | ChLate bool u64 'p | ChRecv | ChSteal

definition late_push :: "('p, 'q) pq_ops \<Rightarrow> bool \<Rightarrow> u64 \<Rightarrow> 'p \<Rightarrow> 'q packet_queue \<Rightarrow> 'q packet_queue" where
  "late_push ops force state p q = (let queued = \<lparr>qp_packet = p, qp_epoch = state_epoch state\<rparr> in
     if force then notify_one (q\<lparr>pq_queue := snd (qo_force_push ops queued (pq_queue q))\<rparr>)
     else case qo_push ops queued (pq_queue q) of
         None \<Rightarrow> q
       | Some q' \<Rightarrow> if qo_len ops q' = 1 then notify_one (q\<lparr>pq_queue := q'\<rparr>) else q\<lparr>pq_queue := q'\<rparr>)"

fun chan_step :: "('p, 'q) pq_ops \<Rightarrow> 'p chan_event \<Rightarrow> 'q packet_queue \<Rightarrow> 'p list \<times> 'q packet_queue" where
  "chan_step ops (ChSend p) q = ([], snd (try_send ops p q))"
| "chan_step ops (ChForce p) q = ([], snd (force_send ops p q))"
| "chan_step ops (ChLate force state p) q = ([], late_push ops force state p q)"
| "chan_step ops ChRecv q = (case try_recv ops q of (None, q') \<Rightarrow> ([], q') | (Some p, q') \<Rightarrow> ([p], q'))"
| "chan_step ops ChSteal q = ([], snd (steal ops q))"

fun chan_run :: "('p, 'q) pq_ops \<Rightarrow> 'p chan_event list \<Rightarrow> 'q packet_queue \<Rightarrow> 'p list \<times> 'q packet_queue" where
  "chan_run ops [] q = ([], q)"
| "chan_run ops (e # es) q = (let (r, q1) = chan_step ops e q; (rs, q2) = chan_run ops es q1 in (r @ rs, q2))"

fun sent_by :: "'p chan_event \<Rightarrow> 'p list" where
  "sent_by (ChSend p) = [p]"
| "sent_by (ChForce p) = [p]"
| "sent_by e = []"

fun stale_late :: "u64 \<Rightarrow> 'p chan_event \<Rightarrow> bool" where
  "stale_late epoch (ChLate force state p) = (state_epoch state \<noteq> epoch)"
| "stale_late epoch e = True"

section \<open>The contract of a channel\<close>

definition live :: "u64 \<Rightarrow> 'p queued_packet list \<Rightarrow> 'p list" where
  "live state xs = map qp_packet (filter (\<lambda>x. queue_active state \<and> qp_epoch x = state_epoch state) xs)"

lemma live_simps [simp]:
  "live st [] = []"
  "live st (x # xs) = (if queue_active st \<and> qp_epoch x = state_epoch st then qp_packet x # live st xs else live st xs)"
  "live st (xs @ ys) = live st xs @ live st ys"
  by (simp_all add: live_def)

locale channel = array_queue ops items cap for ops :: "('p, 'q) pq_ops" and items cap
begin

text \<open>What the receiver can still get: the queued packets of the current epoch.\<close>

definition awaiting :: "'q packet_queue \<Rightarrow> 'p list" where
  "awaiting q = live (pq_state q) (items (pq_queue q))"

definition channel_ok :: "'q packet_queue \<Rightarrow> bool" where
  "channel_ok q \<longleftrightarrow> cap (pq_queue q) = pq_capacity q \<and> 0 < pq_capacity q \<and> length (items (pq_queue q)) \<le> pq_capacity q"

lemma pop_all_items: "length (items q) \<le> n \<Longrightarrow> pop_all ops n q = (xs, q') \<Longrightarrow> xs = items q \<and> items q' = [] \<and> cap q' = cap q"
proof (induction n arbitrary: q xs)
  case (Suc n)
  show ?case
  proof (cases "qo_pop ops q")
    case None
    hence "items q = []" by (simp only: pop_None)
    thus ?thesis using Suc.prems(2) None by simp
  next
    case (Some r)
    obtain x q1 where r: "r = (x, q1)" by (cases r)
    have i: "items q = x # items q1" "cap q1 = cap q" using pop_Some Some r by auto
    obtain ys where "pop_all ops n q1 = (ys, q')" "xs = x # ys"
      using Suc.prems(2) Some r by (auto split: prod.splits)
    thus ?thesis using Suc.IH [of q1 ys] Suc.prems(1) i by simp
  qed
qed simp

lemma steal_items:
  "fst (steal ops q) = map qp_packet (items (pq_queue q))" "items (pq_queue (snd (steal ops q))) = []"
  "cap (pq_queue (snd (steal ops q))) = cap (pq_queue q)"
  "pq_state (snd (steal ops q)) = pq_state q" "pq_capacity (snd (steal ops q)) = pq_capacity q"
  "pq_open (snd (steal ops q)) = pq_open q" "pq_senders (snd (steal ops q)) = pq_senders q"
proof -
  obtain xs q' where p: "pop_all ops (qo_len ops (pq_queue q)) (pq_queue q) = (xs, q')" by (cases "pop_all ops (qo_len ops (pq_queue q)) (pq_queue q)")
  note i = pop_all_items [OF _ p]
  show "fst (steal ops q) = map qp_packet (items (pq_queue q))" "items (pq_queue (snd (steal ops q))) = []"
    "cap (pq_queue (snd (steal ops q))) = cap (pq_queue q)"
    "pq_state (snd (steal ops q)) = pq_state q" "pq_capacity (snd (steal ops q)) = pq_capacity q"
    "pq_open (snd (steal ops q)) = pq_open q" "pq_senders (snd (steal ops q)) = pq_senders q"
    using i p by (simp_all add: steal_def)
qed

lemma resume_awaiting [simp]: "awaiting (resume ops q) = []"
  by (simp add: resume_def Let_def notify_all_def purge_def awaiting_def steal_items)

lemma resume_state:
  "state_epoch (pq_state q) + 1 < 2 ^ 63
   \<Longrightarrow> pq_state (resume ops q) = push_bit 1 (state_epoch (pq_state q) + 1) OR QUEUE_ACTIVE
     \<and> state_epoch (pq_state (resume ops q)) = state_epoch (pq_state q) + 1"
proof -
  assume a: "state_epoch (pq_state q) + 1 < 2 ^ 63"
  let ?e = "state_epoch (pq_state q)"
  have "?e \<noteq> -1" using state_epoch_63 [of "pq_state q"] by auto
  hence st: "pq_state (resume ops q) = push_bit 1 (?e + 1) OR QUEUE_ACTIVE"
    by (simp add: resume_def Let_def notify_all_def resume_epoch_def)
  have "unat (?e + 1) < 2 ^ 63" using a by (simp add: word_less_nat_alt)
  hence "take_bit 63 (unat (?e + 1)) = unat (?e + 1)" by (simp only: take_bit_nat_eq_self_iff)
  hence "\<not> bit (unat (?e + 1)) 63" by (metis bit_take_bit_iff less_irrefl)
  hence "\<not> bit (?e + 1) 63" by (simp add: bit_unsigned_iff)
  from epoch_bits [OF this] show ?thesis unfolding st by (rule conjI [OF refl])
qed

lemma recv_loop_items:
  "recv_loop ops st n q = (r, q') \<Longrightarrow> length (items q) \<le> n \<Longrightarrow>
   cap q' = cap q \<and> length (items q') \<le> length (items q) \<and>
   (case r of None \<Rightarrow> live st (items q) = [] \<and> items q' = [] | Some p \<Rightarrow> live st (items q) = p # live st (items q'))"
proof (induction n arbitrary: q)
  case 0
  thus ?case by simp
next
  case (Suc n)
  show ?case
  proof (cases "qo_pop ops q")
    case None
    hence "items q = []" by (simp only: pop_None)
    thus ?thesis using Suc.prems(1) None by auto
  next
    case (Some y)
    obtain x q1 where y: "y = (x, q1)" by (cases y)
    have i: "items q = x # items q1" "cap q1 = cap q" using pop_Some Some y by auto
    show ?thesis
    proof (cases "queue_active st \<and> qp_epoch x = state_epoch st")
      case True
      thus ?thesis using Suc.prems(1) Some y i by auto
    next
      case False
      hence "recv_loop ops st n q1 = (r, q')" using Suc.prems(1) Some y by auto
      from Suc.IH [OF this] show ?thesis using i False Suc.prems(2) by (auto split: option.splits)
    qed
  qed
qed

lemma try_recv_pending:
  assumes "try_recv ops q = (r, q')"
  shows "case r of None \<Rightarrow> awaiting q = [] \<and> awaiting q' = [] | Some p \<Rightarrow> awaiting q = p # awaiting q'"
    "pq_state q' = pq_state q" "channel_ok q \<Longrightarrow> channel_ok q'"
proof -
  obtain q1 where l: "recv_loop ops (pq_state q) (qo_len ops (pq_queue q)) (pq_queue q) = (r, q1)" "q' = q\<lparr>pq_queue := q1\<rparr>"
    using assms by (auto simp: try_recv_def split: prod.splits)
  note i = recv_loop_items [OF l(1)]
  show "case r of None \<Rightarrow> awaiting q = [] \<and> awaiting q' = [] | Some p \<Rightarrow> awaiting q = p # awaiting q'"
    using i l(2) by (simp add: awaiting_def split: option.splits)
  show "pq_state q' = pq_state q" using l(2) by simp
  show "channel_ok q \<Longrightarrow> channel_ok q'" using i l(2) by (simp add: channel_ok_def)
qed

text \<open>What a push leaves in the queue.\<close>

lemma send_cases:
  obtains (refused) "send_inner ops p f q = (Inl p, q)"
    "\<not> pq_open q \<or> \<not> queue_active (pq_state q) \<or> (\<not> f \<and> cap (pq_queue q) \<le> length (items (pq_queue q)))"
  | (stored) q' where "send_inner ops p f q = (Inr (), q')" "pq_open q" "queue_active (pq_state q)"
    "pq_state q' = pq_state q" "pq_capacity q' = pq_capacity q" "pq_open q' = pq_open q"
    "cap (pq_queue q') = cap (pq_queue q)"
    "items (pq_queue q') = (if length (items (pq_queue q)) < cap (pq_queue q) then items (pq_queue q) else tl (items (pq_queue q)))
       @ [\<lparr>qp_packet = p, qp_epoch = state_epoch (pq_state q)\<rparr>]"
    "f \<or> length (items (pq_queue q)) < cap (pq_queue q)"
proof (cases "pq_open q \<and> queue_active (pq_state q)")
  case False
  thus ?thesis using refused by (auto simp: send_inner_def Let_def)
next
  case True
  let ?x = "\<lparr>qp_packet = p, qp_epoch = state_epoch (pq_state q)\<rparr>"
  show ?thesis
  proof (cases f)
    case True
    show ?thesis
      by (rule stored [of "notify_one (q\<lparr>pq_queue := snd (qo_force_push ops ?x (pq_queue q))\<rparr>)"])
        (use True \<open>pq_open q \<and> queue_active (pq_state q)\<close> in \<open>auto simp: send_inner_def Let_def notify_one_def force_push_items\<close>)
  next
    case False
    show ?thesis
    proof (cases "qo_push ops ?x (pq_queue q)")
      case None
      thus ?thesis using refused push_None [of ?x "pq_queue q"] \<open>pq_open q \<and> queue_active (pq_state q)\<close> False
        by (auto simp: send_inner_def Let_def)
    next
      case (Some q1)
      note i = push_Some [OF Some]
      let ?q = "q\<lparr>pq_queue := q1\<rparr>"
      show ?thesis
        by (rule stored [of "if length (items q1) = 1 then notify_one ?q else ?q"])
          (use True \<open>pq_open q \<and> queue_active (pq_state q)\<close> False Some i in
            \<open>auto simp: send_inner_def Let_def notify_one_def\<close>)
    qed
  qed
qed

lemma send_channel:
  assumes "send_inner ops p f q = (r, q')"
  shows "pq_state q' = pq_state q" "subseq (awaiting q') (awaiting q @ [p])" "channel_ok q \<Longrightarrow> channel_ok q'"
proof -
  have "pq_state q' = pq_state q \<and> subseq (awaiting q') (awaiting q @ [p]) \<and> (channel_ok q \<longrightarrow> channel_ok q')"
  proof (cases rule: send_cases [of p f q])
    case refused
    thus ?thesis using assms by (auto intro: list_emb_append2)
  next
    case (stored q1)
    let ?xs = "items (pq_queue q)"
    have "subseq (live (pq_state q) (if length ?xs < cap (pq_queue q) then ?xs else tl ?xs)) (live (pq_state q) ?xs)"
      by (cases ?xs) (auto intro: list_emb_Cons)
    hence "subseq (awaiting q1) (awaiting q @ [p])" using stored by (simp add: awaiting_def list_emb_append_mono)
    moreover have "channel_ok q \<longrightarrow> channel_ok q1" using stored by (auto simp: channel_ok_def)
    ultimately show ?thesis using stored assms by auto
  qed
  thus "pq_state q' = pq_state q" "subseq (awaiting q') (awaiting q @ [p])" "channel_ok q \<Longrightarrow> channel_ok q'" by blast+
qed

lemma late_push_pending:
  assumes "state_epoch st \<noteq> state_epoch (pq_state q)"
  shows "subseq (awaiting (late_push ops f st p q)) (awaiting q)" "pq_state (late_push ops f st p q) = pq_state q"
proof -
  let ?x = "\<lparr>qp_packet = p, qp_epoch = state_epoch st\<rparr>" and ?xs = "items (pq_queue q)"
  have "items (pq_queue (late_push ops f st p q)) \<in> {?xs, ?xs @ [?x], tl ?xs @ [?x]}"
    using push_Some [of ?x "pq_queue q"]
    by (auto simp: late_push_def Let_def notify_one_def force_push_items split: option.split)
  moreover show s: "pq_state (late_push ops f st p q) = pq_state q"
    by (simp add: late_push_def Let_def notify_one_def split: option.split)
  moreover have "subseq (live (pq_state q) (tl ?xs)) (live (pq_state q) ?xs)" by (cases ?xs) (auto intro: list_emb_Cons)
  ultimately show "subseq (awaiting (late_push ops f st p q)) (awaiting q)" using assms by (auto simp: awaiting_def)
qed

lemma steal_awaiting [simp]: "awaiting (snd (steal ops q)) = []"
  by (simp add: awaiting_def steal_items)

lemma chan_step_pending:
  assumes "chan_step ops e q = (r, q')" "stale_late (state_epoch (pq_state q)) e"
  shows "pq_state q' = pq_state q" "subseq (r @ awaiting q') (awaiting q @ sent_by e)"
proof -
  have "pq_state q' = pq_state q \<and> subseq (r @ awaiting q') (awaiting q @ sent_by e)"
  proof (cases e)
    case (ChSend p)
    obtain x where "send_inner ops p False q = (x, q')" "r = []" using assms ChSend by (cases "try_send ops p q") (auto simp: try_send_def)
    thus ?thesis using send_channel ChSend by fastforce
  next
    case (ChForce p)
    obtain x where "send_inner ops p True q = (x, q')" "r = []" using assms ChForce by (cases "force_send ops p q") (auto simp: force_send_def)
    thus ?thesis using send_channel ChForce by fastforce
  next
    case (ChLate f st p)
    thus ?thesis using late_push_pending [of st q f p] assms by auto
  next
    case ChRecv
    obtain x where x: "try_recv ops q = (x, q')" using assms ChRecv by (auto split: prod.splits option.splits)
    thus ?thesis using try_recv_pending [OF x] assms ChRecv by (auto split: option.splits)
  next
    case ChSteal
    thus ?thesis using assms steal_items(4) [of q] by auto
  qed
  thus "pq_state q' = pq_state q" "subseq (r @ awaiting q') (awaiting q @ sent_by e)" by blast+
qed

lemma chan_run_subseq:
  "\<forall>e\<in>set es. stale_late (state_epoch (pq_state q)) e
   \<Longrightarrow> subseq (fst (chan_run ops es q)) (awaiting q @ concat (map sent_by es))"
proof (induction es arbitrary: q)
  case (Cons e es)
  obtain r q1 where s: "chan_step ops e q = (r, q1)" by (cases "chan_step ops e q")
  obtain rs q2 where rs: "chan_run ops es q1 = (rs, q2)" by (cases "chan_run ops es q1")
  note st = chan_step_pending [OF s]
  have "subseq rs (awaiting q1 @ concat (map sent_by es))" using Cons.IH [of q1] Cons.prems st(1) rs by auto
  hence "subseq (r @ rs) ((r @ awaiting q1) @ concat (map sent_by es))" by (simp add: list_emb_append_mono)
  also have "subseq ((r @ awaiting q1) @ concat (map sent_by es)) ((awaiting q @ sent_by e) @ concat (map sent_by es))"
    by (rule list_emb_append_mono) (use st(2) Cons.prems in auto)
  finally show ?case using s rs by simp
qed simp

end

interpretation lch: channel list_queue_ops lq_items lq_cap
  by unfold_locales (rule list_queue_laws)

section \<open>Wake-ups\<close>

definition one_sender_inv :: "nat \<Rightarrow> wake_state \<Rightarrow> bool" where
  "one_sender_inv i s \<longleftrightarrow> wk_pushed s \<subseteq> {i} \<and> wk_forced s \<subseteq> {i} \<and> wk_pushed s \<inter> wk_forced s = {} \<and>
     (wk_waiting s \<and> 0 < wk_len s \<longrightarrow> wk_permit s \<or> wk_pushed s = {i} \<and> wk_len s = 1 \<or> wk_forced s = {i})"

lemma one_sender_step: "wake_step cap {i} s s' \<Longrightarrow> one_sender_inv i s \<Longrightarrow> one_sender_inv i s'"
proof (induction rule: wake_step.induct)
  case (sender s s')
  from sender(1,2) show ?case by (induction rule: send_step.induct) (auto simp: one_sender_inv_def idle_sender_def)
next
  case (forcer s s')
  from forcer(1,2) show ?case by (induction rule: force_step.induct) (auto simp: one_sender_inv_def idle_sender_def)
qed (auto simp: one_sender_inv_def)

lemma one_sender_reachable:
  assumes "(wake_step cap {i})\<^sup>*\<^sup>* wake_initial s"
  shows "one_sender_inv i s"
  using assms
proof (induction rule: rtranclp_induct)
  case base
  show ?case by (simp add: one_sender_inv_def wake_initial_def)
qed (rule one_sender_step)

definition stuck :: "wake_state \<Rightarrow> bool" where
  "stuck s \<longleftrightarrow> wk_waiting s \<and> \<not> wk_permit s \<and> 2 \<le> wk_len s"

lemma stuck_step: "send_step cap S s s' \<Longrightarrow> stuck s \<Longrightarrow> stuck s'"
  by (auto simp: stuck_def elim!: send_stepE)

lemma stuck_run: "(send_step cap S)\<^sup>*\<^sup>* s s' \<Longrightarrow> stuck s \<Longrightarrow> stuck s'"
  by (induction rule: rtranclp_induct) (auto intro: stuck_step)

text \<open>With two senders a wake-up can be lost: both push before either reads the length, both then
  read 2 and neither notifies. The receiver waits on a queue that is not empty, and no later
  \<open>try_send\<close> of any sender wakes it, because each finds the length above 1; only a
  \<open>force_send\<close> does.\<close>

theorem two_senders_lose_wakeup:
  assumes "2 \<le> cap"
  shows "\<exists>s. (wake_step cap {1, 2})\<^sup>*\<^sup>* wake_initial s \<and> wk_waiting s \<and> wk_len s = 2 \<and> wk_pushed s = {}
     \<and> \<not> wk_permit s \<and> (\<forall>s'. (send_step cap {1, 2})\<^sup>*\<^sup>* s s' \<longrightarrow> wk_waiting s' \<and> \<not> wk_permit s')"
proof -
  let ?s = "\<lambda>n P. \<lparr>wk_len = n, wk_permit = False, wk_waiting = True, wk_pushed = P, wk_forced = {}\<rparr>"
  have 1: "wake_step cap {1, 2} (?s 0 {}) (?s 1 {1})"
    using send_step.push [of 1 "{1, 2}" "?s 0 {}" cap] assms by (auto simp: idle_sender_def intro: wake_step.sender)
  have 2: "wake_step cap {1, 2} (?s 1 {1}) (?s 2 {1, 2})"
    using send_step.push [of 2 "{1, 2}" "?s 1 {1}" cap] assms
    by (auto intro: wake_step.sender simp: insert_commute numeral_2_eq_2 idle_sender_def)
  have "{1, 2} - {1} = {2 :: nat}" by auto
  hence 3: "wake_step cap {1, 2} (?s 2 {1, 2}) (?s 2 {2})"
    using send_step.check [of 1 "?s 2 {1, 2}" cap "{1, 2}"] by (auto intro: wake_step.sender)
  have 4: "wake_step cap {1, 2} (?s 2 {2}) (?s 2 {})"
    using send_step.check [of 2 "?s 2 {2}" cap "{1, 2}"] by (auto intro: wake_step.sender)
  have "(wake_step cap {1, 2})\<^sup>*\<^sup>* (?s 0 {}) (?s 2 {})"
    using 1 2 3 4 by (meson rtranclp.rtrancl_into_rtrancl rtranclp.rtrancl_refl)
  moreover have "stuck (?s 2 {})" by (simp add: stuck_def)
  ultimately show ?thesis using stuck_run [of cap "{1, 2}" "?s 2 {}"]
    by (intro exI [of _ "?s 2 {}"]) (auto simp: wake_initial_def stuck_def)
qed

lemma two_senders_lose_wakeup_witness:
  "\<exists>s. (wake_step 256 {1, 2})\<^sup>*\<^sup>* wake_initial s \<and> wk_waiting s \<and> wk_len s = 2 \<and> \<not> wk_permit s"
  using two_senders_lose_wakeup [of 256] by auto

section \<open>Properties\<close>

text \<open>C27: resuming discards the past and keeps the order. After a resume, over any sends, forced sends, receives and steals, and
  including plain and forced pushes by senders that had read the state word before the resume, the packets the receiver gets form a
  subsequence of the packets sent since the resume: none from before, none twice, none out of order.\<close>

theorem resume_discards:
  assumes "queue_laws ops items cap" "state_epoch (pq_state q) + 1 < 2 ^ 63"
    "\<forall>e\<in>set es. stale_late (state_epoch (pq_state q) + 1) e"
  shows "subseq (fst (chan_run ops es (resume ops q))) (concat (map sent_by es))"
proof -
  have c: "channel ops items cap" using assms(1) by unfold_locales
  have "\<forall>e\<in>set es. stale_late (state_epoch (pq_state (resume ops q))) e"
    using channel.resume_state [OF c assms(2)] assms(3) by metis
  from channel.chan_run_subseq [OF c this] show ?thesis by (simp only: channel.resume_awaiting [OF c] append_Nil)
qed

lemma resume_discards_witness:
  "let q = packet_channel list_queue_ops 4 True;
       q1 = snd (try_send list_queue_ops (7 :: nat) q)
   in subseq (fst (chan_run list_queue_ops [ChLate True 1 8, ChLate False 1 6, ChSend 9, ChRecv, ChRecv] (resume list_queue_ops q1))) [9]
    \<and> fst (chan_run list_queue_ops [ChLate True 1 8, ChLate False 1 6, ChSend 9, ChRecv, ChRecv] (resume list_queue_ops q1)) = [9]"
proof -
  define q where "q = snd (try_send list_queue_ops (7 :: nat) (packet_channel list_queue_ops 4 True))"
  have st: "pq_state q = 1"
    using lch.send_channel(1) [of "7 :: nat" False "packet_channel list_queue_ops 4 True"]
    by (cases "send_inner list_queue_ops (7 :: nat) False (packet_channel list_queue_ops 4 True)")
      (auto simp: q_def try_send_def packet_channel_def QUEUE_ACTIVE_def)
  have e: "state_epoch 1 = 0" by (simp add: state_epoch_def)
  have "subseq (fst (chan_run list_queue_ops [ChLate True 1 8, ChLate False 1 6, ChSend 9, ChRecv, ChRecv] (resume list_queue_ops q))) [9]"
    using resume_discards [OF list_queue_laws, of q "[ChLate True 1 8, ChLate False 1 6, ChSend 9, ChRecv, ChRecv]"] by (simp add: st e)
  moreover have "fst (chan_run list_queue_ops [ChLate True 1 8, ChLate False 1 6, ChSend 9, ChRecv, ChRecv] (resume list_queue_ops q)) = [9]"
    unfolding q_def by code_simp
  ultimately show ?thesis by (simp only: Let_def q_def)
qed

text \<open>C28: with one sender no wake-up is lost. Whenever the receiver waits while packets are queued, a permit that wakes it
  is set, or the sender is between its push, plain or forced, and what follows it in \<open>send_inner\<close>: then that is its only possible
  next step, and it sets the permit.\<close>

theorem one_sender_wakes:
  assumes "(wake_step cap {i})\<^sup>*\<^sup>* wake_initial s" "wk_waiting s" "0 < wk_len s"
  shows "wk_permit s \<or> (\<not> idle_sender i s \<and> (\<exists>s'. send_step cap {i} s s' \<or> force_step cap {i} s s')
    \<and> (\<forall>s'. send_step cap {i} s s' \<or> force_step cap {i} s s' \<longrightarrow> wk_permit s'))"
proof -
  have "one_sender_inv i s" by (rule one_sender_reachable [OF assms(1)])
  then consider "wk_permit s" | "wk_pushed s = {i}" "wk_len s = 1" "wk_forced s = {}" | "wk_forced s = {i}" "wk_pushed s = {}"
    using assms(2,3) by (auto simp: one_sender_inv_def)
  thus ?thesis
  proof cases
    case 2
    have "\<exists>s'. send_step cap {i} s s' \<or> force_step cap {i} s s'"
      by (rule exI, rule disjI1, rule send_step.check [of i]) (simp add: 2)
    moreover have "wk_permit s'" if "send_step cap {i} s s' \<or> force_step cap {i} s s'" for s'
      using that 2 by (auto simp: idle_sender_def elim!: send_stepE force_stepE)
    ultimately show ?thesis using 2 by (simp add: idle_sender_def)
  next
    case 3
    have "\<exists>s'. send_step cap {i} s s' \<or> force_step cap {i} s s'"
      by (rule exI, rule disjI2, rule force_step.notify [of i]) (simp add: 3)
    moreover have "wk_permit s'" if "send_step cap {i} s s' \<or> force_step cap {i} s s'" for s'
      using that 3 by (auto simp: idle_sender_def elim!: send_stepE force_stepE)
    ultimately show ?thesis using 3 by (simp add: idle_sender_def)
  qed simp
qed

lemma one_sender_wakes_witness:
  "let s = \<lparr>wk_len = 1, wk_permit = False, wk_waiting = True, wk_pushed = {}, wk_forced = {5}\<rparr>
   in \<forall>s'. send_step 8 {5} s s' \<or> force_step 8 {5} s s' \<longrightarrow> wk_permit s'"
proof -
  let ?t = "\<lparr>wk_len = 1, wk_permit = False, wk_waiting = True, wk_pushed = {}, wk_forced = {5}\<rparr>"
  have "wake_step 8 {5} wake_initial ?t"
    using force_step.force_push [of 5 "{5}" wake_initial 8] by (auto simp: wake_initial_def idle_sender_def intro: wake_step.forcer)
  hence "(wake_step 8 {5})\<^sup>*\<^sup>* wake_initial ?t" by simp
  from one_sender_wakes [OF this] show ?thesis by (simp add: Let_def)
qed

end
