(* ===== verification/WorkerSet.thy ===== *)
theory WorkerSet
  imports Prelude "HOL-Library.List_Lexorder" "HOL-Library.Product_Lexorder" "HOL-Library.Char_ord"
begin

text \<open>
  The set of live workers of \<open>dispatcher.rs\<close>: their registration under an id and an incarnation, and
  the order in which the dispatcher walks them, which alternates between the TURN paths. The three
  queues and the health flag of a worker are shared objects; a worker holds their addresses.
\<close>

section \<open>Workers\<close>

record worker_channels =
  wc_id :: nat
  wc_incarnation :: nat
  wc_path :: string
  wc_latency :: nat
  wc_priority :: nat
  wc_bulk :: nat
  wc_healthy :: nat

text \<open>\<open>sort_unstable_by\<close> on path, then id. Ids are unique in the list, so the order is determined.\<close>

definition path_key :: "worker_channels \<Rightarrow> string \<times> nat" where
  "path_key w = (wc_path w, wc_id w)"

definition add_to_group :: "worker_channels \<Rightarrow> worker_channels list list \<Rightarrow> worker_channels list list" where
  "add_to_group w groups = (if groups \<noteq> [] \<and> last groups \<noteq> [] \<and> wc_path (hd (last groups)) = wc_path w
     then butlast groups @ [last groups @ [w]] else groups @ [[w]])"

definition group_paths :: "worker_channels list \<Rightarrow> worker_channels list list" where
  "group_paths ws = fold add_to_group ws []"

text \<open>The workers at one offset of every group; the loop stops at the first empty round.\<close>

definition round_at :: "nat \<Rightarrow> 'a list list \<Rightarrow> 'a list" where
  "round_at offset groups = [g ! offset. g \<leftarrow> groups, offset < length g]"

definition longest :: "'a list list \<Rightarrow> nat" where
  "longest groups = fold max (map length groups) 0"

lemma longest_ge: "g \<in> set groups \<Longrightarrow> length g \<le> longest groups"
proof -
  assume g: "g \<in> set groups"
  have f: "n \<le> fold max ns n" for n :: nat and ns 
  proof (induction ns arbitrary: n)
    case (Cons m ns)
    have "max m n \<le> fold max ns (max m n)" by (rule Cons)
    thus ?case by simp
  qed simp
  have "x \<in> set ns \<Longrightarrow> x \<le> fold max ns n" for x n :: nat and ns
  proof (induction ns arbitrary: n)
    case (Cons m ns)
    show ?case
    proof (cases "x = m")
      case True
      thus ?thesis using f [of "max m n" ns] by simp
    qed (use Cons in simp)
  qed simp
  thus ?thesis using g by (simp add: longest_def)
qed

lemma round_at_empty: "round_at k groups = [] \<longleftrightarrow> (\<forall>g\<in>set groups. length g \<le> k)"
  by (induction groups) (auto simp: round_at_def)

function interleave_from :: "nat \<Rightarrow> 'a list list \<Rightarrow> 'a list" where
  "interleave_from offset groups = (let r = round_at offset groups in
     if r = [] then [] else r @ interleave_from (Suc offset) groups)"
  by pat_completeness auto

termination interleave_from
proof (relation "measure (\<lambda>(offset, groups). longest groups - offset)")
  fix offset and groups :: "'a list list" and r
  assume "r = round_at offset groups" "r \<noteq> []"
  then obtain g where "g \<in> set groups" "offset < length g" by (auto simp: round_at_empty not_le)
  thus "((Suc offset, groups), offset, groups) \<in> measure (\<lambda>(offset, groups). longest groups - offset)"
    using longest_ge [of g groups] by simp
qed simp

declare interleave_from.simps [simp del]

definition interleave_turn_paths :: "worker_channels list \<Rightarrow> worker_channels list" where
  "interleave_turn_paths ws = interleave_from 0 (group_paths (sort_key path_key ws))"

definition register :: "worker_channels \<Rightarrow> worker_channels list \<Rightarrow> worker_channels list" where
  "register c ws = interleave_turn_paths (filter (\<lambda>w. wc_id w \<noteq> wc_id c) ws @ [c])"

definition unregister :: "nat \<Rightarrow> nat \<Rightarrow> worker_channels list \<Rightarrow> worker_channels list" where
  "unregister i incarnation ws =
    interleave_turn_paths (filter (\<lambda>w. wc_id w \<noteq> i \<or> wc_incarnation w \<noteq> incarnation) ws)"

section \<open>The walk is a permutation\<close>

lemma mset_round: "mset (concat (map (drop k) gs)) = mset (round_at k gs) + mset (concat (map (drop (Suc k)) gs))"
proof (induction gs)
  case (Cons g gs)
  show ?case
  proof (cases "k < length g")
    case True
    hence "drop k g = g ! k # drop (Suc k) g" by (simp add: Cons_nth_drop_Suc)
    thus ?thesis using Cons True by (simp add: round_at_def)
  next
    case False
    thus ?thesis using Cons by (simp add: round_at_def)
  qed
qed (simp add: round_at_def)

lemma mset_interleave: "mset (interleave_from k gs) = mset (concat (map (drop k) gs))"
proof (induction k gs rule: interleave_from.induct)
  case (1 k gs)
  show ?case
  proof (cases "round_at k gs = []")
    case True
    hence "\<forall>g\<in>set gs. drop k g = []" by (simp add: round_at_empty)
    hence "concat (map (drop k) gs) = []" by (induction gs) auto
    thus ?thesis using True by (simp add: interleave_from.simps [of k gs])
  next
    case False
    have "mset (interleave_from (Suc k) gs) = mset (concat (map (drop (Suc k)) gs))"
      by (rule 1) (use False in auto)
    thus ?thesis using False mset_round [of k gs] by (simp add: interleave_from.simps [of k gs])
  qed
qed

lemma concat_add_group: "mset (concat (add_to_group w gs)) = add_mset w (mset (concat gs))"
proof (cases "gs \<noteq> [] \<and> last gs \<noteq> [] \<and> wc_path (hd (last gs)) = wc_path w")
  case True
  hence "concat gs = concat (butlast gs) @ last gs" by (metis append_butlast_last_id concat.simps(1,2) concat_append append_Nil2)
  thus ?thesis using True by (simp add: add_to_group_def)
qed (auto simp: add_to_group_def)

lemma mset_groups: "mset (concat (fold add_to_group ws gs)) = mset ws + mset (concat gs)"
  by (induction ws arbitrary: gs) (simp_all add: concat_add_group)

lemma mset_walk: "mset (interleave_turn_paths ws) = mset ws"
proof -
  have "map (drop 0) gs = gs" for gs :: "'a list list" by (simp add: map_idI)
  thus ?thesis by (simp add: interleave_turn_paths_def mset_interleave group_paths_def mset_groups)
qed

lemma set_walk [simp]: "set (interleave_turn_paths ws) = set ws"
  by (metis mset_walk set_mset_mset)

lemma walk_ids: "distinct (map wc_id ws) \<Longrightarrow> distinct (map wc_id (interleave_turn_paths ws))"
proof -
  have "mset (map wc_id (interleave_turn_paths ws)) = mset (map wc_id ws)" by (simp add: mset_walk)
  thus "distinct (map wc_id ws) \<Longrightarrow> ?thesis" by (metis mset_eq_imp_distinct_iff)
qed

lemma register_ids [inv_intros]: "distinct (map wc_id ws) \<Longrightarrow> distinct (map wc_id (register c ws))"
  unfolding register_def by (rule walk_ids) (auto simp: distinct_map_filter)

lemma unregister_ids [inv_intros]: "distinct (map wc_id ws) \<Longrightarrow> distinct (map wc_id (unregister i k ws))"
  unfolding unregister_def by (rule walk_ids) (simp add: distinct_map_filter)

section \<open>The walk alternates between the paths\<close>

text \<open>Every group holds the workers of one path, and the groups have different paths.\<close>

definition grouped :: "worker_channels list list \<Rightarrow> bool" where
  "grouped gs \<longleftrightarrow> (\<forall>g\<in>set gs. g \<noteq> [] \<and> (\<forall>w\<in>set g. wc_path w = wc_path (hd g))) \<and> distinct (map (\<lambda>g. wc_path (hd g)) gs)"

lemma grouped_snoc:
  "grouped (gs @ [g]) \<longleftrightarrow> grouped gs \<and> g \<noteq> [] \<and> (\<forall>w\<in>set g. wc_path w = wc_path (hd g))
     \<and> wc_path (hd g) \<notin> (\<lambda>g. wc_path (hd g)) ` set gs"
  unfolding grouped_def set_append map_append distinct_append by (simp add: ball_Un) blast

lemma add_group_grouped:
  assumes "grouped gs" "\<forall>g\<in>set gs. wc_path (hd g) \<le> wc_path w"
    "\<forall>g\<in>set gs. wc_path (hd g) \<le> wc_path (hd (last gs))"
  shows "grouped (add_to_group w gs) \<and> wc_path (hd (last (add_to_group w gs))) = wc_path w
    \<and> (\<forall>g\<in>set (add_to_group w gs). wc_path (hd g) \<le> wc_path w)"
proof (cases "gs \<noteq> [] \<and> last gs \<noteq> [] \<and> wc_path (hd (last gs)) = wc_path w")
  case True
  define hs g where "hs = butlast gs" and "g = last gs"
  have gs: "gs = hs @ [g]" using True by (simp add: hs_def g_def)
  have g: "g \<noteq> []" "wc_path (hd g) = wc_path w" using True by (simp_all add: g_def)
  have a: "add_to_group w gs = hs @ [g @ [w]]" using True by (simp add: add_to_group_def hs_def g_def)
  have "grouped (hs @ [g @ [w]])" using assms(1) g unfolding gs grouped_snoc by (simp add: ball_Un)
  moreover have "\<forall>v\<in>set hs. wc_path (hd v) \<le> wc_path w" using assms(2) by (simp add: gs)
  ultimately show ?thesis using g unfolding a by simp
next
  case False
  hence a: "add_to_group w gs = gs @ [[w]]" by (simp only: add_to_group_def if_False)
  have ne: "wc_path (hd g) \<noteq> wc_path w" if g: "g \<in> set gs" for g
  proof
    assume e: "wc_path (hd g) = wc_path w"
    have l: "last gs \<in> set gs" using g by (metis empty_iff empty_set last_in_set)
    have "wc_path (hd (last gs)) = wc_path w" using e assms(2,3) g l by (metis order_antisym)
    moreover have "last gs \<noteq> []" using l assms(1) by (simp add: grouped_def)
    moreover have "gs \<noteq> []" using g by auto
    ultimately show False using False by blast
  qed
  have "wc_path w \<notin> (\<lambda>g. wc_path (hd g)) ` set gs"
  proof
    assume "wc_path w \<in> (\<lambda>g. wc_path (hd g)) ` set gs"
    then obtain g where "g \<in> set gs" "wc_path w = wc_path (hd g)" by (rule imageE)
    thus False using ne [of g] by simp
  qed
  hence "grouped (gs @ [[w]])" using assms(1) unfolding grouped_snoc by simp
  thus ?thesis using assms(2) unfolding a by simp
qed

lemma fold_grouped:
  assumes "sorted (map wc_path ws)" "grouped gs" "\<forall>g\<in>set gs. \<forall>w\<in>set ws. wc_path (hd g) \<le> wc_path w"
    "\<forall>g\<in>set gs. wc_path (hd g) \<le> wc_path (hd (last gs))"
  shows "grouped (fold add_to_group ws gs)"
  using assms
proof (induction ws arbitrary: gs)
  case (Cons w ws)
  have "\<forall>g\<in>set gs. wc_path (hd g) \<le> wc_path w" using Cons.prems(3) by simp
  note a = add_group_grouped [OF Cons.prems(2) this Cons.prems(4), THEN conjunct1]
    add_group_grouped [OF Cons.prems(2) this Cons.prems(4), THEN conjunct2, THEN conjunct1]
    add_group_grouped [OF Cons.prems(2) this Cons.prems(4), THEN conjunct2, THEN conjunct2]
  have "grouped (fold add_to_group ws (add_to_group w gs))"
  proof (rule Cons.IH)
    show "sorted (map wc_path ws)" using Cons.prems(1) by simp
    show "grouped (add_to_group w gs)" by (rule a(1))
    show "\<forall>g\<in>set (add_to_group w gs). \<forall>v\<in>set ws. wc_path (hd g) \<le> wc_path v"
      using a(3) Cons.prems(1) by (force intro: order_trans)
    show "\<forall>g\<in>set (add_to_group w gs). wc_path (hd g) \<le> wc_path (hd (last (add_to_group w gs)))" using a(2,3) by simp
  qed
  thus ?case by simp
qed simp

lemma groups_grouped: "grouped (group_paths (sort_key path_key ws))"
proof -
  have "sorted (map path_key (sort_key path_key ws))" by simp
  hence "sorted (map wc_path (sort_key path_key ws))"
    unfolding sorted_map by (rule sorted_wrt_mono_rel [rotated]) (auto simp: path_key_def less_eq_prod_def)
  thus ?thesis unfolding group_paths_def by (rule fold_grouped) (auto simp: grouped_def)
qed

lemma group_paths_set: "(\<Union>g\<in>set (group_paths (sort_key path_key ws)). set g) = set ws"
proof -
  have "set_mset (mset (concat (group_paths (sort_key path_key ws)))) = set ws"
    by (simp add: group_paths_def mset_groups)
  thus ?thesis by simp
qed

lemma grouped_one:
  assumes "grouped gs" "g \<in> set gs"
  shows "wc_path ` set g = {wc_path (hd g)}"
proof -
  have n: "g \<noteq> []" and al: "\<forall>w\<in>set g. wc_path w = wc_path (hd g)" using assms unfolding grouped_def by blast+
  have "wc_path ` set g = (\<lambda>_. wc_path (hd g)) ` set g" by (rule image_cong [OF refl]) (use al in blast)
  also have "\<dots> = {wc_path (hd g)}" using n by (simp only: image_constant_conv set_empty if_False)
  finally show ?thesis .
qed

lemma grouped_paths:
  assumes "grouped gs"
  shows "wc_path ` (\<Union>g\<in>set gs. set g) = set (map (\<lambda>g. wc_path (hd g)) gs)"
proof -
  have "wc_path ` (\<Union>g\<in>set gs. set g) = (\<Union>g\<in>set gs. wc_path ` set g)" by (rule image_UN)
  also have "\<dots> = (\<Union>g\<in>set gs. {wc_path (hd g)})" using grouped_one [OF assms] by (rule SUP_cong [OF refl])
  finally show ?thesis by (simp only: UNION_singleton_eq_range set_map)
qed

lemma take_walk: "grouped gs \<Longrightarrow> take (length gs) (interleave_from 0 gs) = map hd gs"
proof -
  assume g: "grouped gs"
  have "\<forall>g\<in>set gs. g \<noteq> []" using g by (simp add: grouped_def)
  hence r: "round_at 0 gs = map hd gs" by (induction gs) (auto simp: hd_conv_nth round_at_def)
  show ?thesis
  proof (cases "gs = []")
    case False
    thus ?thesis using r by (subst interleave_from.simps) (simp add: Let_def)
  qed simp
qed

section \<open>Properties\<close>

text \<open>Registration. Over any sequence of registrations and removals the worker ids stay unique. Registering a
  worker leaves every other worker and puts the new incarnation in the place of the old
  one, and a late removal of an older incarnation, from a session that ends after its replacement registered, changes nothing but the order.\<close>

theorem registration:
  assumes "distinct (map wc_id ws)" "wc_incarnation c \<noteq> k"
  shows "distinct (map wc_id (register c ws)) \<and> distinct (map wc_id (unregister i k ws))
    \<and> set (register c ws) = {w \<in> set ws. wc_id w \<noteq> wc_id c} \<union> {c}
    \<and> set (unregister (wc_id c) k (register c ws)) = set (register c ws)"
proof (intro conjI)
  show r: "set (register c ws) = {w \<in> set ws. wc_id w \<noteq> wc_id c} \<union> {c}" by (auto simp: register_def)
  show "set (unregister (wc_id c) k (register c ws)) = set (register c ws)"
    using assms(2) by (auto simp: unregister_def r)
qed (intro register_ids unregister_ids assms(1))+

definition sample_worker :: "nat \<Rightarrow> nat \<Rightarrow> string \<Rightarrow> worker_channels" where
  "sample_worker i k p = \<lparr>wc_id = i, wc_incarnation = k, wc_path = p, wc_latency = 3 * i, wc_priority = 3 * i + 1,
     wc_bulk = 3 * i + 2, wc_healthy = i\<rparr>"

lemma registration_witness:
  "set (unregister 1 7 (register (sample_worker 1 8 ''a'') [sample_worker 1 7 ''b'', sample_worker 2 7 ''b'']))
     = {sample_worker 2 7 ''b'', sample_worker 1 8 ''a''}"
proof -
  have "distinct (map wc_id [sample_worker 1 7 ''b'', sample_worker 2 7 ''b''])" "wc_incarnation (sample_worker 1 8 ''a'') \<noteq> 7"
    by (simp_all add: sample_worker_def)
  note r = registration [OF this, of 1, THEN conjunct2, THEN conjunct2]
  have i: "wc_id (sample_worker 1 8 ''a'') = 1" by (simp add: sample_worker_def)
  have "set (unregister 1 7 (register (sample_worker 1 8 ''a'') [sample_worker 1 7 ''b'', sample_worker 2 7 ''b'']))
      = {w \<in> set [sample_worker 1 7 ''b'', sample_worker 2 7 ''b'']. wc_id w \<noteq> 1} \<union> {sample_worker 1 8 ''a''}"
    by (rule trans [OF r [unfolded i, THEN conjunct2] r [unfolded i, THEN conjunct1]])
  also have "\<dots> = {sample_worker 2 7 ''b'', sample_worker 1 8 ''a''}"
    by (auto simp: sample_worker_def)
  finally show ?thesis .
qed

text \<open>The dispatcher spreads over the TURN paths. The walk contains every worker exactly once, and its first \<open>k\<close> workers, for \<open>k\<close> the
  number of different paths, are on \<open>k\<close> different paths, so that consecutive stripes leave through different
  relays before any path is used again.\<close>

theorem paths_alternate:
  "mset (interleave_turn_paths ws) = mset ws \<and>
   (let k = card (wc_path ` set ws); firsts = take k (interleave_turn_paths ws)
    in distinct (map wc_path firsts) \<and> wc_path ` set firsts = wc_path ` set ws)"
proof -
  let ?gs = "group_paths (sort_key path_key ws)"
  have g: "grouped ?gs" by (rule groups_grouped)
  have paths: "wc_path ` set ws = set (map (\<lambda>g. wc_path (hd g)) ?gs)"
    using grouped_paths [OF g] by (simp only: group_paths_set)
  have d: "distinct (map (\<lambda>g. wc_path (hd g)) ?gs)" using g by (simp only: grouped_def)
  have "card (wc_path ` set ws) = length ?gs" by (simp only: paths distinct_card [OF d] length_map)
  hence f: "take (card (wc_path ` set ws)) (interleave_turn_paths ws) = map hd ?gs"
    by (simp only: interleave_turn_paths_def take_walk [OF g])
  have m: "map wc_path (map hd ?gs) = map (\<lambda>g. wc_path (hd g)) ?gs" by (simp only: map_map comp_def)
  have "distinct (map wc_path (map hd ?gs))" unfolding m by (rule d)
  moreover have "wc_path ` set (map hd ?gs) = wc_path ` set ws" by (simp only: paths set_map image_image)
  ultimately show ?thesis by (simp only: Let_def f mset_walk simp_thms)
qed

end
