(* ===== verification/Dispatch.thy ===== *)
theory Dispatch
  imports PacketChannel WorkerSet StripedScheduler
begin

text \<open>
  The uplink half of \<open>dispatcher.rs\<close>: the striping scheduler, the choice of a worker queue for a packet, the
  replacement of the oldest packet when all are full, the spare copies of short UDP and of QUIC
  Initial packets, and the redistribution of a dead worker's packets. The shared queues and health flags are a store
  indexed by the addresses the workers hold.
\<close>

section \<open>The striping scheduler\<close>

record cursor =
  cu_worker :: nat
  cu_remaining :: nat

definition default_cursor :: cursor where
  "default_cursor = \<lparr>cu_worker = 0, cu_remaining = 0\<rparr>"

record scheduler =
  fs_workers :: "worker_channels list"
  fs_count :: nat
  fs_cursors :: "cursor list"

definition new_scheduler :: scheduler where
  "new_scheduler = \<lparr>fs_workers = [], fs_count = 0, fs_cursors = replicate 3 default_cursor\<rparr>"

record dispatch_ticket =
  dt_slot :: nat
  dt_class :: traffic_class

definition sync_worker_count :: "nat \<Rightarrow> scheduler \<Rightarrow> scheduler" where
  "sync_worker_count n s = (if fs_count s \<noteq> n then s\<lparr>fs_count := n, fs_cursors := replicate 3 default_cursor\<rparr> else s)"

definition advance_cursor :: "nat \<Rightarrow> traffic_class \<Rightarrow> cursor \<Rightarrow> cursor" where
  "advance_cursor n class c =
    (let remaining = (if cu_remaining c = 0 then stream_chunk class else cu_remaining c) - 1
     in if remaining = 0 then
          \<lparr>cu_worker = (if cu_worker c + 1 = n then 0 else cu_worker c + 1), cu_remaining = 0\<rparr>
        else c\<lparr>cu_remaining := remaining\<rparr>)"

definition begin_for_class :: "nat \<Rightarrow> traffic_class \<Rightarrow> scheduler \<Rightarrow> dispatch_ticket option \<times> scheduler" where
  "begin_for_class n class s = (if n = 0 then (None, s)
     else let s1 = (if fs_count s \<noteq> n then sync_worker_count n s else s);
              cursor = fs_cursors s1 ! class_index class
       in (Some \<lparr>dt_slot = cu_worker cursor, dt_class = class\<rparr>,
           s1\<lparr>fs_cursors := (fs_cursors s1)[class_index class := advance_cursor n class cursor]\<rparr>))"

definition scheduler_begin :: "worker_channels list \<Rightarrow> bytes \<Rightarrow> scheduler \<Rightarrow> dispatch_ticket option \<times> scheduler" where
  "scheduler_begin source packet s =
    (let class = packet_class packet;
         s1 = (if cu_remaining (fs_cursors s ! class_index class) = 0
               then sync_worker_count (length source) (s\<lparr>fs_workers := source\<rparr>) else s)
     in begin_for_class (fs_count s1) class s1)"

fun scheduler_run :: "(worker_channels list \<times> bytes) list \<Rightarrow> scheduler \<Rightarrow> dispatch_ticket option list \<times> scheduler" where
  "scheduler_run [] s = ([], s)"
| "scheduler_run ((source, packet) # xs) s =
    (let (t, s1) = scheduler_begin source packet s; (ts, s2) = scheduler_run xs s1 in (t # ts, s2))"

section \<open>Choosing a queue\<close>

record 'q dispatch_store =
  ds_queue :: "nat \<Rightarrow> 'q packet_queue"
  ds_healthy :: "nat \<Rightarrow> bool"

definition is_healthy :: "'q dispatch_store \<Rightarrow> worker_channels \<Rightarrow> bool" where
  "is_healthy st w = ds_healthy st (wc_healthy w)"

definition mark_unhealthy :: "worker_channels \<Rightarrow> 'q dispatch_store \<Rightarrow> 'q dispatch_store" where
  "mark_unhealthy w st = st\<lparr>ds_healthy := (ds_healthy st)(wc_healthy w := False)\<rparr>"

definition queue_for_class :: "worker_channels \<Rightarrow> traffic_class \<Rightarrow> nat" where
  "queue_for_class w class = (case class of Small \<Rightarrow> wc_latency w | Medium \<Rightarrow> wc_priority w | Bulk \<Rightarrow> wc_bulk w)"

definition put_queue :: "nat \<Rightarrow> 'q packet_queue \<Rightarrow> 'q dispatch_store \<Rightarrow> 'q dispatch_store" where
  "put_queue a q st = st\<lparr>ds_queue := (ds_queue st)(a := q)\<rparr>"

text \<open>The inner loop of \<open>enqueue_selected_worker\<close> over the offsets.\<close>

fun try_workers :: "('p, 'q) pq_ops \<Rightarrow> worker_channels list \<Rightarrow> dispatch_ticket \<Rightarrow> bool \<Rightarrow> nat list \<Rightarrow> 'p
    \<Rightarrow> 'q dispatch_store \<Rightarrow> ('p + unit) \<times> 'q dispatch_store" where
  "try_workers ops ws ticket prefer_clear [] packet st = (Inl packet, st)"
| "try_workers ops ws ticket prefer_clear (offset # offsets) packet st =
    (let w = ws ! ((dt_slot ticket + offset) mod length ws);
         a = queue_for_class w (dt_class ticket)
     in if \<not> is_healthy st w then try_workers ops ws ticket prefer_clear offsets packet st
        else if prefer_clear \<and> is_congested ops (ds_queue st a) then try_workers ops ws ticket prefer_clear offsets packet st
        else case try_send ops packet (ds_queue st a) of
            (Inr u, q) \<Rightarrow> (Inr (), put_queue a q st)
          | (Inl returned, q) \<Rightarrow> try_workers ops ws ticket prefer_clear offsets returned (put_queue a q st))"

definition search_width :: "worker_channels list \<Rightarrow> dispatch_ticket \<Rightarrow> 'q dispatch_store \<Rightarrow> nat" where
  "search_width ws ticket st =
    (if dt_slot ticket < length ws \<and> is_healthy st (ws ! dt_slot ticket) then 1 + min 2 (length ws - 1) else length ws)"

definition enqueue_selected_worker :: "('p, 'q) pq_ops \<Rightarrow> worker_channels list \<Rightarrow> dispatch_ticket \<Rightarrow> 'p
    \<Rightarrow> 'q dispatch_store \<Rightarrow> ('p + unit) \<times> 'q dispatch_store" where
  "enqueue_selected_worker ops ws ticket packet st = (if ws = [] then (Inl packet, st)
     else let search = search_width ws ticket st in
       case try_workers ops ws ticket True [0..<search] packet st of
         (Inr u, st1) \<Rightarrow> (Inr (), st1)
       | (Inl returned, st1) \<Rightarrow> try_workers ops ws ticket False [0..<search] returned st1)"

definition replace_oldest_in_selected_queue :: "('p, 'q) pq_ops \<Rightarrow> worker_channels list \<Rightarrow> dispatch_ticket \<Rightarrow> 'p
    \<Rightarrow> 'q dispatch_store \<Rightarrow> ('p + unit) \<times> 'q dispatch_store" where
  "replace_oldest_in_selected_queue ops ws ticket packet st = (if ws = [] then (Inl packet, st)
     else case min_by_key (\<lambda>w. queued_len ops (ds_queue st (queue_for_class w (dt_class ticket)))) (filter (is_healthy st) ws) of
       None \<Rightarrow> (Inl packet, st)
     | Some w \<Rightarrow> (let a = queue_for_class w (dt_class ticket); (r, q) = force_send ops packet (ds_queue st a)
         in (r, put_queue a q st)))"

text \<open>The two of them as \<open>dispatch_now\<close> and \<open>redispatch\<close> use them; the result is what
  \<open>let _ =\<close> drops.\<close>

definition send_to_workers :: "('p, 'q) pq_ops \<Rightarrow> worker_channels list \<Rightarrow> dispatch_ticket \<Rightarrow> 'p
    \<Rightarrow> 'q dispatch_store \<Rightarrow> ('p + unit) \<times> 'q dispatch_store" where
  "send_to_workers ops ws ticket packet st = (case enqueue_selected_worker ops ws ticket packet st of
     (Inl returned, st1) \<Rightarrow> replace_oldest_in_selected_queue ops ws ticket returned st1
   | (Inr u, st1) \<Rightarrow> (Inr (), st1))"

definition drain_uplink :: "('p, 'q) pq_ops \<Rightarrow> worker_channels \<Rightarrow> 'q dispatch_store \<Rightarrow> 'p list \<times> 'q dispatch_store" where
  "drain_uplink ops w st =
    (let (xs, q1) = steal ops (ds_queue st (wc_latency w)); st1 = put_queue (wc_latency w) q1 st;
         (ys, q2) = steal ops (ds_queue st1 (wc_priority w)); st2 = put_queue (wc_priority w) q2 st1;
         (zs, q3) = steal ops (ds_queue st2 (wc_bulk w)); st3 = put_queue (wc_bulk w) q3 st2
     in (xs @ ys @ zs, st3))"

section \<open>Spare copies\<close>

definition QUIC_SPARE_PER_FLOW :: nat where "QUIC_SPARE_PER_FLOW = 2"
definition QUIC_SPARE_FLOW_CAP :: nat where "QUIC_SPARE_FLOW_CAP = 256"

definition ipv4_udp_flow_key :: "bytes \<Rightarrow> u64 option" where
  "ipv4_udp_flow_key p = (if length p < 28 \<or> drop_bit 4 (p ! 0) \<noteq> 4 \<or> p ! 9 \<noteq> 17 then None
     else let ihl = unat (p ! 0 AND 0x0f) * 4 in
       if ihl < 20 \<or> length p < ihl + 4 then None
       else let src_ip = u32_of_be (subslice p 12 16); dst_ip = u32_of_be (subslice p 16 20);
                src_port = u16_of_be (subslice p ihl (ihl + 2)); dst_port = u16_of_be (subslice p (ihl + 2) (ihl + 4))
         in Some (push_bit 32 (ucast src_ip) XOR (push_bit 16 (ucast dst_ip)
              XOR (push_bit 8 (ucast src_port) XOR ucast dst_port))))"

type_synonym spare_tracker = "(u64, nat) hmap"

definition quic_initial_spare_allow :: "bytes \<Rightarrow> spare_tracker \<Rightarrow> bool \<times> spare_tracker" where
  "quic_initial_spare_allow p m = (case ipv4_udp_flow_key p of None \<Rightarrow> (False, m)
     | Some key \<Rightarrow>
       let n = (case hm_get m key of None \<Rightarrow> 0 | Some k \<Rightarrow> k);
           m1 = (if hm_has m key then m else hm_put key 0 m)
       in if QUIC_SPARE_PER_FLOW \<le> n then (False, m1)
          else let m2 = hm_put key (n + 1) m1 in
            if QUIC_SPARE_FLOW_CAP < length m2 then
              (let m3 = filter (\<lambda>(k, v). v < QUIC_SPARE_PER_FLOW) m2
               in (True, if QUIC_SPARE_FLOW_CAP < length m3 then [(key, 1)] else m3))
            else (True, m2))"

definition udp_spare :: "(bytes, 'b) queue_ops \<Rightarrow> bytes \<Rightarrow> packet_buf \<Rightarrow> 'b packet_pool \<Rightarrow> spare_tracker
    \<Rightarrow> packet_buf option \<times> 'b packet_pool \<times> spare_tracker" where
  "udp_spare bops fresh packet pool m =
    (let bytes = as_slice packet in
     if length bytes < 20 \<or> drop_bit 4 (bytes ! 0) \<noteq> 4 \<or> bytes ! 9 \<noteq> 17 then (None, pool, m)
     else if should_duplicate bytes then (let (c, pool') = try_duplicate bops fresh packet pool in (c, pool', m))
     else if is_quic_initial_sized bytes then
       (case quic_initial_spare_allow bytes m of
          (True, m') \<Rightarrow> (let (c, pool') = try_duplicate bops fresh packet pool in (c, pool', m'))
        | (False, m') \<Rightarrow> (None, pool, m'))
     else (None, pool, m))"

section \<open>The dispatcher\<close>

record ('q, 'b) dispatcher =
  dp_store :: "'q dispatch_store"
  dp_pool :: "'b packet_pool"
  dp_tracker :: spare_tracker

text \<open>\<open>dispatch_now\<close>; the buffers of packets that are dropped go back to the pool by their destructor
  (\<open>release_buf\<close>), which is not threaded through here.\<close>

definition dispatch_now :: "(packet_buf, 'q) pq_ops \<Rightarrow> (bytes, 'b) queue_ops \<Rightarrow> bytes \<Rightarrow> worker_channels list
    \<Rightarrow> packet_buf \<Rightarrow> scheduler \<times> ('q, 'b) dispatcher \<Rightarrow> scheduler \<times> ('q, 'b) dispatcher" where
  "dispatch_now ops bops fresh source packet sd = (case sd of (s, d) \<Rightarrow>
    (case scheduler_begin source (as_slice packet) s of
       (None, s1) \<Rightarrow> (s1, d)
     | (Some ticket, s1) \<Rightarrow>
       let (spare, pool', m') = udp_spare bops fresh packet (dp_pool d) (dp_tracker d);
           ws = fs_workers s1;
           st1 = snd (send_to_workers ops ws ticket packet (dp_store d));
           st2 = (case spare of None \<Rightarrow> st1
             | Some copy \<Rightarrow> if 1 < length ws
                 then snd (enqueue_selected_worker ops ws
                        (ticket\<lparr>dt_slot := (dt_slot ticket + length ws div 2) mod length ws\<rparr>) copy st1)
                 else st1)
       in (s1, \<lparr>dp_store = st2, dp_pool = pool', dp_tracker = m'\<rparr>)))"

definition redispatch :: "(packet_buf, 'q) pq_ops \<Rightarrow> worker_channels list \<Rightarrow> packet_buf \<Rightarrow> 'q dispatch_store \<Rightarrow> 'q dispatch_store" where
  "redispatch ops ws packet st = (if ws = [] then st
     else snd (send_to_workers ops ws \<lparr>dt_slot = 0, dt_class = packet_class (as_slice packet)\<rparr> packet st))"

definition redispatch_all :: "(packet_buf, 'q) pq_ops \<Rightarrow> worker_channels list \<Rightarrow> packet_buf list \<Rightarrow> 'q dispatch_store \<Rightarrow> 'q dispatch_store" where
  "redispatch_all ops ws packets st = fold (redispatch ops ws) packets st"

section \<open>The scheduler\<close>

definition class_cursor :: "scheduler \<Rightarrow> traffic_class \<Rightarrow> cursor" where
  "class_cursor s c = fs_cursors s ! class_index c"

lemma stream_chunk_gt: "1 < stream_chunk c"
  by (cases c) (simp_all add: SMALL_STREAM_STRIPE_PACKET_CHUNK_def MEDIUM_STREAM_STRIPE_PACKET_CHUNK_def
      BULK_STREAM_STRIPE_PACKET_CHUNK_def)

lemma class_cursor_update:
  "length (fs_cursors s) = 3 \<Longrightarrow>
   class_cursor (s\<lparr>fs_cursors := (fs_cursors s)[class_index c := x]\<rparr>) d = (if d = c then x else class_cursor s d)"
  using class_index_bound [of c] class_index_inj [of c d] by (auto simp: class_cursor_def nth_list_update)

lemma default_cursors [simp]: "class_cursor (s\<lparr>fs_cursors := replicate 3 default_cursor\<rparr>) c = default_cursor"
  using class_index_bound [of c] by (simp add: class_cursor_def)

text \<open>The cursor after \<open>k\<close> packets of the class.\<close>

definition cursor_after :: "nat \<Rightarrow> traffic_class \<Rightarrow> nat \<Rightarrow> cursor" where
  "cursor_after n c k = \<lparr>cu_worker = (k div stream_chunk c) mod n,
     cu_remaining = (if k mod stream_chunk c = 0 then 0 else stream_chunk c - k mod stream_chunk c)\<rparr>"

lemma cursor_after_0 [simp]: "cursor_after n c 0 = default_cursor"
  by (simp add: cursor_after_def default_cursor_def)

lemma cursor_after_Suc:
  assumes "0 < n"
  shows "advance_cursor n c (cursor_after n c k) = cursor_after n c (Suc k)"
proof -
  define m q r where "m = stream_chunk c" and "q = k div m" and "r = k mod m"
  have m: "1 < m" unfolding m_def by (rule stream_chunk_gt)
  have r: "r < m" using m by (simp add: r_def)
  have d: "Suc k div m = (if Suc r = m then Suc q else q)" "Suc k mod m = (if Suc r = m then 0 else Suc r)"
    using m by (simp_all add: q_def r_def div_Suc mod_Suc)
  have w: "(if q mod n + 1 = n then 0 else q mod n + 1) = Suc q mod n" using assms by (simp add: mod_Suc)
  show ?thesis unfolding advance_cursor_def cursor_after_def m_def [symmetric] q_def [symmetric] r_def [symmetric] d
    using r m w by (auto simp: Let_def)
qed

definition striped :: "nat \<Rightarrow> (traffic_class \<Rightarrow> nat) \<Rightarrow> scheduler \<Rightarrow> bool" where
  "striped n m s \<longleftrightarrow> length (fs_cursors s) = 3 \<and> (\<forall>c. class_cursor s c = cursor_after n c (m c))
     \<and> (fs_count s = n \<or> m = (\<lambda>c. 0))"

lemma striped_new: "striped n (\<lambda>c. 0) new_scheduler"
proof -
  have "class_cursor new_scheduler c = default_cursor" for c
    using class_index_bound [of c] by (simp add: class_cursor_def new_scheduler_def)
  thus ?thesis by (simp add: striped_def new_scheduler_def)
qed

lemma striped_begin:
  fixes p :: bytes
  assumes s: "striped (length ws) m s" and ws: "ws \<noteq> []"
  defines "c \<equiv> packet_class p"
  obtains s' where "scheduler_begin ws p s
      = (Some \<lparr>dt_slot = (m c div stream_chunk c) mod length ws, dt_class = c\<rparr>, s')"
    "striped (length ws) (m(c := Suc (m c))) s'"
proof -
  let ?n = "length ws"
  define s1 where "s1 = (if cu_remaining (fs_cursors s ! class_index c) = 0
    then sync_worker_count ?n (s\<lparr>fs_workers := ws\<rparr>) else s)"
  have s1: "length (fs_cursors s1) = 3 \<and> (\<forall>d. class_cursor s1 d = cursor_after ?n d (m d)) \<and> fs_count s1 = ?n"
  proof (cases "fs_count s = ?n")
    case True
    thus ?thesis using s by (auto simp: s1_def sync_worker_count_def striped_def class_cursor_def)
  next
    case False
    hence m: "m = (\<lambda>c. 0)" using s by (simp add: striped_def)
    have "cu_remaining (fs_cursors s ! class_index c) = 0"
      using s m by (simp add: striped_def default_cursor_def class_cursor_def)
    hence "s1 = s\<lparr>fs_workers := ws, fs_count := ?n, fs_cursors := replicate 3 default_cursor\<rparr>"
      using False by (simp add: s1_def sync_worker_count_def)
    thus ?thesis using m by simp
  qed
  let ?s = "s1\<lparr>fs_cursors := (fs_cursors s1)[class_index c := advance_cursor ?n c (class_cursor s1 c)]\<rparr>"
  have b: "scheduler_begin ws p s = (Some \<lparr>dt_slot = (m c div stream_chunk c) mod ?n, dt_class = c\<rparr>, ?s)"
    using ws s1 by (simp add: scheduler_begin_def begin_for_class_def Let_def c_def [symmetric] s1_def [symmetric]
        class_cursor_def cursor_after_def)
  have "striped ?n (m(c := Suc (m c))) ?s"
    using s1 ws by (auto simp: striped_def class_cursor_update cursor_after_Suc)
  thus ?thesis using b that by blast
qed

text \<open>The ticket of the \<open>i\<close>-th packet by the specification: the number of earlier packets of its class, cut into
  chunks, modulo the number of workers.\<close>

definition striped_ticket :: "nat \<Rightarrow> (traffic_class \<Rightarrow> nat) \<Rightarrow> bytes list \<Rightarrow> nat \<Rightarrow> dispatch_ticket" where
  "striped_ticket n m ps i = (let c = packet_class (ps ! i);
       k = m c + length (filter (\<lambda>p. packet_class p = c) (take i ps))
     in \<lparr>dt_slot = (k div stream_chunk c) mod n, dt_class = c\<rparr>)"

lemma striped_ticket_Cons:
  "striped_ticket n m (p # ps) 0 = \<lparr>dt_slot = (m (packet_class p) div stream_chunk (packet_class p)) mod n, dt_class = packet_class p\<rparr>"
  "striped_ticket n m (p # ps) (Suc i) = striped_ticket n (m(packet_class p := Suc (m (packet_class p)))) ps i"
  by (simp_all add: striped_ticket_def Let_def)

lemma striped_run:
  assumes "ws \<noteq> []" "striped (length ws) m s"
  shows "fst (scheduler_run (map (Pair ws) ps) s) = map (\<lambda>i. Some (striped_ticket (length ws) m ps i)) [0..<length ps]"
  using assms(2)
proof (induction ps arbitrary: m s)
  case (Cons p ps)
  let ?c = "packet_class p" and ?n = "length ws"
  obtain s' where b: "scheduler_begin ws p s = (Some \<lparr>dt_slot = (m ?c div stream_chunk ?c) mod ?n, dt_class = ?c\<rparr>, s')"
      "striped ?n (m(?c := Suc (m ?c))) s'"
    by (rule striped_begin [OF Cons.prems assms(1)])
  have u: "[0..<length (p # ps)] = 0 # map Suc [0..<length ps]" by (simp add: upt_conv_Cons map_Suc_upt del: upt_Suc)
  have "map (\<lambda>i. Some (striped_ticket ?n m (p # ps) i)) [0..<length (p # ps)]
      = Some (striped_ticket ?n m (p # ps) 0) # map (\<lambda>i. Some (striped_ticket ?n m (p # ps) (Suc i))) [0..<length ps]"
    by (simp only: u list.map map_map comp_def)
  also have "\<dots> = Some \<lparr>dt_slot = (m ?c div stream_chunk ?c) mod ?n, dt_class = ?c\<rparr>
      # fst (scheduler_run (map (Pair ws) ps) s')"
    by (simp only: striped_ticket_Cons Cons.IH [OF b(2)])
  also have "\<dots> = fst (scheduler_run (map (Pair ws) (p # ps)) s)"
    by (simp only: list.map scheduler_run.simps b(1) Let_def case_prod_beta fst_conv snd_conv)
  finally show ?case by (rule sym)
qed simp

text \<open>The slot stays in range whatever happens to the set of workers.\<close>

definition scheduler_ok :: "scheduler \<Rightarrow> bool" where
  "scheduler_ok s \<longleftrightarrow> length (fs_cursors s) = 3 \<and> fs_count s = length (fs_workers s)
     \<and> (\<forall>c. cu_worker (class_cursor s c) < max 1 (fs_count s))"

lemma scheduler_ok_new [inv_intros]: "scheduler_ok new_scheduler"
proof -
  have "class_cursor new_scheduler c = default_cursor" for c
    using class_index_bound [of c] by (simp add: class_cursor_def new_scheduler_def)
  thus ?thesis by (simp add: scheduler_ok_def new_scheduler_def default_cursor_def)
qed

lemma scheduler_ok_sync: "length (fs_cursors s) = 3 \<Longrightarrow> scheduler_ok s
  \<Longrightarrow> scheduler_ok (sync_worker_count (length ws) (s\<lparr>fs_workers := ws\<rparr>))"
  by (auto simp: scheduler_ok_def sync_worker_count_def default_cursor_def class_cursor_def nth_Cons')

lemma scheduler_ok_advance:
  assumes "scheduler_ok s" "fs_count s \<noteq> 0"
  shows "cu_worker (class_cursor s c) < fs_count s"
    "scheduler_ok (s\<lparr>fs_cursors := (fs_cursors s)[class_index c := advance_cursor (fs_count s) c (class_cursor s c)]\<rparr>)"
proof -
  have l: "length (fs_cursors s) = 3" "fs_count s = length (fs_workers s)"
    and w: "cu_worker (class_cursor s d) < fs_count s" for d
  proof -
    have "max 1 (fs_count s) = fs_count s" using assms(2) by simp
    thus "length (fs_cursors s) = 3" "fs_count s = length (fs_workers s)" "cu_worker (class_cursor s d) < fs_count s"
      using assms(1) unfolding scheduler_ok_def by metis+
  qed
  show "cu_worker (class_cursor s c) < fs_count s" by (rule w)
  have a: "cu_worker (advance_cursor (fs_count s) c (class_cursor s c)) < fs_count s"
    using w [of c] assms(2) by (auto simp: advance_cursor_def Let_def)
  show "scheduler_ok (s\<lparr>fs_cursors := (fs_cursors s)[class_index c := advance_cursor (fs_count s) c (class_cursor s c)]\<rparr>)"
    using l w a by (simp add: scheduler_ok_def class_cursor_update)
qed

lemma scheduler_ok_begin:
  assumes "scheduler_ok s" "scheduler_begin source p s = (t, s')"
  shows "scheduler_ok s' \<and> (case t of None \<Rightarrow> fs_workers s' = []
     | Some ticket \<Rightarrow> dt_slot ticket < length (fs_workers s') \<and> dt_class ticket = packet_class p)"
proof -
  let ?c = "packet_class p"
  define s1 where "s1 = (if cu_remaining (fs_cursors s ! class_index ?c) = 0
    then sync_worker_count (length source) (s\<lparr>fs_workers := source\<rparr>) else s)"
  have "length (fs_cursors s) = 3" using assms(1) by (simp only: scheduler_ok_def)
  hence ok: "scheduler_ok s1" using assms(1) scheduler_ok_sync [of s source] by (simp only: s1_def split: if_split) blast
  have b: "(t, s') = begin_for_class (fs_count s1) ?c s1"
    using assms(2) by (simp add: scheduler_begin_def Let_def s1_def)
  show ?thesis
  proof (cases "fs_count s1 = 0")
    case True
    thus ?thesis using b ok by (simp add: begin_for_class_def scheduler_ok_def)
  next
    case False
    hence b: "t = Some \<lparr>dt_slot = cu_worker (class_cursor s1 ?c), dt_class = ?c\<rparr>"
      "s' = s1\<lparr>fs_cursors := (fs_cursors s1)[class_index ?c := advance_cursor (fs_count s1) ?c (class_cursor s1 ?c)]\<rparr>"
      using b by (auto simp: begin_for_class_def Let_def class_cursor_def)
    have "length (fs_workers s') = fs_count s1" using ok b(2) by (simp add: scheduler_ok_def)
    thus ?thesis using b(1) scheduler_ok_advance [OF ok False, of ?c] by (simp add: b(2))
  qed
qed

section \<open>Where a packet ends up\<close>

lemma put_same [simp]: "put_queue a (ds_queue st a) st = st"
  by (simp add: put_queue_def)

definition queue_of :: "'q dispatch_store \<Rightarrow> traffic_class \<Rightarrow> worker_channels \<Rightarrow> 'q packet_queue" where
  "queue_of st c w = ds_queue st (queue_for_class w c)"

definition queue_full :: "('q \<Rightarrow> 'p queued_packet list) \<Rightarrow> ('q \<Rightarrow> nat) \<Rightarrow> 'q packet_queue \<Rightarrow> bool" where
  "queue_full items cap q \<longleftrightarrow> cap (pq_queue q) \<le> length (items (pq_queue q))"

context channel
begin

definition usable :: "'q packet_queue \<Rightarrow> bool" where
  "usable q \<longleftrightarrow> pq_open q \<and> queue_active (pq_state q) \<and> channel_ok q"

text \<open>The queue after the packet was accepted by it.\<close>

definition took :: "'p \<Rightarrow> 'q packet_queue \<Rightarrow> 'q packet_queue \<Rightarrow> bool" where
  "took p q q' \<longleftrightarrow> items (pq_queue q') = (if length (items (pq_queue q)) < cap (pq_queue q) then items (pq_queue q)
       else tl (items (pq_queue q))) @ [\<lparr>qp_packet = p, qp_epoch = state_epoch (pq_state q)\<rparr>]
     \<and> pq_state q' = pq_state q"

lemma try_workers_cases:
  "try_workers ops ws t pc offs p st = (r, st') \<Longrightarrow>
   (case r of
      Inl p' \<Rightarrow> p' = p \<and> st' = st \<and> (\<forall>k\<in>set offs. let w = ws ! ((dt_slot t + k) mod length ws);
           q = ds_queue st (queue_for_class w (dt_class t))
         in is_healthy st w \<and> usable q \<longrightarrow> cap (pq_queue q) \<le> length (items (pq_queue q)) \<or> (pc \<and> is_congested ops q))
    | Inr u \<Rightarrow> (\<exists>k\<in>set offs. let w = ws ! ((dt_slot t + k) mod length ws); a = queue_for_class w (dt_class t); q = ds_queue st a
         in is_healthy st w \<and> (pc \<longrightarrow> \<not> is_congested ops q) \<and> length (items (pq_queue q)) < cap (pq_queue q)
            \<and> (\<exists>q'. took p q q' \<and> st' = put_queue a q' st)))"
proof (induction offs)
  case Nil
  thus ?case by (auto split: sum.splits)
next
  case (Cons k offs)
  let ?w = "ws ! ((dt_slot t + k) mod length ws)"
  let ?a = "queue_for_class ?w (dt_class t)"
  let ?q = "ds_queue st ?a"
  show ?case
  proof (cases "\<not> is_healthy st ?w \<or> (pc \<and> is_congested ops ?q)")
    case True
    hence "try_workers ops ws t pc offs p st = (r, st')" using Cons.prems by (auto simp: Let_def split: if_splits)
    from Cons.IH [OF this] show ?thesis using True by (auto simp: Let_def split: sum.splits)
  next
    case False
    show ?thesis
    proof (cases rule: send_cases [of p False ?q])
      case refused
      hence "try_workers ops ws t pc offs p st = (r, st')" using Cons.prems False by (auto simp: Let_def try_send_def split: if_splits)
      from Cons.IH [OF this] show ?thesis using refused(2) by (auto simp: Let_def usable_def split: sum.splits)
    next
      case (stored q')
      hence "r = Inr ()" "st' = put_queue ?a q' st" using Cons.prems False by (auto simp: Let_def try_send_def split: if_splits)
      moreover have "took p ?q q'" using stored by (simp add: took_def)
      ultimately show ?thesis using False stored(9) by (auto simp: Let_def)
    qed
  qed
qed

lemma offset_reaches: "k < length ws \<Longrightarrow> ws ! ((slot + k) mod length ws) \<in> set ws"
  by (intro nth_mem mod_less_divisor) (cases ws; simp)

lemma every_worker_reached:
  assumes "w \<in> set ws"
  obtains k where "k < length ws" "ws ! ((slot + k) mod length ws) = w"
proof -
  obtain i where i: "i < length ws" "ws ! i = w" using assms by (auto simp: in_set_conv_nth)
  let ?n = "length ws"
  let ?k = "(i + (?n - slot mod ?n)) mod ?n"
  have n: "0 < ?n" using i(1) by (rule le_less_trans [OF le0])
  have "(slot + ?k) mod ?n = (slot mod ?n + (i + (?n - slot mod ?n))) mod ?n" by (simp add: mod_add_eq mod_add_left_eq mod_add_right_eq)
  also have "slot mod ?n + (i + (?n - slot mod ?n)) = i + ?n" using mod_less_divisor [OF n, of slot] by simp
  also have "(i + ?n) mod ?n = i" using i by simp
  finally have "(slot + ?k) mod ?n = i" .
  thus ?thesis using that [of ?k] i(2) mod_less_divisor [OF n] by simp
qed

lemma search_width_bounds: "ws \<noteq> [] \<Longrightarrow> search_width ws t st \<le> length ws"
  by (cases ws) (auto simp: search_width_def)

lemma congested_full: "channel_ok q \<Longrightarrow> cap (pq_queue q) \<le> length (items (pq_queue q)) \<Longrightarrow> is_congested ops q"
  by (auto simp: is_congested_def channel_ok_def queued_len_def)

text \<open>What the search alone does, whatever the state of the queues: it refuses the packet and changes nothing, or a healthy worker with room takes it.\<close>

lemma enqueue_outcome:
  assumes "enqueue_selected_worker ops ws t p st = (r, st')" "ws \<noteq> []"
  shows "case r of Inl p' \<Rightarrow> p' = p \<and> st' = st
    | Inr u \<Rightarrow> (\<exists>w\<in>set ws. \<exists>q'. is_healthy st w \<and> st' = put_queue (queue_for_class w (dt_class t)) q' st \<and> took p (queue_of st (dt_class t) w) q'
        \<and> length (items (pq_queue (queue_of st (dt_class t) w))) < cap (pq_queue (queue_of st (dt_class t) w)))"
proof -
  let ?n = "search_width ws t st"
  let ?took = "\<lambda>st'. \<exists>w\<in>set ws. \<exists>q'. is_healthy st w \<and> st' = put_queue (queue_for_class w (dt_class t)) q' st \<and> took p (queue_of st (dt_class t) w) q'
        \<and> length (items (pq_queue (queue_of st (dt_class t) w))) < cap (pq_queue (queue_of st (dt_class t) w))"
  have inset: "ws ! ((dt_slot t + k) mod length ws) \<in> set ws" for k using assms(2) by (intro nth_mem) simp
  have taken: "?took st1" if "try_workers ops ws t pc offs p st = (Inr u, st1)" for pc offs st1 u
    using try_workers_cases [OF that] inset by (fastforce simp: Let_def queue_of_def)
  obtain r1 st1 where p1: "try_workers ops ws t True [0..<?n] p st = (r1, st1)" by force
  show ?thesis
  proof (cases r1)
    case (Inr u)
    then have "r = Inr ()" "st' = st1" using assms p1 by (simp_all add: enqueue_selected_worker_def Let_def)
    then show ?thesis using p1 Inr taken [of True "[0..<?n]" u st1] by simp
  next
    case (Inl p')
    then have "p' = p" "st1 = st" using try_workers_cases [OF p1] by simp_all
    then have p2: "try_workers ops ws t False [0..<?n] p st = (r, st')" using assms p1 Inl by (simp add: enqueue_selected_worker_def Let_def)
    show ?thesis using try_workers_cases [OF p2] taken [of False "[0..<?n]" _ st'] p2 by (cases r) auto
  qed
qed

text \<open>The outcome of placing a packet when the healthy workers' queues of the class are usable.\<close>

lemma send_to_workers_outcome:
  assumes ws: "w0 \<in> set ws" "is_healthy st w0"
    and us: "\<forall>w\<in>set ws. is_healthy st w \<longrightarrow> usable (queue_of st (dt_class t) w)"
    and run: "send_to_workers ops ws t p st = (r, st')"
  obtains w q' where "w \<in> set ws" "is_healthy st w" "r = Inr ()"
    "st' = put_queue (queue_for_class w (dt_class t)) q' st" "took p (queue_of st (dt_class t) w) q'"
    "cap (pq_queue (queue_of st (dt_class t) w)) \<le> length (items (pq_queue (queue_of st (dt_class t) w))) \<Longrightarrow>
       (\<forall>k\<in>{..<search_width ws t st}. let v = ws ! ((dt_slot t + k) mod length ws) in
         is_healthy st v \<longrightarrow> cap (pq_queue (queue_of st (dt_class t) v)) \<le> length (items (pq_queue (queue_of st (dt_class t) v))))"
proof -
  let ?n = "search_width ws t st"
  have ne: "ws \<noteq> []" using ws(1) by auto
  have inset: "ws ! ((dt_slot t + k) mod length ws) \<in> set ws" for k using ne by (intro nth_mem) simp
  obtain r1 st1 where e: "enqueue_selected_worker ops ws t p st = (r1, st1)" by (cases "enqueue_selected_worker ops ws t p st")
  obtain r2 st2 where p1: "try_workers ops ws t True [0..<?n] p st = (r2, st2)" by (cases "try_workers ops ws t True [0..<?n] p st")
  note c1 = try_workers_cases [OF p1]
  obtain r3 st3 where p2: "try_workers ops ws t False [0..<?n] p st = (r3, st3)" by (cases "try_workers ops ws t False [0..<?n] p st")
  note c2 = try_workers_cases [OF p2]
  show thesis
  proof (cases r2)
    case (Inr u)
    then obtain k q' where k: "is_healthy st (ws ! ((dt_slot t + k) mod length ws))"
        "length (items (pq_queue (queue_of st (dt_class t) (ws ! ((dt_slot t + k) mod length ws)))))
          < cap (pq_queue (queue_of st (dt_class t) (ws ! ((dt_slot t + k) mod length ws))))"
        "took p (queue_of st (dt_class t) (ws ! ((dt_slot t + k) mod length ws))) q'"
        "st2 = put_queue (queue_for_class (ws ! ((dt_slot t + k) mod length ws)) (dt_class t)) q' st"
      using c1 by (auto simp: Let_def queue_of_def)
    have "r = Inr ()" "st' = st2" using run p1 Inr ne by (simp_all add: send_to_workers_def enqueue_selected_worker_def Let_def)
    show ?thesis
      by (rule that [of "ws ! ((dt_slot t + k) mod length ws)" q']) (use inset k \<open>r = Inr ()\<close> \<open>st' = st2\<close> in simp_all)
  next
    case (Inl p')
    hence i1: "p' = p" "st2 = st" using c1 by simp_all
    show ?thesis
    proof (cases r3)
      case (Inr u)
      then obtain k q' where k: "is_healthy st (ws ! ((dt_slot t + k) mod length ws))"
          "length (items (pq_queue (queue_of st (dt_class t) (ws ! ((dt_slot t + k) mod length ws)))))
            < cap (pq_queue (queue_of st (dt_class t) (ws ! ((dt_slot t + k) mod length ws))))"
          "took p (queue_of st (dt_class t) (ws ! ((dt_slot t + k) mod length ws))) q'"
          "st3 = put_queue (queue_for_class (ws ! ((dt_slot t + k) mod length ws)) (dt_class t)) q' st"
        using c2 by (auto simp: Let_def queue_of_def)
      have "r = Inr ()" "st' = st3" using run p1 p2 Inl Inr ne i1
        by (simp_all add: send_to_workers_def enqueue_selected_worker_def Let_def)
      show ?thesis
        by (rule that [of "ws ! ((dt_slot t + k) mod length ws)" q']) (use inset k \<open>r = Inr ()\<close> \<open>st' = st3\<close> in simp_all)
    next
      case (Inl p'')
      hence i2: "p'' = p" "st3 = st" using c2 by simp_all
      have full: "\<forall>k<?n. let v = ws ! ((dt_slot t + k) mod length ws) in
         is_healthy st v \<longrightarrow> cap (pq_queue (queue_of st (dt_class t) v)) \<le> length (items (pq_queue (queue_of st (dt_class t) v)))"
        using c2 Inl us inset by (auto simp: Let_def queue_of_def)
      let ?key = "\<lambda>w. queued_len ops (ds_queue st (queue_for_class w (dt_class t)))"
      have "filter (is_healthy st) ws \<noteq> []" using ws by (auto simp: filter_empty_conv)
      then obtain w where w: "min_by_key ?key (filter (is_healthy st) ws) = Some w"
        by (cases "min_by_key ?key (filter (is_healthy st) ws)") auto
      have wh: "w \<in> set ws" "is_healthy st w" using min_by_key_SomeD [OF w] by auto
      let ?a = "queue_for_class w (dt_class t)"
      have rr: "send_to_workers ops ws t p st = (let (r, q) = force_send ops p (ds_queue st ?a) in (r, put_queue ?a q st))"
        using p1 p2 \<open>r2 = Inl p'\<close> Inl ne i1 i2 w
        by (simp add: send_to_workers_def enqueue_selected_worker_def Let_def replace_oldest_in_selected_queue_def)
      have u: "usable (ds_queue st ?a)" using us wh by (auto simp: queue_of_def)
      show ?thesis
      proof (cases rule: send_cases [of p True "ds_queue st ?a"])
        case refused
        thus ?thesis using u by (simp add: usable_def)
      next
        case (stored q')
        have "r = Inr ()" "st' = put_queue ?a q' st" using run rr stored(1) by (simp_all add: force_send_def)
        moreover have "took p (queue_of st (dt_class t) w) q'" using stored by (simp add: took_def queue_of_def)
        ultimately show ?thesis using that [of w q'] wh full by simp
      qed
    qed
  qed
qed

end

section \<open>The tracker of spare copies\<close>

definition tracker_ok :: "spare_tracker \<Rightarrow> bool" where
  "tracker_ok m \<longleftrightarrow> hm_ok m \<and> length m \<le> QUIC_SPARE_FLOW_CAP \<and> (\<forall>(k, v)\<in>set m. v \<le> QUIC_SPARE_PER_FLOW)"

lemma hm_ok_filter: "hm_ok m \<Longrightarrow> hm_ok (filter P m)"
  by (simp add: hm_ok_def distinct_map_filter)

lemma tracker_step: "tracker_ok m \<Longrightarrow> tracker_ok (snd (quic_initial_spare_allow p m))"
proof -
  assume m: "tracker_ok m"
  show ?thesis
  proof (cases "ipv4_udp_flow_key p")
    case None
    thus ?thesis using m by (simp add: quic_initial_spare_allow_def)
  next
    case (Some key)
    define n where "n = (case hm_get m key of None \<Rightarrow> 0 | Some k \<Rightarrow> k)"
    define m1 where "m1 = (if hm_has m key then m else hm_put key 0 m)"
    define m2 where "m2 = hm_put key (Suc n) m1"
    have has1: "hm_has m1 key" by (simp add: m1_def hm_has_keys)
    show ?thesis
    proof (cases "QUIC_SPARE_PER_FLOW \<le> n")
      case True
      hence "hm_has m key" by (cases "hm_get m key") (auto simp: n_def QUIC_SPARE_PER_FLOW_def hm_has_get)
      thus ?thesis using m Some True n_def by (simp add: quic_initial_spare_allow_def Let_def m1_def)
    next
      case False
      have ok1: "hm_ok m1" "\<forall>(k, v)\<in>set m1. v \<le> QUIC_SPARE_PER_FLOW" "length m1 \<le> length m + 1"
        using m set_hm_put_subset [of key 0 m] by (auto simp: m1_def tracker_ok_def length_hm_put)
      have ok2: "hm_ok m2" "\<forall>(k, v)\<in>set m2. v \<le> QUIC_SPARE_PER_FLOW" "length m2 \<le> length m + 1"
        using ok1 False has1 set_hm_put_subset [of key "Suc n" m1] by (auto simp: m2_def length_hm_put)
      show ?thesis
      proof (cases "QUIC_SPARE_FLOW_CAP < length m2")
        case False': False
        hence "snd (quic_initial_spare_allow p m) = m2" using False Some
          by (simp add: quic_initial_spare_allow_def Let_def n_def [symmetric] m1_def [symmetric] m2_def [symmetric])
        thus ?thesis using ok2 False' by (simp add: tracker_ok_def not_less)
      next
        case True
        let ?m3 = "filter (\<lambda>(k, v). v < QUIC_SPARE_PER_FLOW) m2"
        have "snd (quic_initial_spare_allow p m) = (if QUIC_SPARE_FLOW_CAP < length ?m3 then [(key, 1)] else ?m3)"
          using True False Some
          by (simp add: quic_initial_spare_allow_def Let_def n_def [symmetric] m1_def [symmetric] m2_def [symmetric])
        moreover have "hm_ok ?m3" by (rule hm_ok_filter [OF ok2(1)])
        ultimately show ?thesis
          by (auto simp: tracker_ok_def hm_ok_def QUIC_SPARE_FLOW_CAP_def QUIC_SPARE_PER_FLOW_def)
      qed
    qed
  qed
qed

section \<open>Properties\<close>

text \<open>Striping is round robin. With a fixed set of \<open>n\<close> workers the scheduler sends the \<open>i\<close>-th packet to
  the slot \<open>(k div chunk) mod n\<close>, where \<open>k\<close> counts the earlier packets of the same class and \<open>chunk\<close> is 4, 16 or 32 by class:
  each class is cut into chunks that go to the workers in turn, whatever the other classes do.\<close>

theorem striping_round_robin:
  assumes "ws \<noteq> []"
  shows "fst (scheduler_run (map (Pair ws) ps) new_scheduler) = map (\<lambda>i.
     let c = packet_class (ps ! i); k = length (filter (\<lambda>p. packet_class p = c) (take i ps))
     in Some \<lparr>dt_slot = (k div stream_chunk c) mod length ws, dt_class = c\<rparr>) [0..<length ps]"
  using striped_run [OF assms striped_new, of ps] by (simp add: striped_ticket_def Let_def)

lemma striping_round_robin_witness:
  "fst (scheduler_run (map (Pair [sample_worker 1 1 ''a'', sample_worker 2 1 ''b'']) (replicate 5 [])) new_scheduler)
    = map (\<lambda>k. Some \<lparr>dt_slot = k, dt_class = Small\<rparr>) [0, 0, 0, 0, 1]"
proof -
  have c: "packet_class [] = Small"
    by (simp add: packet_class_def frame_payload_def decode_frame_def FRAME_LEN_def internet_transport_def
        version_nibble_def size_class_def)
  have u: "[0..<5] = [0, 1, 2, 3, 4 :: nat]" by code_simp
  show ?thesis
    using striping_round_robin [of "[sample_worker 1 1 ''a'', sample_worker 2 1 ''b'']" "replicate 5 []"]
    by (simp add: c u Let_def filter_replicate SMALL_STREAM_STRIPE_PACKET_CHUNK_def take_replicate)
qed

text \<open>A slot is always in range. Whatever workers come and go between the packets, every ticket the scheduler gives out
  indexes the list of workers it is used with, so the modulo and the index in the dispatcher never panic.\<close>

theorem slot_in_range:
  "let s = snd (scheduler_run xs new_scheduler); (t, s') = scheduler_begin source p s
   in case t of None \<Rightarrow> fs_workers s' = [] | Some ticket \<Rightarrow> dt_slot ticket < length (fs_workers s')"
proof -
  have run: "scheduler_ok s \<Longrightarrow> scheduler_ok (snd (scheduler_run xs s))" for s
  proof (induction xs arbitrary: s)
    case (Cons x xs)
    obtain source p where x: "x = (source, p)" by (cases x)
    obtain t s1 where b: "scheduler_begin source p s = (t, s1)" by (cases "scheduler_begin source p s")
    show ?case using Cons.IH [of s1] scheduler_ok_begin [OF Cons.prems b] x b by (simp add: case_prod_beta)
  qed simp
  obtain t s' where b: "scheduler_begin source p (snd (scheduler_run xs new_scheduler)) = (t, s')"
    by (cases "scheduler_begin source p (snd (scheduler_run xs new_scheduler))")
  show ?thesis using scheduler_ok_begin [OF run [OF scheduler_ok_new] b] b by (simp split: option.splits)
qed

text \<open>Placing one packet, as \<open>dispatch_now\<close> and \<open>redispatch\<close> do.\<close>

lemma placed_with_healthy_worker:
  assumes laws: "queue_laws ops items cap" and ws: "w0 \<in> set ws" "is_healthy st w0"
    and usable: "\<forall>w\<in>set ws. is_healthy st w \<longrightarrow> channel.usable items cap (queue_of st (dt_class t) w)"
  shows "\<exists>w\<in>set ws. \<exists>q'. is_healthy st w
      \<and> send_to_workers ops ws t p st = (Inr (), put_queue (queue_for_class w (dt_class t)) q' st)
      \<and> items (pq_queue q') = (let q = queue_of st (dt_class t) w in
           (if queue_full items cap q then tl (items (pq_queue q)) else items (pq_queue q))
             @ [\<lparr>qp_packet = p, qp_epoch = state_epoch (pq_state q)\<rparr>])
      \<and> (queue_full items cap (queue_of st (dt_class t) w) \<longrightarrow> (\<forall>k\<in>{..<search_width ws t st}.
           let v = ws ! ((dt_slot t + k) mod length ws)
           in is_healthy st v \<longrightarrow> queue_full items cap (queue_of st (dt_class t) v)))"
proof -
  have c: "channel ops items cap" using laws by unfold_locales
  obtain r st' where run: "send_to_workers ops ws t p st = (r, st')" by (cases "send_to_workers ops ws t p st")
  show ?thesis
  proof (rule channel.send_to_workers_outcome [OF c ws usable run])
    fix w q'
    let ?q = "queue_of st (dt_class t) w"
    assume w: "w \<in> set ws" "is_healthy st w" and r: "r = Inr ()" "st' = put_queue (queue_for_class w (dt_class t)) q' st"
      and took: "channel.took items cap p ?q q'"
      and full: "cap (pq_queue ?q) \<le> length (items (pq_queue ?q)) \<Longrightarrow>
        \<forall>k\<in>{..<search_width ws t st}. let v = ws ! ((dt_slot t + k) mod length ws) in
         is_healthy st v \<longrightarrow> cap (pq_queue (queue_of st (dt_class t) v)) \<le> length (items (pq_queue (queue_of st (dt_class t) v)))"
    have "items (pq_queue q') = (if queue_full items cap ?q then tl (items (pq_queue ?q)) else items (pq_queue ?q))
             @ [\<lparr>qp_packet = p, qp_epoch = state_epoch (pq_state ?q)\<rparr>]"
      using took unfolding channel.took_def [OF c] queue_full_def by (auto split: if_splits)
    thus ?thesis using w r full unfolding run queue_full_def Let_def by blast
  qed
qed

text \<open>A spare copy is a copy.\<close>

lemma spare_copy:
  assumes "fst (udp_spare bops fresh packet pool m) = Some c" "packet_ok packet"
    "\<And>x p1. try_acquire bops fresh pool = Some (x, p1) \<Longrightarrow> length (pb_storage x) = PACKET_CAPACITY"
  shows "as_slice c = as_slice packet"
proof -
  obtain p' where "try_duplicate bops fresh packet pool = (Some c, p')"
    using assms(1) by (auto simp: udp_spare_def Let_def split: if_splits prod.splits bool.splits)
  from duplicate_slice [OF this assms(2,3)] show ?thesis .
qed

text \<open>The packet \<open>p\<close> went to the end of a queue, in place of the oldest one if the queue was full.\<close>

definition stored_last :: "('q \<Rightarrow> 'p queued_packet list) \<Rightarrow> ('q \<Rightarrow> nat) \<Rightarrow> 'p \<Rightarrow> 'q packet_queue \<Rightarrow> 'q packet_queue \<Rightarrow> bool" where
  "stored_last items cap p q q' \<longleftrightarrow> items (pq_queue q') = (if queue_full items cap q then tl (items (pq_queue q)) else items (pq_queue q))
     @ [\<lparr>qp_packet = p, qp_epoch = state_epoch (pq_state q)\<rparr>]"

text \<open>C5: a packet reaches a healthy worker. If some worker is healthy and the class queues of the healthy workers are open
  and active, dispatching a packet stores it, once and at the end, in the class queue of one healthy worker; a queued packet is lost for it, the oldest of that
  queue, only when every queue the search visited was full. Nothing else changes in the workers' queues, except that a spare copy with the same bytes, for a
  packet that gets one (short UDP, the first QUIC Initials of a flow) and with more than one worker, may go to the end of the class queue of a healthy worker that has
  room for it; no queued packet is lost for the copy.\<close>

theorem packet_reaches_healthy_worker:
  assumes laws: "queue_laws ops items cap" and run: "dispatch_now ops bops fresh source packet (s, d) = (s', d')"
    and ticket: "scheduler_begin source (as_slice packet) s = (Some t, s1)"
    and ws: "w0 \<in> set (fs_workers s1)" "is_healthy (dp_store d) w0"
    and usable: "\<forall>w\<in>set (fs_workers s1). is_healthy (dp_store d) w \<longrightarrow> channel.usable items cap (queue_of (dp_store d) (dt_class t) w)"
    and packet: "packet_ok packet" "\<forall>x p1. try_acquire bops fresh (dp_pool d) = Some (x, p1) \<longrightarrow> length (pb_storage x) = PACKET_CAPACITY"
  shows "\<exists>w\<in>set (fs_workers s1). \<exists>q1. let st1 = put_queue (queue_for_class w (dt_class t)) q1 (dp_store d) in
      is_healthy (dp_store d) w \<and> stored_last items cap packet (queue_of (dp_store d) (dt_class t) w) q1
    \<and> (queue_full items cap (queue_of (dp_store d) (dt_class t) w) \<longrightarrow> (\<forall>k\<in>{..<search_width (fs_workers s1) t (dp_store d)}.
        let v = fs_workers s1 ! ((dt_slot t + k) mod length (fs_workers s1))
        in is_healthy (dp_store d) v \<longrightarrow> queue_full items cap (queue_of (dp_store d) (dt_class t) v)))
    \<and> (dp_store d' = st1 \<or> (\<exists>c. \<exists>v\<in>set (fs_workers s1). \<exists>q2. 1 < length (fs_workers s1)
        \<and> fst (udp_spare bops fresh packet (dp_pool d) (dp_tracker d)) = Some c \<and> as_slice c = as_slice packet
        \<and> is_healthy st1 v \<and> \<not> queue_full items cap (queue_of st1 (dt_class t) v)
        \<and> stored_last items cap c (queue_of st1 (dt_class t) v) q2 \<and> dp_store d' = put_queue (queue_for_class v (dt_class t)) q2 st1))"
proof -
  have c: "channel ops items cap" using laws by unfold_locales
  let ?ws = "fs_workers s1"
  obtain w q1 where w: "w \<in> set ?ws" "is_healthy (dp_store d) w"
      and sent: "send_to_workers ops ?ws t packet (dp_store d) = (Inr (), put_queue (queue_for_class w (dt_class t)) q1 (dp_store d))"
      and last: "stored_last items cap packet (queue_of (dp_store d) (dt_class t) w) q1"
      and full: "queue_full items cap (queue_of (dp_store d) (dt_class t) w) \<longrightarrow> (\<forall>k\<in>{..<search_width ?ws t (dp_store d)}.
        let v = ?ws ! ((dt_slot t + k) mod length ?ws) in is_healthy (dp_store d) v \<longrightarrow> queue_full items cap (queue_of (dp_store d) (dt_class t) v))"
    using placed_with_healthy_worker [OF laws ws usable] unfolding stored_last_def Let_def by blast
  define st1 where "st1 = put_queue (queue_for_class w (dt_class t)) q1 (dp_store d)"
  obtain spare pool' m' where sp: "udp_spare bops fresh packet (dp_pool d) (dp_tracker d) = (spare, pool', m')" by (metis prod_cases3)
  define alt where "alt = t\<lparr>dt_slot := (dt_slot t + length ?ws div 2) mod length ?ws\<rparr>"
  have d': "dp_store d' = (case spare of None \<Rightarrow> st1
      | Some copy \<Rightarrow> if 1 < length ?ws then snd (enqueue_selected_worker ops ?ws alt copy st1) else st1)"
    using run ticket sp sent unfolding dispatch_now_def Let_def st1_def alt_def by (cases spare) auto
  have "dp_store d' = st1 \<or> (\<exists>c. \<exists>v\<in>set ?ws. \<exists>q2. 1 < length ?ws
        \<and> fst (udp_spare bops fresh packet (dp_pool d) (dp_tracker d)) = Some c \<and> as_slice c = as_slice packet
        \<and> is_healthy st1 v \<and> \<not> queue_full items cap (queue_of st1 (dt_class t) v)
        \<and> stored_last items cap c (queue_of st1 (dt_class t) v) q2 \<and> dp_store d' = put_queue (queue_for_class v (dt_class t)) q2 st1)"
  proof (cases "\<exists>copy. spare = Some copy \<and> 1 < length ?ws")
    case False
    then show ?thesis using d' by (auto split: option.splits)
  next
    case True
    then obtain copy where cp: "spare = Some copy" "1 < length ?ws" by blast
    obtain r st2 where e: "enqueue_selected_worker ops ?ws alt copy st1 = (r, st2)" by force
    have dd: "dp_store d' = st2" using d' cp e by simp
    have ne: "?ws \<noteq> []" using cp(2) by auto
    have slice: "as_slice copy = as_slice packet" using spare_copy [of bops fresh packet "dp_pool d" "dp_tracker d" copy] sp cp(1) packet by simp
    show ?thesis
    proof (cases r)
      case (Inl x)
      then show ?thesis using channel.enqueue_outcome [OF c e ne] dd by simp
    next
      case (Inr u)
      then obtain v q2 where v: "v \<in> set ?ws" "is_healthy st1 v" "st2 = put_queue (queue_for_class v (dt_class t)) q2 st1"
          "channel.took items cap copy (queue_of st1 (dt_class t) v) q2"
          "length (items (pq_queue (queue_of st1 (dt_class t) v))) < cap (pq_queue (queue_of st1 (dt_class t) v))"
        using channel.enqueue_outcome [OF c e ne] by (auto simp: alt_def)
      have nf: "\<not> queue_full items cap (queue_of st1 (dt_class t) v)" using v(5) by (simp add: queue_full_def)
      then have "stored_last items cap copy (queue_of st1 (dt_class t) v) q2"
        using v(4) unfolding channel.took_def [OF c] stored_last_def by (auto simp: queue_full_def)
      then show ?thesis using v(1-3) nf slice cp sp dd by (intro disjI2 exI [of _ copy] bexI [of _ v] exI [of _ q2]) simp_all
    qed
  qed
  note spare = this
  show ?thesis
    by (rule bexI [OF _ w(1)], rule exI [of _ q1]) (use w last full spare [unfolded st1_def] in \<open>simp only: Let_def simp_thms\<close>)
qed

definition sample_queue :: "(packet_buf queued_packet) list_queue packet_queue" where
  "sample_queue = packet_channel list_queue_ops 1 True"

definition sample_dispatcher :: "((packet_buf queued_packet) list_queue, bytes list_queue) dispatcher" where
  "sample_dispatcher = \<lparr>dp_store = \<lparr>ds_queue = (\<lambda>a. sample_queue), ds_healthy = (\<lambda>a. True)\<rparr>, dp_pool = new_pool list_queue_ops 4, dp_tracker = []\<rparr>"

lemma packet_reaches_healthy_worker_witness:
  "let ws = [sample_worker 1 1 ''a'', sample_worker 2 1 ''b'']; p = buf_of (replicate 2304 0);
       d' = snd (dispatch_now list_queue_ops list_queue_ops (replicate 2304 0) ws p (new_scheduler, sample_dispatcher))
   in \<exists>w\<in>set ws. \<exists>q1. stored_last lq_items lq_cap p sample_queue q1 \<and>
     (let st1 = put_queue (queue_for_class w Small) q1 (dp_store sample_dispatcher) in
        dp_store d' = st1 \<or> (\<exists>v\<in>set ws. \<exists>q2. dp_store d' = put_queue (queue_for_class v Small) q2 st1))"
proof -
  let ?ws = "[sample_worker 1 1 ''a'', sample_worker 2 1 ''b'']" and ?p = "buf_of (replicate 2304 0)" and ?d = sample_dispatcher
  obtain s' d' where run: "dispatch_now list_queue_ops list_queue_ops (replicate 2304 0) ?ws ?p (new_scheduler, ?d) = (s', d')" by force
  have c: "packet_class (as_slice ?p) = Small"
    by (simp add: as_slice_def buf_of_def subslice_def packet_class_def frame_payload_def decode_frame_def FRAME_LEN_def internet_transport_def
        version_nibble_def size_class_def)
  obtain s1 where b: "scheduler_begin ?ws (as_slice ?p) new_scheduler = (Some \<lparr>dt_slot = 0, dt_class = Small\<rparr>, s1)" "fs_workers s1 = ?ws"
    unfolding scheduler_begin_def c
    by (simp add: Let_def new_scheduler_def begin_for_class_def sync_worker_count_def default_cursor_def)
  have u: "\<forall>w\<in>set (fs_workers s1). is_healthy (dp_store ?d) w \<longrightarrow> lch.usable (queue_of (dp_store ?d) (dt_class \<lparr>dt_slot = 0, dt_class = Small\<rparr>) w)"
    by (simp add: queue_of_def lch.usable_def sample_dispatcher_def sample_queue_def packet_channel_def lch.channel_ok_def queue_active_bit
          QUEUE_ACTIVE_def list_queue_ops_def)
  have h: "sample_worker 1 1 ''a'' \<in> set (fs_workers s1)" "is_healthy (dp_store ?d) (sample_worker 1 1 ''a'')"
    by (simp_all add: b(2) is_healthy_def sample_dispatcher_def)
  have p: "packet_ok ?p" by (rule packet_ok_acquired) (simp add: PACKET_CAPACITY_def)
  have a: "\<forall>x p1. try_acquire list_queue_ops (replicate 2304 0) (dp_pool ?d) = Some (x, p1) \<longrightarrow> length (pb_storage x) = PACKET_CAPACITY"
    by (auto simp: sample_dispatcher_def try_acquire_def new_pool_def list_queue_ops_def buf_of_def PACKET_CAPACITY_def split: option.splits if_splits)
  have q: "queue_of (dp_store ?d) Small w = sample_queue" for w by (simp add: queue_of_def sample_dispatcher_def)
  show ?thesis using packet_reaches_healthy_worker [OF list_queue_laws run b(1) h u p a] unfolding b(2) Let_def q run
    by (simp add: q) blast
qed

end
