(* ===== verification/FlowReassembly.thy ===== *)
theory FlowReassembly
  imports FlowFrame
begin

text \<open>
  \<open>shared/flow_frame.rs\<close>, receiving side: \<open>FlowReassembler\<close> puts the frames of each flow back in
  order. A frame ahead of the expected one waits in the flow's \<open>pending\<close> vector; a gap is given
  up after 12 ms or when a window of 96 frames (4096 over all flows) is full.
\<close>

section \<open>Constants and data\<close>

definition MAX_PENDING_PER_FLOW :: nat where "MAX_PENDING_PER_FLOW = 96"
definition MAX_PENDING_TOTAL :: nat where "MAX_PENDING_TOTAL = 4096"
definition GAP_RELEASE_AFTER_MS :: nat where "GAP_RELEASE_AFTER_MS = 12"

record reassembly_key =
  rk_sender_id :: u64
  rk_flow_id :: u64

record 'a pending =
  pd_sequence :: u32
  pd_value :: 'a

record 'a flow_state =
  fs_expected :: u32
  fs_gap_started_ms :: "nat option"
  fs_pending :: "'a pending list"

record 'a flow_reassembler =
  fr_flows :: "(reassembly_key, 'a flow_state) hmap"
  fr_pending_total :: nat

definition new_reassembler :: "'a flow_reassembler" where
  "new_reassembler = \<lparr>fr_flows = [], fr_pending_total = 0\<rparr>"

definition new_flow_state :: "'a flow_state" where
  "new_flow_state = \<lparr>fs_expected = 0, fs_gap_started_ms = None, fs_pending = []\<rparr>"

section \<open>Operations\<close>

definition is_forward :: "u32 \<Rightarrow> u32 \<Rightarrow> bool" where
  "is_forward sequence expected \<longleftrightarrow> sequence \<noteq> expected \<and> sequence - expected < 2 ^ 31"

function drain_contiguous :: "'a flow_state \<Rightarrow> 'a list \<Rightarrow> 'a flow_state \<times> 'a list" where
  "drain_contiguous st out = (case position (\<lambda>p. pd_sequence p = fs_expected st) (fs_pending st) of
     None \<Rightarrow> (st, out)
   | Some i \<Rightarrow> drain_contiguous
       (st\<lparr>fs_expected := fs_expected st + 1, fs_pending := swap_remove (fs_pending st) i\<rparr>)
       (out @ [pd_value (fs_pending st ! i)]))"
  by pat_completeness auto
termination
  by (relation "measure (\<lambda>(st, out). length (fs_pending st))") (auto dest: position_SomeD)

declare drain_contiguous.simps [simp del]

definition forward_candidates :: "'a flow_state \<Rightarrow> (nat \<times> u32) list" where
  "forward_candidates st = [(i, pd_sequence p - fs_expected st).
     (i, p) \<leftarrow> enumerated (fs_pending st), is_forward (pd_sequence p) (fs_expected st)]"

definition release_lowest :: "'a flow_state \<Rightarrow> nat \<Rightarrow> 'a list \<Rightarrow> 'a flow_state \<times> 'a list" where
  "release_lowest st now_ms out = (case min_by_key snd (forward_candidates st) of
     None \<Rightarrow> (st\<lparr>fs_gap_started_ms := None\<rparr>, out)
   | Some (i, d) \<Rightarrow>
       let p = fs_pending st ! i;
           st1 = st\<lparr>fs_expected := pd_sequence p + 1, fs_gap_started_ms := None,
                    fs_pending := swap_remove (fs_pending st) i\<rparr>;
           (st2, out2) = drain_contiguous st1 (out @ [pd_value p])
       in (if fs_pending st2 \<noteq> [] then st2\<lparr>fs_gap_started_ms := Some now_ms\<rparr> else st2, out2))"

definition release_expired :: "'a flow_state \<Rightarrow> nat \<Rightarrow> 'a list \<Rightarrow> 'a flow_state \<times> 'a list" where
  "release_expired st now_ms out = (case fs_gap_started_ms st of
     None \<Rightarrow> (st, out)
   | Some started \<Rightarrow> if GAP_RELEASE_AFTER_MS \<le> now_ms - started then release_lowest st now_ms out
       else (st, out))"

text \<open>The body of \<open>push_at\<close> on one flow's state and the global counter. Every release is
  followed by the source's update of \<open>pending_total\<close>.\<close>

definition accounted :: "nat \<Rightarrow> 'a flow_state \<Rightarrow> 'a flow_state \<Rightarrow> nat" where
  "accounted tot old new = tot - (length (fs_pending old) - length (fs_pending new))"

definition enqueue_frame :: "frame_header \<Rightarrow> 'a \<Rightarrow> nat \<Rightarrow> nat \<Rightarrow> 'a flow_state \<Rightarrow> 'a list
    \<Rightarrow> nat \<times> 'a flow_state \<times> 'a list" where
  "enqueue_frame header v now_ms tot2 st2 out2 =
    (let (st3, out3) = (if tot2 = MAX_PENDING_TOTAL then release_lowest st2 now_ms out2
                        else (st2, out2));
         tot3 = accounted tot2 st2 st3 + 1;
         st4 = st3\<lparr>fs_pending := fs_pending st3 @ [\<lparr>pd_sequence = fh_sequence header, pd_value = v\<rparr>]\<rparr>;
         (st5, out5) = (if MAX_PENDING_TOTAL < tot3 then release_lowest st4 now_ms out3
                        else (st4, out3));
         tot5 = accounted tot3 st4 st5;
         st6 = (if fs_gap_started_ms st5 = None then st5\<lparr>fs_gap_started_ms := Some now_ms\<rparr> else st5);
         (st7, out7) = release_expired st6 now_ms out5
     in (accounted tot5 st6 st7, st7, out7))"

definition store_frame :: "frame_header \<Rightarrow> 'a \<Rightarrow> nat \<Rightarrow> nat \<Rightarrow> 'a flow_state \<Rightarrow> 'a list
    \<Rightarrow> nat \<times> 'a flow_state \<times> 'a list" where
  "store_frame header v now_ms tot1 st1 out1 =
    (let (st2, out2) = (if length (fs_pending st1) = MAX_PENDING_PER_FLOW
                        then release_lowest st1 now_ms out1 else (st1, out1));
         tot2 = accounted tot1 st1 st2
     in if tot2 = MAX_PENDING_TOTAL \<and> fs_pending st2 = [] then
          (tot2, st2\<lparr>fs_expected := fh_sequence header + 1, fs_gap_started_ms := None\<rparr>, out2 @ [v])
        else enqueue_frame header v now_ms tot2 st2 out2)"

definition push_frame :: "frame_header \<Rightarrow> 'a \<Rightarrow> nat \<Rightarrow> nat \<Rightarrow> 'a flow_state \<Rightarrow> 'a list
    \<Rightarrow> nat \<times> 'a flow_state \<times> 'a list" where
  "push_frame header v now_ms tot0 st0 out0 =
    (let (st1, out1) = release_expired st0 now_ms out0;
         tot1 = accounted tot0 st0 st1
     in if fh_sequence header = fs_expected st1 then
          let st2 = st1\<lparr>fs_expected := fs_expected st1 + 1, fs_gap_started_ms := None\<rparr>;
              (st3, out3) = drain_contiguous st2 (out1 @ [v])
          in (accounted tot1 st2 st3, st3, out3)
        else if \<not> is_forward (fh_sequence header) (fs_expected st1)
             \<or> (\<exists>p\<in>set (fs_pending st1). pd_sequence p = fh_sequence header) then (tot1, st1, out1)
        else store_frame header v now_ms tot1 st1 out1)"

definition frame_key :: "frame_header \<Rightarrow> reassembly_key" where
  "frame_key header = \<lparr>rk_sender_id = fh_sender_id header, rk_flow_id = fh_flow_id header\<rparr>"

definition push_at :: "frame_header \<Rightarrow> 'a \<Rightarrow> nat \<Rightarrow> 'a flow_reassembler \<Rightarrow> 'a list
    \<Rightarrow> 'a flow_reassembler \<times> 'a list" where
  "push_at header v now_ms r out =
    (let key = frame_key header;
         r1 = (if length (fr_flows r) = MAX_TRACKED_FLOWS \<and> \<not> hm_has (fr_flows r) key
               then \<lparr>fr_flows = [], fr_pending_total = 0\<rparr> else r);
         st = (case hm_get (fr_flows r1) key of None \<Rightarrow> new_flow_state | Some s \<Rightarrow> s);
         (tot, st', out') = push_frame header v now_ms (fr_pending_total r1) st out
     in (\<lparr>fr_flows = hm_put key st' (fr_flows r1), fr_pending_total = tot\<rparr>, out'))"

text \<open>A run of arrivals \<open>(header, value, arrival time)\<close>.\<close>

fun push_all :: "(frame_header \<times> 'a \<times> nat) list \<Rightarrow> 'a flow_reassembler \<Rightarrow> 'a list
    \<Rightarrow> 'a flow_reassembler \<times> 'a list" where
  "push_all [] r out = (r, out)"
| "push_all ((h, v, t) # xs) r out = (let (r1, out1) = push_at h v t r out in push_all xs r1 out1)"

section \<open>Releases\<close>

text \<open>A forward chain from \<open>e\<close> to \<open>e'\<close>: every frame lies less than half the sequence space
  ahead of the number expected when it is released, and the next expected number follows it.\<close>

fun forward_chain :: "u32 \<Rightarrow> u32 list \<Rightarrow> u32 \<Rightarrow> bool" where
  "forward_chain e [] e' = (e = e')"
| "forward_chain e (s # ss) e' = (s - e < 2 ^ 31 \<and> forward_chain (s + 1) ss e')"

lemma forward_chain_append:
  "forward_chain e xs e1 \<Longrightarrow> forward_chain e1 ys e2 \<Longrightarrow> forward_chain e (xs @ ys) e2"
  by (induction xs arbitrary: e) auto

definition releases :: "'a flow_state \<Rightarrow> 'a pending list \<Rightarrow> 'a flow_state \<Rightarrow> bool" where
  "releases st ps st' \<longleftrightarrow> forward_chain (fs_expected st) (map pd_sequence ps) (fs_expected st')
     \<and> mset (fs_pending st) = mset ps + mset (fs_pending st')"

lemma releases_refl [simp]: "releases st [] st"
  by (simp add: releases_def)

lemma releases_trans: "releases st ps st1 \<Longrightarrow> releases st1 qs st2 \<Longrightarrow> releases st (ps @ qs) st2"
  by (auto simp: releases_def intro: forward_chain_append)

lemma releases_gap [simp]:
  "releases (st\<lparr>fs_gap_started_ms := g\<rparr>) ps st' = releases st ps st'"
  "releases st ps (st'\<lparr>fs_gap_started_ms := g\<rparr>) = releases st ps st'"
  by (simp_all add: releases_def)

lemma releases_length: "releases st ps st' \<Longrightarrow> length (fs_pending st) = length ps + length (fs_pending st')"
  by (metis releases_def size_mset size_union)

lemma releases_one:
  assumes "i < length (fs_pending st)" "pd_sequence (fs_pending st ! i) - fs_expected st < 2 ^ 31"
  shows "releases st [fs_pending st ! i]
    (st\<lparr>fs_expected := pd_sequence (fs_pending st ! i) + 1, fs_gap_started_ms := g,
        fs_pending := swap_remove (fs_pending st) i\<rparr>)"
  using assms by (simp add: releases_def mset_swap_remove_add [OF assms(1)] del: mset_swap_remove)

lemma drain_releases:
  assumes "drain_contiguous st out = (st', out')"
  obtains ps where "releases st ps st'" "out' = out @ map pd_value ps"
    "\<forall>p\<in>set (fs_pending st'). pd_sequence p \<noteq> fs_expected st'"
    "fs_gap_started_ms st' = fs_gap_started_ms st"
proof -
  have "\<exists>ps. releases st ps st' \<and> out' = out @ map pd_value ps
    \<and> (\<forall>p\<in>set (fs_pending st'). pd_sequence p \<noteq> fs_expected st')
    \<and> fs_gap_started_ms st' = fs_gap_started_ms st"
    using assms
  proof (induction st out rule: drain_contiguous.induct)
    case (1 st out)
    show ?case
    proof (cases "position (\<lambda>p. pd_sequence p = fs_expected st) (fs_pending st)")
      case None
      hence "drain_contiguous st out = (st, out)" by (subst drain_contiguous.simps) (simp only: option.case)
      thus ?thesis using 1(2) None by (auto intro!: exI [of _ "[]"])
    next
      case (Some i)
      let ?p = "fs_pending st ! i"
      let ?st1 = "st\<lparr>fs_expected := fs_expected st + 1, fs_pending := swap_remove (fs_pending st) i\<rparr>"
      have i: "i < length (fs_pending st)" "pd_sequence ?p = fs_expected st"
        using position_SomeD [OF Some] by auto
      have first: "releases st [?p] ?st1"
        using releases_one [OF i(1), of "fs_gap_started_ms st"] i(2) by simp
      have "drain_contiguous ?st1 (out @ [pd_value ?p]) = (st', out')"
        using 1(2) Some by (simp add: drain_contiguous.simps [of st])
      from 1(1) [OF Some this] obtain ps where "releases ?st1 ps st'"
        "out' = (out @ [pd_value ?p]) @ map pd_value ps"
        "\<forall>p\<in>set (fs_pending st'). pd_sequence p \<noteq> fs_expected st'"
        "fs_gap_started_ms st' = fs_gap_started_ms st"
        by auto
      thus ?thesis using releases_trans [OF first] by (intro exI [of _ "?p # ps"]) fastforce
    qed
  qed
  thus thesis using that by blast
qed

lemma forward_candidates_iff:
  "(i, d) \<in> set (forward_candidates st) \<longleftrightarrow> i < length (fs_pending st)
     \<and> d = pd_sequence (fs_pending st ! i) - fs_expected st
     \<and> is_forward (pd_sequence (fs_pending st ! i)) (fs_expected st)"
  by (auto simp: forward_candidates_def set_enumerated)

lemma lowest_releases:
  assumes "release_lowest st now out = (st', out')"
  obtains ps where "releases st ps st'" "out' = out @ map pd_value ps"
    "ps = [] \<longleftrightarrow> (\<forall>p\<in>set (fs_pending st). \<not> is_forward (pd_sequence p) (fs_expected st))"
    "ps = [] \<Longrightarrow> st' = st\<lparr>fs_gap_started_ms := None\<rparr>"
proof (cases "min_by_key snd (forward_candidates st)")
  case None
  hence none: "\<not> is_forward (pd_sequence p) (fs_expected st)" if "p \<in> set (fs_pending st)" for p
    using that forward_candidates_iff [of _ _ st] by (auto simp: in_set_conv_nth)
  show thesis
    by (rule that [of "[]"]) (use assms None none in \<open>auto simp: release_lowest_def\<close>)
next
  case (Some c)
  obtain i d where c: "c = (i, d)" by force
  have "(i, d) \<in> set (forward_candidates st)" using min_by_key_SomeD [OF Some] c by simp
  hence i: "i < length (fs_pending st)" "is_forward (pd_sequence (fs_pending st ! i)) (fs_expected st)"
    by (auto simp: forward_candidates_iff)
  let ?p = "fs_pending st ! i"
  let ?st1 = "st\<lparr>fs_expected := pd_sequence ?p + 1, fs_gap_started_ms := None,
                  fs_pending := swap_remove (fs_pending st) i\<rparr>"
  obtain st2 out2 where dr: "drain_contiguous ?st1 (out @ [pd_value ?p]) = (st2, out2)" by force
  obtain ps where ps: "releases ?st1 ps st2" "out2 = (out @ [pd_value ?p]) @ map pd_value ps"
    using drain_releases [OF dr] by blast
  have one: "releases st [?p] ?st1" using releases_one [OF i(1)] i(2) by (simp add: is_forward_def)
  have res: "st' = (if fs_pending st2 \<noteq> [] then st2\<lparr>fs_gap_started_ms := Some now\<rparr> else st2)" "out' = out2"
    using assms Some c dr by (auto simp: release_lowest_def Let_def)
  have rel: "releases st (?p # ps) st'" using releases_trans [OF one ps(1)] res by simp
  show thesis
    by (rule that [OF rel]) (use ps res i in \<open>auto dest: nth_mem\<close>)
qed

lemma expired_releases:
  assumes "release_expired st now out = (st', out')"
  obtains ps where "releases st ps st'" "out' = out @ map pd_value ps"
proof (cases "fs_gap_started_ms st")
  case None
  thus thesis using assms that [of "[]"] by (simp add: release_expired_def)
next
  case (Some g)
  show thesis
  proof (cases "GAP_RELEASE_AFTER_MS \<le> now - g")
    case True
    hence "release_lowest st now out = (st', out')" using assms Some by (simp add: release_expired_def)
    thus thesis by (rule lowest_releases) (use that in blast)
  next
    case False
    thus thesis using assms Some that [of "[]"] by (simp add: release_expired_def)
  qed
qed

section \<open>One push as a sequence of stages\<close>

text \<open>A stage takes in the frames \<open>N\<close>, releases the chain \<open>ps\<close> and keeps the global counter
  in step with the flow's vector.\<close>

definition stage :: "'a flow_state \<Rightarrow> nat \<Rightarrow> 'a pending multiset \<Rightarrow> 'a pending list
    \<Rightarrow> 'a flow_state \<Rightarrow> nat \<Rightarrow> bool" where
  "stage st tot N ps st' tot' \<longleftrightarrow>
     forward_chain (fs_expected st) (map pd_sequence ps) (fs_expected st')
   \<and> mset ps + mset (fs_pending st') \<subseteq># N + mset (fs_pending st)
   \<and> tot' + length (fs_pending st) = tot + length (fs_pending st')
   \<and> (distinct (map pd_sequence (fs_pending st)) \<longrightarrow> distinct (map pd_sequence (fs_pending st')))"

lemma stage_trans:
  assumes "stage a t M ps b t1" "stage b t1 N qs c t2"
  shows "stage a t (M + N) (ps @ qs) c t2"
proof -
  have "mset ps + (mset qs + mset (fs_pending c)) \<subseteq># mset ps + (N + mset (fs_pending b))"
    using assms(2) by (auto simp: stage_def)
  also have "\<dots> = N + (mset ps + mset (fs_pending b))" by (simp add: ac_simps)
  also have "\<dots> \<subseteq># N + (M + mset (fs_pending a))"
    using assms(1) by (auto simp: stage_def)
  finally show ?thesis
    using assms by (auto simp: stage_def ac_simps intro: forward_chain_append)
qed

lemma stage_length: "stage st t N ps st' t' \<Longrightarrow> length (fs_pending st) \<le> t \<Longrightarrow> length (fs_pending st') \<le> t'"
  by (auto simp: stage_def)

lemma distinct_map_submset:
  "mset xs \<subseteq># mset ys \<Longrightarrow> distinct (map f ys) \<Longrightarrow> distinct (map f xs)"
  by (metis distinct_append mset_eq_imp_distinct_iff mset_append mset_map mset_subset_eq_exists_conv
        image_mset_union ex_mset)

lemma releases_stage:
  assumes "releases st ps st'" "length (fs_pending st) \<le> tot"
  shows "stage st tot {#} ps st' (accounted tot st st')" "accounted tot st st' + length ps = tot"
proof -
  have "mset (fs_pending st') \<subseteq># mset (fs_pending st)" using assms by (simp add: releases_def)
  thus "stage st tot {#} ps st' (accounted tot st st')"
    using assms releases_length [OF assms(1)] distinct_map_submset [of "fs_pending st'" "fs_pending st" pd_sequence]
    by (auto simp: stage_def releases_def accounted_def)
  show "accounted tot st st' + length ps = tot"
    using assms releases_length [OF assms(1)] by (simp add: accounted_def)
qed

lemma stage_gap [simp]: "stage st t N ps (st'\<lparr>fs_gap_started_ms := g\<rparr>) t' = stage st t N ps st' t'"
  by (simp add: stage_def)

lemma stage_refl: "stage st t {#} [] st t"
  by (simp add: stage_def)

lemma stage_drop: "stage st t {#} ps st' t' \<Longrightarrow> stage st t N ps st' t'"
  unfolding stage_def by (auto intro: subset_mset.order_trans [OF _ mset_subset_eq_add_right])

lemma stage_store:
  "pd_sequence p \<notin> pd_sequence ` set (fs_pending st)
   \<Longrightarrow> stage st t {#p#} [] (st\<lparr>fs_pending := fs_pending st @ [p]\<rparr>) (t + 1)"
  by (auto simp: stage_def)

lemma stage_deliver:
  "pd_sequence p - fs_expected st < 2 ^ 31
   \<Longrightarrow> stage st t {#p#} [p] (st\<lparr>fs_expected := pd_sequence p + 1, fs_gap_started_ms := g\<rparr>) t"
  by (auto simp: stage_def)

lemma accounted_self [simp]: "accounted t st st = t"
  by (simp add: accounted_def)

lemma accounted_gap [simp]:
  "accounted t (st\<lparr>fs_gap_started_ms := g\<rparr>) st' = accounted t st st'"
  "accounted t st (st'\<lparr>fs_gap_started_ms := g\<rparr>) = accounted t st st'"
  by (simp_all add: accounted_def)

lemma lowest_stage:
  assumes "release_lowest st now out = (st', out')" "length (fs_pending st) \<le> tot"
  obtains ps where "stage st tot {#} ps st' (accounted tot st st')" "out' = out @ map pd_value ps"
    "accounted tot st st' + length ps = tot"
    "ps = [] \<longleftrightarrow> (\<forall>p\<in>set (fs_pending st). \<not> is_forward (pd_sequence p) (fs_expected st))"
    "ps = [] \<Longrightarrow> st' = st\<lparr>fs_gap_started_ms := None\<rparr>"
  using lowest_releases [OF assms(1)] releases_stage [OF _ assms(2)] by metis

lemma expired_stage:
  assumes "release_expired st now out = (st', out')" "length (fs_pending st) \<le> tot"
  obtains ps where "stage st tot {#} ps st' (accounted tot st st')" "out' = out @ map pd_value ps"
    "accounted tot st st' + length ps = tot"
  using expired_releases [OF assms(1)] releases_stage [OF _ assms(2)] by metis

lemma drain_stage:
  assumes "drain_contiguous st out = (st', out')" "length (fs_pending st) \<le> tot"
  obtains ps where "stage st tot {#} ps st' (accounted tot st st')" "out' = out @ map pd_value ps"
    "accounted tot st st' + length ps = tot"
  using drain_releases [OF assms(1)] releases_stage [OF _ assms(2)] by metis

text \<open>Storing a frame ahead of the expected one: the counter stays at most 4096. In the last
  release of the source's three the frame just stored is itself a candidate.\<close>

lemma store_room:
  assumes st: "length (fs_pending st) \<le> tot" "tot \<le> MAX_PENDING_TOTAL"
    and fwd: "tot = MAX_PENDING_TOTAL \<Longrightarrow> is_forward s (fs_expected st)"
    and low: "(st', out') = (if c then release_lowest st now out else (st, out))"
  obtains ps where "stage st tot {#} ps st' (accounted tot st st')" "out' = out @ map pd_value ps"
    "accounted tot st st' \<le> MAX_PENDING_TOTAL"
    "accounted tot st st' = MAX_PENDING_TOTAL \<Longrightarrow> is_forward s (fs_expected st')"
proof (cases c)
  case True
  hence "release_lowest st now out = (st', out')" using low by simp
  then obtain ps where ps: "stage st tot {#} ps st' (accounted tot st st')"
    "out' = out @ map pd_value ps" "accounted tot st st' + length ps = tot"
    "ps = [] \<Longrightarrow> st' = st\<lparr>fs_gap_started_ms := None\<rparr>"
    using lowest_stage st(1) by metis
  have "is_forward s (fs_expected st')" if full: "accounted tot st st' = MAX_PENDING_TOTAL"
  proof -
    have "length ps = 0" "tot = MAX_PENDING_TOTAL" using ps(3) st(2) full by linarith+
    thus ?thesis using ps(4) fwd by simp
  qed
  thus thesis using that ps st(2) by auto
next
  case False
  thus thesis using low st fwd that [of "[]"] stage_refl by auto
qed

lemma store_third:
  assumes st: "length (fs_pending st4) \<le> tot3" "tot3 \<le> MAX_PENDING_TOTAL + 1"
    and fwd: "tot3 = MAX_PENDING_TOTAL + 1 \<Longrightarrow> \<exists>p\<in>set (fs_pending st4). is_forward (pd_sequence p) (fs_expected st4)"
    and low: "(st5, out5) = (if MAX_PENDING_TOTAL < tot3 then release_lowest st4 now out3 else (st4, out3))"
  obtains ps where "stage st4 tot3 {#} ps st5 (accounted tot3 st4 st5)" "out5 = out3 @ map pd_value ps"
    "accounted tot3 st4 st5 \<le> MAX_PENDING_TOTAL"
proof (cases "MAX_PENDING_TOTAL < tot3")
  case True
  hence "release_lowest st4 now out3 = (st5, out5)" and full: "tot3 = MAX_PENDING_TOTAL + 1"
    using low st(2) by auto
  then obtain ps where ps: "stage st4 tot3 {#} ps st5 (accounted tot3 st4 st5)"
    "out5 = out3 @ map pd_value ps" "accounted tot3 st4 st5 + length ps = tot3"
    "ps = [] \<longleftrightarrow> (\<forall>p\<in>set (fs_pending st4). \<not> is_forward (pd_sequence p) (fs_expected st4))"
    using lowest_stage st(1) by metis
  have "length ps > 0" using ps(4) fwd [OF full] by auto
  hence "accounted tot3 st4 st5 \<le> MAX_PENDING_TOTAL" using ps(3) full by linarith
  thus thesis using that ps by blast
next
  case False
  thus thesis using low st that [of "[]"] stage_refl by auto
qed

lemma forward_distance: "is_forward s e \<Longrightarrow> s - e < 2 ^ 31"
  by (simp add: is_forward_def)

lemma stage_seqs:
  "stage st t {#} ps st' t' \<Longrightarrow> pd_sequence ` set (fs_pending st') \<subseteq> pd_sequence ` set (fs_pending st)"
  unfolding stage_def
  by (metis add_0 image_mono mset_subset_eq_add_right set_mset_mono set_mset_mset subset_mset.order_trans)

lemma enqueue_frame_stage:
  fixes v :: 'a
  assumes run: "enqueue_frame header v now tot2 st2 out2 = (tot', st', out')"
    and len2: "length (fs_pending st2) \<le> tot2" and tot2: "tot2 \<le> MAX_PENDING_TOTAL"
    and fwd: "tot2 = MAX_PENDING_TOTAL \<Longrightarrow> is_forward (fh_sequence header) (fs_expected st2)"
    and new: "fh_sequence header \<notin> pd_sequence ` set (fs_pending st2)"
  obtains ps where "stage st2 tot2 {#\<lparr>pd_sequence = fh_sequence header, pd_value = v\<rparr>#} ps st' tot'"
    "out' = out2 @ map pd_value ps" "tot' \<le> MAX_PENDING_TOTAL"
proof -
  let ?s = "fh_sequence header" and ?p = "\<lparr>pd_sequence = fh_sequence header, pd_value = v\<rparr>"
  obtain st3 out3 where e3: "(st3, out3) = (if tot2 = MAX_PENDING_TOTAL
    then release_lowest st2 now out2 else (st2, out2))" by (metis surj_pair)
  obtain p2 where p2: "stage st2 tot2 {#} p2 st3 (accounted tot2 st2 st3)" "out3 = out2 @ map pd_value p2"
    "accounted tot2 st2 st3 \<le> MAX_PENDING_TOTAL"
    "accounted tot2 st2 st3 = MAX_PENDING_TOTAL \<Longrightarrow> is_forward ?s (fs_expected st3)"
    using store_room [OF len2 tot2 fwd e3] by blast
  define tot3 where "tot3 = accounted tot2 st2 st3 + 1"
  define st4 where "st4 = st3\<lparr>fs_pending := fs_pending st3 @ [?p]\<rparr>"
  have s3: "stage st3 (accounted tot2 st2 st3) {#?p#} [] st4 tot3"
    unfolding st4_def tot3_def using new stage_seqs [OF p2(1)] by (intro stage_store) auto
  obtain st5 out5 where e5: "(st5, out5) = (if MAX_PENDING_TOTAL < tot3
    then release_lowest st4 now out3 else (st4, out3))" by (metis surj_pair)
  have len4: "length (fs_pending st4) \<le> tot3"
    by (rule stage_length [OF s3 stage_length [OF p2(1) len2]])
  have "\<exists>p\<in>set (fs_pending st4). is_forward (pd_sequence p) (fs_expected st4)"
    if "tot3 = MAX_PENDING_TOTAL + 1" using p2(4) that by (auto simp: tot3_def st4_def)
  then obtain p3 where p3: "stage st4 tot3 {#} p3 st5 (accounted tot3 st4 st5)"
    "out5 = out3 @ map pd_value p3" "accounted tot3 st4 st5 \<le> MAX_PENDING_TOTAL"
    using store_third [OF len4 _ _ e5] p2(3) unfolding tot3_def by (metis add_le_mono1)
  define st6 where "st6 = (if fs_gap_started_ms st5 = None then st5\<lparr>fs_gap_started_ms := Some now\<rparr> else st5)"
  have s6: "stage st4 tot3 {#} p3 st6 (accounted tot3 st4 st5)" using p3(1) by (simp add: st6_def)
  obtain st7 out7 where e7: "release_expired st6 now out5 = (st7, out7)" by force
  obtain p4 where p4: "stage st6 (accounted tot3 st4 st5) {#} p4 st7 (accounted (accounted tot3 st4 st5) st6 st7)"
    "out7 = out5 @ map pd_value p4"
    "accounted (accounted tot3 st4 st5) st6 st7 + length p4 = accounted tot3 st4 st5"
    using expired_stage [OF e7 stage_length [OF s6 len4]] by blast
  have res: "tot' = accounted (accounted tot3 st4 st5) st6 st7" "st' = st7" "out' = out7"
    using run e7 unfolding enqueue_frame_def Let_def e3 [symmetric] prod.case tot3_def [symmetric]
      st4_def [symmetric] e5 [symmetric] st6_def [symmetric] by auto
  show thesis
    using that [of "p2 @ p3 @ p4"] p2(2) p3(2,3) p4(2,3) res
      stage_trans [OF p2(1) stage_trans [OF s3 stage_trans [OF s6 p4(1)]]] by auto
qed

lemma store_frame_stage:
  fixes v :: 'a
  assumes run: "store_frame header v now tot1 st1 out1 = (tot', st', out')"
    and st: "length (fs_pending st1) \<le> tot1" "tot1 \<le> MAX_PENDING_TOTAL"
    and fwd: "is_forward (fh_sequence header) (fs_expected st1)"
    and new: "fh_sequence header \<notin> pd_sequence ` set (fs_pending st1)"
  obtains ps where "stage st1 tot1 {#\<lparr>pd_sequence = fh_sequence header, pd_value = v\<rparr>#} ps st' tot'"
    "out' = out1 @ map pd_value ps" "tot' \<le> MAX_PENDING_TOTAL"
proof -
  let ?s = "fh_sequence header" and ?p = "\<lparr>pd_sequence = fh_sequence header, pd_value = v\<rparr>"
  obtain st2 out2 where e2: "(st2, out2) = (if length (fs_pending st1) = MAX_PENDING_PER_FLOW
                then release_lowest st1 now out1 else (st1, out1))" by (metis surj_pair)
  define tot2 where "tot2 = accounted tot1 st1 st2"
  obtain p1 where p1: "stage st1 tot1 {#} p1 st2 tot2" "out2 = out1 @ map pd_value p1"
    "tot2 \<le> MAX_PENDING_TOTAL" "tot2 = MAX_PENDING_TOTAL \<Longrightarrow> is_forward ?s (fs_expected st2)"
    using store_room [OF st fwd e2] unfolding tot2_def by blast
  note run' = run [unfolded store_frame_def Let_def e2 [symmetric] prod.case tot2_def [symmetric]]
  have "\<exists>ps. stage st2 tot2 {#?p#} ps st' tot' \<and> out' = out2 @ map pd_value ps \<and> tot' \<le> MAX_PENDING_TOTAL"
  proof (cases "tot2 = MAX_PENDING_TOTAL \<and> fs_pending st2 = []")
    case True
    thus ?thesis using run' p1(4) by (intro exI [of _ "[?p]"]) (auto simp: stage_def is_forward_def)
  next
    case False
    hence "enqueue_frame header v now tot2 st2 out2 = (tot', st', out')" using run' by (simp only: if_False)
    thus ?thesis
      by (rule enqueue_frame_stage [OF _ stage_length [OF p1(1) st(1)] p1(3,4)])
         (use new stage_seqs [OF p1(1)] in blast)+
  qed
  then obtain ps where "stage st2 tot2 {#?p#} ps st' tot'" "out' = out2 @ map pd_value ps"
    "tot' \<le> MAX_PENDING_TOTAL" by blast
  thus thesis using that [of "p1 @ ps"] stage_trans [OF p1(1)] p1(2) by fastforce
qed

text \<open>The whole of \<open>push_at\<close> on one flow, whatever the branch taken.\<close>

lemma push_frame_stage:
  fixes v :: 'a
  assumes run: "push_frame header v now tot st out = (tot', st', out')"
    and st: "length (fs_pending st) \<le> tot" "tot \<le> MAX_PENDING_TOTAL"
  obtains ps where "stage st tot {#\<lparr>pd_sequence = fh_sequence header, pd_value = v\<rparr>#} ps st' tot'"
    "out' = out @ map pd_value ps" "tot' \<le> MAX_PENDING_TOTAL"
proof -
  let ?s = "fh_sequence header" and ?p = "\<lparr>pd_sequence = fh_sequence header, pd_value = v\<rparr>"
  obtain st1 out1 where e1: "release_expired st now out = (st1, out1)" by force
  define tot1 where "tot1 = accounted tot st st1"
  obtain p1 where p1: "stage st tot {#} p1 st1 tot1" "out1 = out @ map pd_value p1" "tot1 + length p1 = tot"
    using expired_stage [OF e1 st(1)] unfolding tot1_def by blast
  have len1: "length (fs_pending st1) \<le> tot1" by (rule stage_length [OF p1(1) st(1)])
  have tot1: "tot1 \<le> MAX_PENDING_TOTAL" using p1(3) st(2) by simp
  note run' = run [unfolded push_frame_def Let_def e1 prod.case tot1_def [symmetric]]
  have "\<exists>ps. stage st1 tot1 {#?p#} ps st' tot' \<and> out' = out1 @ map pd_value ps \<and> tot' \<le> MAX_PENDING_TOTAL"
  proof (cases "?s = fs_expected st1")
    case True
    let ?st2 = "st1\<lparr>fs_expected := ?s + 1, fs_gap_started_ms := None\<rparr>"
    obtain st3 out3 where e3: "drain_contiguous ?st2 (out1 @ [v]) = (st3, out3)" by force
    obtain p3 where p3: "stage ?st2 tot1 {#} p3 st3 (accounted tot1 ?st2 st3)"
      "out3 = (out1 @ [v]) @ map pd_value p3" "accounted tot1 ?st2 st3 + length p3 = tot1"
      using drain_stage [OF e3] len1 by auto
    have "stage st1 tot1 {#?p#} [?p] ?st2 tot1" by (auto simp: stage_def True)
    thus ?thesis using stage_trans [OF _ p3(1)] run' True e3 p3 tot1
      by (intro exI [of _ "?p # p3"]) fastforce
  next
    case False
    show ?thesis
    proof (cases "\<not> is_forward ?s (fs_expected st1) \<or> (\<exists>p\<in>set (fs_pending st1). pd_sequence p = ?s)")
      case True
      thus ?thesis using run' False tot1 stage_drop [OF stage_refl] by (intro exI [of _ "[]"]) auto
    next
      case fresh: False
      hence "store_frame header v now tot1 st1 out1 = (tot', st', out')" using run' False by simp
      thus ?thesis by (rule store_frame_stage [OF _ len1 tot1]) (use fresh in auto)
    qed
  qed
  then obtain ps where "stage st1 tot1 {#?p#} ps st' tot'" "out' = out1 @ map pd_value ps"
    "tot' \<le> MAX_PENDING_TOTAL" by blast
  thus thesis using that [of "p1 @ ps"] stage_trans [OF p1(1)] p1(2) by fastforce
qed

section \<open>The table of flows\<close>

definition flow_of :: "'a flow_reassembler \<Rightarrow> reassembly_key \<Rightarrow> 'a flow_state" where
  "flow_of r k = (case hm_get (fr_flows r) k of None \<Rightarrow> new_flow_state | Some st \<Rightarrow> st)"

definition pending_count :: "'a flow_state \<Rightarrow> nat" where
  "pending_count st = length (fs_pending st)"

definition reassembler_ok :: "'a flow_reassembler \<Rightarrow> bool" where
  "reassembler_ok r \<longleftrightarrow> hm_ok (fr_flows r) \<and> length (fr_flows r) \<le> MAX_TRACKED_FLOWS
     \<and> fr_pending_total r = hm_sum pending_count (fr_flows r) \<and> fr_pending_total r \<le> MAX_PENDING_TOTAL
     \<and> (\<forall>(k, st)\<in>set (fr_flows r). distinct (map pd_sequence (fs_pending st)))"

definition table_for :: "frame_header \<Rightarrow> 'a flow_reassembler \<Rightarrow> 'a flow_reassembler" where
  "table_for h r = (if length (fr_flows r) = MAX_TRACKED_FLOWS \<and> \<not> hm_has (fr_flows r) (frame_key h)
     then \<lparr>fr_flows = [], fr_pending_total = 0\<rparr> else r)"

lemma push_at_alt:
  "push_at h v now r out =
    (let r1 = table_for h r;
         (tot, st', out') = push_frame h v now (fr_pending_total r1) (flow_of r1 (frame_key h)) out
     in (\<lparr>fr_flows = hm_put (frame_key h) st' (fr_flows r1), fr_pending_total = tot\<rparr>, out'))"
  by (simp add: push_at_def table_for_def flow_of_def Let_def)

lemma reassembler_ok_new [inv_intros]: "reassembler_ok new_reassembler"
  by (simp add: reassembler_ok_def new_reassembler_def)

lemma reassembler_ok_table: "reassembler_ok r \<Longrightarrow> reassembler_ok (table_for h r)"
  by (simp add: reassembler_ok_def table_for_def)

lemma table_for_room:
  "reassembler_ok r \<Longrightarrow> hm_has (fr_flows (table_for h r)) (frame_key h)
     \<or> length (fr_flows (table_for h r)) < MAX_TRACKED_FLOWS"
  by (auto simp: table_for_def reassembler_ok_def MAX_TRACKED_FLOWS_def)

lemma flow_of_count:
  assumes "reassembler_ok r"
  shows "pending_count (flow_of r k) \<le> fr_pending_total r"
    "distinct (map pd_sequence (fs_pending (flow_of r k)))"
    "fr_pending_total r = hm_sum pending_count (fr_flows r)"
  using assms hm_sum_get_le [of "fr_flows r" k _ pending_count] hm_get_Some_in [of "fr_flows r" k]
  by (auto simp: flow_of_def reassembler_ok_def new_flow_state_def pending_count_def
        split: option.splits dest!: bspec)

lemma hm_sum_flow_of:
  "hm_sum pending_count (hm_put k st (fr_flows r)) + pending_count (flow_of r k)
     = hm_sum pending_count (fr_flows r) + pending_count st"
  using hm_sum_put [of pending_count k st "fr_flows r"]
  by (auto simp: flow_of_def new_flow_state_def pending_count_def split: option.splits)

lemma push_at_stage:
  fixes v :: 'a
  assumes "reassembler_ok r" "push_at h v now r out = (r', out')"
  obtains ps st' where "fr_flows r' = hm_put (frame_key h) st' (fr_flows (table_for h r))"
    "stage (flow_of (table_for h r) (frame_key h)) (fr_pending_total (table_for h r))
       {#\<lparr>pd_sequence = fh_sequence h, pd_value = v\<rparr>#} ps st' (fr_pending_total r')"
    "out' = out @ map pd_value ps" "fr_pending_total r' \<le> MAX_PENDING_TOTAL"
proof -
  let ?r1 = "table_for h r"
  have ok1: "reassembler_ok ?r1" by (rule reassembler_ok_table [OF assms(1)])
  obtain tot st' o' where run: "push_frame h v now (fr_pending_total ?r1) (flow_of ?r1 (frame_key h)) out
    = (tot, st', o')" by (metis surj_pair)
  obtain ps where "stage (flow_of ?r1 (frame_key h)) (fr_pending_total ?r1)
       {#\<lparr>pd_sequence = fh_sequence h, pd_value = v\<rparr>#} ps st' tot"
    "o' = out @ map pd_value ps" "tot \<le> MAX_PENDING_TOTAL"
    by (rule push_frame_stage [OF run])
       (use flow_of_count(1) [OF ok1] ok1 in \<open>auto simp: reassembler_ok_def pending_count_def\<close>)
  moreover have "r' = \<lparr>fr_flows = hm_put (frame_key h) st' (fr_flows ?r1), fr_pending_total = tot\<rparr>" "out' = o'"
    using assms(2) run by (auto simp: push_at_alt Let_def)
  ultimately show thesis using that by simp
qed

lemma reassembler_ok_push_at [inv_intros]:
  assumes "reassembler_ok r" "push_at h v now r out = (r', out')"
  shows "reassembler_ok r'"
proof -
  let ?r1 = "table_for h r"
  have ok1: "reassembler_ok ?r1" by (rule reassembler_ok_table [OF assms(1)])
  obtain ps st' where s: "fr_flows r' = hm_put (frame_key h) st' (fr_flows ?r1)"
    "stage (flow_of ?r1 (frame_key h)) (fr_pending_total ?r1)
       {#\<lparr>pd_sequence = fh_sequence h, pd_value = v\<rparr>#} ps st' (fr_pending_total r')"
    "fr_pending_total r' \<le> MAX_PENDING_TOTAL"
    using push_at_stage [OF assms] by metis
  have "fr_pending_total r' = hm_sum pending_count (fr_flows r')"
    using hm_sum_flow_of [of "frame_key h" st' ?r1] flow_of_count [OF ok1] s
    by (auto simp: stage_def pending_count_def)
  moreover have "distinct (map pd_sequence (fs_pending st'))"
    using s(2) flow_of_count(2) [OF ok1] by (simp add: stage_def)
  moreover have "length (fr_flows r') \<le> MAX_TRACKED_FLOWS"
    using table_for_room [OF assms(1), of h] ok1 by (auto simp: s(1) length_hm_put reassembler_ok_def)
  ultimately show ?thesis
    using ok1 s set_hm_put_subset [of "frame_key h" st' "fr_flows ?r1"] by (auto simp: reassembler_ok_def)
qed

lemma reassembler_ok_push_all:
  "reassembler_ok r \<Longrightarrow> reassembler_ok (fst (push_all xs r out))"
proof (induction xs r out rule: push_all.induct)
  case (2 h v t xs r out)
  obtain r1 out1 where e: "push_at h v t r out = (r1, out1)" by force
  show ?case using 2(1) [OF e [symmetric] refl reassembler_ok_push_at [OF 2(2) e]] e by simp
qed simp

section \<open>Order and at-most-once delivery\<close>

text \<open>Values that carry their header: what is delivered of one flow, in order.\<close>

definition delivered :: "reassembly_key \<Rightarrow> (frame_header \<times> 'a) list \<Rightarrow> (frame_header \<times> 'a) list" where
  "delivered k out = [v \<leftarrow> out. frame_key (fst v) = k]"

definition seqs :: "(frame_header \<times> 'a) list \<Rightarrow> u32 list" where
  "seqs vs = map (\<lambda>v. fh_sequence (fst v)) vs"

definition with_header :: "frame_header \<times> 'a \<times> nat \<Rightarrow> frame_header \<times> (frame_header \<times> 'a) \<times> nat" where
  "with_header x = (case x of (h, v, t) \<Rightarrow> (h, (h, v), t))"

lemma with_header_simp [simp]: "with_header (h, v, t) = (h, (h, v), t)"
  by (simp add: with_header_def)

definition pushed :: "(frame_header \<times> 'a \<times> nat) list \<Rightarrow> (frame_header \<times> 'a) list" where
  "pushed xs = map (\<lambda>(h, v, t). (h, v)) xs"

definition tagged :: "reassembly_key \<Rightarrow> (frame_header \<times> 'a) pending \<Rightarrow> bool" where
  "tagged k p \<longleftrightarrow> frame_key (fst (pd_value p)) = k \<and> fh_sequence (fst (pd_value p)) = pd_sequence p"

definition ordered :: "(frame_header \<times> 'a) list \<Rightarrow> (frame_header \<times> 'a) flow_reassembler
    \<Rightarrow> (frame_header \<times> 'a) list \<Rightarrow> bool" where
  "ordered ins r out \<longleftrightarrow> (\<forall>k. forward_chain 0 (seqs (delivered k out)) (fs_expected (flow_of r k))
     \<and> mset (delivered k out) + mset (map pd_value (fs_pending (flow_of r k))) \<subseteq># mset (delivered k ins)
     \<and> (\<forall>p\<in>set (fs_pending (flow_of r k)). tagged k p))"

lemma delivered_append [simp]: "delivered k (xs @ ys) = delivered k xs @ delivered k ys"
  by (simp add: delivered_def)

lemma seqs_append [simp]: "seqs (xs @ ys) = seqs xs @ seqs ys"
  by (simp add: seqs_def)

lemma seqs_Nil [simp]: "seqs [] = []"
  by (simp add: seqs_def)

lemma delivered_tagged:
  "\<forall>p\<in>set ps. tagged k p \<Longrightarrow> delivered k' (map pd_value ps) = (if k' = k then map pd_value ps else [])
     \<and> seqs (map pd_value ps) = map pd_sequence ps"
  by (auto simp: delivered_def seqs_def tagged_def filter_empty_conv)

lemma flow_of_hm_put:
  "fr_flows r' = hm_put k st (fr_flows r) \<Longrightarrow> flow_of r' k' = (if k' = k then st else flow_of r k')"
  by (simp add: flow_of_def)

lemma ordered_push_at:
  assumes ok: "reassembler_ok r" and ord: "ordered ins r out" and room: "table_for h r = r"
    and run: "push_at h (h, v) now r out = (r', out')"
  shows "ordered (ins @ [(h, v)]) r' out'"
proof -
  let ?k = "frame_key h" and ?p = "\<lparr>pd_sequence = fh_sequence h, pd_value = (h, v)\<rparr>"
  obtain ps st' where s: "fr_flows r' = hm_put ?k st' (fr_flows r)"
    "stage (flow_of r ?k) (fr_pending_total r) {#?p#} ps st' (fr_pending_total r')"
    "out' = out @ map pd_value ps"
    using push_at_stage [OF ok run] room by metis
  have sub: "mset ps + mset (fs_pending st') \<subseteq># {#?p#} + mset (fs_pending (flow_of r ?k))"
    and chain: "forward_chain (fs_expected (flow_of r ?k)) (map pd_sequence ps) (fs_expected st')"
    using s(2) by (auto simp: stage_def)
  have tg: "\<forall>p\<in>set ps. tagged ?k p" "\<forall>p\<in>set (fs_pending st'). tagged ?k p"
    using set_mset_mono [OF sub] ord by (auto simp: ordered_def tagged_def subset_iff)
  note dt = delivered_tagged [OF tg(1)]
  have "mset (map pd_value ps) + mset (map pd_value (fs_pending st'))
      \<subseteq># add_mset (h, v) (mset (map pd_value (fs_pending (flow_of r ?k))))"
    using image_mset_subseteq_mono [OF sub, of pd_value] by simp
  hence "mset (delivered ?k out) + (mset (map pd_value ps) + mset (map pd_value (fs_pending st')))
      \<subseteq># mset (delivered ?k out) + add_mset (h, v) (mset (map pd_value (fs_pending (flow_of r ?k))))"
    by (rule subset_mset.add_left_mono)
  also have "\<dots> \<subseteq># add_mset (h, v) (mset (delivered ?k ins))"
    using ord by (simp add: ordered_def)
  finally have "mset (delivered ?k out') + mset (map pd_value (fs_pending st')) \<subseteq># mset (delivered ?k (ins @ [(h, v)]))"
    using dt by (simp add: s(3) ac_simps delivered_def [of ?k "[(h, v)]"])
  moreover have "forward_chain 0 (seqs (delivered ?k out')) (fs_expected st')"
    using ord chain dt by (auto simp: s(3) ordered_def intro: forward_chain_append)
  ultimately show ?thesis
    using ord dt tg(2) by (auto simp: ordered_def s(3) flow_of_hm_put [OF s(1)] delivered_def [of _ "[(h, v)]"])
qed

lemma ordered_new: "ordered [] new_reassembler []"
  by (simp add: ordered_def delivered_def seqs_def flow_of_def new_reassembler_def new_flow_state_def)

definition keys_of :: "(frame_header \<times> 'a \<times> nat) list \<Rightarrow> reassembly_key set" where
  "keys_of xs = (\<lambda>x. frame_key (fst x)) ` set xs"

lemma table_room:
  assumes "reassembler_ok r" "finite F" "card F \<le> MAX_TRACKED_FLOWS" "hm_keys (fr_flows r) \<subseteq> F"
    "frame_key h \<in> F"
  shows "table_for h r = r"
proof -
  have "length (fr_flows r) < MAX_TRACKED_FLOWS" if "\<not> hm_has (fr_flows r) (frame_key h)"
  proof -
    have "card (insert (frame_key h) (hm_keys (fr_flows r))) \<le> card F"
      using assms by (intro card_mono) auto
    thus ?thesis using assms(1,3) that by (simp add: reassembler_ok_def card_hm_keys hm_has_keys)
  qed
  thus ?thesis by (auto simp: table_for_def)
qed

lemma ordered_push_all:
  assumes "reassembler_ok r" "ordered ins r out" "finite F" "card F \<le> MAX_TRACKED_FLOWS"
    "hm_keys (fr_flows r) \<subseteq> F" "keys_of xs \<subseteq> F"
    "push_all (map with_header xs) r out = (r', out')"
  shows "ordered (ins @ pushed xs) r' out'"
  using assms
proof (induction xs arbitrary: r out ins)
  case Nil
  thus ?case by (simp add: pushed_def)
next
  case (Cons x xs)
  obtain h v t where x: "x = (h, v, t)" by (cases x)
  obtain r1 out1 where e: "push_at h (h, v) t r out = (r1, out1)" by force
  have same: "table_for h r = r"
    using Cons.prems by (intro table_room [of r F]) (auto simp: x keys_of_def)
  obtain ps st' where "fr_flows r1 = hm_put (frame_key h) st' (fr_flows (table_for h r))"
    by (rule push_at_stage [OF Cons.prems(1) e])
  hence "hm_keys (fr_flows r1) \<subseteq> F" using Cons.prems(5,6) by (simp add: same x keys_of_def)
  moreover have "push_all (map with_header xs) r1 out1 = (r', out')"
    using Cons.prems(7) e by (simp add: x)
  moreover have "reassembler_ok r1" by (rule reassembler_ok_push_at [OF Cons.prems(1) e])
  moreover have "ordered (ins @ [(h, v)]) r1 out1"
    by (rule ordered_push_at [OF Cons.prems(1,2) same e])
  moreover have "keys_of xs \<subseteq> F" using Cons.prems(6) by (auto simp: keys_of_def)
  ultimately have "ordered ((ins @ [(h, v)]) @ pushed xs) r' out'"
    using Cons.IH [of r1 "ins @ [(h, v)]" out1] Cons.prems(3,4) by blast
  thus ?case by (simp add: x pushed_def)
qed

text \<open>A forward chain visits increasing positions of the unbounded stream.\<close>

fun stream_positions :: "nat \<Rightarrow> u32 \<Rightarrow> u32 list \<Rightarrow> nat list" where
  "stream_positions n e [] = []"
| "stream_positions n e (s # ss) = (n + unat (s - e)) # stream_positions (n + unat (s - e) + 1) (s + 1) ss"

lemma stream_positions_word:
  "word_of_nat n = e \<Longrightarrow> map word_of_nat (stream_positions n e ss) = ss
     \<and> sorted_wrt (<) (stream_positions n e ss) \<and> (\<forall>m\<in>set (stream_positions n e ss). n \<le> m)"
proof (induction ss arbitrary: n e)
  case (Cons s ss)
  have "word_of_nat (n + unat (s - e)) = s" using Cons.prems by simp
  moreover from this have "word_of_nat (n + unat (s - e) + 1) = s + 1" by simp
  ultimately show ?case using Cons.IH [of "n + unat (s - e) + 1" "s + 1"]
    by (auto dest: Suc_leD simp: Suc_le_eq sorted_wrt.simps)
qed simp

section \<open>Properties\<close>

text \<open>C25: memory of the reassembler stays bounded whatever arrives and in whatever order: at most 4096
  flows are tracked, the global counter is exactly the number of frames waiting in all the
  flows, it never exceeds 4096, and no flow holds two frames of the same number.\<close>

theorem reassembly_memory:
  shows "reassembler_ok (fst (push_all xs new_reassembler out))"
  by (rule reassembler_ok_push_all [OF reassembler_ok_new])

text \<open>C2: for a run of arrivals over at most 4096 flows, what is delivered of each flow is a
  sub-multiset of what arrived of it (every frame at most once, nothing invented), and the
  sequence numbers delivered are strictly increasing positions of the flow's stream: a late or
  duplicated frame is never delivered behind a later one.\<close>

theorem reassembly_order:
  assumes "card (keys_of xs) \<le> MAX_TRACKED_FLOWS"
    and "push_all (map with_header xs) new_reassembler [] = (r, out)"
  shows "mset (delivered k out) \<subseteq># mset (delivered k (pushed xs))
    \<and> forward_chain 0 (seqs (delivered k out)) (fs_expected (flow_of r k))
    \<and> map word_of_nat (stream_positions 0 0 (seqs (delivered k out))) = seqs (delivered k out)
    \<and> sorted_wrt (<) (stream_positions 0 0 (seqs (delivered k out)))"
proof -
  have "ordered ([] @ pushed xs) r out"
    by (rule ordered_push_all [OF reassembler_ok_new ordered_new _ assms(1) _ _ assms(2)])
       (auto simp: new_reassembler_def keys_of_def)
  hence "forward_chain 0 (seqs (delivered k out)) (fs_expected (flow_of r k))"
    "mset (delivered k out) + mset (map pd_value (fs_pending (flow_of r k))) \<subseteq># mset (delivered k (pushed xs))"
    by (auto simp: ordered_def)
  thus ?thesis using stream_positions_word [of 0 0 "seqs (delivered k out)"]
    by (auto intro: subset_mset.order_trans [OF mset_subset_eq_add_left])
qed

lemma reassembly_order_witness:
  "let h = (\<lambda>n. \<lparr>fh_sender_id = 17, fh_flow_id = 23, fh_sequence = n\<rparr>);
       r = push_all (map with_header [(h 1, 10, 0), (h 0, 20, 1), (h 0, 30, 2 :: nat)]) new_reassembler []
   in map snd (snd r) = [20, 10 :: nat]
    \<and> mset (delivered (frame_key (h 0)) (snd r))
        \<subseteq># mset (delivered (frame_key (h 0)) (pushed [(h 1, 10, 0), (h 0, 20, 1), (h 0, 30, 2 :: nat)]))"
proof -
  let ?h = "\<lambda>n. \<lparr>fh_sender_id = 17, fh_flow_id = 23, fh_sequence = n\<rparr>"
  let ?xs = "[(?h 1, 10, 0), (?h 0, 20, 1), (?h 0, 30, 2 :: nat)] :: (frame_header \<times> nat \<times> nat) list"
  have "card (keys_of ?xs) \<le> MAX_TRACKED_FLOWS"
    by (simp add: keys_of_def frame_key_def MAX_TRACKED_FLOWS_def)
  from reassembly_order [OF this prod.collapse [symmetric], of "frame_key (?h 0)"]
  have "mset (delivered (frame_key (?h 0)) (snd (push_all (map with_header ?xs) new_reassembler [])))
        \<subseteq># mset (delivered (frame_key (?h 0)) (pushed ?xs))" by blast
  moreover have "map snd (snd (push_all (map with_header ?xs) new_reassembler [])) = [20, 10]"
    by code_simp
  ultimately show ?thesis by (simp only: Let_def)
qed

end
