(* ===== verification/FlowReorder.thy ===== *)
theory FlowReorder
  imports FlowReassembly
begin

text \<open>
  Losslessness of \<open>FlowReassembler\<close>: any permutation of a window of at most 97 frames that
  arrives within the 12 ms gap deadline is delivered complete and in order. The window is kept as
  the set of positions received so far.
\<close>

definition frame_at :: "(nat \<Rightarrow> 'a) \<Rightarrow> nat \<Rightarrow> 'a pending" where
  "frame_at f i = \<lparr>pd_sequence = word_of_nat i, pd_value = f i\<rparr>"

lemma frame_at_simps [simp]: "pd_sequence (frame_at f i) = word_of_nat i" "pd_value (frame_at f i) = f i"
  by (simp_all add: frame_at_def)

definition holds :: "(nat \<Rightarrow> 'a) \<Rightarrow> nat set \<Rightarrow> 'a pending list \<Rightarrow> bool" where
  "holds f P ps \<longleftrightarrow> mset ps = image_mset (frame_at f) (mset_set P)"

lemma holds_empty [simp]: "holds f {} ps \<longleftrightarrow> ps = []"
  by (simp add: holds_def)

lemma holds_set: "holds f P ps \<Longrightarrow> finite P \<Longrightarrow> set ps = frame_at f ` P"
  unfolding holds_def by (metis finite_set_mset_mset_set set_image_mset set_mset_mset)

lemma holds_length: "holds f P ps \<Longrightarrow> finite P \<Longrightarrow> length ps = card P"
  unfolding holds_def by (metis size_image_mset size_mset size_mset_set)

lemma holds_snoc: "holds f P ps \<Longrightarrow> finite P \<Longrightarrow> i \<notin> P \<Longrightarrow> holds f (insert i P) (ps @ [frame_at f i])"
  by (simp add: holds_def)

lemma word_of_nat_inj: "i < 2 ^ 32 \<Longrightarrow> j < 2 ^ 32 \<Longrightarrow> (word_of_nat i :: u32) = word_of_nat j \<longleftrightarrow> i = j"
  by (auto simp: word_of_nat_eq_iff take_bit_nat_eq_self)

lemma holds_remove:
  assumes "holds f P ps" "finite P" "P \<subseteq> {..<2 ^ 32}" "e < 2 ^ 32" "i < length ps"
    "pd_sequence (ps ! i) = word_of_nat e"
  shows "e \<in> P" "ps ! i = frame_at f e" "holds f (P - {e}) (swap_remove ps i)"
proof -
  obtain j where j: "j \<in> P" "ps ! i = frame_at f j"
    using nth_mem [OF assms(5)] holds_set [OF assms(1,2)] by auto
  have "j = e" using j assms(3,4,6) word_of_nat_inj [of j e] by auto
  thus e: "e \<in> P" "ps ! i = frame_at f e" using j by auto
  have "mset ps = add_mset (ps ! i) (mset (swap_remove ps i))"
    by (rule mset_swap_remove_add [OF assms(5)])
  moreover have "mset ps = add_mset (frame_at f e) (image_mset (frame_at f) (mset_set (P - {e})))"
    using assms(1,2) e(1) by (simp add: holds_def mset_set.remove [of P e])
  ultimately show "holds f (P - {e}) (swap_remove ps i)" using e(2) by (simp add: holds_def)
qed

text \<open>The first position from \<open>e\<close> on that is not in the set.\<close>

definition frontier :: "nat set \<Rightarrow> nat \<Rightarrow> nat \<Rightarrow> bool" where
  "frontier P e e' \<longleftrightarrow> e \<le> e' \<and> {e..<e'} \<subseteq> P \<and> e' \<notin> P"

lemma frontier_step:
  assumes "frontier (P - {e}) (Suc e) e'" "e \<in> P"
  shows "frontier P e e'" "P - {e} - {Suc e..<e'} = P - {e..<e'}" "[e..<e'] = e # [Suc e..<e']"
proof -
  have le: "Suc e \<le> e'" and sub: "{Suc e..<e'} \<subseteq> P - {e}" and out: "e' \<notin> P - {e}"
    using assms(1) by (auto simp: frontier_def)
  have eq: "{e..<e'} = insert e {Suc e..<e'}" using le by auto
  show "frontier P e e'" using le sub out assms(2) unfolding frontier_def eq by auto
  show "P - {e} - {Suc e..<e'} = P - {e..<e'}" unfolding eq by auto
  show "[e..<e'] = e # [Suc e..<e']" using le by (simp add: upt_conv_Cons)
qed

lemma drain_window_ex:
  assumes "holds f P (fs_pending st)" "P \<subseteq> {..<n}" "e \<le> n" "n < 2 ^ 32"
    "fs_expected st = word_of_nat e" "drain_contiguous st out = (st', out')"
  shows "\<exists>e'. frontier P e e' \<and> fs_expected st' = word_of_nat e'
    \<and> holds f (P - {e..<e'}) (fs_pending st') \<and> out' = out @ map f [e..<e']
    \<and> fs_gap_started_ms st' = fs_gap_started_ms st"
  using assms
proof (induction st out arbitrary: P e rule: drain_contiguous.induct)
  case (1 st out)
  have fin: "finite P" using 1(3) finite_subset by blast
  have P32: "P \<subseteq> {..<2 ^ 32}" using 1(3,5) by auto
  show ?case
  proof (cases "position (\<lambda>p. pd_sequence p = fs_expected st) (fs_pending st)")
    case None
    hence "drain_contiguous st out = (st, out)" by (subst drain_contiguous.simps) (simp only: option.case)
    moreover have "e \<notin> P" using None holds_set [OF 1(2) fin] 1(6) by auto
    ultimately show ?thesis using 1(2,6,7) by (intro exI [of _ e]) (auto simp: frontier_def)
  next
    case (Some i)
    let ?p = "fs_pending st ! i"
    let ?st1 = "st\<lparr>fs_expected := fs_expected st + 1, fs_pending := swap_remove (fs_pending st) i\<rparr>"
    have i: "i < length (fs_pending st)" "pd_sequence ?p = word_of_nat e"
      using position_SomeD [OF Some] 1(6) by auto
    have e32: "e < 2 ^ 32" using 1(4,5) by simp
    note e = holds_remove [OF 1(2) fin P32 e32 i]
    have dr: "drain_contiguous ?st1 (out @ [pd_value ?p]) = (st', out')"
      using 1(7) Some by (simp add: drain_contiguous.simps [of st])
    have "\<exists>e'. frontier (P - {e}) (Suc e) e' \<and> fs_expected st' = word_of_nat e'
      \<and> holds f (P - {e} - {Suc e..<e'}) (fs_pending st')
      \<and> out' = (out @ [pd_value ?p]) @ map f [Suc e..<e']
      \<and> fs_gap_started_ms st' = fs_gap_started_ms ?st1"
      by (rule 1(1) [OF Some _ _ _ 1(5) _ dr]) (use 1(3,6) e in auto)
    then obtain e' where e': "frontier (P - {e}) (Suc e) e'" "fs_expected st' = word_of_nat e'"
      "holds f (P - {e} - {Suc e..<e'}) (fs_pending st')"
      "out' = (out @ [pd_value ?p]) @ map f [Suc e..<e']"
      "fs_gap_started_ms st' = fs_gap_started_ms ?st1" by blast
    note fs = frontier_step [OF e'(1) e(1)]
    show ?thesis using e' fs e(2) by (intro exI [of _ e']) auto
  qed
qed

lemma drain_window:
  assumes "holds f P (fs_pending st)" "P \<subseteq> {..<n}" "e \<le> n" "n < 2 ^ 32"
    "fs_expected st = word_of_nat e" "drain_contiguous st out = (st', out')"
  obtains e' where "frontier P e e'" "fs_expected st' = word_of_nat e'"
    "holds f (P - {e..<e'}) (fs_pending st')" "out' = out @ map f [e..<e']"
    "fs_gap_started_ms st' = fs_gap_started_ms st"
  using drain_window_ex [OF assms] by blast

section \<open>One flow inside the window\<close>

text \<open>\<open>R\<close> is the set of positions received, \<open>e\<close> the first one missing.\<close>

definition window :: "(nat \<Rightarrow> 'a) \<Rightarrow> nat \<Rightarrow> nat set \<Rightarrow> nat \<Rightarrow> 'a flow_state \<Rightarrow> bool" where
  "window f t0 R e st \<longleftrightarrow> frontier R 0 e \<and> fs_expected st = word_of_nat e
     \<and> holds f (R - {..<e}) (fs_pending st)
     \<and> (\<forall>g. fs_gap_started_ms st = Some g \<longrightarrow> t0 \<le> g)"

lemma window_new: "window f t0 {} 0 new_flow_state"
  by (simp add: window_def frontier_def new_flow_state_def)

lemma window_no_expiry:
  assumes "window f t0 R e st" "t0 \<le> now" "now < t0 + GAP_RELEASE_AFTER_MS"
  shows "release_expired st now out = (st, out)"
  using assms by (fastforce simp: window_def release_expired_def split: option.splits)

lemma window_in_order:
  assumes w: "window f t0 R e st" and R: "R \<subseteq> {..<n}" "n < 2 ^ 31"
    and i: "e < n"
    and dr: "drain_contiguous (st\<lparr>fs_expected := fs_expected st + 1, fs_gap_started_ms := None\<rparr>)
       (out @ [f e]) = (st', out')"
  obtains e' where "window f t0 (insert e R) e' st'" "out' = out @ map f [e..<e']" "e \<le> e'"
proof -
  let ?st1 = "st\<lparr>fs_expected := fs_expected st + 1, fs_gap_started_ms := None\<rparr>"
  have fr: "{..<e} \<subseteq> R" "e \<notin> R" using w by (auto simp: window_def frontier_def lessThan_atLeast0)
  have "holds f (R - {..<e}) (fs_pending ?st1)" "fs_expected ?st1 = word_of_nat (Suc e)"
    using w by (auto simp: window_def)
  then obtain e' where e': "frontier (R - {..<e}) (Suc e) e'" "fs_expected st' = word_of_nat e'"
    "holds f (R - {..<e} - {Suc e..<e'}) (fs_pending st')" "out' = (out @ [f e]) @ map f [Suc e..<e']"
    "fs_gap_started_ms st' = fs_gap_started_ms ?st1"
    using drain_window [of f "R - {..<e}" ?st1 n "Suc e" "out @ [f e]" st' out'] R i dr by auto
  have le: "Suc e \<le> e'" and sub: "{Suc e..<e'} \<subseteq> R" and notin: "e' \<notin> R"
    using e'(1) by (auto simp: frontier_def)
  have split: "{..<e'} = {..<e} \<union> {e} \<union> {Suc e..<e'}" using le by auto
  hence "frontier (insert e R) 0 e'" using fr sub notin le by (auto simp: frontier_def atLeast0LessThan)
  moreover have "R - {..<e} - {Suc e..<e'} = insert e R - {..<e'}" unfolding split using fr by blast
  ultimately have "window f t0 (insert e R) e' st'" using e' by (simp add: window_def)
  moreover have "out' = out @ map f [e..<e']" using e'(4) le by (simp add: upt_conv_Cons)
  ultimately show thesis using that le by simp
qed

lemma window_stored:
  assumes w: "window f t0 R e st" and R: "R \<subseteq> {..<n}" and n: "n \<le> MAX_PENDING_PER_FLOW + 1"
    and i: "e < i" "i < n" "i \<notin> R"
  shows "length (fs_pending st) < MAX_PENDING_PER_FLOW"
    and "is_forward (word_of_nat i) (fs_expected st)"
    and "\<forall>p\<in>set (fs_pending st). pd_sequence p \<noteq> word_of_nat i"
proof -
  have n32: "n < 2 ^ 31" using n by (simp add: MAX_PENDING_PER_FLOW_def)
  have h: "holds f (R - {..<e}) (fs_pending st)" and ex: "fs_expected st = word_of_nat e" and e: "e \<notin> R"
    using w by (auto simp: window_def frontier_def)
  have fin: "finite (R - {..<e})" using R finite_subset by blast
  have "card (R - {..<e}) \<le> card ({..<n} - {e, i})"
    using R i e by (intro card_mono) auto
  also have "\<dots> = n - 2" using i by (simp add: card_Diff_subset)
  finally show "length (fs_pending st) < MAX_PENDING_PER_FLOW"
    using holds_length [OF h fin] n i by simp
  obtain k where k: "i = e + k" "k < 2 ^ 31" using i n32 by (metis le_add_diff_inverse less_imp_diff_less less_imp_le order.strict_trans)
  hence "(word_of_nat i :: u32) - word_of_nat e = word_of_nat k" by simp
  moreover have "(word_of_nat k :: u32) < 2 ^ 31"
    using k(2) by (simp add: word_less_nat_alt unat_of_nat take_bit_nat_eq_self)
  moreover have "(word_of_nat i :: u32) \<noteq> word_of_nat e"
    using word_of_nat_inj [of i e] i n32 by auto
  ultimately show "is_forward (word_of_nat i) (fs_expected st)" unfolding is_forward_def ex by metis
  show "\<forall>p\<in>set (fs_pending st). pd_sequence p \<noteq> word_of_nat i"
  proof
    fix p assume "p \<in> set (fs_pending st)"
    then obtain j where "j \<in> R" "pd_sequence p = word_of_nat j"
      unfolding holds_set [OF h fin] by force
    thus "pd_sequence p \<noteq> word_of_nat i"
      using word_of_nat_inj [of j i] R i n32 by auto
  qed
qed

lemma window_push:
  fixes f :: "nat \<Rightarrow> 'a"
  assumes w: "window f t0 R e st" and R: "R \<subseteq> {..<n}" and n: "n \<le> MAX_PENDING_PER_FLOW + 1"
    and i: "i < n" "i \<notin> R" and t: "t0 \<le> now" "now < t0 + GAP_RELEASE_AFTER_MS"
    and tot: "tot < MAX_PENDING_TOTAL"
    and h: "fh_sequence h = word_of_nat i"
    and run: "push_frame h (f i) now tot st out = (tot', st', out')"
  obtains e' where "window f t0 (insert i R) e' st'" "out' = out @ map f [e..<e']" "e \<le> e'" "tot' \<le> tot + 1"
proof -
  have n32: "n < 2 ^ 31" using n by (simp add: MAX_PENDING_PER_FLOW_def)
  have ex: "fs_expected st = word_of_nat e" and ee: "{..<e} \<subseteq> R"
    using w by (auto simp: window_def frontier_def lessThan_atLeast0)
  have ei: "e \<le> i" using ee i(2) not_less by blast
  note run1 = run [unfolded push_frame_def Let_def window_no_expiry [OF w t] prod.case accounted_self h]
  show thesis
  proof (cases "i = e")
    case True
    obtain s3 o3 where dr: "drain_contiguous (st\<lparr>fs_expected := fs_expected st + 1, fs_gap_started_ms := None\<rparr>)
       (out @ [f e]) = (s3, o3)" by force
    have res: "st' = s3" "out' = o3" "tot' \<le> tot" using run1 dr True ex by (auto simp: accounted_def)
    have "e < n" using i True by simp
    then obtain e' where "window f t0 (insert e R) e' s3" "o3 = out @ map f [e..<e']" "e \<le> e'"
      by (rule window_in_order [OF w R n32 _ dr])
    thus thesis using that res True by auto
  next
    case False
    have gt: "e < i" using ei False by simp
    note st = window_stored [OF w R n gt i]
    let ?st2 = "st\<lparr>fs_pending := fs_pending st @ [frame_at f i],
      fs_gap_started_ms := (if fs_gap_started_ms st = None then Some now else fs_gap_started_ms st)\<rparr>"
    have fin: "finite (R - {..<e})" using R finite_subset by blast
    have "insert i R - {..<e} = insert i (R - {..<e})" using gt by auto
    hence "holds f (insert i R - {..<e}) (fs_pending ?st2)"
      using w holds_snoc [of f "R - {..<e}" "fs_pending st" i] fin i gt by (simp add: window_def)
    moreover have "frontier (insert i R) 0 e" using w False by (auto simp: window_def frontier_def)
    ultimately have w2: "window f t0 (insert i R) e ?st2" using w t by (auto simp: window_def)
    have ne: "fh_sequence h \<noteq> fs_expected st" using st(2) by (simp add: h is_forward_def)
    have "push_frame h (f i) now tot st out = store_frame h (f i) now tot st out"
      using ne st(2,3) by (auto simp: push_frame_def Let_def window_no_expiry [OF w t] h)
    also have "\<dots> = enqueue_frame h (f i) now tot st out"
      using st(1) tot by (simp add: store_frame_def)
    also have "\<dots> = (tot + 1, ?st2, out)"
      using tot window_no_expiry [OF w2 t, of out]
      by (auto simp: enqueue_frame_def Let_def h frame_at_def accounted_def split: if_splits)
    finally show thesis using run that w2 by auto
  qed
qed

section \<open>A window of arrivals\<close>

definition stream_header :: "u64 \<Rightarrow> u64 \<Rightarrow> nat \<Rightarrow> frame_header" where
  "stream_header s fl i = \<lparr>fh_sender_id = s, fh_flow_id = fl, fh_sequence = word_of_nat i\<rparr>"

definition arrivals :: "u64 \<Rightarrow> u64 \<Rightarrow> (nat \<Rightarrow> 'a) \<Rightarrow> (nat \<times> nat) list \<Rightarrow> (frame_header \<times> 'a \<times> nat) list" where
  "arrivals s fl f xs = map (\<lambda>(i, t). (stream_header s fl i, f i, t)) xs"

lemma stream_header_simps [simp]:
  "fh_sequence (stream_header s fl i) = word_of_nat i"
  "frame_key (stream_header s fl i) = \<lparr>rk_sender_id = s, rk_flow_id = fl\<rparr>"
  by (simp_all add: stream_header_def frame_key_def)

definition has_room :: "reassembly_key \<Rightarrow> 'a flow_reassembler \<Rightarrow> bool" where
  "has_room k r \<longleftrightarrow> hm_has (fr_flows r) k \<or> length (fr_flows r) < MAX_TRACKED_FLOWS"

lemma has_room_table: "has_room (frame_key h) r \<Longrightarrow> table_for h r = r"
  by (auto simp: has_room_def table_for_def)

lemma window_run:
  assumes "window f t0 R e (flow_of r k)" "R \<subseteq> {..<n}" "n \<le> MAX_PENDING_PER_FLOW + 1"
    "set (map fst xs) \<subseteq> {..<n}" "distinct (map fst xs)" "set (map fst xs) \<inter> R = {}"
    "\<forall>x\<in>set xs. t0 \<le> snd x \<and> snd x < t0 + GAP_RELEASE_AFTER_MS"
    "fr_pending_total r + length xs \<le> MAX_PENDING_TOTAL" "has_room k r"
    "k = \<lparr>rk_sender_id = s, rk_flow_id = fl\<rparr>"
    "push_all (arrivals s fl f xs) r out = (r', out')"
  shows "\<exists>e'. window f t0 (R \<union> set (map fst xs)) e' (flow_of r' k) \<and> out' = out @ map f [e..<e'] \<and> e \<le> e'
    \<and> fr_pending_total r' \<le> fr_pending_total r + length xs"
  using assms
proof (induction xs arbitrary: R e r out)
  case Nil
  thus ?case by (auto simp: arrivals_def intro!: exI [of _ e])
next
  case (Cons x xs)
  obtain i t where x: "x = (i, t)" by force
  let ?h = "stream_header s fl i"
  have k: "frame_key ?h = k" using Cons.prems(10) by simp
  have same: "table_for ?h r = r" using has_room_table [of ?h r] Cons.prems(9) k by simp
  obtain tot st' o1 where pf: "push_frame ?h (f i) t (fr_pending_total r) (flow_of r k) out = (tot, st', o1)"
    by (metis surj_pair)
  define r1 where "r1 = \<lparr>fr_flows = hm_put k st' (fr_flows r), fr_pending_total = tot\<rparr>"
  have pa: "push_at ?h (f i) t r out = (r1, o1)" using pf by (simp add: push_at_alt same k r1_def del: stream_header_simps)
  obtain e1 where e1: "window f t0 (insert i R) e1 st'" "o1 = out @ map f [e..<e1]" "e \<le> e1"
    "tot \<le> fr_pending_total r + 1"
    by (rule window_push [OF Cons.prems(1,2,3) _ _ _ _ _ _ pf]) (use Cons.prems x in auto)
  have rest: "push_all (arrivals s fl f xs) r1 o1 = (r', out')"
    using Cons.prems(11) pa by (simp add: arrivals_def x)
  have "\<exists>e'. window f t0 (insert i R \<union> set (map fst xs)) e' (flow_of r' k) \<and> out' = o1 @ map f [e1..<e'] \<and> e1 \<le> e'
    \<and> fr_pending_total r' \<le> fr_pending_total r1 + length xs"
  proof (rule Cons.IH [OF _ _ Cons.prems(3) _ _ _ _ _ _ Cons.prems(10) rest])
    show "window f t0 (insert i R) e1 (flow_of r1 k)" using e1(1) by (simp add: flow_of_def r1_def)
    show "has_room k r1" by (simp add: has_room_def hm_has_get r1_def)
  qed (use Cons.prems x e1 in \<open>auto simp: r1_def\<close>)
  then obtain e' where "window f t0 (R \<union> set (map fst (x # xs))) e' (flow_of r' k)"
    "out' = o1 @ map f [e1..<e']" "e1 \<le> e'"
    "fr_pending_total r' \<le> fr_pending_total r1 + length xs" by (auto simp: x)
  moreover have "fr_pending_total r1 = tot" by (simp add: r1_def)
  moreover have "[e..<e1] @ [e1..<e'] = [e..<e']"
    using e1(3) calculation(3) by (metis le_add_diff_inverse upt_add_eq_append)
  ultimately show ?case using e1 by (intro exI [of _ e']) (auto simp flip: map_append)
qed

lemma reorder_window:
  assumes "hm_get (fr_flows r) \<lparr>rk_sender_id = s, rk_flow_id = fl\<rparr> = None"
    "length (fr_flows r) < MAX_TRACKED_FLOWS" "fr_pending_total r + n \<le> MAX_PENDING_TOTAL"
    "n \<le> MAX_PENDING_PER_FLOW + 1" "mset (map fst xs) = mset [0..<n]"
    "\<forall>x\<in>set xs. t0 \<le> snd x \<and> snd x < t0 + GAP_RELEASE_AFTER_MS"
  shows "snd (push_all (arrivals s fl f xs) r out) = out @ map f [0..<n]"
    "fs_pending (flow_of (fst (push_all (arrivals s fl f xs) r out)) \<lparr>rk_sender_id = s, rk_flow_id = fl\<rparr>) = []"
proof -
  let ?k = "\<lparr>rk_sender_id = s, rk_flow_id = fl\<rparr>"
  obtain r' out' where run: "push_all (arrivals s fl f xs) r out = (r', out')" by force
  have st: "set (map fst xs) = {..<n}" using assms(5) by (metis atLeast0LessThan mset_eq_setD set_upt)
  have di: "distinct (map fst xs)" using assms(5) by (metis distinct_upt mset_eq_imp_distinct_iff)
  have len: "length xs = n" using assms(5) by (metis length_map length_upt minus_nat.diff_0 size_mset)
  have "\<exists>e'. window f t0 ({} \<union> set (map fst xs)) e' (flow_of r' ?k) \<and> out' = out @ map f [0..<e'] \<and> 0 \<le> e'
      \<and> fr_pending_total r' \<le> fr_pending_total r + length xs"
    by (rule window_run [OF _ _ assms(4) _ di _ assms(6) _ _ refl run])
       (use assms window_new [of f t0] st len in \<open>auto simp: flow_of_def has_room_def\<close>)
  then obtain e' where e': "window f t0 {..<n} e' (flow_of r' ?k)" "out' = out @ map f [0..<e']"
    unfolding st by auto
  have "{0..<e'} \<subseteq> {..<n}" "e' \<notin> {..<n}" using e'(1) by (auto simp: window_def frontier_def)
  hence "e' = n" by (metis atLeast0LessThan lessThan_iff lessThan_subset_iff not_le order_antisym)
  thus "snd (push_all (arrivals s fl f xs) r out) = out @ map f [0..<n]"
    "fs_pending (flow_of (fst (push_all (arrivals s fl f xs) r out)) ?k) = []"
    using e' run by (simp_all add: window_def)
qed

section \<open>Overflow of the window\<close>

text \<open>When the window is full, \<open>push_at\<close> releases it and then stores the new frame without comparing
  its number with the new expected one. A frame that has become the expected one is thus kept where
  no release looks for it: only frames strictly ahead are candidates.\<close>

lemma forward_position:
  "e < i \<Longrightarrow> i < 2 ^ 31 \<Longrightarrow> is_forward (word_of_nat i) (word_of_nat e) \<and> unat ((word_of_nat i :: u32) - word_of_nat e) = i - e"
proof -
  assume i: "e < i" "i < 2 ^ 31"
  obtain k where k: "i = e + k" "k < 2 ^ 31" "0 < k"
    using i by (metis less_imp_add_positive less_imp_diff_less add_diff_cancel_left')
  have d: "(word_of_nat i :: u32) - word_of_nat e = word_of_nat k" by (simp add: k(1))
  have u: "unat (word_of_nat k :: u32) = k" using k(2) by (simp add: unat_of_nat take_bit_nat_eq_self)
  have "(word_of_nat k :: u32) < 2 ^ 31" using k(2) u by (simp add: word_less_nat_alt)
  moreover have "(word_of_nat i :: u32) \<noteq> word_of_nat e" using word_of_nat_inj [of i e] i by auto
  ultimately show ?thesis using d u k(1) by (auto simp: is_forward_def)
qed

lemma lowest_window:
  assumes h: "holds f P (fs_pending st)" and P: "P \<subseteq> {m..<n}" "m \<in> P" "e < m" "n < 2 ^ 31"
    and e: "fs_expected st = word_of_nat e" and run: "release_lowest st now out = (st', out')"
  obtains e' where "frontier P m e'" "fs_expected st' = word_of_nat e'"
    "holds f (P - {..<e'}) (fs_pending st')" "out' = out @ map f [m..<e']"
proof -
  have fin: "finite P" using P(1) finite_subset by blast
  have pos: "is_forward (word_of_nat j) (fs_expected st) \<and> unat ((word_of_nat j :: u32) - fs_expected st) = j - e"
    if "j \<in> P" for j using that P forward_position [of e j] e by auto
  obtain i0 where i0: "i0 < length (fs_pending st)" "fs_pending st ! i0 = frame_at f m"
    using holds_set [OF h fin] P(2) by (metis image_eqI in_set_conv_nth)
  hence "(i0, word_of_nat m - fs_expected st) \<in> set (forward_candidates st)"
    using pos [OF P(2)] by (simp add: forward_candidates_iff)
  then obtain i d where c: "min_by_key snd (forward_candidates st) = Some (i, d)"
    by (cases "min_by_key snd (forward_candidates st)") auto
  note md = min_by_key_SomeD [OF c]
  have i: "i < length (fs_pending st)" "d = pd_sequence (fs_pending st ! i) - fs_expected st"
    using md by (auto simp: forward_candidates_iff)
  obtain j where j: "j \<in> P" "fs_pending st ! i = frame_at f j"
    using nth_mem [OF i(1)] holds_set [OF h fin] by auto
  have "d \<le> word_of_nat m - fs_expected st"
    using md \<open>(i0, word_of_nat m - fs_expected st) \<in> set (forward_candidates st)\<close> by fastforce
  hence "unat d \<le> m - e" using pos [OF P(2)] by (simp add: word_le_nat_alt)
  moreover have "m \<le> j" using j(1) P(1) by auto
  ultimately have jm: "j = m" using pos [OF j(1)] i(2) j P(3) by auto
  have m32: "m < 2 ^ 32" "P \<subseteq> {..<2 ^ 32}" "Suc m \<le> n" using P by auto
  note rm = holds_remove [OF h fin m32(2,1) i(1)]
  let ?st1 = "st\<lparr>fs_expected := word_of_nat (Suc m), fs_gap_started_ms := None,
                  fs_pending := swap_remove (fs_pending st) i\<rparr>"
  obtain st2 o2 where dr: "drain_contiguous ?st1 (out @ [f m]) = (st2, o2)" by force
  have n32: "n < 2 ^ 32" using P(4) by simp
  have h1: "holds f (P - {m}) (fs_pending ?st1)" using rm(3) j(2) jm by simp
  obtain e' where e': "frontier (P - {m}) (Suc m) e'" "fs_expected st2 = word_of_nat e'"
    "holds f (P - {m} - {Suc m..<e'}) (fs_pending st2)" "o2 = (out @ [f m]) @ map f [Suc m..<e']"
    by (rule drain_window [OF h1 _ m32(3) n32 _ dr]) (use P(1) in auto)
  note fs = frontier_step [OF e'(1) P(2)]
  have "P - {m..<e'} = P - {..<e'}" using P(1) by auto
  moreover have "fs_expected st' = fs_expected st2" "fs_pending st' = fs_pending st2" "out' = o2"
    using run c dr j(2) jm by (auto simp: release_lowest_def Let_def add.commute split: if_splits)
  ultimately show thesis using that [of e'] fs e' by auto
qed

lemma stuck_frame:
  assumes "fs_pending st = [p]" "fs_expected st = pd_sequence p"
  shows "release_lowest st now out = (st\<lparr>fs_gap_started_ms := None\<rparr>, out)"
  using assms by (simp add: release_lowest_def forward_candidates_def enumerated_def is_forward_def)

text \<open>A full window \<open>1..96\<close> behind the missing frame 0, and then frame 97.\<close>

lemma overflow_push:
  fixes f :: "nat \<Rightarrow> 'a"
  assumes w: "window f t0 {1..<97} 0 st" and t: "t0 \<le> now" "now < t0 + GAP_RELEASE_AFTER_MS"
    and h: "fh_sequence h = 97" and tot: "96 \<le> tot" "tot < MAX_PENDING_TOTAL"
    and run: "push_frame h (f 97) now tot st out = (tot', st', out')"
  shows "out' = out @ map f [1..<97]" "fs_expected st' = 97" "fs_pending st' = [frame_at f 97]"
proof -
  have hd: "holds f {1..<97} (fs_pending st)" and ex: "fs_expected st = word_of_nat 0"
    using w by (auto simp: window_def)
  have len: "length (fs_pending st) = 96" using holds_length [OF hd] by simp
  have fwd: "is_forward 97 (fs_expected st)" using forward_position [of 0 97] ex by simp
  have new: "\<forall>p\<in>set (fs_pending st). pd_sequence p \<noteq> 97"
    using holds_set [OF hd] word_of_nat_inj [of _ 97] by auto
  have "fh_sequence h \<noteq> fs_expected st" using fwd by (auto simp: is_forward_def h)
  hence sf: "push_frame h (f 97) now tot st out = store_frame h (f 97) now tot st out"
    using fwd new by (auto simp: push_frame_def Let_def window_no_expiry [OF w t] h)
  obtain st2 o2 where lo: "release_lowest st now out = (st2, o2)" by force
  obtain e' where e': "frontier {1..<97} 1 e'" "fs_expected st2 = word_of_nat e'"
    "holds f ({1..<97} - {..<e'}) (fs_pending st2)" "o2 = out @ map f [1..<e']"
    by (rule lowest_window [OF hd _ _ _ _ ex lo, of 1 97]) auto
  have "{1..<e'} \<subseteq> {1..<97}" "e' \<notin> {1..<97}" "1 \<le> e'" using e'(1) by (auto simp: frontier_def)
  hence e97: "e' = 97" by (auto simp: ivl_subset)
  have "{1..<97} - {..<97 :: nat} = {}" by auto
  hence "holds f {} (fs_pending st2)" using e'(3) unfolding e97 by (simp only:)
  hence st2: "fs_expected st2 = 97" "fs_pending st2 = []" "o2 = out @ map f [1..<97]" using e' e97 by simp_all
  have acc: "accounted tot st st2 < MAX_PENDING_TOTAL" using tot by (simp add: accounted_def)
  let ?st3 = "st2\<lparr>fs_pending := [frame_at f 97],
      fs_gap_started_ms := (if fs_gap_started_ms st2 = None then Some now else fs_gap_started_ms st2)\<rparr>"
  have rest: "release_expired ?st3 now o2 = (?st3, o2) \<or>
      release_expired ?st3 now o2 = (?st3\<lparr>fs_gap_started_ms := None\<rparr>, o2)"
    using stuck_frame [of ?st3 "frame_at f 97" now o2] st2 by (auto simp: release_expired_def split: option.splits)
  have "store_frame h (f 97) now tot st out = enqueue_frame h (f 97) now (accounted tot st st2) st2 o2"
    using len lo acc by (simp add: store_frame_def Let_def MAX_PENDING_PER_FLOW_def)
  moreover have "snd (enqueue_frame h (f 97) now (accounted tot st st2) st2 o2) = release_expired ?st3 now o2"
    using acc st2 by (auto simp: enqueue_frame_def Let_def h frame_at_def case_prod_beta)
  ultimately have "(st', out') = release_expired ?st3 now o2" using sf run by (metis snd_conv)
  thus "out' = out @ map f [1..<97]" "fs_expected st' = 97" "fs_pending st' = [frame_at f 97]"
    using rest st2 by auto
qed

text \<open>From a fresh flow: the frames \<open>1..96\<close> in any order and then frame 97, all before the
  deadline. Frame 97 is accepted and never delivered by a release: only a second copy of it, or the
  sequence space wrapping around, can move the flow past it.\<close>

lemma overflow_run:
  fixes f :: "nat \<Rightarrow> 'a"
  assumes k_def: "k = \<lparr>rk_sender_id = s, rk_flow_id = fl\<rparr>"
    and "mset (map fst xs) = mset [1..<97]"
    and "\<forall>x\<in>set xs. t0 \<le> snd x \<and> snd x < t0 + GAP_RELEASE_AFTER_MS" and "t0 \<le> t" "t < t0 + GAP_RELEASE_AFTER_MS"
    "push_all (arrivals s fl f (xs @ [(97, t)])) new_reassembler [] = (r, out)"
  shows "out = map f [1..<97]" "fs_expected (flow_of r k) = 97" "fs_pending (flow_of r k) = [frame_at f 97]"
proof -
  have push_all_append: "push_all (as @ bs) r0 o0 = (let (r1, o1) = push_all as r0 o0 in push_all bs r1 o1)"
    for as bs and r0 :: "'a flow_reassembler" and o0
    by (induction as r0 o0 rule: push_all.induct) (auto simp: case_prod_beta Let_def)
  obtain r1 o1 where r1: "push_all (arrivals s fl f xs) new_reassembler [] = (r1, o1)" by force
  have st: "set (map fst xs) = {1..<97}" using assms(2) by (metis mset_eq_setD set_upt)
  have di: "distinct (map fst xs)" using assms(2) by (metis distinct_upt mset_eq_imp_distinct_iff)
  have len: "length xs = 96" using arg_cong [OF assms(2), of size] by simp
  have "\<exists>e'. window f t0 ({} \<union> set (map fst xs)) e' (flow_of r1 k) \<and> o1 = [] @ map f [0..<e'] \<and> 0 \<le> e'
      \<and> fr_pending_total r1 \<le> fr_pending_total (new_reassembler :: 'a flow_reassembler) + length xs"
    by (rule window_run [OF _ _ _ _ di _ assms(3) _ _ _ r1, where n = 97])
       (use window_new [of f t0] st len in
        \<open>auto simp: flow_of_def has_room_def new_reassembler_def MAX_TRACKED_FLOWS_def k_def
           MAX_PENDING_PER_FLOW_def MAX_PENDING_TOTAL_def\<close>)
  then obtain e' where e': "window f t0 {1..<97} e' (flow_of r1 k)" "o1 = map f [0..<e']"
    "fr_pending_total r1 \<le> 96" unfolding st len by (auto simp: new_reassembler_def)
  have "{0..<e'} \<subseteq> {1..<97}" using e'(1) by (auto simp: window_def frontier_def)
  hence "e' = 0" by (cases e') auto
  hence w: "window f t0 {1..<97} 0 (flow_of r1 k)" "o1 = []" using e' by auto
  have ok1: "reassembler_ok r1"
    using reassembler_ok_push_all [OF reassembler_ok_new, of "arrivals s fl f xs" "[]"] r1 by simp
  have hd: "holds f {1..<97} (fs_pending (flow_of r1 k))" using w by (simp add: window_def)
  hence len1: "length (fs_pending (flow_of r1 k)) = 96" using holds_length [OF hd] by simp
  hence "has_room k r1"
    by (auto simp: has_room_def hm_has_get flow_of_def new_flow_state_def split: option.splits)
  hence same: "table_for (stream_header s fl 97) r1 = r1" by (intro has_room_table) (simp add: k_def)
  obtain tot st' o' where pf: "push_frame (stream_header s fl 97) (f 97) t (fr_pending_total r1) (flow_of r1 k) [] = (tot, st', o')"
    by (metis surj_pair)
  have "o' = [] @ map f [1..<97]" "fs_expected st' = 97" "fs_pending st' = [frame_at f 97]"
    by (rule overflow_push [OF w(1) assms(4,5) _ _ _ pf];
        use flow_of_count(1) [OF ok1, of k] len1 e'(3) in \<open>simp add: pending_count_def MAX_PENDING_TOTAL_def\<close>)+
  moreover have "push_at (stream_header s fl 97) (f 97) t r1 [] =
      (\<lparr>fr_flows = hm_put k st' (fr_flows r1), fr_pending_total = tot\<rparr>, o')"
    using pf by (simp add: push_at_alt same k_def)
  hence "r = \<lparr>fr_flows = hm_put k st' (fr_flows r1), fr_pending_total = tot\<rparr>" "out = o'"
    using assms(6) r1 w(2) by (auto simp: arrivals_def push_all_append)
  ultimately show "out = map f [1..<97]" "fs_expected (flow_of r k) = 97"
    "fs_pending (flow_of r k) = [frame_at f 97]"
    by (simp_all add: flow_of_def)
qed

section \<open>Properties\<close>

text \<open>Sender and receiver together restore a TCP flow. The packets of one flow, stamped by a fresh
  \<open>FlowSequencer\<close> and delivered by the paths in any order within the 12 ms deadline, come out
  of the reassembler complete and in the order they were sent, as long as at most 97 of them are
  in flight and the receiver has room for the flow; nothing is left waiting.\<close>

theorem flow_restored:
  assumes packets: "\<forall>p\<in>set ps. tcp_flow_id p = Some fl" "length ps \<le> MAX_PENDING_PER_FLOW + 1"
    and sent: "sent = zip (map the (fst (run_sequencer (with_sender_id s) ps))) ps"
    and arrived: "mset (map fst xs) = mset [0..<length ps]"
      "\<forall>x\<in>set xs. t0 \<le> snd x \<and> snd x < t0 + GAP_RELEASE_AFTER_MS"
    and room: "hm_get (fr_flows r) \<lparr>rk_sender_id = max s 1, rk_flow_id = fl\<rparr> = None"
      "length (fr_flows r) < MAX_TRACKED_FLOWS" "fr_pending_total r + length ps \<le> MAX_PENDING_TOTAL"
  shows "snd (push_all (map (\<lambda>(i, t). (fst (sent ! i), snd (sent ! i), t)) xs) r out) = out @ ps"
proof -
  have flow_headers_all: "(\<forall>h\<in>set hs. \<exists>x. h = Some x \<and> fh_flow_id x = fl) \<Longrightarrow> flow_headers fl hs = map the hs" for hs
    by (induction hs) (auto simp: flow_headers_def)
  have emitted: "\<forall>p\<in>set ps. tcp_flow_id p = Some fl \<Longrightarrow>
      \<forall>h\<in>set (fst (run_sequencer q ps)). \<exists>x. h = Some x \<and> fh_flow_id x = fl" for q
    by (induction ps arbitrary: q) (auto simp: run_sequencer_Cons next_header_def Let_def simp del: run_sequencer.simps(2))
  have "room_for {fl} (with_sender_id s)" "flows_of ps \<subseteq> {fl}"
    using packets(1) by (auto simp: room_for_def with_sender_id_def flows_of_def MAX_TRACKED_FLOWS_def)
  from run_sequencer_consecutive [OF this, of fl]
  have hdrs: "map the (fst (run_sequencer (with_sender_id s) ps)) = map (stream_header (max s 1) fl) [0..<length ps]"
    using packets(1) flow_headers_all [OF emitted [OF packets(1)]]
    by (simp add: stream_header_def with_sender_id_def next_seq_def filter_id_conv cong: map_cong)
  have st: "set (map fst xs) = {..<length ps}" using arrived(1) by (metis atLeast0LessThan mset_eq_setD set_upt)
  hence "\<forall>x\<in>set xs. fst x < length ps" by auto
  hence "map (\<lambda>(i, t). (fst (sent ! i), snd (sent ! i), t)) xs = arrivals (max s 1) fl (\<lambda>i. ps ! i) xs"
    unfolding arrivals_def by (auto simp: sent hdrs)
  thus ?thesis
    using reorder_window(1) [OF room(1,2,3) packets(2) arrived, of "\<lambda>i. ps ! i" out] by (simp add: map_nth)
qed

text \<open>A data segment of a TCP connection \<open>10.0.0.2:1000 -> 1.1.1.1:443\<close> with one payload byte.\<close>

definition sample_segment :: "byte \<Rightarrow> bytes" where
  "sample_segment b = [0x45, 0, 0, 41, 0, 0, 0, 0, 64, 6, 0, 0, 10, 0, 0, 2, 1, 1, 1, 1,
     3, 232, 1, 187, 0, 0, 0, 0, 0, 0, 0, 0, 0x50, 0x18, 0, 0, 0, 0, 0, 0, b]"

lemma sample_segment_flow: "tcp_flow_id (sample_segment b) = tcp_flow_id (sample_segment 0)"
  "tcp_flow_id (sample_segment 0) \<noteq> None"
  by (simp_all add: tcp_flow_id_def ip_fields_def sample_segment_def Let_def subslice_def)

lemma flow_restored_witness:
  "let ps = [sample_segment 1, sample_segment 2];
       sent = zip (map the (fst (run_sequencer (with_sender_id 7) ps))) ps
   in snd (push_all (map (\<lambda>(i, t). (fst (sent ! i), snd (sent ! i), t)) [(1, 40), (0, 51)]) new_reassembler []) = ps"
proof -
  obtain fl where fl: "tcp_flow_id (sample_segment b) = Some fl" for b
    using sample_segment_flow by (metis option.exhaust)
  show ?thesis
    unfolding Let_def
    by (subst flow_restored [where fl = fl and ps = "[sample_segment 1, sample_segment 2]" and ?t0.0 = 40
          and s = 7, OF _ _ refl])
       (auto simp: fl MAX_PENDING_PER_FLOW_def GAP_RELEASE_AFTER_MS_def new_reassembler_def
          MAX_TRACKED_FLOWS_def MAX_PENDING_TOTAL_def)
qed

text \<open>The 97th frame of a full window is lost. When the frames 1 to 96 of a flow wait for the
  missing frame 0 and frame 97 arrives before the deadline, the window is released as far as 96 and
  frame 97 is stored although it is now the expected one; it is not delivered, and no later release of
  that state delivers it.\<close>

theorem window_overflow_loses_frame:
  assumes "mset (map fst xs) = mset [1..<97]"
    and "\<forall>x\<in>set xs. t0 \<le> snd x \<and> snd x < t0 + GAP_RELEASE_AFTER_MS"
    and "t0 \<le> t" "t < t0 + GAP_RELEASE_AFTER_MS"
    and "push_all (arrivals s fl f (xs @ [(97, t)])) new_reassembler [] = (r, out)"
  shows "out = map f [1..<97]
    \<and> fs_expected (flow_of r \<lparr>rk_sender_id = s, rk_flow_id = fl\<rparr>) = 97
    \<and> fs_pending (flow_of r \<lparr>rk_sender_id = s, rk_flow_id = fl\<rparr>) = [frame_at f 97]
    \<and> snd (release_lowest (flow_of r \<lparr>rk_sender_id = s, rk_flow_id = fl\<rparr>) now []) = []"
  using overflow_run [OF refl assms] stuck_frame [of "flow_of r \<lparr>rk_sender_id = s, rk_flow_id = fl\<rparr>" "frame_at f 97" now "[]"]
  by simp

lemma window_overflow_loses_frame_witness:
  "snd (push_all (arrivals 1 7 id (map (\<lambda>i. (i, 5)) [1..<97] @ [(97, 6)])) new_reassembler []) = [1..<97]"
proof -
  let ?xs = "map (\<lambda>i. (i, 5 :: nat)) [1..<97]"
  have "mset (map fst ?xs) = mset [1..<97]" by (simp only: map_map o_def fst_conv map_ident)
  moreover have "\<forall>x\<in>set ?xs. 5 \<le> snd x \<and> snd x < 5 + GAP_RELEASE_AFTER_MS"
    by (auto simp: GAP_RELEASE_AFTER_MS_def)
  moreover have "6 < 5 + GAP_RELEASE_AFTER_MS" by (simp add: GAP_RELEASE_AFTER_MS_def)
  ultimately show ?thesis
    using window_overflow_loses_frame [of ?xs 5 6 1 7 id, OF _ _ _ _ prod.collapse [symmetric]] by simp
qed

end
