(* ===== verification/IdleMode.thy ===== *)
theory IdleMode
  imports BoundedQueue
begin

text \<open>
  \<open>idle.rs\<close>: parking most workers while the phone is silent. The process-wide atomics are one
  record; every function is one step on it (the source's compare-and-swap in \<open>note_path_lost\<close>
  makes it one step). Times are milliseconds; \<open>notify_waiters\<close> is counted.
\<close>

section \<open>State\<close>

definition JOINED_SLOTS :: nat where "JOINED_SLOTS = 127"
definition ACTIVE_BYTES_PER_POLL :: int where "ACTIVE_BYTES_PER_POLL = 1400"
definition EXIT_PACKETS :: u64 where "EXIT_PACKETS = 12"
definition EXIT_PACKETS_WINDOW_MS :: nat where "EXIT_PACKETS_WINDOW_MS = 1000"
definition EXIT_SYNS :: u64 where "EXIT_SYNS = 3"
definition EXIT_SYNS_WINDOW_MS :: nat where "EXIT_SYNS_WINDOW_MS = 3000"

record idle_state =
  id_limit :: nat
  id_active :: bool
  id_total :: nat
  id_declared :: nat
  id_gen_offset :: u64
  id_announce :: u64
  id_packet_start :: nat
  id_packet_count :: u64
  id_syn_start :: nat
  id_syn_count :: u64
  id_joined :: "u64 list"
  id_notified :: nat

definition u64_saturating_inc :: "u64 \<Rightarrow> u64" where
  "u64_saturating_inc n = (if n = -1 then n else n + 1)"

definition notify_waiters :: "idle_state \<Rightarrow> idle_state" where
  "notify_waiters s = s\<lparr>id_notified := id_notified s + 1\<rparr>"

definition initial_idle :: idle_state where
  "initial_idle = \<lparr>id_limit = usize_max, id_active = False, id_total = 0, id_declared = 0, id_gen_offset = 0,
     id_announce = 0, id_packet_start = 0, id_packet_count = 0, id_syn_start = 0, id_syn_count = 0,
     id_joined = replicate JOINED_SLOTS 0, id_notified = 0\<rparr>"

section \<open>Operations\<close>

definition idle_reset :: "nat \<Rightarrow> idle_state \<Rightarrow> idle_state" where
  "idle_reset total_workers s = notify_waiters (s\<lparr>id_total := total_workers, id_declared := total_workers,
     id_limit := usize_max, id_active := False, id_gen_offset := 0, id_announce := 0,
     id_joined := replicate JOINED_SLOTS 0\<rparr>)"

definition allows :: "idle_state \<Rightarrow> nat \<Rightarrow> bool" where
  "allows s worker_id \<longleftrightarrow> worker_id \<le> id_limit s"

definition note_path_joined :: "nat \<Rightarrow> u64 \<Rightarrow> idle_state \<Rightarrow> idle_state" where
  "note_path_joined worker_id offset s = (if length (id_joined s) \<le> worker_id then s
     else if worker_id = 0 then s
     else s\<lparr>id_joined := (id_joined s)[worker_id := u64_saturating_inc offset]\<rparr>)"

definition note_path_lost :: "nat \<Rightarrow> idle_state \<Rightarrow> idle_state" where
  "note_path_lost worker_id s = (if \<not> allows s worker_id then s
     else if length (id_joined s) \<le> worker_id then s
     else let joined = id_joined s ! worker_id in
       if joined = 0 then s
       else if joined - 1 \<noteq> id_gen_offset s then s
       else notify_waiters (s\<lparr>id_gen_offset := u64_saturating_inc (id_gen_offset s),
              id_joined := (id_joined s)[worker_id := 0], id_announce := id_announce s + 1\<rparr>))"

definition declared_count :: "idle_state \<Rightarrow> nat" where
  "declared_count s = (if id_declared s = 0 then id_total s else id_declared s)"

definition generation :: "nat \<Rightarrow> idle_state \<Rightarrow> nat" where
  "generation base s = sat_add_u64 base (unat (id_gen_offset s))"

definition enter :: "nat \<Rightarrow> idle_state \<Rightarrow> idle_state" where
  "enter keep s = (if keep = 0 \<or> id_total s = 0 \<or> id_total s \<le> keep then s
     else if id_active s then s
     else notify_waiters (s\<lparr>id_active := True, id_limit := keep, id_declared := keep,
            id_gen_offset := id_gen_offset s + 1, id_announce := id_announce s + 1,
            id_packet_count := 0, id_syn_count := 0\<rparr>))"

definition idle_exit :: "idle_state \<Rightarrow> idle_state" where
  "idle_exit s = (if \<not> id_active s then s
     else notify_waiters (s\<lparr>id_active := False, id_limit := usize_max, id_declared := id_total s,
            id_announce := id_announce s + 1\<rparr>))"

definition is_tcp_syn :: "bytes \<Rightarrow> bool" where
  "is_tcp_syn packet = (if length packet < 20 \<or> drop_bit 4 (packet ! 0) \<noteq> 4 \<or> packet ! 9 \<noteq> 6 then False
     else let ihl = unat (packet ! 0 AND 0x0f) * 4 in
       if ihl < 20 \<or> length packet < ihl + 14 then False
       else let flags = packet ! (ihl + 13) in flags AND 0x02 \<noteq> 0 \<and> flags AND 0x10 = 0)"

text \<open>The counter: its answer and the new start and count.\<close>

definition window_hit :: "nat \<Rightarrow> u64 \<Rightarrow> nat \<Rightarrow> nat \<Rightarrow> u64 \<Rightarrow> bool \<times> nat \<times> u64" where
  "window_hit started n now_ms window_ms limit =
    (if window_ms < now_ms - started then (limit \<le> 1, now_ms, 1) else (limit \<le> n + 1, started, n + 1))"

definition note_packet :: "nat \<Rightarrow> idle_state \<Rightarrow> idle_state" where
  "note_packet now_ms s =
    (let (hit, st, n) = window_hit (id_packet_start s) (id_packet_count s) now_ms EXIT_PACKETS_WINDOW_MS EXIT_PACKETS;
         s1 = s\<lparr>id_packet_start := st, id_packet_count := n\<rparr>
     in if hit then idle_exit s1 else s1)"

definition note_uplink :: "nat \<Rightarrow> bytes \<Rightarrow> idle_state \<Rightarrow> idle_state" where
  "note_uplink now_ms packet s = (if \<not> id_active s then s
     else if is_tcp_syn packet then
       (let (hit, st, n) = window_hit (id_syn_start s) (id_syn_count s) now_ms EXIT_SYNS_WINDOW_MS EXIT_SYNS;
            s1 = s\<lparr>id_syn_start := st, id_syn_count := n\<rparr>
        in if hit then idle_exit s1 else note_packet now_ms s1)
     else note_packet now_ms s)"

definition should_enter :: "nat \<Rightarrow> nat \<Rightarrow> bool \<Rightarrow> bool" where
  "should_enter quiet_for after_ms active \<longleftrightarrow> \<not> active \<and> after_ms \<le> quiet_for"

text \<open>A round of \<open>monitor\<close>: the uplink counter \<open>total\<close> read at time \<open>now\<close>; the state keeps the last
  counter and the start of the silence.\<close>

definition monitor_round :: "nat \<Rightarrow> nat \<Rightarrow> nat \<Rightarrow> int \<Rightarrow> (int \<times> nat) \<times> idle_state \<Rightarrow> (int \<times> nat) \<times> idle_state" where
  "monitor_round keep after_ms now bytes st = (case st of ((last_bytes, quiet_since), s) \<Rightarrow>
     if keep = 0 then st
     else if ACTIVE_BYTES_PER_POLL < bytes - last_bytes then ((bytes, now), s)
     else if should_enter (now - quiet_since) after_ms (id_active s) then ((bytes, quiet_since), enter keep s)
     else ((bytes, quiet_since), s))"

section \<open>Steps\<close>

datatype idle_event =
    IdleReset nat | IdleJoined nat u64 | IdleLost nat | IdleEnter nat | IdleExit | IdleUplink nat bytes

fun idle_step :: "idle_event \<Rightarrow> idle_state \<Rightarrow> idle_state" where
  "idle_step (IdleReset n) s = idle_reset n s"
| "idle_step (IdleJoined w k) s = note_path_joined w k s"
| "idle_step (IdleLost w) s = note_path_lost w s"
| "idle_step (IdleEnter keep) s = enter keep s"
| "idle_step IdleExit s = idle_exit s"
| "idle_step (IdleUplink now packet) s = note_uplink now packet s"

text \<open>While parked, the limit and the advertised count are the same proper share of the workers;
  otherwise everything is unparked and the full count advertised. Slot 0 is never joined.\<close>

definition idle_inv :: "idle_state \<Rightarrow> bool" where
  "idle_inv s \<longleftrightarrow> (if id_active s then 0 < id_limit s \<and> id_limit s < id_total s \<and> id_declared s = id_limit s
       else id_limit s = usize_max \<and> id_declared s = id_total s)
     \<and> length (id_joined s) = JOINED_SLOTS \<and> id_joined s ! 0 = 0"

lemma notify_inv [simp]: "idle_inv (notify_waiters s) = idle_inv s"
  by (simp add: idle_inv_def notify_waiters_def)

lemma exit_inv [inv_intros]: "idle_inv s \<Longrightarrow> idle_inv (idle_exit s)"
  by (auto simp: idle_exit_def idle_inv_def notify_waiters_def)

lemma note_packet_inv [inv_intros]: "idle_inv s \<Longrightarrow> idle_inv (note_packet now s)"
proof -
  assume i: "idle_inv s"
  obtain hit st n where w: "window_hit (id_packet_start s) (id_packet_count s) now EXIT_PACKETS_WINDOW_MS EXIT_PACKETS = (hit, st, n)"
    by (rule prod_cases3)
  have "idle_inv (s\<lparr>id_packet_start := st, id_packet_count := n\<rparr>)" using i by (simp add: idle_inv_def)
  thus ?thesis using exit_inv w by (simp add: note_packet_def Let_def)
qed

lemma note_uplink_inv [inv_intros]: "idle_inv s \<Longrightarrow> idle_inv (note_uplink now p s)"
proof -
  assume i: "idle_inv s"
  obtain hit st n where w: "window_hit (id_syn_start s) (id_syn_count s) now EXIT_SYNS_WINDOW_MS EXIT_SYNS = (hit, st, n)"
    by (rule prod_cases3)
  have "idle_inv (s\<lparr>id_syn_start := st, id_syn_count := n\<rparr>)" using i by (simp add: idle_inv_def)
  thus ?thesis using i exit_inv note_packet_inv w by (simp add: note_uplink_def Let_def)
qed

lemma idle_step_inv: "idle_inv s \<Longrightarrow> idle_inv (idle_step e s)"
proof (cases e)
  case (IdleReset n)
  thus ?thesis by (simp add: idle_reset_def idle_inv_def notify_waiters_def JOINED_SLOTS_def)
next
  case (IdleJoined w k)
  thus "idle_inv s \<Longrightarrow> ?thesis" by (auto simp: note_path_joined_def idle_inv_def nth_list_update)
next
  case (IdleLost w)
  thus "idle_inv s \<Longrightarrow> ?thesis" by (auto simp: note_path_lost_def idle_inv_def Let_def notify_waiters_def nth_list_update)
next
  case (IdleEnter keep)
  thus "idle_inv s \<Longrightarrow> ?thesis" by (auto simp: enter_def idle_inv_def notify_waiters_def)
qed (auto intro: inv_intros)

interpretation idle: driven idle_step idle_inv
  by unfold_locales (rule idle_step_inv)

section \<open>Epochs\<close>

lemma lost_unchanged:
  "id_joined s ! w \<noteq> id_gen_offset s + 1 \<Longrightarrow> note_path_lost w s = s"
proof -
  assume n: "id_joined s ! w \<noteq> id_gen_offset s + 1"
  hence "id_joined s ! w - 1 \<noteq> id_gen_offset s" by (metis diff_add_cancel)
  thus ?thesis by (simp add: note_path_lost_def Let_def)
qed

lemma lost_bumps:
  assumes "allows s w" "w < length (id_joined s)" "id_joined s ! w = id_gen_offset s + 1" "id_gen_offset s \<noteq> -1"
  shows "note_path_lost w s = notify_waiters (s\<lparr>id_gen_offset := id_gen_offset s + 1,
      id_joined := (id_joined s)[w := 0], id_announce := id_announce s + 1\<rparr>)"
proof -
  have "id_joined s ! w \<noteq> 0" using assms(3,4) by (metis add_eq_0_iff2)
  thus ?thesis using assms by (simp add: note_path_lost_def u64_saturating_inc_def)
qed

text \<open>After a bump no worker of the old epoch bumps again.\<close>

lemma burst_silent:
  assumes "\<forall>w\<in>set ws. id_joined s ! w \<noteq> id_gen_offset s + 1"
  shows "run_ops idle_step (map IdleLost ws) s = s"
  using assms by (induction ws) (auto simp: lost_unchanged)

section \<open>Properties\<close>

text \<open>Parking is consistent. From the engine's reset on, over any sequence of resets, joins, losses,
  idle entries and exits and uplink packets: while idle mode is active the number of workers allowed and the number
  advertised to the server are equal, positive and smaller than the total; otherwise every
  worker is allowed and the full number is advertised.\<close>

theorem idle_consistent:
  "let s = run_ops idle_step es (idle_reset n initial_idle)
   in if id_active s then 0 < id_limit s \<and> id_limit s < id_total s \<and> declared_count s = id_limit s
      else (\<forall>w \<le> usize_max. allows s w) \<and> declared_count s = id_total s"
proof -
  have "idle_inv (idle_reset n initial_idle)"
    by (simp add: idle_inv_def idle_reset_def initial_idle_def JOINED_SLOTS_def notify_waiters_def)
  from idle.run_inv [OF this, of es] show ?thesis
    by (auto simp: idle_inv_def declared_count_def allows_def Let_def split: if_splits)
qed

lemma idle_consistent_witness:
  "let s = run_ops idle_step [IdleEnter 2, IdleLost 3] (idle_reset 8 initial_idle)
   in id_active s \<and> declared_count s = 2 \<and> \<not> allows s 3"
proof -
  have "id_active (run_ops idle_step [IdleEnter 2, IdleLost 3] (idle_reset 8 initial_idle))"
    "id_limit (run_ops idle_step [IdleEnter 2, IdleLost 3] (idle_reset 8 initial_idle)) = 2"
    by (simp_all add: idle_reset_def initial_idle_def enter_def notify_waiters_def note_path_lost_def allows_def JOINED_SLOTS_def)
  thus ?thesis using idle_consistent [of "[IdleEnter 2, IdleLost 3]" 8] by (simp add: Let_def allows_def)
qed

text \<open>A burst of path losses opens one epoch. When any number of allowed workers that joined the
  current epoch die one after the other, in any order, the generation rises by exactly one and one
  announcement is made; the losses after the first change nothing.\<close>

theorem one_bump_per_burst:
  assumes "idle_inv s" "id_gen_offset s < -2"
    "\<forall>v\<in>set (w # ws). v < JOINED_SLOTS \<and> allows s v \<and> id_joined s ! v = id_gen_offset s + 1"
  shows "run_ops idle_step (map IdleLost (w # ws)) s
     = notify_waiters (s\<lparr>id_gen_offset := id_gen_offset s + 1, id_joined := (id_joined s)[w := 0],
         id_announce := id_announce s + 1\<rparr>)"
proof -
  let ?g = "id_gen_offset s"
  let ?s = "notify_waiters (s\<lparr>id_gen_offset := ?g + 1, id_joined := (id_joined s)[w := 0], id_announce := id_announce s + 1\<rparr>)"
  have g: "?g \<noteq> -1" "?g + 1 \<noteq> -1"
  proof -
    show "?g \<noteq> -1" using assms(2) by (metis less_le_not_le word_order.extremum)
    show "?g + 1 \<noteq> -1"
    proof
      assume "?g + 1 = -1"
      hence "?g = -2" by (simp add: eq_diff_eq [symmetric])
      thus False using assms(2) by simp
    qed
  qed
  have len: "length (id_joined s) = JOINED_SLOTS" using assms(1) by (simp add: idle_inv_def)
  have first: "note_path_lost w s = ?s" by (rule lost_bumps) (use assms(3) len g in auto)
  have "id_joined ?s ! v \<noteq> id_gen_offset ?s + 1" if "v \<in> set ws" for v
  proof (cases "v = w")
    case True
    have "?g + 1 + 1 \<noteq> 0" using g(2) by (metis add_eq_0_iff2)
    thus ?thesis using True assms(3) len by (simp add: notify_waiters_def)
  next
    case False
    thus ?thesis using assms(3) that by (simp add: notify_waiters_def)
  qed
  hence "run_ops idle_step (map IdleLost ws) ?s = ?s" by (intro burst_silent) blast
  thus ?thesis using first by simp
qed

lemma one_bump_per_burst_witness:
  "let s = run_ops idle_step [IdleJoined 1 0, IdleJoined 2 0] (idle_reset 8 initial_idle)
   in id_gen_offset (run_ops idle_step [IdleLost 2, IdleLost 1] s) = 1"
proof -
  let ?s = "run_ops idle_step [IdleJoined 1 0, IdleJoined 2 0] (idle_reset 8 initial_idle)"
  have i: "idle_inv ?s" by (rule idle.run_inv) (simp add: idle_inv_def idle_reset_def initial_idle_def JOINED_SLOTS_def notify_waiters_def)
  have g: "id_gen_offset ?s < -2" "id_gen_offset ?s = 0"
    by (simp_all add: note_path_joined_def idle_reset_def notify_waiters_def JOINED_SLOTS_def word_less_nat_alt)
  have j: "\<forall>v\<in>set (2 # [1]). v < JOINED_SLOTS \<and> allows ?s v \<and> id_joined ?s ! v = id_gen_offset ?s + 1"
    by (simp add: note_path_joined_def idle_reset_def notify_waiters_def JOINED_SLOTS_def allows_def usize_max_def
        u64_saturating_inc_def)
  show ?thesis using one_bump_per_burst [OF i g(1) j] g(2) by (simp add: Let_def notify_waiters_def)
qed

text \<open>The burst detector is a tumbling window, not the sliding one its comment announces. Twenty-one
  uplink packets within two milliseconds, ten just before the window closes and eleven just
  after, do not end idle mode, although twelve within a second are meant to.\<close>

theorem burst_across_windows:
  "let s0 = enter 2 (idle_reset 8 initial_idle);
       s = run_ops idle_step (IdleUplink 2000 [] # replicate 10 (IdleUplink 2999 []) @ replicate 11 (IdleUplink 3001 [])) s0
   in id_active s"
proof -
  have u: "note_uplink now [] s = note_packet now s" if "id_active s" for now s
    using that by (simp add: note_uplink_def is_tcp_syn_def)
  have s0: "id_active (enter 2 (idle_reset 8 initial_idle))" "id_packet_start (enter 2 (idle_reset 8 initial_idle)) = 0"
    by (simp_all add: enter_def idle_reset_def notify_waiters_def initial_idle_def)
  have r: "run_ops idle_step (replicate k (IdleUplink now [])) s = s\<lparr>id_packet_count := n + word_of_nat k\<rparr>"
    if "id_active s" "now - id_packet_start s \<le> 1000" "id_packet_count s = n" "unat n + k < 12" for k now s n
    using that
  proof (induction k arbitrary: s n)
    case 0
    thus ?case by simp
  next
    case (Suc k)
    have n1: "unat (n + 1) = unat n + 1" using Suc.prems(4) by (simp add: unat_word_ariths)
    hence "\<not> 12 \<le> n + 1" using Suc.prems(4) by (simp add: word_le_nat_alt)
    hence "idle_step (IdleUplink now []) s = s\<lparr>id_packet_count := n + 1\<rparr>"
      using Suc.prems u [of s now] by (simp add: note_packet_def window_hit_def EXIT_PACKETS_WINDOW_MS_def EXIT_PACKETS_def)
    thus ?case using Suc.IH [of "s\<lparr>id_packet_count := n + 1\<rparr>" "n + 1"] Suc.prems n1 by (simp add: add.assoc)
  qed
  define s0 where "s0 = enter 2 (idle_reset 8 initial_idle)"
  define s1 where "s1 = s0\<lparr>id_packet_start := 2000, id_packet_count := 1\<rparr>"
  define s2 where "s2 = s1\<lparr>id_packet_count := 11\<rparr>"
  define s3 where "s3 = s2\<lparr>id_packet_start := 3001, id_packet_count := 1\<rparr>"
  have a: "id_active s0" "id_active s1" "id_active s2" "id_active s3" "id_packet_start s0 = 0" "id_packet_start s2 = 2000"
    using s0 by (simp_all add: s0_def s1_def s2_def s3_def)
  have e1: "idle_step (IdleUplink 2000 []) s0 = s1"
    using u [OF a(1), of 2000] a(5)
    by (simp add: note_packet_def window_hit_def EXIT_PACKETS_WINDOW_MS_def EXIT_PACKETS_def s1_def Let_def word_le_nat_alt)
  have e2: "run_ops idle_step (replicate 10 (IdleUplink 2999 [])) s1 = s2"
    using r [OF a(2), of 2999 1 10] by (simp add: s1_def s2_def)
  have e3: "idle_step (IdleUplink 3001 []) s2 = s3"
    using u [OF a(3), of 3001] a(6)
    by (simp add: note_packet_def window_hit_def EXIT_PACKETS_WINDOW_MS_def EXIT_PACKETS_def s3_def Let_def word_le_nat_alt)
  have e4: "run_ops idle_step (replicate 10 (IdleUplink 3001 [])) s3 = s3\<lparr>id_packet_count := 11\<rparr>"
    using r [OF a(4), of 3001 1 10] by (simp add: s3_def)
  have "replicate 11 (IdleUplink 3001 []) = IdleUplink 3001 [] # replicate 10 (IdleUplink 3001 [])"
    by (simp add: numeral_eq_Suc)
  hence "run_ops idle_step (IdleUplink 2000 [] # replicate 10 (IdleUplink 2999 []) @ replicate 11 (IdleUplink 3001 [])) s0
      = s3\<lparr>id_packet_count := 11\<rparr>"
    using e1 e2 e3 e4 by (simp only: run_ops_append run_ops.simps)
  thus ?thesis using a(4) by (simp add: Let_def s0_def [symmetric])
qed

end
