(* ===== verification/Bridge.thy ===== *)
theory Bridge
  imports Dispatch FlowReorder IdleMode
begin

text \<open>
  The two ends of the in-process packet bridge: \<open>packet_bridge.rs\<close>, which copies packets of the TCP/IP
  stack into pool buffers and queues them, the reader and writer loops of \<open>dispatcher.rs\<close> that stamp
  the uplink packets with flow headers and put the downlink packets back in order, and the delivery to
  the callback.
\<close>

section \<open>Framing and reordering\<close>

text \<open>\<open>frame_outbound_packet\<close>: whether the packet is to be dispatched.\<close>

definition frame_outbound_packet :: "flow_sequencer \<Rightarrow> packet_buf \<Rightarrow> bool \<times> flow_sequencer \<times> packet_buf" where
  "frame_outbound_packet sequences packet = (case next_header sequences (as_slice packet) of
     (None, s) \<Rightarrow> (True, s, packet)
   | (Some header, s) \<Rightarrow> (case prepend FRAME_LEN packet of
       Inl e \<Rightarrow> (False, s, packet)
     | Inr p \<Rightarrow> (let (ok, prefix) = encode_frame header (subslice (pb_storage p) (pb_start p) (pb_start p + FRAME_LEN))
         in (ok, s, write_at (pb_start p) prefix p))))"

text \<open>The reader loops: packets that cannot be framed are skipped.\<close>

fun frame_all :: "flow_sequencer \<Rightarrow> packet_buf list \<Rightarrow> packet_buf list \<times> flow_sequencer" where
  "frame_all s [] = ([], s)"
| "frame_all s (p # ps) = (let (ok, s1, p1) = frame_outbound_packet s p; (qs, s2) = frame_all s1 ps
     in (if ok then p1 # qs else qs, s2))"

record return_reorder =
  rr_reassembler :: "packet_buf flow_reassembler"
  rr_ready :: "packet_buf list"

definition new_return_reorder :: return_reorder where
  "new_return_reorder = \<lparr>rr_reassembler = \<lparr>fr_flows = [], fr_pending_total = 0\<rparr>, rr_ready = []\<rparr>"

definition reorder_push :: "nat \<Rightarrow> packet_buf \<Rightarrow> return_reorder \<Rightarrow> return_reorder" where
  "reorder_push now packet r = (case decode_frame (as_slice packet) of
     Some (header, rest) \<Rightarrow> (case trim_front FRAME_LEN packet of
         Inl e \<Rightarrow> r
       | Inr p \<Rightarrow> (let (ra, ready) = push_at header p now (rr_reassembler r) (rr_ready r)
           in \<lparr>rr_reassembler = ra, rr_ready = ready\<rparr>))
   | None \<Rightarrow> r\<lparr>rr_ready := rr_ready r @ [packet]\<rparr>)"

definition reorder_pop :: "return_reorder \<Rightarrow> (packet_buf \<times> return_reorder) option" where
  "reorder_pop r = (case rr_ready r of [] \<Rightarrow> None | p # ps \<Rightarrow> Some (p, r\<lparr>rr_ready := ps\<rparr>))"

fun reorder_all :: "(packet_buf \<times> nat) list \<Rightarrow> return_reorder \<Rightarrow> return_reorder" where
  "reorder_all [] r = r"
| "reorder_all ((p, now) # xs) r = reorder_all xs (reorder_push now p r)"

section \<open>The return path\<close>

record 'q return_queues =
  rq_latency :: "'q packet_queue"
  rq_priority :: "'q packet_queue"
  rq_bulk :: "'q packet_queue"

definition return_packet :: "(packet_buf, 'q) pq_ops \<Rightarrow> packet_buf \<Rightarrow> 'q return_queues \<Rightarrow> 'q return_queues" where
  "return_packet ops packet rq = (case packet_class (as_slice packet) of
     Small \<Rightarrow> rq\<lparr>rq_latency := snd (force_send ops packet (rq_latency rq))\<rparr>
   | Medium \<Rightarrow> rq\<lparr>rq_priority := snd (force_send ops packet (rq_priority rq))\<rparr>
   | Bulk \<Rightarrow> rq\<lparr>rq_bulk := snd (force_send ops packet (rq_bulk rq))\<rparr>)"

definition next_return_packet :: "('p, 'q) pq_ops \<Rightarrow> 'q return_queues \<Rightarrow> 'p option \<times> 'q return_queues" where
  "next_return_packet ops rq = (case try_recv ops (rq_latency rq) of
     (Some p, q) \<Rightarrow> (Some p, rq\<lparr>rq_latency := q\<rparr>)
   | (None, q) \<Rightarrow> (let rq1 = rq\<lparr>rq_latency := q\<rparr> in case try_recv ops (rq_priority rq1) of
       (Some p, q) \<Rightarrow> (Some p, rq1\<lparr>rq_priority := q\<rparr>)
     | (None, q) \<Rightarrow> (let rq2 = rq1\<lparr>rq_priority := q\<rparr>; (r, q) = try_recv ops (rq_bulk rq2) in (r, rq2\<lparr>rq_bulk := q\<rparr>))))"

text \<open>The loop of \<open>next_ordered_return_packet\<close> takes one queued packet per round, so the number of queued packets and one
  more round is fuel enough. The clock readings of one call are one argument.\<close>

fun next_ordered :: "(packet_buf, 'q) pq_ops \<Rightarrow> nat \<Rightarrow> nat \<Rightarrow> return_reorder \<times> 'q return_queues
    \<Rightarrow> packet_buf option \<times> return_reorder \<times> 'q return_queues" where
  "next_ordered ops now n (r, rq) = (case reorder_pop r of
     Some (p, r') \<Rightarrow> (Some p, r', rq)
   | None \<Rightarrow> (case n of 0 \<Rightarrow> (None, r, rq)
     | Suc n \<Rightarrow> (case next_return_packet ops rq of
         (None, rq') \<Rightarrow> (None, r, rq')
       | (Some p, rq') \<Rightarrow> next_ordered ops now n (reorder_push now p r, rq'))))"

definition return_queued :: "('p, 'q) pq_ops \<Rightarrow> 'q return_queues \<Rightarrow> nat" where
  "return_queued ops rq = queued_len ops (rq_latency rq) + queued_len ops (rq_priority rq) + queued_len ops (rq_bulk rq)"

definition next_ordered_return_packet :: "(packet_buf, 'q) pq_ops \<Rightarrow> nat \<Rightarrow> return_reorder \<times> 'q return_queues
    \<Rightarrow> packet_buf option \<times> return_reorder \<times> 'q return_queues" where
  "next_ordered_return_packet ops now st = next_ordered ops now (return_queued ops (snd st) + 1) st"

definition higher_priority_waiting :: "('p, 'q) pq_ops \<Rightarrow> traffic_class \<Rightarrow> 'q return_queues \<Rightarrow> bool" where
  "higher_priority_waiting ops first_class rq = (case first_class of
     Small \<Rightarrow> False
   | Medium \<Rightarrow> has_queued_packet ops (rq_latency rq)
   | Bulk \<Rightarrow> has_queued_packet ops (rq_latency rq) \<or> has_queued_packet ops (rq_priority rq))"

text \<open>The inner loop of \<open>write_bridge\<close> (and of \<open>write_udp\<close>): at most \<open>n\<close> more packets.\<close>

fun fill_batch :: "(packet_buf, 'q) pq_ops \<Rightarrow> nat \<Rightarrow> traffic_class \<Rightarrow> nat \<Rightarrow> return_reorder \<times> 'q return_queues
    \<Rightarrow> packet_buf list \<times> return_reorder \<times> 'q return_queues" where
  "fill_batch ops now first_class 0 st = ([], st)"
| "fill_batch ops now first_class (Suc n) st = (if higher_priority_waiting ops first_class (snd st) then ([], st)
     else case next_ordered_return_packet ops now st of
       (None, st1) \<Rightarrow> ([], st1)
     | (Some p, r, rq) \<Rightarrow>
         if packet_class (as_slice p) \<noteq> first_class then ([], r\<lparr>rr_ready := p # rr_ready r\<rparr>, rq)
         else (let (ps, st2) = fill_batch ops now first_class n (r, rq) in (p # ps, st2)))"

definition return_batch :: "(packet_buf, 'q) pq_ops \<Rightarrow> nat \<Rightarrow> packet_buf \<Rightarrow> return_reorder \<times> 'q return_queues
    \<Rightarrow> packet_buf list \<times> return_reorder \<times> 'q return_queues" where
  "return_batch ops now first st = (let first_class = packet_class (as_slice first);
       (ps, st1) = fill_batch ops now first_class (datagram_batch first_class - 1) st
     in (first # ps, st1))"

text \<open>What the callbacks are called with: the batch callback gets a list, the single one a packet.\<close>

datatype downlink_call = BatchCall "bytes list" | SingleCall bytes

definition deliver_downlink :: "bool \<Rightarrow> bool \<Rightarrow> bytes \<Rightarrow> downlink_call list" where
  "deliver_downlink batch_set single_set packet = (if packet = [] then []
     else if batch_set then [BatchCall [packet]]
     else if single_set then [SingleCall packet] else [])"

definition DOWNLINK_MAX :: nat where "DOWNLINK_MAX = 128"

definition deliver_downlink_batch :: "bool \<Rightarrow> bool \<Rightarrow> packet_buf list \<Rightarrow> downlink_call list" where
  "deliver_downlink_batch batch_set single_set packets = (if packets = [] then []
     else if batch_set then
       (let slices = filter (\<lambda>s. s \<noteq> []) (map as_slice (take DOWNLINK_MAX packets))
        in if slices = [] then [] else [BatchCall slices])
     else concat (map (\<lambda>p. deliver_downlink batch_set single_set (as_slice p)) packets))"

section \<open>The uplink bridge\<close>

definition UPLINK_CAPACITY :: nat where "UPLINK_CAPACITY = 1024"
definition UPLINK_LATENCY_CAPACITY :: nat where "UPLINK_LATENCY_CAPACITY = 256"

record ('q, 'b) uplink_bridge =
  ub_pool :: "'b packet_pool"
  ub_queue :: 'q
  ub_latency :: 'q
  ub_wakes :: nat
  ub_cancelled :: bool

definition new_uplink :: "(packet_buf, 'q) queue_ops \<Rightarrow> 'b packet_pool \<Rightarrow> ('q, 'b) uplink_bridge" where
  "new_uplink ops pool = \<lparr>ub_pool = pool, ub_queue = qo_new ops UPLINK_CAPACITY,
     ub_latency = qo_new ops UPLINK_LATENCY_CAPACITY, ub_wakes = 0, ub_cancelled = False\<rparr>"

definition release_to :: "(bytes, 'b) queue_ops \<Rightarrow> packet_buf \<Rightarrow> ('q, 'b) uplink_bridge \<Rightarrow> ('q, 'b) uplink_bridge" where
  "release_to bops p b = b\<lparr>ub_pool := release_buf bops p (ub_pool b)\<rparr>"

text \<open>Packets that are not queued are dropped: their buffers return to the pool.\<close>

definition enqueue_uplink :: "(packet_buf, 'q) queue_ops \<Rightarrow> (bytes, 'b) queue_ops \<Rightarrow> packet_buf
    \<Rightarrow> ('q, 'b) uplink_bridge \<Rightarrow> bool \<times> ('q, 'b) uplink_bridge" where
  "enqueue_uplink ops bops packet b = (if keep_under_pressure (as_slice packet) then
       (case qo_push ops packet (ub_latency b) of
          Some q \<Rightarrow> (True, b\<lparr>ub_latency := q\<rparr>)
        | None \<Rightarrow>
            (let b1 = (case qo_pop ops (ub_latency b) of None \<Rightarrow> b
                 | Some (old, q) \<Rightarrow> release_to bops old (b\<lparr>ub_latency := q\<rparr>))
             in case qo_push ops packet (ub_latency b1) of
                 Some q \<Rightarrow> (True, b1\<lparr>ub_latency := q\<rparr>)
               | None \<Rightarrow> (False, release_to bops packet b1)))
     else case qo_push ops packet (ub_queue b) of
         Some q \<Rightarrow> (True, b\<lparr>ub_queue := q\<rparr>)
       | None \<Rightarrow> (False, release_to bops packet b))"

datatype inject_outcome = Queued | PoolEmpty | QueueFull | TooLong

text \<open>The part \<open>inject_packet\<close> and \<open>inject_packets\<close> share: a buffer, a copy of the data, the queue.\<close>

definition inject_one :: "(packet_buf, 'q) queue_ops \<Rightarrow> (bytes, 'b) queue_ops \<Rightarrow> bytes \<Rightarrow> bytes
    \<Rightarrow> ('q, 'b) uplink_bridge \<Rightarrow> inject_outcome \<times> ('q, 'b) uplink_bridge" where
  "inject_one ops bops fresh data b = (case try_acquire bops fresh (ub_pool b) of
     None \<Rightarrow> (PoolEmpty, b)
   | Some (packet, pool') \<Rightarrow>
       (let b1 = b\<lparr>ub_pool := pool'\<rparr> in
        if read_area_len < length data then (TooLong, release_to bops packet b1)
        else (let packet1 = write_at PACKET_HEADROOM data packet in
          case set_read_len (length data) packet1 of
            Inl e \<Rightarrow> (TooLong, release_to bops packet1 b1)
          | Inr packet2 \<Rightarrow> (case enqueue_uplink ops bops packet2 b1 of
              (False, b2) \<Rightarrow> (QueueFull, b2)
            | (True, b2) \<Rightarrow> (Queued, b2)))))"

definition inject_packet :: "(packet_buf, 'q) queue_ops \<Rightarrow> (bytes, 'b) queue_ops \<Rightarrow> bytes \<Rightarrow> nat \<Rightarrow> bytes
    \<Rightarrow> ('q, 'b) uplink_bridge option \<times> idle_state \<Rightarrow> int \<times> ('q, 'b) uplink_bridge option \<times> idle_state" where
  "inject_packet ops bops fresh now_ms data st = (case st of (slot, idle) \<Rightarrow>
    if data = [] \<or> PACKET_CAPACITY - PACKET_HEADROOM < length data then (-3, st)
    else case slot of None \<Rightarrow> (-1, st)
    | Some b \<Rightarrow> if ub_cancelled b then (-1, st)
      else let idle' = note_uplink now_ms data idle in
        (case inject_one ops bops fresh data b of
           (PoolEmpty, b1) \<Rightarrow> (-2, Some b1, idle')
         | (TooLong, b1) \<Rightarrow> (-3, Some b1, idle')
         | (QueueFull, b1) \<Rightarrow> (-2, Some b1, idle')
         | (Queued, b1) \<Rightarrow> (0, Some (if qo_len ops (ub_latency b1) + qo_len ops (ub_queue b1) = 1
              then b1\<lparr>ub_wakes := ub_wakes b1 + 1\<rparr> else b1), idle')))"

text \<open>The loop of \<open>inject_packets\<close>: the counters of queued and of failed packets.\<close>

definition inject_next :: "(packet_buf, 'q) queue_ops \<Rightarrow> (bytes, 'b) queue_ops \<Rightarrow> bytes \<Rightarrow> nat \<Rightarrow> bytes
    \<Rightarrow> (nat \<times> nat) \<times> ('q, 'b) uplink_bridge \<times> idle_state \<Rightarrow> (nat \<times> nat) \<times> ('q, 'b) uplink_bridge \<times> idle_state" where
  "inject_next ops bops fresh now_ms data r = (case r of ((queued, failed), b, idle) \<Rightarrow>
    if data = [] then r
    else let idle' = note_uplink now_ms data idle in
      (case inject_one ops bops fresh data b of
         (Queued, b1) \<Rightarrow> ((queued + 1, failed), b1, idle')
       | (_, b1) \<Rightarrow> ((queued, failed + 1), b1, idle')))"

definition inject_packets :: "(packet_buf, 'q) queue_ops \<Rightarrow> (bytes, 'b) queue_ops \<Rightarrow> bytes \<Rightarrow> nat \<Rightarrow> bytes list
    \<Rightarrow> ('q, 'b) uplink_bridge option \<times> idle_state \<Rightarrow> int \<times> ('q, 'b) uplink_bridge option \<times> idle_state" where
  "inject_packets ops bops fresh now_ms packets st = (case st of (slot, idle) \<Rightarrow>
    if packets = [] then (0, st)
    else case slot of None \<Rightarrow> (-1, st)
    | Some b \<Rightarrow> if ub_cancelled b then (-1, st)
      else (case fold (inject_next ops bops fresh now_ms) packets ((0, 0), b, idle) of
        ((queued, failed), b1, idle1) \<Rightarrow>
          if 0 < queued then (0, Some (b1\<lparr>ub_wakes := ub_wakes b1 + 1\<rparr>), idle1)
          else (if 0 < failed then -2 else 0, Some b1, idle1)))"

text \<open>The inner loop of \<open>read_bridge\<close>: latency packets first; each is stamped and handed to the dispatcher.\<close>

definition bridge_pop :: "(packet_buf, 'q) queue_ops \<Rightarrow> ('q, 'b) uplink_bridge \<Rightarrow> (packet_buf \<times> ('q, 'b) uplink_bridge) option" where
  "bridge_pop ops b = (case qo_pop ops (ub_latency b) of
     Some (p, q) \<Rightarrow> Some (p, b\<lparr>ub_latency := q\<rparr>)
   | None \<Rightarrow> (case qo_pop ops (ub_queue b) of
       Some (p, q) \<Rightarrow> Some (p, b\<lparr>ub_queue := q\<rparr>)
     | None \<Rightarrow> None))"

fun drain_bridge :: "(packet_buf, 'q) queue_ops \<Rightarrow> nat \<Rightarrow> flow_sequencer \<times> ('q, 'b) uplink_bridge
    \<Rightarrow> packet_buf list \<times> flow_sequencer \<times> ('q, 'b) uplink_bridge" where
  "drain_bridge ops 0 (s, b) = ([], s, b)"
| "drain_bridge ops (Suc n) (s, b) = (case bridge_pop ops b of
     None \<Rightarrow> ([], s, b)
   | Some (p, b1) \<Rightarrow> (case frame_outbound_packet s p of (ok, s1, p1) \<Rightarrow>
       (let (ps, st) = drain_bridge ops n (s1, b1) in (if ok then p1 # ps else ps, st))))"

definition read_bridge_round :: "(packet_buf, 'q) queue_ops \<Rightarrow> (packet_buf, 'w) pq_ops \<Rightarrow> (bytes, 'b) queue_ops \<Rightarrow> bytes
    \<Rightarrow> worker_channels list \<Rightarrow> (flow_sequencer \<times> ('q, 'b) uplink_bridge) \<times> scheduler \<times> ('w, 'b) dispatcher
    \<Rightarrow> nat \<times> (flow_sequencer \<times> ('q, 'b) uplink_bridge) \<times> scheduler \<times> ('w, 'b) dispatcher" where
  "read_bridge_round ops wops bops fresh source st = (case st of (sb, sd) \<Rightarrow>
    (let (ps, sb1) = drain_bridge ops (qo_len ops (ub_latency (snd sb)) + qo_len ops (ub_queue (snd sb))) sb
     in (sum_list (map buf_len ps), sb1, fold (dispatch_now wops bops fresh source) ps sd)))"

section \<open>Lemmas on framing\<close>

lemma framed_packet:
  assumes ok: "packet_ok p" "FRAME_LEN \<le> pb_start p" and h: "next_header s (as_slice p) = (Some h, s1)"
  obtains p1 where "frame_outbound_packet s p = (True, s1, p1)" "packet_ok p1" "as_slice p1 = frame_bytes h @ as_slice p"
proof -
  obtain c where c: "prepend (length (frame_bytes h)) p = Inr c" using ok(2) by (simp add: prepend_def)
  have cs: "c = p\<lparr>pb_start := pb_start p - FRAME_LEN\<rparr>" using c by (auto simp: prepend_def split: if_splits)
  have st: "pb_start p \<le> pb_end p" "pb_end p \<le> PACKET_CAPACITY" "length (pb_storage p) = PACKET_CAPACITY"
    using ok(1) by (simp_all add: packet_ok_def)
  have l: "length (subslice (pb_storage c) (pb_start c) (pb_start c + FRAME_LEN)) = FRAME_LEN"
    using cs ok(2) st by (simp add: length_subslice)
  hence e: "encode_frame h (subslice (pb_storage c) (pb_start c) (pb_start c + FRAME_LEN)) = (True, frame_bytes h)"
    by (simp add: encode_frame_def)
  show ?thesis
  proof (rule that)
    show "frame_outbound_packet s p = (True, s1, write_at (pb_start c) (frame_bytes h) c)"
      using h c e by (simp add: frame_outbound_packet_def)
    show "as_slice (write_at (pb_start c) (frame_bytes h) c) = frame_bytes h @ as_slice p" by (rule prepend_write [OF ok(1) c])
    show "packet_ok (write_at (pb_start c) (frame_bytes h) c)"
      by (rule packet_ok_ops(7) [OF packet_ok_ops(2) [OF ok(1) c]]) (use cs ok(2) st in simp)
  qed
qed

lemma framed_all:
  assumes "\<forall>p\<in>set ps. packet_ok p \<and> FRAME_LEN \<le> pb_start p"
    "\<forall>x\<in>set (fst (run_sequencer s (map as_slice ps))). x \<noteq> None"
  shows "length (fst (frame_all s ps)) = length ps \<and> (\<forall>i<length ps. packet_ok (fst (frame_all s ps) ! i)
    \<and> as_slice (fst (frame_all s ps) ! i)
        = frame_bytes (the (fst (run_sequencer s (map as_slice ps)) ! i)) @ as_slice (ps ! i))"
  using assms
proof (induction ps arbitrary: s)
  case (Cons p ps)
  obtain x s1 where n: "next_header s (as_slice p) = (x, s1)" by (cases "next_header s (as_slice p)")
  have r: "fst (run_sequencer s (map as_slice (p # ps))) = x # fst (run_sequencer s1 (map as_slice ps))"
    using n by (simp add: run_sequencer_Cons del: run_sequencer.simps)
  obtain h where h: "x = Some h" using Cons.prems(2) r by auto
  obtain p1 where p1: "frame_outbound_packet s p = (True, s1, p1)" "packet_ok p1" "as_slice p1 = frame_bytes h @ as_slice p"
    by (rule framed_packet [of p s h s1]) (use Cons.prems(1) n h in auto)
  have IH: "length (fst (frame_all s1 ps)) = length ps \<and> (\<forall>i<length ps. packet_ok (fst (frame_all s1 ps) ! i)
    \<and> as_slice (fst (frame_all s1 ps) ! i)
        = frame_bytes (the (fst (run_sequencer s1 (map as_slice ps)) ! i)) @ as_slice (ps ! i))"
    by (rule Cons.IH) (use Cons.prems r in auto)
  have f: "fst (frame_all s (p # ps)) = p1 # fst (frame_all s1 ps)" using p1(1) by (simp add: case_prod_beta)
  show ?case unfolding f r using IH p1 h by (auto simp: nth_Cons split: nat.splits)
qed simp

lemma framed_push:
  assumes "packet_ok p" "as_slice p = frame_bytes h @ d"
  obtains t where "trim_front FRAME_LEN p = Inr t" "as_slice t = d"
    "\<And>now r. reorder_push now p r = (let (ra, ready) = push_at h t now (rr_reassembler r) (rr_ready r)
        in \<lparr>rr_reassembler = ra, rr_ready = ready\<rparr>)"
proof -
  have "FRAME_LEN \<le> buf_len p" using length_as_slice [OF assms(1)] assms(2) by simp
  then obtain t where t: "trim_front FRAME_LEN p = Inr t" by (simp add: trim_front_def)
  have "as_slice t = d" using trim_slice [OF t] assms(2) by simp
  thus ?thesis using that t assms(2) by (simp add: reorder_push_def decode_frame_bytes)
qed

lemma reorder_all_push:
  assumes "\<forall>(h, p, v, now)\<in>set xs. trim_front FRAME_LEN p = Inr v \<and> (\<exists>d. as_slice p = frame_bytes h @ d)"
  shows "rr_ready (reorder_all (map (\<lambda>(h, p, v, now). (p, now)) xs) r)
    = snd (push_all (map (\<lambda>(h, p, v, now). (h, v, now)) xs) (rr_reassembler r) (rr_ready r))"
  using assms
proof (induction xs arbitrary: r)
  case (Cons x xs)
  obtain h p v now where x: "x = (h, p, v, now)" by (rule prod_cases4)
  obtain d where d: "trim_front FRAME_LEN p = Inr v" "as_slice p = frame_bytes h @ d" using Cons.prems x by auto
  obtain ra ready where pa: "push_at h v now (rr_reassembler r) (rr_ready r) = (ra, ready)"
    by (cases "push_at h v now (rr_reassembler r) (rr_ready r)")
  have "reorder_push now p r = \<lparr>rr_reassembler = ra, rr_ready = ready\<rparr>"
    using d pa by (simp add: reorder_push_def decode_frame_bytes)
  thus ?case using Cons.IH [of "\<lparr>rr_reassembler = ra, rr_ready = ready\<rparr>"] Cons.prems x pa by simp
qed simp

lemma single_flow_headers:
  assumes "\<forall>p\<in>set bs. tcp_flow_id p = Some fl"
  shows "fst (run_sequencer (with_sender_id s) bs) = map (\<lambda>i. Some (stream_header (max s 1) fl i)) [0..<length bs]"
proof -
  have all: "\<forall>h\<in>set (fst (run_sequencer q bs)). \<exists>x. h = Some x \<and> fh_flow_id x = fl" for q
    using assms
    by (induction bs arbitrary: q) (auto simp: run_sequencer_Cons next_header_def Let_def simp del: run_sequencer.simps(2))
  have strip: "(\<forall>h\<in>set hs. \<exists>x. h = Some x \<and> fh_flow_id x = fl) \<Longrightarrow> map Some (flow_headers fl hs) = hs" for hs
    by (induction hs) (auto simp: flow_headers_def)
  have "room_for {fl} (with_sender_id s)" "flows_of bs \<subseteq> {fl}"
    using assms by (auto simp: room_for_def with_sender_id_def flows_of_def MAX_TRACKED_FLOWS_def)
  from run_sequencer_consecutive [OF this, of fl]
  have "flow_headers fl (fst (run_sequencer (with_sender_id s) bs)) = map (stream_header (max s 1) fl) [0..<length bs]"
    using assms by (simp add: stream_header_def with_sender_id_def next_seq_def filter_id_conv cong: map_cong)
  from arg_cong [OF this, of "map Some"] show ?thesis using strip [OF all] by (simp add: comp_def)
qed

section \<open>Properties\<close>

text \<open>C1: the tunnel restores a TCP flow. Packets of one flow, stamped by \<open>frame_outbound_packet\<close> in pool buffers with
  headroom, carried over the paths and pushed in any order within the 12 ms deadline into a fresh \<open>ReturnReorder\<close>,
  come out complete, with the bytes they had before framing, in the order they were sent, as long as at most 97 are in flight.\<close>

theorem tunnel_restores_flow:
  assumes packets: "\<forall>p\<in>set ps. packet_ok p \<and> FRAME_LEN \<le> pb_start p \<and> tcp_flow_id (as_slice p) = Some fl"
      "length ps \<le> MAX_PENDING_PER_FLOW + 1"
    and arrived: "mset (map fst xs) = mset [0..<length ps]"
      "\<forall>x\<in>set xs. t0 \<le> snd x \<and> snd x < t0 + GAP_RELEASE_AFTER_MS"
  shows "map as_slice (rr_ready (reorder_all
      (map (\<lambda>(i, t). (fst (frame_all (with_sender_id s) ps) ! i, t)) xs) new_return_reorder)) = map as_slice ps"
proof -
  let ?bs = "map as_slice ps" and ?fs = "fst (frame_all (with_sender_id s) ps)"
  let ?h = "stream_header (max s 1) fl"
  have hs: "fst (run_sequencer (with_sender_id s) ?bs) = map (\<lambda>i. Some (?h i)) [0..<length ps]"
    using single_flow_headers [of ?bs fl s] packets(1) by simp
  have fr: "\<forall>i<length ps. packet_ok (?fs ! i) \<and> as_slice (?fs ! i) = frame_bytes (?h i) @ as_slice (ps ! i)"
    using framed_all [of ps "with_sender_id s"] packets(1) by (simp add: hs)
  define v where "v i = (case trim_front FRAME_LEN (?fs ! i) of Inl e \<Rightarrow> ?fs ! i | Inr t \<Rightarrow> t)" for i
  have v: "trim_front FRAME_LEN (?fs ! i) = Inr (v i)" "as_slice (v i) = as_slice (ps ! i)" if i: "i < length ps" for i
    by (rule framed_push [of "?fs ! i" "?h i" "as_slice (ps ! i)"]; use fr i in \<open>simp add: v_def\<close>)+
  have "set (map fst xs) = {..<length ps}" using arrived(1) by (metis atLeast0LessThan mset_eq_setD set_upt)
  hence ix: "\<forall>x\<in>set xs. fst x < length ps" by auto
  let ?ys = "map (\<lambda>(i, t). (?h i, ?fs ! i, v i, t)) xs"
  have "\<forall>(h, p, w, now)\<in>set ?ys. trim_front FRAME_LEN p = Inr w \<and> (\<exists>d. as_slice p = frame_bytes h @ d)"
    using ix v(1) fr by fastforce
  from reorder_all_push [OF this, of new_return_reorder]
  have "rr_ready (reorder_all (map (\<lambda>(i, t). (?fs ! i, t)) xs) new_return_reorder)
      = snd (push_all (arrivals (max s 1) fl v xs) \<lparr>fr_flows = [], fr_pending_total = 0\<rparr> [])"
    by (simp add: arrivals_def new_return_reorder_def comp_def case_prod_unfold)
  also have "\<dots> = map v [0..<length ps]"
    using reorder_window(1) [OF _ _ _ packets(2) arrived, of "\<lparr>fr_flows = [], fr_pending_total = 0\<rparr>" "max s 1" fl v "[]"]
      packets(2) by (simp add: MAX_TRACKED_FLOWS_def MAX_PENDING_TOTAL_def MAX_PENDING_PER_FLOW_def)
  finally show ?thesis using v(2) by (simp add: comp_def) (metis (no_types, lifting) atLeastLessThan_iff map_cong map_nth nth_map length_map set_upt)
qed

text \<open>A received data segment in a pool buffer.\<close>

definition sample_buf :: "byte \<Rightarrow> packet_buf" where
  "sample_buf b = (write_at PACKET_HEADROOM (sample_segment b) (buf_of (replicate PACKET_CAPACITY 0)))\<lparr>pb_end := PACKET_HEADROOM + 41\<rparr>"

lemma sample_buf: "packet_ok (sample_buf b)" "as_slice (sample_buf b) = sample_segment b" "pb_start (sample_buf b) = 64"
proof -
  have l: "length (sample_segment b) = 41" by (simp add: sample_segment_def)
  show "packet_ok (sample_buf b)" "pb_start (sample_buf b) = 64" using l
    by (simp_all add: packet_ok_def sample_buf_def write_at_def buf_of_def PACKET_HEADROOM_def PACKET_CAPACITY_def)
  show "as_slice (sample_buf b) = sample_segment b"
    using subslice_write [of PACKET_HEADROOM "sample_segment b" "replicate PACKET_CAPACITY 0"] l
    by (simp add: as_slice_def sample_buf_def write_at_def buf_of_def PACKET_HEADROOM_def PACKET_CAPACITY_def)
qed

lemma tunnel_restores_flow_witness:
  "let framed = fst (frame_all (with_sender_id 5) [sample_buf 7, sample_buf 8])
   in map as_slice (rr_ready (reorder_all [(framed ! 1, 0), (framed ! 0, 1)] new_return_reorder))
     = [sample_segment 7, sample_segment 8]"
proof -
  obtain fl where fl: "tcp_flow_id (sample_segment b) = Some fl" for b
    using sample_segment_flow by (metis option.exhaust)
  have "\<forall>p\<in>set [sample_buf 7, sample_buf 8]. packet_ok p \<and> FRAME_LEN \<le> pb_start p \<and> tcp_flow_id (as_slice p) = Some fl"
    using fl by (simp add: sample_buf FRAME_LEN_def)
  from tunnel_restores_flow [OF this, of "[(1, 0), (0, 1)]" 0 5]
  show ?thesis by (simp add: sample_buf MAX_PENDING_PER_FLOW_def GAP_RELEASE_AFTER_MS_def Let_def)
qed

lemma fill_batch_class:
  "length (fst (fill_batch ops now c n st)) \<le> n \<and> (\<forall>p\<in>set (fst (fill_batch ops now c n st)). packet_class (as_slice p) = c)"
proof (induction n arbitrary: st)
  case (Suc n)
  obtain x r rq where x: "next_ordered_return_packet ops now st = (x, r, rq)" by (rule prod_cases3)
  show ?case using Suc.IH [of "(r, rq)"] x
    by (cases x) (auto simp: case_prod_beta)
qed simp

lemma datagram_batch_bounds: "0 < datagram_batch c" "datagram_batch c \<le> DOWNLINK_MAX"
  by (cases c; simp add: DOWNLINK_MAX_def)+

text \<open>A downlink batch. The batch the writer hands to the callback starts with the packet it waited for, holds
  packets of one class only and at most 16, 64 or 128 of them by class, so that the callback, which takes
  at most 128, gets every nonempty packet of it in one call, in order.\<close>

theorem return_batch_delivered:
  assumes "return_batch ops now first st = (batch, st')"
  shows "batch \<noteq> [] \<and> hd batch = first \<and> length batch \<le> datagram_batch (packet_class (as_slice first))
    \<and> (\<forall>p\<in>set batch. packet_class (as_slice p) = packet_class (as_slice first))
    \<and> deliver_downlink_batch True single batch =
        (let slices = filter (\<lambda>s. s \<noteq> []) (map as_slice batch) in if slices = [] then [] else [BatchCall slices])"
proof -
  let ?c = "packet_class (as_slice first)"
  obtain ps where f: "fill_batch ops now ?c (datagram_batch ?c - 1) st = (ps, st')" "batch = first # ps"
    using assms by (auto simp: return_batch_def Let_def split: prod.splits)
  have c: "length ps \<le> datagram_batch ?c - 1 \<and> (\<forall>p\<in>set ps. packet_class (as_slice p) = ?c)"
    using fill_batch_class [of ops now ?c "datagram_batch ?c - 1" st] unfolding f(1) fst_conv .
  have "length ps \<le> datagram_batch ?c - 1" using c by blast
  hence l: "length batch \<le> datagram_batch ?c" using f(2) datagram_batch_bounds(1) [of ?c] by simp
  hence "take DOWNLINK_MAX batch = batch" using datagram_batch_bounds(2) [of ?c] by simp
  thus ?thesis using c f(2) l by (simp add: deliver_downlink_batch_def del: take_all_iff)
qed

definition empty_returns :: "(packet_buf queued_packet) list_queue return_queues" where
  "empty_returns = (let q = packet_channel list_queue_ops 4 True in \<lparr>rq_latency = q, rq_priority = q, rq_bulk = q\<rparr>)"

lemma return_batch_delivered_witness:
  "let batch = fst (return_batch list_queue_ops 0 (sample_buf 7) (new_return_reorder, empty_returns))
   in hd batch = sample_buf 7 \<and> length batch \<le> 128"
proof -
  obtain batch st' where b: "return_batch list_queue_ops 0 (sample_buf 7) (new_return_reorder, empty_returns) = (batch, st')"
    by (cases "return_batch list_queue_ops 0 (sample_buf 7) (new_return_reorder, empty_returns)")
  show ?thesis
    using return_batch_delivered [OF b, of True] datagram_batch_bounds(2) [of "packet_class (as_slice (sample_buf 7))"] b
    by (simp add: DOWNLINK_MAX_def)
qed

lemma inject_one_buffer:
  assumes "try_acquire bops fresh (ub_pool b) = Some (packet, pool')" "length (pb_storage packet) = PACKET_CAPACITY"
    "length data \<le> PACKET_CAPACITY - PACKET_HEADROOM"
  obtains p where "as_slice p = data" "inject_one ops bops fresh data b
     = (case enqueue_uplink ops bops p (b\<lparr>ub_pool := pool'\<rparr>) of (False, b2) \<Rightarrow> (QueueFull, b2) | (True, b2) \<Rightarrow> (Queued, b2))"
proof -
  let ?p = "write_at PACKET_HEADROOM data packet"
  have s: "set_read_len (length data) ?p = Inr (?p\<lparr>pb_start := PACKET_HEADROOM, pb_end := PACKET_HEADROOM + length data\<rparr>)"
    using assms(3) by (simp add: set_read_len_def)
  have "PACKET_HEADROOM + length data \<le> length (pb_storage packet)"
    using assms(2,3) by (simp add: PACKET_CAPACITY_def PACKET_HEADROOM_def)
  hence "as_slice (?p\<lparr>pb_start := PACKET_HEADROOM, pb_end := PACKET_HEADROOM + length data\<rparr>) = data"
    by (simp add: as_slice_def write_at_def subslice_write)
  thus ?thesis using that assms(1,3) s by (simp add: inject_one_def read_area_len_def Let_def)
qed

lemma enqueue_uplink_cases:
  fixes b :: "('q, 'b) uplink_bridge"
  assumes laws: "queue_laws ops items cap" and c: "0 < cap (ub_latency b)" "length (items (ub_latency b)) \<le> cap (ub_latency b)"
    and run: "enqueue_uplink ops bops p b = (ok, b')"
  shows "if keep_under_pressure (as_slice p) then ok \<and> ub_queue b' = ub_queue b
      \<and> items (ub_latency b') = (if length (items (ub_latency b)) = cap (ub_latency b) then tl (items (ub_latency b))
           else items (ub_latency b)) @ [p]
    else ub_latency b' = ub_latency b \<and> (if length (items (ub_queue b)) < cap (ub_queue b)
      then ok \<and> items (ub_queue b') = items (ub_queue b) @ [p] else \<not> ok \<and> ub_queue b' = ub_queue b)"
proof -
  have aq: "array_queue ops items cap" using laws by unfold_locales
  note push = array_queue.push_Some [OF aq] and none = array_queue.push_None [OF aq] and pop = array_queue.pop_Some [OF aq]
  show ?thesis
  proof (cases "keep_under_pressure (as_slice p)")
    case False
    show ?thesis
    proof (cases "qo_push ops p (ub_queue b)")
      case None
      thus ?thesis using run False none [of p "ub_queue b"] by (auto simp: enqueue_uplink_def release_to_def)
    next
      case (Some q)
      thus ?thesis using run False push [OF Some] by (auto simp: enqueue_uplink_def)
    qed
  next
    case True
    show ?thesis
    proof (cases "qo_push ops p (ub_latency b)")
      case (Some q)
      thus ?thesis using run True push [OF Some] by (auto simp: enqueue_uplink_def)
    next
      case None
      hence full: "length (items (ub_latency b)) = cap (ub_latency b)" using none [of p "ub_latency b"] c(2) by simp
      hence "qo_pop ops (ub_latency b) \<noteq> None" using array_queue.pop_None [OF aq, of "ub_latency b"] c(1) by auto
      then obtain old q where o: "qo_pop ops (ub_latency b) = Some (old, q)" by auto
      have q: "items (ub_latency b) = old # items q" "cap q = cap (ub_latency b)" using pop [OF o] by auto
      hence "qo_push ops p q \<noteq> None" using none [of p q] full by simp
      then obtain q' where q': "qo_push ops p q = Some q'" by auto
      have "items q' = items q @ [p]" using push [OF q'] by simp
      thus ?thesis using run True None o q q' full by (auto simp: enqueue_uplink_def release_to_def Let_def)
    qed
  qed
qed

text \<open>What \<open>inject_packet\<close> reports and does, on a bridge that is up. -3 exactly for an empty or an oversized
  packet, -2 exactly when the pool has no buffer or a packet without priority meets a full bulk queue,
  otherwise 0. With 0 a buffer with exactly these bytes is at the end of the right queue, the latency
  queue having given up its oldest packet if it was full; otherwise neither queue changes.\<close>

theorem inject_outcomes:
  fixes b :: "('q, 'b) uplink_bridge" and data fresh :: bytes and bops :: "(bytes, 'b) queue_ops" and cap :: "'q \<Rightarrow> nat"
  assumes laws: "queue_laws ops items cap" and c: "0 < cap (ub_latency b)" "length (items (ub_latency b)) \<le> cap (ub_latency b)"
    and up: "\<not> ub_cancelled b"
    and pool: "\<forall>x p1. try_acquire bops fresh (ub_pool b) = Some (x, p1) \<longrightarrow> length (pb_storage x) = PACKET_CAPACITY"
  defines "fits \<equiv> data \<noteq> [] \<and> length data \<le> PACKET_CAPACITY - PACKET_HEADROOM"
    and "refused \<equiv> try_acquire bops fresh (ub_pool b) = None
        \<or> (\<not> keep_under_pressure data \<and> cap (ub_queue b) \<le> length (items (ub_queue b)))"
  shows "\<exists>b'. fst (snd (inject_packet ops bops fresh now data (Some b, idle))) = Some b' \<and>
     (let rc = fst (inject_packet ops bops fresh now data (Some b, idle)) in
       rc = (if \<not> fits then -3 else if refused then -2 else 0) \<and>
       (if rc \<noteq> 0 then ub_queue b' = ub_queue b \<and> ub_latency b' = ub_latency b
        else \<exists>p. as_slice p = data \<and>
          (if keep_under_pressure data then ub_queue b' = ub_queue b \<and> items (ub_latency b') =
             (if length (items (ub_latency b)) = cap (ub_latency b) then tl (items (ub_latency b)) else items (ub_latency b)) @ [p]
           else ub_latency b' = ub_latency b \<and> items (ub_queue b') = items (ub_queue b) @ [p])))"
proof (cases fits)
  case False
  thus ?thesis by (auto simp: inject_packet_def fits_def)
next
  case fit: True
  hence g: "\<not> (data = [] \<or> PACKET_CAPACITY - PACKET_HEADROOM < length data)" by (auto simp: fits_def)
  show ?thesis
  proof (cases "try_acquire bops fresh (ub_pool b)")
    case None
    thus ?thesis using g up fit by (simp add: inject_packet_def inject_one_def refused_def Let_def)
  next
    case (Some y)
    obtain packet pool' where y: "y = (packet, pool')" by (cases y)
    obtain p where p: "as_slice p = data" and i: "inject_one ops bops fresh data b
        = (case enqueue_uplink ops bops p (b\<lparr>ub_pool := pool'\<rparr>) of (False, b2) \<Rightarrow> (QueueFull, b2) | (True, b2) \<Rightarrow> (Queued, b2))"
      by (rule inject_one_buffer [of bops fresh b packet pool' data ops]) (use Some y pool g in auto)
    obtain ok b2 where e: "enqueue_uplink ops bops p (b\<lparr>ub_pool := pool'\<rparr>) = (ok, b2)"
      by (cases "enqueue_uplink ops bops p (b\<lparr>ub_pool := pool'\<rparr>)")
    note cs = enqueue_uplink_cases [OF laws _ _ e, simplified, OF c, unfolded p]
    show ?thesis
    proof (cases ok)
      case True
      have "\<not> refused" using cs True Some by (auto simp: refused_def split: if_splits)
      moreover obtain b' where "inject_packet ops bops fresh now data (Some b, idle) = (0, Some b', note_uplink now data idle)"
        "ub_queue b' = ub_queue b2" "ub_latency b' = ub_latency b2"
        using g up i e True by (simp add: inject_packet_def Let_def)
      ultimately show ?thesis using cs True p fit by (auto split: if_splits)
    next
      case False
      have "refused" using cs False by (auto simp: refused_def not_less split: if_splits)
      moreover have "inject_packet ops bops fresh now data (Some b, idle) = (-2, Some b2, note_uplink now data idle)"
        using g up i e False by (simp add: inject_packet_def Let_def)
      ultimately show ?thesis using cs False fit by (auto split: if_splits)
    qed
  qed
qed

lemma inject_outcomes_witness:
  "let b = new_uplink list_queue_ops (new_pool list_queue_ops 2);
       r = inject_packet list_queue_ops list_queue_ops (replicate PACKET_CAPACITY 0) 0 (sample_segment 7) (Some b, initial_idle)
   in fst r = 0"
proof -
  let ?b = "new_uplink list_queue_ops (new_pool list_queue_ops 2)"
  let ?f = "replicate PACKET_CAPACITY (0 :: byte)"
  have a: "try_acquire list_queue_ops ?f (ub_pool ?b)
      = Some (buf_of ?f, (new_pool list_queue_ops 2)\<lparr>pl_allocated := 1\<rparr>)"
    by (simp add: new_uplink_def new_pool_def list_queue_ops_def try_acquire_def PACKET_POOL_RETAINED_MAX_def)
  have q: "lq_items (ub_queue ?b) = []" "lq_items (ub_latency ?b) = []" "lq_cap (ub_latency ?b) = 256"
    "lq_cap (ub_queue ?b) = 1024" "\<not> ub_cancelled ?b"
    by (simp_all add: new_uplink_def list_queue_ops_def UPLINK_LATENCY_CAPACITY_def UPLINK_CAPACITY_def)
  have l: "sample_segment 7 \<noteq> []" "length (sample_segment 7) \<le> PACKET_CAPACITY - PACKET_HEADROOM"
    by (simp_all add: sample_segment_def PACKET_CAPACITY_def PACKET_HEADROOM_def)
  have "\<forall>x p1. try_acquire list_queue_ops ?f (ub_pool ?b) = Some (x, p1) \<longrightarrow> length (pb_storage x) = PACKET_CAPACITY"
    by (simp add: a buf_of_def)
  from inject_outcomes [OF list_queue_laws _ _ q(5) this, where data = "sample_segment 7" and now = 0 and idle = initial_idle] show ?thesis
    using l by (auto simp: q a Let_def)
qed

end
