(* ===== verification/Obfs.thy ===== *)
theory Obfs
  imports Packet
begin

text \<open>
  \<open>obfs.rs\<close>: every packet travels inside an RTP packet, as SRTP (video) or as ChaCha20-Poly1305
  (audio), with random padding. The ciphers are library routines and an argument, the record
  \<open>obfs_crypto\<close>; their documented behaviour is \<open>obfs_laws\<close>. Random numbers and the elapsed time are arguments.
\<close>

section \<open>Data\<close>

datatype obfs_mode = Audio | Video

record obfs_config =
  oc_padding_max :: nat
  oc_ssrc :: u32
  oc_payload_type :: byte
  oc_mode :: obfs_mode

record obfs_state =
  os_count :: u64
  os_initial_timestamp :: u32
  os_initial_abs_send_time :: u32
  os_initial_sequence :: u16
  os_transport_sequence :: u16

datatype obfs_error =
    EmptyPayload | ExceedsCapacity | WrapPacket packet_error
  | NotRtp | PayloadTypeUnsupported | ExtensionTruncated | HeaderTruncated
  | TagMissing | AuthenticationFailed | PaddingInvalid | PayloadTypeMismatch | PayloadOrTagMissing

text \<open>AES-128 in counter mode and its inverse, HMAC-SHA1, and the two directions of ChaCha20-Poly1305
  (nonce, associated data, text), all under the connection's keys.\<close>

record obfs_crypto =
  ox_ctr :: "bytes \<Rightarrow> bytes \<Rightarrow> bytes"
  ox_hmac :: "bytes \<Rightarrow> bytes"
  ox_seal :: "bytes \<Rightarrow> bytes \<Rightarrow> bytes \<Rightarrow> bytes \<times> bytes"
  ox_open :: "bytes \<Rightarrow> bytes \<Rightarrow> bytes \<Rightarrow> bytes \<Rightarrow> bytes option"

definition obfs_laws :: "obfs_crypto \<Rightarrow> bool" where
  "obfs_laws ox \<longleftrightarrow>
     (\<forall>iv d. length (ox_ctr ox iv d) = length d \<and> ox_ctr ox iv (ox_ctr ox iv d) = d)
   \<and> (\<forall>m. length (ox_hmac ox m) = 20)
   \<and> (\<forall>n a p. length (fst (ox_seal ox n a p)) = length p \<and> length (snd (ox_seal ox n a p)) = 16
        \<and> ox_open ox n a (snd (ox_seal ox n a p)) (fst (ox_seal ox n a p)) = Some p)
   \<and> (\<forall>n a t c p. ox_open ox n a t c = Some p \<longrightarrow> length p = length c)"

definition parse_mode :: "string \<Rightarrow> obfs_mode option" where
  "parse_mode s = (if s = ''audio'' then Some Audio else if s = ''video'' then Some Video else None)"

definition new_obfs_config :: "u32 \<Rightarrow> obfs_mode \<Rightarrow> obfs_config" where
  "new_obfs_config ssrc m = (case m of
     Audio \<Rightarrow> \<lparr>oc_padding_max = 24, oc_ssrc = ssrc, oc_payload_type = 111, oc_mode = m\<rparr>
   | Video \<Rightarrow> \<lparr>oc_padding_max = 60, oc_ssrc = ssrc, oc_payload_type = 96, oc_mode = m\<rparr>)"

definition next_count :: "obfs_state \<Rightarrow> (u64 \<times> u16) \<times> obfs_state" where
  "next_count s = ((os_count s, os_transport_sequence s),
     s\<lparr>os_count := os_count s + 1, os_transport_sequence := os_transport_sequence s + 1\<rparr>)"

definition initial_sequence :: "obfs_state \<Rightarrow> u64 \<Rightarrow> u16" where
  "initial_sequence s n = os_initial_sequence s + ucast n"

definition rtp_clock_rate :: "byte \<Rightarrow> nat" where
  "rtp_clock_rate pt = (if pt = 96 then 90000 else 48000)"

text \<open>\<open>duration_ticks\<close>: the 64-bit wrap-around of the source disappears in the final cast to 32 bits.\<close>

definition duration_ticks :: "nat \<Rightarrow> nat \<Rightarrow> u32" where
  "duration_ticks elapsed rate =
     word_of_nat (elapsed div 1000000000 * rate + elapsed mod 1000000000 * rate div 1000000000)"

definition nonce :: "u32 \<Rightarrow> u16 \<Rightarrow> u32 \<Rightarrow> bytes" where
  "nonce ssrc sequence timestamp = u32_to_be ssrc @ u16_to_be sequence @ [0, 0] @ u32_to_be timestamp"

definition srtp_iv :: "u32 \<Rightarrow> u16 \<Rightarrow> u32 \<Rightarrow> bytes" where
  "srtp_iv ssrc sequence timestamp =
     u32_to_be ssrc @ u16_to_be sequence @ [0, 0] @ u32_to_be timestamp @ [0, 0, 0, 0]"

definition is_rtp_packet :: "bytes \<Rightarrow> bool" where
  "is_rtp_packet wire \<longleftrightarrow> 13 \<le> length wire \<and> drop_bit 6 (wire ! 0) = 2 \<and> wire ! 1 AND 0x7f \<in> {111, 96, 6}"

section \<open>Wrapping\<close>

text \<open>The random draws of one call: the marker roll, the padding length and its bytes.\<close>

record wrap_random =
  wr_marker_roll :: nat
  wr_padding :: bytes

definition type_byte :: "byte \<Rightarrow> nat \<Rightarrow> byte" where
  "type_byte pt roll = (if pt = 96 \<and> roll = 0 then (pt AND 0x7f) OR 0x80 else pt AND 0x7f)"

definition rtp_header :: "obfs_config \<Rightarrow> nat \<Rightarrow> u16 \<Rightarrow> u32 \<Rightarrow> u32 \<Rightarrow> u16 \<Rightarrow> bytes" where
  "rtp_header cfg roll sequence timestamp send_time transport =
     [0xb0 OR 0x20, type_byte (oc_payload_type cfg) roll] @ u16_to_be sequence @ u32_to_be timestamp
     @ u32_to_be (oc_ssrc cfg) @ u16_to_be 0xbede @ u16_to_be 2
     @ [0x32, ucast (drop_bit 16 send_time), ucast (drop_bit 8 send_time), ucast send_time, 0x51]
     @ u16_to_be transport @ [0]"

text \<open>Writing \<open>d\<close> at offset \<open>k\<close> of the visible bytes.\<close>

definition overwrite :: "nat \<Rightarrow> bytes \<Rightarrow> packet_buf \<Rightarrow> packet_buf" where
  "overwrite k d b = write_at (pb_start b + k) d b"

definition wrap_video :: "obfs_crypto \<Rightarrow> bytes \<Rightarrow> nat \<Rightarrow> bytes \<Rightarrow> packet_buf \<Rightarrow> packet_buf" where
  "wrap_video ox iv payload_len padding b =
    (let b1 = overwrite 24 (ox_ctr ox iv (subslice (as_slice b) 24 (24 + payload_len))) b;
         b2 = overwrite (24 + payload_len) (padding @ [word_of_nat (length padding + 1)]) b1;
         tag_start = 24 + payload_len + (length padding + 1)
     in overwrite tag_start (take 10 (ox_hmac ox (take tag_start (as_slice b2)))) b2)"

definition wrap_audio :: "obfs_crypto \<Rightarrow> bytes \<Rightarrow> nat \<Rightarrow> bytes \<Rightarrow> packet_buf \<Rightarrow> packet_buf" where
  "wrap_audio ox nc payload_len padding b =
    (let (c, tag) = ox_seal ox nc (take 24 (as_slice b)) (subslice (as_slice b) 24 (24 + payload_len));
         b1 = overwrite 24 c b;
         b2 = overwrite (24 + payload_len) tag b1
     in overwrite (24 + payload_len + 16) (padding @ [word_of_nat (length padding + 1)]) b2)"

definition wrap :: "obfs_crypto \<Rightarrow> obfs_config \<Rightarrow> nat \<Rightarrow> wrap_random \<Rightarrow> packet_buf \<Rightarrow> obfs_state
    \<Rightarrow> (obfs_error + packet_buf) \<times> obfs_state" where
  "wrap ox cfg elapsed rnd b s =
    (if buf_is_empty b then (Inl EmptyPayload, s) else
     let payload_len = buf_len b;
         ((n, transport), s1) = next_count s;
         sequence = initial_sequence s1 n;
         timestamp = os_initial_timestamp s1 + duration_ticks elapsed (rtp_clock_rate (oc_payload_type cfg));
         padding = wr_padding rnd;
         padding_total = length padding + 1;
         tail = (if oc_mode cfg = Video then padding_total + 10 else padding_total + 16)
     in if pb_start b < 24 \<or> PACKET_CAPACITY < pb_end b + tail then (Inl ExceedsCapacity, s1) else
     let send_time = (os_initial_abs_send_time s1 + duration_ticks elapsed 262144) AND 0xffffff
     in case prepend 24 b of Inl e \<Rightarrow> (Inl (WrapPacket e), s1)
        | Inr b1 \<Rightarrow>
          let b2 = write_at (pb_start b1) (rtp_header cfg (wr_marker_roll rnd) sequence timestamp send_time transport) b1
          in case extend_tail tail b2 of Inl e \<Rightarrow> (Inl (WrapPacket e), s1)
             | Inr b3 \<Rightarrow>
               (Inr (if oc_mode cfg = Video
                     then wrap_video ox (srtp_iv (oc_ssrc cfg) sequence timestamp) payload_len padding b3
                     else wrap_audio ox (nonce (oc_ssrc cfg) sequence timestamp) payload_len padding b3), s1))"

section \<open>Unwrapping\<close>

definition rtp_header_len :: "bytes \<Rightarrow> obfs_error + nat" where
  "rtp_header_len wire =
    (if wire ! 0 AND 0x10 \<noteq> 0 then
       (if length wire < 16 then Inl ExtensionTruncated
        else Inr (12 + (4 + unat (u16_of_be [wire ! 14, wire ! 15]) * 4)))
     else Inr 12)"

text \<open>The end of the payload once the padding is removed; \<open>e\<close> is the end of the padded part.\<close>

definition strip_padding :: "bytes \<Rightarrow> nat \<Rightarrow> nat \<Rightarrow> obfs_error + nat" where
  "strip_padding wire header_len e =
    (if wire ! 0 AND 0x20 \<noteq> 0 then
       let padding = unat (wire ! (e - 1))
       in if padding = 0 \<or> e - header_len < padding then Inl PaddingInvalid else Inr (e - padding)
     else Inr e)"

definition unwrap_video :: "obfs_crypto \<Rightarrow> u16 \<Rightarrow> u32 \<Rightarrow> u32 \<Rightarrow> nat \<Rightarrow> packet_buf \<Rightarrow> obfs_error + u16 \<times> packet_buf" where
  "unwrap_video ox sequence timestamp ssrc header_len b =
    (let wire = as_slice b in
     if length wire < header_len + 10 then Inl TagMissing else
     let tag_start = length wire - 10 in
     if take 10 (ox_hmac ox (take tag_start wire)) \<noteq> drop tag_start wire then Inl AuthenticationFailed
     else case strip_padding wire header_len tag_start of Inl e \<Rightarrow> Inl e
     | Inr payload_end \<Rightarrow>
       let b1 = overwrite header_len (ox_ctr ox (srtp_iv ssrc sequence timestamp)
                  (subslice wire header_len payload_end)) b
       in case set_range (pb_start b + header_len) (pb_start b + payload_end) b1 of
            Inl e \<Rightarrow> Inl (WrapPacket e) | Inr b2 \<Rightarrow> Inr (sequence, b2))"

definition unwrap_audio :: "obfs_crypto \<Rightarrow> byte \<Rightarrow> u16 \<Rightarrow> u32 \<Rightarrow> u32 \<Rightarrow> nat \<Rightarrow> packet_buf
    \<Rightarrow> obfs_error + u16 \<times> packet_buf" where
  "unwrap_audio ox payload_type sequence timestamp ssrc header_len b =
    (let wire = as_slice b in
     if payload_type \<noteq> 111 then Inl PayloadTypeMismatch
     else case strip_padding wire header_len (length wire) of Inl e \<Rightarrow> Inl e
     | Inr payload_end \<Rightarrow>
       if payload_end \<le> header_len + 16 then Inl PayloadOrTagMissing else
       let tag_start = payload_end - 16;
           tag = subslice wire tag_start payload_end
       in case ox_open ox (nonce ssrc sequence timestamp) (take header_len wire) tag
                 (subslice wire header_len tag_start) of
            None \<Rightarrow> Inl AuthenticationFailed
          | Some plain \<Rightarrow>
            (case set_range (pb_start b + header_len) (pb_start b + tag_start) (overwrite header_len plain b) of
               Inl e \<Rightarrow> Inl (WrapPacket e) | Inr b2 \<Rightarrow> Inr (sequence, b2)))"

definition unwrap :: "obfs_crypto \<Rightarrow> obfs_mode \<Rightarrow> packet_buf \<Rightarrow> obfs_error + u16 \<times> packet_buf" where
  "unwrap ox m b =
    (let wire = as_slice b in
     if length wire < 13 \<or> drop_bit 6 (wire ! 0) \<noteq> 2 then Inl NotRtp else
     let payload_type = wire ! 1 AND 0x7f in
     if payload_type \<notin> {111, 96, 6} then Inl PayloadTypeUnsupported else
     let sequence = u16_of_be [wire ! 2, wire ! 3];
         timestamp = u32_of_be (subslice wire 4 8);
         ssrc = u32_of_be (subslice wire 8 12)
     in case rtp_header_len wire of Inl e \<Rightarrow> Inl e
     | Inr header_len \<Rightarrow>
       if length wire < header_len then Inl HeaderTruncated
       else if m = Video then unwrap_video ox sequence timestamp ssrc header_len b
       else unwrap_audio ox payload_type sequence timestamp ssrc header_len b)"

section \<open>Views\<close>

lemma overwrite_view:
  assumes "packet_ok b" "k + length d \<le> length (as_slice b)"
  shows "as_slice (overwrite k d b) = take k (as_slice b) @ d @ drop (k + length d) (as_slice b)"
    "packet_ok (overwrite k d b)" "pb_start (overwrite k d b) = pb_start b" "pb_end (overwrite k d b) = pb_end b"
proof -
  let ?s = "pb_storage b" and ?a = "pb_start b" and ?e = "pb_end b"
  have b: "?a \<le> ?e" "?e \<le> length ?s" "length ?s = PACKET_CAPACITY" using assms(1) by (auto simp: packet_ok_def)
  have fit: "?a + k + length d \<le> ?e" using assms b by (simp add: length_as_slice buf_len_def)
  show "pb_start (overwrite k d b) = ?a" "pb_end (overwrite k d b) = ?e" by (simp_all add: overwrite_def write_at_def)
  show "packet_ok (overwrite k d b)" unfolding overwrite_def
    by (rule packet_ok_ops(7) [OF assms(1)]) (use fit b in simp)
  let ?n = "?e - ?a"
  have 1: "take k (as_slice b) = take k (drop ?a ?s)" using fit by (simp add: as_slice_def subslice_def min_def)
  have 2: "drop (k + length d) (as_slice b) = take (?n - (k + length d)) (drop (?a + (k + length d)) ?s)"
    by (simp add: as_slice_def subslice_def drop_take add.commute)
  have 0: "as_slice (overwrite k d b) = take ?n (drop ?a (take (?a + k) ?s @ d @ drop (?a + k + length d) ?s))"
    by (simp add: as_slice_def overwrite_def write_at_def subslice_def)
  have 3: "drop ?a (take (?a + k) ?s @ d @ drop (?a + k + length d) ?s) = take k (drop ?a ?s) @ d @ drop (?a + k + length d) ?s"
    using fit b by (simp add: drop_take)
  have 4: "take ?n (take k (drop ?a ?s) @ d @ drop (?a + k + length d) ?s)
      = take k (drop ?a ?s) @ d @ take (?n - (k + length d)) (drop (?a + k + length d) ?s)"
  proof -
    have "length (take k (drop ?a ?s)) = k" using fit b by simp
    moreover have "k + length d \<le> ?n" using fit by simp
    ultimately show ?thesis by (simp add: add.assoc)
  qed
  show "as_slice (overwrite k d b) = take k (as_slice b) @ d @ drop (k + length d) (as_slice b)"
    unfolding 0 1 2 3 4 by (simp only: add.assoc)
qed

lemma extend_view:
  assumes "packet_ok b" "extend_tail n b = Inr c"
  shows "\<exists>junk. length junk = n \<and> as_slice c = as_slice b @ junk" "packet_ok c"
proof -
  show ok: "packet_ok c" by (rule packet_ok_ops(3) [OF assms])
  have c: "c = b\<lparr>pb_end := pb_end b + n\<rparr>" "pb_end b + n \<le> PACKET_CAPACITY"
    using assms(2) by (auto simp: extend_tail_def split: option.splits if_splits)
  have "as_slice c = subslice (pb_storage b) (pb_start b) (pb_end b) @ subslice (pb_storage b) (pb_end b) (pb_end b + n)"
    using assms(1) c(1) by (simp add: as_slice_def subslice_append packet_ok_def)
  moreover have "length (subslice (pb_storage b) (pb_end b) (pb_end b + n)) = n"
    using c(2) assms(1) by (simp add: packet_ok_def length_subslice)
  ultimately show "\<exists>junk. length junk = n \<and> as_slice c = as_slice b @ junk" by (auto simp: as_slice_def)
qed

lemma set_range_view:
  assumes "packet_ok b" "s \<le> e" "e \<le> length (as_slice b)"
  shows "\<exists>c. set_range (pb_start b + s) (pb_start b + e) b = Inr c \<and> as_slice c = subslice (as_slice b) s e"
proof -
  have "pb_start b + e \<le> pb_end b" "pb_end b \<le> PACKET_CAPACITY" using assms by (auto simp: packet_ok_def length_as_slice buf_len_def)
  thus ?thesis using assms(2) by (simp add: set_range_def as_slice_def subslice_def drop_take add.commute min_def)
qed

section \<open>The wire image\<close>

lemma length_rtp_header [simp]: "length (rtp_header cfg roll q t a x) = 24"
  by (simp add: rtp_header_def)

lemma length_4_list: "length xs = 4 \<Longrightarrow> \<exists>a b c d. xs = [a, b, c, d]"
  by (auto simp: eval_nat_numeral length_Suc_conv)

lemma four_bytes: "\<exists>a b c d. u32_to_be w = [a, b, c, d]"
  by (rule length_4_list) simp

lemma rtp_header_fields:
  fixes roll :: nat and q x :: u16 and t a :: u32 and r :: bytes
  assumes "cfg = new_obfs_config ssrc m"
  defines "w \<equiv> rtp_header cfg roll q t a x @ r"
  shows "w ! 0 = 0xb0" "w ! 1 AND 0x7f = oc_payload_type cfg" "u16_of_be [w ! 2, w ! 3] = q"
    "u32_of_be (subslice w 4 8) = t" "u32_of_be (subslice w 8 12) = ssrc" "rtp_header_len w = Inr 24"
proof -
  obtain t1 t2 t3 t4 where t: "u32_to_be t = [t1, t2, t3, t4]" using four_bytes by blast
  obtain s1 s2 s3 s4 where s: "u32_to_be ssrc = [s1, s2, s3, s4]" using four_bytes by blast
  have ssrc: "oc_ssrc cfg = ssrc" using assms(1) by (cases m) (simp_all add: new_obfs_config_def)
  obtain y where w: "w = [0xb0, type_byte (oc_payload_type cfg) roll, word_of_nat (unat q div 256), word_of_nat (unat q mod 256),
      t1, t2, t3, t4, s1, s2, s3, s4, 0xbe, 0xde, 0, 2] @ y"
  proof
    show "w = [0xb0, type_byte (oc_payload_type cfg) roll, word_of_nat (unat q div 256), word_of_nat (unat q mod 256),
      t1, t2, t3, t4, s1, s2, s3, s4, 0xbe, 0xde, 0, 2] @ ([0x32, ucast (drop_bit 16 a), ucast (drop_bit 8 a), ucast a, 0x51]
     @ u16_to_be x @ [0] @ r)"
      by (simp add: w_def rtp_header_def u16_to_be_eq [of q] t s ssrc u16_to_be_eq [of "0xbede"] u16_to_be_eq [of 2])
  qed
  show "w ! 0 = 0xb0" by (simp add: w)
  show "w ! 1 AND 0x7f = oc_payload_type cfg"
    using assms(1) by (cases m) (simp_all add: w type_byte_def new_obfs_config_def)
  show "u16_of_be [w ! 2, w ! 3] = q" using u16_of_to_be [of q] by (simp add: w u16_to_be_eq)
  have "subslice w 4 8 = u32_to_be t" "subslice w 8 12 = u32_to_be ssrc"
    unfolding t s by (simp_all add: w subslice_def)
  thus "u32_of_be (subslice w 4 8) = t" "u32_of_be (subslice w 8 12) = ssrc" by simp_all
  have "unat (u16_of_be [0, 2]) = 2" by (simp add: unat_u16_of_be be_nat_def)
  thus "rtp_header_len w = Inr 24" by (simp add: rtp_header_len_def w)
qed

lemma replace_middle:
  "length a = i \<Longrightarrow> length d = length c \<Longrightarrow> take i (a @ c @ r) @ d @ drop (i + length d) (a @ c @ r) = a @ d @ r"
  by simp

lemma overwrite_middle:
  assumes "packet_ok b" "as_slice b = a @ c @ r" "length d = length c" "length a = i"
  shows "as_slice (overwrite i d b) = a @ d @ r" "packet_ok (overwrite i d b)"
    "pb_start (overwrite i d b) = pb_start b" "pb_end (overwrite i d b) = pb_end b"
proof -
  have f: "i + length d \<le> length (as_slice b)" using assms(2-4) by simp
  note v = overwrite_view [OF assms(1) f]
  show "as_slice (overwrite i d b) = a @ d @ r" using v(1) assms(2-4) by simp
  show "packet_ok (overwrite i d b)" "pb_start (overwrite i d b) = pb_start b" "pb_end (overwrite i d b) = pb_end b"
    using v by simp_all
qed

definition video_wire :: "obfs_crypto \<Rightarrow> bytes \<Rightarrow> bytes \<Rightarrow> bytes \<Rightarrow> bytes \<Rightarrow> bytes" where
  "video_wire ox iv h p padding =
    (let body = h @ ox_ctr ox iv p @ padding @ [word_of_nat (length padding + 1)]
     in body @ take 10 (ox_hmac ox body))"

definition audio_wire :: "obfs_crypto \<Rightarrow> bytes \<Rightarrow> bytes \<Rightarrow> bytes \<Rightarrow> bytes \<Rightarrow> bytes" where
  "audio_wire ox nc h p padding =
    (let (c, tag) = ox_seal ox nc h p in h @ c @ tag @ padding @ [word_of_nat (length padding + 1)])"

lemma wrap_video_view:
  assumes "obfs_laws ox" "packet_ok b" "as_slice b = h @ p @ junk" "length h = 24" "length p = n"
    "length junk = length padding + 1 + 10"
  shows "as_slice (wrap_video ox iv n padding b) = video_wire ox iv h p padding" "packet_ok (wrap_video ox iv n padding b)"
proof -
  let ?c = "ox_ctr ox iv p" and ?pad = "padding @ [word_of_nat (length padding + 1)]"
  have lc: "length ?c = length p" "length (take 10 (ox_hmac ox m)) = 10" for m using assms(1) by (auto simp: obfs_laws_def)
  obtain j1 j2 where j: "junk = j1 @ j2" "length j1 = length padding + 1" "length j2 = 10"
    using assms(6) by (metis append_take_drop_id diff_add_inverse length_drop length_take min_absorb2 le_add1)
  let ?b1 = "overwrite 24 ?c b"
  have sub: "subslice (as_slice b) 24 (24 + n) = p" using assms(3-5) by (simp add: subslice_def)
  have b1: "as_slice ?b1 = h @ ?c @ junk" "packet_ok ?b1"
    using overwrite_middle [OF assms(2,3) lc(1) assms(4)] by simp_all
  let ?b2 = "overwrite (24 + n) ?pad ?b1"
  have b2: "as_slice ?b2 = h @ ?c @ ?pad @ j2" "packet_ok ?b2"
    using overwrite_middle [OF b1(2), of "h @ ?c" j1 j2 ?pad "24 + n"] b1(1) j lc assms(4,5) by simp_all
  let ?ts = "24 + n + (length padding + 1)"
  have t: "take ?ts (as_slice ?b2) = h @ ?c @ ?pad" using b2(1) lc assms(4,5) by simp
  let ?tag = "take 10 (ox_hmac ox (h @ ?c @ ?pad))"
  have "as_slice (overwrite ?ts ?tag ?b2) = (h @ ?c @ ?pad) @ ?tag @ []" "packet_ok (overwrite ?ts ?tag ?b2)"
    using overwrite_middle [OF b2(2), of "h @ ?c @ ?pad" j2 "[]" ?tag ?ts] b2(1) j lc assms(4,5) by simp_all
  thus "as_slice (wrap_video ox iv n padding b) = video_wire ox iv h p padding" "packet_ok (wrap_video ox iv n padding b)"
    using t by (simp_all add: wrap_video_def video_wire_def Let_def sub)
qed

lemma wrap_audio_view:
  assumes "obfs_laws ox" "packet_ok b" "as_slice b = h @ p @ junk" "length h = 24" "length p = n"
    "length junk = length padding + 1 + 16"
  shows "as_slice (wrap_audio ox nc n padding b) = audio_wire ox nc h p padding" "packet_ok (wrap_audio ox nc n padding b)"
proof -
  let ?pad = "padding @ [word_of_nat (length padding + 1)]"
  obtain c tag where s: "ox_seal ox nc h p = (c, tag)" by force
  have lc: "length c = length p" "length tag = 16" using assms(1) s by (metis obfs_laws_def fst_conv snd_conv)+
  obtain j1 j2 where j: "junk = j1 @ j2" "length j1 = 16" "length j2 = length padding + 1"
    using assms(6) by (metis append_take_drop_id diff_add_inverse2 length_drop length_take min_absorb2 le_add2)
  let ?b1 = "overwrite 24 c b"
  have sub: "subslice (as_slice b) 24 (24 + n) = p" "take 24 (as_slice b) = h" using assms(3-5) by (simp_all add: subslice_def)
  have b1: "as_slice ?b1 = h @ c @ junk" "packet_ok ?b1"
    using overwrite_middle [OF assms(2,3) lc(1) assms(4)] by simp_all
  let ?b2 = "overwrite (24 + n) tag ?b1"
  have b2: "as_slice ?b2 = h @ c @ tag @ j2" "packet_ok ?b2"
    using overwrite_middle [OF b1(2), of "h @ c" j1 j2 tag "24 + n"] b1(1) j lc assms(4,5) by simp_all
  have "as_slice (overwrite (24 + n + 16) ?pad ?b2) = (h @ c @ tag) @ ?pad @ []" "packet_ok (overwrite (24 + n + 16) ?pad ?b2)"
    using overwrite_middle [OF b2(2), of "h @ c @ tag" j2 "[]" ?pad "24 + n + 16"] b2(1) j lc assms(4,5) by simp_all
  thus "as_slice (wrap_audio ox nc n padding b) = audio_wire ox nc h p padding" "packet_ok (wrap_audio ox nc n padding b)"
    by (simp_all add: wrap_audio_def audio_wire_def Let_def sub s)
qed

lemma strip_padding_last:
  assumes "w ! 0 = 0xb0" "e = 24 + n + k + 1" "w ! (e - 1) = word_of_nat (k + 1)" "k < 255"
  shows "strip_padding w 24 e = Inr (24 + n)"
proof -
  have "unat (word_of_nat (k + 1) :: byte) = k + 1" using assms(4) by (intro unat_byte_of_nat) simp
  thus ?thesis using assms(1-3) by (simp add: strip_padding_def Let_def)
qed

lemma set_range_ok:
  assumes "packet_ok b" "s \<le> e" "e \<le> length (as_slice b)"
  obtains c where "set_range (pb_start b + s) (pb_start b + e) b = Inr c" "as_slice c = subslice (as_slice b) s e" "packet_ok c"
  using set_range_view [OF assms] packet_ok_ops(6) [OF assms(1)] by blast

lemma unwrap_video_view:
  assumes "obfs_laws ox" "packet_ok b" "as_slice b = video_wire ox (srtp_iv ssrc q t) h p padding"
    "length h = 24" "h ! 0 = 0xb0" "length padding < 255"
  shows "\<exists>c. unwrap_video ox q t ssrc 24 b = Inr (q, c) \<and> as_slice c = p \<and> packet_ok c"
proof -
  let ?iv = "srtp_iv ssrc q t" and ?pad = "padding @ [word_of_nat (length padding + 1)]"
  let ?c = "ox_ctr ox ?iv p"
  let ?body = "h @ ?c @ ?pad" and ?w = "as_slice b"
  let ?tag = "take 10 (ox_hmac ox ?body)"
  have laws: "length ?c = length p" "ox_ctr ox ?iv ?c = p" "length ?tag = 10" using assms(1) by (auto simp: obfs_laws_def)
  have w: "?w = ?body @ ?tag" using assms(3) by (simp add: video_wire_def Let_def)
  let ?ts = "24 + length p + length padding + 1"
  have ts: "length ?body = ?ts" "length ?w - 10 = ?ts" "\<not> length ?w < 24 + 10" using w laws assms(4) by simp_all
  have cut: "take ?ts ?w = ?body" "drop ?ts ?w = ?tag" using w ts(1) by simp_all
  have "?w ! 0 = 0xb0" using w assms(4,5) by (simp add: nth_append)
  moreover have "?w ! (?ts - 1) = word_of_nat (length padding + 1)"
  proof -
    have "?w ! (?ts - 1) = ((h @ ?c @ padding) @ word_of_nat (length padding + 1) # ?tag) ! length (h @ ?c @ padding)"
      using w laws(1) assms(4) by simp
    thus ?thesis by (simp only: nth_append_length)
  qed
  ultimately have sp: "strip_padding ?w 24 ?ts = Inr (24 + length p)"
    by (rule strip_padding_last [OF _ refl _ assms(6)])
  have sub: "subslice ?w 24 (24 + length p) = ?c" using w laws(1) assms(4) by (simp add: subslice_def)
  note o = overwrite_middle [OF assms(2), of h ?c "?pad @ ?tag" p 24]
  have ov: "as_slice (overwrite 24 p b) = h @ p @ ?pad @ ?tag" "packet_ok (overwrite 24 p b)"
    "pb_start (overwrite 24 p b) = pb_start b"
    using o w laws(1) assms(4) by simp_all
  have fit: "24 + length p \<le> length (as_slice (overwrite 24 p b))" using ov(1) assms(4) by simp
  obtain c where c: "set_range (pb_start b + 24) (pb_start b + (24 + length p)) (overwrite 24 p b) = Inr c"
    "as_slice c = subslice (as_slice (overwrite 24 p b)) 24 (24 + length p)" "packet_ok c"
    using set_range_ok [OF ov(2) _ fit, of 24] ov(3) by auto
  have "as_slice c = p" using c(2) ov(1) assms(4) by (simp add: subslice_def)
  thus ?thesis using ts cut sp sub laws(2) c unfolding unwrap_video_def Let_def by simp
qed

lemma unwrap_audio_view:
  assumes "obfs_laws ox" "packet_ok b" "as_slice b = audio_wire ox (nonce ssrc q t) h p padding"
    "length h = 24" "h ! 0 = 0xb0" "length padding < 255" "p \<noteq> []"
  shows "\<exists>c. unwrap_audio ox 111 q t ssrc 24 b = Inr (q, c) \<and> as_slice c = p \<and> packet_ok c"
proof -
  let ?nc = "nonce ssrc q t" and ?pad = "padding @ [word_of_nat (length padding + 1)]"
  obtain x tag where s: "ox_seal ox ?nc h p = (x, tag)" by force
  have laws: "length x = length p" "length tag = 16" "ox_open ox ?nc h tag x = Some p"
    using assms(1) s by (metis obfs_laws_def fst_conv snd_conv)+
  let ?w = "as_slice b"
  have w: "?w = h @ x @ tag @ ?pad" using assms(3) s by (simp add: audio_wire_def)
  let ?ts = "24 + (length p + 16) + length padding + 1"
  have ts: "length ?w = ?ts" using w laws assms(4) by simp
  have "?w ! 0 = 0xb0" using w assms(4,5) by (simp add: nth_append)
  moreover have "?w ! (?ts - 1) = word_of_nat (length padding + 1)"
  proof -
    have "?w ! (?ts - 1) = ((h @ x @ tag @ padding) @ [word_of_nat (length padding + 1)]) ! length (h @ x @ tag @ padding)"
      using w laws(1,2) assms(4) by (simp add: add.assoc)
    thus ?thesis by (simp only: nth_append_length)
  qed
  ultimately have sp: "strip_padding ?w 24 ?ts = Inr (24 + (length p + 16))"
    by (rule strip_padding_last [OF _ refl _ assms(6)])
  have sub: "subslice ?w 24 (24 + length p) = x" "subslice ?w (24 + length p) (24 + (length p + 16)) = tag" "take 24 ?w = h"
    using w laws(1,2) assms(4) by (simp_all add: subslice_def)
  note o = overwrite_middle [OF assms(2), of h x "tag @ ?pad" p 24]
  have ov: "as_slice (overwrite 24 p b) = h @ p @ tag @ ?pad" "packet_ok (overwrite 24 p b)"
    "pb_start (overwrite 24 p b) = pb_start b"
    using o w laws(1) assms(4) by simp_all
  have fit: "24 + length p \<le> length (as_slice (overwrite 24 p b))" using ov(1) assms(4) by simp
  obtain c where c: "set_range (pb_start b + 24) (pb_start b + (24 + length p)) (overwrite 24 p b) = Inr c"
    "as_slice c = subslice (as_slice (overwrite 24 p b)) 24 (24 + length p)" "packet_ok c"
    using set_range_ok [OF ov(2) _ fit, of 24] ov(3) by auto
  have v: "as_slice c = p" using c(2) ov(1) assms(4) by (simp add: subslice_def)
  have "40 + length p - 16 = 24 + length p" "subslice ?w (24 + length p) (40 + length p) = tag" using sub(2) by simp_all
  thus ?thesis using ts sp v c assms(7) sub(1,3) laws(3) unfolding unwrap_audio_def Let_def by simp
qed

section \<open>Properties\<close>

lemma wrap_steps:
  assumes "wrap ox cfg elapsed rnd b s = (Inr c, s')" "packet_ok b"
  obtains q t send x b3 junk where "q = initial_sequence s (os_count s)" "as_slice b \<noteq> []" "packet_ok b3"
    "as_slice b3 = rtp_header cfg (wr_marker_roll rnd) q t send x @ as_slice b @ junk"
    "length junk = length (wr_padding rnd) + 1 + (if oc_mode cfg = Video then 10 else 16)"
    "c = (if oc_mode cfg = Video then wrap_video ox (srtp_iv (oc_ssrc cfg) q t) (length (as_slice b)) (wr_padding rnd) b3
          else wrap_audio ox (nonce (oc_ssrc cfg) q t) (length (as_slice b)) (wr_padding rnd) b3)"
    "s' = s\<lparr>os_count := os_count s + 1, os_transport_sequence := os_transport_sequence s + 1\<rparr>"
proof -
  let ?tail = "length (wr_padding rnd) + 1 + (if oc_mode cfg = Video then 10 else 16)"
  let ?q = "initial_sequence s (os_count s)"
  let ?t = "os_initial_timestamp s + duration_ticks elapsed (rtp_clock_rate (oc_payload_type cfg))"
  let ?send = "(os_initial_abs_send_time s + duration_ticks elapsed 262144) AND 0xffffff"
  let ?h = "rtp_header cfg (wr_marker_roll rnd) ?q ?t ?send (os_transport_sequence s)"
  have q: "initial_sequence (s\<lparr>os_count := u, os_transport_sequence := v\<rparr>) k = initial_sequence s k" for u v k
    by (simp add: initial_sequence_def)
  have ne: "as_slice b \<noteq> []" "buf_len b = length (as_slice b)"
    using assms length_as_slice [OF assms(2)] by (auto simp: wrap_def buf_is_empty_def split: if_splits)
  obtain b1 b3 where b: "prepend (length ?h) b = Inr b1" "extend_tail ?tail (write_at (pb_start b1) ?h b1) = Inr b3"
    "c = (if oc_mode cfg = Video then wrap_video ox (srtp_iv (oc_ssrc cfg) ?q ?t) (buf_len b) (wr_padding rnd) b3
          else wrap_audio ox (nonce (oc_ssrc cfg) ?q ?t) (buf_len b) (wr_padding rnd) b3)"
    "s' = s\<lparr>os_count := os_count s + 1, os_transport_sequence := os_transport_sequence s + 1\<rparr>"
    using assms(1) unfolding wrap_def Let_def next_count_def prod.case
    by (cases "oc_mode cfg = Video") (auto simp: q split: if_splits sum.splits)
  have b1: "packet_ok b1" by (rule packet_ok_ops(2) [OF assms(2) b(1)])
  have st: "pb_start b1 + 24 = pb_start b" using b(1) by (auto simp: prepend_def split: if_splits)
  have ok2: "packet_ok (write_at (pb_start b1) ?h b1)"
    by (rule packet_ok_ops(7) [OF b1]) (use st assms(2) in \<open>simp add: packet_ok_def\<close>)
  have v2: "as_slice (write_at (pb_start b1) ?h b1) = ?h @ as_slice b" by (rule prepend_write [OF assms(2) b(1)])
  obtain junk where j: "length junk = ?tail" "as_slice b3 = (?h @ as_slice b) @ junk"
    using extend_view(1) [OF ok2 b(2)] v2 by auto
  show ?thesis
    by (rule that [of ?q b3 ?t ?send "os_transport_sequence s" junk])
       (use ne j b(3,4) extend_view(2) [OF ok2 b(2)] in simp_all)
qed

lemma new_config_fields:
  "oc_mode (new_obfs_config ssrc m) = m" "oc_ssrc (new_obfs_config ssrc m) = ssrc"
  "oc_payload_type (new_obfs_config ssrc m) = (if m = Video then 96 else 111)"
  "oc_padding_max (new_obfs_config ssrc m) = (if m = Video then 60 else 24)"
  by (cases m; simp add: new_obfs_config_def)+

lemma unwrap_dispatch:
  assumes "as_slice b = rtp_header (new_obfs_config ssrc m) roll q t a x @ r"
  shows "unwrap ox m b = (if m = Video then unwrap_video ox q t ssrc 24 b else unwrap_audio ox 111 q t ssrc 24 b)"
    "is_rtp_packet (as_slice b)"
proof -
  note f = rtp_header_fields [OF refl, of ssrc m roll q t a x r, folded assms]
  have l: "24 \<le> length (as_slice b)" using assms by simp
  have v: "drop_bit 6 (0xb0 :: byte) = 2" by simp
  show "is_rtp_packet (as_slice b)" using f(1,2) l v by (auto simp: is_rtp_packet_def new_config_fields)
  show "unwrap ox m b = (if m = Video then unwrap_video ox q t ssrc 24 b else unwrap_audio ox 111 q t ssrc 24 b)"
    using l v f unfolding unwrap_def Let_def by (cases m) (simp_all add: new_config_fields not_less)
qed

text \<open>Wrapping is undone by unwrapping. For any nonempty well-formed packet that can be wrapped, in both
  modes and with any padding the configuration allows, the result is a well-formed packet that looks like RTP, and the
  peer's unwrap restores exactly the payload and returns the sequence number, which is the
  initial one plus the number of packets wrapped before; the ciphers are assumed to decrypt what they encrypt.\<close>

theorem wrap_roundtrip:
  assumes "obfs_laws ox" "packet_ok b" "cfg = new_obfs_config ssrc m"
    "length (wr_padding rnd) < oc_padding_max cfg" "wrap ox cfg elapsed rnd b s = (Inr c, s')"
  shows "packet_ok c \<and> is_rtp_packet (as_slice c)
    \<and> (\<exists>d. unwrap ox m c = Inr (os_initial_sequence s + ucast (os_count s), d) \<and> as_slice d = as_slice b \<and> packet_ok d)"
proof -
  obtain q t send x b3 junk where w: "q = initial_sequence s (os_count s)" "as_slice b \<noteq> []" "packet_ok b3"
    "as_slice b3 = rtp_header cfg (wr_marker_roll rnd) q t send x @ as_slice b @ junk"
    "length junk = length (wr_padding rnd) + 1 + (if oc_mode cfg = Video then 10 else 16)"
    "c = (if oc_mode cfg = Video then wrap_video ox (srtp_iv (oc_ssrc cfg) q t) (length (as_slice b)) (wr_padding rnd) b3
          else wrap_audio ox (nonce (oc_ssrc cfg) q t) (length (as_slice b)) (wr_padding rnd) b3)"
    by (rule wrap_steps [OF assms(5,2)])
  let ?h = "rtp_header cfg (wr_marker_roll rnd) q t send x"
  have pad: "length (wr_padding rnd) < 255" using assms(3,4) by (simp add: new_config_fields split: if_splits)
  have q: "q = os_initial_sequence s + ucast (os_count s)" using w(1) by (simp add: initial_sequence_def)
  have h0: "?h ! 0 = 0xb0" using rtp_header_fields(1) [OF refl, of ssrc m "wr_marker_roll rnd" q t send x "[]"] assms(3) by simp
  show ?thesis
  proof (cases "m = Video")
    case True
    have v: "as_slice c = video_wire ox (srtp_iv ssrc q t) ?h (as_slice b) (wr_padding rnd)" "packet_ok c"
      using wrap_video_view [OF assms(1) w(3,4)] w(5,6) assms(3) True by (simp_all add: new_config_fields)
    obtain r where r: "as_slice c = ?h @ r" using v(1) by (simp add: video_wire_def Let_def)
    obtain d where d: "unwrap_video ox q t ssrc 24 c = Inr (q, d)" "as_slice d = as_slice b" "packet_ok d"
      using unwrap_video_view [OF assms(1) v(2,1) _ h0 pad] by auto
    show ?thesis using unwrap_dispatch [OF r [unfolded assms(3)]] v(2) d q True by simp
  next
    case False
    have v: "as_slice c = audio_wire ox (nonce ssrc q t) ?h (as_slice b) (wr_padding rnd)" "packet_ok c"
      using wrap_audio_view [OF assms(1) w(3,4)] w(5,6) assms(3) False by (simp_all add: new_config_fields)
    obtain r where r: "as_slice c = ?h @ r" using v(1) by (auto simp: audio_wire_def split: prod.splits)
    obtain d where d: "unwrap_audio ox 111 q t ssrc 24 c = Inr (q, d)" "as_slice d = as_slice b" "packet_ok d"
      using unwrap_audio_view [OF assms(1) v(2,1) _ h0 pad w(2)] by auto
    show ?thesis using unwrap_dispatch [OF r [unfolded assms(3)]] v(2) d q False by simp
  qed
qed

text \<open>Ciphers that satisfy the laws trivially, and a packet of three bytes.\<close>

definition plain_crypto :: obfs_crypto where
  "plain_crypto = \<lparr>ox_ctr = (\<lambda>iv d. d), ox_hmac = (\<lambda>m. replicate 20 0),
     ox_seal = (\<lambda>n a p. (p, replicate 16 0)), ox_open = (\<lambda>n a t c. Some c)\<rparr>"

lemma plain_laws: "obfs_laws plain_crypto"
  by (simp add: obfs_laws_def plain_crypto_def)

definition start_state :: obfs_state where
  "start_state = \<lparr>os_count = 5, os_initial_timestamp = 0, os_initial_abs_send_time = 0,
     os_initial_sequence = 65534, os_transport_sequence = 0\<rparr>"

definition three_bytes :: packet_buf where
  "three_bytes = (buf_of (replicate 2304 0))\<lparr>pb_end := 67\<rparr>"

lemma three_bytes_ok: "packet_ok three_bytes" "buf_len three_bytes = 3"
  by (simp_all add: three_bytes_def packet_ok_def buf_of_def buf_len_def PACKET_HEADROOM_def PACKET_CAPACITY_def)

lemma three_bytes_wrap:
  "\<exists>c s'. wrap plain_crypto (new_obfs_config 7 m) 0 \<lparr>wr_marker_roll = 0, wr_padding = [1, 2]\<rparr> three_bytes s = (Inr c, s')"
proof -
  have e: "pb_start three_bytes = 64" "pb_end three_bytes = 67" "\<not> buf_is_empty three_bytes"
    by (simp_all add: three_bytes_def buf_of_def PACKET_HEADROOM_def buf_is_empty_def buf_len_def)
  show ?thesis
    by (simp add: wrap_def e next_count_def Let_def new_config_fields PACKET_CAPACITY_def prepend_def extend_tail_def
        write_at_def usize_checked_add_def usize_max_def)
qed

lemma wrap_roundtrip_witness:
  "\<exists>c s' d. wrap plain_crypto (new_obfs_config 7 Audio) 0 \<lparr>wr_marker_roll = 0, wr_padding = [1, 2]\<rparr> three_bytes start_state
      = (Inr c, s') \<and> unwrap plain_crypto Audio c = Inr (3, d) \<and> as_slice d = as_slice three_bytes"
proof -
  obtain c s' where w: "wrap plain_crypto (new_obfs_config 7 Audio) 0 \<lparr>wr_marker_roll = 0, wr_padding = [1, 2]\<rparr>
      three_bytes start_state = (Inr c, s')" using three_bytes_wrap by blast
  have "os_initial_sequence start_state + ucast (os_count start_state) = 3" by (simp add: start_state_def)
  thus ?thesis using wrap_roundtrip [OF plain_laws three_bytes_ok(1) refl _ w] w by (auto simp: new_config_fields)
qed

text \<open>C19: nothing unauthenticated passes. If unwrapping accepts a packet then its sequence number is the
  one on the wire and, in video mode, the last ten bytes are the HMAC of everything before them and the payload
  is the decryption of a slice of the packet; in audio mode the AEAD has verified the header and the
  ciphertext and the payload is nonempty. No index leaves the packet and the result is well-formed.\<close>

theorem unwrap_authentic:
  assumes "obfs_laws ox" "packet_ok b" "unwrap ox m b = Inr (q, d)"
  defines "wire \<equiv> as_slice b"
  shows "q = u16_of_be [wire ! 2, wire ! 3] \<and> packet_ok d \<and> (\<exists>hl e t ssrc. 12 \<le> hl \<and> hl \<le> e \<and> e \<le> length wire
    \<and> (m = Video \<longrightarrow> take 10 (ox_hmac ox (take (length wire - 10) wire)) = drop (length wire - 10) wire
         \<and> e + 10 \<le> length wire \<and> as_slice d = ox_ctr ox (srtp_iv ssrc q t) (subslice wire hl e))
    \<and> (m = Audio \<longrightarrow> ox_open ox (nonce ssrc q t) (take hl wire) (subslice wire e (e + 16)) (subslice wire hl e) = Some (as_slice d)
         \<and> e + 16 \<le> length wire \<and> as_slice d \<noteq> []))"
proof -
  let ?q = "u16_of_be [wire ! 2, wire ! 3]" and ?t = "u32_of_be (subslice wire 4 8)" and ?s = "u32_of_be (subslice wire 8 12)"
  have "\<exists>hl pt. rtp_header_len wire = Inr hl \<and> hl \<le> length wire
      \<and> (if m = Video then unwrap_video ox ?q ?t ?s hl b else unwrap_audio ox pt ?q ?t ?s hl b) = Inr (q, d)"
    using assms(3) unfolding unwrap_def Let_def wire_def by (auto simp: not_less split: sum.splits if_splits)
  then obtain hl pt where h: "rtp_header_len wire = Inr hl" "hl \<le> length wire"
    "(if m = Video then unwrap_video ox ?q ?t ?s hl b else unwrap_audio ox pt ?q ?t ?s hl b) = Inr (q, d)" by blast
  have h12: "12 \<le> hl" using h(1) by (auto simp: rtp_header_len_def split: if_splits)
  have strip: "hl \<le> x \<and> x \<le> e" if "strip_padding wire hl e = Inr x" "hl \<le> e" for x e
    using that by (auto simp: strip_padding_def Let_def split: if_splits)
  have ow: "as_slice d' = p \<and> packet_ok d'"
    if r: "set_range (pb_start b + hl) (pb_start b + e) (overwrite hl p b) = Inr d'" "hl \<le> e" "e \<le> length wire" "length p = e - hl" for e p d'
  proof -
    have fit: "hl + length p \<le> length (as_slice b)" using r wire_def by simp
    note o = overwrite_view [OF assms(2) fit]
    have f2: "e \<le> length (as_slice (overwrite hl p b))" using o(1) r fit wire_def by simp
    obtain c where c: "set_range (pb_start b + hl) (pb_start b + e) (overwrite hl p b) = Inr c"
      "as_slice c = subslice (as_slice (overwrite hl p b)) hl e" "packet_ok c"
      using set_range_ok [OF o(2) r(2) f2] o(3) by auto
    have "length (take hl (as_slice b)) = hl" using h(2) wire_def by simp
    thus ?thesis using c r(1,2,4) o(1) by (simp add: subslice_def)
  qed
  show ?thesis
  proof (cases "m = Video")
    case True
    let ?n = "length wire - 10"
    obtain e where e: "hl + 10 \<le> length wire" "take 10 (ox_hmac ox (take ?n wire)) = drop ?n wire"
      "strip_padding wire hl ?n = Inr e" "q = ?q"
      "set_range (pb_start b + hl) (pb_start b + e) (overwrite hl (ox_ctr ox (srtp_iv ?s ?q ?t) (subslice wire hl e)) b) = Inr d"
      using h(3) True unfolding unwrap_video_def Let_def wire_def [symmetric]
      by (auto simp: not_less split: if_splits sum.splits)
    have b: "hl \<le> e" "e \<le> ?n" using strip [OF e(3)] e(1) by auto
    have "length (ox_ctr ox (srtp_iv ?s ?q ?t) (subslice wire hl e)) = e - hl"
      using assms(1) b by (simp add: obfs_laws_def length_subslice)
    hence "as_slice d = ox_ctr ox (srtp_iv ?s ?q ?t) (subslice wire hl e) \<and> packet_ok d" using ow [OF e(5)] b by simp
    thus ?thesis using True e(1,2,4) b h12 by (intro conjI exI [of _ hl] exI [of _ e] exI [of _ ?t] exI [of _ ?s]) auto
  next
    case False
    hence mA: "m = Audio" by (cases m) auto
    obtain x plain where x: "strip_padding wire hl (length wire) = Inr x" "hl + 16 < x" "q = ?q"
      "ox_open ox (nonce ?s ?q ?t) (take hl wire) (subslice wire (x - 16) x) (subslice wire hl (x - 16)) = Some plain"
      "set_range (pb_start b + hl) (pb_start b + (x - 16)) (overwrite hl plain b) = Inr d"
      using h(3) False unfolding unwrap_audio_def Let_def wire_def [symmetric]
      by (auto simp: not_le split: if_splits sum.splits option.splits)
    have b: "x \<le> length wire" using strip [OF x(1) h(2)] by simp
    have "length plain = length (subslice wire hl (x - 16))" using assms(1) x(4) by (auto simp: obfs_laws_def)
    hence l: "length plain = x - 16 - hl" using b x(2) by (simp add: length_subslice)
    have d: "as_slice d = plain \<and> packet_ok d" using ow [OF x(5)] b x(2) l by simp
    have "subslice wire (x - 16) (x - 16 + 16) = subslice wire (x - 16) x" using x(2) by simp
    moreover have "plain \<noteq> []" using l x(2) by auto
    ultimately show ?thesis using mA x(2,3,4) d b h12
      by (intro conjI exI [of _ hl] exI [of _ "x - 16"] exI [of _ ?t] exI [of _ ?s]) auto
  qed
qed

lemma unwrap_authentic_witness:
  "\<exists>c q d. unwrap plain_crypto Audio c = Inr (q, d) \<and> q = u16_of_be [as_slice c ! 2, as_slice c ! 3] \<and> as_slice d \<noteq> []"
proof -
  obtain c s' where w: "wrap plain_crypto (new_obfs_config 7 Audio) 0 \<lparr>wr_marker_roll = 0, wr_padding = [1, 2]\<rparr>
      three_bytes start_state = (Inr c, s')" using three_bytes_wrap by blast
  obtain q t send x b3 junk where v: "packet_ok b3" "as_slice b3 = rtp_header (new_obfs_config 7 Audio) 0 q t send x @ as_slice three_bytes @ junk"
    "length junk = 19" "c = wrap_audio plain_crypto (nonce 7 q t) (length (as_slice three_bytes)) [1, 2] b3" "as_slice three_bytes \<noteq> []"
    by (rule wrap_steps [OF w three_bytes_ok(1)]) (auto simp: new_config_fields)
  let ?h = "rtp_header (new_obfs_config 7 Audio) 0 q t send x"
  have a: "as_slice c = audio_wire plain_crypto (nonce 7 q t) ?h (as_slice three_bytes) [1, 2]" "packet_ok c"
    using wrap_audio_view [OF plain_laws v(1,2)] v(3,4) by simp_all
  have h0: "?h ! 0 = 0xb0" using rtp_header_fields(1) [OF refl, of 7 Audio 0 q t send x "[]"] by simp
  obtain d where d: "unwrap_audio plain_crypto 111 q t 7 24 c = Inr (q, d)"
    using unwrap_audio_view [OF plain_laws a(2,1) _ h0 _ v(5)] by auto
  obtain r where r: "as_slice c = ?h @ r" using a(1) by (auto simp: audio_wire_def split: prod.splits)
  have u: "unwrap plain_crypto Audio c = Inr (q, d)" using unwrap_dispatch(1) [OF r] d by simp
  show ?thesis using unwrap_authentic [OF plain_laws a(2) u] u by auto
qed

end
