(* ===== verification/ReplayWindow.thy ===== *)
theory ReplayWindow
  imports Prelude
begin

text \<open>
  The replay protection of \<open>session.rs\<close>: a bitmap of 16384 counters behind the highest one
  accepted, and the extension of the 16-bit RTP sequence number to the counter. The bitmap
  window refines an abstract set of accepted counters.
\<close>

section \<open>Operations\<close>

record replay_window =
  rw_highest :: "nat option"
  rw_seen :: "u64 list"

definition new_window :: replay_window where
  "new_window = \<lparr>rw_highest = None, rw_seen = replicate 256 0\<rparr>"

definition set_window_bit :: "nat \<Rightarrow> u64 list \<Rightarrow> u64 list" where
  "set_window_bit counter seen =
    (let idx = counter mod 16384 in seen[idx div 64 := seen ! (idx div 64) OR push_bit (idx mod 64) 1])"

definition clear_window_bit :: "nat \<Rightarrow> u64 list \<Rightarrow> u64 list" where
  "clear_window_bit counter seen =
    (let idx = counter mod 16384 in seen[idx div 64 := seen ! (idx div 64) AND NOT (push_bit (idx mod 64) 1)])"

definition test_window_bit :: "nat \<Rightarrow> u64 list \<Rightarrow> bool" where
  "test_window_bit counter seen =
    (let idx = counter mod 16384 in seen ! (idx div 64) AND push_bit (idx mod 64) 1 \<noteq> 0)"

text \<open>The loop \<open>for i in 1..=shift\<close>.\<close>

fun clear_range :: "nat \<Rightarrow> nat \<Rightarrow> u64 list \<Rightarrow> u64 list" where
  "clear_range highest 0 seen = seen"
| "clear_range highest (Suc n) seen = clear_window_bit (highest + Suc n) (clear_range highest n seen)"

definition window_accept :: "nat \<Rightarrow> replay_window \<Rightarrow> bool \<times> replay_window" where
  "window_accept counter w = (case rw_highest w of
     None \<Rightarrow> (True, \<lparr>rw_highest = Some counter, rw_seen = set_window_bit counter (rw_seen w)\<rparr>)
   | Some highest \<Rightarrow>
       if highest < counter then
         let shift = counter - highest;
             seen = (if 16384 \<le> shift then replicate 256 0 else clear_range highest shift (rw_seen w))
         in (True, \<lparr>rw_highest = Some counter, rw_seen = set_window_bit counter seen\<rparr>)
       else if 16384 \<le> highest - counter then (False, w)
       else if test_window_bit counter (rw_seen w) then (False, w)
       else (True, w\<lparr>rw_seen := set_window_bit counter (rw_seen w)\<rparr>))"

text \<open>The counter an RTP sequence number stands for; the operations saturate at \<open>2 ^ 64 - 1\<close>.\<close>

definition extend_sequence :: "nat \<Rightarrow> nat \<Rightarrow> nat" where
  "extend_sequence highest sequence =
    (let extended = highest div 65536 * 65536 + sequence
     in if sat_add_u64 extended 32768 < highest then sat_add_u64 extended 65536
        else if sat_add_u64 highest 32768 < extended \<and> 65536 \<le> extended then extended - 65536
        else extended)"

definition accept_rtp :: "u16 \<Rightarrow> replay_window \<Rightarrow> bool \<times> replay_window" where
  "accept_rtp sequence w = (case rw_highest w of
     None \<Rightarrow> window_accept (unat sequence) w
   | Some highest \<Rightarrow> window_accept (extend_sequence highest (unat sequence)) w)"

text \<open>The answers over a sequence of packets.\<close>

fun accept_all :: "nat list \<Rightarrow> replay_window \<Rightarrow> bool list \<times> replay_window" where
  "accept_all [] w = ([], w)"
| "accept_all (c # cs) w = (case window_accept c w of (a, w1) \<Rightarrow>
     (case accept_all cs w1 of (as, w2) \<Rightarrow> (a # as, w2)))"

fun accept_rtp_all :: "u16 list \<Rightarrow> replay_window \<Rightarrow> bool list \<times> replay_window" where
  "accept_rtp_all [] w = ([], w)"
| "accept_rtp_all (c # cs) w = (case accept_rtp c w of (a, w1) \<Rightarrow>
     (case accept_rtp_all cs w1 of (as, w2) \<Rightarrow> (a # as, w2)))"

section \<open>The abstract window\<close>

text \<open>What the window promises: the set of counters accepted so far; a counter is accepted if it is new
  and less than 16384 behind the largest one.\<close>

definition spec_fresh :: "nat \<Rightarrow> nat set \<Rightarrow> bool" where
  "spec_fresh c acc \<longleftrightarrow> c \<notin> acc \<and> (\<forall>h\<in>acc. h < c + 16384)"

fun spec_accept_all :: "nat list \<Rightarrow> nat set \<Rightarrow> bool list" where
  "spec_accept_all [] acc = []"
| "spec_accept_all (c # cs) acc =
     spec_fresh c acc # spec_accept_all cs (if spec_fresh c acc then insert c acc else acc)"

text \<open>The simulation: the highest counter is the maximum, and within the window the bitmap is the set.\<close>

definition window_abs :: "replay_window \<Rightarrow> nat set \<Rightarrow> bool" where
  "window_abs w acc \<longleftrightarrow> length (rw_seen w) = 256 \<and> finite acc \<and> (case rw_highest w of
     None \<Rightarrow> acc = {} \<and> (\<forall>c. \<not> test_window_bit c (rw_seen w))
   | Some h \<Rightarrow> h \<in> acc \<and> (\<forall>c\<in>acc. c \<le> h)
       \<and> (\<forall>c. c \<le> h \<longrightarrow> h < c + 16384 \<longrightarrow> test_window_bit c (rw_seen w) = (c \<in> acc)))"

section \<open>Bits\<close>

lemma idx_bounds: "c mod 16384 div 64 < (256 :: nat)" "c mod 16384 mod 64 < (64 :: nat)"
  by (simp_all add: less_mult_imp_div_less)

lemma bit_power: "j < 64 \<Longrightarrow> bit ((2 :: u64) ^ j) k = (k = j)"
  by (auto simp: bit_exp_iff)

lemma word_bit_test: "j < 64 \<Longrightarrow> ((x :: u64) AND 2 ^ j \<noteq> 0) = bit x j"
proof -
  assume j: "j < 64"
  have "x AND 2 ^ j = (if bit x j then 2 ^ j else 0)"
    by (rule bit_word_eqI) (auto simp: bit_and_iff bit_power j)
  moreover have "2 ^ j \<noteq> (0 :: u64)"
  proof
    assume "2 ^ j = (0 :: u64)"
    hence "\<not> bit ((2 :: u64) ^ j) j" by (simp only: bit_0_eq bot_apply) simp
    thus False using bit_power [OF j, of j] by blast
  qed
  ultimately show ?thesis by simp
qed

lemma test_bit_iff: "test_window_bit c seen = bit (seen ! (c mod 16384 div 64)) (c mod 16384 mod 64)"
  using word_bit_test [OF idx_bounds(2)] by (simp add: test_window_bit_def Let_def)

lemma same_slot:
  "(c mod 16384 div 64 = d mod 16384 div 64 \<and> c mod 16384 mod 64 = d mod 16384 mod 64) = (c mod 16384 = d mod (16384 :: nat))"
  by (metis div_mult_mod_eq)

lemma test_set_bit [simp]:
  assumes "length seen = 256"
  shows "test_window_bit c (set_window_bit d seen) = (c mod 16384 = d mod 16384 \<or> test_window_bit c seen)"
proof -
  note b = idx_bounds [of d]
  show ?thesis
  proof (cases "c mod 16384 div 64 = d mod 16384 div 64")
    case False
    hence "c mod 16384 \<noteq> d mod 16384" by auto
    thus ?thesis using assms False by (simp add: test_bit_iff set_window_bit_def Let_def)
  next
    case True
    hence "(c mod 16384 mod 64 = d mod 16384 mod 64) = (c mod 16384 = d mod 16384)" using same_slot [of c d] by blast
    thus ?thesis using assms b True idx_bounds(2) [of c]
      by (simp add: test_bit_iff set_window_bit_def Let_def bit_or_iff bit_power) auto
  qed
qed

lemma test_clear_bit [simp]:
  assumes "length seen = 256"
  shows "test_window_bit c (clear_window_bit d seen) = (c mod 16384 \<noteq> d mod 16384 \<and> test_window_bit c seen)"
proof -
  note b = idx_bounds [of d]
  show ?thesis
  proof (cases "c mod 16384 div 64 = d mod 16384 div 64")
    case False
    hence "c mod 16384 \<noteq> d mod 16384" by auto
    thus ?thesis using assms False by (simp add: test_bit_iff clear_window_bit_def Let_def)
  next
    case True
    hence "(c mod 16384 mod 64 = d mod 16384 mod 64) = (c mod 16384 = d mod 16384)" using same_slot [of c d] by blast
    thus ?thesis using assms b True idx_bounds(2) [of c]
      by (simp add: test_bit_iff clear_window_bit_def Let_def bit_and_iff bit_not_iff bit_power) auto
  qed
qed

lemma length_window_bit [simp]:
  "length (set_window_bit c seen) = length seen" "length (clear_window_bit c seen) = length seen"
  by (simp_all add: set_window_bit_def clear_window_bit_def Let_def)

lemma length_clear_range [simp]: "length (clear_range h n seen) = length seen"
  by (induction n) simp_all

lemma test_clear_range:
  "length seen = 256 \<Longrightarrow> test_window_bit c (clear_range h n seen)
     = ((\<forall>i. 1 \<le> i \<and> i \<le> n \<longrightarrow> c mod 16384 \<noteq> (h + i) mod 16384) \<and> test_window_bit c seen)"
proof (induction n)
  case (Suc n)
  show ?case using Suc by (auto simp: le_Suc_eq)
qed simp

lemma test_replicate [simp]: "\<not> test_window_bit c (replicate 256 0)"
  using idx_bounds(1) [of c] by (simp add: test_bit_iff)

lemma same_mod_far: "(c :: nat) < d \<Longrightarrow> c mod 16384 = d mod 16384 \<Longrightarrow> c + 16384 \<le> d"
  using mod_eq_iff_dvd_symdiff_nat by (metis add.commute dvd_imp_le le_diff_conv2 less_imp_le_nat mod_eq_dvd_iff_nat zero_less_diff)

section \<open>The simulation\<close>

lemma window_abs_new: "window_abs new_window {}"
  by (simp add: window_abs_def new_window_def)

lemma advance_abs:
  assumes "window_abs w acc" "rw_highest w = Some h" "h < c"
  defines "seen \<equiv> (if 16384 \<le> c - h then replicate 256 0 else clear_range h (c - h) (rw_seen w))"
  shows "window_abs \<lparr>rw_highest = Some c, rw_seen = set_window_bit c seen\<rparr> (insert c acc)"
proof -
  have old: "length (rw_seen w) = 256" "finite acc" "h \<in> acc" "\<forall>d\<in>acc. d \<le> h"
    "\<forall>d. d \<le> h \<longrightarrow> h < d + 16384 \<longrightarrow> test_window_bit d (rw_seen w) = (d \<in> acc)"
    using assms(1,2) by (auto simp: window_abs_def)
  have len: "length seen = 256" using old(1) by (simp add: seen_def)
  have bits: "test_window_bit d (set_window_bit c seen) = (d \<in> insert c acc)" if d: "d \<le> c" "c < d + 16384" for d
  proof (cases "d = c")
    case True thus ?thesis using len by simp
  next
    case False
    hence ne: "d mod 16384 \<noteq> c mod 16384" using same_mod_far [of d c] d by auto
    show ?thesis
    proof (cases "16384 \<le> c - h")
      case True
      have "d \<notin> acc" using old(4) d True by auto
      thus ?thesis using True len ne False by (simp add: seen_def)
    next
      case near: False
      show ?thesis
      proof (cases "d \<le> h")
        case True
        have "d mod 16384 \<noteq> (h + i) mod 16384" if "1 \<le> i" "i \<le> c - h" for i
          using same_mod_far [of d "h + i"] True that d by auto
        hence "test_window_bit d seen = test_window_bit d (rw_seen w)"
          using near old(1) by (simp add: seen_def test_clear_range)
        thus ?thesis using old(5) True d len ne False assms(3) by auto
      next
        case gap: False
        hence "d \<notin> acc" using old(4) by auto
        moreover have "\<not> test_window_bit d seen"
        proof -
          have "1 \<le> d - h" "d - h \<le> c - h" "d mod 16384 = (h + (d - h)) mod 16384" using gap d by auto
          hence "\<exists>i. 1 \<le> i \<and> i \<le> c - h \<and> d mod 16384 = (h + i) mod 16384" by blast
          thus ?thesis using near old(1) by (simp add: seen_def test_clear_range)
        qed
        ultimately show ?thesis using len ne False by simp
      qed
    qed
  qed
  show ?thesis using old(2,4) assms(3) len bits by (auto simp: window_abs_def)
qed

lemma accept_simulates:
  assumes "window_abs w acc" "window_accept c w = (a, w')"
  shows "a = spec_fresh c acc \<and> window_abs w' (if a then insert c acc else acc)"
proof (cases "rw_highest w")
  case None
  have acc: "acc = {}" "length (rw_seen w) = 256" "\<forall>d. \<not> test_window_bit d (rw_seen w)"
    using assms(1) None by (auto simp: window_abs_def)
  have r: "a" "w' = \<lparr>rw_highest = Some c, rw_seen = set_window_bit c (rw_seen w)\<rparr>"
    using assms(2) None by (auto simp: window_accept_def)
  have "d mod 16384 = c mod 16384 \<longleftrightarrow> d = c" if "d \<le> c" "c < d + 16384" for d
    using same_mod_far [of d c] that by (cases "d = c") auto
  thus ?thesis using acc r by (auto simp: window_abs_def spec_fresh_def)
next
  case (Some h)
  have old: "length (rw_seen w) = 256" "finite acc" "h \<in> acc" "\<forall>d\<in>acc. d \<le> h"
    "\<forall>d. d \<le> h \<longrightarrow> h < d + 16384 \<longrightarrow> test_window_bit d (rw_seen w) = (d \<in> acc)"
    using assms(1) Some by (auto simp: window_abs_def)
  show ?thesis
  proof (cases "h < c")
    case True
    have "spec_fresh c acc" using old(4) True by (force simp: spec_fresh_def)
    moreover have "a" "w' = \<lparr>rw_highest = Some c, rw_seen = set_window_bit c
        (if 16384 \<le> c - h then replicate 256 0 else clear_range h (c - h) (rw_seen w))\<rparr>"
      using assms(2) Some True by (auto simp: window_accept_def Let_def)
    ultimately show ?thesis using advance_abs [OF assms(1) Some True] by simp
  next
    case False
    show ?thesis
    proof (cases "16384 \<le> h - c")
      case True
      have "\<not> h < c + 16384" using True False by simp
      hence "\<not> spec_fresh c acc" using old(3) by (auto simp: spec_fresh_def)
      thus ?thesis using assms Some False True by (auto simp: window_accept_def)
    next
      case near: False
      have t: "test_window_bit c (rw_seen w) = (c \<in> acc)" using old(5) False near by simp
      have f: "spec_fresh c acc \<longleftrightarrow> c \<notin> acc" using old(4) False near by (force simp: spec_fresh_def)
      have e: "d mod 16384 = c mod 16384 \<longleftrightarrow> d = c" if "d \<le> h" "h < d + 16384" for d
        using same_mod_far [of d c] same_mod_far [of c d] that False near by (cases "d = c"; cases "d < c") auto
      show ?thesis
      proof (cases "c \<in> acc")
        case True
        thus ?thesis using assms Some False near t f by (auto simp: window_accept_def)
      next
        case new: False
        hence r: "a" "w' = w\<lparr>rw_seen := set_window_bit c (rw_seen w)\<rparr>"
          using assms(2) Some False near t by (auto simp: window_accept_def)
        have "window_abs w' (insert c acc)" unfolding window_abs_def
          using r(2) old Some False e by auto
        thus ?thesis using r f new by simp
      qed
    qed
  qed
qed

lemma accept_all_simulates:
  "window_abs w acc \<Longrightarrow> fst (accept_all cs w) = spec_accept_all cs acc"
proof (induction cs arbitrary: w acc)
  case (Cons c cs)
  obtain a w' where r: "window_accept c w = (a, w')" by force
  note s = accept_simulates [OF Cons.prems r]
  show ?case using Cons.IH [of w' "if a then insert c acc else acc"] s r by (auto split: prod.splits)
qed simp

section \<open>Properties\<close>

text \<open>C40: the bitmap window refines its specification. Over any sequence of counters the window answers
  exactly as the abstract window that remembers every accepted counter: a counter is accepted if and only
  if it has not been accepted before and lies less than 16384 behind the largest accepted one. In
  particular no counter is ever accepted twice, however far the window jumps.\<close>

theorem window_refines:
  "fst (accept_all cs new_window) = spec_accept_all cs {}"
  by (rule accept_all_simulates [OF window_abs_new])

text \<open>The reconstruction of the counter from the 16-bit sequence number. Once the highest counter is past
  the first cycle, a packet whose true counter is within 32767 of the highest one, ahead or
  behind, is mapped to exactly that counter (while counters stay clear of the 64-bit limit), so reordering within half the
  sequence space never confuses two packets.\<close>

theorem sequence_extension_exact:
  assumes "65536 \<le> highest" "counter \<le> highest + 32767" "highest \<le> counter + 32767"
    "highest + 131072 \<le> u64_max"
  shows "extend_sequence highest (counter mod 65536) = counter"
proof -
  define q r where "q = highest div 65536" and "r = highest mod 65536"
  define cq cr where "cq = counter div 65536" and "cr = counter mod 65536"
  have h: "highest = 65536 * q + r" "r < 65536" and c: "counter = 65536 * cq + cr" "cr < 65536"
    by (simp_all add: q_def r_def cq_def cr_def)
  have "cq = q \<or> cq = q + 1 \<or> q = cq + 1" using assms(2,3) h c by linarith
  moreover have "1 \<le> q" using assms(1) h by linarith
  ultimately show ?thesis unfolding extend_sequence_def Let_def q_def [symmetric] cr_def [symmetric]
    using assms h c by (auto simp: sat_add_u64_def min_def)
qed

lemma sequence_extension_exact_witness:
  "extend_sequence 70000 (65000 mod 65536) = 65000 \<and> extend_sequence 131000 (131075 mod 65536) = 131075"
  using sequence_extension_exact [of 70000 65000] sequence_extension_exact [of 131000 131075]
  by (simp add: u64_max_def)

text \<open>In the first cycle the reconstruction fails at the boundary: after sequence numbers 0 and then a late
  65535 (a packet sent before number 0), the window takes 65535 as a jump forward, and a replayed packet with sequence number 0
  is accepted a second time.\<close>

theorem first_cycle_replay:
  "fst (accept_rtp_all [0, 65535, 0] new_window) = [True, True, True]"
proof -
  have 1: "accept_rtp 0 new_window = (True, \<lparr>rw_highest = Some 0, rw_seen = set_window_bit 0 (replicate 256 0)\<rparr>)"
    by (simp add: accept_rtp_def new_window_def window_accept_def)
  have 2: "extend_sequence 0 65535 = 65535" "extend_sequence 65535 0 = 65536"
    by (simp_all add: extend_sequence_def sat_add_u64_def u64_max_def)
  show ?thesis using 1 2 by (simp add: accept_rtp_def window_accept_def)
qed

end
