(* ===== verification/StreamControl.thy ===== *)
theory StreamControl
  imports Text BoundedQueue
begin

text \<open>
  The control plane of a session: the texts and frames of \<open>protocol.rs\<close> (the GETCONF request, its
  responses, the stream repair and alive commands) and the repair state of \<open>repair.rs\<close> they drive.
\<close>

section \<open>Requests and responses\<close>

definition WIRE_PROTOCOL_REVISION :: string where
  "WIRE_PROTOCOL_REVISION = ''CSQTT-WIRE-3''"

definition PANEL_RESTART_NOTICE :: bytes where
  "PANEL_RESTART_NOTICE = 0xff # ascii ''CSQTT_PANEL_RESTART_V1'' @ [0x00, 0x91, 0x7d, 0x03, 0xa8]"

definition STREAM_REPAIR_PREFIX :: bytes where
  "STREAM_REPAIR_PREFIX = 0xff # ascii ''CSQTT_STREAM_REPAIR_V1''"

definition STREAM_ALIVE_PREFIX :: bytes where
  "STREAM_ALIVE_PREFIX = 0xff # ascii ''CSQTT_STREAM_ALIVE_V1''"

definition MAX_STREAM_WORKERS :: nat where "MAX_STREAM_WORKERS = 126"

definition config_request ::
    "string \<Rightarrow> string \<Rightarrow> string \<Rightarrow> nat \<Rightarrow> string \<Rightarrow> nat \<Rightarrow> nat option \<Rightarrow> string" where
  "config_request local_port device_id password generation_id salt worker_id desired_count =
    (let desired = (case desired_count of None \<Rightarrow> [] | Some value \<Rightarrow> decimal value)
     in ''GETCONF:'' @ local_port @ ''|'' @ device_id @ ''|'' @ password @ ''|'' @ decimal generation_id
        @ ''|'' @ salt @ ''|'' @ decimal worker_id @ ''|'' @ desired @ ''|'' @ WIRE_PROTOCOL_REVISION)"

definition disconnect_request :: "string \<Rightarrow> string \<Rightarrow> string" where
  "disconnect_request device_id salt = ''DISCONNECT:'' @ device_id @ ''|'' @ salt"

text \<open>\<open>std::str::from_utf8\<close>: well-formed UTF-8, the overlong forms, surrogates and values above
  \<open>10FFFF\<close> excluded.\<close>

definition utf8_tail :: "byte \<Rightarrow> bool" where
  "utf8_tail b \<longleftrightarrow> 0x80 \<le> b \<and> b \<le> 0xbf"

fun utf8_valid :: "bytes \<Rightarrow> bool" where
  "utf8_valid [] = True"
| "utf8_valid (b # bs) = (if b < 0x80 then utf8_valid bs
     else if 0xc2 \<le> b \<and> b \<le> 0xdf then (case bs of c # cs \<Rightarrow> utf8_tail c \<and> utf8_valid cs | _ \<Rightarrow> False)
     else if 0xe0 \<le> b \<and> b \<le> 0xef then
       (case bs of c # d # ds \<Rightarrow> utf8_tail c \<and> (b = 0xe0 \<longrightarrow> 0xa0 \<le> c) \<and> (b = 0xed \<longrightarrow> c \<le> 0x9f)
          \<and> utf8_tail d \<and> utf8_valid ds | _ \<Rightarrow> False)
     else if 0xf0 \<le> b \<and> b \<le> 0xf4 then
       (case bs of c # d # e # es \<Rightarrow> utf8_tail c \<and> (b = 0xf0 \<longrightarrow> 0x90 \<le> c) \<and> (b = 0xf4 \<longrightarrow> c \<le> 0x8f)
          \<and> utf8_tail d \<and> utf8_tail e \<and> utf8_valid es | _ \<Rightarrow> False)
     else False)"

datatype config_response = Config bytes | NoConfig

text \<open>The errors; each constructor is one \<open>bail!\<close>, and \<open>fatal_marker\<close> the marker its message
  starts with, by which the worker recognises that retrying is useless.\<close>

datatype config_error =
    NotUtf8 | WrongPassword | Expired | DeviceMismatch | ProtocolMismatch | Denied bytes | UnexpectedResponse

definition fatal_marker :: "config_error \<Rightarrow> string option" where
  "fatal_marker e = (case e of
     NotUtf8 \<Rightarrow> None | UnexpectedResponse \<Rightarrow> None
   | ProtocolMismatch \<Rightarrow> Some ''FATAL_PROTOCOL''
   | _ \<Rightarrow> Some ''FATAL_AUTH'')"

text \<open>\<open>strip_prefix\<close>.\<close>

definition strip_prefix :: "'a list \<Rightarrow> 'a list \<Rightarrow> 'a list option" where
  "strip_prefix p xs = (if starts_with xs p then Some (drop (length p) xs) else None)"

definition denied_error :: "bytes \<Rightarrow> config_error" where
  "denied_error reason = (
     if reason = ascii ''wrong_password'' then WrongPassword
     else if reason = ascii ''expired'' then Expired
     else if reason = ascii ''device_mismatch'' then DeviceMismatch
     else if reason = ascii ''protocol_mismatch'' \<or> reason = ascii ''invalid_worker_count'' then ProtocolMismatch
     else Denied reason)"

definition parse_config_response :: "bytes \<Rightarrow> config_error + config_response" where
  "parse_config_response response = (if \<not> utf8_valid response then Inl NotUtf8
     else if response = ascii ''NOCONF'' then Inr NoConfig
     else case strip_prefix (ascii ''DENIED:'') response of
       Some reason \<Rightarrow> Inl (denied_error reason)
     | None \<Rightarrow> if starts_with response (ascii ''TUNCONF:'') then Inr (Config response)
         else Inl UnexpectedResponse)"

definition is_config_response :: "bytes \<Rightarrow> bool" where
  "is_config_response response =
    (\<exists>p\<in>set [ascii ''TUNCONF:'', ascii ''NOCONF'', ascii ''DENIED:'']. starts_with response p)"

definition is_panel_restart_notice :: "bytes \<Rightarrow> bool" where
  "is_panel_restart_notice response \<longleftrightarrow> response = PANEL_RESTART_NOTICE"

definition is_control_response :: "bytes \<Rightarrow> bool" where
  "is_control_response response = (is_panel_restart_notice response \<or>
    (\<exists>p\<in>set [ascii ''TUNCONF:'', ascii ''NOCONF'', ascii ''DENIED:'', ascii ''READY_OK'', ascii ''OK:disconnected'',
        STREAM_REPAIR_PREFIX, STREAM_ALIVE_PREFIX]. starts_with response p))"

section \<open>Stream commands\<close>

record stream_command =
  sc_sequence :: u64
  sc_desired :: u16
  sc_ids :: "u16 list"

text \<open>The loop over \<open>ids.chunks_exact(2)\<close>.\<close>

fun parse_worker_ids :: "u16 \<Rightarrow> bytes \<Rightarrow> u16 list option" where
  "parse_worker_ids desired (a # b # ids) =
    (let worker_id = u16_of_be [a, b]
     in if worker_id = 0 \<or> desired < worker_id then None
        else map_option ((#) worker_id) (parse_worker_ids desired ids))"
| "parse_worker_ids desired ids = Some []"

definition parse_stream_command :: "bytes \<Rightarrow> bytes \<Rightarrow> stream_command option" where
  "parse_stream_command payload prefix = (case strip_prefix prefix payload of
     None \<Rightarrow> None
   | Some rest \<Rightarrow> if length rest < 11 then None
       else let sequence = u64_of_be (subslice rest 0 8);
                desired = u16_of_be (subslice rest 8 10);
                n = unat (rest ! 10);
                ids = drop 11 rest
         in if sequence = 0 \<or> desired = 0 \<or> word_of_nat MAX_STREAM_WORKERS < desired \<or> length ids \<noteq> n * 2 then None
            else case parse_worker_ids desired ids of
              None \<Rightarrow> None
            | Some ws \<Rightarrow> if ws = [] then None
                else Some \<lparr>sc_sequence = sequence, sc_desired = desired, sc_ids = ws\<rparr>)"

definition parse_stream_repair :: "bytes \<Rightarrow> stream_command option" where
  "parse_stream_repair payload = parse_stream_command payload STREAM_REPAIR_PREFIX"

definition parse_stream_alive :: "bytes \<Rightarrow> stream_command option" where
  "parse_stream_alive payload = parse_stream_command payload STREAM_ALIVE_PREFIX"

section \<open>The repair state\<close>

record repair_slot =
  rs_restart :: u64
  rs_credential :: u64
  rs_last :: u64
  rs_ready :: u64

definition new_slot :: repair_slot where
  "new_slot = \<lparr>rs_restart = 0, rs_credential = 0, rs_last = 0, rs_ready = 0\<rparr>"

definition new_repair_state :: "nat \<Rightarrow> repair_slot list" where
  "new_repair_state desired_count = replicate (Suc desired_count) new_slot"

definition repair_slot_at :: "nat \<Rightarrow> repair_slot list \<Rightarrow> repair_slot option" where
  "repair_slot_at worker_id st = (if worker_id \<noteq> 0 \<and> worker_id < length st then Some (st ! worker_id) else None)"

definition restart_generation :: "nat \<Rightarrow> repair_slot list \<Rightarrow> u64" where
  "restart_generation worker_id st = (case repair_slot_at worker_id st of None \<Rightarrow> 0 | Some slot \<Rightarrow> rs_restart slot)"

definition credential_generation :: "nat \<Rightarrow> repair_slot list \<Rightarrow> u64" where
  "credential_generation worker_id st = (case repair_slot_at worker_id st of None \<Rightarrow> 0 | Some slot \<Rightarrow> rs_credential slot)"

definition mark_ready :: "nat \<Rightarrow> repair_slot list \<Rightarrow> repair_slot list" where
  "mark_ready worker_id st = (case repair_slot_at worker_id st of None \<Rightarrow> st
     | Some slot \<Rightarrow> st[worker_id := slot\<lparr>rs_ready := rs_last slot\<rparr>])"

text \<open>One worker of a repair command; the result counts restarts and credential resets.\<close>

definition repair_one :: "u64 \<Rightarrow> u16 \<Rightarrow> repair_slot list \<times> nat \<times> nat \<Rightarrow> repair_slot list \<times> nat \<times> nat" where
  "repair_one sequence worker r = (case r of (st, restarts, resets) \<Rightarrow>
    (case repair_slot_at (unat worker) st of
       None \<Rightarrow> r
     | Some slot \<Rightarrow>
         if sequence \<le> rs_last slot then r
         else let reset = (rs_last slot \<noteq> 0 \<and> rs_ready slot < rs_last slot)
           in (st[unat worker := slot\<lparr>rs_last := sequence,
                 rs_credential := (if reset then rs_credential slot + 1 else rs_credential slot),
                 rs_restart := rs_restart slot + 1\<rparr>],
               restarts + 1, if reset then resets + 1 else resets)))"

definition apply_repair :: "stream_command \<Rightarrow> repair_slot list \<Rightarrow> repair_slot list \<times> nat \<times> nat" where
  "apply_repair c st = fold (repair_one (sc_sequence c)) (sc_ids c) (st, 0, 0)"

definition alive_one :: "u64 \<Rightarrow> u16 \<Rightarrow> repair_slot list \<times> nat \<Rightarrow> repair_slot list \<times> nat" where
  "alive_one sequence worker r = (case r of (st, applied) \<Rightarrow>
    (case repair_slot_at (unat worker) st of
       None \<Rightarrow> r
     | Some slot \<Rightarrow> (st[unat worker := slot\<lparr>rs_ready := max (rs_ready slot) sequence\<rparr>], applied + 1)))"

definition apply_alive :: "stream_command \<Rightarrow> repair_slot list \<Rightarrow> repair_slot list \<times> nat" where
  "apply_alive c st = fold (alive_one (sc_sequence c)) (sc_ids c) (st, 0)"


section \<open>The wire form of a command\<close>

definition command_bytes :: "stream_command \<Rightarrow> bytes" where
  "command_bytes c = u64_to_be (sc_sequence c) @ u16_to_be (sc_desired c)
     @ [word_of_nat (length (sc_ids c))] @ concat (map u16_to_be (sc_ids c))"

definition command_ok :: "stream_command \<Rightarrow> bool" where
  "command_ok c \<longleftrightarrow> sc_sequence c \<noteq> 0 \<and> 0 < sc_desired c \<and> sc_desired c \<le> word_of_nat MAX_STREAM_WORKERS
     \<and> sc_ids c \<noteq> [] \<and> length (sc_ids c) \<le> 255 \<and> (\<forall>w\<in>set (sc_ids c). 0 < w \<and> w \<le> sc_desired c)"

lemma worker_ids_bytes:
  "\<forall>w\<in>set ws. 0 < w \<and> w \<le> desired \<Longrightarrow> parse_worker_ids desired (concat (map u16_to_be ws)) = Some ws"
proof (induction ws)
  case (Cons w ws)
  obtain a b where w: "u16_to_be w = [a, b]" by (simp add: u16_to_be_eq)
  have "u16_of_be [a, b] = w" using w by (metis u16_of_to_be)
  thus ?case using Cons w by (auto simp: word_neq_0_conv)
qed simp

lemma parsed_worker_ids:
  "parse_worker_ids desired ids = Some ws \<Longrightarrow> length ids = n * 2
   \<Longrightarrow> ids = concat (map u16_to_be ws) \<and> length ws = n \<and> (\<forall>w\<in>set ws. 0 < w \<and> w \<le> desired)"
proof (induction desired ids arbitrary: ws n rule: parse_worker_ids.induct)
  case (1 desired a b ids)
  obtain m where n: "n = Suc m" using 1(3) by (cases n) auto
  let ?w = "u16_of_be [a, b]"
  obtain vs where w: "\<not> (?w = 0 \<or> desired < ?w)" and ws: "ws = ?w # vs" "parse_worker_ids desired ids = Some vs"
    using 1(2) by (auto simp: Let_def split: if_splits)
  have "ids = concat (map u16_to_be vs) \<and> length vs = m \<and> (\<forall>w\<in>set vs. 0 < w \<and> w \<le> desired)"
    by (rule 1(1) [OF refl _ ws(2)]) (use w 1(3) n in auto)
  moreover have "u16_to_be ?w = [a, b]" by (simp add: u16_to_of_be)
  ultimately show ?case using w ws n by (auto simp: word_neq_0_conv not_less)
qed auto

lemma strip_prefix_Some [simp]: "strip_prefix p xs = Some r \<longleftrightarrow> xs = p @ r"
  unfolding strip_prefix_def starts_with_iff by auto

lemma length_ids_bytes: "length (concat (map u16_to_be ws)) = length ws * 2"
  by (induction ws) auto

lemma parse_command_bytes:
  assumes "command_ok c"
  shows "parse_stream_command (p @ command_bytes c) p = Some c"
proof -
  have s: "strip_prefix p (p @ command_bytes c) = Some (command_bytes c)" by simp
  have f: "subslice (command_bytes c) 0 8 = u64_to_be (sc_sequence c)" "subslice (command_bytes c) 8 10 = u16_to_be (sc_desired c)"
    "drop 11 (command_bytes c) = concat (map u16_to_be (sc_ids c))"
    "command_bytes c ! 10 = word_of_nat (length (sc_ids c))"
    "\<not> length (command_bytes c) < 11"
    by (simp_all add: command_bytes_def subslice_def nth_append)
  have n: "unat (command_bytes c ! 10) = length (sc_ids c)" using assms f(4) by (simp add: command_ok_def unat_byte_of_nat)
  have ids: "parse_worker_ids (sc_desired c) (concat (map u16_to_be (sc_ids c))) = Some (sc_ids c)"
    by (rule worker_ids_bytes) (use assms in \<open>simp add: command_ok_def\<close>)
  have g: "\<not> (sc_sequence c = 0 \<or> sc_desired c = 0 \<or> word_of_nat MAX_STREAM_WORKERS < sc_desired c
      \<or> length (concat (map u16_to_be (sc_ids c))) \<noteq> length (sc_ids c) * 2)"
    using assms by (auto simp: command_ok_def length_ids_bytes)
  show ?thesis unfolding parse_stream_command_def s option.case Let_def f(1-3) n u64_of_to_be u16_of_to_be
    using g ids f(5) assms by (simp add: command_ok_def)
qed

lemma parsed_command:
  assumes "parse_stream_command payload p = Some c"
  shows "command_ok c \<and> payload = p @ command_bytes c"
proof -
  obtain rest where r: "strip_prefix p payload = Some rest" using assms by (auto simp: parse_stream_command_def split: option.splits)
  hence pay: "payload = p @ rest" by simp
  note a = assms [unfolded parse_stream_command_def r option.case]
  have l: "\<not> length rest < 11" using a by (auto split: if_splits)
  let ?s = "u64_of_be (subslice rest 0 8)" let ?d = "u16_of_be (subslice rest 8 10)"
  let ?n = "unat (rest ! 10)" let ?ids = "drop 11 rest"
  have g: "\<not> (?s = 0 \<or> ?d = 0 \<or> word_of_nat MAX_STREAM_WORKERS < ?d \<or> length ?ids \<noteq> ?n * 2)"
    using a l by (auto simp: Let_def split: if_splits)
  obtain ws where ws: "parse_worker_ids ?d ?ids = Some ws" "ws \<noteq> []"
      and c: "c = \<lparr>sc_sequence = ?s, sc_desired = ?d, sc_ids = ws\<rparr>"
    using a l g by (auto simp: Let_def split: if_splits option.splits)
  have i: "?ids = concat (map u16_to_be ws)" "length ws = ?n" "\<forall>w\<in>set ws. 0 < w \<and> w \<le> ?d"
    using parsed_worker_ids [OF ws(1)] g by blast+
  have ok: "command_ok c" using c g ws(2) i(2,3) unat_byte_bound [of "rest ! 10"]
    by (auto simp: command_ok_def word_neq_0_conv not_less)
  have "rest = subslice rest 0 8 @ subslice rest 8 10 @ [rest ! 10] @ ?ids"
  proof -
    have "subslice rest 0 8 @ subslice rest 8 10 = take 10 rest"
      using take_append_subslice [of 8 10 rest] by (simp add: subslice_0)
    moreover have "take 10 rest @ rest ! 10 # drop (Suc 10) rest = rest" using l by (intro id_take_nth_drop [symmetric]) simp
    ultimately have "(subslice rest 0 8 @ subslice rest 8 10) @ rest ! 10 # ?ids = rest" by simp
    thus ?thesis by (simp only: append.assoc append_Cons append_Nil)
  qed
  also have "\<dots> = command_bytes c" using c i l
    by (simp add: command_bytes_def u64_to_of_be u16_to_of_be length_subslice)
  finally show ?thesis using ok pay by simp
qed

section \<open>The effect of a repair\<close>

definition addressed :: "stream_command \<Rightarrow> nat \<Rightarrow> repair_slot list \<Rightarrow> bool" where
  "addressed c w st \<longleftrightarrow> 0 < w \<and> w < length st \<and> w \<in> unat ` set (sc_ids c)"

definition repaired :: "u64 \<Rightarrow> repair_slot \<Rightarrow> repair_slot" where
  "repaired sequence slot = slot\<lparr>rs_last := sequence,
     rs_credential := rs_credential slot + (if rs_last slot \<noteq> 0 \<and> rs_ready slot < rs_last slot then 1 else 0),
     rs_restart := rs_restart slot + 1\<rparr>"

lemma repair_one_cases:
  "repair_one sq v (st, r, k) =
    (if 0 < unat v \<and> unat v < length st \<and> rs_last (st ! unat v) < sq
     then (st[unat v := repaired sq (st ! unat v)], r + 1,
           k + (if rs_last (st ! unat v) \<noteq> 0 \<and> rs_ready (st ! unat v) < rs_last (st ! unat v) then 1 else 0))
     else (st, r, k))"
  by (auto simp: repair_one_def repair_slot_at_def repaired_def Let_def not_le)

lemma repaired_not_below: "\<not> rs_last (repaired sq slot) < sq"
  by (simp add: repaired_def)

definition renewed :: "u64 \<Rightarrow> u16 list \<Rightarrow> repair_slot list \<Rightarrow> nat set" where
  "renewed sq ws st = {w. 0 < w \<and> w < length st \<and> w \<in> unat ` set ws \<and> rs_last (st ! w) < sq}"

lemma finite_renewed: "finite (renewed sq ws st)"
  by (rule finite_subset [of _ "{..<length st}"]) (auto simp: renewed_def)

lemma repair_fold:
  "fold (repair_one sq) ws (st, r, k) = (st', r', k') \<Longrightarrow>
    length st' = length st \<and>
    (\<forall>w<length st. st' ! w = (if w \<in> renewed sq ws st then repaired sq (st ! w) else st ! w)) \<and>
    r' = r + card (renewed sq ws st)"
proof (induction ws arbitrary: st r k)
  case Nil
  thus ?case by (simp add: renewed_def)
next
  case (Cons v ws)
  show ?case
  proof (cases "0 < unat v \<and> unat v < length st \<and> rs_last (st ! unat v) < sq")
    case False
    hence "repair_one sq v (st, r, k) = (st, r, k)" by (simp only: repair_one_cases if_False)
    hence "fold (repair_one sq) ws (st, r, k) = (st', r', k')" using Cons.prems by simp
    moreover have "renewed sq (v # ws) st = renewed sq ws st" using False by (auto simp: renewed_def)
    ultimately show ?thesis using Cons.IH by simp
  next
    case True
    define st1 where "st1 = st[unat v := repaired sq (st ! unat v)]"
    obtain k1 where k1: "repair_one sq v (st, r, k) = (st1, r + 1, k1)"
      unfolding repair_one_cases if_P [OF True] st1_def by blast
    hence f: "fold (repair_one sq) ws (st1, r + 1, k1) = (st', r', k')" using Cons.prems by simp
    have v: "unat v < length st" "0 < unat v" "rs_last (st ! unat v) < sq" using True by blast+
    have l: "length st1 = length st" by (simp add: st1_def)
    have n: "st1 ! w = (if w = unat v then repaired sq (st ! unat v) else st ! w)" for w
      using v by (simp add: st1_def nth_list_update)
    have vn: "unat v \<notin> renewed sq ws st1" by (simp add: renewed_def n repaired_not_below)
    have ins: "renewed sq (v # ws) st = insert (unat v) (renewed sq ws st1)"
      using v by (auto simp: renewed_def l n repaired_not_below)
    note IH = Cons.IH [OF f, unfolded l]
    have "card (renewed sq (v # ws) st) = Suc (card (renewed sq ws st1))"
      using vn by (simp only: ins card_insert_disjoint [OF finite_renewed vn])
    moreover have "st' ! w = (if w \<in> renewed sq (v # ws) st then repaired sq (st ! w) else st ! w)" if w: "w < length st" for w
    proof (cases "w = unat v")
      case True
      have "st' ! w = (if w \<in> renewed sq ws st1 then repaired sq (st1 ! w) else st1 ! w)" using IH w by blast
      hence "st' ! w = st1 ! w" using vn True by simp
      thus ?thesis using True n ins by simp
    next
      case False
      have "st' ! w = (if w \<in> renewed sq ws st1 then repaired sq (st1 ! w) else st1 ! w)" using IH w by blast
      thus ?thesis using False n ins by simp
    qed
    ultimately show ?thesis using IH by simp
  qed
qed

lemma apply_repair_effect:
  assumes "apply_repair c st = (st', restarts, resets)"
  shows "length st' = length st"
    "w < length st \<Longrightarrow> st' ! w = (if w \<in> renewed (sc_sequence c) (sc_ids c) st then repaired (sc_sequence c) (st ! w) else st ! w)"
    "restarts = card (renewed (sc_sequence c) (sc_ids c) st)"
  using repair_fold [OF assms [unfolded apply_repair_def]] by auto

lemma repair_stale:
  assumes "\<forall>v\<in>set ws. repair_slot_at (unat v) st = None \<or> sq \<le> rs_last (st ! unat v)"
  shows "fold (repair_one sq) ws (st, r, k) = (st, r, k)"
  using assms
proof (induction ws)
  case (Cons v ws)
  have "repair_one sq v (st, r, k) = (st, r, k)" using Cons.prems by (auto simp: repair_one_def repair_slot_at_def)
  thus ?case using Cons by simp
qed simp

lemma alive_fold_length: "length (fst (fold (alive_one sq) ws r)) = length (fst r)"
  by (induction ws arbitrary: r) (auto simp: alive_one_def split: option.splits prod.splits)

lemma alive_fold_last: "rs_last (fst (fold (alive_one sq) ws r) ! w) = rs_last (fst r ! w)"
proof (induction ws arbitrary: r)
  case (Cons v ws)
  have "rs_last (fst (alive_one sq v r) ! w) = rs_last (fst r ! w)"
    by (cases "w = unat v") (auto simp: alive_one_def repair_slot_at_def nth_list_update split: option.splits prod.splits)
  thus ?case using Cons by simp
qed simp

section \<open>Steps of the repair state\<close>

datatype repair_event = Repair stream_command | Alive stream_command | PathReady nat

fun repair_step :: "repair_event \<Rightarrow> repair_slot list \<Rightarrow> repair_slot list" where
  "repair_step (Repair c) st = fst (apply_repair c st)"
| "repair_step (Alive c) st = fst (apply_alive c st)"
| "repair_step (PathReady w) st = mark_ready w st"

lemma repair_step_length [simp]: "length (repair_step e st) = length st"
proof (cases e)
  case (Repair c)
  obtain st' r k where "apply_repair c st = (st', r, k)" by (rule prod_cases3)
  thus ?thesis using apply_repair_effect(1) Repair by simp
next
  case (Alive c)
  thus ?thesis using alive_fold_length [of "sc_sequence c" "sc_ids c" "(st, 0)"] by (simp add: apply_alive_def)
next
  case (PathReady w)
  thus ?thesis by (simp add: mark_ready_def split: option.split)
qed

lemma repair_step_last:
  assumes "w < length st"
  shows "rs_last (st ! w) \<le> rs_last (repair_step e st ! w)"
proof (cases e)
  case (Repair c)
  obtain st' r k where a: "apply_repair c st = (st', r, k)" by (rule prod_cases3)
  thus ?thesis using apply_repair_effect(2) [OF a assms] Repair by (auto simp: renewed_def repaired_def)
next
  case (Alive c)
  thus ?thesis using alive_fold_last [of "sc_sequence c" "sc_ids c" "(st, 0)" w] by (simp add: apply_alive_def)
next
  case (PathReady v)
  thus ?thesis using assms
    by (cases "v = w") (auto simp: mark_ready_def repair_slot_at_def nth_list_update split: option.split)
qed

lemma run_repair_length [simp]: "length (run_ops repair_step es st) = length st"
  by (induction es arbitrary: st) auto

lemma run_repair_last: "w < length st \<Longrightarrow> rs_last (st ! w) \<le> rs_last (run_ops repair_step es st ! w)"
proof (induction es arbitrary: st)
  case (Cons e es)
  have "rs_last (st ! w) \<le> rs_last (repair_step e st ! w)" by (rule repair_step_last [OF Cons.prems])
  thus ?case using Cons.IH [of "repair_step e st"] Cons.prems by simp
qed simp

section \<open>Properties\<close>

text \<open>The stream command codec. A frame is accepted as the command \<open>c\<close> exactly when it is the prefix
  followed by the 8-byte sequence, the 2-byte desired count, the count byte and the 2-byte worker
  ids of \<open>c\<close>, nothing before or after, and \<open>c\<close> is well formed: a nonzero sequence, between 1 and 126 desired workers,
  and between 1 and 255 ids, each between 1 and the desired count.\<close>

theorem stream_command_codec:
  "parse_stream_command payload prefix = Some c \<longleftrightarrow> command_ok c \<and> payload = prefix @ command_bytes c"
  using parse_command_bytes parsed_command by blast

text \<open>C18: a repair is applied once. The server repeats repair commands until the paths recover; once a command was applied, then after any
  further commands, alive notices and path-ready marks, delivering it again changes no slot, restarts
  no worker and resets no credential.\<close>

theorem repair_applied_once:
  assumes "Repair c \<in> set es"
  shows "apply_repair c (run_ops repair_step es st) = (run_ops repair_step es st, 0, 0)"
proof -
  obtain es1 es2 where es: "es = es1 @ Repair c # es2" using assms split_list by fast
  let ?s1 = "run_ops repair_step es1 st" let ?s2 = "run_ops repair_step es st"
  obtain s' r k where a: "apply_repair c ?s1 = (s', r, k)" by (rule prod_cases3)
  have s2: "?s2 = run_ops repair_step es2 s'" using a by (simp add: es run_ops_append)
  have len: "length s' = length st" "length ?s2 = length st" using apply_repair_effect(1) [OF a] by auto
  have "sc_sequence c \<le> rs_last (?s2 ! unat v)" if v: "v \<in> set (sc_ids c)" "0 < unat v" "unat v < length st" for v
  proof -
    have "sc_sequence c \<le> rs_last (s' ! unat v)"
      using apply_repair_effect(2) [OF a, of "unat v"] v by (auto simp: renewed_def repaired_def not_less)
    thus ?thesis using run_repair_last [of "unat v" s' es2] v len s2 by simp
  qed
  hence "\<forall>v\<in>set (sc_ids c). repair_slot_at (unat v) ?s2 = None \<or> sc_sequence c \<le> rs_last (?s2 ! unat v)"
    using len by (auto simp: repair_slot_at_def)
  thus ?thesis unfolding apply_repair_def by (rule repair_stale)
qed

lemma repair_applied_once_witness:
  "let c = \<lparr>sc_sequence = 5, sc_desired = 4, sc_ids = [2, 3]\<rparr>;
       st = run_ops repair_step [Repair c, PathReady 2, Alive c] (new_repair_state 4)
   in apply_repair c st = (st, 0, 0)"
  using repair_applied_once [of "\<lparr>sc_sequence = 5, sc_desired = 4, sc_ids = [2, 3]\<rparr>"
      "[Repair \<lparr>sc_sequence = 5, sc_desired = 4, sc_ids = [2, 3]\<rparr>, PathReady 2, Alive \<lparr>sc_sequence = 5, sc_desired = 4, sc_ids = [2, 3]\<rparr>]"]
  by (simp only: Let_def list.set insert_iff simp_thms)

text \<open>The GETCONF request carries its eight fields. When no argument contains the separator the server
  recovers every field by splitting at it, the numbers in decimal, an absent desired count as an empty field,
  and the last field is the protocol revision.\<close>

theorem getconf_fields:
  assumes "CHR ''|'' \<notin> set port" "CHR ''|'' \<notin> set device" "CHR ''|'' \<notin> set password" "CHR ''|'' \<notin> set salt"
  shows "split_all (CHR ''|'') (config_request port device password gen salt worker desired)
     = [''GETCONF:'' @ port, device, password, decimal gen, salt, decimal worker,
        (case desired of None \<Rightarrow> [] | Some n \<Rightarrow> decimal n), ''CSQTT-WIRE-3'']"
proof -
  have n: "CHR ''|'' \<notin> set (decimal k)" for k by (rule decimal_no_char) simp
  have d: "CHR ''|'' \<notin> set (case desired of None \<Rightarrow> [] | Some n \<Rightarrow> decimal n)" using n by (simp split: option.split)
  have w: "split_all (CHR ''|'') ''CSQTT-WIRE-3'' = [''CSQTT-WIRE-3'']" by simp
  have g: "CHR ''|'' \<notin> set (''GETCONF:'' @ port)" using assms(1) by simp
  have e: "config_request port device password gen salt worker desired
    = (''GETCONF:'' @ port) @ CHR ''|'' # device @ CHR ''|'' # password @ CHR ''|'' # decimal gen @ CHR ''|'' # salt
      @ CHR ''|'' # decimal worker @ CHR ''|'' # (case desired of None \<Rightarrow> [] | Some n \<Rightarrow> decimal n) @ CHR ''|'' # ''CSQTT-WIRE-3''"
    by (simp add: config_request_def Let_def WIRE_PROTOCOL_REVISION_def)
  show ?thesis unfolding e
    by (simp only: split_all_sep [OF g] split_all_sep [OF assms(2)] split_all_sep [OF assms(3)] split_all_sep [OF assms(4)]
        split_all_sep [OF n] split_all_sep [OF d] w)
qed

lemma getconf_fields_witness:
  "split_all (CHR ''|'') (config_request ''9000'' ''device'' ''password'' 7 ''salt'' 4 None)
     = [''GETCONF:9000'', ''device'', ''password'', decimal 7, ''salt'', decimal 4, [], ''CSQTT-WIRE-3'']"
  using getconf_fields [of "''9000''" "''device''" "''password''" "''salt''" 7 4 None] by simp

end
