(* ===== verification/SessionTransport.thy ===== *)
theory SessionTransport
  imports Bridge Obfs ReplayWindow StreamControl
begin

text \<open>
  The transport of a session (\<open>session.rs\<close>): authentication of what arrives, the writer that drains the
  worker's three queues in batches, disguises the packets and hands them to the TURN allocation, and
  the reader that separates control messages from tunnel packets. Sending on the allocation is the
  TURN driver's; here each call is recorded and its success is an argument.
\<close>

section \<open>Receiving\<close>

definition authenticate_inbound :: "obfs_crypto \<Rightarrow> obfs_config \<Rightarrow> packet_buf \<Rightarrow> replay_window
    \<Rightarrow> packet_buf option \<times> replay_window" where
  "authenticate_inbound ox cfg packet replay = (if \<not> is_rtp_packet (as_slice packet) then (None, replay)
     else case unwrap ox (oc_mode cfg) packet of
       Inl e \<Rightarrow> (None, replay)
     | Inr (sequence, p) \<Rightarrow> (case accept_rtp sequence replay of
         (True, w) \<Rightarrow> (Some p, w) | (False, w) \<Rightarrow> (None, w)))"

text \<open>\<open>TransportReader::recv\<close> over the packets the TURN driver delivers: the first one accepted.\<close>

fun transport_recv :: "obfs_crypto \<Rightarrow> obfs_config \<Rightarrow> packet_buf list \<Rightarrow> replay_window
    \<Rightarrow> packet_buf option \<times> packet_buf list \<times> replay_window" where
  "transport_recv ox cfg [] w = (None, [], w)"
| "transport_recv ox cfg (p # ps) w = (case authenticate_inbound ox cfg p w of
     (Some q, w1) \<Rightarrow> (Some q, ps, w1)
   | (None, w1) \<Rightarrow> transport_recv ox cfg ps w1)"

section \<open>Sending\<close>

definition WRITER_BULK_BATCH_LIMIT :: nat where "WRITER_BULK_BATCH_LIMIT = datagram_batch Bulk"
definition WRITER_COMMAND_CAPACITY :: nat where "WRITER_COMMAND_CAPACITY = 16"

text \<open>The writer; \<open>tw_log\<close> records the calls to the allocation with their outcomes, oldest first. A call that succeeds has put all its packets
  on the wire, one that fails the first \<open>co_sent\<close> of them; a duplicate is sent only if \<open>co_duplicate\<close>: it is tried once on a datagram socket
  and never on a stream.\<close>

datatype allocation_call = SendOne packet_buf bool | SendBatch "packet_buf list"

record call_outcome =
  co_ok :: bool
  co_sent :: nat
  co_duplicate :: bool

record transport_writer =
  tw_state :: obfs_state
  tw_budget :: budget
  tw_pending :: "packet_buf list"
  tw_mmsg :: "packet_buf list"
  tw_log :: "(allocation_call \<times> call_outcome) list"

text \<open>What one packet takes from outside: the clock readings and the random values.\<close>

record write_env =
  we_elapsed :: nat
  we_random :: wrap_random
  we_now :: nat

text \<open>The fixed part of the transport: cipher, configuration, the FEC switch, and the outcome of the \<open>i\<close>-th call to the
  allocation.\<close>

record transport_shared =
  tp_crypto :: obfs_crypto
  tp_config :: obfs_config
  tp_fec :: bool
  tp_outcome :: "nat \<Rightarrow> call_outcome"

definition prepare_packet :: "transport_shared \<Rightarrow> write_env \<Rightarrow> packet_buf \<Rightarrow> transport_writer
    \<Rightarrow> (obfs_error + packet_buf \<times> bool) \<times> transport_writer" where
  "prepare_packet tp env packet tw =
    (let (duplicate, budget) = (if tp_fec tp \<and> should_duplicate (as_slice packet)
           then budget_allow (we_now env) (tw_budget tw) else (False, tw_budget tw));
         (r, ws) = wrap (tp_crypto tp) (tp_config tp) (we_elapsed env) (we_random env) packet (tw_state tw);
         tw1 = tw\<lparr>tw_budget := budget, tw_state := ws\<rparr>
     in (case r of Inl e \<Rightarrow> (Inl e, tw1) | Inr p \<Rightarrow> (Inr (p, duplicate), tw1)))"

datatype write_error = Obfuscation obfs_error | SendFailed | PoolExhausted | PayloadTooLarge

definition allocation_send :: "transport_shared \<Rightarrow> allocation_call \<Rightarrow> transport_writer \<Rightarrow> (write_error + unit) \<times> transport_writer" where
  "allocation_send tp call tw = (let outcome = tp_outcome tp (length (tw_log tw)) in
     (if co_ok outcome then Inr () else Inl SendFailed, tw\<lparr>tw_log := tw_log tw @ [(call, outcome)]\<rparr>))"

definition send_packet :: "transport_shared \<Rightarrow> write_env \<Rightarrow> packet_buf \<Rightarrow> transport_writer
    \<Rightarrow> (write_error + unit) \<times> transport_writer" where
  "send_packet tp env packet tw = (case prepare_packet tp env packet tw of
     (Inl e, tw1) \<Rightarrow> (Inl (Obfuscation e), tw1)
   | (Inr (p, duplicate), tw1) \<Rightarrow> allocation_send tp (SendOne p duplicate) tw1)"

definition flush_mmsg_data :: "transport_shared \<Rightarrow> transport_writer \<Rightarrow> (write_error + unit) \<times> transport_writer" where
  "flush_mmsg_data tp tw = (if tw_mmsg tw = [] then (Inr (), tw)
     else case allocation_send tp (SendBatch (tw_mmsg tw)) tw of
       (Inl e, tw1) \<Rightarrow> (Inl e, tw1)
     | (Inr u, tw1) \<Rightarrow> (Inr (), tw1\<lparr>tw_mmsg := []\<rparr>))"

text \<open>The loop of \<open>flush_queued_data\<close>: what it does with a prepared packet, and the loop itself;
  \<open>envs\<close> has one entry per pending packet.\<close>

definition write_prepared :: "transport_shared \<Rightarrow> packet_buf \<times> bool \<Rightarrow> transport_writer \<Rightarrow> (write_error + unit) \<times> transport_writer" where
  "write_prepared tp x tw = (case x of
     (p, True) \<Rightarrow> (case flush_mmsg_data tp tw of
         (Inl e, tw1) \<Rightarrow> (Inl e, tw1)
       | (Inr u, tw1) \<Rightarrow> allocation_send tp (SendOne p True) tw1)
   | (p, False) \<Rightarrow>
       (let tw1 = tw\<lparr>tw_mmsg := tw_mmsg tw @ [p]\<rparr> in
        if length (tw_mmsg tw1) = WRITER_BULK_BATCH_LIMIT then flush_mmsg_data tp tw1 else (Inr (), tw1)))"

fun flush_loop :: "transport_shared \<Rightarrow> write_env list \<Rightarrow> transport_writer \<Rightarrow> (write_error + unit) \<times> transport_writer" where
  "flush_loop tp [] tw = flush_mmsg_data tp tw"
| "flush_loop tp (env # envs) tw = (case tw_pending tw of
     [] \<Rightarrow> flush_mmsg_data tp tw
   | packet # rest \<Rightarrow> (case prepare_packet tp env packet (tw\<lparr>tw_pending := rest\<rparr>) of
       (Inl e, tw1) \<Rightarrow> (Inl (Obfuscation e), tw1)
     | (Inr x, tw1) \<Rightarrow> (case write_prepared tp x tw1 of
           (Inl e, tw2) \<Rightarrow> (Inl e, tw2)
         | (Inr u, tw2) \<Rightarrow> flush_loop tp envs tw2)))"

definition flush_queued_data :: "transport_shared \<Rightarrow> write_env list \<Rightarrow> transport_writer \<Rightarrow> (write_error + unit) \<times> transport_writer" where
  "flush_queued_data tp envs tw = (case (tw_pending tw, envs) of
     ([packet], env # _) \<Rightarrow> send_packet tp env packet (tw\<lparr>tw_pending := []\<rparr>)
   | _ \<Rightarrow> flush_loop tp envs tw)"

definition send_bytes :: "transport_shared \<Rightarrow> (bytes, 'b) queue_ops \<Rightarrow> bytes \<Rightarrow> write_env \<Rightarrow> bytes \<Rightarrow> transport_writer \<times> 'b packet_pool
    \<Rightarrow> (write_error + unit) \<times> transport_writer \<times> 'b packet_pool" where
  "send_bytes tp bops fresh env data st = (case st of (tw, pool) \<Rightarrow>
    (case try_acquire bops fresh pool of None \<Rightarrow> (Inl PoolExhausted, st)
     | Some (packet, pool1) \<Rightarrow>
         if read_area_len < length data then (Inl PayloadTooLarge, tw, release_buf bops packet pool1)
         else (case set_read_len (length data) (write_at PACKET_HEADROOM data packet) of
             Inl e \<Rightarrow> (Inl PayloadTooLarge, tw, release_buf bops packet pool1)
           | Inr p \<Rightarrow> (let (r, tw1) = send_packet tp env p tw in (r, tw1, pool1)))))"

section \<open>Writer batches\<close>

record 'q session_queues =
  wq_latency :: "'q packet_queue"
  wq_priority :: "'q packet_queue"
  wq_bulk :: "'q packet_queue"

definition wq_get :: "traffic_class \<Rightarrow> 'q session_queues \<Rightarrow> 'q packet_queue" where
  "wq_get c q = (case c of Small \<Rightarrow> wq_latency q | Medium \<Rightarrow> wq_priority q | Bulk \<Rightarrow> wq_bulk q)"

definition wq_set :: "traffic_class \<Rightarrow> 'q packet_queue \<Rightarrow> 'q session_queues \<Rightarrow> 'q session_queues" where
  "wq_set c x q = (case c of Small \<Rightarrow> q\<lparr>wq_latency := x\<rparr> | Medium \<Rightarrow> q\<lparr>wq_priority := x\<rparr> | Bulk \<Rightarrow> q\<lparr>wq_bulk := x\<rparr>)"

definition wq_recv :: "('p, 'q) pq_ops \<Rightarrow> traffic_class \<Rightarrow> 'q session_queues \<Rightarrow> 'p option \<times> 'q session_queues" where
  "wq_recv ops c q = (let (r, x) = try_recv ops (wq_get c q) in (r, wq_set c x q))"

definition next_writer_packet :: "('p, 'q) pq_ops \<Rightarrow> 'q session_queues \<Rightarrow> ('p \<times> traffic_class) option \<times> 'q session_queues" where
  "next_writer_packet ops q = (case wq_recv ops Small q of
     (Some p, q1) \<Rightarrow> (Some (p, Small), q1)
   | (None, q1) \<Rightarrow> (case wq_recv ops Medium q1 of
       (Some p, q2) \<Rightarrow> (Some (p, Medium), q2)
     | (None, q2) \<Rightarrow> (case wq_recv ops Bulk q2 of
         (Some p, q3) \<Rightarrow> (Some (p, Bulk), q3)
       | (None, q3) \<Rightarrow> (None, q3))))"

definition writer_batch_can_extend :: "traffic_class \<Rightarrow> bool \<Rightarrow> bool \<Rightarrow> bool" where
  "writer_batch_can_extend c latency_pending priority_pending = (case c of
     Small \<Rightarrow> True | Medium \<Rightarrow> \<not> latency_pending | Bulk \<Rightarrow> \<not> latency_pending \<and> \<not> priority_pending)"

text \<open>The packets that join the first one: at most \<open>n\<close>.\<close>

fun extend_batch :: "('p, 'q) pq_ops \<Rightarrow> traffic_class \<Rightarrow> nat \<Rightarrow> 'q session_queues \<Rightarrow> 'p list \<times> 'q session_queues" where
  "extend_batch ops c 0 q = ([], q)"
| "extend_batch ops c (Suc n) q =
    (if \<not> writer_batch_can_extend c (has_queued_packet ops (wq_latency q)) (has_queued_packet ops (wq_priority q)) then ([], q)
     else case wq_recv ops c q of
       (None, q1) \<Rightarrow> ([], q1)
     | (Some p, q1) \<Rightarrow> (let (ps, q2) = extend_batch ops c n q1 in (p # ps, q2)))"

definition send_writer_batch :: "(packet_buf, 'q) pq_ops \<Rightarrow> transport_shared \<Rightarrow> write_env list \<Rightarrow> packet_buf \<times> traffic_class
    \<Rightarrow> transport_writer \<times> 'q session_queues \<Rightarrow> (write_error + nat) \<times> transport_writer \<times> 'q session_queues" where
  "send_writer_batch ops tp envs first st = (case (first, st) of ((packet, c), (tw, q)) \<Rightarrow>
    (let (ps, q1) = extend_batch ops c (datagram_batch c - 1) q;
         (r, tw1) = flush_queued_data tp envs (tw\<lparr>tw_pending := tw_pending tw @ packet # ps\<rparr>)
     in (case r of Inl e \<Rightarrow> Inl e | Inr u \<Rightarrow> Inr (1 + length ps), tw1, q1)))"

section \<open>Receiving in step\<close>

text \<open>The window is in step with the peer's writer: the writer's next sequence number comes at most \<open>j\<close> packets after the successor of the last counter
  accepted (\<open>j\<close> packets may have been lost), and \<open>n\<close> more packets stay below half the range of sequence numbers and below
  the saturation point.\<close>

definition in_step :: "nat \<Rightarrow> nat \<Rightarrow> obfs_state \<Rightarrow> replay_window \<Rightarrow> bool" where
  "in_step j n s w \<longleftrightarrow> (\<exists>acc. window_abs w acc) \<and> j + n < 32768 \<and> (case rw_highest w of None \<Rightarrow> True
     | Some h \<Rightarrow> \<exists>i\<le>j. h + i + n + 131072 \<le> u64_max \<and> unat (initial_sequence s (os_count s)) = (h + 1 + i) mod 65536)"

lemma in_step_mono: "in_step j n s w \<Longrightarrow> j \<le> k \<Longrightarrow> m \<le> n \<Longrightarrow> k + m < 32768 \<Longrightarrow> in_step k m s w"
proof -
  assume a: "in_step j n s w" "j \<le> k" "m \<le> n" "k + m < 32768"
  show "in_step k m s w"
  proof (cases "rw_highest w")
    case None
    then show ?thesis using a by (simp add: in_step_def)
  next
    case (Some h)
    obtain i where "i \<le> j" "h + i + n + 131072 \<le> u64_max" "unat (initial_sequence s (os_count s)) = (h + 1 + i) mod 65536"
      using a(1) Some by (auto simp: in_step_def)
    then have "i \<le> k \<and> h + i + m + 131072 \<le> u64_max \<and> unat (initial_sequence s (os_count s)) = (h + 1 + i) mod 65536" using a(2,3) by auto
    then show ?thesis using a(1,4) Some unfolding in_step_def by auto
  qed
qed

lemma in_step_new: "in_step 0 n s new_window" if "n < 32768"
  using window_abs_new that unfolding in_step_def by (auto simp: new_window_def)

lemma extend_next: "h + 1 + i + 65536 \<le> u64_max \<Longrightarrow> i + 1 < 32768 \<Longrightarrow> extend_sequence h ((h + 1 + i) mod 65536) = h + 1 + i"
proof -
  assume a: "h + 1 + i + 65536 \<le> u64_max" "i + 1 < 32768"
  define q r where "q = h div 65536" and "r = h mod 65536"
  have h: "h = 65536 * q + r" "r < 65536" by (simp_all add: q_def r_def)
  have d: "h div 65536 * 65536 = 65536 * q" by (simp add: q_def)
  show ?thesis
  proof (cases "r + 1 + i < 65536")
    case True
    have "(h + 1 + i) mod 65536 = r + 1 + i"
    proof -
      have "h + 1 + i = (r + 1 + i) + 65536 * q" using h by simp
      then have "(h + 1 + i) mod 65536 = (r + 1 + i) mod 65536" by (metis mod_mult_self2)
      then show ?thesis using True by simp
    qed
    then show ?thesis using a h unfolding extend_sequence_def Let_def d by (auto simp: sat_add_u64_def min_def)
  next
    case False
    define x where "x = r + 1 + i - 65536"
    have x: "h + 1 + i = x + 65536 * (q + 1)" "x < 65536" using False h a(2) by (simp_all add: x_def)
    have "(h + 1 + i) mod 65536 = x" unfolding x(1) using x(2) by (simp only: mod_mult_self2 mod_less)
    then show ?thesis using a h x unfolding extend_sequence_def Let_def d by (auto simp: sat_add_u64_def min_def)
  qed
qed

lemma extend_same: "h + 65536 \<le> u64_max \<Longrightarrow> extend_sequence h (h mod 65536) = h"
  by (auto simp: extend_sequence_def sat_add_u64_def min_def)

lemma accept_highest:
  assumes "window_abs w acc" "rw_highest w = Some h"
  shows "window_accept h w = (False, w)"
proof -
  obtain a w' where r: "window_accept h w = (a, w')" by force
  have "h \<in> acc" using assms by (simp add: window_abs_def)
  hence "\<not> a" using accept_simulates [OF assms(1) r] by (simp add: spec_fresh_def)
  thus ?thesis using r assms(2) by (auto simp: window_accept_def Let_def split: if_splits)
qed

lemma accept_above:
  assumes "window_abs w acc" "\<forall>h. rw_highest w = Some h \<longrightarrow> h < c"
  shows "\<exists>w'. window_accept c w = (True, w') \<and> window_abs w' (insert c acc) \<and> rw_highest w' = Some c"
proof -
  obtain a w' where r: "window_accept c w = (a, w')" by force
  have "a" "rw_highest w' = Some c" using r assms(2) by (auto simp: window_accept_def Let_def split: option.splits)
  thus ?thesis using accept_simulates [OF assms(1) r] r by (cases a) auto
qed

lemma ucast_add_one: "ucast (a + 1 :: u64) = (ucast a + 1 :: u16)"
proof -
  have m: "(x mod 18446744073709551616 + 1) mod 65536 = (x + 1) mod (65536 :: int)" for x
  proof -
    have "x mod 18446744073709551616 mod 65536 = x mod 65536" by (rule mod_mod_cancel) simp
    thus ?thesis by (rule mod_add_cong) simp
  qed
  show ?thesis by transfer (simp add: take_bit_eq_mod mod_mod_cancel mod_simps m)
qed

lemma next_sequence:
  assumes "s' = s\<lparr>os_count := os_count s + 1, os_transport_sequence := x\<rparr>" "unat (initial_sequence s (os_count s)) = c mod 65536"
  shows "unat (initial_sequence s' (os_count s')) = (c + 1) mod 65536"
proof -
  have "initial_sequence s' (os_count s') = initial_sequence s (os_count s) + 1"
    by (simp add: assms(1) initial_sequence_def ucast_add_one)
  then show ?thesis using assms(2) by (simp add: unat_word_ariths mod_simps)
qed

lemma lost_in_step:
  assumes "in_step j (Suc n) s w" "s' = s\<lparr>os_count := os_count s + 1, os_transport_sequence := x\<rparr>"
  shows "in_step (Suc j) n s' w"
proof (cases "rw_highest w")
  case None
  then show ?thesis using assms(1) by (simp add: in_step_def)
next
  case (Some h)
  obtain i where i: "i \<le> j" "h + i + Suc n + 131072 \<le> u64_max" "unat (initial_sequence s (os_count s)) = (h + 1 + i) mod 65536"
    using assms(1) Some by (auto simp: in_step_def)
  have "unat (initial_sequence s' (os_count s')) = (h + 1 + (i + 1)) mod 65536" using next_sequence [OF assms(2) i(3)] by (simp only: add.assoc)
  moreover have "i + 1 \<le> Suc j" "h + (i + 1) + n + 131072 \<le> u64_max" using i(1,2) by simp_all
  moreover have "Suc j + n < 32768" "\<exists>acc. window_abs w acc" using assms(1) by (simp_all add: in_step_def)
  ultimately show ?thesis unfolding in_step_def Some option.case by blast
qed

lemma accept_in_step:
  assumes "in_step j (Suc n) s w" "s' = s\<lparr>os_count := os_count s + 1, os_transport_sequence := x\<rparr>"
  shows "\<exists>w'. accept_rtp (initial_sequence s (os_count s)) w = (True, w') \<and> in_step 0 n s' w'
    \<and> accept_rtp (initial_sequence s (os_count s)) w' = (False, w')"
proof -
  let ?q = "initial_sequence s (os_count s)"
  obtain acc where acc: "window_abs w acc" using assms(1) by (auto simp: in_step_def)
  have u: "unat ?q < 65536" using unsigned_less [of ?q, where 'a=nat] by simp
  obtain c where q: "unat ?q = c mod 65536" and room: "c + n + 131072 \<le> u64_max" and rtp: "accept_rtp ?q w = window_accept c w"
      and above: "\<forall>h. rw_highest w = Some h \<longrightarrow> h < c"
  proof (cases "rw_highest w")
    case None
    then show thesis using that [of "unat ?q"] u assms(1) by (simp add: accept_rtp_def in_step_def u64_max_def)
  next
    case (Some h)
    obtain i where i: "i \<le> j" "h + i + Suc n + 131072 \<le> u64_max" "unat ?q = (h + 1 + i) mod 65536" "j + Suc n < 32768"
      using assms(1) Some by (auto simp: in_step_def)
    show thesis using that [of "h + 1 + i"] i Some extend_next [of h i] by (simp add: accept_rtp_def)
  qed
  obtain w' where w': "window_accept c w = (True, w')" "window_abs w' (insert c acc)" "rw_highest w' = Some c"
    using accept_above [OF acc above] by blast
  have "accept_rtp ?q w' = (False, w')"
    using accept_highest [OF w'(2,3)] extend_same [of c] room by (simp add: accept_rtp_def w'(3) q)
  moreover have "in_step 0 n s' w'" using w' room assms(1) next_sequence [OF assms(2) q] by (auto simp: in_step_def)
  ultimately show ?thesis using w'(1) rtp by auto
qed

text \<open>What the reader makes of the packets that arrive, payloads in order, and its window afterwards.\<close>

fun recv_list :: "obfs_crypto \<Rightarrow> obfs_config \<Rightarrow> packet_buf list \<Rightarrow> replay_window \<Rightarrow> bytes list \<times> replay_window" where
  "recv_list ox cfg [] w = ([], w)"
| "recv_list ox cfg (p # ps) w = (case authenticate_inbound ox cfg p w of
     (None, w1) \<Rightarrow> recv_list ox cfg ps w1
   | (Some q, w1) \<Rightarrow> (case recv_list ox cfg ps w1 of (ds, w2) \<Rightarrow> (as_slice q # ds, w2)))"

text \<open>\<open>recv_list\<close> is the reader called until it finds nothing more.\<close>

lemma transport_recv_list:
  "recv_list ox cfg ps w = (case transport_recv ox cfg ps w of
     (None, rest, w1) \<Rightarrow> ([], w1)
   | (Some q, rest, w1) \<Rightarrow> (case recv_list ox cfg rest w1 of (ds, w2) \<Rightarrow> (as_slice q # ds, w2)))"
  by (induction ps arbitrary: w) (auto split: prod.splits option.splits)

lemma recv_list_append:
  "recv_list ox cfg (ps @ qs) w = (case recv_list ox cfg ps w of (a, w1) \<Rightarrow>
     (case recv_list ox cfg qs w1 of (b, w2) \<Rightarrow> (a @ b, w2)))"
  by (induction ps arbitrary: w) (auto split: prod.splits option.splits)

text \<open>A path that keeps the order: how many copies of each packet arrive.\<close>

fun carried :: "nat list \<Rightarrow> 'a list \<Rightarrow> 'a list" where
  "carried (k # ks) (x # xs) = replicate k x @ carried ks xs"
| "carried _ _ = []"

lemma carried_nil [simp]: "carried [] xs = []" "carried ks [] = []"
  by (cases ks; simp)+

lemma carried_append: "length ks = length xs \<Longrightarrow> carried (ks @ ls) (xs @ ys) = carried ks xs @ carried ls ys"
  by (induction ks xs rule: list_induct2) simp_all

lemma carried_same: "carried ks (replicate (length ks) x) = replicate (sum_list ks) x"
  by (induction ks) (simp_all add: replicate_add)

text \<open>Two such paths are one.\<close>

lemma carried_twice:
  "length ms = length xs \<Longrightarrow> length ks = length (carried ms xs) \<Longrightarrow> \<exists>ns. length ns = length xs \<and> carried ks (carried ms xs) = carried ns xs
     \<and> (list_all ((<) 0) ks \<and> list_all ((<) 0) ms \<longrightarrow> list_all ((<) 0) ns)"
proof (induction ms xs arbitrary: ks rule: list_induct2)
  case Nil
  then show ?case by simp
next
  case (Cons m ms x xs)
  obtain ks1 ks2 where ks: "ks = ks1 @ ks2" "length ks1 = m" "length ks2 = length (carried ms xs)"
    using Cons.prems by (intro that [of "take m ks" "drop m ks"]) auto
  obtain ns where ns: "length ns = length xs" "carried ks2 (carried ms xs) = carried ns xs"
      "list_all ((<) 0) ks2 \<and> list_all ((<) 0) ms \<longrightarrow> list_all ((<) 0) ns" using Cons.IH [OF ks(3)] by blast
  have "carried ks (carried (m # ms) (x # xs)) = replicate (sum_list ks1) x @ carried ns xs"
    using carried_append [of ks1 "replicate m x" ks2 "carried ms xs"] ks ns(2) carried_same [of ks1 x] by simp
  moreover have "0 < sum_list ks1" if "list_all ((<) 0) ks1" "0 < m" using that ks(2) by (cases ks1) auto
  ultimately show ?case using ns ks by (intro exI [of _ "sum_list ks1 # ns"]) auto
qed

definition repeats :: "'a list \<Rightarrow> 'a list \<Rightarrow> bool" where
  "repeats xs ys \<longleftrightarrow> (\<exists>ms. length ms = length ys \<and> list_all ((<) 0) ms \<and> xs = carried ms ys)"

lemma repeats_same [simp]: "repeats xs xs"
proof -
  have "carried (replicate (length xs) 1) xs = xs" by (induction xs) simp_all
  then show ?thesis unfolding repeats_def by (intro exI [of _ "replicate (length xs) 1"]) (simp add: list_all_iff)
qed

lemma repeats_append: "repeats xs ys \<Longrightarrow> repeats us vs \<Longrightarrow> repeats (xs @ us) (ys @ vs)"
  unfolding repeats_def by (elim exE conjE, rule_tac x = "ms @ msa" in exI) (simp add: carried_append)

lemma repeats_twice [simp]: "repeats [x, x] [x]"
  unfolding repeats_def by (intro exI [of _ "[2]"]) (simp add: numeral_2_eq_2)

text \<open>The packets that a call puts on the wire.\<close>

fun sent_packets :: "allocation_call \<times> call_outcome \<Rightarrow> packet_buf list" where
  "sent_packets (SendOne p d, r) = (if co_ok r then (if d \<and> co_duplicate r then [p, p] else [p]) else take (co_sent r) [p])"
| "sent_packets (SendBatch ps, r) = (if co_ok r then ps else take (co_sent r) ps)"

definition on_wire :: "(allocation_call \<times> call_outcome) list \<Rightarrow> packet_buf list" where
  "on_wire calls = concat (map sent_packets calls)"

lemma on_wire_simps [simp]:
  "on_wire [] = []" "on_wire (xs @ ys) = on_wire xs @ on_wire ys"
  by (simp_all add: on_wire_def)

definition transport_ok :: "transport_shared \<Rightarrow> bool" where
  "transport_ok tp \<longleftrightarrow> obfs_laws (tp_crypto tp) \<and> (\<exists>ssrc m. tp_config tp = new_obfs_config ssrc m)"

definition env_ok :: "transport_shared \<Rightarrow> write_env \<Rightarrow> bool" where
  "env_ok tp env \<longleftrightarrow> length (wr_padding (we_random env)) < oc_padding_max (tp_config tp)"

abbreviation tp_recv :: "transport_shared \<Rightarrow> packet_buf list \<Rightarrow> replay_window \<Rightarrow> bytes list \<times> replay_window" where
  "tp_recv tp \<equiv> recv_list (tp_crypto tp) (tp_config tp)"

text \<open>The packets \<open>cs\<close> are the disguised forms of \<open>ps\<close>, one after the other.\<close>

inductive wrapped :: "transport_shared \<Rightarrow> packet_buf list \<Rightarrow> packet_buf list \<Rightarrow> obfs_state \<Rightarrow> obfs_state \<Rightarrow> bool" for tp where
  none: "wrapped tp [] [] s s"
| next_one: "wrap (tp_crypto tp) (tp_config tp) (we_elapsed env) (we_random env) p s = (Inr c, s1) \<Longrightarrow> env_ok tp env \<Longrightarrow> packet_ok p
    \<Longrightarrow> wrapped tp ps cs s1 s2 \<Longrightarrow> wrapped tp (p # ps) (c # cs) s s2"

lemma wrapped_length: "wrapped tp ps cs s s' \<Longrightarrow> length cs = length ps"
  by (induction rule: wrapped.induct) simp_all

lemma wrapped_take: "wrapped tp ps cs s s' \<Longrightarrow> \<exists>s1. wrapped tp (take j ps) (take j cs) s s1"
proof (induction arbitrary: j rule: wrapped.induct)
  case (none s)
  then show ?case by (auto intro: wrapped.none)
next
  case (next_one env p s c s1 ps cs s2)
  show ?case
  proof (cases j)
    case 0
    then show ?thesis using wrapped.none by (intro exI [of _ s]) simp
  next
    case (Suc i)
    obtain s3 where "wrapped tp (take i ps) (take i cs) s1 s3" using next_one.IH by blast
    from wrapped.next_one [OF next_one.hyps(1-3) this] show ?thesis by (intro exI [of _ s3]) (simp add: Suc)
  qed
qed

text \<open>What arrives at all, whatever the copies, is received once and in order.\<close>

definition arrived :: "nat list \<Rightarrow> packet_buf list \<Rightarrow> bytes list" where
  "arrived ns ps = map (\<lambda>(k, p). as_slice p) (filter (\<lambda>(k, p). 0 < k) (zip ns ps))"

lemma arrived_subseq: "length ns = length ps \<Longrightarrow> subseq (arrived ns ps) (map as_slice ps)"
  by (induction ns ps rule: list_induct2) (auto simp: arrived_def)

lemma arrived_all: "length ns = length ps \<Longrightarrow> list_all ((<) 0) ns \<Longrightarrow> arrived ns ps = map as_slice ps"
  by (induction ns ps rule: list_induct2) (auto simp: arrived_def)

lemma copies_received:
  assumes "accept_rtp q w = (True, w')" "accept_rtp q w' = (False, w')"
    "is_rtp_packet (as_slice c)" "unwrap ox (oc_mode cfg) c = Inr (q, d)"
  shows "recv_list ox cfg (replicate (Suc k) c) w = ([as_slice d], w')"
proof -
  have "recv_list ox cfg (replicate k c) w' = ([], w')" using assms by (induction k) (simp_all add: authenticate_inbound_def)
  then show ?thesis using assms by (simp add: authenticate_inbound_def)
qed

lemma wrapped_received:
  "wrapped tp ps cs s s' \<Longrightarrow> transport_ok tp \<Longrightarrow> in_step j (length ps + n) s w \<Longrightarrow> length ns = length ps
    \<Longrightarrow> \<exists>w'. tp_recv tp (carried ns cs) w = (arrived ns ps, w') \<and> in_step (j + length ps) n s' w' \<and> (list_all ((<) 0) ns \<longrightarrow> in_step j n s' w')"
proof (induction arbitrary: j w ns rule: wrapped.induct)
  case (none s)
  then show ?case by (simp add: arrived_def)
next
  case (next_one env p s c s1 ps cs s2)
  obtain k ks where ns: "ns = k # ks" "length ks = length ps" using next_one.prems(3) by (cases ns) auto
  obtain ssrc m where cfg: "obfs_laws (tp_crypto tp)" "tp_config tp = new_obfs_config ssrc m"
    using next_one.prems(1) by (auto simp: transport_ok_def)
  obtain d where d: "is_rtp_packet (as_slice c)" "as_slice d = as_slice p"
    "unwrap (tp_crypto tp) (oc_mode (tp_config tp)) c = Inr (initial_sequence s (os_count s), d)"
    using wrap_roundtrip [OF cfg(1) next_one.hyps(3) cfg(2) next_one.hyps(2) [unfolded env_ok_def] next_one.hyps(1)] cfg(2)
    by (auto simp: initial_sequence_def new_config_fields)
  obtain x where st: "s1 = s\<lparr>os_count := os_count s + 1, os_transport_sequence := x\<rparr>"
    by (rule wrap_steps [OF next_one.hyps(1,3)]) blast
  have room: "in_step j (Suc (length ps + n)) s w" using next_one.prems(2) by simp
  have j: "j + (length ps + n) < 32768" using room by (simp add: in_step_def)
  obtain w1 where w1: "tp_recv tp (replicate k c) w = (arrived [k] [p], w1)" "in_step (Suc j) (length ps + n) s1 w1"
      "0 < k \<Longrightarrow> in_step j (length ps + n) s1 w1"
  proof (cases k)
    case 0
    then show thesis using that [of w] lost_in_step [OF room st] by (simp add: arrived_def)
  next
    case (Suc k')
    obtain w' where a: "accept_rtp (initial_sequence s (os_count s)) w = (True, w')" "in_step 0 (length ps + n) s1 w'"
        "accept_rtp (initial_sequence s (os_count s)) w' = (False, w')"
      using accept_in_step [OF room st] by blast
    have "Suc j + (length ps + n) < 32768" using room by (simp add: in_step_def)
    then have "in_step (Suc j) (length ps + n) s1 w'" "in_step j (length ps + n) s1 w'"
      by (intro in_step_mono [OF a(2) le0 le_refl]; simp)+
    then show thesis using that [of w'] copies_received [OF a(1,3) d(1,3), of k'] Suc d(2) by (simp add: arrived_def)
  qed
  have len: "length cs = length ps" by (rule wrapped_length [OF next_one.hyps(4)])
  have c: "carried ns (c # cs) = replicate k c @ carried ks cs" "arrived ns (p # ps) = arrived [k] [p] @ arrived ks ps"
    by (simp_all add: ns(1) arrived_def)
  obtain w2 where w2: "tp_recv tp (carried ks cs) w1 = (arrived ks ps, w2)" "in_step (Suc j + length ps) n s2 w2"
    using next_one.IH [OF next_one.prems(1) w1(2) ns(2)] by blast
  have "list_all ((<) 0) ns \<longrightarrow> in_step j n s2 w2"
  proof
    assume "list_all ((<) 0) ns"
    then have k: "0 < k" "list_all ((<) 0) ks" using ns(1) by simp_all
    then show "in_step j n s2 w2" using next_one.IH [OF next_one.prems(1) w1(3) [OF k(1)] ns(2)] w2(1) by simp
  qed
  then show ?case using w1(1) w2 unfolding c by (simp add: recv_list_append)
qed

text \<open>A run of the writer puts on the wire the disguised forms of what it had collected and of the packets it took, in order, some of them twice; all of them if
  it succeeds.\<close>

definition writes :: "transport_shared \<Rightarrow> transport_writer \<Rightarrow> (write_error + unit) \<times> transport_writer \<Rightarrow> bool" where
  "writes tp tw x \<longleftrightarrow> (case x of (r, tw') \<Rightarrow> \<exists>calls m cs s1 ys. tw_log tw' = tw_log tw @ calls \<and> m \<le> length (tw_pending tw)
     \<and> wrapped tp (take m (tw_pending tw)) cs (tw_state tw) s1 \<and> prefix ys (tw_mmsg tw @ cs) \<and> repeats (on_wire calls) ys
     \<and> (r = Inr () \<longrightarrow> m = length (tw_pending tw) \<and> ys = tw_mmsg tw @ cs \<and> s1 = tw_state tw' \<and> tw_pending tw' = [] \<and> tw_mmsg tw' = []))"

lemma writesI:
  "tw_log tw' = tw_log tw @ calls \<Longrightarrow> m \<le> length (tw_pending tw) \<Longrightarrow> wrapped tp (take m (tw_pending tw)) cs (tw_state tw) s1
    \<Longrightarrow> prefix ys (tw_mmsg tw @ cs) \<Longrightarrow> repeats (on_wire calls) ys
    \<Longrightarrow> (r = Inr () \<Longrightarrow> m = length (tw_pending tw) \<and> ys = tw_mmsg tw @ cs \<and> s1 = tw_state tw' \<and> tw_pending tw' = [] \<and> tw_mmsg tw' = [])
    \<Longrightarrow> writes tp tw (r, tw')"
  unfolding writes_def by blast

lemma allocation_send_result:
  "allocation_send tp call tw = (r, tw') \<Longrightarrow> \<exists>o'. tw' = tw\<lparr>tw_log := tw_log tw @ [(call, o')]\<rparr> \<and> (r = Inr () \<longleftrightarrow> co_ok o')"
  by (auto simp: allocation_send_def Let_def split: if_splits)

lemma flush_mmsg_result:
  assumes "flush_mmsg_data tp tw = (r, tw')"
  obtains calls where "tw_log tw' = tw_log tw @ calls" "prefix (on_wire calls) (tw_mmsg tw)" "r = Inr () \<Longrightarrow> on_wire calls = tw_mmsg tw"
    "r = Inr () \<Longrightarrow> tw_mmsg tw' = []" "tw_state tw' = tw_state tw" "tw_pending tw' = tw_pending tw"
proof (cases "tw_mmsg tw = []")
  case True
  thus thesis using that [of "[]"] assms by (simp add: flush_mmsg_data_def)
next
  case False
  obtain s tw1 where s: "allocation_send tp (SendBatch (tw_mmsg tw)) tw = (s, tw1)" by force
  obtain o' where o: "tw1 = tw\<lparr>tw_log := tw_log tw @ [(SendBatch (tw_mmsg tw), o')]\<rparr>" "s = Inr () \<longleftrightarrow> co_ok o'"
    using allocation_send_result [OF s] by blast
  show thesis using that [of "[(SendBatch (tw_mmsg tw), o')]"] assms s o False
    by (cases s) (auto simp: flush_mmsg_data_def on_wire_def take_is_prefix)
qed

lemma write_prepared_result:
  assumes "write_prepared tp (c, d) tw = (r, tw')"
  obtains calls ys where "tw_log tw' = tw_log tw @ calls" "repeats (on_wire calls) ys" "prefix ys (tw_mmsg tw @ [c])"
    "tw_state tw' = tw_state tw" "tw_pending tw' = tw_pending tw" "r = Inr () \<longrightarrow> ys @ tw_mmsg tw' = tw_mmsg tw @ [c]"
proof (cases d)
  case True
  obtain r2 tw2 where f: "flush_mmsg_data tp tw = (r2, tw2)" by force
  obtain calls where c: "tw_log tw2 = tw_log tw @ calls" "prefix (on_wire calls) (tw_mmsg tw)" "r2 = Inr () \<Longrightarrow> on_wire calls = tw_mmsg tw"
    "r2 = Inr () \<Longrightarrow> tw_mmsg tw2 = []" "tw_state tw2 = tw_state tw" "tw_pending tw2 = tw_pending tw"
    by (rule flush_mmsg_result [OF f]) blast
  obtain r3 tw3 where s: "allocation_send tp (SendOne c True) tw2 = (r3, tw3)" by force
  obtain o' where o: "tw3 = tw2\<lparr>tw_log := tw_log tw2 @ [(SendOne c True, o')]\<rparr>" "r3 = Inr () \<longleftrightarrow> co_ok o'"
    using allocation_send_result [OF s] by blast
  show thesis
  proof (cases r2)
    case (Inl e)
    hence "r = Inl e" "tw' = tw2" using assms True f by (auto simp: write_prepared_def)
    thus ?thesis using that [of calls "on_wire calls"] c by simp
  next
    case (Inr u)
    hence r: "r = r3" "tw' = tw3" using assms True f s by (auto simp: write_prepared_def)
    let ?one = "sent_packets (SendOne c True, o')"
    define zs where "zs = (if co_ok o' then [c] else take (co_sent o') [c])"
    have "on_wire (calls @ [(SendOne c True, o')]) = tw_mmsg tw @ ?one" using c(3) Inr by (simp add: on_wire_def)
    moreover have "repeats (tw_mmsg tw @ ?one) (tw_mmsg tw @ zs)" by (rule repeats_append) (simp_all add: zs_def)
    ultimately have 1: "repeats (on_wire (calls @ [(SendOne c True, o')])) (tw_mmsg tw @ zs)" by simp
    have 2: "prefix (tw_mmsg tw @ zs) (tw_mmsg tw @ [c])" unfolding same_prefix_prefix zs_def by (simp add: take_is_prefix)
    show ?thesis by (rule that [OF _ 1 2]) (use c o r Inr in \<open>simp_all add: zs_def\<close>)
  qed
next
  case False
  let ?tw2 = "tw\<lparr>tw_mmsg := tw_mmsg tw @ [c]\<rparr>"
  show thesis
  proof (cases "length (tw_mmsg ?tw2) = WRITER_BULK_BATCH_LIMIT")
    case True
    hence f: "flush_mmsg_data tp ?tw2 = (r, tw')" using assms False by (simp add: write_prepared_def)
    obtain calls where c: "tw_log tw' = tw_log tw @ calls" "prefix (on_wire calls) (tw_mmsg tw @ [c])" "r = Inr () \<Longrightarrow> on_wire calls = tw_mmsg tw @ [c]"
      "r = Inr () \<Longrightarrow> tw_mmsg tw' = []" "tw_state tw' = tw_state tw" "tw_pending tw' = tw_pending tw"
      by (rule flush_mmsg_result [OF f]) simp
    show ?thesis using that [of calls "on_wire calls"] c by simp
  next
    case False2: False
    hence "r = Inr ()" "tw' = ?tw2" using assms False by (auto simp: write_prepared_def)
    thus ?thesis using that [of "[]" "[]"] by simp
  qed
qed

lemma prepared_wraps:
  assumes "prepare_packet tp env p tw = (x, tw')"
  shows "tw_log tw' = tw_log tw \<and> tw_mmsg tw' = tw_mmsg tw \<and> tw_pending tw' = tw_pending tw
    \<and> (\<forall>c d. x = Inr (c, d) \<longrightarrow> wrap (tp_crypto tp) (tp_config tp) (we_elapsed env) (we_random env) p (tw_state tw) = (Inr c, tw_state tw'))"
  using assms by (auto simp: prepare_packet_def Let_def split: prod.splits sum.splits)

lemma writes_failure: "tw_log tw' = tw_log tw \<Longrightarrow> writes tp tw (Inl e, tw')"
  unfolding writes_def by (auto intro!: exI [of _ "[]"] exI [of _ "0 :: nat"] wrapped.none)

lemma flush_loop_writes:
  "length envs = length (tw_pending tw) \<Longrightarrow> list_all (env_ok tp) envs \<Longrightarrow> list_all packet_ok (tw_pending tw)
    \<Longrightarrow> writes tp tw (flush_loop tp envs tw)"
proof (induction envs arbitrary: tw)
  case Nil
  obtain r tw' where f: "flush_mmsg_data tp tw = (r, tw')" by force
  obtain calls where c: "tw_log tw' = tw_log tw @ calls" "prefix (on_wire calls) (tw_mmsg tw)" "r = Inr () \<Longrightarrow> on_wire calls = tw_mmsg tw"
    "r = Inr () \<Longrightarrow> tw_mmsg tw' = []" "tw_state tw' = tw_state tw" "tw_pending tw' = tw_pending tw"
    by (rule flush_mmsg_result [OF f]) blast
  have "writes tp tw (r, tw')"
    by (rule writesI [where m = 0 and cs = "[]" and ys = "on_wire calls", OF c(1) _ _ _ repeats_same]) (use Nil c in \<open>auto intro: wrapped.none\<close>)
  then show ?case by (simp add: f)
next
  case (Cons env envs)
  obtain p rest where pend: "tw_pending tw = p # rest" using Cons.prems(1) by (cases "tw_pending tw") auto
  let ?tw0 = "tw\<lparr>tw_pending := rest\<rparr>"
  obtain x tw1 where prep: "prepare_packet tp env p ?tw0 = (x, tw1)" by force
  note P = prepared_wraps [OF prep]
  have ok: "env_ok tp env" "packet_ok p" "list_all (env_ok tp) envs" "list_all packet_ok rest" "length envs = length rest"
    using Cons.prems pend by auto
  show ?case
  proof (cases x)
    case (Inl e)
    then show ?thesis using pend prep P by (simp add: writes_failure)
  next
    case (Inr cd)
    obtain c d where cd: "cd = (c, d)" by (cases cd)
    obtain r tw2 where wp: "write_prepared tp (c, d) tw1 = (r, tw2)" by force
    have wr: "wrap (tp_crypto tp) (tp_config tp) (we_elapsed env) (we_random env) p (tw_state tw) = (Inr c, tw_state tw1)"
      using P Inr cd by simp
    have same: "tw_log tw1 = tw_log tw" "tw_mmsg tw1 = tw_mmsg tw" "tw_pending tw1 = rest" using P by simp_all
    obtain calls ys where c: "tw_log tw2 = tw_log tw @ calls" "repeats (on_wire calls) ys" "prefix ys (tw_mmsg tw @ [c])"
        "tw_state tw2 = tw_state tw1" "tw_pending tw2 = rest" "r = Inr () \<longrightarrow> ys @ tw_mmsg tw2 = tw_mmsg tw @ [c]"
      by (rule write_prepared_result [OF wp, unfolded same]) (rule that; assumption)
    show ?thesis
    proof (cases r)
      case (Inl e)
      have w: "wrapped tp (take 1 (tw_pending tw)) [c] (tw_state tw) (tw_state tw1)"
        using wrapped.next_one [OF wr ok(1,2) wrapped.none] pend by simp
      have ln: "1 \<le> length (tw_pending tw)" using pend by simp
      have "writes tp tw (Inl e, tw2)" by (rule writesI [OF c(1) ln w c(3,2)]) simp
      moreover have "flush_loop tp (env # envs) tw = (Inl e, tw2)" using pend prep Inr cd wp Inl by simp
      ultimately show ?thesis by simp
    next
      case Inr2: (Inr u)
      have run: "flush_loop tp (env # envs) tw = flush_loop tp envs tw2" using pend prep Inr cd wp Inr2 by simp
      obtain r' tw' where fl: "flush_loop tp envs tw2 = (r', tw')" by force
      have "writes tp tw2 (r', tw')" using Cons.IH [of tw2] c ok fl by simp
      then have "\<exists>calls' m cs s1 zs. tw_log tw' = tw_log tw2 @ calls' \<and> m \<le> length rest \<and> wrapped tp (take m rest) cs (tw_state tw1) s1
          \<and> prefix zs (tw_mmsg tw2 @ cs) \<and> repeats (on_wire calls') zs
          \<and> (r' = Inr () \<longrightarrow> m = length rest \<and> zs = tw_mmsg tw2 @ cs \<and> s1 = tw_state tw' \<and> tw_pending tw' = [] \<and> tw_mmsg tw' = [])"
        unfolding writes_def prod.case c(4,5) .
      then obtain calls' m cs s1 zs where z: "tw_log tw' = tw_log tw2 @ calls'" "m \<le> length rest" "wrapped tp (take m rest) cs (tw_state tw1) s1"
          "prefix zs (tw_mmsg tw2 @ cs)" "repeats (on_wire calls') zs"
          "r' = Inr () \<longrightarrow> m = length rest \<and> zs = tw_mmsg tw2 @ cs \<and> s1 = tw_state tw' \<and> tw_pending tw' = [] \<and> tw_mmsg tw' = []"
        by blast
      have e: "ys @ tw_mmsg tw2 @ cs = tw_mmsg tw @ c # cs" using arg_cong [of "ys @ tw_mmsg tw2" _ "\<lambda>l. l @ cs"] c(6) Inr2 by simp
      have w: "wrapped tp (take (Suc m) (tw_pending tw)) (c # cs) (tw_state tw) s1"
        using wrapped.next_one [OF wr ok(1,2) z(3)] pend by simp
      have pr: "prefix (ys @ zs) (tw_mmsg tw @ c # cs)" using z(4) unfolding e [symmetric] by simp
      have rp: "repeats (on_wire (calls @ calls')) (ys @ zs)" using repeats_append [OF c(2) z(5)] by simp
      have lg: "tw_log tw' = tw_log tw @ calls @ calls'" using z(1) c(1) by simp
      have ln: "Suc m \<le> length (tw_pending tw)" using z(2) pend by simp
      have su: "Suc m = length (tw_pending tw) \<and> ys @ zs = tw_mmsg tw @ c # cs \<and> s1 = tw_state tw' \<and> tw_pending tw' = [] \<and> tw_mmsg tw' = []"
        if "r' = Inr ()"
      proof -
        have "m = length rest \<and> zs = tw_mmsg tw2 @ cs \<and> s1 = tw_state tw' \<and> tw_pending tw' = [] \<and> tw_mmsg tw' = []" using z(6) that by blast
        then show ?thesis using e pend by simp
      qed
      show ?thesis unfolding run fl by (rule writesI [OF lg ln w pr rp su])
    qed
  qed
qed

lemma flush_writes:
  assumes "list_all (env_ok tp) envs" "length envs = length (tw_pending tw)" "list_all packet_ok (tw_pending tw)" "tw_mmsg tw = []"
  shows "writes tp tw (flush_queued_data tp envs tw)"
proof (cases "\<exists>p env. tw_pending tw = [p] \<and> envs = [env]")
  case False
  hence "flush_queued_data tp envs tw = flush_loop tp envs tw" using assms(2)
    by (auto simp: flush_queued_data_def length_Suc_conv split: list.split)
  thus ?thesis using flush_loop_writes assms by simp
next
  case True
  then obtain p env where pe: "tw_pending tw = [p]" "envs = [env]" by blast
  let ?tw0 = "tw\<lparr>tw_pending := []\<rparr>"
  obtain x tw1 where prep: "prepare_packet tp env p ?tw0 = (x, tw1)" by force
  note P = prepared_wraps [OF prep]
  have run: "flush_queued_data tp envs tw = send_packet tp env p ?tw0" by (simp add: flush_queued_data_def pe)
  show ?thesis
  proof (cases x)
    case (Inl e)
    then show ?thesis using run prep P by (simp add: send_packet_def writes_failure)
  next
    case (Inr cd)
    obtain c d where cd: "cd = (c, d)" by (cases cd)
    obtain r tw' where a: "allocation_send tp (SendOne c d) tw1 = (r, tw')" by force
    obtain o' where o: "tw' = tw1\<lparr>tw_log := tw_log tw1 @ [(SendOne c d, o')]\<rparr>" "r = Inr () \<longleftrightarrow> co_ok o'"
      using allocation_send_result [OF a] by blast
    define ys where "ys = (if co_ok o' then [c] else take (co_sent o') [c])"
    have w: "wrapped tp (take 1 (tw_pending tw)) [c] (tw_state tw) (tw_state tw')"
      using P Inr cd o(1) pe assms(1,3) by (auto intro: wrapped.intros)
    have "repeats (on_wire [(SendOne c d, o')]) ys" "prefix ys [c]" "r = Inr () \<longrightarrow> ys = [c]"
      using o(2) by (simp_all add: ys_def on_wire_def take_is_prefix)
    then have "writes tp tw (r, tw')"
      by (intro writesI [where calls = "[(SendOne c d, o')]" and m = 1 and cs = "[c]" and ys = ys, OF _ _ w]) (use o(1) P assms(4) pe in simp_all)
    moreover have "flush_queued_data tp envs tw = (r, tw')" using run prep Inr cd a by (simp add: send_packet_def)
    ultimately show ?thesis by simp
  qed
qed

text \<open>C6: the session delivers over a path that keeps the order of packets, though it may lose some and repeat others. The writer disguises the packets
  queued by the worker, one or many, and sends them in batches; the calls that send them may fail after a part of a batch, and the duplicates of some packets may
  be sent or not. The peer's reader, whose replay window has missed at most \<open>j\<close> packets of the writer, unwraps what arrives. It obtains pending payloads only, in
  order and each at most once. If the path loses nothing it obtains a prefix of them, and all of them if the flush succeeds. After a successful flush it has missed
  at most \<open>j\<close> packets and those of the flush, and no more than \<open>j\<close> if nothing was lost, so the next flush is received as well. (All the packets in question are
  fewer than half the sequence numbers; the ciphers decrypt what they encrypt.)\<close>

theorem session_delivers:
  assumes tp: "transport_ok tp" "list_all (env_ok tp) envs" "length envs = length (tw_pending tw)"
    and packets: "list_all packet_ok (tw_pending tw)" "tw_mmsg tw = []"
    and w: "in_step j (length envs + n) (tw_state tw) w"
    and run: "flush_queued_data tp envs tw = (r, tw')" "tw_log tw' = tw_log tw @ calls"
    and path: "length ks = length (on_wire calls)"
  shows "\<exists>ds w'. tp_recv tp (carried ks (on_wire calls)) w = (ds, w') \<and> subseq ds (map as_slice (tw_pending tw))
     \<and> (list_all ((<) 0) ks \<longrightarrow> prefix ds (map as_slice (tw_pending tw)) \<and> (r = Inr () \<longrightarrow> ds = map as_slice (tw_pending tw)))
     \<and> (r = Inr () \<longrightarrow> tw_pending tw' = [] \<and> tw_mmsg tw' = [] \<and> in_step (j + length envs) n (tw_state tw') w'
          \<and> (list_all ((<) 0) ks \<longrightarrow> in_step j n (tw_state tw') w'))"
proof -
  let ?ps = "tw_pending tw"
  have "writes tp tw (r, tw')" using flush_writes [OF tp(2,3) packets] run(1) by simp
  then obtain m cs s1 ys where wr: "m \<le> length ?ps" "wrapped tp (take m ?ps) cs (tw_state tw) s1" "prefix ys cs" "repeats (on_wire calls) ys"
      "r = Inr () \<longrightarrow> m = length ?ps \<and> ys = cs \<and> s1 = tw_state tw' \<and> tw_pending tw' = [] \<and> tw_mmsg tw' = []"
    using run(2) packets(2) by (auto simp: writes_def)
  define i where "i = length ys"
  have len: "length cs = m" using wrapped_length [OF wr(2)] wr(1) by simp
  have ys: "ys = take i cs" "i \<le> m" using wr(3) len by (auto simp: i_def prefix_def)
  obtain s2 where s2: "wrapped tp (take i ?ps) ys (tw_state tw) s2" "r = Inr () \<longrightarrow> s2 = tw_state tw'"
  proof (cases "r = Inr ()")
    case True
    then show thesis using that [of s1] wr(2,5) len i_def by simp
  next
    case False
    then show thesis using that wrapped_take [OF wr(2), of i] ys by (auto simp: min_absorb1)
  qed
  have il: "length (take i ?ps) = i" using ys(2) wr(1) by simp
  obtain ms where ms: "length ms = length ys" "list_all ((<) 0) ms" "on_wire calls = carried ms ys" using wr(4) by (auto simp: repeats_def)
  obtain ns where ns: "length ns = length ys" "carried ks (on_wire calls) = carried ns ys" "list_all ((<) 0) ks \<longrightarrow> list_all ((<) 0) ns"
    using carried_twice [OF ms(1), of ks] path ms by auto
  have room: "in_step j (length (take i ?ps) + (length envs - i + n)) (tw_state tw) w"
    using w ys(2) wr(1) tp(3) by (simp add: il add.assoc [symmetric])
  obtain w' where w': "tp_recv tp (carried ks (on_wire calls)) w = (arrived ns (take i ?ps), w')"
      "in_step (j + i) (length envs - i + n) s2 w'" "list_all ((<) 0) ns \<longrightarrow> in_step j (length envs - i + n) s2 w'"
    using wrapped_received [OF s2(1) tp(1) room] ns i_def unfolding il by auto
  have nl: "length ns = length (take i ?ps)" using ns(1) i_def il by simp
  have "subseq (arrived ns (take i ?ps)) (map as_slice ?ps)"
    using arrived_subseq [OF nl] by (rule subseq_order.trans) (simp add: take_map [symmetric] prefix_imp_subseq take_is_prefix)
  moreover have "prefix (arrived ns (take i ?ps)) (map as_slice ?ps)" if "list_all ((<) 0) ks"
    using arrived_all [OF nl] ns(3) that by (simp add: take_map [symmetric] take_is_prefix)
  moreover have all: "i = length ?ps" if "r = Inr ()" using that wr(5) len i_def by simp
  moreover have "arrived ns (take i ?ps) = map as_slice ?ps" if "r = Inr ()" "list_all ((<) 0) ks"
    using arrived_all [OF nl] ns(3) that all by simp
  moreover have "in_step (j + length envs) n (tw_state tw') w' \<and> (list_all ((<) 0) ks \<longrightarrow> in_step j n (tw_state tw') w')" if "r = Inr ()"
    using w'(2,3) s2(2) ns(3) all [OF that] tp(3) that by simp
  ultimately show ?thesis using w'(1) wr(5) by blast
qed

definition sample_transport :: transport_shared where
  "sample_transport = \<lparr>tp_crypto = plain_crypto, tp_config = new_obfs_config 7 Audio, tp_fec = False,
     tp_outcome = (\<lambda>i. \<lparr>co_ok = True, co_sent = 0, co_duplicate = False\<rparr>)\<rparr>"

definition sample_env :: write_env where
  "sample_env = \<lparr>we_elapsed = 0, we_random = \<lparr>wr_marker_roll = 0, wr_padding = [1, 2]\<rparr>, we_now = 0\<rparr>"

definition sample_writer :: transport_writer where
  "sample_writer = \<lparr>tw_state = start_state, tw_budget = new_budget 0, tw_pending = [three_bytes, three_bytes],
     tw_mmsg = [], tw_log = []\<rparr>"

text \<open>Two packets, of which the first arrives twice.\<close>

lemma session_delivers_witness:
  "\<exists>tw' w'. flush_queued_data sample_transport [sample_env, sample_env] sample_writer = (Inr (), tw')
     \<and> tp_recv sample_transport (carried [2, 1] (on_wire (tw_log tw'))) new_window = ([[0, 0, 0], [0, 0, 0]], w')"
proof -
  have tp: "transport_ok sample_transport" "list_all (env_ok sample_transport) [sample_env, sample_env]"
    by (auto simp: transport_ok_def env_ok_def sample_transport_def sample_env_def plain_laws new_config_fields)
  have pre: "length [sample_env, sample_env] = length (tw_pending sample_writer)"
    "list_all packet_ok (tw_pending sample_writer)" "tw_mmsg sample_writer = []" "tw_log sample_writer = []"
    by (simp_all add: sample_writer_def three_bytes_ok)
  have w: "in_step 0 (length [sample_env, sample_env] + 0) (tw_state sample_writer) new_window"
    by (rule in_step_new) simp
  have wrap: "\<exists>c s'. wrap plain_crypto (new_obfs_config 7 Audio) 0 \<lparr>wr_marker_roll = 0, wr_padding = [1, 2]\<rparr> three_bytes s = (Inr c, s')" for s
    by (rule three_bytes_wrap)
  obtain c s' where 1: "wrap plain_crypto (new_obfs_config 7 Audio) 0 \<lparr>wr_marker_roll = 0, wr_padding = [1, 2]\<rparr> three_bytes start_state = (Inr c, s')"
    using wrap by blast
  obtain d s'' where 2: "wrap plain_crypto (new_obfs_config 7 Audio) 0 \<lparr>wr_marker_roll = 0, wr_padding = [1, 2]\<rparr> three_bytes s' = (Inr d, s'')"
    using wrap by blast
  obtain tw' where r: "flush_queued_data sample_transport [sample_env, sample_env] sample_writer = (Inr (), tw')"
      and log: "on_wire (tw_log tw') = [c, d]"
    by (simp add: flush_queued_data_def sample_writer_def sample_transport_def sample_env_def prepare_packet_def
        1 2 write_prepared_def WRITER_BULK_BATCH_LIMIT_def flush_mmsg_data_def allocation_send_def on_wire_def Let_def)
  have v: "map as_slice (tw_pending sample_writer) = [[0, 0, 0], [0, 0, 0]]"
    by (simp add: sample_writer_def three_bytes_def as_slice_def subslice_def buf_of_def PACKET_HEADROOM_def numeral_3_eq_3)
  show ?thesis using session_delivers [OF tp pre(1-3) w r, of "tw_log tw'" "[2, 1]"] r pre(4) v log by auto
qed

end
