(* ===== verification/ErrorText.thy ===== *)
theory ErrorText
  imports Text
begin

text \<open>
  Errors as the code inspects them: the texts of an \<open>anyhow\<close> error's chain, outermost first, and the
  searches in them that \<open>turn.rs\<close>, \<open>session.rs\<close> and \<open>worker.rs\<close> share.
\<close>

fun contains :: "string \<Rightarrow> string \<Rightarrow> bool" where
  "contains p [] = (p = [])"
| "contains p (x # xs) = (starts_with (x # xs) p \<or> contains p xs)"

definition error_text :: "string list \<Rightarrow> string" where
  "error_text e = (case e of [] \<Rightarrow> [] | t # ts \<Rightarrow> t)"

fun join_lines :: "string list \<Rightarrow> string" where
  "join_lines [] = []"
| "join_lines [t] = t"
| "join_lines (t # u # ts) = t @ CHR 0x0A # join_lines (u # ts)"

definition error_is_allocation_mismatch :: "string list \<Rightarrow> bool" where
  "error_is_allocation_mismatch e = (let chain = to_lower (join_lines e) in
     contains ''stun error 437'' chain \<or> (contains ''stun error 400'' chain \<and> contains ''channelbind'' chain))"

end
