(* ===== verification/Session.thy ===== *)
theory Session
  imports SessionTransport TurnEndpoint ErrorText
begin

text \<open>
  A session (\<open>session.rs\<close>): the choice of the TURN address, the GETCONF exchange, the reader that
  separates control messages from tunnel packets, the goodbye at shutdown, and the end of a session.
  The idle state, the repair slots and the dispatcher's queues are those of the components it calls.
\<close>

section \<open>The TURN address\<close>

definition turn_endpoint_index :: "nat \<Rightarrow> nat \<Rightarrow> nat \<Rightarrow> nat" where
  "turn_endpoint_index worker cursor endpoint_count =
    (worker mod endpoint_count + cursor mod endpoint_count) mod endpoint_count"

record session_config =
  sc_id :: nat
  sc_turn_host :: "string option"
  sc_turn_port :: "string option"
  sc_transport :: transport_mode
  sc_local_port :: string
  sc_device :: string
  sc_password :: string
  sc_generation :: nat
  sc_cursor :: nat
  sc_salt :: string
  sc_get_config :: bool

definition resolve_for :: "session_config \<Rightarrow> string \<Rightarrow> endpoint_error + turn_endpoint list" where
  "resolve_for cfg address = resolve_turn_endpoints address (sc_turn_host cfg) (sc_turn_port cfg) (sc_transport cfg)"

text \<open>The loop of \<open>select_turn_address\<close>; \<open>None\<close> is its error.\<close>

fun select_from :: "string list \<Rightarrow> session_config \<Rightarrow> nat \<Rightarrow> nat list \<Rightarrow> string option" where
  "select_from addresses cfg start [] = None"
| "select_from addresses cfg start (k # ks) =
    (let address = addresses ! ((start + k) mod length addresses)
     in if is_ok (resolve_for cfg address) then Some address else select_from addresses cfg start ks)"

definition select_turn_address :: "string list \<Rightarrow> session_config \<Rightarrow> string option" where
  "select_turn_address addresses cfg =
    (let n = length addresses; start = turn_endpoint_index (sc_id cfg) (sc_cursor cfg) n
     in select_from addresses cfg start [0..<n])"

datatype path_error = EndpointInvalid endpoint_error | EndpointListEmpty

definition turn_path_key :: "string \<Rightarrow> session_config \<Rightarrow> path_error + string" where
  "turn_path_key address cfg = (case resolve_for cfg address of Inl e \<Rightarrow> Inl (EndpointInvalid e)
     | Inr [] \<Rightarrow> Inl EndpointListEmpty
     | Inr (e # es) \<Rightarrow> Inr (socket_authority e))"

section \<open>The GETCONF exchange\<close>

definition CONFIG_RESPONSE_TIMEOUT_MS :: "nat list" where
  "CONFIG_RESPONSE_TIMEOUT_MS = [750, 1500, 3000]"

definition build_registration_payload :: "session_config \<Rightarrow> idle_state \<Rightarrow> bytes \<times> u64" where
  "build_registration_payload cfg idle =
    (let gen = generation (sc_generation cfg) idle; offset = id_gen_offset idle
     in (ascii (config_request (sc_local_port cfg) (sc_device cfg) (sc_password cfg) gen (sc_salt cfg) (sc_id cfg)
           (Some (max (declared_count idle) 1))), offset))"

text \<open>What the transport yields, each with its time in milliseconds: packets, and possibly a failure. What would come after the deadline is not
  seen: the exchange times out.\<close>

datatype read_event = Got bytes | ReadFailed

datatype session_error =
    GetconfSend write_error | GetconfRead | HandshakeTimeout | HandshakeRejected config_error

text \<open>The result (\<open>None\<close> is the timeout), the number of panel-restart notices passed on, and when the wait ends.\<close>

fun await_response :: "nat \<Rightarrow> nat \<Rightarrow> (nat \<times> read_event) list \<Rightarrow> nat \<Rightarrow> (session_error + bytes) option \<times> nat \<times> nat" where
  "await_response deadline now [] panels = (None, panels, deadline)"
| "await_response deadline now ((t, e) # es) panels = (if deadline < t then (None, panels, deadline) else let now1 = max now t in
     (case e of ReadFailed \<Rightarrow> (Some (Inl GetconfRead), panels, now1)
      | Got packet \<Rightarrow> if is_panel_restart_notice packet then await_response deadline now1 es (panels + 1)
          else if \<not> is_config_response packet then await_response deadline now1 es panels
          else (Some (Inr packet), panels, now1)))"

text \<open>One attempt: the idle state it is made in, how long sending takes and with what result, and what arrives; the clock starts with the exchange.\<close>

record config_attempt =
  ca_idle :: idle_state
  ca_send :: "write_error + unit"
  ca_taken :: nat
  ca_reads :: "(nat \<times> read_event) list"

text \<open>The exchange and what it did: the requests sent, the panel notices, whether the user interface was told
  of a fatal error, the configuration passed on, the epoch offset joined, the server's repair feature, and when it ended.\<close>

record handshake =
  hs_result :: "session_error + bool"
  hs_requests :: "bytes list"
  hs_panels :: nat
  hs_fatal :: bool
  hs_config :: "bytes option"
  hs_joined :: "u64 option"
  hs_repair :: bool
  hs_time :: nat

definition new_handshake :: handshake where
  "new_handshake = \<lparr>hs_result = Inl HandshakeTimeout, hs_requests = [], hs_panels = 0, hs_fatal = False,
     hs_config = None, hs_joined = None, hs_repair = False, hs_time = 0\<rparr>"

definition ends_with :: "'a list \<Rightarrow> 'a list \<Rightarrow> bool" where
  "ends_with xs s \<longleftrightarrow> starts_with (rev xs) (rev s)"

definition accept_response :: "session_config \<Rightarrow> u64 \<Rightarrow> bytes \<Rightarrow> handshake \<Rightarrow> handshake" where
  "accept_response cfg offset packet h = (case parse_config_response packet of
     Inl e \<Rightarrow> h\<lparr>hs_result := Inl (HandshakeRejected e),
       hs_fatal := hs_fatal h \<or> (sc_get_config cfg \<and> fatal_marker e \<noteq> None)\<rparr>
   | Inr NoConfig \<Rightarrow> h\<lparr>hs_result := Inr False\<rparr>
   | Inr (Config v) \<Rightarrow> h\<lparr>hs_result := Inr True,
       hs_repair := hs_repair h \<or> ends_with v (ascii '':stream-v1'') \<or> ends_with v (ascii '':stream-v2''),
       hs_config := (if sc_get_config cfg then Some v else None), hs_joined := Some offset\<rparr>)"

fun request_attempts :: "session_config \<Rightarrow> nat list \<Rightarrow> config_attempt list \<Rightarrow> nat \<Rightarrow> handshake \<Rightarrow> handshake" where
  "request_attempts cfg (timeout # timeouts) (a # as) now h =
    (let (request, offset) = build_registration_payload cfg (ca_idle a); sent = now + ca_taken a;
         h1 = h\<lparr>hs_requests := hs_requests h @ [request]\<rparr>
     in case ca_send a of Inl e \<Rightarrow> h1\<lparr>hs_result := Inl (GetconfSend e), hs_time := sent\<rparr>
     | Inr u \<Rightarrow> (let (r, panels, t) = await_response (sent + timeout) sent (ca_reads a) (hs_panels h1);
           h2 = h1\<lparr>hs_panels := panels, hs_time := t\<rparr>
         in case r of None \<Rightarrow> request_attempts cfg timeouts as t h2
            | Some (Inl e) \<Rightarrow> h2\<lparr>hs_result := Inl e\<rparr>
            | Some (Inr packet) \<Rightarrow> accept_response cfg offset packet h2))"
| "request_attempts cfg timeouts as now h = h\<lparr>hs_result := Inl HandshakeTimeout, hs_fatal := hs_fatal h \<or> sc_get_config cfg\<rparr>"

definition request_configuration :: "session_config \<Rightarrow> config_attempt list \<Rightarrow> handshake" where
  "request_configuration cfg attempts = request_attempts cfg CONFIG_RESPONSE_TIMEOUT_MS attempts 0 new_handshake"

section \<open>The goodbye\<close>

text \<open>The coordinator of the shutdown; \<open>sd_notified\<close> counts the calls of \<open>notify_waiters\<close>. A stream's writer is
  named by a number, its activity mark is kept with it.\<close>

record control_stream =
  ct_incarnation :: nat
  ct_writer :: nat
  ct_activity :: nat

record shutdown_state =
  sd_active :: bool
  sd_completed :: bool
  sd_streams :: "control_stream list"
  sd_next :: nat
  sd_notified :: nat

definition new_shutdown :: shutdown_state where
  "new_shutdown = \<lparr>sd_active = False, sd_completed = False, sd_streams = [], sd_next = 1, sd_notified = 0\<rparr>"

definition next_activity :: "shutdown_state \<Rightarrow> nat \<times> shutdown_state" where
  "next_activity s = (max (sd_next s) 1, s\<lparr>sd_next := (sd_next s + 1) mod 2 ^ 64\<rparr>)"

definition sd_register :: "nat \<Rightarrow> nat \<Rightarrow> shutdown_state \<Rightarrow> shutdown_state" where
  "sd_register incarnation writer s = (let (a, s1) = next_activity s
     in if sd_active s1 then s1
        else s1\<lparr>sd_streams := sd_streams s1 @ [\<lparr>ct_incarnation = incarnation, ct_writer = writer, ct_activity = a\<rparr>]\<rparr>)"

definition mark_activity :: "nat \<Rightarrow> shutdown_state \<Rightarrow> shutdown_state" where
  "mark_activity incarnation s = (let (a, s1) = next_activity s
     in s1\<lparr>sd_streams := map (\<lambda>c. if ct_incarnation c = incarnation then c\<lparr>ct_activity := a\<rparr> else c) (sd_streams s1)\<rparr>)"

definition sd_unregister :: "nat \<Rightarrow> shutdown_state \<Rightarrow> shutdown_state" where
  "sd_unregister incarnation s = s\<lparr>sd_streams := filter (\<lambda>c. ct_incarnation c \<noteq> incarnation) (sd_streams s)\<rparr>"

text \<open>The first lines of \<open>request_disconnect\<close>: whether this call leads.\<close>

definition begin_disconnect :: "shutdown_state \<Rightarrow> bool \<times> shutdown_state" where
  "begin_disconnect s = (if sd_active s then (False, s) else (True, s\<lparr>sd_active := True, sd_completed := False\<rparr>))"

definition observe_control_response :: "bytes \<Rightarrow> shutdown_state \<Rightarrow> bool \<times> shutdown_state" where
  "observe_control_response response s =
    (if response \<noteq> ascii ''OK:disconnected'' \<and> \<not> starts_with response (ascii ''DENIED:'') then (False, s)
     else if \<not> sd_active s \<or> sd_completed s then (False, s)
     else (True, s\<lparr>sd_completed := True, sd_notified := sd_notified s + 1\<rparr>))"

definition sd_complete :: "shutdown_state \<Rightarrow> shutdown_state" where
  "sd_complete s = (if sd_completed s then s else s\<lparr>sd_completed := True, sd_notified := sd_notified s + 1\<rparr>)"

definition control_streams :: "shutdown_state \<Rightarrow> nat list" where
  "control_streams s = map ct_writer (rev (sort_key (\<lambda>c. (ct_activity c, ct_incarnation c)) (sd_streams s)))"

text \<open>The loop of \<open>request_disconnect\<close>, in milliseconds. \<open>send\<close> gives for a writer and a time how long
  its command takes and whether it succeeds; \<open>ack\<close> is when a response of the server completes the goodbye, if
  one does. The result lists the attempts with their times, and when the loop is left.\<close>

definition DISCONNECT_BUDGET :: nat where "DISCONNECT_BUDGET = 700"
definition DISCONNECT_ATTEMPT :: nat where "DISCONNECT_ATTEMPT = 80"

definition acked :: "nat option \<Rightarrow> nat \<Rightarrow> bool" where
  "acked ack now = (case ack of None \<Rightarrow> False | Some a \<Rightarrow> a \<le> now)"

text \<open>One attempt at a writer: \<open>Inl t\<close> leaves the loop at \<open>t\<close>, \<open>Inr n\<close> goes on to the next writer at \<open>n\<close>.\<close>

definition disconnect_attempt :: "nat \<Rightarrow> (nat \<Rightarrow> nat \<Rightarrow> nat \<times> bool) \<Rightarrow> nat option \<Rightarrow> nat \<Rightarrow> nat \<Rightarrow> nat + nat" where
  "disconnect_attempt deadline send ack writer now =
    (let attempt = min DISCONNECT_ATTEMPT (deadline - now);
         (taken, ok) = send writer now;
         delivered = (taken \<le> attempt \<and> ok);
         now1 = now + min taken attempt
     in if \<not> delivered then Inr now1
        else if deadline \<le> now1 then Inl now1
        else let wait = min DISCONNECT_ATTEMPT (deadline - now1)
          in if acked ack (now1 + wait) then Inl (max now1 (the ack)) else Inr (now1 + wait))"

fun disconnect_loop :: "nat \<Rightarrow> (nat \<Rightarrow> nat \<Rightarrow> nat \<times> bool) \<Rightarrow> nat option \<Rightarrow> nat list \<Rightarrow> nat \<Rightarrow> (nat \<times> nat) list \<times> nat" where
  "disconnect_loop deadline send ack [] now = ([], now)"
| "disconnect_loop deadline send ack (writer # ws) now =
    (if acked ack now then ([], now) else if deadline \<le> now then ([], now)
     else case disconnect_attempt deadline send ack writer now of
       Inl t \<Rightarrow> ([(writer, now)], t)
     | Inr n \<Rightarrow> (case disconnect_loop deadline send ack ws n of (log, t) \<Rightarrow> ((writer, now) # log, t)))"

text \<open>The leader's part; a follower waits for the completion, at most two seconds.\<close>

definition lead_disconnect :: "(nat \<Rightarrow> nat \<Rightarrow> nat \<times> bool) \<Rightarrow> nat option \<Rightarrow> nat \<Rightarrow> shutdown_state
    \<Rightarrow> (nat \<times> nat) list \<times> nat \<times> shutdown_state" where
  "lead_disconnect send ack now s =
    (let (log, t) = disconnect_loop (now + DISCONNECT_BUDGET) send ack (control_streams s) now
     in (log, t, sd_complete s))"

section \<open>The reader\<close>

record 'q reader_state =
  rd_repair :: "repair_slot list"
  rd_shutdown :: shutdown_state
  rd_panels :: nat
  rd_configs :: "bytes list"
  rd_queues :: "'q return_queues"

text \<open>One round of \<open>reader_loop\<close>: a packet that passed the authentication. \<open>rd_panels\<close> counts the panel
  notices, \<open>rd_configs\<close> lists the configurations offered to the host.\<close>

definition reader_step :: "(packet_buf, 'q) pq_ops \<Rightarrow> idle_state \<Rightarrow> packet_buf \<Rightarrow> 'q reader_state \<Rightarrow> 'q reader_state" where
  "reader_step ops idle packet s = (let data = as_slice packet in
     if is_panel_restart_notice data then s\<lparr>rd_panels := rd_panels s + 1\<rparr>
     else case parse_stream_repair data of
       Some c \<Rightarrow> s\<lparr>rd_repair := fst (apply_repair (c\<lparr>sc_ids := filter (\<lambda>v. allows idle (unat v)) (sc_ids c)\<rparr>) (rd_repair s))\<rparr>
     | None \<Rightarrow> (case parse_stream_alive data of
       Some c \<Rightarrow> s\<lparr>rd_repair := fst (apply_alive c (rd_repair s))\<rparr>
     | None \<Rightarrow> (case observe_control_response data (rd_shutdown s) of
         (True, sd) \<Rightarrow> s\<lparr>rd_shutdown := sd\<rparr>
       | (False, sd) \<Rightarrow>
           if starts_with data (ascii ''TUNCONF:'') then
             (case parse_config_response data of
                Inr (Config v) \<Rightarrow> s\<lparr>rd_configs := rd_configs s @ [v]\<rparr> | _ \<Rightarrow> s)
           else if is_control_response data then s
           else s\<lparr>rd_queues := return_packet ops packet (rd_queues s)\<rparr>)))"

section \<open>The end of a session\<close>

definition should_note_path_lost :: "string list \<Rightarrow> bool" where
  "should_note_path_lost e = (let text = error_text e in
     if contains ''IDLE_PARK'' text \<or> contains ''NET_REBIND'' text \<or> contains ''TARGET_REPAIR'' text then False
     else \<not> error_is_allocation_mismatch e)"

text \<open>What wakes the loop of \<open>run_allocated_session\<close>; \<open>SevAnnounce\<close> carries the success of sending the
  registration again.\<close>

datatype session_event =
    SevCancelled | SevRebind | SevParked | SevAnnounce bool | SevRepair
  | SevWriter "string list + unit" | SevReader "string list + unit"

text \<open>The loop, until an event ends it: the result, which task completed (1 the writer, 2 the reader),
  the registrations sent, and the idle state. \<open>None\<close>: no event of the list ends the session.\<close>

fun session_loop :: "session_config \<Rightarrow> session_event list \<Rightarrow> bytes list \<Rightarrow> idle_state
    \<Rightarrow> ((string list + unit) \<times> nat) option \<times> bytes list \<times> idle_state" where
  "session_loop cfg [] sent idle = (None, sent, idle)"
| "session_loop cfg (e # es) sent idle = (case e of
     SevCancelled \<Rightarrow> (Some (Inr (), 0), sent, idle)
   | SevRebind \<Rightarrow> (Some (Inl [''NET_REBIND''], 0), sent, idle)
   | SevParked \<Rightarrow> (Some (Inl [''IDLE_PARK''], 0), sent, idle)
   | SevAnnounce ok \<Rightarrow>
       (let (payload, offset) = build_registration_payload cfg idle
        in session_loop cfg es (sent @ [payload]) (if ok then note_path_joined (sc_id cfg) offset idle else idle))
   | SevRepair \<Rightarrow> (Some (Inl [''TARGET_REPAIR''], 0), sent, idle)
   | SevWriter r \<Rightarrow> (Some (r, 1), sent, idle)
   | SevReader r \<Rightarrow> (Some (r, 2), sent, idle))"

text \<open>What follows the loop; \<open>late\<close> are the workers registered by then, to which the packets left in the
  queues of this one go. Stopping the writer task drops the receivers of its three queues.\<close>

definition close_receivers :: "worker_channels \<Rightarrow> 'q dispatch_store \<Rightarrow> 'q dispatch_store" where
  "close_receivers w d = fold (\<lambda>c d. let a = queue_for_class w c in put_queue a (drop_receiver (ds_queue d a)) d) [Small, Medium, Bulk] d"

definition session_finish :: "(packet_buf, 'q) pq_ops \<Rightarrow> session_config \<Rightarrow> worker_channels \<Rightarrow> worker_channels list
    \<Rightarrow> string list + unit \<Rightarrow> idle_state \<times> 'q dispatch_store \<Rightarrow> idle_state \<times> 'q dispatch_store" where
  "session_finish ops cfg w late r st = (case st of (idle, d) \<Rightarrow>
    (let idle1 = (case r of Inl e \<Rightarrow> (if should_note_path_lost e then note_path_lost (sc_id cfg) idle else idle) | Inr u \<Rightarrow> idle);
         (packets, d1) = drain_uplink ops w (close_receivers w (mark_unhealthy w d))
     in (idle1, redispatch_all ops late packets d1)))"

end
