(* ===== verification/SessionProps.thy ===== *)
theory SessionProps
  imports Session
begin

text \<open>
  The properties of a session: which address it uses, how the GETCONF exchange ends, what the reader does
  with each kind of packet, the time the goodbye takes, and what a finished session leaves behind.
\<close>

section \<open>The TURN address\<close>

lemma select_from_find:
  "select_from addresses cfg start ks
    = find (\<lambda>a. is_ok (resolve_for cfg a)) (map (\<lambda>k. addresses ! ((start + k) mod length addresses)) ks)"
  by (induction ks) (simp_all add: Let_def)

lemma rotate_nth: "map (\<lambda>k. xs ! ((n + k) mod length xs)) [0..<length xs] = rotate n xs"
  by (rule nth_equalityI) (simp_all add: nth_rotate add.commute)

lemma resolved_not_Nil: "resolve_turn_endpoints v h p m = Inr es \<Longrightarrow> es \<noteq> []"
  by (auto simp: resolve_turn_endpoints_def Let_def split: sum.splits option.splits if_splits)

text \<open>C12: the choice of the TURN address. It is the first usable address of the list rotated by worker and retry
  cursor, so that consecutive workers and retries start at consecutive addresses; the choice fails only if no address is usable,
  and the path key of the chosen address is then always defined.\<close>

theorem address_selected:
  "select_turn_address addresses cfg
     = find (\<lambda>a. is_ok (resolve_for cfg a)) (rotate (sc_id cfg + sc_cursor cfg) addresses)
   \<and> (select_turn_address addresses cfg = None \<longleftrightarrow> (\<forall>a\<in>set addresses. \<not> is_ok (resolve_for cfg a)))
   \<and> (\<forall>a. select_turn_address addresses cfg = Some a \<longrightarrow> a \<in> set addresses
        \<and> (\<exists>es. resolve_for cfg a = Inr es \<and> es \<noteq> [] \<and> turn_path_key a cfg = Inr (socket_authority (hd es))))"
proof -
  let ?ok = "\<lambda>a. is_ok (resolve_for cfg a)"
  let ?n = "length addresses"
  have s: "select_turn_address addresses cfg = find ?ok (rotate (sc_id cfg + sc_cursor cfg) addresses)"
  proof (cases "addresses = []")
    case False
    have r: "rotate (turn_endpoint_index (sc_id cfg) (sc_cursor cfg) ?n) addresses = rotate (sc_id cfg + sc_cursor cfg) addresses"
      unfolding turn_endpoint_index_def mod_add_eq by (rule rotate_conv_mod [symmetric])
    show ?thesis by (simp only: select_turn_address_def Let_def select_from_find rotate_nth r)
  qed (simp add: select_turn_address_def)
  have none: "select_turn_address addresses cfg = None \<longleftrightarrow> (\<forall>a\<in>set addresses. \<not> ?ok a)"
    by (auto simp: s find_None_iff)
  have some: "a \<in> set addresses \<and> (\<exists>es. resolve_for cfg a = Inr es \<and> es \<noteq> [] \<and> turn_path_key a cfg = Inr (socket_authority (hd es)))"
    if "select_turn_address addresses cfg = Some a" for a
  proof -
    have "a \<in> set (rotate (sc_id cfg + sc_cursor cfg) addresses)" "?ok a"
      using that unfolding s find_Some_iff by (metis nth_mem)+
    then obtain es where es: "resolve_for cfg a = Inr es" "a \<in> set addresses" by (auto simp: is_ok_def split: sum.splits)
    have "es \<noteq> []" using es(1) resolved_not_Nil by (auto simp: resolve_for_def)
    thus ?thesis using es by (cases es) (auto simp: turn_path_key_def)
  qed
  show ?thesis using s none some by blast
qed

definition sample_config :: session_config where
  "sample_config = \<lparr>sc_id = 3, sc_turn_host = None, sc_turn_port = None, sc_transport = ModeTcpTls, sc_local_port = ''9000'',
     sc_device = ''device'', sc_password = ''password'', sc_generation = 7, sc_cursor = 1, sc_salt = ''salt'', sc_get_config = True\<rparr>"

lemma address_selected_witness:
  "select_turn_address [''turn:relay.example:3478?transport=udp'', ''turn:relay.example:3478?transport=tcp''] sample_config
    = Some ''turn:relay.example:3478?transport=tcp''
   \<and> turn_path_key ''turn:relay.example:3478?transport=tcp'' sample_config = Inr ''relay.example:3478''"
proof -
  have "select_turn_address [''turn:relay.example:3478?transport=udp'', ''turn:relay.example:3478?transport=tcp''] sample_config
    = Some ''turn:relay.example:3478?transport=tcp''" by code_simp
  moreover have "resolve_for sample_config ''turn:relay.example:3478?transport=tcp''
    = Inr [\<lparr>te_host = ''relay.example'', te_port = 3478, te_transport = WireTcp\<rparr>]" by code_simp
  moreover have "socket_authority \<lparr>te_host = ''relay.example'', te_port = 3478, te_transport = WireTcp\<rparr> = ''relay.example:3478''"
    by code_simp
  ultimately show ?thesis using address_selected [of "[''turn:relay.example:3478?transport=udp'',
      ''turn:relay.example:3478?transport=tcp'']" sample_config] by fastforce
qed

section \<open>The GETCONF exchange\<close>

text \<open>Attempts that are sent but not answered by their deadlines, from \<open>now\<close> on.\<close>

fun unanswered :: "nat list \<Rightarrow> config_attempt list \<Rightarrow> nat \<Rightarrow> bool" where
  "unanswered (timeout # timeouts) (a # as) now = (ca_send a = Inr ()
     \<and> fst (await_response (now + ca_taken a + timeout) (now + ca_taken a) (ca_reads a) 0) = None
     \<and> unanswered timeouts as (now + ca_taken a + timeout))"
| "unanswered _ _ now = True"

text \<open>The time that so many attempts take that are not answered: their deadlines and the time of sending.\<close>

definition waited :: "nat \<Rightarrow> config_attempt list \<Rightarrow> nat" where
  "waited k attempts = sum_list (take k CONFIG_RESPONSE_TIMEOUT_MS) + sum_list (map ca_taken (take k attempts))"

lemma await_response_same: "fst (await_response d now es n) = fst (await_response d now' es m)"
proof (induction es arbitrary: n m now now')
  case (Cons e es)
  obtain t v where "e = (t, v)" by (cases e)
  thus ?case by (cases v) (auto simp: Let_def intro: Cons.IH)
qed simp

lemma await_response_time:
  "await_response d now es n = (r, k, t) \<Longrightarrow> now \<le> d \<Longrightarrow> (if r = None then t = d else now \<le> t \<and> t \<le> d)"
proof (induction es arbitrary: n now)
  case (Cons e es)
  obtain x v where "e = (x, v)" by (cases e)
  thus ?case using Cons.prems Cons.IH [of "max now x"]
    by (cases v) (auto simp: Let_def split: if_splits)
qed simp

lemma request_attempts_unanswered:
  "length ts = length as \<Longrightarrow> unanswered ts as now \<Longrightarrow> \<exists>k t. request_attempts cfg (ts @ us) (as @ bs) now h
    = request_attempts cfg us bs (now + sum_list ts + sum_list (map ca_taken as))
      (h\<lparr>hs_requests := hs_requests h @ map (\<lambda>a. fst (build_registration_payload cfg (ca_idle a))) as, hs_panels := k, hs_time := t\<rparr>)
    \<and> (as \<noteq> [] \<longrightarrow> t = now + sum_list ts + sum_list (map ca_taken as))"
proof (induction ts as arbitrary: now h rule: list_induct2)
  case Nil
  show ?case by (intro exI [of _ "hs_panels h"] exI [of _ "hs_time h"]) simp
next
  case (Cons t ts a as)
  obtain request offset where p: "build_registration_payload cfg (ca_idle a) = (request, offset)" by force
  let ?d = "now + ca_taken a + t"
  obtain r k x where r: "await_response ?d (now + ca_taken a) (ca_reads a) (hs_panels h) = (r, k, x)" by (metis prod_cases3)
  have un: "ca_send a = Inr ()" "fst (await_response ?d (now + ca_taken a) (ca_reads a) 0) = None" "unanswered ts as ?d" using Cons.prems by simp_all
  have "r = None" using un(2) r await_response_same [of ?d "now + ca_taken a" "ca_reads a" 0 "now + ca_taken a" "hs_panels h"] by simp
  moreover have "x = ?d" using await_response_time [OF r] calculation by simp
  ultimately have 1: "request_attempts cfg ((t # ts) @ us) ((a # as) @ bs) now h
      = request_attempts cfg (ts @ us) (as @ bs) ?d (h\<lparr>hs_requests := hs_requests h @ [request], hs_panels := k, hs_time := ?d\<rparr>)"
    using p r un(1) by (simp add: Let_def)
  show ?case
  proof (cases "as = []")
    case True
    thus ?thesis unfolding 1 using Cons.hyps p by (rule_tac x = k in exI, rule_tac x = ?d in exI) (simp add: algebra_simps)
  next
    case False
    obtain k' t' where ih: "request_attempts cfg (ts @ us) (as @ bs) ?d (h\<lparr>hs_requests := hs_requests h @ [request], hs_panels := k, hs_time := ?d\<rparr>)
      = request_attempts cfg us bs (?d + sum_list ts + sum_list (map ca_taken as))
        (h\<lparr>hs_requests := hs_requests h @ request # map (\<lambda>a. fst (build_registration_payload cfg (ca_idle a))) as, hs_panels := k', hs_time := t'\<rparr>)"
      "t' = ?d + sum_list ts + sum_list (map ca_taken as)"
      using Cons.IH [OF un(3), of "h\<lparr>hs_requests := hs_requests h @ [request], hs_panels := k, hs_time := ?d\<rparr>"] False by auto
    show ?thesis unfolding 1 using p ih by (rule_tac x = k' in exI, rule_tac x = t' in exI) (simp add: algebra_simps)
  qed
qed

text \<open>C10: the GETCONF exchange. Requests are repeated, each with the epoch of its own moment, until one is answered,
  at most three times, and each waits for its answer until its own deadline, 750, 1500 and 3000 ms after it was sent. If none is answered the handshake fails
  after exactly 5250 ms and the time that sending took, as a fatal error for the worker that fetches the configuration. If request \<open>k\<close> is
  the first that is answered in time, the exchange ends by its deadline, and if the answer is a configuration, it has joined the epoch announced by that request,
  and not an earlier one.\<close>

theorem getconf_exchange:
  fixes cfg :: session_config and attempts :: "config_attempt list" and packet :: bytes
  assumes k: "k \<le> 3" "3 \<le> length attempts" "unanswered (take k CONFIG_RESPONSE_TIMEOUT_MS) (take k attempts) 0"
  defines "h \<equiv> request_configuration cfg attempts" and "a \<equiv> attempts ! k" and "deadline \<equiv> waited (Suc k) attempts"
    and "payloads \<equiv> \<lambda>n. map (\<lambda>a. fst (build_registration_payload cfg (ca_idle a))) (take n attempts)"
  shows "(k = 3 \<longrightarrow> hs_result h = Inl HandshakeTimeout \<and> hs_requests h = payloads 3 \<and> hs_fatal h = sc_get_config cfg
        \<and> hs_config h = None \<and> hs_joined h = None \<and> hs_time h = 5250 + sum_list (map ca_taken (take 3 attempts)))
    \<and> (k < 3 \<and> ca_send a = Inr () \<and> fst (await_response deadline (waited k attempts + ca_taken a) (ca_reads a) 0) = Some (Inr packet) \<longrightarrow>
        hs_requests h = payloads (Suc k) \<and> waited k attempts + ca_taken a \<le> hs_time h \<and> hs_time h \<le> deadline
      \<and> hs_result h = (case parse_config_response packet of Inl e \<Rightarrow> Inl (HandshakeRejected e)
           | Inr r \<Rightarrow> Inr (r \<noteq> NoConfig))
      \<and> hs_joined h = (if hs_result h = Inr True then Some (id_gen_offset (ca_idle a)) else None)
      \<and> (hs_config h \<noteq> None \<longleftrightarrow> sc_get_config cfg \<and> hs_result h = Inr True))"
proof (intro conjI impI)
  let ?ts = CONFIG_RESPONSE_TIMEOUT_MS
  have l: "length ?ts = 3" by (simp add: CONFIG_RESPONSE_TIMEOUT_MS_def)
  obtain p t where r: "h = request_attempts cfg (drop k ?ts) (drop k attempts) (waited k attempts)
      (new_handshake\<lparr>hs_requests := payloads k, hs_panels := p, hs_time := t\<rparr>)"
    and t: "take k attempts \<noteq> [] \<longrightarrow> t = waited k attempts"
    using request_attempts_unanswered [OF _ k(3), of cfg "drop k ?ts" "drop k attempts" new_handshake] k(1,2) l
    unfolding h_def request_configuration_def payloads_def waited_def by (auto simp: new_handshake_def)
  { assume k3: "k = 3"
    have "waited 3 attempts = 5250 + sum_list (map ca_taken (take 3 attempts))" by (simp add: waited_def CONFIG_RESPONSE_TIMEOUT_MS_def)
    moreover have "t = waited 3 attempts" using t k3 k(2) by auto
    moreover have "drop 3 ?ts = []" using l by simp
    ultimately show "hs_result h = Inl HandshakeTimeout" "hs_requests h = payloads 3" "hs_fatal h = sc_get_config cfg"
      "hs_config h = None" "hs_joined h = None" "hs_time h = 5250 + sum_list (map ca_taken (take 3 attempts))"
      using r unfolding k3 by (simp_all add: new_handshake_def) }
  assume a: "k < 3 \<and> ca_send a = Inr () \<and> fst (await_response deadline (waited k attempts + ca_taken a) (ca_reads a) 0) = Some (Inr packet)"
  have d: "drop k attempts = a # drop (Suc k) attempts" "drop k ?ts = ?ts ! k # drop (Suc k) ?ts"
    using a k(2) l by (simp_all add: Cons_nth_drop_Suc [symmetric] a_def)
  have dl: "deadline = waited k attempts + ca_taken a + ?ts ! k"
    using a k(2) l by (simp add: deadline_def waited_def take_Suc_conv_app_nth a_def)
  have ps: "payloads (Suc k) = payloads k @ [fst (build_registration_payload cfg (ca_idle a))]"
    using a k(2) by (simp add: payloads_def take_Suc_conv_app_nth a_def)
  obtain q x where w: "await_response deadline (waited k attempts + ca_taken a) (ca_reads a) p = (Some (Inr packet), q, x)"
    using a await_response_same [of deadline "waited k attempts + ca_taken a" "ca_reads a" 0 "waited k attempts + ca_taken a" p]
    by (metis prod.collapse)
  have x: "waited k attempts + ca_taken a \<le> x" "x \<le> deadline" using await_response_time [OF w] dl by auto
  have h: "h = accept_response cfg (id_gen_offset (ca_idle a)) packet
      (new_handshake\<lparr>hs_requests := payloads (Suc k), hs_panels := q, hs_time := x\<rparr>)"
    using a w unfolding r d ps dl by (simp add: build_registration_payload_def Let_def)
  show "hs_requests h = payloads (Suc k)" "waited k attempts + ca_taken a \<le> hs_time h" "hs_time h \<le> deadline"
    "hs_result h = (case parse_config_response packet of Inl e \<Rightarrow> Inl (HandshakeRejected e) | Inr r \<Rightarrow> Inr (r \<noteq> NoConfig))"
    "hs_joined h = (if hs_result h = Inr True then Some (id_gen_offset (ca_idle a)) else None)"
    "hs_config h \<noteq> None \<longleftrightarrow> sc_get_config cfg \<and> hs_result h = Inr True"
    using x by (auto simp: h accept_response_def new_handshake_def split: sum.split config_response.split)
qed

definition sample_attempt :: "(nat \<times> read_event) list \<Rightarrow> config_attempt" where
  "sample_attempt es = \<lparr>ca_idle = initial_idle, ca_send = Inr (), ca_taken = 10, ca_reads = es\<rparr>"

lemma getconf_exchange_witness:
  "let h = request_configuration sample_config
      [sample_attempt [(100, Got PANEL_RESTART_NOTICE), (770, Got (ascii ''NOCONF''))], sample_attempt [(900, Got (ascii ''NOCONF''))], sample_attempt []]
   in hs_result h = Inr False \<and> 770 \<le> hs_time h \<and> hs_time h \<le> 2270"
proof -
  let ?as = "[sample_attempt [(100, Got PANEL_RESTART_NOTICE), (770, Got (ascii ''NOCONF''))], sample_attempt [(900, Got (ascii ''NOCONF''))], sample_attempt []]"
  have n: "\<not> is_panel_restart_notice (ascii ''NOCONF'')" "is_config_response (ascii ''NOCONF'')"
    "is_panel_restart_notice PANEL_RESTART_NOTICE"
    by (simp_all add: is_panel_restart_notice_def PANEL_RESTART_NOTICE_def is_config_response_def ascii_def starts_with_def)
  have "parse_config_response (ascii ''NOCONF'') = Inr NoConfig"
    by (simp add: parse_config_response_def ascii_def)
  thus ?thesis using getconf_exchange [of 1 ?as sample_config "ascii ''NOCONF''"] n
    by (simp add: waited_def CONFIG_RESPONSE_TIMEOUT_MS_def sample_attempt_def)
qed

section \<open>The reader\<close>

lemma config_prefix_control: "starts_with data (ascii ''TUNCONF:'') \<Longrightarrow> is_control_response data"
  by (simp add: is_control_response_def)

lemma command_control:
  "parse_stream_repair data = Some c \<Longrightarrow> is_control_response data"
  "parse_stream_alive data = Some c \<Longrightarrow> is_control_response data"
proof -
  show "parse_stream_repair data = Some c \<Longrightarrow> is_control_response data"
    using parsed_command [of data STREAM_REPAIR_PREFIX c] by (auto simp: parse_stream_repair_def is_control_response_def)
  show "parse_stream_alive data = Some c \<Longrightarrow> is_control_response data"
    using parsed_command [of data STREAM_ALIVE_PREFIX c] by (auto simp: parse_stream_alive_def is_control_response_def)
qed

lemma observed_control: "observe_control_response data s = (True, s') \<Longrightarrow> is_control_response data"
  by (auto simp: observe_control_response_def is_control_response_def starts_with_def split: if_splits)

lemma observed_not: "observe_control_response data s = (False, s') \<Longrightarrow> s' = s"
  by (auto simp: observe_control_response_def split: if_splits)

lemma repair_unaddressed:
  assumes "v \<notin> unat ` set (sc_ids c)"
  shows "repair_slot_at v (fst (apply_repair c st)) = repair_slot_at v st"
proof -
  obtain st' r k where a: "apply_repair c st = (st', r, k)" by (rule prod_cases3)
  show ?thesis using apply_repair_effect(1,2) [OF a] assms by (auto simp: a repair_slot_at_def renewed_def)
qed

lemma alive_restarts:
  "restart_generation v (fst (fold (alive_one sq) ws r)) = restart_generation v (fst r)
   \<and> credential_generation v (fst (fold (alive_one sq) ws r)) = credential_generation v (fst r)"
proof (induction ws arbitrary: r)
  case (Cons w ws)
  have "restart_generation v (fst (alive_one sq w r)) = restart_generation v (fst r)
      \<and> credential_generation v (fst (alive_one sq w r)) = credential_generation v (fst r)"
    by (cases r; cases "v = unat w")
      (auto simp: alive_one_def repair_slot_at_def restart_generation_def credential_generation_def nth_list_update split: if_splits)
  thus ?case using Cons by simp
qed simp

text \<open>C7: the reader separates control from traffic. Whatever authenticated packet arrives, it is handed to the
  return queues if and only if it is not a control message, and then it changes nothing else; and no packet of the
  server, repair commands included, restarts a worker that idle mode has parked or resets its credentials.\<close>

theorem reader_separates:
  fixes packet :: packet_buf and s :: "'q reader_state" and idle :: idle_state and ops :: "(packet_buf, 'q) pq_ops"
  defines "s' \<equiv> reader_step ops idle packet s"
  shows "(if is_control_response (as_slice packet) then rd_queues s' = rd_queues s
       else s' = s\<lparr>rd_queues := return_packet ops packet (rd_queues s)\<rparr>)
    \<and> (\<forall>v. allows idle v \<or> (restart_generation v (rd_repair s') = restart_generation v (rd_repair s)
         \<and> credential_generation v (rd_repair s') = credential_generation v (rd_repair s)))"
proof (cases "is_panel_restart_notice (as_slice packet)")
  case True
  thus ?thesis by (simp add: s'_def reader_step_def is_control_response_def)
next
  case plain: False
  consider c where "parse_stream_repair (as_slice packet) = Some c"
    | c where "parse_stream_repair (as_slice packet) = None" "parse_stream_alive (as_slice packet) = Some c"
    | sd where "parse_stream_repair (as_slice packet) = None" "parse_stream_alive (as_slice packet) = None"
        "observe_control_response (as_slice packet) (rd_shutdown s) = (True, sd)"
    | sd where "parse_stream_repair (as_slice packet) = None" "parse_stream_alive (as_slice packet) = None"
        "observe_control_response (as_slice packet) (rd_shutdown s) = (False, sd)"
    by (metis (full_types) option.exhaust surj_pair)
  thus ?thesis
  proof cases
    case (1 c)
    have "repair_slot_at v (rd_repair s') = repair_slot_at v (rd_repair s)" if "\<not> allows idle v" for v
      using plain 1 that by (auto simp: s'_def reader_step_def Let_def intro!: repair_unaddressed)
    thus ?thesis using command_control(1) [OF 1] plain 1
      by (auto simp: s'_def reader_step_def Let_def restart_generation_def credential_generation_def)
  next
    case (2 c)
    thus ?thesis using command_control(2) [OF 2(2)] plain alive_restarts [where r = "(rd_repair s, 0)"]
      by (simp add: s'_def reader_step_def apply_alive_def)
  next
    case (3 sd)
    thus ?thesis using observed_control [OF 3(3)] plain by (simp add: s'_def reader_step_def)
  next
    case (4 sd)
    hence "s' = (if starts_with (as_slice packet) (ascii ''TUNCONF:'') then
        (case parse_config_response (as_slice packet) of Inr (Config v) \<Rightarrow> s\<lparr>rd_configs := rd_configs s @ [v]\<rparr> | _ \<Rightarrow> s)
      else if is_control_response (as_slice packet) then s else s\<lparr>rd_queues := return_packet ops packet (rd_queues s)\<rparr>)"
      using plain by (simp add: s'_def reader_step_def)
    thus ?thesis using config_prefix_control by (auto split: sum.split config_response.split)
  qed
qed

section \<open>The goodbye\<close>

lemma attempt_goes_on:
  assumes "disconnect_attempt deadline send ack w now = Inr n" "now < deadline"
  shows "now \<le> n \<and> n \<le> now + 160 \<and> n \<le> deadline"
  using assms by (auto simp: disconnect_attempt_def Let_def DISCONNECT_ATTEMPT_def split: prod.splits if_splits)

lemma attempt_ends:
  assumes "disconnect_attempt deadline send ack w now = Inl t" "now < deadline"
  shows "now \<le> t \<and> t \<le> deadline \<and> t \<le> now + 160 \<and> (acked ack t \<or> deadline \<le> now + 160)"
  using assms by (auto simp: disconnect_attempt_def Let_def DISCONNECT_ATTEMPT_def acked_def split: prod.splits if_splits option.splits)

text \<open>When attempt \<open>i\<close> of a goodbye ends: at the start of the next, or with the whole.\<close>

definition attempt_end :: "(nat \<times> nat) list \<Rightarrow> nat \<Rightarrow> nat \<Rightarrow> nat" where
  "attempt_end log t i = (if Suc i < length log then snd (log ! Suc i) else t)"

lemma disconnect_loop_first: "disconnect_loop deadline send ack ws now = (log, t) \<Longrightarrow> (if log = [] then t = now else snd (hd log) = now)"
  by (cases ws) (auto split: if_splits sum.splits prod.splits)

lemma disconnect_loop_bounds:
  "disconnect_loop deadline send ack ws now = (log, t) \<Longrightarrow> now \<le> deadline \<Longrightarrow>
     now \<le> t \<and> t \<le> deadline \<and> map fst log = take (length log) ws
   \<and> (\<forall>i\<in>{..<length log}. snd (log ! i) \<le> now + 160 * i \<and> attempt_end log t i \<le> snd (log ! i) + 160)
   \<and> (length log < length ws \<longrightarrow> acked ack t \<or> deadline \<le> now + 160 * length log)"
proof (induction ws arbitrary: now log)
  case (Cons w ws)
  consider "acked ack now" | "\<not> acked ack now" "deadline \<le> now"
    | x where "\<not> acked ack now" "now < deadline" "disconnect_attempt deadline send ack w now = Inl x"
    | n where "\<not> acked ack now" "now < deadline" "disconnect_attempt deadline send ack w now = Inr n"
    by (cases "disconnect_attempt deadline send ack w now") force+
  thus ?case
  proof cases
    case 1 thus ?thesis using Cons.prems by auto
  next
    case 2 thus ?thesis using Cons.prems by auto
  next
    case (3 x) thus ?thesis using Cons.prems attempt_ends [OF 3(3,2)] by (auto simp: attempt_end_def)
  next
    case (4 n)
    obtain log' t' where r: "disconnect_loop deadline send ack ws n = (log', t')" by force
    have l: "t' = t" "log = (w, now) # log'" using Cons.prems 4 r by auto
    note n = attempt_goes_on [OF 4(3,2)]
    have IH: "n \<le> t \<and> t \<le> deadline \<and> map fst log' = take (length log') ws \<and> (\<forall>i\<in>{..<length log'}. snd (log' ! i) \<le> n + 160 * i \<and> attempt_end log' t i \<le> snd (log' ! i) + 160)
        \<and> (length log' < length ws \<longrightarrow> acked ack t \<or> deadline \<le> n + 160 * length log')"
      using Cons.IH [OF r [unfolded l(1)]] n by blast
    have f: "if log' = [] then t = n else snd (hd log') = n" using disconnect_loop_first [OF r] unfolding l(1) .
    have "snd (log ! i) \<le> now + 160 * i \<and> attempt_end log t i \<le> snd (log ! i) + 160" if "i < length log" for i
    proof (cases i)
      case (Suc j)
      hence "snd (log' ! j) \<le> n + 160 * j" "attempt_end log' t j \<le> snd (log' ! j) + 160" using IH that l(2) by auto
      thus ?thesis using n l(2) Suc by (auto simp: attempt_end_def split: if_splits)
    next
      case 0
      thus ?thesis using f n l(2) by (cases log') (auto simp: attempt_end_def)
    qed
    thus ?thesis using IH n l(2) by auto
  qed
qed auto

text \<open>C11: the goodbye fits its budget. The leader of a shutdown tries the control streams in the order of
  their last activity, the most recent first, each once; every attempt, the last included, takes at most 160
  ms with the wait for its acknowledgement, the whole at most 700 ms, and unless the server has acknowledged at least five
  streams, or all there are, have been tried. The shutdown is complete afterwards in any case.\<close>

theorem goodbye_within_budget:
  assumes "lead_disconnect send ack now s = (log, t, s')"
  shows "now \<le> t \<and> t \<le> now + 700 \<and> sd_completed s'
    \<and> (\<exists>cs. mset cs = mset (sd_streams s) \<and> sorted_wrt (\<lambda>c d. ct_activity d \<le> ct_activity c) cs
        \<and> map fst log = map ct_writer (take (length log) cs))
    \<and> (\<forall>i\<in>{..<length log}. snd (log ! i) \<le> now + 160 * i \<and> attempt_end log t i \<le> snd (log ! i) + 160)
    \<and> (acked ack t \<or> min 5 (length (sd_streams s)) \<le> length log)"
proof -
  let ?cs = "rev (sort_key (\<lambda>c. (ct_activity c, ct_incarnation c)) (sd_streams s))"
  have d: "disconnect_loop (now + 700) send ack (map ct_writer ?cs) now = (log, t)" "s' = sd_complete s"
    using assms by (auto simp: lead_disconnect_def control_streams_def DISCONNECT_BUDGET_def split: prod.splits)
  note b = disconnect_loop_bounds [OF d(1) le_add1]
  have "sorted (map (\<lambda>c. (ct_activity c, ct_incarnation c)) (sort_key (\<lambda>c. (ct_activity c, ct_incarnation c)) (sd_streams s)))"
    by (rule sorted_sort_key)
  hence "sorted_wrt (\<lambda>c d. ct_activity c \<le> ct_activity d) (sort_key (\<lambda>c. (ct_activity c, ct_incarnation c)) (sd_streams s))"
    unfolding sorted_map by (rule sorted_wrt_mono_rel [rotated]) auto
  hence "sorted_wrt (\<lambda>c d. ct_activity d \<le> ct_activity c) ?cs" by (simp add: sorted_wrt_rev)
  moreover have "mset ?cs = mset (sd_streams s)" by simp
  moreover have "map fst log = map ct_writer (take (length log) ?cs)" using b by (simp add: take_map)
  moreover have "acked ack t \<or> min 5 (length (sd_streams s)) \<le> length log"
    using b by (cases "length log < length (map ct_writer ?cs)") auto
  moreover have "sd_completed s'" by (simp add: d(2) sd_complete_def)
  ultimately show ?thesis using b by blast
qed

lemma goodbye_within_budget_witness:
  "let s = sd_register 8 80 (sd_register 9 90 new_shutdown);
       (log, t, s') = lead_disconnect (\<lambda>w n. (10, True)) (Some 1120) 1000 s
   in log = [(80, 1000), (90, 1090)] \<and> t = 1120 \<and> sd_completed s' \<and> t \<le> 1700"
proof -
  let ?s = "sd_register 8 80 (sd_register 9 90 new_shutdown)"
  have r: "lead_disconnect (\<lambda>w n. (10, True)) (Some 1120) 1000 ?s = ([(80, 1000), (90, 1090)], 1120, sd_complete ?s)"
    by code_simp
  show ?thesis using goodbye_within_budget [OF r] r by simp
qed

section \<open>What a session leaves behind\<close>

definition untouched :: "nat \<Rightarrow> 'q dispatch_store \<Rightarrow> 'q dispatch_store \<Rightarrow> bool" where
  "untouched a st st' \<longleftrightarrow> ds_healthy st' = ds_healthy st \<and> ds_queue st' a = ds_queue st a"

text \<open>The address \<open>a\<close> is no queue of a healthy worker.\<close>

definition off_limits :: "nat \<Rightarrow> worker_channels list \<Rightarrow> 'q dispatch_store \<Rightarrow> bool" where
  "off_limits a ws st \<longleftrightarrow> (\<forall>w\<in>set ws. is_healthy st w \<longrightarrow> (\<forall>c. queue_for_class w c \<noteq> a))"

lemma off_limits_untouched: "untouched b st st' \<Longrightarrow> off_limits a ws st' = off_limits a ws st"
  by (simp add: off_limits_def untouched_def is_healthy_def)

lemma try_workers_untouched:
  "try_workers ops ws t clear offsets p st = (r, st') \<Longrightarrow> ws \<noteq> [] \<Longrightarrow> off_limits a ws st \<Longrightarrow> untouched a st st'"
proof (induction offsets arbitrary: p st)
  case Nil
  thus ?case by (simp add: untouched_def)
next
  case (Cons k ks)
  let ?w = "ws ! ((dt_slot t + k) mod length ws)" let ?a = "queue_for_class ?w (dt_class t)"
  have w: "?w \<in> set ws" using Cons.prems(2) by simp
  obtain x q where s: "try_send ops p (ds_queue st ?a) = (x, q)" by force
  let ?st1 = "put_queue ?a q st"
  have "?a \<noteq> a \<or> \<not> is_healthy st ?w" using Cons.prems(3) w by (auto simp: off_limits_def)
  hence u: "untouched a st ?st1 \<or> \<not> is_healthy st ?w" by (auto simp: untouched_def put_queue_def)
  have o: "off_limits a ws ?st1" using Cons.prems(3) by (simp add: off_limits_def is_healthy_def put_queue_def)
  consider "try_workers ops ws t clear ks p st = (r, st')"
    | y where "x = Inl y" "is_healthy st ?w" "try_workers ops ws t clear ks y ?st1 = (r, st')"
    | "x = Inr ()" "is_healthy st ?w" "st' = ?st1"
    using Cons.prems(1) s by (cases x) (auto simp: Let_def split: if_splits)
  thus ?case
  proof cases
    case 1 thus ?thesis using Cons.IH Cons.prems by blast
  next
    case 2 thus ?thesis using Cons.IH [OF 2(3) Cons.prems(2) o] u by (auto simp: untouched_def)
  next
    case 3 thus ?thesis using u by auto
  qed
qed

lemma send_to_workers_untouched:
  assumes "send_to_workers ops ws t p st = (r, st')" "ws \<noteq> []" "off_limits a ws st"
  shows "untouched a st st'"
proof -
  obtain x st1 where e: "enqueue_selected_worker ops ws t p st = (x, st1)" by force
  obtain y st0 where f: "try_workers ops ws t True [0..<search_width ws t st] p st = (y, st0)" by force
  have u0: "untouched a st st0" by (rule try_workers_untouched [OF f assms(2,3)])
  have u1: "untouched a st st1"
  proof (cases y)
    case (Inl q)
    hence "try_workers ops ws t False [0..<search_width ws t st] q st0 = (x, st1)"
      using e f assms(2) by (simp add: enqueue_selected_worker_def Let_def)
    from try_workers_untouched [OF this assms(2)] show ?thesis
      using u0 off_limits_untouched [OF u0] assms(3) by (auto simp: untouched_def)
  next
    case (Inr u)
    thus ?thesis using e f assms(2) u0 by (simp add: enqueue_selected_worker_def Let_def)
  qed
  show ?thesis
  proof (cases x)
    case (Inr u)
    thus ?thesis using assms(1) e u1 by (simp add: send_to_workers_def)
  next
    case (Inl q)
    hence r: "replace_oldest_in_selected_queue ops ws t q st1 = (r, st')" using assms(1) e by (simp add: send_to_workers_def)
    show ?thesis
    proof (cases "min_by_key (\<lambda>w. queued_len ops (ds_queue st1 (queue_for_class w (dt_class t)))) (filter (is_healthy st1) ws)")
      case None
      thus ?thesis using r u1 assms(2) by (simp add: replace_oldest_in_selected_queue_def)
    next
      case (Some w)
      have w: "w \<in> set ws" "is_healthy st1 w" using min_by_key_SomeD [OF Some] by auto
      hence "queue_for_class w (dt_class t) \<noteq> a"
        using assms(3) off_limits_untouched [OF u1, of a ws] by (auto simp: off_limits_def)
      thus ?thesis using r u1 assms(2) Some
        by (auto simp: replace_oldest_in_selected_queue_def Let_def untouched_def put_queue_def split: prod.splits)
    qed
  qed
qed

lemma redispatch_all_untouched:
  "off_limits a ws st \<Longrightarrow> untouched a st (redispatch_all ops ws ps st)"
proof (induction ps arbitrary: st)
  case Nil
  show ?case by (simp add: redispatch_all_def untouched_def)
next
  case (Cons p ps)
  let ?st1 = "redispatch ops ws p st"
  obtain r st' where s: "send_to_workers ops ws \<lparr>dt_slot = 0, dt_class = packet_class (as_slice p)\<rparr> p st = (r, st')" by force
  have u: "untouched a st ?st1"
    using send_to_workers_untouched [OF s _ Cons.prems] s by (simp add: redispatch_def untouched_def)
  have "untouched a ?st1 (redispatch_all ops ws ps ?st1)" by (rule Cons.IH) (use off_limits_untouched [OF u] Cons.prems in simp)
  thus ?case using u by (simp add: redispatch_all_def untouched_def)
qed

lemma queue_for_class_cases: "queue_for_class w c \<in> {wc_latency w, wc_priority w, wc_bulk w}"
  by (cases c) (simp_all add: queue_for_class_def)

definition own_queues :: "worker_channels \<Rightarrow> nat set" where
  "own_queues w = {wc_latency w, wc_priority w, wc_bulk w}"

lemma drained:
  assumes laws: "queue_laws ops items cap" and d: "distinct [wc_latency w, wc_priority w, wc_bulk w]"
    and r: "drain_uplink ops w st = (ps, st')"
  shows "ps = concat (map (\<lambda>a. map qp_packet (items (pq_queue (ds_queue st a)))) [wc_latency w, wc_priority w, wc_bulk w])"
    "ds_healthy st' = ds_healthy st" "\<forall>a\<in>own_queues w. items (pq_queue (ds_queue st' a)) = []"
proof -
  have c: "channel ops items cap" using laws by unfold_locales
  note i = channel.steal_items [OF c]
  define q where "q = ds_queue st"
  have "drain_uplink ops w st = (fst (steal ops (q (wc_latency w))) @ fst (steal ops (q (wc_priority w))) @ fst (steal ops (q (wc_bulk w))),
      st\<lparr>ds_queue := q(wc_latency w := snd (steal ops (q (wc_latency w))), wc_priority w := snd (steal ops (q (wc_priority w))),
        wc_bulk w := snd (steal ops (q (wc_bulk w))))\<rparr>)"
    using d by (simp add: drain_uplink_def Let_def put_queue_def q_def case_prod_beta)
  hence e: "ps = fst (steal ops (q (wc_latency w))) @ fst (steal ops (q (wc_priority w))) @ fst (steal ops (q (wc_bulk w)))"
      "st' = st\<lparr>ds_queue := q(wc_latency w := snd (steal ops (q (wc_latency w))), wc_priority w := snd (steal ops (q (wc_priority w))),
        wc_bulk w := snd (steal ops (q (wc_bulk w))))\<rparr>" using r by simp_all
  show "ps = concat (map (\<lambda>a. map qp_packet (items (pq_queue (ds_queue st a)))) [wc_latency w, wc_priority w, wc_bulk w])"
    by (simp add: e(1) i q_def)
  show "ds_healthy st' = ds_healthy st" by (simp add: e(2))
  show "\<forall>a\<in>own_queues w. items (pq_queue (ds_queue st' a)) = []"
    by (auto simp: e(2) own_queues_def i)
qed

lemma close_receivers_items:
  "pq_queue (ds_queue (close_receivers w d) a) = pq_queue (ds_queue d a)" "ds_healthy (close_receivers w d) = ds_healthy d"
  by (simp_all add: close_receivers_def Let_def put_queue_def drop_receiver_def notify_all_def queue_for_class_def)

text \<open>C9: a finished session hands its packets over and takes none back. Whatever ended it, its worker is marked unhealthy,
  exactly the packets that were queued for it, latency before priority before bulk, are
  dispatched again, and afterwards its queues are empty although the worker is still registered at that moment; the epoch is left alone when
  the session was parked, rebound or restarted by a repair command, or ended without an error.\<close>

theorem finished_session_hands_over:
  assumes laws: "queue_laws ops items cap" and own: "distinct [wc_latency w, wc_priority w, wc_bulk w]"
    and others: "\<forall>v\<in>set late. wc_healthy v \<noteq> wc_healthy w \<longrightarrow> own_queues v \<inter> own_queues w = {}"
    and run: "session_finish ops cfg w late r (idle, d) = (idle', d')"
  shows "\<not> is_healthy d' w \<and> (\<forall>c. items (pq_queue (queue_of d' c w)) = [])
    \<and> (\<exists>d1. d' = redispatch_all ops late (concat (map (\<lambda>c. map qp_packet (items (pq_queue (queue_of d c w)))) [Small, Medium, Bulk])) d1
         \<and> (\<forall>c. items (pq_queue (queue_of d1 c w)) = []))
    \<and> (r \<in> {Inr (), Inl [''IDLE_PARK''], Inl [''NET_REBIND''], Inl [''TARGET_REPAIR'']} \<longrightarrow> idle' = idle)"
proof -
  let ?d0 = "close_receivers w (mark_unhealthy w d)"
  obtain ps d1 where dr: "drain_uplink ops w ?d0 = (ps, d1)" by force
  note dr' = drained [OF laws own dr]
  have d': "d' = redispatch_all ops late ps d1" using run dr by (simp add: session_finish_def)
  have dead: "ds_healthy d1 (wc_healthy w) = False" by (simp add: dr'(2) close_receivers_items mark_unhealthy_def)
  have off: "off_limits a late d1" if a: "a \<in> own_queues w" for a
  proof (unfold off_limits_def, intro ballI impI allI)
    fix v c assume v: "v \<in> set late" "is_healthy d1 v"
    hence "wc_healthy v \<noteq> wc_healthy w" using dead by (auto simp: is_healthy_def)
    thus "queue_for_class v c \<noteq> a" using others v(1) a queue_for_class_cases [of v c] by (auto simp: own_queues_def)
  qed
  have u: "untouched a d1 d'" if "a \<in> own_queues w" for a unfolding d' by (rule redispatch_all_untouched [OF off [OF that]])
  have own': "queue_for_class w c \<in> own_queues w" for c using queue_for_class_cases [of w c] by (simp add: own_queues_def)
  have e1: "\<forall>c. items (pq_queue (queue_of d1 c w)) = []" using dr'(3) own' by (simp add: queue_of_def)
  have e: "\<forall>c. items (pq_queue (queue_of d' c w)) = []" using u [OF own'] e1 by (simp add: queue_of_def untouched_def)
  have h: "\<not> is_healthy d' w" using u [of "wc_latency w"] dead by (simp add: untouched_def is_healthy_def own_queues_def)
  have ps: "ps = concat (map (\<lambda>c. map qp_packet (items (pq_queue (queue_of d c w)))) [Small, Medium, Bulk])"
    by (simp add: dr'(1) close_receivers_items queue_of_def queue_for_class_def mark_unhealthy_def)
  have "idle' = idle" if "r \<in> {Inr (), Inl [''IDLE_PARK''], Inl [''NET_REBIND''], Inl [''TARGET_REPAIR'']}"
  proof -
    have "\<not> should_note_path_lost [''IDLE_PARK'']" "\<not> should_note_path_lost [''NET_REBIND'']" "\<not> should_note_path_lost [''TARGET_REPAIR'']"
      by code_simp+
    thus ?thesis using that run by (auto simp: session_finish_def split: prod.splits)
  qed
  thus ?thesis using h e e1 d' [unfolded ps] by blast
qed

lemma finished_session_hands_over_witness:
  "let d = \<lparr>ds_queue = (\<lambda>a. packet_channel list_queue_ops 4 True), ds_healthy = (\<lambda>a. True)\<rparr>;
       w = sample_worker 1 1 ''a''; (idle', d') = session_finish list_queue_ops sample_config w
         [w, sample_worker 2 1 ''b''] (Inl [''IDLE_PARK'']) (initial_idle, d)
   in \<not> is_healthy d' w \<and> idle' = initial_idle"
proof -
  let ?d = "\<lparr>ds_queue = (\<lambda>a. packet_channel list_queue_ops 4 True), ds_healthy = (\<lambda>a. True)\<rparr>"
  let ?w = "sample_worker 1 1 ''a''" let ?late = "[?w, sample_worker 2 1 ''b'']"
  obtain idle' d' where r: "session_finish list_queue_ops sample_config ?w ?late (Inl [''IDLE_PARK'']) (initial_idle, ?d) = (idle', d')" by force
  have own: "distinct [wc_latency ?w, wc_priority ?w, wc_bulk ?w]"
    "\<forall>v\<in>set ?late. wc_healthy v \<noteq> wc_healthy ?w \<longrightarrow> own_queues v \<inter> own_queues ?w = {}"
    by (simp_all add: sample_worker_def own_queues_def)
  show ?thesis using finished_session_hands_over [OF list_queue_laws own r] r by simp
qed

end
