(* ===== verification/WorkerControl.thy ===== *)
theory WorkerControl
  imports ErrorText IdleMode
begin

text \<open>
  What paces and gates the workers (\<open>worker.rs\<close>): the start pacer, the gate of pause and idle mode,
  the single flight of the configuration request, the rate-limited recovery log, and the reading of
  the call hashes. Times are milliseconds.
\<close>

section \<open>The recovery log\<close>

definition RECOVERY_LOG_INTERVAL_MS :: nat where "RECOVERY_LOG_INTERVAL_MS = 10000"

record log_gate =
  lg_pending :: u64
  lg_next :: nat

definition new_log_gate :: log_gate where
  "new_log_gate = \<lparr>lg_pending = 0, lg_next = 0\<rparr>"

text \<open>The compare-and-swap of the source makes \<open>observe\<close> one step.\<close>

definition log_observe :: "nat \<Rightarrow> log_gate \<Rightarrow> u64 option \<times> log_gate" where
  "log_observe now g = (let g1 = g\<lparr>lg_pending := lg_pending g + 1\<rparr> in
     if lg_next g1 \<noteq> 0 \<and> now < lg_next g1 then (None, g1)
     else (Some (lg_pending g1), \<lparr>lg_pending = 0, lg_next = max (sat_add_u64 now RECOVERY_LOG_INTERVAL_MS) 1\<rparr>))"

fun log_run :: "nat list \<Rightarrow> log_gate \<Rightarrow> (nat \<times> u64) list \<times> log_gate" where
  "log_run [] g = ([], g)"
| "log_run (t # ts) g = (case log_observe t g of (r, g1) \<Rightarrow> (case log_run ts g1 of (rs, g2) \<Rightarrow>
     ((case r of None \<Rightarrow> rs | Some n \<Rightarrow> (t, n) # rs), g2)))"

section \<open>Pacing\<close>

record start_pacer =
  sp_next :: nat
  sp_interval :: nat

text \<open>One call of \<open>wait\<close> that holds the lock from \<open>now\<close> on; a cancelled one takes no slot.\<close>

definition pacer_wait :: "nat \<Rightarrow> bool \<Rightarrow> start_pacer \<Rightarrow> nat option \<times> start_pacer" where
  "pacer_wait now cancelled p = (if cancelled then (None, p)
     else let scheduled = max (sp_next p) now in (Some scheduled, p\<lparr>sp_next := scheduled + sp_interval p\<rparr>))"

fun pacer_run :: "(nat \<times> bool) list \<Rightarrow> start_pacer \<Rightarrow> nat list \<times> start_pacer" where
  "pacer_run [] p = ([], p)"
| "pacer_run ((now, c) # xs) p = (case pacer_wait now c p of (r, p1) \<Rightarrow> (case pacer_run xs p1 of (rs, p2) \<Rightarrow>
     ((case r of None \<Rightarrow> rs | Some t \<Rightarrow> t # rs), p2)))"

section \<open>The pause gate\<close>

record pause_gate =
  pg_paused :: bool
  pg_notified :: nat

definition set_paused :: "bool \<Rightarrow> pause_gate \<Rightarrow> pause_gate" where
  "set_paused paused g = (if pg_paused g \<noteq> paused then \<lparr>pg_paused = paused, pg_notified = pg_notified g + 1\<rparr>
     else g\<lparr>pg_paused := paused\<rparr>)"

definition gate_allows :: "nat \<Rightarrow> pause_gate \<Rightarrow> idle_state \<Rightarrow> bool" where
  "gate_allows worker g idle \<longleftrightarrow> \<not> pg_paused g \<and> allows idle worker"

text \<open>A round of \<open>wait_until_allowed\<close>: the two notifications are registered in one state, the gate is read in a later one; a waiter that is
  parked wakes up when one of them has been given since it registered.\<close>

datatype gate_wait = GateOpen | GateCancelled | GateParked nat nat

definition wait_round :: "pause_gate \<times> idle_state \<Rightarrow> pause_gate \<times> idle_state \<Rightarrow> nat \<Rightarrow> bool \<Rightarrow> gate_wait" where
  "wait_round registered now worker cancelled = (if gate_allows worker (fst now) (snd now) then GateOpen
     else if cancelled then GateCancelled else GateParked (pg_notified (fst registered)) (id_notified (snd registered)))"

definition wait_wakes :: "gate_wait \<Rightarrow> pause_gate \<times> idle_state \<Rightarrow> bool" where
  "wait_wakes w now = (case w of GateParked resumed unparked \<Rightarrow> pg_notified (fst now) \<noteq> resumed \<or> id_notified (snd now) \<noteq> unparked
     | _ \<Rightarrow> False)"

datatype gate_event = GatePause bool | GateIdle idle_event

fun gate_step :: "gate_event \<Rightarrow> pause_gate \<times> idle_state \<Rightarrow> pause_gate \<times> idle_state" where
  "gate_step (GatePause paused) (g, s) = (set_paused paused g, s)"
| "gate_step (GateIdle e) (g, s) = (g, idle_step e s)"

section \<open>The configuration flight\<close>

text \<open>The two shared flags, and the guards held by the workers.\<close>

record config_flight =
  cf_sent :: bool
  cf_in_flight :: bool

definition flight_acquire :: "config_flight \<Rightarrow> bool \<times> config_flight" where
  "flight_acquire f = (if \<not> cf_sent f \<and> \<not> cf_in_flight f then (True, f\<lparr>cf_in_flight := True\<rparr>) else (False, f))"

definition flight_drop :: "bool \<Rightarrow> config_flight \<Rightarrow> config_flight" where
  "flight_drop acquired f = (if acquired then f\<lparr>cf_in_flight := False\<rparr> else f)"

text \<open>\<open>ConfigDeliveryState::complete\<close> of \<open>session.rs\<close>, called by the session of a worker that holds the guard.\<close>

definition delivery_complete :: "bool \<Rightarrow> config_flight \<Rightarrow> config_flight" where
  "delivery_complete delivered f = (if delivered then f\<lparr>cf_sent := True, cf_in_flight := False\<rparr> else f\<lparr>cf_in_flight := False\<rparr>)"

definition should_refresh_configuration :: "bool \<Rightarrow> bool \<Rightarrow> int \<Rightarrow> bool \<Rightarrow> bool" where
  "should_refresh_configuration was_ready failed active_connections cancelled \<longleftrightarrow>
     was_ready \<and> failed \<and> active_connections = 0 \<and> \<not> cancelled"

section \<open>Call hashes\<close>

fun split_any :: "char set \<Rightarrow> string \<Rightarrow> string list" where
  "split_any seps [] = [[]]"
| "split_any seps (c # s) = (if c \<in> seps then [] # split_any seps s
     else case split_any seps s of w # ws \<Rightarrow> (c # w) # ws | [] \<Rightarrow> [[c]])"

definition trim_matches :: "char set \<Rightarrow> string \<Rightarrow> string" where
  "trim_matches cs s = rev (dropWhile (\<lambda>c. c \<in> cs) (rev (dropWhile (\<lambda>c. c \<in> cs) s)))"

text \<open>\<open>str::find\<close> of a pattern.\<close>

fun find_text :: "string \<Rightarrow> string \<Rightarrow> nat option" where
  "find_text p [] = (if p = [] then Some 0 else None)"
| "find_text p (x # xs) = (if starts_with (x # xs) p then Some 0 else map_option Suc (find_text p xs))"

definition normalize_hash :: "string \<Rightarrow> string option" where
  "normalize_hash input =
    (let v = trim_matches {CHR ''<'', CHR ''>'', CHR 0x22, CHR 0x27} (trim input) in
     if v = [] then None
     else let lower = to_lower v in
       case (case find_text ''/call/join/'' lower of
               Some index \<Rightarrow> Some (drop (index + length ''/call/join/'') v)
             | None \<Rightarrow> if starts_with lower ''http://'' \<or> starts_with lower ''https://'' then None else Some v) of
         None \<Rightarrow> None
       | Some v1 \<Rightarrow> (let v2 = takeWhile (\<lambda>c. c \<notin> {CHR ''?'', CHR ''#'', CHR ''/''}) v1;
                     v3 = trim_matches {CHR ''/''} (trim v2)
                 in if v3 = [] then None else Some v3))"

fun keep_first :: "string set \<Rightarrow> string list \<Rightarrow> string list" where
  "keep_first known [] = []"
| "keep_first known (x # xs) = (if x \<in> known then keep_first known xs else x # keep_first (insert x known) xs)"

definition parse_hashes :: "string \<Rightarrow> string list" where
  "parse_hashes raw = keep_first {} (List.map_filter normalize_hash
     (split_any {CHR '','', CHR '';'', CHR 0x0A, CHR 0x0D, CHR 0x09, CHR '' ''} raw))"

section \<open>Properties\<close>

text \<open>Two configuration flights at once: a worker whose request was answered without a configuration has
  completed its flight but keeps its guard, and dropping the guard, at the end of its session, ends the flight of
  another worker.\<close>

lemma two_config_flights:
  "let (a, f1) = flight_acquire \<lparr>cf_sent = False, cf_in_flight = False\<rparr>; f2 = delivery_complete False f1;
       (b, f3) = flight_acquire f2; f4 = flight_drop a f3; (c, f5) = flight_acquire f4
   in a \<and> b \<and> c"
  by (simp add: flight_acquire_def delivery_complete_def flight_drop_def)

lemma log_run_spec:
  assumes "sorted ts" "\<forall>t\<in>set ts. t + RECOVERY_LOG_INTERVAL_MS \<le> u64_max" "log_run ts g = (rs, g')"
  shows "sum_list (map snd rs) + lg_pending g' = lg_pending g + word_of_nat (length ts)
     \<and> sorted_wrt (\<lambda>x y. fst x + RECOVERY_LOG_INTERVAL_MS \<le> fst y) rs \<and> (\<forall>x\<in>set rs. lg_next g \<le> fst x \<and> fst x \<in> set ts)"
  using assms
proof (induction ts arbitrary: g rs)
  case (Cons t ts)
  obtain r g1 where o: "log_observe t g = (r, g1)" by force
  obtain rs1 g2 where l: "log_run ts g1 = (rs1, g2)" by force
  have e: "g' = g2" "rs = (case r of None \<Rightarrow> rs1 | Some n \<Rightarrow> (t, n) # rs1)" using Cons.prems(3) o l by auto
  note IH = Cons.IH [of g1 rs1]
  have IH: "sum_list (map snd rs1) + lg_pending g2 = lg_pending g1 + word_of_nat (length ts)"
      "sorted_wrt (\<lambda>x y. fst x + RECOVERY_LOG_INTERVAL_MS \<le> fst y) rs1" "\<forall>x\<in>set rs1. lg_next g1 \<le> fst x \<and> fst x \<in> set ts"
    using Cons.IH [of g1 rs1] Cons.prems(1,2) l e(1) by simp_all
  show ?case
  proof (cases r)
    case None
    hence g1: "lg_pending g1 = lg_pending g + 1" "lg_next g1 = lg_next g"
      using o by (auto simp: log_observe_def Let_def split: if_splits)
    show ?thesis using IH g1 e None by (auto simp: algebra_simps)
  next
    case (Some n)
    hence g1: "n = lg_pending g + 1" "lg_pending g1 = 0" "lg_next g \<le> t" "t + RECOVERY_LOG_INTERVAL_MS \<le> lg_next g1"
      using o Cons.prems(2) by (auto simp: log_observe_def Let_def sat_add_u64_def split: if_splits)
    show ?thesis using IH g1 e Some Cons.prems(1) by (auto simp: algebra_simps dest: order_trans)
  qed
qed simp

text \<open>The recovery log loses no attempt. Every attempt observed is counted in exactly one report or is still
  pending, and reports are at least ten seconds apart.\<close>

theorem recovery_log:
  assumes "sorted ts" "\<forall>t\<in>set ts. t + RECOVERY_LOG_INTERVAL_MS \<le> u64_max" "log_run ts new_log_gate = (rs, g)"
  shows "sum_list (map snd rs) + lg_pending g = word_of_nat (length ts)
     \<and> sorted_wrt (\<lambda>x y. fst x + RECOVERY_LOG_INTERVAL_MS \<le> fst y) rs"
  using log_run_spec [OF assms] by (simp add: new_log_gate_def)

lemma recovery_log_witness:
  "\<exists>g. log_run [1000, 2000, 12000] new_log_gate = ([(1000, 1), (12000, 2)], g) \<and> 1 + 2 + lg_pending g = (3 :: u64)"
proof -
  obtain g where r: "log_run [1000, 2000, 12000] new_log_gate = ([(1000, 1), (12000, 2)], g)"
    by (simp add: log_observe_def new_log_gate_def RECOVERY_LOG_INTERVAL_MS_def sat_add_u64_def u64_max_def)
  have "sorted [1000, 2000, 12000 :: nat]" "\<forall>t\<in>set [1000, 2000, 12000]. t + RECOVERY_LOG_INTERVAL_MS \<le> u64_max"
    by (simp_all add: RECOVERY_LOG_INTERVAL_MS_def u64_max_def)
  from recovery_log [OF this r] r show ?thesis by simp
qed

lemma pacer_run_spec:
  assumes "pacer_run xs p = (ts, p')"
  shows "sp_interval p' = sp_interval p \<and> sorted_wrt (\<lambda>a b. a + sp_interval p \<le> b) ts \<and> (\<forall>t\<in>set ts. sp_next p \<le> t)
    \<and> list_all2 (\<le>) (map fst (filter (\<lambda>x. \<not> snd x) xs)) ts"
  using assms
proof (induction xs arbitrary: p ts p')
  case (Cons x xs)
  obtain now c where x: "x = (now, c)" by force
  obtain ts1 p2 where r: "pacer_run xs (snd (pacer_wait now c p)) = (ts1, p2)" by force
  note IH = Cons.IH [OF r]
  show ?case
  proof (cases c)
    case True
    thus ?thesis using Cons.prems r IH x by (auto simp: pacer_wait_def)
  next
    case False
    hence "ts = max (sp_next p) now # ts1" "p' = p2" using Cons.prems r x by (auto simp: pacer_wait_def Let_def)
    thus ?thesis using IH r x False Cons.prems by (fastforce simp: pacer_wait_def Let_def)
  qed
qed simp

text \<open>Workers start one at a time. Whatever the requests, cancelled ones among them, the starts granted are at least
  one interval apart, each no earlier than its request, and a cancelled request takes no slot: the starts are those of
  the remaining requests alone.\<close>

theorem starts_are_paced:
  "sorted_wrt (\<lambda>a b. a + sp_interval p \<le> b) (fst (pacer_run xs p))
   \<and> list_all2 (\<le>) (map fst (filter (\<lambda>x. \<not> snd x) xs)) (fst (pacer_run xs p))
   \<and> pacer_run xs p = pacer_run (filter (\<lambda>x. \<not> snd x) xs) p"
proof -
  obtain ts p' where r: "pacer_run xs p = (ts, p')" by force
  have e: "pacer_run xs p = pacer_run (filter (\<lambda>x. \<not> snd x) xs) p"
    by (induction xs arbitrary: p) (auto simp: pacer_wait_def Let_def split: prod.splits)
  have "fst (pacer_run xs p) = ts" by (simp only: r fst_conv)
  thus ?thesis using pacer_run_spec [OF r] e by blast
qed

lemma split_any_clean: "w \<in> set (split_any seps s) \<Longrightarrow> set w \<inter> seps = {}"
  by (induction s arbitrary: w) (fastforce split: list.splits if_splits)+

lemma split_any_subset: "w \<in> set (split_any seps s) \<Longrightarrow> set w \<subseteq> set s"
  by (induction s arbitrary: w) (fastforce split: list.splits if_splits)+

lemma trim_matches_subset: "set (trim_matches cs s) \<subseteq> set s"
  unfolding trim_matches_def by (auto dest!: set_dropWhileD)

lemma trim_subset: "set (trim s) \<subseteq> set s"
  unfolding trim_def by (auto dest!: set_dropWhileD)

lemma trim_trim: "trim (trim s) = trim s"
proof -
  define t where "t = dropWhile is_space s"
  define r where "r = dropWhile is_space (rev t)"
  have "dropWhile is_space (rev r) = rev r"
  proof (cases "r = []")
    case False
    obtain x where "rev t = x @ r" by (metis r_def takeWhile_dropWhile_id)
    then have "t = rev r @ rev x" by (metis rev_append rev_rev_ident)
    then have "hd (rev r) = hd t" "t \<noteq> []" using False by simp_all
    moreover have "\<not> is_space (hd t)" using \<open>t \<noteq> []\<close> unfolding t_def by (rule hd_dropWhile)
    ultimately show ?thesis by (cases "rev r") simp_all
  qed simp
  moreover have "trim s = rev r" by (simp add: trim_def r_def t_def)
  ultimately show ?thesis by (simp add: trim_def r_def)
qed

lemma trim_matches_none: "set s \<inter> cs = {} \<Longrightarrow> trim_matches cs s = s"
proof -
  have d: "dropWhile (\<lambda>c. c \<in> cs) u = u" if "set u \<inter> cs = {}" for u
    using that by (cases u) auto
  show "set s \<inter> cs = {} \<Longrightarrow> trim_matches cs s = s" using d [of s] d [of "rev s"] by (simp add: trim_matches_def)
qed

lemma normalize_clean:
  assumes "normalize_hash w = Some h"
  shows "h \<noteq> [] \<and> trim h = h \<and> set h \<subseteq> set w - {CHR ''?'', CHR ''#'', CHR ''/''}"
proof -
  let ?v = "trim_matches {CHR ''<'', CHR ''>'', CHR 0x22, CHR 0x27} (trim w)"
  let ?P = "\<lambda>c. c \<notin> {CHR ''?'', CHR ''#'', CHR ''/''}"
  obtain n where h: "h = trim_matches {CHR ''/''} (trim (takeWhile ?P (drop n ?v)))" "h \<noteq> []"
  proof (cases "find_text ''/call/join/'' (to_lower ?v)")
    case None
    thus ?thesis using assms that [of 0] unfolding normalize_hash_def Let_def by (simp split: if_splits)
  next
    case (Some i)
    thus ?thesis using assms that [of "i + length ''/call/join/''"] unfolding normalize_hash_def Let_def by (simp split: if_splits)
  qed
  have "set h \<subseteq> set (takeWhile ?P (drop n ?v))"
    unfolding h(1) by (rule subset_trans [OF trim_matches_subset trim_subset])
  moreover have v: "set (takeWhile ?P (drop n ?v)) \<subseteq> set ?v - {CHR ''?'', CHR ''#'', CHR ''/''}"
    by (blast dest: set_takeWhileD in_set_dropD)
  moreover have "trim h = h"
  proof -
    have "set (trim (takeWhile ?P (drop n ?v))) \<inter> {CHR ''/''} = {}" using trim_subset v by blast
    then have "h = trim (takeWhile ?P (drop n ?v))" unfolding h(1) by (rule trim_matches_none)
    then show ?thesis by (simp add: trim_trim)
  qed
  moreover have "set ?v \<subseteq> set w" by (rule subset_trans [OF trim_matches_subset trim_subset])
  ultimately show ?thesis using h(2) by blast
qed

lemma keep_first_set: "distinct (keep_first k xs) \<and> set (keep_first k xs) = set xs - k"
  by (induction xs arbitrary: k) auto

text \<open>C35: the call hashes are well formed. Whatever text is configured, the list of hashes read from it has no duplicates, and no hash is empty, begins or
  ends with white space of any kind, or contains a separator (comma, semicolon, space, tab, line feed, carriage return) or a character that would
  start a query, a fragment or a path; every character of a hash is one of the text.\<close>

theorem parsed_hashes_clean:
  "distinct (parse_hashes raw) \<and> (\<forall>h\<in>set (parse_hashes raw). h \<noteq> [] \<and> trim h = h \<and> set h \<subseteq> set raw
     - {CHR '','', CHR '';'', CHR 0x0A, CHR 0x0D, CHR 0x09, CHR '' '', CHR ''?'', CHR ''#'', CHR ''/''})"
proof -
  let ?seps = "{CHR '','', CHR '';'', CHR 0x0A, CHR 0x0D, CHR 0x09, CHR '' ''}"
  have "h \<noteq> [] \<and> trim h = h \<and> set h \<subseteq> set raw - {CHR '','', CHR '';'', CHR 0x0A, CHR 0x0D, CHR 0x09, CHR '' '', CHR ''?'', CHR ''#'', CHR ''/''}"
    if h: "h \<in> set (parse_hashes raw)" for h
  proof -
    obtain w where w: "w \<in> set (split_any ?seps raw)" "normalize_hash w = Some h"
      using h unfolding parse_hashes_def keep_first_set [THEN conjunct2] by (auto simp: List.map_filter_def)
    thus ?thesis using split_any_clean [OF w(1)] split_any_subset [OF w(1)] normalize_clean [OF w(2)] by blast
  qed
  thus ?thesis using keep_first_set unfolding parse_hashes_def by blast
qed

lemma parsed_hashes_clean_witness:
  "distinct [''abc'', ''def''] \<and> parse_hashes ''abc, https://vk.com/call/join/def?x=1;abc'' = [''abc'', ''def'']"
proof
  show e: "parse_hashes ''abc, https://vk.com/call/join/def?x=1;abc'' = [''abc'', ''def'']" by code_simp
  show "distinct [''abc'', ''def'']"
    using parsed_hashes_clean [of "''abc, https://vk.com/call/join/def?x=1;abc''", THEN conjunct1] unfolding e .
qed

lemma idle_notified:
  "id_notified s \<le> id_notified (idle_step e s) \<and> (id_limit (idle_step e s) \<noteq> id_limit s \<longrightarrow> id_notified s < id_notified (idle_step e s))"
proof -
  have x: "id_notified s \<le> id_notified (idle_exit s) \<and> (id_limit (idle_exit s) \<noteq> id_limit s \<longrightarrow> id_notified s < id_notified (idle_exit s))" for s
    by (simp add: idle_exit_def notify_waiters_def)
  show ?thesis
    by (cases e) (use x [of s] in \<open>auto simp: idle_reset_def note_path_joined_def note_path_lost_def enter_def idle_exit_def note_uplink_def
      note_packet_def notify_waiters_def Let_def split: prod.splits\<close>)
qed

lemma gate_step_notified:
  "pg_notified (fst x) \<le> pg_notified (fst (gate_step e x)) \<and> id_notified (snd x) \<le> id_notified (snd (gate_step e x))
   \<and> (pg_paused (fst (gate_step e x)) \<noteq> pg_paused (fst x) \<or> id_limit (snd (gate_step e x)) \<noteq> id_limit (snd x) \<longrightarrow>
        pg_notified (fst x) + id_notified (snd x) < pg_notified (fst (gate_step e x)) + id_notified (snd (gate_step e x)))"
  by (cases x; cases e) (use idle_notified in \<open>auto simp: set_paused_def\<close>)

lemma gate_run_notified:
  "pg_notified (fst x) \<le> pg_notified (fst (fold gate_step es x)) \<and> id_notified (snd x) \<le> id_notified (snd (fold gate_step es x))
   \<and> (pg_paused (fst (fold gate_step es x)) \<noteq> pg_paused (fst x) \<or> id_limit (snd (fold gate_step es x)) \<noteq> id_limit (snd x) \<longrightarrow>
        pg_notified (fst x) + id_notified (snd x) < pg_notified (fst (fold gate_step es x)) + id_notified (snd (fold gate_step es x)))"
proof (induction es arbitrary: x)
  case (Cons e es)
  show ?case using gate_step_notified [of x e] Cons.IH [of "gate_step e x"] by simp linarith
qed simp

text \<open>C29: a resume is not lost. A worker that has registered for notifications, found its gate closed, and waits, is woken
  whenever its gate is open later: whatever happens to the pause and to idle mode between the registration and the look at the gate, and
  afterwards.\<close>

theorem resume_not_lost:
  assumes "wait_round s0 (fold gate_step es s0) worker cancelled = GateParked a b"
    "s2 = fold gate_step (es @ fs) s0" "gate_allows worker (fst s2) (snd s2)"
  shows "wait_wakes (GateParked a b) s2"
proof -
  let ?s1 = "fold gate_step es s0"
  have ab: "a = pg_notified (fst s0)" "b = id_notified (snd s0)" "\<not> gate_allows worker (fst ?s1) (snd ?s1)"
    using assms(1) by (auto simp: wait_round_def split: if_splits)
  have s2: "s2 = fold gate_step fs ?s1" using assms(2) by simp
  have "pg_paused (fst s2) \<noteq> pg_paused (fst ?s1) \<or> id_limit (snd s2) \<noteq> id_limit (snd ?s1)"
    using ab(3) assms(3) by (auto simp: gate_allows_def allows_def)
  thus ?thesis using gate_run_notified [of s0 es] gate_run_notified [of ?s1 fs] unfolding s2 wait_wakes_def ab(1,2) by simp
qed

lemma resume_not_lost_witness:
  "wait_wakes (GateParked 0 0) (\<lparr>pg_paused = False, pg_notified = 2\<rparr>, initial_idle)"
proof -
  let ?s = "(\<lparr>pg_paused = False, pg_notified = 0\<rparr>, initial_idle)"
  have r: "wait_round ?s (fold gate_step [GatePause True] ?s) 1 False = GateParked 0 0"
    by (simp add: wait_round_def set_paused_def gate_allows_def initial_idle_def)
  have e: "(\<lparr>pg_paused = False, pg_notified = 2\<rparr>, initial_idle) = fold gate_step ([GatePause True] @ [GatePause False]) ?s"
    by (simp add: set_paused_def)
  show ?thesis by (rule resume_not_lost [OF r e]) (simp add: gate_allows_def allows_def initial_idle_def usize_max_def)
qed

end
