(* ===== verification/SessionRun.thy ===== *)
theory SessionRun
  imports SessionProps WorkerControl TurnEndpoint
begin

text \<open>
  A session from its connection to its end (\<open>run_session\<close>, \<open>run_allocated_session\<close> and \<open>writer_loop\<close> of \<open>session.rs\<close>): what it
  registers with the rest of the engine and what it takes back, however it ends, a panic of its task and
  an abort included. Connecting and binding are the TURN driver's and their outcomes arguments; what other sessions do in
  the meantime is a list of operations.
\<close>

section \<open>What sessions share\<close>

record 'q session_world =
  sw_idle :: idle_state
  sw_store :: "'q dispatch_store"
  sw_workers :: "worker_channels list"
  sw_shutdown :: shutdown_state
  sw_repair :: "repair_slot list"
  sw_flight :: config_flight
  sw_active :: int
  sw_zero_notices :: nat
  sw_ready :: "nat list"

text \<open>\<open>ActiveConnection\<close>: its creation and its drop; the drop that reaches zero tells the host.\<close>

definition active_new :: "'q session_world \<Rightarrow> 'q session_world" where
  "active_new w = w\<lparr>sw_active := sw_active w + 1\<rparr>"

definition active_drop :: "'q session_world \<Rightarrow> 'q session_world" where
  "active_drop w = w\<lparr>sw_active := sw_active w - 1, sw_zero_notices := sw_zero_notices w + (if sw_active w = 1 then 1 else 0)\<rparr>"

text \<open>Other sessions joining and leaving, and packets moving through the queues.\<close>

datatype 'q world_op = OtherJoins worker_channels nat | OtherLeaves nat nat | OtherTraffic "'q dispatch_store" | OtherIdle idle_state

fun world_step :: "'q world_op \<Rightarrow> 'q session_world \<Rightarrow> 'q session_world" where
  "world_step (OtherJoins c writer) w = active_new (w\<lparr>sw_workers := register c (sw_workers w),
     sw_shutdown := sd_register (wc_incarnation c) writer (sw_shutdown w)\<rparr>)"
| "world_step (OtherLeaves i incarnation) w = active_drop (w\<lparr>sw_workers := unregister i incarnation (sw_workers w),
     sw_shutdown := sd_unregister incarnation (sw_shutdown w)\<rparr>)"
| "world_step (OtherTraffic d) w = w\<lparr>sw_store := d\<rparr>"
| "world_step (OtherIdle s) w = w\<lparr>sw_idle := s\<rparr>"

section \<open>The allocated session\<close>

text \<open>A session's worker enters: its writer is known to the shutdown, its queues to the dispatcher, and the host is told.\<close>

definition enter_session :: "session_config \<Rightarrow> worker_channels \<Rightarrow> nat \<Rightarrow> 'q session_world \<Rightarrow> 'q session_world" where
  "enter_session cfg wc writer w = active_new (w\<lparr>sw_shutdown := sd_register (wc_incarnation wc) writer (sw_shutdown w),
     sw_workers := register wc (sw_workers w), sw_ready := sw_ready w @ [sc_id cfg], sw_repair := mark_ready (sc_id cfg) (sw_repair w)\<rparr>)"

text \<open>The guards of the session, dropped in the reverse order of their creation.\<close>

definition leave_session :: "session_config \<Rightarrow> worker_channels \<Rightarrow> 'q session_world \<Rightarrow> 'q session_world" where
  "leave_session cfg wc w = (let w1 = active_drop w in w1\<lparr>sw_workers := unregister (sc_id cfg) (wc_incarnation wc) (sw_workers w1),
     sw_shutdown := sd_unregister (wc_incarnation wc) (sw_shutdown w1)\<rparr>)"

datatype session_failure = NoServers | NoAddress | NoPath path_error | ConnectError "string list" | ChannelError "string list"
  | CipherError | HandshakeError session_error | LoopError "string list" | TaskError

text \<open>How the task of the session ends: it returns, or it panics or is aborted, before it entered or after.\<close>

datatype task_end = TaskReturns | TaskPanics bool | TaskAborted bool

record 'q session_env =
  se_servers :: "string list"
  se_attempts :: "config_attempt list"
  se_guard :: bool
  se_cipher :: bool
  se_channels :: worker_channels
  se_writer :: nat
  se_meanwhile :: "'q world_op list"
  se_events :: "session_event list"
  se_task :: task_end

definition complete_delivery :: "'q session_env \<Rightarrow> bool \<Rightarrow> 'q session_world \<Rightarrow> 'q session_world" where
  "complete_delivery env given w = (if se_guard env then w\<lparr>sw_flight := delivery_complete given (sw_flight w)\<rparr> else w)"

text \<open>The exchange that precedes everything else; its effects on the shared state.\<close>

definition configured :: "session_config \<Rightarrow> 'q session_env \<Rightarrow> 'q session_world \<Rightarrow> (session_failure + bool) \<times> 'q session_world" where
  "configured cfg env w = (let h = request_configuration cfg (se_attempts env);
       w1 = (case hs_joined h of Some offset \<Rightarrow> w\<lparr>sw_idle := note_path_joined (sc_id cfg) offset (sw_idle w)\<rparr> | None \<Rightarrow> w) in
     case hs_result h of
       Inl e \<Rightarrow> (Inl (HandshakeError e), complete_delivery env False w1)
     | Inr given \<Rightarrow> (let d = sc_get_config cfg \<and> given in (Inr d, complete_delivery env d w1)))"

text \<open>The body after entering: the loop, and what follows it. \<open>None\<close>: no event of the list ends it.\<close>

definition session_body :: "(packet_buf, 'q) pq_ops \<Rightarrow> session_config \<Rightarrow> 'q session_env \<Rightarrow> 'q session_world
    \<Rightarrow> (session_failure + unit) option \<times> 'q session_world" where
  "session_body ops cfg env w = (case session_loop cfg (se_events env) [] (sw_idle w) of
     (None, sent, idle) \<Rightarrow> (None, w\<lparr>sw_idle := idle\<rparr>)
   | (Some (r, completed), sent, idle) \<Rightarrow>
       (let (idle1, store1) = session_finish ops cfg (se_channels env) (sw_workers w) r (idle, sw_store w)
        in (Some (case r of Inl e \<Rightarrow> Inl (LoopError e) | Inr u \<Rightarrow> Inr ()), w\<lparr>sw_idle := idle1, sw_store := store1\<rparr>)))"

definition run_allocated_session :: "(packet_buf, 'q) pq_ops \<Rightarrow> session_config \<Rightarrow> 'q session_env \<Rightarrow> 'q session_world
    \<Rightarrow> (session_failure + bool) option \<times> 'q session_world" where
  "run_allocated_session ops cfg env w =
    (let in_session = (\<lambda>w. fold world_step (se_meanwhile env) (enter_session cfg (se_channels env) (se_writer env) w)) in
     if se_task env = TaskPanics False then (Some (Inl TaskError), w)
     else if se_task env = TaskAborted False then (Some (Inr False), w)
     else if \<not> se_cipher env then (Some (Inl CipherError), w)
     else case configured cfg env w of
       (Inl e, w1) \<Rightarrow> (Some (Inl e), w1)
     | (Inr given, w1) \<Rightarrow> (case se_task env of
         TaskPanics b \<Rightarrow> (Some (Inl TaskError), leave_session cfg (se_channels env) (in_session w1))
       | TaskAborted b \<Rightarrow> (Some (Inr False), leave_session cfg (se_channels env) (in_session w1))
       | TaskReturns \<Rightarrow> (case session_body ops cfg env (in_session w1) of
           (None, w2) \<Rightarrow> (None, w2)
         | (Some r, w2) \<Rightarrow> (Some (case r of Inl e \<Rightarrow> Inl e | Inr u \<Rightarrow> Inr given), leave_session cfg (se_channels env) w2))))"

section \<open>The whole session\<close>

text \<open>The life of the allocation: created, deallocated with the relay's knowledge (within a time limit), or just dropped.\<close>

datatype alloc_action = Allocated | Deallocated | DroppedAllocation

datatype connect_end = Connected | ConnectFails "string list" | ConnectCancelled bool | ConnectRebound

datatype channel_end = ChannelBound | ChannelFails "string list" | ChannelCancelled

text \<open>A cancelled connect that succeeds within the grace period is deallocated.\<close>

definition run_session :: "(packet_buf, 'q) pq_ops \<Rightarrow> session_config \<Rightarrow> 'q session_env \<Rightarrow> connect_end \<Rightarrow> channel_end \<Rightarrow> 'q session_world
    \<Rightarrow> (session_failure + bool) option \<times> alloc_action list \<times> 'q session_world" where
  "run_session ops cfg env connect binding w =
    (if se_servers env = [] then (Some (Inl NoServers), [], w)
     else case select_turn_address (se_servers env) cfg of None \<Rightarrow> (Some (Inl NoAddress), [], w)
     | Some address \<Rightarrow> (case turn_path_key address cfg of Inl e \<Rightarrow> (Some (Inl (NoPath e)), [], w)
     | Inr path \<Rightarrow> (case connect of
         ConnectFails e \<Rightarrow> (Some (Inl (ConnectError e)), [], w)
       | ConnectCancelled late \<Rightarrow> (Some (Inr False), if late then [Allocated, Deallocated] else [], w)
       | ConnectRebound \<Rightarrow> (Some (Inl (LoopError [''NET_REBIND''])), [], w)
       | Connected \<Rightarrow> (case binding of
           ChannelFails e \<Rightarrow> (Some (Inl (ChannelError e)), [Allocated, Deallocated], w)
         | ChannelCancelled \<Rightarrow> (Some (Inr False), [Allocated, Deallocated], w)
         | ChannelBound \<Rightarrow> (case run_allocated_session ops cfg (env\<lparr>se_channels := (se_channels env)\<lparr>wc_path := path\<rparr>\<rparr>) w of
             (None, w1) \<Rightarrow> (None, [Allocated], w1)
           | (Some r, w1) \<Rightarrow> (Some r, [Allocated, if (case r of Inl (LoopError e) \<Rightarrow> contains ''NET_REBIND'' (error_text e) | _ \<Rightarrow> False)
               then DroppedAllocation else Deallocated], w1))))))"

section \<open>The writer\<close>

text \<open>A round of \<open>writer_loop\<close>: a command that is already there, what arrives while it waits, and what ends the wait.\<close>

datatype writer_wait = WwCancelled | WwCommand "bytes option" | WwQueue traffic_class

record writer_input =
  wi_command :: "bytes option"
  wi_pushed :: "(traffic_class \<times> packet_buf) list"
  wi_wait :: writer_wait
  wi_envs :: "write_env list"
  wi_fresh :: bytes
  wi_cancelled :: bool

record ('q, 'b) writer_state =
  ws_writer :: transport_writer
  ws_queues :: "'q session_queues"
  ws_pool :: "'b packet_pool"
  ws_shutdown :: shutdown_state
  ws_answers :: "(write_error + unit) list"

definition push_queue :: "('p, 'q) pq_ops \<Rightarrow> traffic_class \<times> 'p \<Rightarrow> 'q session_queues \<Rightarrow> 'q session_queues" where
  "push_queue ops = (\<lambda>(c, p) q. wq_set c (snd (try_send ops p (wq_get c q))) q)"

definition queues_closed :: "('p, 'q) pq_ops \<Rightarrow> 'q session_queues \<Rightarrow> bool" where
  "queues_closed ops q \<longleftrightarrow> is_closed ops (wq_latency q) \<and> is_closed ops (wq_priority q) \<and> is_closed ops (wq_bulk q)"

definition handle_command :: "transport_shared \<Rightarrow> (bytes, 'b) queue_ops \<Rightarrow> writer_input \<Rightarrow> bytes \<Rightarrow> ('q, 'b) writer_state \<Rightarrow> ('q, 'b) writer_state" where
  "handle_command tp bops i data s = (case send_bytes tp bops (wi_fresh i) (hd (wi_envs i)) data (ws_writer s, ws_pool s) of
     (r, tw, pool) \<Rightarrow> s\<lparr>ws_writer := tw, ws_pool := pool, ws_answers := ws_answers s @ [r]\<rparr>)"

definition send_next :: "(packet_buf, 'q) pq_ops \<Rightarrow> transport_shared \<Rightarrow> nat \<Rightarrow> writer_input \<Rightarrow> packet_buf \<times> traffic_class \<Rightarrow> ('q, 'b) writer_state
    \<Rightarrow> (write_error + unit) option \<times> ('q, 'b) writer_state" where
  "send_next ops tp incarnation i next s = (case send_writer_batch ops tp (wi_envs i) next (ws_writer s, ws_queues s) of
     (Inl e, tw, q) \<Rightarrow> (Some (Inl e), s\<lparr>ws_writer := tw, ws_queues := q\<rparr>)
   | (Inr n, tw, q) \<Rightarrow> (None, s\<lparr>ws_writer := tw, ws_queues := q,
       ws_shutdown := (if n \<noteq> 0 then mark_activity incarnation (ws_shutdown s) else ws_shutdown s)\<rparr>))"

text \<open>The first component is the end of the loop, if the round ends it.\<close>

definition writer_round :: "(packet_buf, 'q) pq_ops \<Rightarrow> (bytes, 'b) queue_ops \<Rightarrow> transport_shared \<Rightarrow> nat \<Rightarrow> writer_input \<Rightarrow> ('q, 'b) writer_state
    \<Rightarrow> (write_error + unit) option \<times> ('q, 'b) writer_state" where
  "writer_round ops bops tp incarnation i s = (case wi_command i of
     Some data \<Rightarrow> (None, handle_command tp bops i data s)
   | None \<Rightarrow> (case next_writer_packet ops (ws_queues s) of
       (Some next, q) \<Rightarrow> send_next ops tp incarnation i next (s\<lparr>ws_queues := q\<rparr>)
     | (None, q) \<Rightarrow>
         if queues_closed ops q then (Some (Inr ()), s\<lparr>ws_queues := q\<rparr>)
         else let s1 = s\<lparr>ws_queues := fold (push_queue ops) (wi_pushed i) q\<rparr> in
           (case wi_wait i of
              WwCancelled \<Rightarrow> (Some (Inr ()), s1)
            | WwCommand (Some data) \<Rightarrow> (None, handle_command tp bops i data s1)
            | WwCommand None \<Rightarrow> (None, s1)
            | WwQueue c \<Rightarrow> (case wq_recv ops c (ws_queues s1) of
                (Some p, q1) \<Rightarrow> send_next ops tp incarnation i (p, c) (s1\<lparr>ws_queues := q1\<rparr>)
              | (None, q1) \<Rightarrow> (if wi_cancelled i \<or> queues_closed ops q1 then Some (Inr ()) else None, s1\<lparr>ws_queues := q1\<rparr>)))))"

fun writer_loop :: "(packet_buf, 'q) pq_ops \<Rightarrow> (bytes, 'b) queue_ops \<Rightarrow> transport_shared \<Rightarrow> nat \<Rightarrow> writer_input list \<Rightarrow> ('q, 'b) writer_state
    \<Rightarrow> (write_error + unit) option \<times> ('q, 'b) writer_state" where
  "writer_loop ops bops tp incarnation [] s = (None, s)"
| "writer_loop ops bops tp incarnation (i # is) s = (case writer_round ops bops tp incarnation i s of
     (None, s1) \<Rightarrow> writer_loop ops bops tp incarnation is s1 | r \<Rightarrow> r)"

section \<open>A session takes back what it registered\<close>

definition absent :: "nat \<Rightarrow> 'q session_world \<Rightarrow> bool" where
  "absent inc w \<longleftrightarrow> (\<forall>v\<in>set (sw_workers w). wc_incarnation v \<noteq> inc) \<and> (\<forall>c\<in>set (sd_streams (sw_shutdown w)). ct_incarnation c \<noteq> inc)"

text \<open>Only the worker of this session, under its id, may carry the incarnation.\<close>

definition only_own :: "nat \<Rightarrow> nat \<Rightarrow> 'q session_world \<Rightarrow> bool" where
  "only_own i inc w \<longleftrightarrow> (\<forall>v\<in>set (sw_workers w). wc_incarnation v = inc \<longrightarrow> wc_id v = i)"

fun others_net :: "'q world_op list \<Rightarrow> int" where
  "others_net [] = 0"
| "others_net (OtherJoins c k # ops) = 1 + others_net ops"
| "others_net (OtherLeaves i k # ops) = others_net ops - 1"
| "others_net (op # ops) = others_net ops"

definition foreign :: "nat \<Rightarrow> 'q world_op \<Rightarrow> bool" where
  "foreign inc op = (case op of OtherJoins c k \<Rightarrow> wc_incarnation c \<noteq> inc | _ \<Rightarrow> True)"

lemma set_register [simp]: "set (register c ws) = insert c (set (filter (\<lambda>w. wc_id w \<noteq> wc_id c) ws))"
  by (auto simp: register_def)

lemma set_unregister [simp]: "set (unregister i inc ws) = set (filter (\<lambda>w. wc_id w \<noteq> i \<or> wc_incarnation w \<noteq> inc) ws)"
  by (simp add: unregister_def)

lemma active_simps [simp]:
  "sw_workers (active_new w) = sw_workers w" "sw_workers (active_drop w) = sw_workers w"
  "sw_shutdown (active_new w) = sw_shutdown w" "sw_shutdown (active_drop w) = sw_shutdown w"
  "sw_active (active_new w) = sw_active w + 1" "sw_active (active_drop w) = sw_active w - 1"
  by (simp_all add: active_new_def active_drop_def)

lemma world_steps_own:
  "only_own i inc w \<Longrightarrow> list_all (foreign inc) ops \<Longrightarrow> only_own i inc (fold world_step ops w)
    \<and> sw_active (fold world_step ops w) = sw_active w + others_net ops"
proof (induction ops arbitrary: w)
  case (Cons op ops)
  have "only_own i inc (world_step op w)" using Cons.prems by (cases op) (auto simp: only_own_def foreign_def)
  then show ?case using Cons.IH [of "world_step op w"] Cons.prems(2) by (cases op) auto
qed simp

lemma left_absent:
  assumes "only_own (sc_id cfg) (wc_incarnation wc) w"
  shows "absent (wc_incarnation wc) (leave_session cfg wc w)" "sw_active (leave_session cfg wc w) = sw_active w - 1"
  using assms by (auto simp: absent_def only_own_def leave_session_def Let_def sd_unregister_def)

lemma entered_own:
  assumes "absent (wc_incarnation wc) w" "wc_id wc = i"
  shows "only_own i (wc_incarnation wc) (enter_session cfg wc k w)" "sw_active (enter_session cfg wc k w) = sw_active w + 1"
  using assms by (auto simp: absent_def only_own_def enter_session_def)

lemma configured_keeps:
  "configured cfg env w = (r, w1) \<Longrightarrow> sw_workers w1 = sw_workers w \<and> sw_shutdown w1 = sw_shutdown w \<and> sw_active w1 = sw_active w"
  by (auto simp: configured_def complete_delivery_def Let_def split: option.splits sum.splits if_splits)

lemma body_keeps:
  "session_body ops cfg env w = (r, w1) \<Longrightarrow> sw_workers w1 = sw_workers w \<and> sw_active w1 = sw_active w"
  by (auto simp: session_body_def Let_def split: option.splits prod.splits)

text \<open>What the allocated session leaves: nothing of its own, in every case in which it ends.\<close>

lemma allocated_session_leaves:
  assumes run: "run_allocated_session ops cfg env w = (Some r, w')"
    and absent: "absent (wc_incarnation (se_channels env)) w" and i: "wc_id (se_channels env) = sc_id cfg"
    and foreign: "list_all (foreign (wc_incarnation (se_channels env))) (se_meanwhile env)"
  shows "absent (wc_incarnation (se_channels env)) w' \<and> (sw_active w' = sw_active w \<or> sw_active w' = sw_active w + others_net (se_meanwhile env))"
proof -
  let ?inc = "wc_incarnation (se_channels env)"
  obtain c w1 where c: "configured cfg env w = (c, w1)" by force
  note keep = configured_keeps [OF c]
  have a1: "absent ?inc w1" "sw_active w1 = sw_active w" using absent keep by (simp_all add: absent_def)
  define w2 where "w2 = fold world_step (se_meanwhile env) (enter_session cfg (se_channels env) (se_writer env) w1)"
  have w2: "only_own (sc_id cfg) ?inc w2" "sw_active w2 = sw_active w + 1 + others_net (se_meanwhile env)"
    using world_steps_own [OF entered_own(1) [OF a1(1) i] foreign] entered_own(2) [OF a1(1) i] a1(2) by (simp_all add: w2_def)
  have left: "absent ?inc (leave_session cfg (se_channels env) v) \<and> sw_active (leave_session cfg (se_channels env) v) = sw_active w + others_net (se_meanwhile env)"
    if "sw_workers v = sw_workers w2" "sw_active v = sw_active w2" for v
    using left_absent [of cfg "se_channels env" v] w2 that by (simp add: only_own_def)
  show ?thesis
  proof (cases "se_task env = TaskPanics False \<or> se_task env = TaskAborted False \<or> \<not> se_cipher env \<or> (\<exists>e. c = Inl e)")
    case True
    then have "w' = w \<or> w' = w1" using run c by (auto simp: run_allocated_session_def split: if_splits)
    then show ?thesis using absent a1 by auto
  next
    case False
    then obtain d where d: "c = Inr d" by (cases c) auto
    show ?thesis
    proof (cases "se_task env")
      case TaskReturns
      obtain b w3 where b: "session_body ops cfg env w2 = (b, w3)" by force
      then have "w' = leave_session cfg (se_channels env) w3" using run c d False TaskReturns
        by (auto simp: run_allocated_session_def w2_def split: option.splits)
      then show ?thesis using left [of w3] body_keeps [OF b] by simp
    next
      case (TaskPanics x)
      then have "w' = leave_session cfg (se_channels env) w2" using run c d False by (auto simp: run_allocated_session_def w2_def)
      then show ?thesis using left [of w2] by simp
    next
      case (TaskAborted x)
      then have "w' = leave_session cfg (se_channels env) w2" using run c d False by (auto simp: run_allocated_session_def w2_def)
      then show ?thesis using left [of w2] by simp
    qed
  qed
qed

text \<open>C8: A session leaves nothing behind. However it ends (no relay, a failed or cancelled connect, a refused handshake, an error, a
  panic of its task, an abort), its worker is no longer registered with the dispatcher, its writer is no longer known to the
  shutdown, the count of active paths is back to what other sessions make it, and an allocation it obtained is given up: it is
  deallocated, unless the network changed, when it is only dropped.\<close>

theorem session_leaves_nothing:
  assumes run: "run_session ops cfg env connect binding w = (Some r, actions, w')"
    and absent: "absent inc w" and own: "wc_id (se_channels env) = sc_id cfg" "wc_incarnation (se_channels env) = inc"
    and foreign: "list_all (foreign inc) (se_meanwhile env)"
  shows "absent inc w' \<and> (sw_active w' = sw_active w \<or> sw_active w' = sw_active w + others_net (se_meanwhile env))
    \<and> (actions = [] \<or> actions = [Allocated, Deallocated]
      \<or> actions = [Allocated, DroppedAllocation] \<and> (\<exists>e. r = Inl (LoopError e) \<and> contains ''NET_REBIND'' (error_text e)))"
proof (cases "\<exists>path. run_allocated_session ops cfg (env\<lparr>se_channels := (se_channels env)\<lparr>wc_path := path\<rparr>\<rparr>) w = (Some r, w')
    \<and> actions = [Allocated, if (case r of Inl (LoopError e) \<Rightarrow> contains ''NET_REBIND'' (error_text e) | _ \<Rightarrow> False)
        then DroppedAllocation else Deallocated]")
  case True
  then obtain path where p: "run_allocated_session ops cfg (env\<lparr>se_channels := (se_channels env)\<lparr>wc_path := path\<rparr>\<rparr>) w = (Some r, w')"
    "actions = [Allocated, if (case r of Inl (LoopError e) \<Rightarrow> contains ''NET_REBIND'' (error_text e) | _ \<Rightarrow> False) then DroppedAllocation else Deallocated]"
    by blast
  show ?thesis using allocated_session_leaves [OF p(1)] absent own foreign p(2) by (auto split: sum.splits session_failure.splits)
next
  case False
  then have "w' = w \<and> (actions = [] \<or> actions = [Allocated, Deallocated])" using run
    by (auto simp: run_session_def split: if_splits option.splits sum.splits connect_end.splits channel_end.splits prod.splits)
  then show ?thesis using absent by auto
qed

lemma run_allocated_returns:
  assumes "se_task env = TaskReturns" "se_cipher env" "configured cfg env w = (Inr d, w1)"
    and "session_body ops cfg env (fold world_step (se_meanwhile env) (enter_session cfg (se_channels env) (se_writer env) w1)) = (Some r, w2)"
  shows "run_allocated_session ops cfg env w = (Some (case r of Inl e \<Rightarrow> Inl e | Inr u \<Rightarrow> Inr d), leave_session cfg (se_channels env) w2)"
  using assms by (simp add: run_allocated_session_def Let_def)

text \<open>A session that gets no configuration, enters, and ends when the network changes; another session joins meanwhile.\<close>

definition sample_session :: "(packet_buf queued_packet) list_queue session_env" where
  "sample_session = \<lparr>se_servers = [''turn:relay.example:3478?transport=tcp''], se_attempts = [sample_attempt [(20, Got (ascii ''NOCONF''))]],
     se_guard = True, se_cipher = True, se_channels = sample_worker 3 8 ''p'', se_writer = 1,
     se_meanwhile = [OtherJoins (sample_worker 4 9 ''q'') 2], se_events = [SevAnnounce True, SevRebind], se_task = TaskReturns\<rparr>"

definition sample_world :: "(packet_buf queued_packet) list_queue session_world" where
  "sample_world = \<lparr>sw_idle = initial_idle, sw_store = \<lparr>ds_queue = (\<lambda>a. packet_channel list_queue_ops 4 True), ds_healthy = (\<lambda>a. True)\<rparr>,
     sw_workers = [], sw_shutdown = new_shutdown, sw_repair = [], sw_flight = \<lparr>cf_sent = False, cf_in_flight = True\<rparr>, sw_active = 0,
     sw_zero_notices = 0, sw_ready = []\<rparr>"

lemma sample_configured: "\<exists>w1. configured sample_config (sample_session\<lparr>se_channels := c\<rparr>) sample_world = (Inr False, w1)"
proof -
  have n: "\<not> is_panel_restart_notice (ascii ''NOCONF'')" "is_config_response (ascii ''NOCONF'')"
    by (simp_all add: is_panel_restart_notice_def PANEL_RESTART_NOTICE_def is_config_response_def ascii_def starts_with_def)
  have "parse_config_response (ascii ''NOCONF'') = Inr NoConfig" by (simp add: parse_config_response_def ascii_def)
  then have "hs_result (request_configuration sample_config [sample_attempt [(20, Got (ascii ''NOCONF''))]]) = Inr False"
    using n by (simp add: request_configuration_def CONFIG_RESPONSE_TIMEOUT_MS_def sample_attempt_def accept_response_def Let_def split: prod.splits)
  then show ?thesis by (simp add: configured_def sample_session_def Let_def)
qed

lemma sample_body: "\<exists>w1. session_body ops cfg (sample_session\<lparr>se_channels := c\<rparr>) w = (Some (Inl (LoopError [''NET_REBIND''])), w1)"
  by (auto simp: session_body_def sample_session_def Let_def split: prod.splits)

lemma session_leaves_nothing_witness:
  "\<exists>w'. run_session list_queue_ops sample_config sample_session Connected ChannelBound sample_world
     = (Some (Inl (LoopError [''NET_REBIND''])), [Allocated, DroppedAllocation], w') \<and> absent 8 w' \<and> (sw_active w' = 0 \<or> sw_active w' = 1)"
proof -
  have s: "select_turn_address [''turn:relay.example:3478?transport=tcp''] sample_config = Some ''turn:relay.example:3478?transport=tcp''"
    "turn_path_key ''turn:relay.example:3478?transport=tcp'' sample_config = Inr ''relay.example:3478''"
    "contains ''NET_REBIND'' (error_text [''NET_REBIND''])" by code_simp+
  let ?env = "sample_session\<lparr>se_channels := (se_channels sample_session)\<lparr>wc_path := ''relay.example:3478''\<rparr>\<rparr>"
  obtain w1 where w1: "configured sample_config ?env sample_world = (Inr False, w1)" using sample_configured by blast
  obtain w2 where w2: "session_body list_queue_ops sample_config ?env
      (fold world_step (se_meanwhile ?env) (enter_session sample_config (se_channels ?env) (se_writer ?env) w1))
      = (Some (Inl (LoopError [''NET_REBIND''])), w2)" using sample_body by blast
  have t: "se_task ?env = TaskReturns" "se_cipher ?env" "se_servers sample_session = [''turn:relay.example:3478?transport=tcp'']"
    by (simp_all add: sample_session_def)
  have "run_allocated_session list_queue_ops sample_config ?env sample_world
      = (Some (Inl (LoopError [''NET_REBIND''])), leave_session sample_config (se_channels ?env) w2)"
    using run_allocated_returns [OF t(1,2) w1 w2] by simp
  then obtain w' where run: "run_session list_queue_ops sample_config sample_session Connected ChannelBound sample_world
      = (Some (Inl (LoopError [''NET_REBIND''])), [Allocated, DroppedAllocation], w')"
    unfolding run_session_def t by (simp add: s)
  have h: "absent 8 sample_world" "wc_id (se_channels sample_session) = sc_id sample_config"
    "wc_incarnation (se_channels sample_session) = 8" "list_all (foreign 8) (se_meanwhile sample_session)"
    by (simp_all add: absent_def sample_world_def new_shutdown_def sample_session_def sample_config_def sample_worker_def foreign_def)
  have "absent 8 w'" "sw_active w' = 0 \<or> sw_active w' = 0 + others_net (se_meanwhile sample_session)"
    using session_leaves_nothing [OF run h] by (simp_all add: sample_world_def)
  then show ?thesis using run by (simp add: sample_session_def)
qed

end
