(* ===== verification/NetworkWatch.thy ===== *)
theory NetworkWatch
  imports BoundedQueue
begin

text \<open>
  The watchers around the packet engine: the wake epoch of \<open>wake.rs\<close>, the rebind epoch and the stall
  detector of \<open>rebind.rs\<close>, the deduplicated notices of \<open>events.rs\<close> and the ticks of \<open>stats.rs\<close>. Times
  are milliseconds of the monotonic clock; a waiting future is a notification counter.
\<close>

section \<open>Wake-ups\<close>

definition SUSPEND_THRESHOLD :: nat where "SUSPEND_THRESHOLD = 20000"

record wake_epoch =
  we_epoch :: u64
  we_last_gap :: nat
  we_notified :: nat

definition wake_signal :: "nat \<Rightarrow> wake_epoch \<Rightarrow> wake_epoch" where
  "wake_signal gap w = \<lparr>we_epoch = we_epoch w + 1, we_last_gap = min gap u64_max, we_notified = we_notified w + 1\<rparr>"

definition suspend_gap :: "nat \<Rightarrow> nat \<Rightarrow> nat" where
  "suspend_gap mono_elapsed boot_elapsed = boot_elapsed - mono_elapsed"

text \<open>A round of the monitor with the two clock readings; the state holds the previous ones.\<close>

definition wake_round :: "nat \<Rightarrow> nat \<Rightarrow> (nat \<times> nat) \<times> wake_epoch \<Rightarrow> (nat \<times> nat) \<times> wake_epoch" where
  "wake_round now_mono now_boot st = (case st of ((last_mono, last_boot), w) \<Rightarrow>
    (let gap = suspend_gap (now_mono - last_mono) (now_boot - last_boot)
     in ((now_mono, now_boot), if SUSPEND_THRESHOLD \<le> gap then wake_signal gap w else w)))"

section \<open>Rebind and stalls\<close>

record rebind_epoch =
  rb_epoch :: u64
  rb_notified :: nat

definition rebind_request :: "rebind_epoch \<Rightarrow> rebind_epoch" where
  "rebind_request r = \<lparr>rb_epoch = rb_epoch r + 1, rb_notified = rb_notified r + 1\<rparr>"

definition rebind_requested :: "u64 \<Rightarrow> rebind_epoch \<Rightarrow> bool" where
  "rebind_requested observed r \<longleftrightarrow> rb_epoch r \<noteq> observed"

definition STALL_POLLS :: nat where "STALL_POLLS = 3"
definition STALL_MIN_UPLINK_DELTA :: int where "STALL_MIN_UPLINK_DELTA = 4096"
definition PROBE_MIN_GAP :: nat where "PROBE_MIN_GAP = 20000"

definition i64_saturating_sub :: "int \<Rightarrow> int \<Rightarrow> int" where
  "i64_saturating_sub a b = max (- (2 ^ 63)) (min (2 ^ 63 - 1) (a - b))"

record stall_detector =
  sl_up :: int
  sl_down :: int
  sl_polls :: nat
  sl_probe :: "nat option"

definition new_stall_detector :: "int \<Rightarrow> int \<Rightarrow> stall_detector" where
  "new_stall_detector up down = \<lparr>sl_up = up, sl_down = down, sl_polls = 0, sl_probe = None\<rparr>"

definition stall_observe :: "int \<Rightarrow> int \<Rightarrow> nat \<Rightarrow> stall_detector \<Rightarrow> bool \<times> stall_detector" where
  "stall_observe up down now d =
    (let up_moved = (STALL_MIN_UPLINK_DELTA \<le> i64_saturating_sub up (sl_up d));
         down_moved = (down \<noteq> sl_down d);
         d1 = d\<lparr>sl_up := up, sl_down := down\<rparr>
     in if down_moved \<or> \<not> up_moved then (False, d1\<lparr>sl_polls := 0\<rparr>)
        else let d2 = d1\<lparr>sl_polls := sl_polls d1 + 1\<rparr> in
          if sl_polls d2 < STALL_POLLS then (False, d2)
          else if (case sl_probe d2 of None \<Rightarrow> False | Some previous \<Rightarrow> now - previous < PROBE_MIN_GAP) then (False, d2)
          else (True, d2\<lparr>sl_probe := Some now, sl_polls := 0\<rparr>))"

text \<open>A round of \<open>stall_monitor\<close>: with no active path the counters are not looked at; a probe is a wake
  signal without a gap.\<close>

record stall_poll =
  sp_active :: int
  sp_up :: int
  sp_down :: int
  sp_now :: nat

definition stall_round :: "stall_poll \<Rightarrow> stall_detector \<times> wake_epoch \<Rightarrow> bool \<times> stall_detector \<times> wake_epoch" where
  "stall_round p st = (case st of (d, w) \<Rightarrow>
     if sp_active p \<le> 0 then (False, d, w)
     else (case stall_observe (sp_up p) (sp_down p) (sp_now p) d of
       (True, d1) \<Rightarrow> (True, d1, wake_signal 0 w)
     | (False, d1) \<Rightarrow> (False, d1, w)))"

fun stall_run :: "stall_poll list \<Rightarrow> stall_detector \<times> wake_epoch \<Rightarrow> bool list \<times> stall_detector \<times> wake_epoch" where
  "stall_run [] st = ([], st)"
| "stall_run (p # ps) st = (case stall_round p st of (b, st1) \<Rightarrow> (case stall_run ps st1 of (bs, st2) \<Rightarrow> (b # bs, st2)))"

section \<open>Notices\<close>

definition NETWORK_TIMEOUT_BURST_WINDOW :: nat where "NETWORK_TIMEOUT_BURST_WINDOW = 15000"

datatype notice = ServerRestart | NetworkSuspect | CallUnavailable string int | StatsNotice int int int | Progress string

record events =
  ev_enabled :: bool
  ev_panel :: bool
  ev_suspect :: bool
  ev_timeouts :: nat
  ev_window :: "nat option"
  ev_hashes :: "string list"
  ev_out :: "notice list"

definition new_events :: "bool \<Rightarrow> events" where
  "new_events enabled = \<lparr>ev_enabled = enabled, ev_panel = False, ev_suspect = False, ev_timeouts = 0, ev_window = None,
     ev_hashes = [], ev_out = []\<rparr>"

definition emit :: "notice \<Rightarrow> events \<Rightarrow> events" where
  "emit n e = (if ev_enabled e then e\<lparr>ev_out := ev_out e @ [n]\<rparr> else e)"

definition panel_restart :: "events \<Rightarrow> events" where
  "panel_restart e = (let e1 = e\<lparr>ev_panel := True\<rparr> in if ev_panel e then e1 else emit ServerRestart e1)"

definition network_timeout :: "nat \<Rightarrow> events \<Rightarrow> events" where
  "network_timeout now e =
    (let e1 = (if (case ev_window e of None \<Rightarrow> True | Some started \<Rightarrow> NETWORK_TIMEOUT_BURST_WINDOW < now - started)
               then e\<lparr>ev_window := Some now, ev_timeouts := 0, ev_suspect := False\<rparr> else e);
         e2 = e1\<lparr>ev_timeouts := ev_timeouts e1 + 1\<rparr>
     in if 6 \<le> ev_timeouts e2 then
          (let e3 = e2\<lparr>ev_suspect := True\<rparr> in if ev_suspect e2 then e3 else emit NetworkSuspect e3)
        else e2)"

definition network_recovered :: "events \<Rightarrow> events" where
  "network_recovered e = e\<lparr>ev_timeouts := 0, ev_suspect := False, ev_window := None\<rparr>"

definition call_unavailable :: "string \<Rightarrow> int \<Rightarrow> events \<Rightarrow> events" where
  "call_unavailable hash code e = (if hash \<in> set (ev_hashes e) then e
     else emit (CallUnavailable hash code) (e\<lparr>ev_hashes := hash # ev_hashes e\<rparr>))"

section \<open>Statistics\<close>

record stats_memory =
  st_up :: int
  st_down :: int
  st_active :: int
  st_quiet :: nat

text \<open>A tick of \<open>Stats::run\<close>: unchanged counters without a path are reported every tenth time only.\<close>

definition stats_tick :: "int \<Rightarrow> int \<Rightarrow> int \<Rightarrow> stats_memory \<times> events \<Rightarrow> stats_memory \<times> events" where
  "stats_tick active up down st = (case st of (m, e) \<Rightarrow>
    (let unchanged = (active = st_active m \<and> up = st_up m \<and> down = st_down m);
         m1 = m\<lparr>st_active := active, st_up := up, st_down := down\<rparr>
     in if unchanged \<and> active = 0 then
          (let m2 = m1\<lparr>st_quiet := min (st_quiet m1 + 1) (2 ^ 32 - 1)\<rparr>
           in if st_quiet m2 mod 10 \<noteq> 0 then (m2, e) else (m2, emit (StatsNotice active up down) e))
        else (m1\<lparr>st_quiet := 0\<rparr>, emit (StatsNotice active up down) e)))"

section \<open>The stall detector\<close>

text \<open>A poll with traffic sent and no answer, relative to the counters of the previous poll that was looked at.\<close>

definition unanswered :: "int \<times> int \<Rightarrow> stall_poll \<Rightarrow> bool" where
  "unanswered prev p \<longleftrightarrow> STALL_MIN_UPLINK_DELTA \<le> i64_saturating_sub (sp_up p) (fst prev) \<and> sp_down p = snd prev"

fun stall_observe_all :: "stall_poll list \<Rightarrow> stall_detector \<Rightarrow> bool list \<times> stall_detector" where
  "stall_observe_all [] d = ([], d)"
| "stall_observe_all (p # ps) d = (case stall_observe (sp_up p) (sp_down p) (sp_now p) d of (b, d1) \<Rightarrow>
     (case stall_observe_all ps d1 of (bs, d2) \<Rightarrow> (b # bs, d2)))"

lemma observe_all_snoc:
  "stall_observe_all (ps @ [p]) d = (case stall_observe_all ps d of (bs, d1) \<Rightarrow>
     (case stall_observe (sp_up p) (sp_down p) (sp_now p) d1 of (b, d2) \<Rightarrow> (bs @ [b], d2)))"
  by (induction ps arbitrary: d) (auto split: prod.splits)

lemma length_observe_all [simp]: "length (fst (stall_observe_all ps d)) = length ps"
proof (induction ps arbitrary: d)
  case (Cons p ps)
  obtain b d1 where o: "stall_observe (sp_up p) (sp_down p) (sp_now p) d = (b, d1)" by force
  obtain bs d2 where r: "stall_observe_all ps d1 = (bs, d2)" by force
  show ?case using Cons [of d1] by (simp add: o r)
qed simp

text \<open>The counters before poll \<open>i\<close>.\<close>

definition counters_before :: "int \<times> int \<Rightarrow> stall_poll list \<Rightarrow> nat \<Rightarrow> int \<times> int" where
  "counters_before start ps i = (if i = 0 then start else (sp_up (ps ! (i - 1)), sp_down (ps ! (i - 1))))"

definition stalled_at :: "int \<times> int \<Rightarrow> stall_poll list \<Rightarrow> nat \<Rightarrow> bool" where
  "stalled_at start ps i \<longleftrightarrow> unanswered (counters_before start ps i) (ps ! i)"

lemma stalled_at_append: "i < length ps \<Longrightarrow> stalled_at start (ps @ [p]) i = stalled_at start ps i"
  by (cases i) (simp_all add: stalled_at_def counters_before_def nth_append)

definition unprobed :: "int \<times> int \<Rightarrow> stall_poll list \<Rightarrow> bool list \<Rightarrow> nat \<Rightarrow> bool" where
  "unprobed start ps bs i \<longleftrightarrow> stalled_at start ps i \<and> \<not> bs ! i"

text \<open>After \<open>ps\<close> with answers \<open>bs\<close>: the counter is the length of the last run of unanswered polls without a probe,
  and the last probe is remembered.\<close>

definition detector_inv :: "int \<times> int \<Rightarrow> stall_poll list \<Rightarrow> bool list \<Rightarrow> stall_detector \<Rightarrow> bool" where
  "detector_inv start ps bs d \<longleftrightarrow> (sl_up d, sl_down d) = counters_before start ps (length ps) \<and> sl_polls d \<le> length ps
     \<and> (\<forall>i<length ps. length ps - sl_polls d \<le> i \<longrightarrow> unprobed start ps bs i)
     \<and> (sl_polls d < length ps \<longrightarrow> \<not> unprobed start ps bs (length ps - sl_polls d - 1))
     \<and> (case sl_probe d of None \<Rightarrow> \<forall>i<length ps. \<not> bs ! i
        | Some t \<Rightarrow> (\<exists>i<length ps. bs ! i \<and> sp_now (ps ! i) = t) \<and> (\<forall>i<length ps. bs ! i \<longrightarrow> sp_now (ps ! i) \<le> t))"

text \<open>When poll \<open>i\<close> asks for a probe.\<close>

definition probe_due :: "int \<times> int \<Rightarrow> stall_poll list \<Rightarrow> bool list \<Rightarrow> nat \<Rightarrow> bool" where
  "probe_due start ps bs i \<longleftrightarrow> 2 \<le> i \<and> stalled_at start ps i \<and> unprobed start ps bs (i - 1) \<and> unprobed start ps bs (i - 2)
     \<and> (\<forall>j<i. bs ! j \<longrightarrow> sp_now (ps ! j) + PROBE_MIN_GAP \<le> sp_now (ps ! i))"

lemma detector_polls:
  assumes "detector_inv start ps bs d"
  shows "2 \<le> sl_polls d \<longleftrightarrow> 2 \<le> length ps \<and> unprobed start ps bs (length ps - 1) \<and> unprobed start ps bs (length ps - 2)"
proof
  assume "2 \<le> sl_polls d"
  thus "2 \<le> length ps \<and> unprobed start ps bs (length ps - 1) \<and> unprobed start ps bs (length ps - 2)"
    using assms by (auto simp: detector_inv_def)
next
  assume a: "2 \<le> length ps \<and> unprobed start ps bs (length ps - 1) \<and> unprobed start ps bs (length ps - 2)"
  have h: "sl_polls d < length ps \<longrightarrow> \<not> unprobed start ps bs (length ps - sl_polls d - 1)" using assms by (simp add: detector_inv_def)
  show "2 \<le> sl_polls d"
  proof (rule ccontr)
    assume "\<not> 2 \<le> sl_polls d"
    then consider "sl_polls d = 0" | "sl_polls d = 1" by linarith
    thus False
    proof cases
      case 1 thus False using h a by auto
    next
      case 2
      have "length ps - 1 - 1 = length ps - 2" by simp
      thus False using h a 2 by auto
    qed
  qed
qed

lemma recent_probe:
  assumes inv: "detector_inv start ps bs d" and t: "\<forall>i<length ps. sp_now (ps ! i) \<le> now"
  shows "(case sl_probe d of None \<Rightarrow> False | Some u \<Rightarrow> now - u < PROBE_MIN_GAP)
    \<longleftrightarrow> \<not> (\<forall>j<length ps. bs ! j \<longrightarrow> sp_now (ps ! j) + PROBE_MIN_GAP \<le> now)"
proof (cases "sl_probe d")
  case None
  thus ?thesis using inv by (auto simp: detector_inv_def)
next
  case (Some u)
  then obtain i where i: "i < length ps" "bs ! i" "sp_now (ps ! i) = u" "\<forall>i<length ps. bs ! i \<longrightarrow> sp_now (ps ! i) \<le> u"
    using inv by (auto simp: detector_inv_def)
  have "now - u < PROBE_MIN_GAP \<longleftrightarrow> \<not> u + PROBE_MIN_GAP \<le> now"
    using t i(1,3) by (auto simp: PROBE_MIN_GAP_def)
  moreover have "(\<forall>j<length ps. bs ! j \<longrightarrow> sp_now (ps ! j) + PROBE_MIN_GAP \<le> now) \<longleftrightarrow> u + PROBE_MIN_GAP \<le> now"
    using i by (meson add_le_cancel_right order_trans)
  ultimately show ?thesis by (simp add: Some)
qed

text \<open>The detector's answer to poll \<open>p\<close> as a case distinction on \<open>stalled_at\<close> and the time of the last probe.\<close>

lemma observe_cases:
  assumes inv: "detector_inv start ps bs d" and t: "\<forall>i<length ps. sp_now (ps ! i) \<le> sp_now p"
    and o: "stall_observe (sp_up p) (sp_down p) (sp_now p) d = (b, d')"
  defines "S \<equiv> stalled_at start (ps @ [p]) (length ps)"
    and "R \<equiv> \<forall>j<length ps. bs ! j \<longrightarrow> sp_now (ps ! j) + PROBE_MIN_GAP \<le> sp_now p"
  shows "sl_up d' = sp_up p" "sl_down d' = sp_down p" "b \<longleftrightarrow> S \<and> 2 \<le> sl_polls d \<and> R"
    "sl_polls d' = (if S \<and> \<not> b then sl_polls d + 1 else 0)" "sl_probe d' = (if b then Some (sp_now p) else sl_probe d)"
proof -
  have st: "S \<longleftrightarrow> STALL_MIN_UPLINK_DELTA \<le> i64_saturating_sub (sp_up p) (sl_up d) \<and> sp_down p = sl_down d"
    using inv by (auto simp: S_def stalled_at_def unanswered_def detector_inv_def counters_before_def nth_append)
  show "sl_up d' = sp_up p" "sl_down d' = sp_down p"
    using o by (auto simp: stall_observe_def Let_def split: if_splits)
  let ?rec = "case sl_probe d of None \<Rightarrow> False | Some t \<Rightarrow> sp_now p - t < PROBE_MIN_GAP"
  have e: "(b, sl_polls d', sl_probe d') = (if \<not> S then (False, 0, sl_probe d)
        else if sl_polls d + 1 < 3 then (False, sl_polls d + 1, sl_probe d)
        else if ?rec then (False, sl_polls d + 1, sl_probe d) else (True, 0, Some (sp_now p)))"
    using o by (auto simp: stall_observe_def Let_def st STALL_POLLS_def split: if_splits)
  note e' = e [unfolded recent_probe [OF inv t, folded R_def]]
  show "b \<longleftrightarrow> S \<and> 2 \<le> sl_polls d \<and> R" "sl_polls d' = (if S \<and> \<not> b then sl_polls d + 1 else 0)"
    "sl_probe d' = (if b then Some (sp_now p) else sl_probe d)" using e' by (auto split: if_splits)
qed

lemma unprobed_snoc:
  "length bs = length ps \<Longrightarrow> i < length ps \<Longrightarrow> unprobed start (ps @ [p]) (bs @ [b]) i = unprobed start ps bs i"
  "length bs = length ps \<Longrightarrow> unprobed start (ps @ [p]) (bs @ [b]) (length ps) \<longleftrightarrow> stalled_at start (ps @ [p]) (length ps) \<and> \<not> b"
  by (simp_all add: unprobed_def stalled_at_append nth_append)

lemma detector_inv_step:
  assumes inv: "detector_inv start ps bs d" and l: "length bs = length ps"
    and t: "\<forall>i<length ps. sp_now (ps ! i) \<le> sp_now p"
    and o: "stall_observe (sp_up p) (sp_down p) (sp_now p) d = (b, d')"
  shows "detector_inv start (ps @ [p]) (bs @ [b]) d'"
proof -
  let ?n = "length ps" and ?ps = "ps @ [p]" and ?bs = "bs @ [b]"
  note c = observe_cases [OF inv t o] and u = unprobed_snoc(1) [OF l, of _ start p b]
    and u2 = unprobed_snoc(2) [OF l, of start p b]
  have polls: "sl_polls d' \<le> length ?ps \<and> (\<forall>i<length ?ps. length ?ps - sl_polls d' \<le> i \<longrightarrow> unprobed start ?ps ?bs i)
      \<and> (sl_polls d' < length ?ps \<longrightarrow> \<not> unprobed start ?ps ?bs (length ?ps - sl_polls d' - 1))"
  proof (cases "stalled_at start ?ps ?n \<and> \<not> b")
    case True
    have "unprobed start ?ps ?bs i" if "i < Suc ?n" "?n - sl_polls d \<le> i" for i
      using that inv u u2 True by (cases "i = ?n") (auto simp: detector_inv_def)
    moreover have "\<not> unprobed start ?ps ?bs (?n - sl_polls d - 1)" if "sl_polls d < ?n"
      using that inv u [of "?n - sl_polls d - 1"] by (simp add: detector_inv_def)
    ultimately show ?thesis using c(4) True inv by (auto simp: detector_inv_def)
  next
    case False
    thus ?thesis using c(4) u2 by auto
  qed
  have f: "?bs ! i \<longleftrightarrow> bs ! i" "?ps ! i = ps ! i" if "i < ?n" for i using that l by (simp_all add: nth_append)
  have n: "?bs ! ?n \<longleftrightarrow> b" "?ps ! ?n = p" using l by (simp_all add: nth_append)
  have probe: "case sl_probe d' of None \<Rightarrow> \<forall>i<length ?ps. \<not> ?bs ! i
    | Some t \<Rightarrow> (\<exists>i<length ?ps. ?bs ! i \<and> sp_now (?ps ! i) = t) \<and> (\<forall>i<length ?ps. ?bs ! i \<longrightarrow> sp_now (?ps ! i) \<le> t)"
    using inv t f n c(5) by (cases b; cases "sl_probe d") (simp_all add: detector_inv_def All_less_Suc Ex_less_Suc cong: conj_cong)
  show ?thesis using c(1,2) polls probe unfolding detector_inv_def by (simp add: counters_before_def)
qed

lemma stall_answers:
  assumes "stall_observe_all ps (new_stall_detector up down) = (bs, d)" "sorted (map sp_now ps)"
  shows "detector_inv (up, down) ps bs d \<and> (\<forall>i<length ps. bs ! i \<longleftrightarrow> probe_due (up, down) ps bs i)"
  using assms
proof (induction ps arbitrary: bs d rule: rev_induct)
  case Nil
  hence "bs = []" "d = new_stall_detector up down" by simp_all
  thus ?case by (simp add: detector_inv_def new_stall_detector_def counters_before_def)
next
  case (snoc p ps)
  obtain bs1 d1 where 1: "stall_observe_all ps (new_stall_detector up down) = (bs1, d1)" by force
  obtain b d2 where 2: "stall_observe (sp_up p) (sp_down p) (sp_now p) d1 = (b, d2)" by force
  have e: "bs = bs1 @ [b]" "d = d2" using snoc.prems(1) 1 2 by (simp_all add: observe_all_snoc)
  have l: "length bs1 = length ps" using length_observe_all [of ps] 1 by (metis fst_conv)
  have t: "\<forall>i<length ps. sp_now (ps ! i) \<le> sp_now p" using snoc.prems(2) by (auto simp: sorted_append dest: nth_mem)
  have IH: "detector_inv (up, down) ps bs1 d1" "\<forall>i<length ps. bs1 ! i \<longleftrightarrow> probe_due (up, down) ps bs1 i"
    using snoc.IH [OF 1] snoc.prems(2) by (simp_all add: sorted_append)
  have due: "probe_due (up, down) (ps @ [p]) (bs1 @ [b]) i = probe_due (up, down) ps bs1 i" if "i < length ps" for i
    using that l unprobed_snoc(1) [OF l, of "i - 1"] unprobed_snoc(1) [OF l, of "i - 2"]
    by (auto simp: probe_due_def stalled_at_append nth_append)
  have now: "probe_due (up, down) (ps @ [p]) (bs1 @ [b]) (length ps) \<longleftrightarrow> b"
  proof (cases "2 \<le> length ps")
    case True
    thus ?thesis using observe_cases(3) [OF IH(1) t 2] detector_polls [OF IH(1)] l
        unprobed_snoc(1) [OF l, of "length ps - 1"] unprobed_snoc(1) [OF l, of "length ps - 2"]
      by (auto simp: probe_due_def nth_append)
  next
    case False
    thus ?thesis using observe_cases(3) [OF IH(1) t 2] detector_polls [OF IH(1)] by (auto simp: probe_due_def)
  qed
  have "detector_inv (up, down) (ps @ [p]) (bs1 @ [b]) d2" by (rule detector_inv_step [OF IH(1) l t 2])
  moreover have "\<forall>i<length (ps @ [p]). (bs1 @ [b]) ! i \<longleftrightarrow> probe_due (up, down) (ps @ [p]) (bs1 @ [b]) i"
    using IH(2) due now l by (simp add: All_less_Suc nth_append)
  ultimately show ?case unfolding e by blast
qed

text \<open>When the stall detector probes. Fed with the counters of successive polls, it asks for a probe exactly at those polls
  where this poll and the two before it all saw at least 4096 bytes sent and nothing received, no probe was asked for at the
  two before, and every earlier probe is at least 20 s old; so three polls are needed, a byte of answer or silence
  starts the count again, and probes are at least 20 s apart.\<close>

theorem stall_probes:
  assumes "stall_observe_all ps (new_stall_detector up down) = (bs, d)" "sorted (map sp_now ps)"
  shows "length bs = length ps \<and> (\<forall>i\<in>{..<length ps}. bs ! i \<longleftrightarrow> probe_due (up, down) ps bs i)"
  using stall_answers [OF assms] length_observe_all [of ps "new_stall_detector up down"] assms(1) by simp

lemma stall_probes_witness:
  "let p = (\<lambda>u t. \<lparr>sp_active = 1, sp_up = u, sp_down = 0, sp_now = t\<rparr>);
       ps = [p 4096 2000, p 8192 4000, p 12288 6000, p 20000 8000, p 30000 10000, p 40000 12000, p 50000 26000]
   in fst (stall_observe_all ps (new_stall_detector 0 0)) = [False, False, True, False, False, False, True]
     \<and> probe_due (0, 0) ps [False, False, True, False, False, False, True] 6"
proof -
  let ?p = "\<lambda>u t. \<lparr>sp_active = 1, sp_up = u, sp_down = 0, sp_now = t\<rparr>"
  let ?ps = "[?p 4096 2000, ?p 8192 4000, ?p 12288 6000, ?p 20000 8000, ?p 30000 10000, ?p 40000 12000, ?p 50000 26000]"
  have r: "stall_observe_all ?ps (new_stall_detector 0 0) = ([False, False, True, False, False, False, True],
      \<lparr>sl_up = 50000, sl_down = 0, sl_polls = 0, sl_probe = Some 26000\<rparr>)" by code_simp
  have s: "sorted (map sp_now ?ps)" by simp
  have i: "6 \<in> {..<length ?ps}" by simp
  have "[False, False, True, False, False, False, True] ! 6
      \<longleftrightarrow> probe_due (0, 0) ?ps [False, False, True, False, False, False, True] 6"
    using stall_probes [OF r s] i by blast
  moreover have "[False, False, True, False, False, False, True] ! 6" by simp
  ultimately show ?thesis unfolding Let_def r fst_conv by blast
qed

end
