(* ===== verification/Credentials.thy ===== *)
theory Credentials
  imports NetworkWatch
begin

text \<open>
  The TURN credentials of a cohort of workers (\<open>worker.rs\<close>): the cache that hands out leases, its rotation after quota
  errors and allocation mismatches, the fetch with its back-off, and the assignment of worker groups
  to call hashes and credentials. Fetching itself is \<open>auth.rs\<close>, an HTTP exchange, and its result an argument.
\<close>

section \<open>The cache\<close>

definition WORKERS_PER_GROUP :: nat where "WORKERS_PER_GROUP = 9"
definition GROUPS_PER_CREDENTIAL :: nat where "GROUPS_PER_CREDENTIAL = 2"
definition WORKERS_PER_CREDENTIAL :: nat where "WORKERS_PER_CREDENTIAL = WORKERS_PER_GROUP * GROUPS_PER_CREDENTIAL"

record turn_credentials =
  tc_username :: string
  tc_password :: string
  tc_servers :: "string list"

definition same_turn_credentials :: "turn_credentials \<Rightarrow> turn_credentials \<Rightarrow> bool" where
  "same_turn_credentials l r \<longleftrightarrow> tc_username l = tc_username r \<and> tc_password l = tc_password r \<and> tc_servers l = tc_servers r"

record cached_credentials =
  cc_value :: turn_credentials
  cc_generation :: nat
  cc_attempts :: nat
  cc_mismatches :: nat

record credential_lease =
  cl_value :: turn_credentials
  cl_generation :: nat

record credential_cache =
  ch_current :: "cached_credentials option"
  ch_blocked :: "turn_credentials option"
  ch_next :: nat
  ch_retries :: nat

definition empty_cache :: credential_cache where
  "empty_cache = \<lparr>ch_current = None, ch_blocked = None, ch_next = 0, ch_retries = 0\<rparr>"

definition reserve :: "credential_cache \<Rightarrow> credential_lease option \<times> credential_cache" where
  "reserve s = (let s1 = (case ch_current s of None \<Rightarrow> s
       | Some cached \<Rightarrow> if WORKERS_PER_CREDENTIAL \<le> cc_attempts cached then s\<lparr>ch_current := None\<rparr> else s)
     in case ch_current s1 of None \<Rightarrow> (None, s1)
        | Some cached \<Rightarrow> (Some \<lparr>cl_value = cc_value cached, cl_generation = cc_generation cached\<rparr>,
            s1\<lparr>ch_current := Some (cached\<lparr>cc_attempts := min (cc_attempts cached + 1) usize_max\<rparr>)\<rparr>))"

definition store_credentials :: "turn_credentials \<Rightarrow> credential_cache \<Rightarrow> bool \<times> credential_cache" where
  "store_credentials credentials s =
    (if (case ch_blocked s of None \<Rightarrow> False | Some blocked \<Rightarrow> same_turn_credentials blocked credentials) then (False, s)
     else let next_generation = max (sat_add_u64 (ch_next s) 1) 1
       in (True, s\<lparr>ch_blocked := None, ch_next := next_generation,
            ch_current := Some \<lparr>cc_value = credentials, cc_generation = next_generation, cc_attempts = 0, cc_mismatches = 0\<rparr>\<rparr>))"

text \<open>The guard shared by the operations on a lease: it belongs to the current credentials.\<close>

definition lease_current :: "credential_lease \<Rightarrow> cached_credentials \<Rightarrow> bool" where
  "lease_current lease cached \<longleftrightarrow> cc_generation cached = cl_generation lease \<and> same_turn_credentials (cc_value cached) (cl_value lease)"

definition record_allocation :: "credential_lease \<Rightarrow> credential_cache \<Rightarrow> credential_cache" where
  "record_allocation lease s = (case ch_current s of None \<Rightarrow> s
     | Some cached \<Rightarrow> if lease_current lease cached
         then s\<lparr>ch_current := Some (cached\<lparr>cc_mismatches := 0\<rparr>), ch_retries := 0\<rparr> else s)"

definition release_lease :: "credential_lease \<Rightarrow> credential_cache \<Rightarrow> credential_cache" where
  "release_lease lease s = (case ch_current s of None \<Rightarrow> s
     | Some cached \<Rightarrow> if lease_current lease cached
         then s\<lparr>ch_current := Some (cached\<lparr>cc_attempts := cc_attempts cached - 1\<rparr>)\<rparr> else s)"

definition invalidate :: "credential_lease \<Rightarrow> credential_cache \<Rightarrow> bool \<times> credential_cache" where
  "invalidate lease s = (case ch_current s of None \<Rightarrow> (False, s)
     | Some cached \<Rightarrow> if lease_current lease cached then (True, s\<lparr>ch_current := None\<rparr>) else (False, s))"

definition quota_rotation_delay :: "nat \<Rightarrow> nat" where
  "quota_rotation_delay attempt = (if attempt = 0 then 100 else if attempt = 1 then 300 else if attempt = 2 then 500
     else if attempt = 3 then 800 else 1500)"

datatype quota_rotation = QuotaRotated nat | QuotaReplaced

definition next_quota_delay :: "credential_cache \<Rightarrow> nat \<times> credential_cache" where
  "next_quota_delay s = (quota_rotation_delay (ch_retries s), s\<lparr>ch_retries := min (ch_retries s + 1) usize_max\<rparr>)"

definition rotate_after_quota :: "credential_lease \<Rightarrow> credential_cache \<Rightarrow> quota_rotation \<times> credential_cache" where
  "rotate_after_quota lease s = (case ch_current s of None \<Rightarrow> (QuotaReplaced, s)
     | Some cached \<Rightarrow> if \<not> lease_current lease cached then (QuotaReplaced, s)
         else (QuotaRotated (quota_rotation_delay (ch_retries s)),
               s\<lparr>ch_current := None, ch_blocked := Some (cc_value cached), ch_retries := min (ch_retries s + 1) usize_max\<rparr>))"

datatype allocation_mismatch = RetryCurrent | MismatchRotated | MismatchReplaced

definition retry_after_mismatch :: "credential_lease \<Rightarrow> credential_cache \<Rightarrow> allocation_mismatch \<times> credential_cache" where
  "retry_after_mismatch lease s = (case ch_current s of None \<Rightarrow> (MismatchReplaced, s)
     | Some cached \<Rightarrow> if \<not> lease_current lease cached then (MismatchReplaced, s)
         else if cc_mismatches cached = 0 then (RetryCurrent, s\<lparr>ch_current := Some (cached\<lparr>cc_mismatches := 1\<rparr>)\<rparr>)
         else (MismatchRotated, s\<lparr>ch_current := None\<rparr>))"

section \<open>The group's credentials\<close>

definition CREDENTIAL_POST_DELAY :: nat where "CREDENTIAL_POST_DELAY = 100"

datatype fetched = FetchOk turn_credentials | FetchCallUnavailable int | FetchFailed

record group_credentials =
  gc_id :: nat
  gc_hash :: string
  gc_cache :: credential_cache
  gc_failures :: nat
  gc_unavailable :: bool

text \<open>What happens around one call of \<open>get\<close>: whether it is cancelled while it waits for its turn, whether another
  group of the same hash has found the call unavailable meanwhile, the answer of the fetch (\<open>None\<close> when
  cancelled), the random part of the back-off, and whether the wait at the end is cancelled.\<close>

record get_env =
  ge_cancelled :: bool
  ge_unavailable :: bool
  ge_fetched :: "fetched option"
  ge_random :: nat
  ge_wait_cancelled :: bool

definition fetch_backoff :: "nat \<Rightarrow> nat \<Rightarrow> nat" where
  "fetch_backoff failures random = min (CREDENTIAL_POST_DELAY * 2 ^ min failures 5) 3000 + random mod 100"

text \<open>The lease, the time waited, and the notice of progress or of an unavailable call.\<close>

definition get_credentials :: "get_env \<Rightarrow> group_credentials \<Rightarrow> credential_lease option \<times> nat \<times> notice list \<times> group_credentials" where
  "get_credentials env g = (if gc_unavailable g then (None, 0, [], g)
     else case reserve (gc_cache g) of
       (Some lease, c) \<Rightarrow> (Some lease, 0, [], g\<lparr>gc_cache := c\<rparr>)
     | (None, c) \<Rightarrow> (let g1 = g\<lparr>gc_cache := c\<rparr>; g2 = g1\<lparr>gc_unavailable := ge_unavailable env\<rparr> in
         if ge_cancelled env then (None, 0, [], g1) else if gc_unavailable g2 then (None, 0, [], g2)
         else case ge_fetched env of
           None \<Rightarrow> (None, 0, [], g2)
         | Some (FetchOk creds) \<Rightarrow> (case store_credentials creds c of
             (False, c1) \<Rightarrow> (let (delay, c2) = next_quota_delay c1 in (None, delay, [], g2\<lparr>gc_cache := c2\<rparr>))
           | (True, c1) \<Rightarrow> (let g3 = g2\<lparr>gc_cache := c1, gc_failures := 0\<rparr> in
               if ge_wait_cancelled env then (None, 0, [], g3)
               else let (lease, c2) = reserve c1 in (lease, CREDENTIAL_POST_DELAY, [Progress ''credentials''], g3\<lparr>gc_cache := c2\<rparr>)))
         | Some (FetchCallUnavailable code) \<Rightarrow>
             (None, 0, [CallUnavailable (gc_hash g2) code], g2\<lparr>gc_unavailable := True\<rparr>)
         | Some FetchFailed \<Rightarrow>
             (None, fetch_backoff (gc_failures g2) (ge_random env), [], g2\<lparr>gc_failures := gc_failures g2 + 1\<rparr>)))"

section \<open>Groups, hashes and cohorts\<close>

definition group_worker_ids :: "nat \<Rightarrow> nat list" where
  "group_worker_ids group_id = (let first = (group_id - 1) * WORKERS_PER_GROUP + 1 in [first..<first + WORKERS_PER_GROUP])"

definition credential_stream_id :: "nat \<Rightarrow> nat" where
  "credential_stream_id credential_id = credential_id * 100"

definition group_hash_index :: "nat \<Rightarrow> nat \<Rightarrow> nat" where
  "group_hash_index group_index hash_count = group_index mod hash_count"

definition credential_cohort_index :: "nat \<Rightarrow> nat" where
  "credential_cohort_index group_index_for_hash = group_index_for_hash div GROUPS_PER_CREDENTIAL"

record group_layout =
  gl_by_hash :: "nat list list"
  gl_counts :: "nat list"
  gl_next :: nat
  gl_groups :: "(nat \<times> nat) list"

text \<open>One round of the loop of \<open>run_groups\<close>; \<open>gl_groups\<close> lists for every group its hash and its credential.\<close>

definition assign_group :: "nat \<Rightarrow> nat \<Rightarrow> group_layout \<Rightarrow> group_layout" where
  "assign_group hash_count group_index l =
    (let h = group_hash_index group_index hash_count;
         group_index_for_hash = gl_counts l ! h;
         l1 = l\<lparr>gl_counts := (gl_counts l)[h := min (group_index_for_hash + 1) usize_max]\<rparr>;
         cohort = credential_cohort_index group_index_for_hash;
         l2 = (if length (gl_by_hash l1 ! h) \<le> cohort
               then l1\<lparr>gl_by_hash := (gl_by_hash l1)[h := gl_by_hash l1 ! h @ [gl_next l1]],
                       gl_next := min (gl_next l1 + 1) usize_max\<rparr> else l1)
     in l2\<lparr>gl_groups := gl_groups l2 @ [(h, gl_by_hash l2 ! h ! cohort)]\<rparr>)"

definition run_groups_layout :: "nat \<Rightarrow> nat \<Rightarrow> group_layout" where
  "run_groups_layout n hash_count = fold (assign_group hash_count) [0..<n]
     \<lparr>gl_by_hash = replicate hash_count [], gl_counts = replicate hash_count 0, gl_next = 1, gl_groups = []\<rparr>"

section \<open>Runs of the cache\<close>

datatype cache_op =
    OpReserve | OpStore turn_credentials | OpRecord credential_lease | OpRelease credential_lease
  | OpInvalidate credential_lease | OpQuota credential_lease | OpMismatch credential_lease | OpQuotaDelay

text \<open>One operation; the first component is the lease it grants, if it does.\<close>

fun cache_step :: "cache_op \<Rightarrow> credential_cache \<Rightarrow> credential_lease option \<times> credential_cache" where
  "cache_step OpReserve s = reserve s"
| "cache_step (OpStore c) s = (None, snd (store_credentials c s))"
| "cache_step (OpRecord l) s = (None, record_allocation l s)"
| "cache_step (OpRelease l) s = (None, release_lease l s)"
| "cache_step (OpInvalidate l) s = (None, snd (invalidate l s))"
| "cache_step (OpQuota l) s = (None, snd (rotate_after_quota l s))"
| "cache_step (OpMismatch l) s = (None, snd (retry_after_mismatch l s))"
| "cache_step OpQuotaDelay s = (None, snd (next_quota_delay s))"

fun cache_run :: "cache_op list \<Rightarrow> credential_cache \<Rightarrow> credential_lease list \<times> credential_cache" where
  "cache_run [] s = ([], s)"
| "cache_run (x # xs) s = (case cache_step x s of (l, s1) \<Rightarrow> (case cache_run xs s1 of (ls, s2) \<Rightarrow>
     ((case l of None \<Rightarrow> ls | Some lease \<Rightarrow> lease # ls), s2)))"

definition released :: "nat \<Rightarrow> cache_op list \<Rightarrow> nat" where
  "released g xs = length (filter (\<lambda>x. case x of OpRelease l \<Rightarrow> cl_generation l = g | _ \<Rightarrow> False) xs)"

definition granted :: "nat \<Rightarrow> credential_lease list \<Rightarrow> nat" where
  "granted g ls = length (filter (\<lambda>l. cl_generation l = g) ls)"

text \<open>The count kept for generation \<open>g\<close>: no future credentials have it, the current ones count their attempts, and
  for older ones the limit stands.\<close>

definition attempts_left :: "nat \<Rightarrow> credential_cache \<Rightarrow> nat" where
  "attempts_left g s = (if ch_next s < g then WORKERS_PER_CREDENTIAL
     else case ch_current s of Some c \<Rightarrow> if cc_generation c = g then WORKERS_PER_CREDENTIAL - cc_attempts c else 0 | None \<Rightarrow> 0)"

definition cache_inv :: "credential_cache \<Rightarrow> bool" where
  "cache_inv s \<longleftrightarrow> (case ch_current s of None \<Rightarrow> True
     | Some c \<Rightarrow> cc_generation c = ch_next s \<and> cc_attempts c \<le> WORKERS_PER_CREDENTIAL \<and> ch_blocked s = None)"

lemma cache_inv_empty [inv_intros]: "cache_inv empty_cache"
  by (simp add: cache_inv_def empty_cache_def)

lemma cache_step_inv [inv_intros]: "cache_inv s \<Longrightarrow> cache_inv (snd (cache_step x s))"
  by (cases x) (auto simp: cache_inv_def reserve_def store_credentials_def record_allocation_def release_lease_def invalidate_def
      rotate_after_quota_def retry_after_mismatch_def next_quota_delay_def Let_def usize_max_def WORKERS_PER_CREDENTIAL_def
      WORKERS_PER_GROUP_def GROUPS_PER_CREDENTIAL_def split: option.splits)

text \<open>What one step grants and releases is covered by the count.\<close>

definition grants :: "nat \<Rightarrow> credential_lease option \<Rightarrow> nat" where
  "grants g l = (case l of None \<Rightarrow> 0 | Some lease \<Rightarrow> if cl_generation lease = g then 1 else 0)"

lemma cache_step_count:
  assumes inv: "cache_inv s" and room: "ch_next s < u64_max" and st: "cache_step x s = (l, s')"
  shows "grants g l + attempts_left g s' \<le> attempts_left g s + released g [x]" "ch_next s' \<le> ch_next s + 1"
proof -
  have w: "WORKERS_PER_CREDENTIAL = 18" by (simp add: WORKERS_PER_CREDENTIAL_def WORKERS_PER_GROUP_def GROUPS_PER_CREDENTIAL_def)
  show "grants g l + attempts_left g s' \<le> attempts_left g s + released g [x]"
  proof (cases x)
    case OpReserve
    thus ?thesis using inv st by (auto simp: reserve_def attempts_left_def grants_def cache_inv_def Let_def usize_max_def w split: option.splits if_splits)
  next
    case (OpStore c)
    thus ?thesis using st room by (auto simp: store_credentials_def attempts_left_def grants_def Let_def sat_add_u64_def split: option.splits if_splits)
  next
    case (OpRecord c)
    thus ?thesis using st by (auto simp: record_allocation_def attempts_left_def grants_def split: option.splits if_splits)
  next
    case (OpRelease c)
    thus ?thesis using st by (auto simp: release_lease_def attempts_left_def grants_def released_def lease_current_def split: option.splits if_splits)
  next
    case (OpInvalidate c)
    thus ?thesis using st by (auto simp: invalidate_def attempts_left_def grants_def split: option.splits if_splits)
  next
    case (OpQuota c)
    thus ?thesis using st by (auto simp: rotate_after_quota_def attempts_left_def grants_def split: option.splits if_splits)
  next
    case (OpMismatch c)
    thus ?thesis using st by (auto simp: retry_after_mismatch_def attempts_left_def grants_def split: option.splits if_splits)
  next
    case OpQuotaDelay
    thus ?thesis using st by (auto simp: next_quota_delay_def attempts_left_def grants_def)
  qed
  show "ch_next s' \<le> ch_next s + 1"
    using st by (cases x) (auto simp: reserve_def store_credentials_def record_allocation_def release_lease_def invalidate_def
      rotate_after_quota_def retry_after_mismatch_def next_quota_delay_def Let_def sat_add_u64_def split: option.splits if_splits)
qed

lemma cache_run_count:
  "cache_inv s \<Longrightarrow> ch_next s + length xs < u64_max \<Longrightarrow> cache_run xs s = (ls, s') \<Longrightarrow>
   granted g ls + attempts_left g s' \<le> attempts_left g s + released g xs"
proof (induction xs arbitrary: s ls s')
  case (Cons x xs)
  obtain l s1 where st: "cache_step x s = (l, s1)" by force
  obtain ls1 s2 where r: "cache_run xs s1 = (ls1, s2)" by force
  have n: "ch_next s < u64_max" "ch_next s1 + length xs < u64_max"
    using cache_step_count(2) [OF Cons.prems(1) _ st] Cons.prems(2) by auto
  have inv: "cache_inv s1" using cache_step_inv [OF Cons.prems(1), of x] st by simp
  have "granted g ls = grants g l + granted g ls1" "s2 = s'"
    using Cons.prems(3) st r by (auto simp: granted_def grants_def split: option.splits)
  moreover have "released g (x # xs) = released g [x] + released g xs" by (simp add: released_def)
  ultimately show ?case using Cons.IH [OF inv n(2) r] cache_step_count(1) [OF Cons.prems(1) n(1) st, of g] by simp
qed (simp add: granted_def released_def)

lemma same_credentials_eq: "same_turn_credentials a b \<longleftrightarrow> a = b"
  by (cases a; cases b) (auto simp: same_turn_credentials_def)

lemma blocked_run:
  assumes "\<forall>c. OpStore c \<in> set xs \<longrightarrow> c = rejected"
  shows "ch_current s = None \<Longrightarrow> ch_blocked s = Some rejected \<Longrightarrow> fst (cache_run xs s) = []
    \<and> ch_current (snd (cache_run xs s)) = None \<and> ch_blocked (snd (cache_run xs s)) = Some rejected"
  using assms
proof (induction xs arbitrary: s)
  case (Cons x xs)
  obtain l s1 where st: "cache_step x s = (l, s1)" by force
  have "l = None \<and> ch_current s1 = None \<and> ch_blocked s1 = Some rejected"
    using st Cons.prems by (cases x) (auto simp: reserve_def store_credentials_def record_allocation_def release_lease_def
      invalidate_def rotate_after_quota_def retry_after_mismatch_def next_quota_delay_def same_credentials_eq)
  thus ?case using Cons.IH [of s1] Cons.prems(3) st by (auto split: prod.splits)
qed simp

text \<open>A credential is never overused. Over any operations of the cache, in any order and with any leases, every
  generation of credentials is leased at most 18 times more often than leases of it are given back; and
  after a quota error rejected credentials, nothing is leased as long as fetching only brings the rejected ones again.\<close>

theorem credential_leases:
  assumes "length xs < u64_max" "cache_run xs empty_cache = (ls, s)"
  shows "granted g ls \<le> 18 + released g xs
    \<and> (\<forall>lease d s' ys. rotate_after_quota lease s = (QuotaRotated d, s') \<and> (\<forall>c. OpStore c \<in> set ys \<longrightarrow> c = cl_value lease)
         \<longrightarrow> fst (cache_run ys s') = [])"
proof -
  have w: "WORKERS_PER_CREDENTIAL = 18" by (simp add: WORKERS_PER_CREDENTIAL_def WORKERS_PER_GROUP_def GROUPS_PER_CREDENTIAL_def)
  have "attempts_left g empty_cache \<le> 18" by (simp add: attempts_left_def empty_cache_def w)
  hence "granted g ls \<le> 18 + released g xs"
    using cache_run_count [OF cache_inv_empty _ assms(2), of g] assms(1) by (simp add: empty_cache_def)
  moreover have "fst (cache_run ys s') = []"
    if "rotate_after_quota lease s = (QuotaRotated d, s')" "\<forall>c. OpStore c \<in> set ys \<longrightarrow> c = cl_value lease" for lease d s' ys
  proof -
    have "ch_current s' = None \<and> ch_blocked s' = Some (cl_value lease)"
      using that(1) by (auto simp: rotate_after_quota_def lease_current_def same_credentials_eq split: option.splits if_splits)
    thus ?thesis using blocked_run [OF that(2), of s'] by blast
  qed
  ultimately show ?thesis by blast
qed

definition sample_credentials :: "string \<Rightarrow> turn_credentials" where
  "sample_credentials u = \<lparr>tc_username = u, tc_password = ''p'', tc_servers = [''turn:relay.example'']\<rparr>"

lemma credential_leases_witness:
  "granted 1 (fst (cache_run (OpStore (sample_credentials ''u'') # replicate 19 OpReserve) empty_cache)) = 18"
proof -
  let ?ops = "OpStore (sample_credentials ''u'') # replicate 19 OpReserve"
  obtain ls s where r: "cache_run ?ops empty_cache = (ls, s)" by force
  have "length ?ops < u64_max" by (simp add: u64_max_def)
  from credential_leases [OF this r, of 1] have "granted 1 ls \<le> 18" by (simp add: released_def)
  moreover have "18 \<le> granted 1 (fst (cache_run ?ops empty_cache))" by code_simp
  ultimately show ?thesis using r by simp
qed

section \<open>The layout\<close>

text \<open>The number of groups before \<open>n\<close> with hash \<open>h\<close>.\<close>

definition groups_with_hash :: "nat \<Rightarrow> nat \<Rightarrow> nat \<Rightarrow> nat" where
  "groups_with_hash hc n h = card {i. i < n \<and> i mod hc = h}"

definition layout_inv :: "nat \<Rightarrow> nat \<Rightarrow> group_layout \<Rightarrow> bool" where
  "layout_inv hc n l \<longleftrightarrow> length (gl_by_hash l) = hc \<and> length (gl_counts l) = hc \<and> length (gl_groups l) = n
     \<and> (\<forall>h<hc. gl_counts l ! h = groups_with_hash hc n h \<and> length (gl_by_hash l ! h) = (groups_with_hash hc n h + 1) div 2)
     \<and> distinct (concat (gl_by_hash l)) \<and> (\<forall>c\<in>set (concat (gl_by_hash l)). c < gl_next l) \<and> gl_next l \<le> n + 1
     \<and> (\<forall>i<n. gl_groups l ! i = (i mod hc, gl_by_hash l ! (i mod hc) ! (i div hc div 2)))"

lemma groups_with_hash_Suc:
  "groups_with_hash hc (Suc n) h = groups_with_hash hc n h + (if n mod hc = h then 1 else 0)"
proof -
  have "{i. i < Suc n \<and> i mod hc = h} = (if n mod hc = h then insert n {i. i < n \<and> i mod hc = h} else {i. i < n \<and> i mod hc = h})"
    by (auto simp: less_Suc_eq)
  thus ?thesis by (simp add: groups_with_hash_def)
qed

lemma groups_before:
  assumes "0 < hc"
  shows "groups_with_hash hc n (n mod hc) = n div hc"
proof -
  have "{i. i < n \<and> i mod hc = n mod hc} = (\<lambda>k. k * hc + n mod hc) ` {..<n div hc}"
  proof (intro equalityI subsetI)
    fix i assume "i \<in> {i. i < n \<and> i mod hc = n mod hc}"
    hence i: "i < n" "i mod hc = n mod hc" by auto
    have "i = i div hc * hc + n mod hc" using div_mult_mod_eq [of i hc] i(2) by simp
    moreover have "i div hc < n div hc"
    proof (rule ccontr)
      assume "\<not> i div hc < n div hc"
      hence "n div hc * hc \<le> i div hc * hc" by simp
      thus False using div_mult_mod_eq [of i hc] div_mult_mod_eq [of n hc] i by linarith
    qed
    ultimately show "i \<in> (\<lambda>k. k * hc + n mod hc) ` {..<n div hc}" by blast
  next
    fix i assume "i \<in> (\<lambda>k. k * hc + n mod hc) ` {..<n div hc}"
    then obtain k where k: "k < n div hc" "i = k * hc + n mod hc" by blast
    have "Suc k * hc \<le> n div hc * hc" using k(1) by (intro mult_le_mono1) simp
    hence "k * hc + hc \<le> n div hc * hc" by simp
    hence "i < n" using k(2) div_mult_mod_eq [of n hc] mod_less_divisor [OF assms, of n] by linarith
    thus "i \<in> {i. i < n \<and> i mod hc = n mod hc}" using k(2) assms by simp
  qed
  moreover have "inj_on (\<lambda>k. k * hc + n mod hc) {..<n div hc}" using assms by (auto simp: inj_on_def)
  ultimately show ?thesis by (simp add: groups_with_hash_def card_image)
qed

lemma concat_update_distinct:
  assumes "distinct (concat xss)" "h < length xss" "\<forall>c\<in>set (concat xss). c < (x :: nat)"
  shows "distinct (concat (xss[h := xss ! h @ [x]]))" "set (concat (xss[h := xss ! h @ [x]])) = insert x (set (concat xss))"
proof -
  have s: "concat xss = concat (take h xss) @ xss ! h @ concat (drop (Suc h) xss)"
    using id_take_nth_drop [OF assms(2)] by (metis concat.simps(2) concat_append)
  have u: "concat (xss[h := xss ! h @ [x]]) = concat (take h xss) @ (xss ! h @ [x]) @ concat (drop (Suc h) xss)"
    using assms(2) by (simp add: upd_conv_take_nth_drop)
  have x: "x \<notin> set (concat xss)" using assms(3) by blast
  show "distinct (concat (xss[h := xss ! h @ [x]]))" using assms(1) x unfolding u s by auto
  show "set (concat (xss[h := xss ! h @ [x]])) = insert x (set (concat xss))" unfolding u s by auto
qed

lemma count_fits: "m \<le> n + 1 \<Longrightarrow> n < 2 ^ 62 \<Longrightarrow> min (m + 1) usize_max = m + 1"
  by (simp add: usize_max_def)

lemma assign_group_inv:
  assumes inv: "layout_inv hc n l" and hc: "0 < hc" and n: "n < 2 ^ 62"
  shows "layout_inv hc (Suc n) (assign_group hc n l)"
proof -
  let ?h = "n mod hc" and ?k = "n div hc"
  have h: "?h < hc" using hc by simp
  have len: "length (gl_by_hash l) = hc" "length (gl_counts l) = hc" "length (gl_groups l) = n"
    and cnt: "\<forall>h<hc. gl_counts l ! h = groups_with_hash hc n h \<and> length (gl_by_hash l ! h) = (groups_with_hash hc n h + 1) div 2"
    and ids: "distinct (concat (gl_by_hash l))" "\<forall>c\<in>set (concat (gl_by_hash l)). c < gl_next l" "gl_next l \<le> n + 1"
    and grp: "\<forall>i<n. gl_groups l ! i = (i mod hc, gl_by_hash l ! (i mod hc) ! (i div hc div 2))"
    using inv by (auto simp: layout_inv_def)
  have k: "gl_counts l ! ?h = ?k" "length (gl_by_hash l ! ?h) = (?k + 1) div 2" using cnt h groups_before [OF hc, of n] by auto
  have kn: "?k \<le> n" by simp
  define by_hash where "by_hash = (if even ?k then (gl_by_hash l)[?h := gl_by_hash l ! ?h @ [gl_next l]] else gl_by_hash l)"
  have grow: "(m + 1) div 2 \<le> m div 2 \<longleftrightarrow> even m" for m :: nat by presburger
  have sat: "min (?k + 1) usize_max = ?k + 1" "min (gl_next l + 1) usize_max = gl_next l + 1"
    by (rule count_fits [OF _ n], use kn ids(3) in linarith)+
  have a: "assign_group hc n l = \<lparr>gl_by_hash = by_hash, gl_counts = (gl_counts l)[?h := ?k + 1],
      gl_next = (if even ?k then gl_next l + 1 else gl_next l), gl_groups = gl_groups l @ [(?h, by_hash ! ?h ! (?k div 2))]\<rparr>"
    by (cases l) (use k sat grow in \<open>simp add: assign_group_def Let_def group_hash_index_def credential_cohort_index_def
        GROUPS_PER_CREDENTIAL_def by_hash_def\<close>)
  have keep: "by_hash ! g ! j = gl_by_hash l ! g ! j" if "g < hc" "j < length (gl_by_hash l ! g)" for g j
    using that len by (auto simp: by_hash_def nth_list_update nth_append)
  have cnt': "length (by_hash ! g) = (groups_with_hash hc (Suc n) g + 1) div 2" if "g < hc" for g
    using that cnt len k groups_before [OF hc, of n] by (auto simp: by_hash_def groups_with_hash_Suc nth_list_update)
  have old: "gl_groups l ! i = (i mod hc, by_hash ! (i mod hc) ! (i div hc div 2))" if i: "i < n" for i
  proof -
    have "i div hc div 2 < length (gl_by_hash l ! (i mod hc))"
    proof -
      have "groups_with_hash hc (Suc i) (i mod hc) \<le> groups_with_hash hc n (i mod hc)"
        unfolding groups_with_hash_def by (rule card_mono) (use i in auto)
      hence "i div hc + 1 \<le> groups_with_hash hc n (i mod hc)" using groups_before [OF hc, of i] by (simp add: groups_with_hash_Suc)
      thus ?thesis using cnt hc by auto
    qed
    thus ?thesis using grp i keep hc by simp
  qed
  have ids': "distinct (concat by_hash) \<and> (\<forall>c\<in>set (concat by_hash). c < (if even ?k then gl_next l + 1 else gl_next l))"
    using concat_update_distinct [OF ids(1) _ ids(2), of ?h] ids h len by (auto simp: by_hash_def less_Suc_eq)
  show ?thesis unfolding layout_inv_def a
    using len h ids' ids(3) cnt cnt' old k by (auto simp: by_hash_def nth_append groups_with_hash_Suc nth_list_update less_Suc_eq)
qed

lemma run_layout_inv:
  assumes "0 < hc" "n < 2 ^ 62"
  shows "layout_inv hc n (run_groups_layout n hc)"
  using assms(2)
proof (induction n)
  case 0
  show ?case by (simp add: layout_inv_def run_groups_layout_def groups_with_hash_def)
next
  case (Suc n)
  have "run_groups_layout (Suc n) hc = assign_group hc n (run_groups_layout n hc)" by (simp add: run_groups_layout_def)
  thus ?case using assign_group_inv [OF _ assms(1), of n] Suc by simp
qed

lemma concat_index_mem: "a < length xss \<Longrightarrow> b < length (xss ! a) \<Longrightarrow> xss ! a ! b \<in> set (concat xss)"
  unfolding set_concat by (blast intro: nth_mem)

lemma distinct_concat_index:
  "distinct (concat xss) \<Longrightarrow> h < length xss \<Longrightarrow> g < length xss \<Longrightarrow> i < length (xss ! h) \<Longrightarrow> j < length (xss ! g)
   \<Longrightarrow> xss ! h ! i = xss ! g ! j \<longleftrightarrow> h = g \<and> i = j"
proof (induction xss arbitrary: h g)
  case (Cons xs xss)
  have d: "distinct xs" "distinct (concat xss)" "set xs \<inter> set (concat xss) = {}"
    using Cons.prems(1) unfolding concat.simps distinct_append by blast+
  consider "h = 0" "g = 0" | g' where "h = 0" "g = Suc g'" | h' where "h = Suc h'" "g = 0" | h' g' where "h = Suc h'" "g = Suc g'"
    by (cases h; cases g) blast+
  thus ?case
  proof cases
    case 1 thus ?thesis using nth_eq_iff_index_eq [OF d(1), of i j] Cons.prems(4,5) by simp
  next
    case (2 g')
    hence "xs ! i \<in> set xs" "xss ! g' ! j \<in> set (concat xss)" using Cons.prems(3-5) by (simp_all add: concat_index_mem del: set_concat)
    hence "xs ! i \<noteq> xss ! g' ! j" using d(3) by (metis disjoint_iff)
    thus ?thesis using 2 by simp
  next
    case (3 h')
    hence "xs ! j \<in> set xs" "xss ! h' ! i \<in> set (concat xss)" using Cons.prems(2,4,5) by (simp_all add: concat_index_mem del: set_concat)
    hence "xss ! h' ! i \<noteq> xs ! j" using d(3) by (metis disjoint_iff)
    thus ?thesis using 3 by simp
  next
    case (4 h' g')
    thus ?thesis using Cons.IH [OF d(2), of h' g'] Cons.prems(2-5) by (simp del: set_concat)
  qed
qed simp

lemma cohort_pair: "{i. i mod hc = h \<and> i div hc div 2 = q} \<subseteq> {2 * q * hc + h, (2 * q + 1) * hc + h}" for hc h q :: nat
proof
  fix i assume "i \<in> {i. i mod hc = h \<and> i div hc div 2 = q}"
  hence i: "i mod hc = h" "i div hc div 2 = q" by auto
  have "i div hc = 2 * q \<or> i div hc = 2 * q + 1" using i(2) by linarith
  thus "i \<in> {2 * q * hc + h, (2 * q + 1) * hc + h}" using div_mult_mod_eq [of i hc] i(1) by auto
qed

lemma worker_ids_consecutive: "concat (map (\<lambda>i. group_worker_ids (i + 1)) [0..<n]) = [1..<9 * n + 1]"
proof (induction n)
  case (Suc n)
  have "group_worker_ids (n + 1) = [9 * n + 1..<9 * Suc n + 1]" 
    by (simp add: group_worker_ids_def WORKERS_PER_GROUP_def mult.commute)
  moreover have "[1..<9 * Suc n + 1] = [1..<9 * n + 1] @ [9 * n + 1..<9 * Suc n + 1]" 
    using upt_add_eq_append [of 1 "9 * n + 1" 9] by (simp add: add.commute add.left_commute)
  ultimately show ?case using Suc by simp
qed simp

text \<open>Which workers share credentials. The groups go to the call hashes in turn; two groups use the same credentials if and only if
  they have the same hash and are neighbours of a pair among its groups, so credentials are
  used by at most two groups, that is 18 workers; and the workers of \<open>n\<close> groups are numbered 1 to \<open>9 n\<close> without gaps.\<close>

theorem cohorts_share_credentials:
  assumes "0 < hc" "n < 2 ^ 62"
  defines "gs \<equiv> gl_groups (run_groups_layout n hc)"
  shows "length gs = n \<and> concat (map (\<lambda>i. group_worker_ids (i + 1)) [0..<n]) = [1..<9 * n + 1]
    \<and> (\<forall>i\<in>{..<n}. fst (gs ! i) = i mod hc)
    \<and> (\<forall>i\<in>{..<n}. \<forall>j\<in>{..<n}. snd (gs ! i) = snd (gs ! j) \<longleftrightarrow> i mod hc = j mod hc \<and> i div hc div 2 = j div hc div 2)
    \<and> (\<forall>c. card {i \<in> {..<n}. snd (gs ! i) = c} * WORKERS_PER_GROUP \<le> WORKERS_PER_CREDENTIAL)"
proof -
  let ?l = "run_groups_layout n hc"
  note inv = run_layout_inv [OF assms(1,2), unfolded layout_inv_def]
  have g: "gs ! i = (i mod hc, gl_by_hash ?l ! (i mod hc) ! (i div hc div 2))" if "i < n" for i using inv that by (simp add: gs_def)
  have range: "i mod hc < length (gl_by_hash ?l)" "i div hc div 2 < length (gl_by_hash ?l ! (i mod hc))" if "i < n" for i
  proof -
    have "groups_with_hash hc (Suc i) (i mod hc) \<le> groups_with_hash hc n (i mod hc)"
      unfolding groups_with_hash_def by (rule card_mono) (use that in auto)
    hence "i div hc + 1 \<le> groups_with_hash hc n (i mod hc)" using groups_before [OF assms(1), of i] by (simp add: groups_with_hash_Suc)
    thus "i div hc div 2 < length (gl_by_hash ?l ! (i mod hc))" "i mod hc < length (gl_by_hash ?l)" using inv assms(1) by auto
  qed
  have same: "snd (gs ! i) = snd (gs ! j) \<longleftrightarrow> i mod hc = j mod hc \<and> i div hc div 2 = j div hc div 2" if "i < n" "j < n" for i j
    using distinct_concat_index [OF _ range(1) [OF that(1)] range(1) [OF that(2)] range(2) [OF that(1)] range(2) [OF that(2)]]
      inv g that by auto
  have "card {i \<in> {..<n}. snd (gs ! i) = c} \<le> 2" for c
  proof (cases "\<exists>i<n. snd (gs ! i) = c")
    case True
    then obtain j where j: "j < n" "snd (gs ! j) = c" by blast
    have "{i \<in> {..<n}. snd (gs ! i) = c} \<subseteq> {i. i mod hc = j mod hc \<and> i div hc div 2 = j div hc div 2}" using same j by auto
    also note cohort_pair
    finally have "card {i \<in> {..<n}. snd (gs ! i) = c}
        \<le> card {2 * (j div hc div 2) * hc + j mod hc, (2 * (j div hc div 2) + 1) * hc + j mod hc}" by (intro card_mono) simp_all
    thus ?thesis by (rule order_trans) (simp add: card_insert_le_m1)
  next
    case False
    hence "{i \<in> {..<n}. snd (gs ! i) = c} = {}" by auto
    thus ?thesis by (metis card.empty zero_le)
  qed
  hence "card {i \<in> {..<n}. snd (gs ! i) = c} * WORKERS_PER_GROUP \<le> WORKERS_PER_CREDENTIAL" for c
    by (simp add: WORKERS_PER_GROUP_def WORKERS_PER_CREDENTIAL_def GROUPS_PER_CREDENTIAL_def)
  moreover have "length gs = n" using inv by (simp add: gs_def)
  ultimately show ?thesis using g same worker_ids_consecutive by simp
qed

lemma cohorts_share_credentials_witness:
  "let gs = gl_groups (run_groups_layout 6 2) in snd (gs ! 0) = snd (gs ! 2) \<and> snd (gs ! 0) \<noteq> snd (gs ! 4)
     \<and> snd (gs ! 0) \<noteq> snd (gs ! 1)"
proof -
  have "0 < (2 :: nat)" "6 < (2 :: nat) ^ 62" by simp_all
  from cohorts_share_credentials [OF this] have s: "\<forall>i\<in>{..<6}. \<forall>j\<in>{..<6}.
      snd (gl_groups (run_groups_layout 6 2) ! i) = snd (gl_groups (run_groups_layout 6 2) ! j)
        \<longleftrightarrow> i mod 2 = j mod 2 \<and> i div 2 div 2 = j div 2 div 2" by blast
  have d: "(0 :: nat) mod 2 = 0" "(1 :: nat) mod 2 = 1" "(2 :: nat) mod 2 = 0" "(4 :: nat) mod 2 = 0"
    "(0 :: nat) div 2 div 2 = 0" "(2 :: nat) div 2 div 2 = 0" "(4 :: nat) div 2 div 2 = 1" by simp_all
  show ?thesis unfolding Let_def
    using s [THEN bspec, of 0, THEN bspec, of 2] s [THEN bspec, of 0, THEN bspec, of 4] s [THEN bspec, of 0, THEN bspec, of 1]
    unfolding d by simp
qed

end
