(* ===== verification/Worker.thy ===== *)
theory Worker
  imports Credentials WorkerControl StreamControl TurnEndpoint
begin

text \<open>
  The life of a worker (\<open>worker.rs\<close>): the classification of the error that ended a session, the delay before
  the next attempt, what becomes of the credentials, and the loop around the sessions. The session itself
  is \<open>run_session\<close>; its outcome is an argument, and so are the clocks, the random draws and what other tasks do meanwhile.
  Times are milliseconds.
\<close>

section \<open>Errors\<close>

text \<open>A cause of an error's chain: its text and what it downcasts to. The texts of the model hold one character per
  code point below 256; the only text outside of it that is searched for, the two Russian words for a dead hash, is a flag.\<close>

datatype io_kind = ConnectionReset | ConnectionAborted | BrokenPipe | OtherIo

datatype cause_kind = PlainCause | AllocateCause | RequestCause int | IoCause io_kind "int option"

record cause =
  cs_text :: string
  cs_kind :: cause_kind

record worker_error =
  we_causes :: "cause list"
  we_dead_hash :: bool

definition message_of :: "worker_error \<Rightarrow> string" where
  "message_of e = error_text (map cs_text (we_causes e))"

text \<open>The alternate form of \<open>anyhow\<close>: the whole chain, separated by colons.\<close>

fun chain_text :: "string list \<Rightarrow> string" where
  "chain_text [] = []"
| "chain_text [t] = t"
| "chain_text (t # u # ts) = t @ '': '' @ chain_text (u # ts)"

fun turn_stun_code :: "cause list \<Rightarrow> int option" where
  "turn_stun_code [] = None"
| "turn_stun_code (c # cs) = (case cs_kind c of RequestCause code \<Rightarrow> Some code | _ \<Rightarrow> turn_stun_code cs)"

text \<open>\<open>TurnAllocateError::stun_code\<close> searches the chain below it.\<close>

fun turn_allocate_stun_code :: "cause list \<Rightarrow> int option" where
  "turn_allocate_stun_code [] = None"
| "turn_allocate_stun_code (c # cs) = (case cs_kind c of
     AllocateCause \<Rightarrow> (case turn_stun_code cs of Some code \<Rightarrow> Some code | None \<Rightarrow> turn_allocate_stun_code cs)
   | _ \<Rightarrow> turn_allocate_stun_code cs)"

definition contains_any :: "string list \<Rightarrow> string \<Rightarrow> bool" where
  "contains_any markers text \<longleftrightarrow> list_ex (\<lambda>marker. contains marker text) markers"

definition is_turn_allocation_quota :: "worker_error \<Rightarrow> string \<Rightarrow> bool" where
  "is_turn_allocation_quota e message \<longleftrightarrow> turn_allocate_stun_code (we_causes e) = Some 486
     \<or> (contains ''turn allocate'' message
        \<and> contains_any [''stun error 486'', ''allocation quota reached'', ''quota reached''] message)"

definition is_turn_allocation_mismatch :: "worker_error \<Rightarrow> string \<Rightarrow> bool" where
  "is_turn_allocation_mismatch e message = (let code = turn_stun_code (we_causes e) in
     if code = Some 437 then True
     else if code = Some 400 \<and> contains ''channelbind'' message then True
     else contains ''stun error 437'' message \<or> (contains ''stun error 400'' message \<and> contains ''channelbind'' message)
       \<or> error_is_allocation_mismatch (map cs_text (we_causes e)))"

definition should_invalidate_turn_credentials :: "worker_error \<Rightarrow> string \<Rightarrow> bool" where
  "should_invalidate_turn_credentials e message = (case turn_stun_code (we_causes e) of
     Some code \<Rightarrow> code = 401 \<or> code = 438 \<or> code = 441
   | None \<Rightarrow> contains ''turn '' message
       \<and> contains_any [''stun error 401'', ''stun error 438'', ''stun error 441'', ''unauthorized'', ''wrong credential'',
           ''authentication failed''] message)"

text \<open>The texts that follow the occurrences of a needle; a search resumes behind an occurrence.\<close>

function texts_after :: "string \<Rightarrow> string \<Rightarrow> string list" where
  "texts_after needle s = (if needle = [] \<or> s = [] then []
     else if starts_with s needle then drop (length needle) s # texts_after needle (drop (length needle) s)
     else texts_after needle (tl s))"
  by pat_completeness auto

termination by (relation "measure (\<lambda>(needle, s). length s)") auto

declare texts_after.simps [simp del]

definition contains_os_error_code :: "string \<Rightarrow> nat \<Rightarrow> bool" where
  "contains_os_error_code message code \<longleftrightarrow> list_ex (\<lambda>rest. case rest of [] \<Rightarrow> True | c # _ \<Rightarrow> digit c = None)
     (texts_after (''os error '' @ decimal code) message)"

definition down_codes :: "nat list" where
  "down_codes = [100, 101, 113, 10050, 10051, 10065]"

definition is_down_cause :: "cause \<Rightarrow> bool" where
  "is_down_cause c = (case cs_kind c of IoCause _ (Some code) \<Rightarrow> code \<in> int ` set down_codes | _ \<Rightarrow> False)"

definition is_local_network_down :: "worker_error \<Rightarrow> bool" where
  "is_local_network_down e = (if list_ex is_down_cause (we_causes e) then True
     else let message = to_lower (chain_text (map cs_text (we_causes e))) in
       contains_any [''network is unreachable'', ''network is down'', ''no route to host'', ''no route to network'',
         ''enetunreach'', ''enetdown'', ''ehostunreach''] message
       \<or> list_ex (contains_os_error_code message) down_codes)"

definition is_reset_cause :: "cause \<Rightarrow> bool" where
  "is_reset_cause c = (case cs_kind c of IoCause kind _ \<Rightarrow> kind = ConnectionReset \<or> kind = ConnectionAborted \<or> kind = BrokenPipe
     | _ \<Rightarrow> False)"

definition is_remote_tcp_stream_reset :: "worker_error \<Rightarrow> string \<Rightarrow> bool" where
  "is_remote_tcp_stream_reset e message \<longleftrightarrow> list_ex is_reset_cause (we_causes e)
     \<or> contains_any [''connection reset by peer'', ''connection aborted'', ''broken pipe''] message"

definition is_transport_timeout :: "string \<Rightarrow> bool" where
  "is_transport_timeout message \<longleftrightarrow>
     contains_any [''transaction timeout'', ''request timeout'', ''i/o timeout'', ''timed out'', ''deadline has elapsed''] message"

section \<open>Delays\<close>

definition worker_retry_delay_with_jitter :: "nat \<Rightarrow> nat \<Rightarrow> nat" where
  "worker_retry_delay_with_jitter attempt jitter_ms =
    (let shift = min (attempt - 1) 4; base_ms = min (min (250 * 2 ^ shift) u64_max) 4000
     in sat_add_u64 base_ms (min jitter_ms 250))"

definition worker_retry_delay :: "nat \<Rightarrow> nat \<Rightarrow> nat" where
  "worker_retry_delay attempt random = worker_retry_delay_with_jitter attempt (random mod 251)"

definition tcp_stream_retry_delay :: "nat \<Rightarrow> nat" where
  "tcp_stream_retry_delay attempt = quota_rotation_delay (attempt - 1)"

section \<open>What the workers share\<close>

record worker_shared =
  wk_creds :: group_credentials
  wk_flight :: config_flight
  wk_gate :: pause_gate
  wk_idle :: idle_state
  wk_repair :: "repair_slot list"
  wk_pacer :: start_pacer
  wk_events :: events
  wk_network_log :: log_gate
  wk_turn_log :: log_gate
  wk_wrap_log :: log_gate
  wk_getconf_log :: log_gate

definition with_cache :: "(credential_cache \<Rightarrow> credential_cache) \<Rightarrow> worker_shared \<Rightarrow> worker_shared" where
  "with_cache f w = w\<lparr>wk_creds := (wk_creds w)\<lparr>gc_cache := f (gc_cache (wk_creds w))\<rparr>\<rparr>"

text \<open>A session in progress, as its worker remembers it.\<close>

record worker_round =
  wr_id :: nat
  wr_lease :: credential_lease
  wr_acquired :: bool
  wr_generation :: u64
  wr_cursor :: nat
  wr_attempt :: nat

text \<open>The outcome of a session: its error, what was observed of it, the connections left at its end, whether the context is
  cancelled when the configuration is considered and when the worker decides, the random draws of the
  decision in the order of their places in the text, and the two clocks.\<close>

record session_report =
  sr_error :: "worker_error option"
  sr_ready :: bool
  sr_started :: bool
  sr_active :: int
  sr_cancelled_early :: bool
  sr_cancelled :: bool
  sr_random :: "nat \<Rightarrow> nat"
  sr_log_now :: nat
  sr_event_now :: nat

datatype next_move = Stop | Again | AfterDelay nat

section \<open>After a session\<close>

text \<open>What is settled at once: the lease is given back when no allocation was started, the guard of the configuration
  flight is dropped, and after a full outage the configuration will be requested again.\<close>

definition settle_session :: "worker_round \<Rightarrow> session_report \<Rightarrow> worker_shared \<Rightarrow> nat \<times> worker_shared" where
  "settle_session r report w =
    (let w1 = (if sr_started report then w else with_cache (release_lease (wr_lease r)) w);
         attempt = (if sr_ready report then 0 else wr_attempt r);
         w2 = w1\<lparr>wk_flight := flight_drop (wr_acquired r) (wk_flight w1)\<rparr>;
         w3 = (if should_refresh_configuration (sr_ready report) (sr_error report \<noteq> None) (sr_active report) (sr_cancelled_early report)
               then w2\<lparr>wk_flight := (wk_flight w2)\<lparr>cf_sent := False\<rparr>\<rparr> else w2)
     in (attempt, w3))"

definition network_timed_out :: "session_report \<Rightarrow> worker_shared \<Rightarrow> worker_shared" where
  "network_timed_out report w = w\<lparr>wk_events := network_timeout (sr_event_now report) (wk_events w)\<rparr>"

text \<open>The errors that concern neither credentials nor the local network; the delay is that of the ladder unless set here.\<close>

definition fatal_markers :: "string list" where
  "fatal_markers = [''FATAL_AUTH'', ''FATAL_PROTOCOL'', ''FATAL_HANDSHAKE'']"

definition report_retry :: "session_report \<Rightarrow> string \<Rightarrow> worker_shared \<Rightarrow> worker_shared" where
  "report_retry report lower w = (let now = sr_log_now report in
     if contains ''wrap_auth_timeout'' lower then w\<lparr>wk_wrap_log := snd (log_observe now (wk_wrap_log w))\<rparr>
     else if contains ''getconf'' lower \<and> contains ''timeout'' lower
       then w\<lparr>wk_getconf_log := snd (log_observe now (wk_getconf_log w))\<rparr>
     else if contains ''turn '' lower \<and> contains ''transaction timeout'' lower
       then w\<lparr>wk_turn_log := snd (log_observe now (wk_turn_log w))\<rparr>
     else w)"

definition connection_error :: "worker_error \<Rightarrow> session_report \<Rightarrow> nat \<Rightarrow> nat \<Rightarrow> worker_shared \<Rightarrow> nat \<times> worker_shared" where
  "connection_error e report attempt delay w =
    (let message = message_of e; lower = to_lower message;
         w1 = (if is_transport_timeout lower then network_timed_out report w else w);
         (delay1, w2) = (if contains_any fatal_markers message \<or> we_dead_hash e
            then ((5 + sr_random report 3 mod 6) * 1000, w1) else (delay, report_retry report lower w1));
         delay2 = (if contains ''getconf'' lower then min (worker_retry_delay attempt (sr_random report 4)) 1000 else delay1);
         delay3 = (if contains ''error 29'' lower \<or> contains ''cannot create socket'' lower
            then (2 + sr_random report 5 mod 3) * 1000 else delay2)
     in (delay3, w2))"

text \<open>An error that is no planned end: the attempt it leaves, the delay, and the state shared.\<close>

definition failed_session :: "transport_mode \<Rightarrow> worker_round \<Rightarrow> session_report \<Rightarrow> worker_error \<Rightarrow> nat \<Rightarrow> worker_shared
    \<Rightarrow> nat \<times> nat \<times> worker_shared" where
  "failed_session mode r report e attempt0 w =
    (let lower = to_lower (message_of e); lease = wr_lease r; random = sr_random report;
         attempt1 = min (attempt0 + 1) usize_max;
         credentials_invalid = should_invalidate_turn_credentials e lower;
         (attempt, delay, w1) = (if credentials_invalid
            then (0, 100 + random 2 mod 51, with_cache (\<lambda>c. snd (invalidate lease c)) w)
            else (attempt1, worker_retry_delay attempt1 (random 1), w));
         cache = gc_cache (wk_creds w1)
     in if is_turn_allocation_quota e lower then
          (case rotate_after_quota lease cache of (rotation, cache') \<Rightarrow>
            (0, case rotation of QuotaRotated quota_delay \<Rightarrow> quota_delay | QuotaReplaced \<Rightarrow> 50 + random 3 mod 151,
             with_cache (\<lambda>_. cache') w1))
        else if is_turn_allocation_mismatch e lower then
          (case retry_after_mismatch lease cache of (outcome, cache') \<Rightarrow>
            (0, case outcome of MismatchRotated \<Rightarrow> 100 + random 3 mod 51 | _ \<Rightarrow> 50 + random 3 mod 51, with_cache (\<lambda>_. cache') w1))
        else if credentials_invalid then (attempt, delay, w1)
        else if mode = ModeTcpTls \<and> is_remote_tcp_stream_reset e lower then (attempt, tcp_stream_retry_delay attempt, w1)
        else if is_local_network_down e then
          (let w2 = network_timed_out report w1 in
            (attempt, 250 + random 3 mod 751, w2\<lparr>wk_network_log := snd (log_observe (sr_log_now report) (wk_network_log w2))\<rparr>))
        else (case connection_error e report attempt delay w1 of (delay', w2) \<Rightarrow> (attempt, delay', w2)))"

text \<open>The ends that are planned or leave the credentials out of doubt: a network handover, a repair, an exhausted rebinding.\<close>

definition planned_end :: "worker_round \<Rightarrow> session_report \<Rightarrow> string \<Rightarrow> worker_shared \<Rightarrow> (nat \<times> worker_shared) option" where
  "planned_end r report lower w = (let random = sr_random report 1 in
     if contains ''net_rebind'' lower then Some (20 + random mod 80, w)
     else if contains ''target_repair'' lower then
       Some (50 + random mod 151, if wr_generation r < credential_generation (wr_id r) (wk_repair w)
         then with_cache (\<lambda>c. snd (invalidate (wr_lease r) c)) w else w)
     else if contains ''turn channel rebind retry exhausted'' lower then Some (50 + random mod 151, w)
     else None)"

definition after_session :: "transport_mode \<Rightarrow> worker_round \<Rightarrow> session_report \<Rightarrow> worker_shared
    \<Rightarrow> next_move \<times> nat \<times> worker_shared" where
  "after_session mode r report w0 = (case settle_session r report w0 of (attempt, w) \<Rightarrow>
     if sr_cancelled report \<or> gc_unavailable (wk_creds w) then (Stop, attempt, w)
     else if (case sr_error report of Some e \<Rightarrow> contains ''IDLE_PARK'' (message_of e) | None \<Rightarrow> False)
       then (Again, 0, if sr_started report then with_cache (release_lease (wr_lease r)) w else w)
     else if \<not> gate_allows (wr_id r) (wk_gate w) (wk_idle w) then (Again, attempt, w)
     else case sr_error report of
       None \<Rightarrow> (AfterDelay (worker_retry_delay (max attempt 1) (sr_random report 0)), attempt, w)
     | Some e \<Rightarrow> (case planned_end r report (to_lower (message_of e)) w of
         Some (delay, w1) \<Rightarrow> (AfterDelay delay, 0, w1)
       | None \<Rightarrow> (case failed_session mode r report e attempt w of (attempt1, delay, w1) \<Rightarrow> (AfterDelay delay, attempt1, w1))))"

section \<open>The worker\<close>

text \<open>The points at which \<open>worker_loop\<close> awaits something, and the pause of \<open>supervise_worker\<close> after a panic.\<close>

datatype worker_phase =
    AtGate nat | Seeking nat | Pacing nat credential_lease | AtSecondGate nat credential_lease
  | InSession worker_round | Resting nat nat | Crashed | Finished

record worker =
  w_id :: nat
  w_cursor :: nat
  w_phase :: worker_phase

text \<open>What resumes it: a look at the gate, a call of \<open>get\<close>, the start pacer, the allocation of its session, the end of its
  session, the end of a delay, a panic, and the abortion of its task. The flags tell whether the context is cancelled then.\<close>

datatype worker_input =
    GateCheck bool | GetLease get_env bool | Pace nat bool | Allocated | SessionEnds session_report
  | Rested bool | Panicked bool | Aborted

definition announce :: "notice list \<Rightarrow> events \<Rightarrow> events" where
  "announce = fold (\<lambda>n. case n of CallUnavailable hash code \<Rightarrow> call_unavailable hash code | _ \<Rightarrow> emit n)"

definition seek_lease :: "get_env \<Rightarrow> bool \<Rightarrow> nat \<Rightarrow> worker_shared \<Rightarrow> worker_phase \<times> worker_shared" where
  "seek_lease env cancelled attempt w =
    (if gc_unavailable (wk_creds w) then (Finished, w)
     else case get_credentials env (wk_creds w) of (lease, _, notices, g) \<Rightarrow>
       (let w1 = w\<lparr>wk_creds := g, wk_events := announce notices (wk_events w)\<rparr> in
         case lease of Some l \<Rightarrow> (Pacing attempt l, w1)
         | None \<Rightarrow> (if cancelled \<or> gc_unavailable g then Finished else Seeking attempt, w1)))"

definition open_session :: "worker \<Rightarrow> nat \<Rightarrow> credential_lease \<Rightarrow> worker_shared \<Rightarrow> worker_round \<times> worker_shared" where
  "open_session x attempt lease w = (case flight_acquire (wk_flight w) of (acquired, f) \<Rightarrow>
     (\<lparr>wr_id = w_id x, wr_lease = lease, wr_acquired = acquired, wr_generation = credential_generation (w_id x) (wk_repair w),
       wr_cursor = w_cursor x, wr_attempt = attempt\<rparr>, w\<lparr>wk_flight := f\<rparr>))"

definition note_allocation :: "worker_round \<Rightarrow> worker_shared \<Rightarrow> worker_shared" where
  "note_allocation r w = (let w1 = with_cache (record_allocation (wr_lease r)) w in
     w1\<lparr>wk_events := network_recovered (wk_events w1)\<rparr>)"

definition drop_guard :: "worker_phase \<Rightarrow> worker_shared \<Rightarrow> worker_shared" where
  "drop_guard phase w = (case phase of InSession r \<Rightarrow> w\<lparr>wk_flight := flight_drop (wr_acquired r) (wk_flight w)\<rparr> | _ \<Rightarrow> w)"

fun worker_step :: "transport_mode \<Rightarrow> worker_input \<Rightarrow> worker \<times> worker_shared \<Rightarrow> worker \<times> worker_shared" where
  "worker_step mode inp (x, w) = (case (w_phase x, inp) of
     (AtGate attempt, GateCheck cancelled) \<Rightarrow>
       (x\<lparr>w_phase := if gate_allows (w_id x) (wk_gate w) (wk_idle w) then Seeking attempt
          else if cancelled then Finished else AtGate attempt\<rparr>, w)
   | (Seeking attempt, GetLease env cancelled) \<Rightarrow>
       (case seek_lease env cancelled attempt w of (phase, w1) \<Rightarrow> (x\<lparr>w_phase := phase\<rparr>, w1))
   | (Pacing attempt lease, Pace now cancelled) \<Rightarrow>
       (case pacer_wait now cancelled (wk_pacer w) of (slot, p) \<Rightarrow> (let w1 = w\<lparr>wk_pacer := p\<rparr> in
         if slot = None then (x\<lparr>w_phase := Finished\<rparr>, with_cache (release_lease lease) w1)
         else (x\<lparr>w_phase := AtSecondGate attempt lease\<rparr>, w1)))
   | (AtSecondGate attempt lease, GateCheck cancelled) \<Rightarrow>
       (if gate_allows (w_id x) (wk_gate w) (wk_idle w) then
          (case open_session x attempt lease w of (r, w1) \<Rightarrow> (x\<lparr>w_cursor := (w_cursor x + 1) mod 2 ^ 64, w_phase := InSession r\<rparr>, w1))
        else if cancelled then (x\<lparr>w_phase := Finished\<rparr>, with_cache (release_lease lease) w) else (x, w))
   | (InSession r, Allocated) \<Rightarrow> (x, note_allocation r w)
   | (InSession r, SessionEnds report) \<Rightarrow> (case after_session mode r report w of (move, attempt, w1) \<Rightarrow>
       (x\<lparr>w_phase := (case move of Stop \<Rightarrow> Finished | Again \<Rightarrow> AtGate attempt | AfterDelay delay \<Rightarrow> Resting attempt delay)\<rparr>, w1))
   | (Resting attempt _, Rested cancelled) \<Rightarrow> (x\<lparr>w_phase := if cancelled then Finished else AtGate attempt\<rparr>, w)
   | (Crashed, Rested cancelled) \<Rightarrow> (x\<lparr>w_phase := if cancelled then Finished else AtGate 0\<rparr>, w)
   | (Finished, _) \<Rightarrow> (x, w)
   | (phase, Panicked cancelled) \<Rightarrow> (x\<lparr>w_phase := if cancelled then Finished else Crashed\<rparr>, drop_guard phase w)
   | (phase, Aborted) \<Rightarrow> (x\<lparr>w_phase := Finished\<rparr>, drop_guard phase w)
   | _ \<Rightarrow> (x, w))"

end
