(* ===== verification/WorkerProps.thy ===== *)
theory WorkerProps
  imports Worker
begin

text \<open>
  The properties of the workers of a cohort, which share credentials, gates, and the configuration flight:
  how long they live, when they retry, what they do to the credentials, and how many of them use one credential.
\<close>

section \<open>What a worker does to the cache\<close>

text \<open>The change from one cache to another is made of operations on one lease, among them at most \<open>n\<close> returns of it.\<close>

definition uses_lease :: "credential_lease \<Rightarrow> nat \<Rightarrow> credential_cache \<Rightarrow> credential_cache \<Rightarrow> bool" where
  "uses_lease l n c c' \<longleftrightarrow> (\<exists>ops. set ops \<subseteq> {OpRelease l, OpInvalidate l, OpQuota l, OpMismatch l, OpRecord l}
     \<and> length (filter (\<lambda>x. x = OpRelease l) ops) \<le> n \<and> c' = snd (cache_run ops c))"

lemma cache_run_append:
  "snd (cache_run (xs @ ys) c) = snd (cache_run ys (snd (cache_run xs c)))"
  by (induction xs arbitrary: c) (auto simp: split_beta)

lemma uses_trans: "uses_lease l m c c1 \<Longrightarrow> uses_lease l n c1 c2 \<Longrightarrow> uses_lease l (m + n) c c2"
  unfolding uses_lease_def
  by (elim exE conjE, rule_tac x = "ops @ opsa" in exI) (auto simp: cache_run_append)

lemma uses_refl [simp]: "uses_lease l n c c"
  unfolding uses_lease_def by (rule exI [of _ "[]"]) simp

lemma uses_release [simp]: "0 < n \<Longrightarrow> uses_lease l n c (release_lease l c)"
  unfolding uses_lease_def by (rule exI [of _ "[OpRelease l]"]) simp

lemma uses_others [simp]:
  "uses_lease l n c (snd (invalidate l c))" "uses_lease l n c (snd (rotate_after_quota l c))"
  "uses_lease l n c (snd (retry_after_mismatch l c))" "uses_lease l n c (record_allocation l c)"
  unfolding uses_lease_def
  by (rule exI [of _ "[OpInvalidate l]"] exI [of _ "[OpQuota l]"] exI [of _ "[OpMismatch l]"] exI [of _ "[OpRecord l]"], simp)+

abbreviation cache_of :: "worker_shared \<Rightarrow> credential_cache" where
  "cache_of w \<equiv> gc_cache (wk_creds w)"

lemma cache_of_with [simp]: "cache_of (with_cache f w) = f (cache_of w)"
  by (simp add: with_cache_def)

lemma with_cache_keeps [simp]:
  "gc_unavailable (wk_creds (with_cache f w)) = gc_unavailable (wk_creds w)" "wk_gate (with_cache f w) = wk_gate w"
  "wk_idle (with_cache f w) = wk_idle w" "wk_repair (with_cache f w) = wk_repair w" "wk_flight (with_cache f w) = wk_flight w"
  by (simp_all add: with_cache_def)

lemma timed_out_keeps [simp]: "wk_creds (network_timed_out report w) = wk_creds w"
  by (simp add: network_timed_out_def)

lemma report_retry_keeps [simp]: "wk_creds (report_retry report lower w) = wk_creds w"
  by (simp add: report_retry_def Let_def)

lemma connection_error_keeps: "connection_error e report attempt delay w = (d, w') \<Longrightarrow> wk_creds w' = wk_creds w"
  by (auto simp: connection_error_def Let_def split: if_splits prod.splits)

lemma settle_session_spec:
  assumes "settle_session r report w = (attempt, w')"
  shows "attempt = (if sr_ready report then 0 else wr_attempt r)"
    "cache_of w' = (if sr_started report then cache_of w else release_lease (wr_lease r) (cache_of w))"
    "gc_unavailable (wk_creds w') = gc_unavailable (wk_creds w)" "wk_repair w' = wk_repair w"
    "wk_gate w' = wk_gate w" "wk_idle w' = wk_idle w"
  using assms by (auto simp: settle_session_def Let_def split: if_splits)

lemma failed_session_uses:
  assumes "failed_session mode r report e attempt0 w = (attempt, delay, w')"
  shows "uses_lease (wr_lease r) 0 (cache_of w) (cache_of w')" "gc_unavailable (wk_creds w') = gc_unavailable (wk_creds w)"
proof -
  let ?lower = "to_lower (message_of e)" and ?l = "wr_lease r"
  let ?w1 = "if should_invalidate_turn_credentials e ?lower then with_cache (\<lambda>c. snd (invalidate ?l c)) w else w"
  have u1: "uses_lease ?l 0 (cache_of w) (cache_of ?w1)" "gc_unavailable (wk_creds ?w1) = gc_unavailable (wk_creds w)" by simp_all
  have "cache_of w' \<in> {cache_of ?w1, snd (rotate_after_quota ?l (cache_of ?w1)), snd (retry_after_mismatch ?l (cache_of ?w1))}
     \<and> gc_unavailable (wk_creds w') = gc_unavailable (wk_creds ?w1)"
    using assms unfolding failed_session_def Let_def
    by (auto split: if_splits prod.splits dest: connection_error_keeps)
  moreover have "uses_lease ?l 0 (cache_of ?w1) c" if "c \<in> {cache_of ?w1, snd (rotate_after_quota ?l (cache_of ?w1)),
      snd (retry_after_mismatch ?l (cache_of ?w1))}" for c using that by auto
  ultimately show "uses_lease ?l 0 (cache_of w) (cache_of w')" "gc_unavailable (wk_creds w') = gc_unavailable (wk_creds w)"
    using uses_trans [OF u1(1), of 0] u1(2) by auto
qed

lemma planned_end_uses:
  assumes "planned_end r report lower w = Some (delay, w')"
  shows "uses_lease (wr_lease r) 0 (cache_of w) (cache_of w')" "gc_unavailable (wk_creds w') = gc_unavailable (wk_creds w)"
  using assms by (auto simp: planned_end_def Let_def split: if_splits)

lemma after_session_uses:
  assumes "after_session mode r report w = (move, attempt, w')"
  shows "uses_lease (wr_lease r) 1 (cache_of w) (cache_of w')" "gc_unavailable (wk_creds w') = gc_unavailable (wk_creds w)"
proof -
  let ?l = "wr_lease r" and ?k = "if sr_started report then 0 else 1 :: nat"
  obtain a0 w0 where s: "settle_session r report w = (a0, w0)" by force
  note S = settle_session_spec [OF s]
  have u0: "uses_lease ?l ?k (cache_of w) (cache_of w0)" using S(2) by simp
  have "\<exists>n\<le>1 - ?k. uses_lease ?l n (cache_of w0) (cache_of w') \<and> gc_unavailable (wk_creds w') = gc_unavailable (wk_creds w0)"
    using assms s unfolding after_session_def
    by (auto split: if_splits option.splits prod.splits intro: exI [of _ 0] exI [of _ "1 :: nat"]
        simp: planned_end_uses failed_session_uses)
  then obtain n where n: "n \<le> 1 - ?k" "uses_lease ?l n (cache_of w0) (cache_of w')"
    "gc_unavailable (wk_creds w') = gc_unavailable (wk_creds w0)" by blast
  show "uses_lease ?l 1 (cache_of w) (cache_of w')"
    using uses_trans [OF u0 n(2)] n(1) unfolding uses_lease_def by (auto split: if_splits)
  show "gc_unavailable (wk_creds w') = gc_unavailable (wk_creds w)" using n(3) S(3) by simp
qed

section \<open>How many workers hold one credential\<close>

definition holds_lease :: "nat \<Rightarrow> worker_phase \<Rightarrow> nat" where
  "holds_lease g phase = (case phase of Pacing _ l \<Rightarrow> if cl_generation l = g then 1 else 0
     | AtSecondGate _ l \<Rightarrow> if cl_generation l = g then 1 else 0
     | InSession r \<Rightarrow> if cl_generation (wr_lease r) = g then 1 else 0 | _ \<Rightarrow> 0)"

definition holders :: "nat \<Rightarrow> worker list \<Rightarrow> nat" where
  "holders g xs = sum_list (map (\<lambda>x. holds_lease g (w_phase x)) xs)"

lemma lease_op_keeps_next: "x \<in> {OpRelease l, OpInvalidate l, OpQuota l, OpMismatch l, OpRecord l} \<Longrightarrow>
   ch_next (snd (cache_step x c)) = ch_next c \<and> fst (cache_step x c) = None"
  by (auto simp: release_lease_def invalidate_def rotate_after_quota_def retry_after_mismatch_def record_allocation_def split: option.splits)

lemma lease_ops_count:
  assumes "set ops \<subseteq> {OpRelease l, OpInvalidate l, OpQuota l, OpMismatch l, OpRecord l}" "cache_inv c" "ch_next c < u64_max"
  shows "cache_inv (snd (cache_run ops c)) \<and> ch_next (snd (cache_run ops c)) = ch_next c
    \<and> attempts_left g (snd (cache_run ops c)) \<le> attempts_left g c
        + (if cl_generation l = g then length (filter (\<lambda>x. x = OpRelease l) ops) else 0)"
  using assms
proof (induction ops arbitrary: c)
  case (Cons x ops)
  obtain o1 c1 where st: "cache_step x c = (o1, c1)" by force
  have x: "x \<in> {OpRelease l, OpInvalidate l, OpQuota l, OpMismatch l, OpRecord l}" using Cons.prems(1) by simp
  have c1: "ch_next c1 = ch_next c" "cache_inv c1"
    using lease_op_keeps_next [OF x, of c] cache_step_inv [OF Cons.prems(2), of x] st by simp_all
  have "attempts_left g c1 \<le> attempts_left g c + released g [x]"
    using cache_step_count(1) [OF Cons.prems(2,3) st, of g] by simp
  moreover have "released g [x] = (if cl_generation l = g \<and> x = OpRelease l then 1 else 0)"
    using x by (auto simp: released_def)
  ultimately show ?case using Cons.IH [of c1] Cons.prems c1 st by (auto simp: split_beta)
qed simp

lemma uses_lease_count:
  assumes "uses_lease l n c c'" "cache_inv c" "ch_next c < u64_max"
  shows "cache_inv c'" "ch_next c' = ch_next c" "attempts_left g c' \<le> attempts_left g c + (if cl_generation l = g then n else 0)"
  using assms lease_ops_count [OF _ assms(2,3), of _ l g] unfolding uses_lease_def by fastforce+

lemma get_credentials_count:
  assumes inv: "cache_inv (gc_cache gr)" and room: "Suc (ch_next (gc_cache gr)) < u64_max"
    and got: "get_credentials env gr = (lease, d, ns, gr')"
  shows "cache_inv (gc_cache gr') \<and> ch_next (gc_cache gr') \<le> Suc (ch_next (gc_cache gr))
    \<and> grants g lease + attempts_left g (gc_cache gr') \<le> attempts_left g (gc_cache gr)"
proof -
  have room1: "ch_next (gc_cache gr) < u64_max" using room by simp
  let ?c = "gc_cache gr"
  obtain l0 c0 where r0: "reserve ?c = (l0, c0)" by force
  have C0: "cache_inv c0" "ch_next c0 = ch_next ?c" "grants g l0 + attempts_left g c0 \<le> attempts_left g ?c"
    using cache_step_inv [OF inv, of OpReserve] cache_step_count(1) [OF inv room1, of OpReserve l0 c0 g] r0
    by (auto simp: released_def reserve_def Let_def split: option.splits if_splits)
  show ?thesis
  proof (cases "gc_cache gr' \<in> {?c, c0} \<and> (lease = None \<or> lease = l0 \<and> gc_cache gr' = c0)")
    case True
    thus ?thesis using C0 inv by (auto simp: grants_def)
  next
    case False
    then obtain creds b c1 where f: "ge_fetched env = Some (FetchOk creds)" "store_credentials creds c0 = (b, c1)" "l0 = None"
      using got r0 unfolding get_credentials_def Let_def
      by (auto split: if_splits option.splits fetched.splits prod.splits bool.splits)
    have S: "cache_inv c1" "ch_next c1 \<le> Suc (ch_next c0)" "attempts_left g c1 \<le> attempts_left g c0"
      using cache_step_inv [OF C0(1), of "OpStore creds"] cache_step_count(1) [OF C0(1), of "OpStore creds" None c1 g] C0(2) room f(2)
      by (auto simp: released_def grants_def store_credentials_def Let_def sat_add_u64_def split: if_splits option.splits)
    have Rv: "cache_inv (snd (reserve c1)) \<and> ch_next (snd (reserve c1)) = ch_next c1 \<and>
       grants g (fst (reserve c1)) + attempts_left g (snd (reserve c1)) \<le> attempts_left g c1"
      using cache_step_inv [OF S(1), of OpReserve] cache_step_count(1) [OF S(1) _ , of OpReserve "fst (reserve c1)" "snd (reserve c1)" g] S(2) C0(2) room
      by (auto simp: released_def reserve_def Let_def split: option.splits if_splits)
    have Qd: "cache_inv (snd (next_quota_delay c1)) \<and> ch_next (snd (next_quota_delay c1)) = ch_next c1 \<and>
       attempts_left g (snd (next_quota_delay c1)) = attempts_left g c1"
      using S(1) by (auto simp: next_quota_delay_def cache_inv_def attempts_left_def split: option.splits)
    consider (none) "lease = None" "gc_cache gr' = c1" | (delay) "lease = None" "gc_cache gr' = snd (next_quota_delay c1)"
      | (lease) "lease = fst (reserve c1)" "gc_cache gr' = snd (reserve c1)"
      using got r0 f False unfolding get_credentials_def Let_def
      by (auto split: if_splits option.splits fetched.splits prod.splits bool.splits)
    thus ?thesis
    proof cases
      case none
      thus ?thesis using S C0(2,3) by (simp add: grants_def)
    next
      case delay
      thus ?thesis using S C0(2,3) Qd by (simp add: grants_def)
    next
      case lease
      show ?thesis using S C0(2,3) Rv unfolding lease by linarith
    qed
  qed
qed

lemma drop_guard_keeps [simp]: "wk_creds (drop_guard phase w) = wk_creds w"
  by (simp add: drop_guard_def split: worker_phase.splits)

lemma with_cache_inv_count:
  assumes "cache_inv (cache_of w)" "ch_next (cache_of w) < u64_max"
  shows "cache_inv (release_lease l (cache_of w)) \<and> ch_next (release_lease l (cache_of w)) = ch_next (cache_of w)
    \<and> attempts_left g (release_lease l (cache_of w)) \<le> attempts_left g (cache_of w) + (if cl_generation l = g then 1 else 0)"
  using uses_lease_count [OF uses_release [of 1] assms] by (metis zero_less_one)

lemma release_count:
  assumes "cache_inv (cache_of w)" "ch_next (cache_of w) < u64_max"
  shows "cache_inv (release_lease l (cache_of w))" "ch_next (release_lease l (cache_of w)) = ch_next (cache_of w)"
    "attempts_left g (release_lease l (cache_of w)) \<le> Suc (attempts_left g (cache_of w))"
    "cl_generation l \<noteq> g \<Longrightarrow> attempts_left g (release_lease l (cache_of w)) \<le> attempts_left g (cache_of w)"
  using with_cache_inv_count [OF assms, of l g] by (auto split: if_splits)

lemma seek_lease_count:
  assumes "cache_inv (cache_of w)" "Suc (ch_next (cache_of w)) < u64_max" "seek_lease env cancelled attempt w = (phase, w')"
  shows "cache_inv (cache_of w') \<and> ch_next (cache_of w') \<le> Suc (ch_next (cache_of w))
    \<and> ( holds_lease g phase + attempts_left g (cache_of w') \<le> attempts_left g (cache_of w))"
proof (cases "gc_unavailable (wk_creds w)")
  case True
  thus ?thesis using assms by (simp add: seek_lease_def holds_lease_def)
next
  case False
  obtain lease d ns gr where got: "get_credentials env (wk_creds w) = (lease, d, ns, gr)" by (rule prod_cases4)
  have "wk_creds w' = gr" "holds_lease g phase = grants g lease"
    using assms(3) False got by (auto simp: seek_lease_def Let_def holds_lease_def grants_def split: option.splits if_splits)
  thus ?thesis using get_credentials_count [OF assms(1,2) got, of g] by simp
qed

lemma worker_step_count:
  assumes inv: "cache_inv (cache_of w)" and room: "Suc (ch_next (cache_of w)) < u64_max"
    and st: "worker_step mode inp (x, w) = (x', w')"
  shows "cache_inv (cache_of w') \<and> ch_next (cache_of w') \<le> Suc (ch_next (cache_of w))
    \<and> (
        holds_lease g (w_phase x') + attempts_left g (cache_of w') \<le> holds_lease g (w_phase x) + attempts_left g (cache_of w))"
proof -
  have room1: "ch_next (cache_of w) < u64_max" using room by simp
  note R = release_count [OF inv room1]
  note H = holds_lease_def
  show ?thesis
  proof (cases inp)
    case (GetLease env cancelled)
    show ?thesis
    proof (cases "\<exists>attempt. w_phase x = Seeking attempt")
      case True
      then obtain attempt phase where "w_phase x = Seeking attempt" "seek_lease env cancelled attempt w = (phase, w')" "w_phase x' = phase"
        using st GetLease by (auto split: prod.splits)
      thus ?thesis using seek_lease_count [OF inv room, of env cancelled attempt phase w' g]
        by (simp add: holds_lease_def [of g "Seeking attempt"])
    next
      case False
      thus ?thesis using st GetLease inv by (cases "w_phase x") auto
    qed
  next
    case (SessionEnds report)
    show ?thesis
    proof (cases "\<exists>r. w_phase x = InSession r")
      case True
      then obtain r move attempt where r: "w_phase x = InSession r" "after_session mode r report w = (move, attempt, w')"
          "holds_lease g (w_phase x') = 0"
        using st SessionEnds by (auto simp: H split: prod.splits next_move.splits)
      note U = uses_lease_count [OF after_session_uses(1) [OF r(2)] inv room1]
      show ?thesis using U(1,2) U(3) [of g] r(1,3) by (simp add: H [of g "InSession r"])
    next
      case False
      thus ?thesis using st SessionEnds inv by (cases "w_phase x") auto
    qed
  next
    case (Pace now cancelled)
    thus ?thesis using st inv R by (cases "w_phase x") (auto simp: H Let_def split: prod.splits if_splits)
  next
    case (GateCheck cancelled)
    thus ?thesis using st inv R by (cases "w_phase x") (auto simp: H open_session_def split: prod.splits if_splits)
  next
    case Allocated
    have "cache_inv (record_allocation l (cache_of w)) \<and> ch_next (record_allocation l (cache_of w)) = ch_next (cache_of w)
       \<and> attempts_left g (record_allocation l (cache_of w)) \<le> attempts_left g (cache_of w)" for l
      using uses_lease_count [OF uses_others(4) [of l 0] inv room1] by simp
    thus ?thesis using st inv Allocated by (cases "w_phase x") (auto simp: H note_allocation_def Let_def)
  qed (use st inv in \<open>cases "w_phase x"; auto simp: H split: if_splits\<close>)+
qed

section \<open>A cohort\<close>

text \<open>What happens to a cohort: a step of one of its workers, the pause gate, idle mode, a repair command, and the answer to a
  configuration request.\<close>

datatype cohort_event =
    WorkerEvent nat worker_input | PauseEvent bool | IdleEvent idle_event | RepairEvent repair_event | DeliveryEvent bool

fun cohort_step :: "transport_mode \<Rightarrow> cohort_event \<Rightarrow> worker list \<times> worker_shared \<Rightarrow> worker list \<times> worker_shared" where
  "cohort_step mode (WorkerEvent i inp) (xs, w) = (if i < length xs
     then (case worker_step mode inp (xs ! i, w) of (x, w1) \<Rightarrow> (xs[i := x], w1)) else (xs, w))"
| "cohort_step mode (PauseEvent paused) (xs, w) = (xs, w\<lparr>wk_gate := set_paused paused (wk_gate w)\<rparr>)"
| "cohort_step mode (IdleEvent e) (xs, w) = (xs, w\<lparr>wk_idle := idle_step e (wk_idle w)\<rparr>)"
| "cohort_step mode (RepairEvent e) (xs, w) = (xs, w\<lparr>wk_repair := repair_step e (wk_repair w)\<rparr>)"
| "cohort_step mode (DeliveryEvent delivered) (xs, w) = (xs, w\<lparr>wk_flight := delivery_complete delivered (wk_flight w)\<rparr>)"

definition cohort_run :: "transport_mode \<Rightarrow> cohort_event list \<Rightarrow> worker list \<times> worker_shared \<Rightarrow> worker list \<times> worker_shared" where
  "cohort_run mode = fold (cohort_step mode)"

definition new_worker :: "nat \<Rightarrow> worker" where
  "new_worker i = \<lparr>w_id = i, w_cursor = 0, w_phase = AtGate 0\<rparr>"

lemma sum_list_bump: "i < length xs \<Longrightarrow> sum_list (map f (xs[i := x])) + f (xs ! i) = sum_list (map f xs) + (f x :: nat)"
  by (induction xs arbitrary: i) (auto split: nat.splits)

lemma cohort_step_count:
  assumes inv: "cache_inv (cache_of w)" and room: "Suc (ch_next (cache_of w)) < u64_max" and st: "cohort_step mode e (xs, w) = (xs', w')"
  shows "cache_inv (cache_of w') \<and> ch_next (cache_of w') \<le> Suc (ch_next (cache_of w))
    \<and> ( holders g xs' + attempts_left g (cache_of w') \<le> holders g xs + attempts_left g (cache_of w))"
proof (cases "\<exists>i inp. e = WorkerEvent i inp \<and> i < length xs")
  case True
  then obtain i inp x where e: "i < length xs" "worker_step mode inp (xs ! i, w) = (x, w')" "xs' = xs[i := x]"
    using st by (auto split: prod.splits)
  show ?thesis
    using worker_step_count [OF inv room e(2), of g] sum_list_bump [OF e(1), of "\<lambda>x. holds_lease g (w_phase x)" x]
    unfolding holders_def e(3) by linarith
next
  case False
  thus ?thesis using st inv by (cases e) auto
qed

lemma cohort_run_count:
  "cohort_run mode es (xs, w) = (xs', w') \<Longrightarrow> cache_inv (cache_of w) \<Longrightarrow> ch_next (cache_of w) + length es < u64_max - 1 \<Longrightarrow>
   holders g xs' + attempts_left g (cache_of w') \<le> holders g xs + attempts_left g (cache_of w)"
proof (induction es arbitrary: xs w)
  case (Cons e es)
  obtain xs1 w1 where st: "cohort_step mode e (xs, w) = (xs1, w1)" by force
  have r: "cohort_run mode es (xs1, w1) = (xs', w')" using Cons.prems(1) st by (simp add: cohort_run_def)
  have room: "Suc (ch_next (cache_of w)) < u64_max" using Cons.prems(3) by simp
  have C: "cache_inv (cache_of w1)" "ch_next (cache_of w1) \<le> Suc (ch_next (cache_of w))"
    "holders g xs1 + attempts_left g (cache_of w1) \<le> holders g xs + attempts_left g (cache_of w)"
    using cohort_step_count [OF Cons.prems(2) room st, of g] by simp_all
  show ?case using Cons.IH [OF r C(1)] C(2,3) Cons.prems(3) by simp
qed (simp add: cohort_run_def)

text \<open>Whatever happens to the workers of a cohort (errors, panics, cancellations, repairs, quota and mismatch errors, pauses, in any order), the
  workers that hold a lease from one fetch of credentials, from its grant to the end of their session, are never more than 18. A fetch is known by its
  generation: when a later fetch brings the same credentials again, their leases are counted apart.\<close>

lemma credential_share_bounded:
  assumes "cache_of w = empty_cache" "length es < u64_max - 1" "cohort_run mode es (map new_worker ids, w) = (xs, w')"
  shows "holders g xs \<le> 18"
proof -
  have "holders g (map new_worker ids) = 0" by (induction ids) (simp_all add: holders_def new_worker_def holds_lease_def)
  moreover have "attempts_left g empty_cache \<le> 18"
    by (simp add: attempts_left_def empty_cache_def WORKERS_PER_CREDENTIAL_def WORKERS_PER_GROUP_def GROUPS_PER_CREDENTIAL_def)
  moreover have "cache_inv (cache_of w)" "ch_next (cache_of w) + length es < u64_max - 1"
    using assms(1,2) cache_inv_empty by (simp_all add: empty_cache_def)
  ultimately show ?thesis using cohort_run_count [OF assms(3), of g] assms(1) by simp
qed

definition sample_shared :: worker_shared where
  "sample_shared = \<lparr>wk_creds = \<lparr>gc_id = 1, gc_hash = ''abc'', gc_cache = empty_cache, gc_failures = 0, gc_unavailable = False\<rparr>,
     wk_flight = \<lparr>cf_sent = False, cf_in_flight = False\<rparr>, wk_gate = \<lparr>pg_paused = False, pg_notified = 0\<rparr>, wk_idle = initial_idle,
     wk_repair = new_repair_state 20, wk_pacer = \<lparr>sp_next = 0, sp_interval = 100\<rparr>, wk_events = new_events True,
     wk_network_log = new_log_gate, wk_turn_log = new_log_gate, wk_wrap_log = new_log_gate, wk_getconf_log = new_log_gate\<rparr>"

definition sample_fetch :: get_env where
  "sample_fetch = \<lparr>ge_cancelled = False, ge_unavailable = False, ge_fetched = Some (FetchOk (sample_credentials ''u'')),
     ge_random = 0, ge_wait_cancelled = False\<rparr>"

text \<open>Twenty workers ask for credentials when the first fetch has brought some: eighteen leases are of the first fetch.\<close>

definition sample_start :: "cohort_event list" where
  "sample_start = concat (map (\<lambda>i. [WorkerEvent i (GateCheck False), WorkerEvent i (GetLease sample_fetch False)]) [0..<20])"

lemma credential_share_bounded_witness:
  "holders 1 (fst (cohort_run ModeUdp sample_start (map new_worker [1..<21], sample_shared))) = 18"
proof -
  obtain xs w where r: "cohort_run ModeUdp sample_start (map new_worker [1..<21], sample_shared) = (xs, w)" by force
  have "length sample_start = 40" by code_simp
  hence "length sample_start < u64_max - 1" by (simp add: u64_max_def)
  from credential_share_bounded [OF _ this r, of 1] have "holders 1 xs \<le> 18" by (simp add: sample_shared_def)
  moreover have "18 \<le> holders 1 (fst (cohort_run ModeUdp sample_start (map new_worker [1..<21], sample_shared)))" by code_simp
  ultimately show ?thesis using r by simp
qed

section \<open>The life of a worker\<close>

lemma retry_delay_bounds [simp]: "250 \<le> worker_retry_delay a random" "worker_retry_delay a random \<le> 4250"
proof -
  obtain z where z: "z = (2 :: nat) ^ min (a - 1) 4" by simp
  have "(2 :: nat) ^ min (a - 1) 4 \<le> 2 ^ 4" by (rule power_increasing) simp_all
  hence p: "1 \<le> z" "z \<le> 16" by (simp_all add: z)
  have e: "worker_retry_delay a random = min (min (min (250 * z) u64_max) 4000 + min (random mod 251) 250) u64_max"
    by (simp add: worker_retry_delay_def worker_retry_delay_with_jitter_def sat_add_u64_def z)
  show "250 \<le> worker_retry_delay a random" using p unfolding e by (simp add: u64_max_def)
  show "worker_retry_delay a random \<le> 4250" unfolding e by (simp add: min_def)
qed

lemma quota_delay_bounds [simp]: "100 \<le> quota_rotation_delay n" "quota_rotation_delay n \<le> 1500"
  by (simp_all add: quota_rotation_delay_def)

definition sensible :: "nat \<Rightarrow> bool" where
  "sensible d \<longleftrightarrow> 20 \<le> d \<and> d \<le> 10000"

lemma sensible_draw: "0 < k \<Longrightarrow> 20 \<le> b \<Longrightarrow> b + k \<le> 10001 \<Longrightarrow> sensible (b + x mod k)"
  using mod_less_divisor [of k x] unfolding sensible_def by linarith

lemma sensible_ladders [simp]:
  "sensible (worker_retry_delay a random)" "sensible (quota_rotation_delay n)" "sensible (min (worker_retry_delay a random) 1000)"
  using retry_delay_bounds [of a random] quota_delay_bounds [of n] unfolding sensible_def by linarith+

lemma sensible_seconds:
  "sensible (5000 + x mod 6 * 1000)" "sensible (2000 + x mod 3 * 1000)"
proof -
  have "x mod 6 < 6" "x mod 3 < 3" by simp_all
  thus "sensible (5000 + x mod 6 * 1000)" "sensible (2000 + x mod 3 * 1000)" by (simp_all add: sensible_def)
qed

lemma connection_error_delay: "connection_error e report attempt delay w = (d, w') \<Longrightarrow> sensible delay \<Longrightarrow> sensible d"
  by (auto simp: connection_error_def Let_def algebra_simps sensible_seconds split: if_splits prod.splits)

lemma failed_session_delay:
  assumes "failed_session mode r report e attempt0 w = (attempt, delay, w')"
  shows "sensible delay \<and> attempt \<le> attempt0 + 1"
proof -
  have x: "sensible (100 + x mod 51)" "sensible (50 + x mod 151)" "sensible (50 + x mod 51)" "sensible (250 + x mod 751)" for x :: nat
    by (rule sensible_draw; simp)+
  show ?thesis using assms x unfolding failed_session_def Let_def
    by (auto split: if_splits prod.splits quota_rotation.splits allocation_mismatch.splits
        simp: rotate_after_quota_def tcp_stream_retry_delay_def dest: connection_error_delay split: option.splits)
qed

lemma planned_end_delay: "planned_end r report lower w = Some (delay, w') \<Longrightarrow> sensible delay"
  by (auto simp: planned_end_def Let_def split: if_splits intro!: sensible_draw)

lemma worker_retries_stop:
  "after_session mode r report w = (Stop, attempt, w') \<Longrightarrow> sr_cancelled report \<or> gc_unavailable (wk_creds w)"
  using settle_session_spec(3) [of r report w]
  by (auto simp: after_session_def split: if_splits option.splits prod.splits)

text \<open>C17: a failed session is never the end of a worker, nor does it make it hammer the network. After a session a worker
  stops exactly when the engine is cancelled or its call has become unavailable; otherwise it goes back to the gate, at once or after a delay
  between 20 milliseconds and 10 seconds, and its count of failures grows by one at most.\<close>

theorem worker_retries:
  assumes "after_session mode r report w = (move, attempt, w')"
  shows "(move = Stop \<longleftrightarrow> sr_cancelled report \<or> gc_unavailable (wk_creds w))
    \<and> (case move of AfterDelay delay \<Rightarrow> 20 \<le> delay \<and> delay \<le> 10000 | _ \<Rightarrow> True) \<and> attempt \<le> wr_attempt r + 1"
proof -
  obtain a0 w0 where s: "settle_session r report w = (a0, w0)" by force
  note S = settle_session_spec [OF s]
  have "(move = Stop \<longleftrightarrow> sr_cancelled report \<or> gc_unavailable (wk_creds w0))
    \<and> (case move of AfterDelay delay \<Rightarrow> sensible delay | _ \<Rightarrow> True) \<and> attempt \<le> a0 + 1"
    using assms s unfolding after_session_def
    by (auto split: if_splits option.splits prod.splits dest: planned_end_delay failed_session_delay)
  thus ?thesis using S(1,3) unfolding sensible_def by (auto split: next_move.splits if_splits)
qed

definition sample_round :: worker_round where
  "sample_round = \<lparr>wr_id = 1, wr_lease = \<lparr>cl_value = sample_credentials ''u'', cl_generation = 1\<rparr>, wr_acquired = False,
     wr_generation = 0, wr_cursor = 0, wr_attempt = 3\<rparr>"

definition plain_error :: "string \<Rightarrow> worker_error" where
  "plain_error t = \<lparr>we_causes = [\<lparr>cs_text = t, cs_kind = PlainCause\<rparr>], we_dead_hash = False\<rparr>"

definition sample_report :: "worker_error option \<Rightarrow> session_report" where
  "sample_report e = \<lparr>sr_error = e, sr_ready = False, sr_started = True, sr_active = 0, sr_cancelled_early = False, sr_cancelled = False,
     sr_random = (\<lambda>_. 7), sr_log_now = 50, sr_event_now = 60\<rparr>"

lemma worker_retries_witness:
  "\<exists>w'. after_session ModeUdp sample_round (sample_report (Some (plain_error ''GETCONF: no reply''))) sample_shared = (AfterDelay 1000, 4, w')
     \<and> 1000 \<le> (10000 :: nat)"
proof -
  let ?a = "after_session ModeUdp sample_round (sample_report (Some (plain_error ''GETCONF: no reply''))) sample_shared"
  have e: "fst ?a = AfterDelay 1000" "fst (snd ?a) = 4" by code_simp+
  obtain move attempt w' where r: "?a = (move, attempt, w')" by (rule prod_cases3)
  from worker_retries [OF r] e r show ?thesis by auto
qed

section \<open>When credentials are dropped\<close>

lemma lease_ops_current:
  "ch_current (release_lease l c) = None \<longleftrightarrow> ch_current c = None"
  "ch_current c = Some d \<Longrightarrow> ch_current (snd (invalidate l c)) = None \<Longrightarrow> lease_current l d"
  "ch_current c = Some d \<Longrightarrow> ch_current (snd (rotate_after_quota l c)) = None \<Longrightarrow> lease_current l d"
  "ch_current c = Some d \<Longrightarrow> ch_current (snd (retry_after_mismatch l c)) = None \<Longrightarrow> lease_current l d \<and> cc_mismatches d \<noteq> 0"
  by (auto simp: release_lease_def invalidate_def rotate_after_quota_def retry_after_mismatch_def split: option.splits if_splits)

lemma release_current:
  "ch_current c = Some d \<Longrightarrow> \<exists>d'. ch_current (release_lease l c) = Some d' \<and> cc_mismatches d' = cc_mismatches d
     \<and> lease_current k d' = lease_current k d"
  by (auto simp: release_lease_def lease_current_def split: option.splits)

text \<open>The reasons for which an error makes a worker drop the credentials it used.\<close>

definition drops_for :: "worker_error \<Rightarrow> cached_credentials \<Rightarrow> bool" where
  "drops_for e d \<longleftrightarrow> (let lower = to_lower (message_of e) in
     should_invalidate_turn_credentials e lower \<or> is_turn_allocation_quota e lower
     \<or> is_turn_allocation_mismatch e lower \<and> cc_mismatches d \<noteq> 0)"

lemma failed_session_drops:
  assumes f: "failed_session mode r report e attempt0 w = (attempt, delay, w')"
    and cur: "ch_current (cache_of w) = Some d" "ch_current (cache_of w') = None"
  shows "drops_for e d \<and> lease_current (wr_lease r) d"
proof (cases "should_invalidate_turn_credentials e (to_lower (message_of e))")
  case True
  hence "drops_for e d" by (simp add: drops_for_def Let_def)
  moreover have "lease_current (wr_lease r) d"
  proof (rule ccontr)
    assume n: "\<not> lease_current (wr_lease r) d"
    hence "snd (invalidate (wr_lease r) (cache_of w)) = cache_of w" using cur(1) by (simp add: invalidate_def)
    moreover have "snd (rotate_after_quota (wr_lease r) (cache_of w)) = cache_of w"
        "snd (retry_after_mismatch (wr_lease r) (cache_of w)) = cache_of w"
      using n cur(1) by (simp_all add: rotate_after_quota_def retry_after_mismatch_def)
    ultimately have "cache_of w' = cache_of w"
      using f True unfolding failed_session_def Let_def
      by (auto split: if_splits prod.splits dest: connection_error_keeps)
    thus False using cur by simp
  qed
  ultimately show ?thesis by blast
next
  case False
  have "cache_of w' = cache_of w \<or> is_turn_allocation_quota e (to_lower (message_of e)) \<and> cache_of w' = snd (rotate_after_quota (wr_lease r) (cache_of w))
     \<or> is_turn_allocation_mismatch e (to_lower (message_of e)) \<and> cache_of w' = snd (retry_after_mismatch (wr_lease r) (cache_of w))"
    using f False unfolding failed_session_def Let_def
    by (auto split: if_splits prod.splits dest: connection_error_keeps)
  thus ?thesis using cur lease_ops_current(3,4) [OF cur(1), of "wr_lease r"] unfolding drops_for_def Let_def by auto
qed

text \<open>C14: credentials are dropped for cause only. A session that ends makes its worker drop the credentials all workers of the cohort use only when
  they are still those it was given, and only after an authentication error (401, 438, 441), a quota error (486), a second
  mismatch error (437, or 400 of a channel binding), or when a repair command asks for new ones; never at the end of a
  parked session, of a network handover, or of a session that succeeded.\<close>

theorem credentials_dropped_for_cause:
  assumes a: "after_session mode r report w = (move, attempt, w')"
    and cur: "ch_current (cache_of w) = Some d" "ch_current (cache_of w') = None"
  shows "\<exists>e. sr_error report = Some e \<and> lease_current (wr_lease r) d \<and> move \<noteq> Stop
     \<and> \<not> contains ''IDLE_PARK'' (message_of e) \<and> \<not> contains ''net_rebind'' (to_lower (message_of e))
     \<and> (drops_for e d \<or> contains ''target_repair'' (to_lower (message_of e))
          \<and> wr_generation r < credential_generation (wr_id r) (wk_repair w))"
proof -
  obtain a0 w0 where s: "settle_session r report w = (a0, w0)" by force
  note S = settle_session_spec [OF s]
  obtain d0 where d0: "ch_current (cache_of w0) = Some d0" "cc_mismatches d0 = cc_mismatches d"
      "lease_current (wr_lease r) d0 = lease_current (wr_lease r) d"
    using release_current [OF cur(1), of "wr_lease r" "wr_lease r"] cur(1) S(2) by (cases "sr_started report") auto
  have dd: "drops_for e d0 = drops_for e d" for e by (simp add: drops_for_def d0(2))
  note C = lease_ops_current
  consider (planned) e delay where "sr_error report = Some e" "move = AfterDelay delay" "\<not> contains ''IDLE_PARK'' (message_of e)"
      "planned_end r report (to_lower (message_of e)) w0 = Some (delay, w')"
    | (failed) e delay where "sr_error report = Some e" "move = AfterDelay delay" "\<not> contains ''IDLE_PARK'' (message_of e)"
      "planned_end r report (to_lower (message_of e)) w0 = None" "failed_session mode r report e a0 w0 = (attempt, delay, w')"
    using a s cur(2) d0(1) unfolding after_session_def by (auto split: if_splits option.splits prod.splits simp: C(1))
  thus ?thesis
  proof cases
    case planned
    hence "contains ''target_repair'' (to_lower (message_of e)) \<and> \<not> contains ''net_rebind'' (to_lower (message_of e))
       \<and> wr_generation r < credential_generation (wr_id r) (wk_repair w0) \<and> cache_of w' = snd (invalidate (wr_lease r) (cache_of w0))"
      using cur(2) d0(1) by (auto simp: planned_end_def Let_def split: if_splits)
    thus ?thesis using planned C(2) [OF d0(1)] cur(2) d0(3) S(4) by auto
  next
    case failed
    hence "\<not> contains ''net_rebind'' (to_lower (message_of e))" by (auto simp: planned_end_def Let_def split: if_splits)
    thus ?thesis using failed failed_session_drops [OF failed(5) d0(1) cur(2)] d0(3) dd by auto
  qed
qed

text \<open>A quota error below the error of an allocation, whatever the texts.\<close>

definition quota_error :: worker_error where
  "quota_error = \<lparr>we_causes = [\<lparr>cs_text = ''TURN Allocate'', cs_kind = AllocateCause\<rparr>,
     \<lparr>cs_text = ''TURN Allocate failed'', cs_kind = RequestCause 486\<rparr>], we_dead_hash = False\<rparr>"

definition leased_shared :: worker_shared where
  "leased_shared = with_cache (\<lambda>c. snd (cache_run [OpStore (sample_credentials ''u''), OpReserve] c)) sample_shared"

lemma credentials_dropped_for_cause_witness:
  "\<exists>d. ch_current (cache_of leased_shared) = Some d \<and> drops_for quota_error d \<and> lease_current (wr_lease sample_round) d"
proof -
  let ?a = "after_session ModeUdp sample_round (sample_report (Some quota_error)) leased_shared"
  obtain move attempt w' where r: "?a = (move, attempt, w')" by (rule prod_cases3)
  have e: "ch_current (cache_of (snd (snd ?a))) = None" "ch_current (cache_of leased_shared) \<noteq> None"
    "\<not> contains ''target_repair'' (to_lower (message_of quota_error))" by code_simp+
  then obtain d where d: "ch_current (cache_of leased_shared) = Some d" by blast
  have n: "ch_current (cache_of w') = None" using e(1) by (simp add: r)
  from credentials_dropped_for_cause [OF r d n] d e(3) show ?thesis by (auto simp: sample_report_def)
qed

section \<open>When a worker ends\<close>

text \<open>The inputs that tell a worker to end.\<close>

definition told :: "worker_input \<Rightarrow> bool" where
  "told inp = (case inp of GateCheck c \<Rightarrow> c | GetLease _ c \<Rightarrow> c | Pace _ c \<Rightarrow> c | SessionEnds report \<Rightarrow> sr_cancelled report
     | Rested c \<Rightarrow> c | Panicked c \<Rightarrow> c | Aborted \<Rightarrow> True | Allocated \<Rightarrow> False)"

lemma get_credentials_unavailable:
  "get_credentials env g = (lease, d, ns, g') \<Longrightarrow> gc_unavailable g \<Longrightarrow> gc_unavailable g'"
  by (simp add: get_credentials_def)

lemma seek_lease_end:
  "seek_lease env cancelled attempt w = (phase, w') \<Longrightarrow> (phase = Finished \<longrightarrow> cancelled \<or> gc_unavailable (wk_creds w'))
     \<and> (gc_unavailable (wk_creds w) \<longrightarrow> gc_unavailable (wk_creds w'))"
  by (auto simp: seek_lease_def Let_def split: if_splits option.splits prod.splits)

lemma worker_step_end:
  assumes "worker_step mode inp (x, w) = (x', w')"
  shows "(w_phase x' = Finished \<and> w_phase x \<noteq> Finished \<longrightarrow> told inp \<or> gc_unavailable (wk_creds w'))
    \<and> (gc_unavailable (wk_creds w) \<longrightarrow> gc_unavailable (wk_creds w'))"
proof (cases inp)
  case (GetLease env cancelled)
  thus ?thesis using assms by (cases "w_phase x") (auto simp: told_def split: prod.splits dest: seek_lease_end)
next
  case (SessionEnds report)
  thus ?thesis using assms after_session_uses(2) worker_retries_stop
    by (cases "w_phase x") (auto simp: told_def split: prod.splits next_move.splits)
next
  case (Pace now cancelled)
  thus ?thesis using assms by (cases "w_phase x") (auto simp: told_def pacer_wait_def Let_def split: prod.splits if_splits)
next
  case (GateCheck cancelled)
  thus ?thesis using assms by (cases "w_phase x") (auto simp: told_def open_session_def split: prod.splits if_splits)
next
  case Allocated
  thus ?thesis using assms by (cases "w_phase x") (auto simp: told_def note_allocation_def Let_def)
qed (use assms in \<open>cases "w_phase x"; auto simp: told_def split: if_splits\<close>)+

lemma cohort_step_unavailable:
  assumes "cohort_step mode e (xs, w) = (xs', w')" "gc_unavailable (wk_creds w)"
  shows "gc_unavailable (wk_creds w')"
proof (cases "\<exists>i inp. e = WorkerEvent i inp \<and> i < length xs")
  case True
  then obtain i inp x where "worker_step mode inp (xs ! i, w) = (x, w')" using assms(1) by (auto simp del: worker_step.simps split: prod.splits)
  thus ?thesis using worker_step_end assms(2) by blast
next
  case False
  thus ?thesis using assms by (cases e) auto
qed

lemma cohort_run_unavailable:
  "cohort_run mode es (xs, w) = (xs', w') \<Longrightarrow> gc_unavailable (wk_creds w) \<Longrightarrow> gc_unavailable (wk_creds w')"
proof (induction es arbitrary: xs w)
  case (Cons e es)
  obtain xs1 w1 where st: "cohort_step mode e (xs, w) = (xs1, w1)" by force
  thus ?case using Cons.IH [of xs1 w1] cohort_step_unavailable [OF st Cons.prems(2)] Cons.prems(1) by (simp add: cohort_run_def)
qed (simp add: cohort_run_def)

lemma cohort_run_end:
  "cohort_run mode es (xs, w) = (xs', w') \<Longrightarrow> i < length xs \<Longrightarrow> w_phase (xs ! i) \<noteq> Finished \<Longrightarrow> w_phase (xs' ! i) = Finished \<Longrightarrow>
   (\<exists>inp. WorkerEvent i inp \<in> set es \<and> told inp) \<or> gc_unavailable (wk_creds w')"
proof (induction es arbitrary: xs w)
  case (Cons e es)
  obtain xs1 w1 where st: "cohort_step mode e (xs, w) = (xs1, w1)" by force
  have r: "cohort_run mode es (xs1, w1) = (xs', w')" using Cons.prems(1) st by (simp add: cohort_run_def)
  have len: "length xs1 = length xs" using st by (cases e) (auto split: if_splits prod.splits)
  show ?case
  proof (cases "w_phase (xs1 ! i) = Finished")
    case False
    thus ?thesis using Cons.IH [OF r _ False Cons.prems(4)] Cons.prems(2) len by auto
  next
    case True
    then obtain inp x where e: "e = WorkerEvent i inp" "worker_step mode inp (xs ! i, w) = (x, w1)" "w_phase x = Finished"
      using st Cons.prems(2,3) by (cases e) (auto split: if_splits prod.splits simp: nth_list_update simp del: worker_step.simps)
    thus ?thesis using worker_step_end [OF e(2)] cohort_run_unavailable [OF r] e Cons.prems(3) by auto
  qed
qed (simp add: cohort_run_def)

text \<open>C16: a worker lives as long as the engine. Whatever happens to the workers of a cohort, a worker ends only when it is told so, at a point where it waits
  and finds the engine cancelled or its task aborted, or when the call of its cohort has become unavailable.\<close>

theorem worker_lives:
  assumes "cohort_run mode es (map new_worker ids, w) = (xs, w')" "i < length ids" "w_phase (xs ! i) = Finished"
  shows "(\<exists>inp. WorkerEvent i inp \<in> set es \<and> told inp) \<or> gc_unavailable (wk_creds w')"
  using cohort_run_end [OF assms(1) _ _ assms(3)] assms(2) by (simp add: new_worker_def)

lemma worker_lives_witness:
  "(\<exists>inp. WorkerEvent 0 inp \<in> set [WorkerEvent 0 (Panicked False), WorkerEvent 0 (Rested True)] \<and> told inp)
     \<or> gc_unavailable (wk_creds (snd (cohort_run ModeUdp [WorkerEvent 0 (Panicked False), WorkerEvent 0 (Rested True)] ([new_worker 1], sample_shared))))"
proof -
  let ?es = "[WorkerEvent 0 (Panicked False), WorkerEvent 0 (Rested True)]"
  obtain xs w where r: "cohort_run ModeUdp ?es (map new_worker [1], sample_shared) = (xs, w)" by force
  hence "w_phase (xs ! 0) = Finished" by (auto simp: cohort_run_def new_worker_def)
  from worker_lives [OF r _ this] r show ?thesis by simp
qed

section \<open>When a worker comes back\<close>

text \<open>C15: a worker comes back. After a failed session, when its gate is open and credentials can be had, either the cached ones with a
  slot left or fresh ones that were not rejected before, a worker runs the next session after five resumptions, whatever the start pacer says,
  with a lease of the current credentials and the count of failures it had.\<close>

theorem worker_reconnects:
  assumes "w_phase x = Resting attempt delay" "gate_allows (w_id x) (wk_gate w) (wk_idle w)" "\<not> gc_unavailable (wk_creds w)"
    and creds: "(\<exists>c. ch_current (cache_of w) = Some c \<and> cc_attempts c < WORKERS_PER_CREDENTIAL)
      \<or> \<not> ge_cancelled env \<and> \<not> ge_unavailable env \<and> \<not> ge_wait_cancelled env
        \<and> (\<exists>fresh. ge_fetched env = Some (FetchOk fresh) \<and> ch_blocked (cache_of w) \<noteq> Some fresh)"
    and run: "fold (worker_step mode) [Rested False, GateCheck False, GetLease env False, Pace now False, GateCheck False] (x, w) = (x', w')"
  shows "\<exists>r c. w_phase x' = InSession r \<and> wr_attempt r = attempt \<and> wr_id r = w_id x
    \<and> ch_current (cache_of w') = Some c \<and> lease_current (wr_lease r) c"
proof -
  obtain lease d ns g where got: "get_credentials env (wk_creds w) = (Some lease, d, ns, g)"
    "\<not> gc_unavailable g" "\<exists>c. ch_current (gc_cache g) = Some c \<and> lease_current lease c"
  proof (cases "\<exists>c. ch_current (cache_of w) = Some c \<and> cc_attempts c < WORKERS_PER_CREDENTIAL")
    case True
    then obtain c where c: "ch_current (cache_of w) = Some c" "cc_attempts c < WORKERS_PER_CREDENTIAL" by blast
    show ?thesis
      by (rule that [of "\<lparr>cl_value = cc_value c, cl_generation = cc_generation c\<rparr>" 0 "[]" "(wk_creds w)\<lparr>gc_cache := snd (reserve (cache_of w))\<rparr>"])
        (use c assms(3) in \<open>auto simp: get_credentials_def reserve_def Let_def lease_current_def same_credentials_eq\<close>)
  next
    case False
    then obtain fresh where f: "\<not> ge_cancelled env" "\<not> ge_unavailable env" "\<not> ge_wait_cancelled env"
      "ge_fetched env = Some (FetchOk fresh)" "ch_blocked (cache_of w) \<noteq> Some fresh" using creds by blast
    have w: "0 < WORKERS_PER_CREDENTIAL" by (simp add: WORKERS_PER_CREDENTIAL_def WORKERS_PER_GROUP_def GROUPS_PER_CREDENTIAL_def)
    obtain c0 where r: "reserve (cache_of w) = (None, c0)" "ch_blocked c0 = ch_blocked (cache_of w)"
    proof (cases "ch_current (cache_of w)")
      case None
      thus ?thesis using that [of "cache_of w"] by (simp add: reserve_def Let_def)
    next
      case (Some c)
      thus ?thesis using that [of "(cache_of w)\<lparr>ch_current := None\<rparr>"] False by (simp add: reserve_def Let_def)
    qed
    define c1 where "c1 = snd (store_credentials fresh c0)"
    have st: "store_credentials fresh c0 = (True, c1)" "ch_current c1 = Some \<lparr>cc_value = fresh, cc_generation = ch_next c1,
        cc_attempts = 0, cc_mismatches = 0\<rparr>"
      using f(5) r(2) by (auto simp: c1_def store_credentials_def same_credentials_eq Let_def split: option.splits)
    define l where "l = \<lparr>cl_value = fresh, cl_generation = ch_next c1\<rparr>"
    have rc: "reserve c1 = (Some l, snd (reserve c1))" "\<exists>c. ch_current (snd (reserve c1)) = Some c \<and> lease_current l c"
      using st(2) w by (auto simp: reserve_def Let_def lease_current_def same_credentials_eq l_def)
    have "\<exists>d ns g. get_credentials env (wk_creds w) = (Some l, d, ns, g) \<and> \<not> gc_unavailable g \<and> gc_cache g = snd (reserve c1)"
      using f r(1) st(1) rc(1) assms(3) by (auto simp: get_credentials_def Let_def split: prod.splits)
    thus ?thesis using that rc(2) by metis
  qed
  let ?w1 = "w\<lparr>wk_creds := g, wk_events := announce ns (wk_events w)\<rparr>"
  have "seek_lease env False attempt w = (Pacing attempt lease, ?w1)" using got(1) assms(3) by (simp add: seek_lease_def)
  thus ?thesis using run assms(1,2) got(3) by (auto simp: pacer_wait_def Let_def open_session_def split: prod.splits)
qed

lemma worker_reconnects_witness:
  "\<exists>r. w_phase (fst (fold (worker_step ModeUdp) [Rested False, GateCheck False, GetLease sample_fetch False, Pace 7 False, GateCheck False]
     (\<lparr>w_id = 1, w_cursor = 0, w_phase = Resting 2 300\<rparr>, sample_shared))) = InSession r \<and> wr_attempt r = 2"
proof -
  let ?x = "\<lparr>w_id = 1, w_cursor = 0, w_phase = Resting 2 300\<rparr>"
  obtain x w where r: "fold (worker_step ModeUdp) [Rested False, GateCheck False, GetLease sample_fetch False, Pace 7 False, GateCheck False]
     (?x, sample_shared) = (x, w)" by force
  have "gate_allows 1 (wk_gate sample_shared) (wk_idle sample_shared)" "\<not> gc_unavailable (wk_creds sample_shared)"
    "ch_blocked (cache_of sample_shared) = None"
    by (simp_all add: sample_shared_def gate_allows_def allows_def initial_idle_def usize_max_def empty_cache_def)
  with worker_reconnects [of ?x 2 300 sample_shared sample_fetch ModeUdp 7 x w] r show ?thesis
    by (auto simp: sample_fetch_def)
qed

end
