(* ===== verification/VkAuth.thy ===== *)
theory VkAuth
  imports Credentials TurnEndpoint ErrorText "HOL-Library.Sublist"
begin

text \<open>
  How TURN credentials are obtained from VK (\<open>auth.rs\<close>): the classification of the service's answers, the two ways of
  authentication with their retries and fall-backs, and the check of call hashes. The answers of the HTTP
  exchanges, the captcha solver and random identities are arguments; the texts of errors, and what a text inside one could be mistaken for, are not modelled; a text has one character per code point below 256.
\<close>

section \<open>JSON\<close>

text \<open>A number is an integer of \<open>i64\<close> or \<open>u64\<close>, or a float, given by its cast to \<open>i64\<close>, which saturates.\<close>

datatype json = JNull | JBool bool | JInt int | JFloat int | JString string | JArray "json list" | JObject "(string \<times> json) list"

definition json_get :: "string \<Rightarrow> json \<Rightarrow> json option" where
  "json_get key v = (case v of JObject members \<Rightarrow> map_of members key | _ \<Rightarrow> None)"

definition json_text :: "json \<Rightarrow> string option" where
  "json_text v = (case v of JString s \<Rightarrow> Some s | _ \<Rightarrow> None)"

fun json_path :: "string list \<Rightarrow> json \<Rightarrow> json option" where
  "json_path [] v = Some v"
| "json_path (key # keys) v = (case json_get key v of None \<Rightarrow> None | Some w \<Rightarrow> json_path keys w)"

text \<open>An error of the authentication: the call is gone, the captcha has to wait, a captcha is required, or anything else.\<close>

datatype auth_error = CallGone int string | CaptchaWait | CaptchaRequired json | OtherAuthError

definition json_string :: "json \<Rightarrow> string list \<Rightarrow> auth_error + string" where
  "json_string v path = (case json_path path v of None \<Rightarrow> Inl OtherAuthError
     | Some w \<Rightarrow> (case json_text w of None \<Rightarrow> Inl OtherAuthError | Some s \<Rightarrow> Inr s))"

text \<open>A number read as \<open>f64\<close> and cast to \<open>i64\<close>: beyond 53 bits it is rounded to the nearest, ties to even.\<close>

definition i64_max :: int where "i64_max = 2 ^ 63 - 1"

fun bit_length :: "nat \<Rightarrow> nat" where
  "bit_length n = (if n = 0 then 0 else Suc (bit_length (n div 2)))"

declare bit_length.simps [simp del]

definition f64_cast :: "int \<Rightarrow> int" where
  "f64_cast n = (let a = nat \<bar>n\<bar>; u = 2 ^ (bit_length a - 53); q = a div u; r = a mod u;
     rounded = (if u < 2 * r \<or> 2 * r = u \<and> odd q then q + 1 else q) * u
   in min (if n < 0 then - int rounded else int rounded) i64_max)"

definition json_number :: "json \<Rightarrow> string list \<Rightarrow> auth_error + int" where
  "json_number v path = (case json_path path v of Some (JInt n) \<Rightarrow> Inr (f64_cast n) | Some (JFloat n) \<Rightarrow> Inr n | _ \<Rightarrow> Inl OtherAuthError)"

definition parse_i64 :: "string \<Rightarrow> int option" where
  "parse_i64 s = (case s of CHR ''-'' # r \<Rightarrow> (if r = [] then None else map_option (\<lambda>n. - int n) (digits (2 ^ 63) 0 r))
     | _ \<Rightarrow> map_option int (parse_unsigned (2 ^ 63 - 1) s))"

definition vk_error_code :: "json option \<Rightarrow> int" where
  "vk_error_code v = (case v of
     Some (JInt n) \<Rightarrow> min n i64_max
   | Some (JFloat n) \<Rightarrow> n
   | Some (JString s) \<Rightarrow> (case parse_i64 s of Some n \<Rightarrow> n | None \<Rightarrow> 0)
   | _ \<Rightarrow> 0)"

definition vk_error_message :: "json \<Rightarrow> string" where
  "vk_error_message e = (case (case json_get ''error_msg'' e of Some m \<Rightarrow> Some m | None \<Rightarrow> json_get ''message'' e) of
     Some m \<Rightarrow> (case json_text m of Some s \<Rightarrow> s | None \<Rightarrow> []) | None \<Rightarrow> [])"

definition is_fatal_call_code :: "int \<Rightarrow> bool" where
  "is_fatal_call_code code \<longleftrightarrow> code = 951 \<or> code = 954 \<or> 9000 \<le> code \<and> code \<le> 9999"

definition is_fatal_call_error :: "int \<Rightarrow> string \<Rightarrow> bool" where
  "is_fatal_call_error code message = (let normalized = to_lower (trim message) in
     is_fatal_call_code code \<or> contains ''call not found'' normalized \<or> contains ''invalid call join link'' normalized)"

definition check_fatal_call :: "json \<Rightarrow> auth_error + unit" where
  "check_fatal_call response = (case json_get ''error'' response of None \<Rightarrow> Inr ()
     | Some e \<Rightarrow> (let code = vk_error_code (json_get ''error_code'' e); message = vk_error_message e in
         if is_fatal_call_error code message then Inl (CallGone code message) else Inr ()))"

definition check_vk_error :: "json \<Rightarrow> auth_error + unit" where
  "check_vk_error response = (case json_get ''error'' response of None \<Rightarrow> Inr ()
     | Some e \<Rightarrow> bind_result (check_fatal_call response) (\<lambda>_.
         if vk_error_code (json_get ''error_code'' e) = 14
         then (case e of JObject _ \<Rightarrow> Inl (CaptchaRequired e) | _ \<Rightarrow> Inl OtherAuthError) else Inl OtherAuthError))"

definition check_ok_error :: "json \<Rightarrow> auth_error + unit" where
  "check_ok_error response = (let code = vk_error_code (json_get ''error_code'' response) in
     if code \<noteq> 0 then (let message = vk_error_message response in
       if is_fatal_call_error code message then Inl (CallGone code message) else Inl OtherAuthError)
     else Inr ())"

definition parse_turn_credentials :: "json \<Rightarrow> auth_error + turn_credentials" where
  "parse_turn_credentials response = (case json_get ''turn_server'' response of None \<Rightarrow> Inl OtherAuthError
   | Some turn \<Rightarrow>
      bind_result (json_string turn [''username'']) (\<lambda>username.
      bind_result (json_string turn [''credential'']) (\<lambda>password.
        case json_get ''urls'' turn of
          Some (JArray urls) \<Rightarrow> (let addresses = filter is_supported_turn_uri (map trim (List.map_filter json_text urls)) in
            if addresses = [] then Inl OtherAuthError
            else Inr \<lparr>tc_username = username, tc_password = password, tc_servers = addresses\<rparr>)
        | _ \<Rightarrow> Inl OtherAuthError)))"

section \<open>Escaping\<close>

definition utf8_char :: "char \<Rightarrow> bytes" where
  "utf8_char c = (let n = of_char c :: nat in if n < 128 then [word_of_nat n] else [word_of_nat (192 + n div 64), word_of_nat (128 + n mod 64)])"

definition utf8 :: "string \<Rightarrow> bytes" where
  "utf8 s = concat (map utf8_char s)"

definition hex_digit :: "nat \<Rightarrow> char" where
  "hex_digit n = (if n < 10 then char_of (48 + n) else char_of (55 + n))"

definition unreserved :: "byte \<Rightarrow> bool" where
  "unreserved b \<longleftrightarrow> 97 \<le> b \<and> b \<le> 122 \<or> 65 \<le> b \<and> b \<le> 90 \<or> 48 \<le> b \<and> b \<le> 57 \<or> b = 45 \<or> b = 95 \<or> b = 46 \<or> b = 126"

definition escape_byte :: "byte \<Rightarrow> string" where
  "escape_byte b = (if b = 32 then ''+'' else if unreserved b then [char_of (unat b)]
     else [CHR ''%'', hex_digit (unat b div 16), hex_digit (unat b mod 16)])"

definition query_escape :: "string \<Rightarrow> string" where
  "query_escape value = concat (map escape_byte (utf8 value))"

section \<open>The calls path\<close>

definition VK_CONNECT_CLIENT_ID :: string where "VK_CONNECT_CLIENT_ID = ''8093730''"
definition VK_CALLS_API_HOST :: string where "VK_CALLS_API_HOST = ''api.vk.me''"
definition VK_CALLS_API_VERSION :: string where "VK_CALLS_API_VERSION = ''5.276''"

record calls_identity =
  ci_device :: string
  ci_name :: string
  ci_ok_device :: string

text \<open>The five requests; the answer to each is a JSON value or none when the exchange fails.\<close>

definition call_url :: "string \<Rightarrow> string" where
  "call_url link = ''https://vk.com/call/join/'' @ link"

definition vk_method :: "string \<Rightarrow> string" where
  "vk_method name = ''https://'' @ VK_CALLS_API_HOST @ ''/method/'' @ name @ ''?v='' @ VK_CALLS_API_VERSION"

definition token_request :: "string \<Rightarrow> string \<Rightarrow> string \<Rightarrow> string" where
  "token_request link device name = vk_method ''auth.getAnonymToken'' @ ''&client_id='' @ VK_CONNECT_CLIENT_ID @ ''&link='' @ query_escape (call_url link)
     @ ''&device_id='' @ device @ ''&anonymName='' @ query_escape name @ ''&lang=en''"

definition preview_request :: "string \<Rightarrow> string \<Rightarrow> string \<Rightarrow> string" where
  "preview_request link device token = vk_method ''messages.getCallPreview'' @ ''&anonymous_token='' @ query_escape token @ ''&device_id='' @ device
     @ ''&extended=1&fields=first_name,last_name,photo_200&lang=en&link='' @ query_escape (call_url link)"

definition decimal_int :: "int \<Rightarrow> string" where
  "decimal_int n = (if n < 0 then ''-'' @ decimal (nat (- n)) else decimal (nat n))"

definition call_token_request :: "string \<Rightarrow> calls_identity \<Rightarrow> string \<Rightarrow> int \<Rightarrow> string \<Rightarrow> string" where
  "call_token_request link i token user_id secret = vk_method ''messages.getAnonymCallToken'' @ ''&anonymous_token='' @ query_escape token
     @ ''&device_id='' @ ci_device i @ ''&link='' @ query_escape (call_url link) @ ''&name='' @ query_escape (ci_name i)
     @ ''&user_id='' @ decimal_int user_id @ ''&secret='' @ query_escape secret @ ''&lang=en''"

definition quoted :: "string \<Rightarrow> string" where
  "quoted s = CHR 0x22 # s @ [CHR 0x22]"

definition login_request :: "string \<Rightarrow> string" where
  "login_request ok_device = ''https://calls.okcdn.ru/fb.do?session_data=''
     @ query_escape (''{'' @ quoted ''version'' @ '':2,'' @ quoted ''device_id'' @ '':'' @ quoted ok_device @ '','' @ quoted ''client_version''
         @ '':'' @ quoted ''1.0.1'' @ ''}'')
     @ ''&method=auth.anonymLogin&format=JSON&application_key=CGMMEJLGDIHBABABA''"

definition join_request :: "string \<Rightarrow> string \<Rightarrow> string \<Rightarrow> string" where
  "join_request link token session_key = ''https://calls.okcdn.ru/fb.do?joinLink='' @ link @ ''&isVideo=false&protocolVersion=5&anonymToken='' @ token
     @ ''&method=vchat.joinConversationByLink&format=JSON&application_key=CGMMEJLGDIHBABABA&session_key='' @ session_key"

definition answered :: "json option \<Rightarrow> auth_error + json" where
  "answered r = (case r of None \<Rightarrow> Inl OtherAuthError | Some v \<Rightarrow> Inr v)"

text \<open>\<open>post\<close> is the exchange with the service.\<close>

definition vk_calls_path :: "bool \<Rightarrow> (string \<Rightarrow> json option) \<Rightarrow> calls_identity \<Rightarrow> string \<Rightarrow> auth_error + turn_credentials" where
  "vk_calls_path skip post i link = (if skip then Inl OtherAuthError else
     bind_result (answered (post (token_request link (ci_device i) (ci_name i)))) (\<lambda>response1.
     bind_result (json_string response1 [''response'', ''token'']) (\<lambda>token.
     bind_result (answered (post (preview_request link (ci_device i) token))) (\<lambda>response2.
     bind_result (check_vk_error response2) (\<lambda>_.
     bind_result (json_number response2 [''response'', ''user_id'']) (\<lambda>user_id.
     bind_result (json_string response2 [''response'', ''secret'']) (\<lambda>secret.
     bind_result (answered (post (call_token_request link i token user_id secret))) (\<lambda>response3.
     bind_result (check_vk_error response3) (\<lambda>_.
     bind_result (json_string response3 [''response'', ''token'']) (\<lambda>ok_token.
     bind_result (answered (post (login_request (ci_ok_device i)))) (\<lambda>response4.
     bind_result (json_string response4 [''session_key'']) (\<lambda>session_key.
     bind_result (answered (post (join_request link ok_token session_key))) (\<lambda>response5.
     bind_result (check_ok_error response5) (\<lambda>_. parse_turn_credentials response5))))))))))))))"

section \<open>The legacy path\<close>

record vk_client =
  vc_id :: string
  vc_secret :: string

text \<open>The captcha that the service demands. \<open>token_of\<close> reads the session token of a redirect address, \<open>dump\<close> prints the JSON values
  that are neither texts, integers nor truth values; both are third-party code.\<close>

record captcha_demand =
  cd_redirect :: string
  cd_session :: string
  cd_sid :: string
  cd_timestamp :: string
  cd_attempt :: string

definition string_value :: "(json \<Rightarrow> string) \<Rightarrow> json option \<Rightarrow> string" where
  "string_value dump v = (case v of None \<Rightarrow> [] | Some JNull \<Rightarrow> [] | Some (JString s) \<Rightarrow> s | Some (JInt n) \<Rightarrow> decimal_int n
     | Some (JBool b) \<Rightarrow> if b then ''true'' else ''false'' | Some w \<Rightarrow> dump w)"

definition captcha_from_json :: "(json \<Rightarrow> string) \<Rightarrow> (string \<Rightarrow> string) \<Rightarrow> json \<Rightarrow> auth_error + captcha_demand" where
  "captcha_from_json dump token_of raw = (case raw of JObject _ \<Rightarrow> (let value = \<lambda>key. string_value dump (json_get key raw) in
       Inr \<lparr>cd_redirect = value ''redirect_uri'', cd_session = token_of (value ''redirect_uri''), cd_sid = value ''captcha_sid'',
         cd_timestamp = value ''captcha_ts'', cd_attempt = value ''captcha_attempt''\<rparr>)
     | _ \<Rightarrow> Inl OtherAuthError)"

text \<open>What the path runs against: the exchange (endpoint and body), the captcha solver at its successive calls, and the readers above.\<close>

record legacy_env =
  lv_post :: "string \<Rightarrow> string \<Rightarrow> json option"
  lv_solve :: "nat \<Rightarrow> captcha_demand \<Rightarrow> string option"
  lv_dump :: "json \<Rightarrow> string"
  lv_token_of :: "string \<Rightarrow> string"
  lv_name :: string
  lv_device :: string

definition answer_body :: "string \<Rightarrow> string \<Rightarrow> string \<Rightarrow> captcha_demand \<Rightarrow> string \<Rightarrow> string" where
  "answer_body link name token1 c success =
    ''vk_join_link=https://vk.com/call/join/'' @ link @ ''&name='' @ name @ ''&captcha_key=&captcha_sid='' @ cd_sid c
     @ ''&is_sound_captcha=0&success_token='' @ query_escape success @ ''&captcha_ts='' @ cd_timestamp c @ ''&captcha_attempt=''
     @ (if cd_attempt c = [] \<or> cd_attempt c = ''0'' then ''1'' else cd_attempt c) @ ''&access_token='' @ token1"

text \<open>The loop that obtains the anonymous token: at most three captchas are solved.\<close>

function anonymous_token :: "legacy_env \<Rightarrow> string \<Rightarrow> string \<Rightarrow> string \<Rightarrow> nat \<Rightarrow> string \<Rightarrow> auth_error + string" where
  "anonymous_token env url link token1 captcha_attempts body =
    (case lv_post env url body of None \<Rightarrow> Inl OtherAuthError
     | Some response \<Rightarrow> (case json_get ''error'' response of
         None \<Rightarrow> json_string response [''response'', ''token'']
       | Some e \<Rightarrow> (case check_fatal_call response of Inl x \<Rightarrow> Inl x
         | Inr _ \<Rightarrow> (case captcha_from_json (lv_dump env) (lv_token_of env) e of Inl x \<Rightarrow> Inl x
           | Inr c \<Rightarrow> if cd_redirect c = [] \<or> cd_session c = [] then Inl OtherAuthError
               else if 3 \<le> captcha_attempts then Inl CaptchaWait
               else (case lv_solve env captcha_attempts c of None \<Rightarrow> Inl CaptchaWait
                 | Some success \<Rightarrow> anonymous_token env url link token1 (captcha_attempts + 1)
                     (answer_body link (query_escape (lv_name env)) token1 c success))))))"
  by pat_completeness auto

termination by (relation "measure (\<lambda>(env, url, link, token1, captcha_attempts, body). 3 - captcha_attempts)") auto

declare anonymous_token.simps [simp del]

definition legacy_path :: "legacy_env \<Rightarrow> vk_client \<Rightarrow> string \<Rightarrow> auth_error + turn_credentials" where
  "legacy_path env client link =
    (let post = \<lambda>url body. answered (lv_post env url body); okcdn = ''https://calls.okcdn.ru/fb.do'' in
     bind_result (post ''https://login.vk.ru/?act=get_anonym_token''
       (''client_id='' @ vc_id client @ ''&token_type=messages&client_secret='' @ vc_secret client @ ''&version=1&app_id='' @ vc_id client)) (\<lambda>response.
     bind_result (json_string response [''data'', ''access_token'']) (\<lambda>token1.
     bind_result (case lv_post env (''https://api.vk.ru/method/calls.getCallPreview?v=5.275&client_id='' @ vc_id client)
         (''vk_join_link=https://vk.com/call/join/'' @ link @ ''&fields=photo_200&access_token='' @ token1) of
       None \<Rightarrow> Inr () | Some value \<Rightarrow> check_fatal_call value) (\<lambda>_.
     bind_result (anonymous_token env (''https://api.vk.ru/method/calls.getAnonymousToken?v=5.275&client_id='' @ vc_id client) link token1 0
       (''vk_join_link=https://vk.com/call/join/'' @ link @ ''&name='' @ query_escape (lv_name env) @ ''&access_token='' @ token1)) (\<lambda>token2.
     bind_result (post okcdn (''session_data='' @ query_escape (''{'' @ quoted ''version'' @ '':2,'' @ quoted ''device_id'' @ '':''
         @ quoted (lv_device env) @ '','' @ quoted ''client_version'' @ '':1.1,'' @ quoted ''client_type'' @ '':'' @ quoted ''SDK_JS'' @ ''}'')
       @ ''&method=auth.anonymLogin&format=JSON&application_key=CGMMEJLGDIHBABABA'')) (\<lambda>login.
     bind_result (json_string login [''session_key'']) (\<lambda>session_key.
     bind_result (post okcdn (''joinLink='' @ link @ ''&isVideo=false&protocolVersion=5&capabilities=2F7F&anonymToken='' @ token2
       @ ''&method=vchat.joinConversationByLink&format=JSON&application_key=CGMMEJLGDIHBABABA&session_key='' @ session_key)) (\<lambda>response.
     parse_turn_credentials response))))))))"

section \<open>Obtaining credentials\<close>

datatype auth_mode = AutoJs | VkCalls | Legacy

definition auth_mode_of :: "string \<Rightarrow> auth_mode" where
  "auth_mode_of mode = (if to_lower mode = ''auto_js'' then AutoJs else if to_lower mode = ''legacy'' then Legacy else VkCalls)"

definition is_gone :: "auth_error \<Rightarrow> bool" where
  "is_gone e = (case e of CallGone _ _ \<Rightarrow> True | _ \<Rightarrow> False)"

text \<open>What is tried, in order: the calls path with its attempt number, the legacy path with its attempt number and client.\<close>

datatype auth_attempt = TriedCalls nat | TriedLegacy nat nat

definition vk_calls_with_retries :: "(nat \<Rightarrow> auth_error + turn_credentials) \<Rightarrow> (auth_error + turn_credentials) \<times> auth_attempt list" where
  "vk_calls_with_retries calls = (case calls 1 of
     Inr c \<Rightarrow> (Inr c, [TriedCalls 1])
   | Inl e \<Rightarrow> if is_gone e then (Inl e, [TriedCalls 1]) else (calls 2, [TriedCalls 1, TriedCalls 2]))"

text \<open>The legacy attempts from \<open>attempt\<close> on, with the index of the client and the lockout; \<open>None\<close> when the HTTP client cannot be built. \<open>now\<close> is the clock at the attempt's end.\<close>

fun legacy_attempts :: "(nat \<Rightarrow> nat \<Rightarrow> (auth_error + turn_credentials) option) \<Rightarrow> (nat \<Rightarrow> int) \<Rightarrow> nat \<Rightarrow> nat \<Rightarrow> nat \<Rightarrow> auth_error \<Rightarrow> int
    \<Rightarrow> (auth_error + turn_credentials) \<times> int \<times> auth_attempt list" where
  "legacy_attempts legacy now clients 0 attempt recent lockout = (Inl recent, lockout, [])"
| "legacy_attempts legacy now clients (Suc left) attempt recent lockout =
    (let client = attempt mod max clients 1; tried = TriedLegacy attempt client in
     if clients \<le> client then (Inl recent, lockout, [])
     else case legacy attempt client of
       None \<Rightarrow> (Inl OtherAuthError, lockout, [])
     | Some (Inr c) \<Rightarrow> (Inr c, lockout, [tried])
     | Some (Inl e) \<Rightarrow> if is_gone e then (Inl e, lockout, [tried])
         else if e = CaptchaWait then (Inl e, now attempt + 60, [tried])
         else (case legacy_attempts legacy now clients left (attempt + 1) e lockout of (r, l, ts) \<Rightarrow> (r, l, tried # ts)))"

record auth_env =
  ae_broker :: "turn_credentials option"
  ae_calls :: "nat \<Rightarrow> auth_error + turn_credentials"
  ae_legacy :: "nat \<Rightarrow> nat \<Rightarrow> (auth_error + turn_credentials) option"
  ae_now :: int
  ae_end :: "nat \<Rightarrow> int"

definition get_vk_credentials :: "auth_mode \<Rightarrow> nat \<Rightarrow> auth_env \<Rightarrow> int \<Rightarrow> (auth_error + turn_credentials) \<times> int \<times> auth_attempt list" where
  "get_vk_credentials mode clients env lockout =
    (let legacy = legacy_attempts (ae_legacy env) (ae_end env) clients 4 0 OtherAuthError lockout in
     if mode = AutoJs then (case ae_broker env of
         Some c \<Rightarrow> (Inr c, lockout, [])
       | None \<Rightarrow> (case vk_calls_with_retries (ae_calls env) of
           (Inr c, ts) \<Rightarrow> (Inr c, lockout, ts) | (Inl _, ts) \<Rightarrow> (Inl OtherAuthError, lockout, ts)))
     else if ae_now env < lockout then (Inl CaptchaWait, lockout, [])
     else if mode = VkCalls then (case vk_calls_with_retries (ae_calls env) of
         (Inr c, ts) \<Rightarrow> (Inr c, lockout, ts)
       | (Inl e, ts) \<Rightarrow> if is_gone e then (Inl e, lockout, ts) else (case legacy of (r, l, ts2) \<Rightarrow> (r, l, ts @ ts2)))
     else legacy)"

text \<open>What \<open>worker.rs\<close> sees of the result.\<close>

definition fetched_of :: "auth_error + turn_credentials \<Rightarrow> fetched" where
  "fetched_of r = (case r of Inr c \<Rightarrow> FetchOk c | Inl (CallGone code _) \<Rightarrow> FetchCallUnavailable code | Inl _ \<Rightarrow> FetchFailed)"

section \<open>Checking call hashes\<close>

datatype hash_check = HashValid | HashInvalid int string | HashUnavailable

definition classify_vk_hash_error :: "json \<Rightarrow> auth_error + hash_check option" where
  "classify_vk_hash_error response = (case json_get ''error'' response of None \<Rightarrow> Inr None
     | Some e \<Rightarrow> (let code = vk_error_code (json_get ''error_code'' e); message = vk_error_message e in
         if is_fatal_call_error code message then Inr (Some (HashInvalid code message))
         else if code = 14 then Inr (Some HashValid) else Inl OtherAuthError))"

definition check_vk_hash_attempt :: "(string \<Rightarrow> json option) \<Rightarrow> calls_identity \<Rightarrow> string \<Rightarrow> auth_error + hash_check" where
  "check_vk_hash_attempt post i hash =
    bind_result (answered (post (token_request hash (ci_device i) (ci_name i)))) (\<lambda>token_response.
    bind_result (classify_vk_hash_error token_response) (\<lambda>verdict. case verdict of Some v \<Rightarrow> Inr v | None \<Rightarrow>
    bind_result (json_string token_response [''response'', ''token'']) (\<lambda>token.
    bind_result (answered (post (preview_request hash (ci_device i) token))) (\<lambda>preview_response.
    bind_result (classify_vk_hash_error preview_response) (\<lambda>verdict. case verdict of Some v \<Rightarrow> Inr v | None \<Rightarrow>
    bind_result (json_number preview_response [''response'', ''user_id'']) (\<lambda>_.
    bind_result (json_string preview_response [''response'', ''secret'']) (\<lambda>_. Inr HashValid)))))))"

definition check_vk_hash :: "(nat \<Rightarrow> auth_error + hash_check) \<Rightarrow> hash_check" where
  "check_vk_hash attempt = (case attempt 0 of Inr v \<Rightarrow> v | Inl _ \<Rightarrow> (case attempt 1 of Inr v \<Rightarrow> v | Inl _ \<Rightarrow> HashUnavailable))"

definition known_secret :: "string \<Rightarrow> string option" where
  "known_secret i = (if i = ''8202606'' then Some ''lMRsTiMCyPnp5vfoldmn''
     else if i = ''6287487'' then Some ''MuAxFaKDYDOICzGnEOhp'' else None)"

definition load_credentials :: "string list \<Rightarrow> string option \<Rightarrow> vk_client list" where
  "load_credentials client_ids variable =
    (let from_ids = List.map_filter (\<lambda>i. map_option (\<lambda>s. \<lparr>vc_id = trim i, vc_secret = s\<rparr>) (known_secret (trim i))) client_ids;
         parsed = (case variable of None \<Rightarrow> [] | Some value \<Rightarrow>
           map (\<lambda>(i, s). \<lparr>vc_id = trim i, vc_secret = trim s\<rparr>)
             (filter (\<lambda>(i, s). trim i \<noteq> [] \<and> trim s \<noteq> [])
               (List.map_filter (\<lambda>p. split_once CHR '':'' (trim p)) (split_all CHR '','' value))))
     in if from_ids \<noteq> [] then from_ids else if parsed \<noteq> [] then parsed
        else [\<lparr>vc_id = ''8202606'', vc_secret = ''lMRsTiMCyPnp5vfoldmn''\<rparr>, \<lparr>vc_id = ''6287487'', vc_secret = ''MuAxFaKDYDOICzGnEOhp''\<rparr>])"

section \<open>Facts\<close>

text \<open>A decoder of the escaped form, to state what the escaping promises.\<close>

definition hex_value :: "char \<Rightarrow> nat" where
  "hex_value c = (let n = of_char c :: nat in if n < 58 then n - 48 else n - 55)"

fun query_unescape :: "string \<Rightarrow> bytes" where
  "query_unescape [] = []"
| "query_unescape (c # r) = (if c = CHR ''+'' then 32 # query_unescape r
     else if c = CHR ''%'' then (case r of x # y # r' \<Rightarrow> word_of_nat (16 * hex_value x + hex_value y) # query_unescape r' | _ \<Rightarrow> [])
     else word_of_nat (of_char c) # query_unescape r)"

lemma hex_value_digit: "n < 16 \<Longrightarrow> hex_value (hex_digit n) = n"
  by (auto simp: hex_value_def hex_digit_def Let_def)

lemma unat_byte_lt: "unat (b :: byte) < 256"
  using unsigned_less [of b, where ?'a = nat] by simp

lemma unreserved_char: "unreserved b \<Longrightarrow> char_of (unat b) \<noteq> CHR ''+'' \<and> char_of (unat b) \<noteq> CHR ''%''"
proof -
  assume u: "unreserved b"
  have of: "(of_char (char_of (unat b)) :: nat) = unat b" using unat_byte_lt [of b] by simp
  have n: "unat b \<noteq> 43" "unat b \<noteq> 37" using u by (auto simp: unreserved_def word_le_nat_alt)
  have "char_of (unat b) \<noteq> CHR ''+''"
  proof
    assume e: "char_of (unat b) = CHR ''+''"
    show False using of n unfolding e by simp
  qed
  moreover have "char_of (unat b) \<noteq> CHR ''%''"
  proof
    assume e: "char_of (unat b) = CHR ''%''"
    show False using of n unfolding e by simp
  qed
  ultimately show ?thesis by blast
qed

lemma unescape_byte: "query_unescape (escape_byte b @ r) = b # query_unescape r"
proof -
  have m: "unat b mod 256 = unat b" "unat b div 16 < 16" using unat_byte_lt [of b] by auto
  have "word_of_nat (16 * (unat b div 16) + unat b mod 16) = b" by simp
  then have "16 * word_of_nat (unat b div 16) + word_of_nat (unat b mod 16) = b"
    by (simp only: of_nat_add of_nat_mult of_nat_numeral)
  then show ?thesis using unreserved_char [of b] m by (auto simp: escape_byte_def hex_value_digit)
qed

lemma unescape_bytes: "query_unescape (concat (map escape_byte bs)) = bs"
  by (induction bs) (auto simp: unescape_byte)

definition query_safe :: "char \<Rightarrow> bool" where
  "query_safe c \<longleftrightarrow> (let n = of_char c :: nat in 97 \<le> n \<and> n \<le> 122 \<or> 65 \<le> n \<and> n \<le> 90 \<or> 48 \<le> n \<and> n \<le> 57 \<or> n \<in> {45, 95, 46, 126, 43, 37})"

lemma escape_byte_safe: "c \<in> set (escape_byte b) \<Longrightarrow> query_safe c"
proof -
  assume c: "c \<in> set (escape_byte b)"
  have h: "query_safe (hex_digit n)" if "n < 16" for n using that by (auto simp: query_safe_def hex_digit_def Let_def)
  have u: "query_safe (char_of (unat b))" if u: "unreserved b"
  proof -
    have of: "(of_char (char_of (unat b)) :: nat) = unat b" using unat_byte_lt [of b] by simp
    show ?thesis using u unfolding unreserved_def query_safe_def Let_def of by (auto simp: word_le_nat_alt)
  qed
  have "unat b div 16 < 16" using unat_byte_lt [of b] by auto
  then show ?thesis using c u h by (auto simp: escape_byte_def split: if_splits simp: query_safe_def)
qed

text \<open>Whatever text is put into a request (a name, a link, a token), its escaped form consists of characters that cannot end or
  split a parameter, and decoding the form gives back exactly the bytes of the text.\<close>

theorem escape_roundtrip: "query_unescape (query_escape s) = utf8 s \<and> list_all query_safe (query_escape s)"
  by (auto simp: query_escape_def unescape_bytes list_all_iff dest: escape_byte_safe)

subsection \<open>What a successful authentication gives\<close>

definition usable :: "turn_credentials \<Rightarrow> bool" where
  "usable c \<longleftrightarrow> tc_servers c \<noteq> [] \<and> list_all is_supported_turn_uri (tc_servers c)"

definition gives_usable :: "auth_error + turn_credentials \<Rightarrow> bool" where
  "gives_usable r \<longleftrightarrow> (\<forall>c. r = Inr c \<longrightarrow> usable c)"

lemma gives_usable_bind: "(\<And>x. gives_usable (f x)) \<Longrightarrow> gives_usable (bind_result r f)"
  by (cases r) (auto simp: gives_usable_def)

lemma gives_usable_error: "gives_usable (Inl e)"
  by (simp add: gives_usable_def)

lemma parsed_usable: "gives_usable (parse_turn_credentials v)"
  unfolding parse_turn_credentials_def
  by (auto intro!: gives_usable_bind simp: gives_usable_error Let_def split: option.splits json.splits)
    (auto simp: gives_usable_def usable_def list_all_iff)

lemma calls_path_usable: "gives_usable (vk_calls_path skip post i link)"
  unfolding vk_calls_path_def by (simp only: split: if_split) (intro conjI impI gives_usable_error gives_usable_bind parsed_usable)

lemma legacy_path_usable: "gives_usable (legacy_path env client link)"
  unfolding legacy_path_def Let_def by (intro gives_usable_bind parsed_usable)

subsection \<open>Attempts\<close>

definition outcome :: "auth_env \<Rightarrow> auth_attempt \<Rightarrow> auth_error + turn_credentials" where
  "outcome env t = (case t of TriedCalls n \<Rightarrow> ae_calls env n
     | TriedLegacy a k \<Rightarrow> (case ae_legacy env a k of Some r \<Rightarrow> r | None \<Rightarrow> Inl OtherAuthError))"

text \<open>An outcome after which nothing more is tried: success, or a call that no longer exists.\<close>

definition decisive :: "auth_error + turn_credentials \<Rightarrow> bool" where
  "decisive r = (case r of Inr _ \<Rightarrow> True | Inl e \<Rightarrow> is_gone e)"

text \<open>The attempts end with the first decisive outcome, which is the result; a gone call is reported only by such an attempt.\<close>

definition well_tried :: "auth_env \<Rightarrow> auth_error + turn_credentials \<Rightarrow> auth_attempt list \<Rightarrow> bool" where
  "well_tried env r ts \<longleftrightarrow> list_all (\<lambda>t. \<not> decisive (outcome env t)) (butlast ts) \<and>
     (if decisive r then ts \<noteq> [] \<and> r = outcome env (last ts) else ts = [] \<or> \<not> decisive (outcome env (last ts)))"

lemma well_tried_Cons: "\<not> decisive (outcome env t) \<Longrightarrow> well_tried env r (t # ts) = (if ts = [] then \<not> decisive r else well_tried env r ts)"
  by (auto simp: well_tried_def)

lemma calls_well_tried: "vk_calls_with_retries (ae_calls env) = (r, ts) \<Longrightarrow> well_tried env r ts \<and> length ts \<le> 2 \<and> ts \<noteq> []"
  by (auto simp: vk_calls_with_retries_def well_tried_def outcome_def decisive_def split: sum.splits if_splits)

lemma legacy_well_tried:
  "legacy_attempts (ae_legacy env) (ae_end env) clients left attempt recent lockout = (r, l, ts) \<Longrightarrow> \<not> is_gone recent
    \<Longrightarrow> well_tried env r ts \<and> length ts \<le> left \<and> (ts = [] \<longrightarrow> \<not> decisive r) \<and> (l = lockout \<or> r = Inl CaptchaWait)"
proof (induction left arbitrary: attempt recent r l ts)
  case 0
  then show ?case by (auto simp: well_tried_def decisive_def)
next
  case (Suc left)
  define k where "k = attempt mod max clients 1"
  have run: "(if clients \<le> k then (Inl recent, lockout, []) else case ae_legacy env attempt k of
       None \<Rightarrow> (Inl OtherAuthError, lockout, [])
     | Some (Inr c) \<Rightarrow> (Inr c, lockout, [TriedLegacy attempt k])
     | Some (Inl e) \<Rightarrow> if is_gone e then (Inl e, lockout, [TriedLegacy attempt k])
         else if e = CaptchaWait then (Inl e, ae_end env attempt + 60, [TriedLegacy attempt k])
         else (case legacy_attempts (ae_legacy env) (ae_end env) clients left (attempt + 1) e lockout of
           (r, l, ts) \<Rightarrow> (r, l, TriedLegacy attempt k # ts))) = (r, l, ts)"
    using Suc.prems(1) by (simp only: legacy_attempts.simps Let_def k_def)
  show ?case
  proof (cases "clients \<le> k \<or> ae_legacy env attempt k = None")
    case True
    then have "ts = [] \<and> (r = Inl recent \<or> r = Inl OtherAuthError) \<and> l = lockout" using run by (cases "clients \<le> k") auto
    then show ?thesis using Suc.prems(2) by (auto simp: well_tried_def decisive_def is_gone_def)
  next
    case False
    then obtain o' where o: "ae_legacy env attempt k = Some o'" by auto
    then have oc: "outcome env (TriedLegacy attempt k) = o'" by (simp add: outcome_def)
    show ?thesis
    proof (cases "decisive o' \<or> o' = Inl CaptchaWait")
      case True
      then show ?thesis using run o oc False
        by (cases o') (auto simp: well_tried_def decisive_def is_gone_def split: auth_error.splits)
    next
      case n: False
      then obtain e where e: "o' = Inl e" "\<not> is_gone e" "e \<noteq> CaptchaWait" by (cases o') (auto simp: decisive_def)
      obtain r' l' ts' where rest: "legacy_attempts (ae_legacy env) (ae_end env) clients left (attempt + 1) e lockout = (r', l', ts')"
        by (metis prod_cases3)
      have eq: "r = r'" "l = l'" "ts = TriedLegacy attempt k # ts'"
        using run o e rest False by auto
      show ?thesis using Suc.IH [OF rest e(2)] n oc unfolding eq by (auto simp: well_tried_Cons)
    qed
  qed
qed

lemma well_tried_append: "well_tried env (Inl e) ts \<Longrightarrow> \<not> is_gone e \<Longrightarrow> well_tried env r ts2 \<Longrightarrow> (ts2 = [] \<longrightarrow> \<not> decisive r)
    \<Longrightarrow> well_tried env r (ts @ ts2)"
proof (induction ts)
  case Nil
  then show ?case by simp
next
  case (Cons t ts)
  have d: "\<not> decisive (Inl e)" using Cons.prems(2) by (simp add: decisive_def)
  have t: "\<not> decisive (outcome env t)" using Cons.prems(1) d by (cases ts) (auto simp: well_tried_def)
  have "well_tried env r (ts @ ts2)"
  proof (cases ts)
    case Nil
    then show ?thesis using Cons.prems by simp
  next
    case (Cons a b)
    then show ?thesis using Cons.IH Cons.prems t by (simp add: well_tried_Cons)
  qed
  then show ?case using Cons.prems(4) t by (auto simp: well_tried_Cons)
qed

text \<open>Everything that may be tried, in its order.\<close>

definition auth_plan :: "auth_mode \<Rightarrow> nat \<Rightarrow> auth_attempt list" where
  "auth_plan mode clients = (if mode = Legacy then [] else [TriedCalls 1, TriedCalls 2])
     @ (if mode = AutoJs then [] else map (\<lambda>a. TriedLegacy a (a mod max clients 1)) [0..<4])"

lemma legacy_planned:
  "legacy_attempts legacy now clients left attempt recent lockout = (r, l, ts)
    \<Longrightarrow> prefix ts (map (\<lambda>a. TriedLegacy a (a mod max clients 1)) [attempt..<attempt + left])"
proof (induction legacy now clients left attempt recent lockout arbitrary: r l ts rule: legacy_attempts.induct)
  case (1 legacy now clients attempt recent lockout)
  then show ?case by simp
next
  case (2 legacy now clients left attempt recent lockout)
  have u: "[attempt..<attempt + Suc left] = attempt # [attempt + 1..<attempt + 1 + left]" by (simp add: upt_conv_Cons)
  show ?case using 2 unfolding u
    by (cases "clients \<le> attempt mod max clients 1") (auto simp: Let_def split: option.splits sum.splits if_splits prod.splits)
qed

lemma attempts_planned:
  assumes "get_vk_credentials mode clients env lockout = (r, l, ts)"
  shows "prefix ts (auth_plan mode clients)"
proof -
  obtain r2 l2 t2 where g: "legacy_attempts (ae_legacy env) (ae_end env) clients 4 0 OtherAuthError lockout = (r2, l2, t2)"
    by (metis prod_cases3)
  have p: "prefix t2 (map (\<lambda>a. TriedLegacy a (a mod max clients 1)) [0..<4])" using legacy_planned [OF g] by simp
  obtain rc tc where c: "vk_calls_with_retries (ae_calls env) = (rc, tc)" by fastforce
  have q: "prefix tc [TriedCalls 1, TriedCalls 2]" "(\<exists>e. rc = Inl e \<and> \<not> is_gone e) \<Longrightarrow> tc = [TriedCalls 1, TriedCalls 2]"
    using c by (auto simp: vk_calls_with_retries_def split: sum.splits if_splits)
  consider "ts = []" | "mode = Legacy" "ts = t2" | "mode \<noteq> Legacy" "ts = tc" | "mode = VkCalls" "\<exists>e. rc = Inl e \<and> \<not> is_gone e" "ts = tc @ t2"
    using assms g c by (cases mode) (auto simp: get_vk_credentials_def Let_def split: if_splits option.splits sum.splits prod.splits)
  then show ?thesis
  proof cases
    case 2
    then show ?thesis using p by (simp add: auth_plan_def)
  next
    case 3
    have "prefix [TriedCalls 1, TriedCalls 2] (auth_plan mode clients)" using 3(1) by (simp add: auth_plan_def)
    then show ?thesis using q(1) 3(2) prefix_order.trans by blast
  next
    case 4
    then show ?thesis using p q(2) by (auto simp: auth_plan_def)
  qed simp
qed

text \<open>C31: Outside the browser mode, authentication makes at most two attempts over the calls path and then four over the legacy path, in
  this order, the calls path only in its own mode, and none while the captcha lockout lasts. It stops at the first attempt that succeeds or that finds the call
  gone and returns that very outcome, so a call that no longer exists is reported as such and never retried; the lockout changes only when the captcha has to wait.
  In the browser mode the only attempts are the two over the calls path, and the worker is never told that the call is gone.\<close>

theorem gone_call_is_final:
  assumes "get_vk_credentials mode clients env lockout = (r, l, ts)"
  shows "prefix ts (auth_plan mode clients)
    \<and> (if mode = AutoJs then \<nexists>code. fetched_of r = FetchCallUnavailable code
      else well_tried env r ts \<and> (ae_now env < lockout \<longrightarrow> ts = [] \<and> r = Inl CaptchaWait))
    \<and> (l = lockout \<or> r = Inl CaptchaWait)"
proof -
  have legacy: "well_tried env r ts \<and> length ts \<le> 4 \<and> (ts = [] \<longrightarrow> \<not> decisive r) \<and> (l = lockout \<or> r = Inl CaptchaWait)"
    if "legacy_attempts (ae_legacy env) (ae_end env) clients 4 0 OtherAuthError lockout = (r, l, ts)" for r l ts
    using legacy_well_tried [OF that] by (simp add: is_gone_def)
  obtain rc tc where c: "vk_calls_with_retries (ae_calls env) = (rc, tc)" by fastforce
  obtain r2 l2 t2 where g: "legacy_attempts (ae_legacy env) (ae_end env) clients 4 0 OtherAuthError lockout = (r2, l2, t2)"
    by (metis prod_cases3)
  consider "mode = AutoJs" | "mode \<noteq> AutoJs" "ae_now env < lockout" | "mode = VkCalls" "\<not> ae_now env < lockout"
    | "mode = Legacy" "\<not> ae_now env < lockout" by (cases mode) auto
  then show ?thesis
  proof cases
    case 1
    then show ?thesis using assms c attempts_planned [OF assms] by (auto simp: get_vk_credentials_def fetched_of_def split: option.splits sum.splits)
  next
    case 2
    then show ?thesis using assms attempts_planned [OF assms] by (auto simp: get_vk_credentials_def well_tried_def decisive_def is_gone_def)
  next
    case 3
    show ?thesis
    proof (cases rc)
      case (Inl e)
      then show ?thesis using assms attempts_planned [OF assms] 3 c g legacy [OF g] calls_well_tried [OF c] well_tried_append [of env e tc r2 t2]
        by (auto simp: get_vk_credentials_def Let_def split: if_splits)
    next
      case (Inr x)
      then show ?thesis using assms attempts_planned [OF assms] 3 c calls_well_tried [OF c] by (auto simp: get_vk_credentials_def Let_def)
    qed
  next
    case 4
    then show ?thesis using assms attempts_planned [OF assms] g legacy [OF g] by (auto simp: get_vk_credentials_def Let_def)
  qed
qed

definition gone_env :: auth_env where
  "gone_env = \<lparr>ae_broker = None, ae_calls = (\<lambda>n. Inl (if n = 1 then OtherAuthError else CallGone 951 ''call not found'')),
     ae_legacy = (\<lambda>_ _. None), ae_now = 100, ae_end = (\<lambda>_. 100)\<rparr>"

theorem gone_call_is_final_witness:
  "prefix [TriedCalls 1, TriedCalls 2] (auth_plan VkCalls 2) \<and> well_tried gone_env (Inl (CallGone 951 ''call not found'')) [TriedCalls 1, TriedCalls 2]"
proof -
  have "get_vk_credentials VkCalls 2 gone_env 0 = (Inl (CallGone 951 ''call not found''), 0, [TriedCalls 1, TriedCalls 2])"
    by (simp add: get_vk_credentials_def gone_env_def vk_calls_with_retries_def is_gone_def)
  from gone_call_is_final [OF this] show ?thesis by simp
qed

lemma legacy_success:
  "legacy_attempts legacy now clients left attempt recent lockout = (Inr c, l, ts) \<Longrightarrow> \<exists>a k. k < clients \<and> legacy a k = Some (Inr c)"
proof (induction legacy now clients left attempt recent lockout arbitrary: l ts rule: legacy_attempts.induct)
  case (1 legacy now clients attempt recent lockout)
  then show ?case by simp
next
  case (2 legacy now clients left attempt recent lockout)
  then show ?case
    by (cases "clients \<le> attempt mod max clients 1") (auto simp: Let_def not_le split: option.splits sum.splits if_splits prod.splits)
qed

text \<open>C32: Whenever authentication succeeds, the credentials name at least one TURN server, and every address
  named passes the engine's own test of TURN URIs (scheme, authority and transport parameter), whichever path produced them and whatever the service answered (what the browser broker hands over is assumed usable).\<close>

theorem credentials_usable:
  assumes "get_vk_credentials mode (length ids) \<lparr>ae_broker = broker, ae_calls = (\<lambda>n. vk_calls_path (skip n) (post n) (identity n) link),
      ae_legacy = (\<lambda>a k. Some (legacy_path (env a) (ids ! k) link)), ae_now = now, ae_end = done\<rparr> lockout = (Inr c, l, ts)"
    and "\<And>b. broker = Some b \<Longrightarrow> usable b"
  shows "usable c"
proof -
  consider "broker = Some c" | n where "vk_calls_path (skip n) (post n) (identity n) link = Inr c"
    | a k where "legacy_path (env a) (ids ! k) link = Inr c"
    using assms(1) by (auto simp: get_vk_credentials_def vk_calls_with_retries_def Let_def dest: legacy_success
        split: if_splits option.splits sum.splits prod.splits)
  then show ?thesis
    using assms(2) calls_path_usable legacy_path_usable by cases (auto simp: gives_usable_def)
qed

text \<open>A service that answers every exchange of the calls path, with one unsupported and one supported server.\<close>

definition sample_answer :: json where
  "sample_answer = JObject [(''response'', JObject [(''token'', JString ''t''), (''user_id'', JInt 7), (''secret'', JString ''s'')]),
     (''session_key'', JString ''k''),
     (''turn_server'', JObject [(''username'', JString ''u''), (''credential'', JString ''p''),
       (''urls'', JArray [JString ''turns:1.2.3.4?transport=udp'', JString ''turn:1.2.3.4:3478''])])]"

theorem credentials_usable_witness:
  "usable \<lparr>tc_username = ''u'', tc_password = ''p'', tc_servers = [''turn:1.2.3.4:3478'']\<rparr>"
proof -
  have run: "get_vk_credentials VkCalls (length []) \<lparr>ae_broker = None, ae_calls = (\<lambda>n. vk_calls_path False (\<lambda>_. Some sample_answer)
      \<lparr>ci_device = ''d'', ci_name = ''n'', ci_ok_device = ''o''\<rparr> ''x''),
      ae_legacy = (\<lambda>a k. Some (legacy_path undefined ([] ! k) ''x'')), ae_now = 1, ae_end = (\<lambda>_. 1)\<rparr> 0
    = (Inr \<lparr>tc_username = ''u'', tc_password = ''p'', tc_servers = [''turn:1.2.3.4:3478'']\<rparr>, 0, [TriedCalls 1])"
    by code_simp
  show ?thesis by (rule credentials_usable [OF run]) simp
qed

end
