(* ===== verification/VkCalls.thy ===== *)
theory VkCalls
  imports VkAuth
begin

text \<open>
  The account session with VK Calls (\<open>vk_js_calls.rs\<close>): the creator opens a session, starts a conversation whose join link
  gives the call hash, hands out TURN credentials through a broker, and leaves or finishes the conversation. The HTTP
  client, the JSON reader and printer, the URL parser and SHA-256 are arguments. Form encoding and
  the texts of errors are not modelled; a request is given by its endpoint, its fields and its site.
\<close>

section \<open>Requests and their outcome\<close>

definition VK_API_VERSION :: string where "VK_API_VERSION = ''5.285''"
definition VK_CLIENT_ID :: string where "VK_CLIENT_ID = ''6287487''"
definition OK_APPLICATION_KEY :: string where "OK_APPLICATION_KEY = ''CGMMEJLGDIHBABABA''"
definition DEFAULT_OK_API :: string where "DEFAULT_OK_API = ''https://calls.okcdn.ru/fb.do''"
definition MAX_RESPONSE_BYTES :: nat where "MAX_RESPONSE_BYTES = 512 * 1024"
definition MAX_ACCOUNT_CREDENTIALS :: nat where "MAX_ACCOUNT_CREDENTIALS = 9"

datatype request_site = SiteVk | SiteOk

record vk_request =
  rq_endpoint :: string
  rq_fields :: "(string \<times> string) list"
  rq_site :: request_site

datatype vk_error = HttpFailed | ResponseTooLarge | HttpStatus nat | BadJson | NothingExecuted | ApiError string string | MissingField string
  | BadApiUrl | UnsafeApiUrl | TokenMissing | ClientFailed | NoServerTime | NoJoinLink | CredentialIdRange nat | NoCredentials auth_error
  | RepeatedCredentials nat

record http_reply =
  hr_status :: nat
  hr_body :: bytes

text \<open>What happened so far: the requests handed to the HTTP client and the sleeps (in milliseconds). The reply to a request depends on the number
  of events before it; \<open>None\<close> is a failed exchange.\<close>

datatype wire_event = Posted vk_request | Slept nat

record vk_wire =
  wi_log :: "wire_event list"
  wi_net :: "nat \<Rightarrow> http_reply option"

definition happens :: "wire_event \<Rightarrow> vk_wire \<Rightarrow> vk_wire" where
  "happens e w = w\<lparr>wi_log := wi_log w @ [e]\<rparr>"

text \<open>A parsed URL, as far as the engine looks at it, and the third-party functions.\<close>

record parsed_url =
  pu_scheme :: string
  pu_host :: "string option"
  pu_path :: string
  pu_username :: string
  pu_password :: "string option"
  pu_port :: "nat option"
  pu_query :: "string option"
  pu_fragment :: "string option"

record vk_library =
  vl_read :: "bytes \<Rightarrow> json option"
  vl_print :: "json \<Rightarrow> string"
  vl_url :: "string \<Rightarrow> parsed_url option"
  vl_url_text :: "parsed_url \<Rightarrow> string"
  vl_sha :: "bytes \<Rightarrow> bytes"

type_synonym 'a vk_call = "vk_wire \<Rightarrow> (vk_error + 'a) \<times> vk_wire"

definition then_call :: "'a vk_call \<Rightarrow> ('a \<Rightarrow> 'b vk_call) \<Rightarrow> 'b vk_call" where
  "then_call m f = (\<lambda>w. case m w of (Inl e, w1) \<Rightarrow> (Inl e, w1) | (Inr x, w1) \<Rightarrow> f x w1)"

definition settled :: "vk_error + 'a \<Rightarrow> 'a vk_call" where
  "settled r = (\<lambda>w. (r, w))"

definition read_reply :: "vk_library \<Rightarrow> http_reply option \<Rightarrow> vk_error + json" where
  "read_reply lib reply = (case reply of None \<Rightarrow> Inl HttpFailed
     | Some r \<Rightarrow> if MAX_RESPONSE_BYTES < length (hr_body r) then Inl ResponseTooLarge
         else if \<not> (200 \<le> hr_status r \<and> hr_status r < 300) then Inl (HttpStatus (hr_status r))
         else (case vl_read lib (hr_body r) of None \<Rightarrow> Inl BadJson | Some v \<Rightarrow> Inr v))"

definition post_form :: "vk_library \<Rightarrow> vk_request \<Rightarrow> json vk_call" where
  "post_form lib rq = (\<lambda>w. (read_reply lib (wi_net w (length (wi_log w))), happens (Posted rq) w))"

definition vk_headers :: "request_site \<Rightarrow> (string \<times> string) list" where
  "vk_headers site = [(''accept'', ''*/*''), (''accept-encoding'', ''gzip, deflate, br, zstd''),
     (''accept-language'', ''ru,en;q=0.9,en-GB;q=0.8,en-US;q=0.7''), (''content-type'', ''application/x-www-form-urlencoded''),
     (''origin'', ''https://vk.ru''), (''referer'', ''https://vk.ru/''), (''sec-fetch-mode'', ''cors''), (''sec-fetch-dest'', ''empty''),
     (''priority'', ''u=1, i''), (''sec-fetch-site'', case site of SiteVk \<Rightarrow> ''same-site'' | SiteOk \<Rightarrow> ''cross-site'')]"

text \<open>\<open>retry\<close>: \<open>left\<close> attempts remain, \<open>attempt\<close> were made, the last of them with \<open>err\<close>.\<close>

fun try_again :: "nat \<Rightarrow> nat \<Rightarrow> vk_error \<Rightarrow> json vk_call \<Rightarrow> json vk_call" where
  "try_again 0 attempt err request w = (Inl err, w)"
| "try_again (Suc left) attempt err request w = (case request w of
     (Inr v, w1) \<Rightarrow> (Inr v, w1)
   | (Inl e, w1) \<Rightarrow> try_again left (attempt + 1) e request (if left = 0 then w1 else happens (Slept (250 * (attempt + 1))) w1))"

definition retry_request :: "nat \<Rightarrow> json vk_call \<Rightarrow> json vk_call" where
  "retry_request attempts request = try_again attempts 0 NothingExecuted request"

section \<open>Reading the answers\<close>

definition json_scalar_string :: "json \<Rightarrow> string option" where
  "json_scalar_string v = (case v of JString s \<Rightarrow> Some s | JInt n \<Rightarrow> Some (decimal_int n) | _ \<Rightarrow> None)"

definition check_api_error :: "json \<Rightarrow> vk_error + unit" where
  "check_api_error v =
    (let either = \<lambda>a b e. (case json_get a e of Some x \<Rightarrow> Some x | None \<Rightarrow> json_get b e);
         text_or = \<lambda>x. (case Option.bind x json_text of Some s \<Rightarrow> s | None \<Rightarrow> ''API error'');
         second = (case Option.bind (json_get ''error_code'' v) json_scalar_string of
             Some code \<Rightarrow> if code \<noteq> ''0'' then Inl (ApiError code (text_or (json_get ''error_msg'' v))) else Inr ()
           | None \<Rightarrow> Inr ())
     in case json_get ''error'' v of
          Some e \<Rightarrow> if e \<noteq> JNull \<and> e \<noteq> JBool False
            then Inl (ApiError (case Option.bind (either ''error_code'' ''code'' e) json_scalar_string of Some s \<Rightarrow> s | None \<Rightarrow> ''unknown'')
                   (text_or (either ''error_msg'' ''message'' e)))
            else second
        | None \<Rightarrow> second)"

definition required_string :: "string \<Rightarrow> json \<Rightarrow> vk_error + string" where
  "required_string key v = (case Option.bind (json_get key v) json_text of
     Some s \<Rightarrow> if s \<noteq> [] then Inr s else Inl (MissingField key) | None \<Rightarrow> Inl (MissingField key))"

definition validated_api_url :: "vk_library \<Rightarrow> string \<Rightarrow> vk_error + string" where
  "validated_api_url lib s = (case vl_url lib s of None \<Rightarrow> Inl BadApiUrl
   | Some u \<Rightarrow>
      (let host = (case pu_host u of Some h \<Rightarrow> h | None \<Rightarrow> []);
           allowed_host = (host = ''api.ok.ru'' \<or> host = ''okcdn.ru'' \<or> starts_with (rev host) (rev ''.okcdn.ru''));
           allowed_path = (pu_path u \<in> {[], ''/'', ''/fb.do''})
       in if pu_scheme u \<noteq> ''https'' \<or> \<not> allowed_host \<or> \<not> allowed_path \<or> pu_username u \<noteq> [] \<or> pu_password u \<noteq> None
            \<or> pu_port u \<noteq> Some 443 \<or> pu_fragment u \<noteq> None \<or> pu_query u \<noteq> None
          then Inl UnsafeApiUrl else Inr (vl_url_text lib (u\<lparr>pu_path := ''/fb.do''\<rparr>))))"

text \<open>The last segment of a join link.\<close>

definition join_hash :: "string \<Rightarrow> string option" where
  "join_hash value = (let trimmed = rev (dropWhile (\<lambda>c. c = CHR 0x2F) (rev (trim value))) in
     if trimmed = [] then None else Some (rev (takeWhile (\<lambda>c. c \<noteq> CHR 0x2F) (rev trimmed))))"

definition credential_fingerprint :: "vk_library \<Rightarrow> turn_credentials \<Rightarrow> bytes" where
  "credential_fingerprint lib c = vl_sha lib (utf8 (tc_username c) @ [0] @ utf8 (tc_password c) @ concat (map (\<lambda>a. 0 # utf8 a) (tc_servers c)))"

section \<open>Sessions\<close>

record api_session =
  as_url :: string
  as_key :: string

definition vk_endpoint :: "string \<Rightarrow> string" where
  "vk_endpoint name = ''https://api.vk.ru/method/'' @ name @ ''?v='' @ VK_API_VERSION @ ''&client_id='' @ VK_CLIENT_ID"

definition call_token_form :: "string \<Rightarrow> vk_request" where
  "call_token_form access = \<lparr>rq_endpoint = vk_endpoint ''messages.getCallToken'',
     rq_fields = [(''env'', ''production''), (''access_token'', access)], rq_site = SiteVk\<rparr>"

definition login_form :: "vk_library \<Rightarrow> string \<Rightarrow> string \<Rightarrow> string \<Rightarrow> vk_request" where
  "login_form lib url call_token device = \<lparr>rq_endpoint = url,
     rq_fields = [(''session_data'', vl_print lib (JObject [(''auth_token'', JString call_token), (''version'', JInt 3),
           (''device_id'', JString device), (''client_version'', JString ''1.0.1'')])),
         (''device_id'', device), (''verification_supported'', ''true''), (''verification_supported_v'', ''1''), (''client'', ''test''),
         (''gen_token'', ''true''), (''method'', ''auth.anonymLogin''), (''format'', ''JSON''), (''application_key'', OK_APPLICATION_KEY)],
     rq_site = SiteOk\<rparr>"

definition open_account_session :: "vk_library \<Rightarrow> string \<Rightarrow> string \<Rightarrow> api_session vk_call" where
  "open_account_session lib access device =
    then_call (retry_request 3 (post_form lib (call_token_form access))) (\<lambda>token_response.
    then_call (settled (check_api_error token_response)) (\<lambda>_.
    then_call (settled (case json_get ''response'' token_response of None \<Rightarrow> Inl (MissingField ''response'') | Some r \<Rightarrow> Inr r)) (\<lambda>response.
    then_call (settled (required_string ''token'' response)) (\<lambda>call_token.
    then_call (settled (validated_api_url lib (case Option.bind (json_get ''api_base_url'' response) json_text of Some s \<Rightarrow> s | None \<Rightarrow> DEFAULT_OK_API))) (\<lambda>url.
    then_call (retry_request 3 (post_form lib (login_form lib url call_token device))) (\<lambda>login.
    then_call (settled (check_api_error login)) (\<lambda>_.
    then_call (settled (required_string ''session_key'' login)) (\<lambda>key. settled (Inr \<lparr>as_url = url, as_key = key\<rparr>)))))))))"

text \<open>A form of the calls service, with the fields that every one of them ends with.\<close>

definition ok_form :: "string \<Rightarrow> string \<Rightarrow> (string \<times> string) list \<Rightarrow> vk_request" where
  "ok_form url key own = \<lparr>rq_endpoint = url,
     rq_fields = own @ [(''format'', ''JSON''), (''application_key'', OK_APPLICATION_KEY), (''session_key'', key)], rq_site = SiteOk\<rparr>"

section \<open>Starting a call\<close>

record active_calls =
  ac_url :: string
  ac_access :: string
  ac_key :: string
  ac_conversations :: "string list"

record credential_broker =
  cb_access :: string
  cb_conversation :: string
  cb_issued :: "bytes set"

record started_calls =
  sc_hashes :: "string list"
  sc_active :: active_calls
  sc_broker :: credential_broker

text \<open>A form that is posted up to three times, its answer checked every time.\<close>

definition checked_post :: "vk_library \<Rightarrow> vk_request \<Rightarrow> json vk_call" where
  "checked_post lib rq = retry_request 3 (then_call (post_form lib rq) (\<lambda>v. then_call (settled (check_api_error v)) (\<lambda>_. settled (Inr v))))"

text \<open>One conversation after the other; the count is of those that succeeded.\<close>

fun each_conversation :: "(string \<Rightarrow> json vk_call) \<Rightarrow> string list \<Rightarrow> vk_wire \<Rightarrow> nat \<times> vk_wire" where
  "each_conversation post [] w = (0, w)"
| "each_conversation post (c # cs) w = (case post c w of (r, w1) \<Rightarrow> (case each_conversation post cs w1 of
     (n, w2) \<Rightarrow> (case r of Inr v \<Rightarrow> n + 1 | Inl e \<Rightarrow> n, w2)))"

definition hangup_form :: "active_calls \<Rightarrow> string \<Rightarrow> vk_request" where
  "hangup_form a conversation = ok_form (ac_url a) (ac_key a)
     [(''conversationId'', conversation), (''reason'', ''HUNGUP''), (''method'', ''vchat.hangupConversation'')]"

definition leave_creator :: "vk_library \<Rightarrow> active_calls \<Rightarrow> vk_wire \<Rightarrow> nat \<times> vk_wire" where
  "leave_creator lib a = each_conversation (\<lambda>c. checked_post lib (hangup_form a c)) (ac_conversations a)"

definition finish_form :: "active_calls \<Rightarrow> string \<Rightarrow> vk_request" where
  "finish_form a conversation = \<lparr>rq_endpoint = vk_endpoint ''calls.forceFinish'',
     rq_fields = [(''call_id'', conversation), (''access_token'', ac_access a)], rq_site = SiteVk\<rparr>"

text \<open>A time-out around a call: \<open>None\<close> if it does not strike, otherwise the number of events it lets happen. Its default is the count 0.\<close>

definition within_time :: "nat option \<Rightarrow> (vk_wire \<Rightarrow> nat \<times> vk_wire) \<Rightarrow> vk_wire \<Rightarrow> nat \<times> vk_wire" where
  "within_time limit m w = (case limit of None \<Rightarrow> m w
     | Some k \<Rightarrow> (0, (snd (m w))\<lparr>wi_log := take (length (wi_log w) + k) (wi_log (snd (m w)))\<rparr>))"

definition finish_calls :: "vk_library \<Rightarrow> nat option \<Rightarrow> active_calls \<Rightarrow> vk_wire \<Rightarrow> nat \<times> vk_wire" where
  "finish_calls lib limit a = within_time limit (each_conversation (\<lambda>c. checked_post lib (finish_form a c)) (ac_conversations a))"

definition info_form :: "api_session \<Rightarrow> vk_request" where
  "info_form s = ok_form (as_url s) (as_key s) [(''method'', ''system.getInfo'')]"

definition start_form :: "vk_library \<Rightarrow> bool \<Rightarrow> string \<Rightarrow> api_session \<Rightarrow> vk_request" where
  "start_form lib multiple conversation s = ok_form (as_url s) (as_key s)
     [(''conversationId'', conversation), (''isVideo'', ''true''), (''protocolVersion'', if multiple then ''6'' else ''5''), (''createJoinLink'', ''true''),
      (''payload'', vl_print lib (JObject [(''is_video'', JBool True), (''with_join_link'', JBool True), (''join_by_link'', JBool True),
         (''community_user_id'', JInt 0), (''caller_app_id'', JInt 6287487)])),
      (''onlyAdminCanShareMovie'', ''false''), (''externalIds'', []), (''method'', ''vchat.startConversation'')]"

text \<open>\<open>conversation\<close> is the fresh identity of the call; \<open>limit\<close> is the time-out of leaving it when it was not created properly.\<close>

definition start_conversation :: "vk_library \<Rightarrow> string \<Rightarrow> bool \<Rightarrow> string \<Rightarrow> nat option \<Rightarrow> api_session \<Rightarrow> started_calls vk_call" where
  "start_conversation lib access multiple conversation limit s = (\<lambda>w. case retry_request 3 (post_form lib (start_form lib multiple conversation s)) w of
     (call, w1) \<Rightarrow>
       (let hash = bind_result call (\<lambda>v. bind_result (check_api_error v) (\<lambda>_.
              case Option.bind (Option.bind (json_get ''join_link'' v) json_text) join_hash of None \<Rightarrow> Inl NoJoinLink | Some h \<Rightarrow> Inr h));
            active = \<lparr>ac_url = as_url s, ac_access = access, ac_key = as_key s, ac_conversations = [conversation]\<rparr>
        in case hash of
             Inr h \<Rightarrow> (Inr \<lparr>sc_hashes = [h], sc_active = active,
               sc_broker = \<lparr>cb_access = access, cb_conversation = conversation, cb_issued = {}\<rparr>\<rparr>, w1)
           | Inl e \<Rightarrow> (Inl e, snd (within_time limit (leave_creator lib active) w1))))"

definition start_calls :: "vk_library \<Rightarrow> string \<Rightarrow> string \<Rightarrow> bool \<Rightarrow> string \<Rightarrow> bool \<Rightarrow> nat option \<Rightarrow> started_calls vk_call" where
  "start_calls lib access device multiple conversation client_built limit =
    (if trim access = [] then settled (Inl TokenMissing) else if \<not> client_built then settled (Inl ClientFailed) else
     then_call (open_account_session lib access device) (\<lambda>s.
     then_call (post_form lib (info_form s)) (\<lambda>info.
     then_call (settled (check_api_error info)) (\<lambda>_.
     then_call (settled (case json_get ''serverTime'' info of None \<Rightarrow> Inl NoServerTime | Some _ \<Rightarrow> Inr ())) (\<lambda>_.
       start_conversation lib access multiple conversation limit s)))))"

section \<open>The credential broker\<close>

definition conversation_params_form :: "string \<Rightarrow> api_session \<Rightarrow> vk_request" where
  "conversation_params_form conversation s = ok_form (as_url s) (as_key s)
     [(''conversationId'', conversation), (''method'', ''vchat.getConversationParams'')]"

text \<open>The exchanges for one set of credentials; \<open>device\<close> is the fresh identity of their session.\<close>

definition fetch_account_credentials :: "vk_library \<Rightarrow> credential_broker \<Rightarrow> string \<Rightarrow> turn_credentials vk_call" where
  "fetch_account_credentials lib b device =
    then_call (open_account_session lib (cb_access b) device) (\<lambda>s.
    then_call (checked_post lib (conversation_params_form (cb_conversation b) s)) (\<lambda>params.
      settled (case parse_turn_credentials params of Inl e \<Rightarrow> Inl (NoCredentials e) | Inr c \<Rightarrow> Inr c)))"

definition broker_credentials :: "vk_library \<Rightarrow> nat \<Rightarrow> string \<Rightarrow> credential_broker \<Rightarrow> vk_wire \<Rightarrow> (vk_error + turn_credentials) \<times> credential_broker \<times> vk_wire" where
  "broker_credentials lib i device b w =
    (if \<not> (1 \<le> i \<and> i \<le> MAX_ACCOUNT_CREDENTIALS) then (Inl (CredentialIdRange i), b, w)
     else case fetch_account_credentials lib b device w of
       (Inl e, w1) \<Rightarrow> (Inl e, b, w1)
     | (Inr c, w1) \<Rightarrow> (let f = credential_fingerprint lib c in
         if f \<in> cb_issued b then (Inl (RepeatedCredentials i), b, w1) else (Inr c, b\<lparr>cb_issued := insert f (cb_issued b)\<rparr>, w1)))"

section \<open>A whole session\<close>

text \<open>What the engine does with a started call, in any order: workers ask the broker for credentials, the creator leaves, the call is finished.\<close>

datatype calls_use = UseBroker nat string | UseLeave "nat option" | UseFinish "nat option"

fun use_calls :: "vk_library \<Rightarrow> active_calls \<Rightarrow> calls_use list \<Rightarrow> credential_broker \<Rightarrow> vk_wire \<Rightarrow> turn_credentials list \<times> credential_broker \<times> vk_wire" where
  "use_calls lib a [] b w = ([], b, w)"
| "use_calls lib a (UseBroker i device # us) b w = (case broker_credentials lib i device b w of (r, b1, w1) \<Rightarrow>
     (case use_calls lib a us b1 w1 of (cs, b2, w2) \<Rightarrow> (case r of Inl e \<Rightarrow> cs | Inr c \<Rightarrow> c # cs, b2, w2)))"
| "use_calls lib a (UseLeave limit # us) b w = use_calls lib a us b (snd (within_time limit (leave_creator lib a) w))"
| "use_calls lib a (UseFinish limit # us) b w = use_calls lib a us b (snd (finish_calls lib limit a w))"

definition calls_session :: "vk_library \<Rightarrow> string \<Rightarrow> string \<Rightarrow> bool \<Rightarrow> string \<Rightarrow> bool \<Rightarrow> nat option \<Rightarrow> calls_use list \<Rightarrow> turn_credentials list vk_call" where
  "calls_session lib access device multiple conversation client_built limit us w =
    (case start_calls lib access device multiple conversation client_built limit w of
       (Inl e, w1) \<Rightarrow> (Inl e, w1)
     | (Inr s, w1) \<Rightarrow> (case use_calls lib (sc_active s) us (sc_broker s) w1 of (cs, b, w2) \<Rightarrow> (Inr cs, w2)))"

section \<open>What is sent\<close>

text \<open>An address that \<open>validated_api_url\<close> lets through.\<close>

definition calls_address :: "vk_library \<Rightarrow> string \<Rightarrow> bool" where
  "calls_address lib s \<longleftrightarrow> (\<exists>t u h. vl_url lib t = Some u \<and> s = vl_url_text lib (u\<lparr>pu_path := ''/fb.do''\<rparr>) \<and> pu_scheme u = ''https''
     \<and> pu_host u = Some h \<and> (h = ''api.ok.ru'' \<or> h = ''okcdn.ru'' \<or> (\<exists>p. h = p @ ''.okcdn.ru''))
     \<and> pu_port u = Some 443 \<and> pu_username u = [] \<and> pu_password u = None \<and> pu_query u = None \<and> pu_fragment u = None)"

definition keeps_secrets :: "vk_library \<Rightarrow> vk_request \<Rightarrow> bool" where
  "keeps_secrets lib rq \<longleftrightarrow> (case rq_site rq of
     SiteVk \<Rightarrow> starts_with (rq_endpoint rq) ''https://api.vk.ru/method/'' \<and> ''session_key'' \<notin> fst ` set (rq_fields rq)
   | SiteOk \<Rightarrow> calls_address lib (rq_endpoint rq) \<and> ''access_token'' \<notin> fst ` set (rq_fields rq))"

definition event_ok :: "vk_library \<Rightarrow> wire_event \<Rightarrow> bool" where
  "event_ok lib e \<longleftrightarrow> (case e of Posted rq \<Rightarrow> keeps_secrets lib rq | Slept n \<Rightarrow> True)"

lemma event_ok_simps [simp]: "event_ok lib (Posted rq) = keeps_secrets lib rq" "event_ok lib (Slept n)"
  by (simp_all add: event_ok_def)

text \<open>The events of a call satisfy \<open>R\<close>, and its result, if any, satisfies \<open>Q\<close>.\<close>

definition logged :: "(wire_event \<Rightarrow> bool) \<Rightarrow> vk_wire \<Rightarrow> vk_wire \<Rightarrow> bool" where
  "logged R w w' \<longleftrightarrow> (\<exists>es. wi_log w' = wi_log w @ es \<and> list_all R es)"

definition posts :: "(wire_event \<Rightarrow> bool) \<Rightarrow> ('a \<Rightarrow> bool) \<Rightarrow> 'a vk_call \<Rightarrow> bool" where
  "posts R Q m \<longleftrightarrow> (\<forall>w. logged R w (snd (m w)) \<and> (\<forall>x. fst (m w) = Inr x \<longrightarrow> Q x))"

lemma logged_refl [simp]: "logged R w w"
  by (simp add: logged_def)

lemma logged_trans: "logged R w w1 \<Longrightarrow> logged R w1 w2 \<Longrightarrow> logged R w w2"
  by (auto simp: logged_def)

lemma logged_happens: "R e \<Longrightarrow> logged R w (happens e w)"
  by (simp add: logged_def happens_def)

lemma postsD: "posts R Q m \<Longrightarrow> m w = (r, w') \<Longrightarrow> logged R w w' \<and> (\<forall>x. r = Inr x \<longrightarrow> Q x)"
  unfolding posts_def by (metis fst_conv snd_conv)

lemma posts_then: "posts R Q m \<Longrightarrow> (\<And>x. Q x \<Longrightarrow> posts R Q2 (f x)) \<Longrightarrow> posts R Q2 (then_call m f)"
  unfolding posts_def [of R Q2 "then_call m f"]
proof (intro allI)
  fix w
  assume m: "posts R Q m" and f: "\<And>x. Q x \<Longrightarrow> posts R Q2 (f x)"
  obtain r w1 where r: "m w = (r, w1)" by force
  note w1 = postsD [OF m r]
  show "logged R w (snd (then_call m f w)) \<and> (\<forall>x. fst (then_call m f w) = Inr x \<longrightarrow> Q2 x)"
  proof (cases r)
    case (Inl e)
    then show ?thesis using w1 by (simp add: then_call_def r)
  next
    case (Inr x)
    obtain r2 w2 where r2: "f x w1 = (r2, w2)" by force
    show ?thesis using postsD [OF f r2] w1 Inr by (auto simp: then_call_def r r2 intro: logged_trans)
  qed
qed

lemma posts_settled: "(\<And>x. r = Inr x \<Longrightarrow> Q x) \<Longrightarrow> posts R Q (settled r)"
  by (simp add: posts_def settled_def)

lemma posts_form: "R (Posted rq) \<Longrightarrow> posts R (\<lambda>_. True) (post_form lib rq)"
  by (simp add: posts_def post_form_def logged_happens)

lemma posts_retry:
  assumes "posts R Q m" "\<And>n. R (Slept n)"
  shows "posts R Q (retry_request n m)"
proof -
  have "logged R w (snd (try_again k a e m w)) \<and> (\<forall>x. fst (try_again k a e m w) = Inr x \<longrightarrow> Q x)" for k a e w
  proof (induction k arbitrary: a e w)
    case (Suc k)
    obtain r w1 where r: "m w = (r, w1)" by force
    show ?case
    proof (cases r)
      case (Inl e1)
      let ?w2 = "if k = 0 then w1 else happens (Slept (250 * (a + 1))) w1"
      have "logged R w ?w2" using postsD [OF assms(1) r] logged_happens [of R _ w1] assms(2) by (auto intro: logged_trans)
      then show ?thesis using Suc.IH [where a = "a + 1" and e = e1 and w = ?w2] by (auto simp: r Inl intro: logged_trans)
    next
      case (Inr x)
      then show ?thesis using postsD [OF assms(1) r] by (simp add: r)
    qed
  qed simp
  then show ?thesis by (simp add: posts_def retry_request_def)
qed

lemma posts_checked: "R (Posted rq) \<Longrightarrow> (\<And>n. R (Slept n)) \<Longrightarrow> posts R (\<lambda>_. True) (checked_post lib rq)"
  unfolding checked_post_def by (intro posts_retry posts_then [OF posts_form] posts_then [OF posts_settled] posts_settled) simp_all

lemma posts_each:
  assumes "\<And>c. posts R (\<lambda>_. True) (post c)"
  shows "logged R w (snd (each_conversation post cs w))"
proof (induction cs arbitrary: w)
  case (Cons c cs)
  obtain r w1 where r: "post c w = (r, w1)" by force
  obtain n w2 where n: "each_conversation post cs w1 = (n, w2)" by force
  show ?case using postsD [OF assms r] Cons.IH [of w1] by (auto simp: r n intro: logged_trans)
qed simp

lemma logged_within: "logged R w (snd (m w)) \<Longrightarrow> logged R w (snd (within_time limit m w))"
  by (auto simp: logged_def within_time_def list_all_iff split: option.split) (meson in_set_takeD)

subsection \<open>The operations\<close>

lemma ends_with_split: "starts_with (rev h) (rev t) \<Longrightarrow> h = rev (drop (length t) (rev h)) @ t"
  unfolding starts_with_def by (metis append_take_drop_id length_rev rev_append rev_rev_ident)

lemma validated_address: "validated_api_url lib s = Inr url \<Longrightarrow> calls_address lib url"
proof -
  assume v: "validated_api_url lib s = Inr url"
  then obtain u where u: "vl_url lib s = Some u" by (auto simp: validated_api_url_def split: option.splits)
  obtain h where h: "pu_host u = Some h" "h = ''api.ok.ru'' \<or> h = ''okcdn.ru'' \<or> starts_with (rev h) (rev ''.okcdn.ru'')"
    using v u by (auto simp: validated_api_url_def Let_def starts_with_def split: option.splits if_splits)
  have "h = rev (drop (length ''.okcdn.ru'') (rev h)) @ ''.okcdn.ru''" if "starts_with (rev h) (rev ''.okcdn.ru'')"
    by (rule ends_with_split [OF that])
  then show ?thesis using v u h unfolding calls_address_def
    by (intro exI [of _ s] exI [of _ u] exI [of _ h]) (auto simp: validated_api_url_def Let_def split: if_splits)
qed

lemma vk_forms [simp]: "keeps_secrets lib (call_token_form access)" "keeps_secrets lib (finish_form a c)"
  by (simp_all add: keeps_secrets_def call_token_form_def finish_form_def vk_endpoint_def starts_with_def)

lemma ok_forms [simp]: "keeps_secrets lib (ok_form url key own) \<longleftrightarrow> calls_address lib url \<and> ''access_token'' \<notin> fst ` set own"
  by (simp add: keeps_secrets_def ok_form_def)

lemma login_form_ok [simp]: "keeps_secrets lib (login_form lib url t d) \<longleftrightarrow> calls_address lib url"
  by (simp add: keeps_secrets_def login_form_def)

lemma session_posts: "posts (event_ok lib) (\<lambda>s. calls_address lib (as_url s)) (open_account_session lib access device)"
  unfolding open_account_session_def
  by (intro posts_then [OF posts_retry [OF posts_form]] posts_then [OF posts_settled, where Q = "calls_address lib"] posts_then [OF posts_settled, where Q = "\<lambda>_. True"]
      posts_settled) (auto intro: validated_address)

lemma broker_posts:
  assumes "broker_credentials lib i device b w = (r, b', w')"
  shows "logged (event_ok lib) w w' \<and> cb_access b' = cb_access b \<and> cb_conversation b' = cb_conversation b
    \<and> (case r of Inl e \<Rightarrow> cb_issued b' = cb_issued b
        | Inr c \<Rightarrow> usable c \<and> credential_fingerprint lib c \<notin> cb_issued b \<and> cb_issued b' = insert (credential_fingerprint lib c) (cb_issued b))"
proof -
  have p: "posts (event_ok lib) usable (fetch_account_credentials lib b device)"
    unfolding fetch_account_credentials_def
    by (intro posts_then [OF session_posts] posts_then [OF posts_checked] posts_settled)
      (use parsed_usable in \<open>auto simp: conversation_params_form_def gives_usable_def split: sum.splits\<close>)
  obtain r1 w1 where f: "fetch_account_credentials lib b device w = (r1, w1)" by force
  show ?thesis using assms postsD [OF p f] by (auto simp: broker_credentials_def f Let_def split: if_splits sum.splits)
qed

lemma hangup_posts: "calls_address lib (ac_url a) \<Longrightarrow> logged (event_ok lib) w (snd (leave_creator lib a w))"
  unfolding leave_creator_def by (intro posts_each posts_checked) (simp_all add: hangup_form_def)

lemma finish_posts: "logged (event_ok lib) w (snd (finish_calls lib limit a w))"
  unfolding finish_calls_def by (intro logged_within posts_each posts_checked) simp_all

lemma conversation_posts:
  assumes "calls_address lib (as_url s)"
  shows "posts (event_ok lib) (\<lambda>x. calls_address lib (ac_url (sc_active x)) \<and> cb_issued (sc_broker x) = {}) (start_conversation lib access multiple conversation limit s)"
  unfolding posts_def
proof (intro allI)
  fix w
  have p: "posts (event_ok lib) (\<lambda>_. True) (retry_request 3 (post_form lib (start_form lib multiple conversation s)))"
    by (intro posts_retry posts_form) (use assms in \<open>simp_all add: start_form_def\<close>)
  obtain r w1 where r: "retry_request 3 (post_form lib (start_form lib multiple conversation s)) w = (r, w1)" by force
  let ?a = "\<lparr>ac_url = as_url s, ac_access = access, ac_key = as_key s, ac_conversations = [conversation]\<rparr>"
  have "logged (event_ok lib) w1 (snd (within_time limit (leave_creator lib ?a) w1))" by (intro logged_within hangup_posts) (simp add: assms)
  then show "logged (event_ok lib) w (snd (start_conversation lib access multiple conversation limit s w))
      \<and> (\<forall>x. fst (start_conversation lib access multiple conversation limit s w) = Inr x
          \<longrightarrow> calls_address lib (ac_url (sc_active x)) \<and> cb_issued (sc_broker x) = {})"
    using postsD [OF p r] assms by (auto simp: start_conversation_def r Let_def intro: logged_trans split: sum.splits)
qed

lemma start_posts:
  "posts (event_ok lib) (\<lambda>x. calls_address lib (ac_url (sc_active x)) \<and> cb_issued (sc_broker x) = {})
     (start_calls lib access device multiple conversation client_built limit)"
  unfolding start_calls_def
  by (simp only: split: if_split)
    (intro conjI impI posts_settled posts_then [OF session_posts] posts_then [OF posts_form] posts_then [OF posts_settled, where Q = "\<lambda>_. True"] conversation_posts;
      simp add: info_form_def)

lemma use_posts:
  "use_calls lib a us b w = (cs, b', w') \<Longrightarrow> calls_address lib (ac_url a) \<Longrightarrow> logged (event_ok lib) w w' \<and> list_all usable cs
     \<and> distinct (map (credential_fingerprint lib) cs) \<and> credential_fingerprint lib ` set cs \<inter> cb_issued b = {}"
proof (induction us arbitrary: b w cs b' w')
  case (Cons u us)
  show ?case
  proof (cases u)
    case (UseBroker i device)
    obtain r b1 w1 where r: "broker_credentials lib i device b w = (r, b1, w1)" by (cases "broker_credentials lib i device b w") auto
    obtain ds b2 w2 where d: "use_calls lib a us b1 w1 = (ds, b2, w2)" by (cases "use_calls lib a us b1 w1") auto
    have "cs = (case r of Inl e \<Rightarrow> ds | Inr c \<Rightarrow> c # ds)" "w' = w2" using Cons.prems(1) by (simp_all add: UseBroker r d)
    then show ?thesis using broker_posts [OF r] Cons.IH [OF d Cons.prems(2)] by (auto intro: logged_trans split: sum.splits)
  next
    case (UseLeave limit)
    show ?thesis using Cons.IH [OF Cons.prems(1) [unfolded UseLeave use_calls.simps] Cons.prems(2)]
        logged_within [of "event_ok lib" w "leave_creator lib a" limit] hangup_posts [OF Cons.prems(2), of w] by (auto intro: logged_trans)
  next
    case (UseFinish limit)
    show ?thesis using Cons.IH [OF Cons.prems(1) [unfolded UseFinish use_calls.simps] Cons.prems(2)] finish_posts [of lib w limit a]
      by (auto intro: logged_trans)
  qed
qed simp

section \<open>Properties\<close>

text \<open>A conversation that could not be started properly is hung up, unless the time-out strikes before the first request.\<close>

definition opens :: "vk_request \<Rightarrow> 'a vk_call \<Rightarrow> bool" where
  "opens rq m \<longleftrightarrow> (\<forall>w. \<exists>es. wi_log (snd (m w)) = wi_log w @ Posted rq # es)"

lemma opens_logged: "wi_log w1 = wi_log w @ Posted rq # es \<Longrightarrow> logged R w1 w2 \<Longrightarrow> \<exists>es. wi_log w2 = wi_log w @ Posted rq # es"
  by (auto simp: logged_def)

lemma opens_then:
  assumes "\<And>x. posts (\<lambda>_. True) (\<lambda>_. True) (f x)"
  shows "opens rq (then_call (post_form lib rq) f)"
  unfolding opens_def
proof
  fix w
  let ?w1 = "happens (Posted rq) w"
  have w1: "wi_log ?w1 = wi_log w @ Posted rq # []" by (simp add: happens_def)
  show "\<exists>es. wi_log (snd (then_call (post_form lib rq) f w)) = wi_log w @ Posted rq # es"
  proof (cases "read_reply lib (wi_net w (length (wi_log w)))")
    case (Inl e)
    then show ?thesis using w1 by (simp add: then_call_def post_form_def)
  next
    case (Inr v)
    have "logged (\<lambda>_. True) ?w1 (snd (f v ?w1))" using assms by (simp add: posts_def)
    then show ?thesis using opens_logged [OF w1] Inr by (simp add: then_call_def post_form_def)
  qed
qed

lemma opens_retry:
  assumes "opens rq m"
  shows "opens rq (retry_request (Suc k) m)"
  unfolding opens_def
proof
  fix w
  obtain r w1 where r: "m w = (r, w1)" by force
  obtain es where es: "wi_log w1 = wi_log w @ Posted rq # es" using assms r unfolding opens_def by (metis snd_conv)
  have t: "logged (\<lambda>_. True) v (snd (try_again n a e m v))" for n a e v
  proof (induction n arbitrary: a e v)
    case (Suc n)
    obtain q v1 where q: "m v = (q, v1)" by force
    have v1: "logged (\<lambda>_. True) v v1" using assms q unfolding opens_def logged_def by (metis snd_conv Ball_set)
    show ?case
    proof (cases q)
      case (Inl e1)
      let ?v2 = "if n = 0 then v1 else happens (Slept (250 * (a + 1))) v1"
      have "logged (\<lambda>_. True) v ?v2" using v1 logged_happens [of "\<lambda>_. True" _ v1] by (auto intro: logged_trans)
      then show ?thesis using Suc.IH [where a = "a + 1" and e = e1 and v = ?v2] by (auto simp: q Inl intro: logged_trans)
    qed (use v1 q in simp)
  qed simp
  have "logged (\<lambda>_. True) w1 (snd (retry_request (Suc k) m w))"
  proof (cases r)
    case (Inl e1)
    let ?v2 = "if k = 0 then w1 else happens (Slept 250) w1"
    have "logged (\<lambda>_. True) w1 ?v2" using logged_happens [of "\<lambda>_. True" _ w1] by simp
    then show ?thesis using t [of ?v2] by (auto simp: retry_request_def r Inl intro: logged_trans)
  qed (simp add: retry_request_def r)
  then show "\<exists>es. wi_log (snd (retry_request (Suc k) m w)) = wi_log w @ Posted rq # es" by (rule opens_logged [OF es])
qed

lemma opens_checked: "opens rq (checked_post lib rq)"
proof -
  have "opens rq (retry_request (Suc 2) (then_call (post_form lib rq) (\<lambda>v. then_call (settled (check_api_error v)) (\<lambda>_. settled (Inr v)))))"
    by (intro opens_retry opens_then posts_then [OF posts_settled] posts_settled) simp_all
  then show ?thesis by (simp add: checked_post_def numeral_3_eq_3)
qed

lemma failed_start_hangs_up:
  assumes "start_conversation lib access multiple conversation limit s w = (Inl e, w')" "limit \<noteq> Some 0"
  shows "\<exists>a. ac_url a = as_url s \<and> ac_key a = as_key s \<and> Posted (hangup_form a conversation) \<in> set (wi_log w')"
proof -
  let ?a = "\<lparr>ac_url = as_url s, ac_access = access, ac_key = as_key s, ac_conversations = [conversation]\<rparr>"
  obtain r w1 where r: "retry_request 3 (post_form lib (start_form lib multiple conversation s)) w = (r, w1)" by force
  have w': "w' = snd (within_time limit (leave_creator lib ?a) w1)"
    using assms(1) by (auto simp: start_conversation_def r Let_def split: sum.splits)
  obtain q w2 where q: "checked_post lib (hangup_form ?a conversation) w1 = (q, w2)" by force
  obtain es where es: "wi_log w2 = wi_log w1 @ Posted (hangup_form ?a conversation) # es"
    using opens_checked [of "hangup_form ?a conversation" lib] q unfolding opens_def by (metis snd_conv)
  have "snd (leave_creator lib ?a w1) = w2" by (simp add: leave_creator_def q)
  then have "Posted (hangup_form ?a conversation) \<in> set (wi_log w')"
    using es assms(2) by (auto simp: w' within_time_def take_Cons' split: option.split)
  then show ?thesis by (intro exI [of _ ?a]) simp
qed

text \<open>C13: A session with VK Calls keeps its secrets and repeats no credentials. Whatever the service answers, from the start of the call and over any uses
  of it (workers asking the broker, the creator leaving, the call being finished), every request handed to the HTTP client goes either to the
  method endpoints of api.vk.ru, without a \<open>session_key\<close> field, or to an address that was parsed as https, port 443, of api.ok.ru, okcdn.ru or a subdomain of
  okcdn.ru, without user, password, query and fragment and with the path set to /fb.do, and then without an \<open>access_token\<close> field. The credentials the broker gives out
  have servers, all of supported kinds, and no two of them the same fingerprint.\<close>

theorem calls_keep_secrets:
  assumes "calls_session lib access device multiple conversation client_built limit us w = (r, w')"
  shows "(\<exists>es. wi_log w' = wi_log w @ es \<and> (\<forall>rq. Posted rq \<in> set es \<longrightarrow> keeps_secrets lib rq))
    \<and> (\<forall>cs. r = Inr cs \<longrightarrow> list_all usable cs \<and> distinct (map (credential_fingerprint lib) cs))"
proof -
  obtain q w1 where q: "start_calls lib access device multiple conversation client_built limit w = (q, w1)" by force
  note s = postsD [OF start_posts q]
  have "logged (event_ok lib) w w' \<and> (\<forall>cs. r = Inr cs \<longrightarrow> list_all usable cs \<and> distinct (map (credential_fingerprint lib) cs))"
  proof (cases q)
    case (Inl e)
    then show ?thesis using s assms q by (auto simp: calls_session_def)
  next
    case (Inr x)
    obtain ds b w2 where u: "use_calls lib (sc_active x) us (sc_broker x) w1 = (ds, b, w2)" by (cases "use_calls lib (sc_active x) us (sc_broker x) w1") auto
    have "r = Inr ds" "w' = w2" using assms q u Inr by (simp_all add: calls_session_def)
    then show ?thesis using use_posts [OF u] s Inr logged_trans by blast
  qed
  then show ?thesis by (fastforce simp: logged_def list_all_iff)
qed

text \<open>A service that answers every request: to the second request of the broker it gives the credentials of the first once more, and the broker refuses them.\<close>

definition sample_params :: "string \<Rightarrow> json" where
  "sample_params user = JObject [(''turn_server'', JObject [(''username'', JString user), (''credential'', JString ''secret''),
     (''urls'', JArray [JString ''turn:192.0.2.1:3478''])])]"

definition sample_library :: vk_library where
  "sample_library = \<lparr>vl_read = (\<lambda>b. if b = [1] then Some (JObject [(''response'', JObject [(''token'', JString ''call token'')])])
       else if b = [2] then Some (JObject [(''session_key'', JString ''key'')])
       else if b = [3] then Some (JObject [(''serverTime'', JInt 1)])
       else if b = [4] then Some (JObject [(''join_link'', JString ''https://vk.ru/call/join/hash/'')])
       else if b = [5] then Some (sample_params ''user-a'') else if b = [6] then Some (sample_params ''user-b'') else None),
     vl_print = (\<lambda>v. []),
     vl_url = (\<lambda>s. Some \<lparr>pu_scheme = ''https'', pu_host = Some ''calls.okcdn.ru'', pu_path = ''/'', pu_username = [], pu_password = None, pu_port = Some 443,
       pu_query = None, pu_fragment = None\<rparr>),
     vl_url_text = (\<lambda>u. ''https://'' @ (case pu_host u of Some h \<Rightarrow> h | None \<Rightarrow> []) @ pu_path u), vl_sha = (\<lambda>b. b)\<rparr>"

definition sample_wire :: vk_wire where
  "sample_wire = \<lparr>wi_log = [], wi_net = (\<lambda>n. Some \<lparr>hr_status = 200, hr_body = [[1, 2, 3, 4, 1, 2, 5, 1, 2, 5, 1, 2, 6, 3] ! n]\<rparr>)\<rparr>"

definition sample_uses :: "calls_use list" where
  "sample_uses = [UseBroker 1 ''d1'', UseBroker 2 ''d2'', UseBroker 3 ''d3'', UseLeave (Some 1)]"

lemma sample_session: "(case calls_session sample_library ''token'' ''device'' True ''call'' True None sample_uses sample_wire of
    (r, w) \<Rightarrow> (case r of Inl e \<Rightarrow> [] | Inr cs \<Rightarrow> map tc_username cs) = [''user-a'', ''user-b''] \<and> length (wi_log w) = 14)"
  by code_simp

lemma calls_keep_secrets_witness:
  "\<exists>cs w. calls_session sample_library ''token'' ''device'' True ''call'' True None sample_uses sample_wire = (Inr cs, w) \<and> length (wi_log w) = 14
     \<and> map tc_username cs = [''user-a'', ''user-b''] \<and> list_all usable cs \<and> distinct (map (credential_fingerprint sample_library) cs)"
proof -
  obtain r w where c: "calls_session sample_library ''token'' ''device'' True ''call'' True None sample_uses sample_wire = (r, w)" by force
  from sample_session c calls_keep_secrets [OF c] show ?thesis by (auto split: sum.splits)
qed

end
