(* ===== verification/Dns.thy ===== *)
theory Dns
  imports Text
begin

text \<open>
  Name resolution (\<open>dns.rs\<close>): the query builder and the response parser, the cache, the race of the two resolvers, and
  the lookup that composes them. Hosts are UTF-8 bytes; times are nanoseconds. What the sockets deliver, the system
  resolver and the standard library's parser of address literals are arguments.
\<close>

section \<open>The codec\<close>

definition DNS_A_RECORD :: u16 where "DNS_A_RECORD = 1"
definition DNS_AAAA_RECORD :: u16 where "DNS_AAAA_RECORD = 28"

datatype dns_error =
    BadHost | BadLabel | ShortResponse | ShortHeader | ForeignId | NoResponseFlag | Truncated | StatusCode u16
  | BrokenName | BrokenPointer | InvalidName | CutName | BrokenQuestion | BrokenAnswer | BrokenRecord
  | EmptyYandexAnswer | YandexTimedOut | BothRejected dns_error dns_error | SystemLookupFailed | EmptySystemAnswer | SocketFailed

datatype ip_addr = IpV4 bytes | IpV6 bytes

definition dns_read_u16 :: "bytes \<Rightarrow> nat \<Rightarrow> dns_error + u16" where
  "dns_read_u16 message offset = (case get_range message offset (offset + 2) of None \<Rightarrow> Inl ShortHeader | Some b \<Rightarrow> Inr (u16_of_be b))"

text \<open>The labels of a name are skipped, not resolved; a compression pointer ends it. A slice is shorter than \<open>2\<^sup>6\<^sup>3\<close>, so the
  additions of the source do not overflow.\<close>

function skip_name :: "bytes \<Rightarrow> nat \<Rightarrow> dns_error + nat" where
  "skip_name message offset = (if length message \<le> offset then Inl BrokenName
     else let len = message ! offset in
       if len AND 0xc0 = 0xc0 then (if offset + 2 \<le> length message then Inr (offset + 2) else Inl BrokenPointer)
       else if len AND 0xc0 \<noteq> 0 then Inl InvalidName
       else if len = 0 then Inr (offset + 1)
       else if offset + 1 + unat len \<le> length message then skip_name message (offset + 1 + unat len) else Inl CutName)"
  by pat_completeness auto

termination by (relation "measure (\<lambda>(message, offset). length message - offset)") auto

declare skip_name.simps [simp del]

fun trim_end_dots :: "bytes \<Rightarrow> bytes" where
  "trim_end_dots [] = []"
| "trim_end_dots (b # bs) = (case trim_end_dots bs of [] \<Rightarrow> if b = 46 then [] else [b] | r \<Rightarrow> b # r)"

fun split_dots :: "bytes \<Rightarrow> bytes list" where
  "split_dots [] = [[]]"
| "split_dots (b # bs) = (if b = 46 then [] # split_dots bs else case split_dots bs of w # ws \<Rightarrow> (b # w) # ws | [] \<Rightarrow> [[b]])"

fun encode_labels :: "bytes list \<Rightarrow> dns_error + bytes" where
  "encode_labels [] = Inr []"
| "encode_labels (l # ls) = (if l = [] \<or> 63 < length l \<or> \<not> list_all (\<lambda>b. b < 128) l then Inl BadLabel
     else bind_result (encode_labels ls) (\<lambda>r. Inr (word_of_nat (length l) # l @ r)))"

definition build_query :: "bytes \<Rightarrow> u16 \<Rightarrow> u16 \<Rightarrow> dns_error + bytes" where
  "build_query host query_id record_type = (let host = trim_end_dots host in
     if host = [] \<or> 253 < length host then Inl BadHost
     else bind_result (encode_labels (split_dots host)) (\<lambda>name.
       Inr (u16_to_be query_id @ u16_to_be 0x0100 @ u16_to_be 1 @ u16_to_be 0 @ u16_to_be 0 @ u16_to_be 0
         @ name @ [0] @ u16_to_be record_type @ u16_to_be 1)))"

fun skip_questions :: "bytes \<Rightarrow> nat \<Rightarrow> nat \<Rightarrow> dns_error + nat" where
  "skip_questions response 0 offset = Inr offset"
| "skip_questions response (Suc n) offset = bind_result (skip_name response offset) (\<lambda>offset.
     if offset + 4 \<le> length response then skip_questions response n (offset + 4) else Inl BrokenQuestion)"

definition add_address :: "ip_addr \<Rightarrow> ip_addr list \<Rightarrow> ip_addr list" where
  "add_address a as = (if a \<in> set as then as else as @ [a])"

definition record_addresses :: "u16 \<Rightarrow> u16 \<Rightarrow> bytes \<Rightarrow> ip_addr list \<Rightarrow> ip_addr list" where
  "record_addresses record_type record_class data addresses =
    (let addresses = (if record_class = 1 \<and> record_type = DNS_A_RECORD \<and> length data = 4
           then add_address (IpV4 data) addresses else addresses)
     in if record_class = 1 \<and> record_type = DNS_AAAA_RECORD \<and> length data = 16 then add_address (IpV6 data) addresses else addresses)"

text \<open>One answer: where the next one starts, and the addresses with the ones it adds.\<close>

definition read_answer :: "bytes \<Rightarrow> nat \<Rightarrow> ip_addr list \<Rightarrow> dns_error + nat \<times> ip_addr list" where
  "read_answer response offset addresses =
    bind_result (skip_name response offset) (\<lambda>offset.
    bind_result (dns_read_u16 response offset) (\<lambda>record_type.
    bind_result (dns_read_u16 response (offset + 2)) (\<lambda>record_class.
    bind_result (dns_read_u16 response (offset + 8)) (\<lambda>data_length.
      if \<not> offset + 10 \<le> length response then Inl BrokenAnswer
      else let data_offset = offset + 10; next_offset = data_offset + unat data_length in
        if \<not> next_offset \<le> length response then Inl BrokenRecord
        else Inr (next_offset, record_addresses record_type record_class (subslice response data_offset next_offset) addresses)))))"

fun read_answers :: "bytes \<Rightarrow> nat \<Rightarrow> nat \<Rightarrow> ip_addr list \<Rightarrow> dns_error + ip_addr list" where
  "read_answers response 0 offset addresses = Inr addresses"
| "read_answers response (Suc n) offset addresses = bind_result (read_answer response offset addresses) (\<lambda>(offset, addresses).
     read_answers response n offset addresses)"

definition parse_response :: "bytes \<Rightarrow> u16 \<Rightarrow> dns_error + ip_addr list" where
  "parse_response response query_id =
    (if length response < 12 then Inl ShortResponse
     else bind_result (dns_read_u16 response 0) (\<lambda>rid. if rid \<noteq> query_id then Inl ForeignId
     else bind_result (dns_read_u16 response 2) (\<lambda>flags.
       if flags AND 0x8000 = 0 then Inl NoResponseFlag else if flags AND 0x0200 \<noteq> 0 then Inl Truncated
       else if flags AND 0x000f \<noteq> 0 then Inl (StatusCode (flags AND 0x000f))
       else bind_result (dns_read_u16 response 4) (\<lambda>questions. bind_result (dns_read_u16 response 6) (\<lambda>answers.
         bind_result (skip_questions response (unat questions) 12) (\<lambda>offset.
           read_answers response (unat answers) offset []))))))"

section \<open>The cache\<close>

definition DNS_CACHE_FRESH :: nat where "DNS_CACHE_FRESH = 60 * 1000000000"
definition DNS_CACHE_STALE_MAX :: nat where "DNS_CACHE_STALE_MAX = 6 * 60 * 60 * 1000000000"
definition DNS_CACHE_MAX :: nat where "DNS_CACHE_MAX = 64"

record cache_entry =
  ce_addresses :: "ip_addr list"
  ce_resolved :: nat

type_synonym dns_cache = "(bytes, cache_entry) hmap"

definition cached :: "nat \<Rightarrow> bytes \<Rightarrow> nat \<Rightarrow> dns_cache \<Rightarrow> ip_addr list option" where
  "cached now host max_age c = (case hm_get c host of None \<Rightarrow> None
     | Some entry \<Rightarrow> if now - ce_resolved entry \<le> max_age then Some (ce_addresses entry) else None)"

definition remember :: "nat \<Rightarrow> bytes \<Rightarrow> ip_addr list \<Rightarrow> dns_cache \<Rightarrow> dns_cache" where
  "remember now host addresses c =
    (let c1 = (if DNS_CACHE_MAX \<le> length c \<and> \<not> hm_has c host
        then (case min_by_key (\<lambda>(key, entry). ce_resolved entry) c of None \<Rightarrow> c | Some (key, _) \<Rightarrow> hm_del key c) else c)
     in hm_put host \<lparr>ce_addresses = addresses, ce_resolved = now\<rparr> c1)"

section \<open>The resolvers\<close>

text \<open>Datagrams from other sources are passed over; the first of the server decides. \<open>None\<close> when it never comes.\<close>

fun query_dns_server :: "'s \<Rightarrow> u16 \<Rightarrow> ('s \<times> bytes) list \<Rightarrow> (dns_error + ip_addr list) option" where
  "query_dns_server server query_id [] = None"
| "query_dns_server server query_id ((source, datagram) # rest) =
    (if source \<noteq> server then query_dns_server server query_id rest else Some (parse_response datagram query_id))"

datatype yandex_error = TimedOut | Failed dns_error

text \<open>The race of the two servers: the outcome of the one that finishes first and that of the other, each missing when the timeout comes before it.\<close>

definition query_yandex :: "(dns_error + ip_addr list) option \<Rightarrow> (dns_error + ip_addr list) option \<Rightarrow> yandex_error + ip_addr list" where
  "query_yandex first second = (case first of None \<Rightarrow> Inl TimedOut
     | Some (Inr addresses) \<Rightarrow> Inr addresses
     | Some (Inl e1) \<Rightarrow> (case second of None \<Rightarrow> Inl TimedOut
         | Some (Inr addresses) \<Rightarrow> Inr addresses
         | Some (Inl e2) \<Rightarrow> Inl (Failed (BothRejected e1 e2))))"

text \<open>The network: what the two servers deliver, in the order they finish, for a query.\<close>

type_synonym dns_network = "bytes \<Rightarrow> u16 \<Rightarrow> (dns_error + ip_addr list) option \<times> (dns_error + ip_addr list) option"

definition ask_yandex :: "dns_network \<Rightarrow> bytes \<Rightarrow> u16 \<Rightarrow> u16 \<Rightarrow> yandex_error + ip_addr list" where
  "ask_yandex net host query_id record_type = (case build_query host query_id record_type of
     Inl e \<Rightarrow> Inl (Failed e)
   | Inr query \<Rightarrow> (case net query query_id of (first, second) \<Rightarrow> query_yandex first second))"

definition yandex_lookup :: "dns_network \<Rightarrow> bytes \<Rightarrow> u16 \<Rightarrow> yandex_error + ip_addr list" where
  "yandex_lookup net host query_id = bind_result (ask_yandex net host query_id DNS_A_RECORD) (\<lambda>a_answers.
     if a_answers \<noteq> [] then Inr a_answers else ask_yandex net host (query_id + 1) DNS_AAAA_RECORD)"

fun unique_addresses :: "ip_addr list \<Rightarrow> ip_addr list \<Rightarrow> ip_addr list" where
  "unique_addresses [] as = as"
| "unique_addresses (x # xs) as = unique_addresses xs (add_address x as)"

definition system_lookup :: "ip_addr list option \<Rightarrow> dns_error + ip_addr list" where
  "system_lookup answer = (case answer of None \<Rightarrow> Inl SystemLookupFailed
     | Some xs \<Rightarrow> (let addresses = unique_addresses xs [] in if addresses = [] then Inl EmptySystemAnswer else Inr addresses))"

text \<open>What a lookup depends on: the parser of literals, the network, the random query identifier, the tunnel's state, the
  system's answer, and the times at which the cache is read, written, and read again.\<close>

record lookup_env =
  le_literal :: "bytes \<Rightarrow> ip_addr option"
  le_network :: dns_network
  le_query_id :: u16
  le_tunnel :: bool
  le_system :: "ip_addr list option"
  le_asked :: nat
  le_answered :: nat

definition lookup_uncached :: "lookup_env \<Rightarrow> bytes \<Rightarrow> dns_error + ip_addr list" where
  "lookup_uncached env host = (case yandex_lookup (le_network env) host (le_query_id env) of
     Inr addresses \<Rightarrow> if addresses \<noteq> [] then Inr addresses else Inl EmptyYandexAnswer
   | Inl TimedOut \<Rightarrow> if \<not> le_tunnel env then system_lookup (le_system env) else Inl YandexTimedOut
   | Inl (Failed e) \<Rightarrow> Inl e)"

definition dns_lookup :: "lookup_env \<Rightarrow> bytes \<Rightarrow> dns_cache \<Rightarrow> (dns_error + ip_addr list) \<times> dns_cache" where
  "dns_lookup env host c = (case le_literal env host of Some address \<Rightarrow> (Inr [address], c)
   | None \<Rightarrow> (case cached (le_asked env) host DNS_CACHE_FRESH c of Some addresses \<Rightarrow> (Inr addresses, c)
   | None \<Rightarrow> (case lookup_uncached env host of
       Inr addresses \<Rightarrow> (Inr addresses, remember (le_answered env) host addresses c)
     | Inl e \<Rightarrow> (case cached (le_answered env) host DNS_CACHE_STALE_MAX c of
         Some addresses \<Rightarrow> (Inr addresses, c) | None \<Rightarrow> (Inl e, c)))))"

section \<open>Answers come from the message\<close>

lemma skip_name_bound: "skip_name m off = Inr off' \<Longrightarrow> off < off' \<and> off' \<le> length m"
proof (induction m off rule: skip_name.induct)
  case (1 m off)
  have s: "skip_name m off = (if length m \<le> off then Inl BrokenName
     else if m ! off AND 0xc0 = 0xc0 then (if off + 2 \<le> length m then Inr (off + 2) else Inl BrokenPointer)
     else if m ! off AND 0xc0 \<noteq> 0 then Inl InvalidName
     else if m ! off = 0 then Inr (off + 1)
     else if off + 1 + unat (m ! off) \<le> length m then skip_name m (off + 1 + unat (m ! off)) else Inl CutName)"
    by (subst skip_name.simps) (simp add: Let_def)
  show ?case using 1 by (fastforce simp: s split: if_splits)
qed

lemma read_u16_Inr [simp]: "dns_read_u16 m off = Inr v \<longleftrightarrow> off + 2 \<le> length m \<and> v = u16_of_be (subslice m off (off + 2))"
  by (auto simp: dns_read_u16_def get_range_def)

lemma field_ends: "off + 2 + 2 = off + (4 :: nat)" "off + 8 + 2 = off + (10 :: nat)" "0 + 2 = (2 :: nat)"
  by simp_all

text \<open>A resource record of the message: type, class, length and data.\<close>

definition record_at :: "bytes \<Rightarrow> nat \<Rightarrow> u16 \<Rightarrow> bytes \<Rightarrow> bool" where
  "record_at m off ty data \<longleftrightarrow> off + 10 + length data \<le> length m \<and> subslice m off (off + 2) = u16_to_be ty
     \<and> subslice m (off + 2) (off + 4) = u16_to_be 1 \<and> subslice m (off + 8) (off + 10) = u16_to_be (word_of_nat (length data))
     \<and> subslice m (off + 10) (off + 10 + length data) = data"

definition address_in :: "bytes \<Rightarrow> ip_addr \<Rightarrow> bool" where
  "address_in m a \<longleftrightarrow> (\<exists>off. case a of IpV4 b \<Rightarrow> length b = 4 \<and> record_at m off DNS_A_RECORD b
     | IpV6 b \<Rightarrow> length b = 16 \<and> record_at m off DNS_AAAA_RECORD b)"

lemma read_answer_spec:
  assumes "read_answer m off as = Inr (off', as')" "\<forall>a\<in>set as. address_in m a" "distinct as"
  shows "off < off' \<and> off' \<le> length m \<and> (\<forall>a\<in>set as'. address_in m a) \<and> distinct as'"
proof -
  obtain o1 ty cl dl where n: "skip_name m off = Inr o1"
    and ty: "ty = u16_of_be (subslice m o1 (o1 + 2))" and cl: "cl = u16_of_be (subslice m (o1 + 2) (o1 + 2 + 2))"
    and dl: "dl = u16_of_be (subslice m (o1 + 8) (o1 + 8 + 2))"
    and b: "o1 + 8 + 2 \<le> length m" "o1 + 10 + unat dl \<le> length m"
    and r: "off' = o1 + 10 + unat dl" "as' = record_addresses ty cl (subslice m (o1 + 10) (o1 + 10 + unat dl)) as"
    using assms(1) unfolding read_answer_def Let_def by (auto split: if_splits)
  let ?d = "subslice m (o1 + 10) (o1 + 10 + unat dl)"
  have len: "length ?d = unat dl" using b(2) by (simp add: byte_simps)
  have rec: "record_at m o1 ty ?d" if "cl = 1"
  proof -
    have "subslice m o1 (o1 + 2) = u16_to_be ty" "subslice m (o1 + 2) (o1 + 4) = u16_to_be cl" "subslice m (o1 + 8) (o1 + 10) = u16_to_be dl"
      using b(1) unfolding ty cl dl field_ends by (simp_all add: byte_simps)
    thus ?thesis using that b(2) len by (simp add: record_at_def)
  qed
  have 4: "address_in m (IpV4 ?d)" if "cl = 1" "ty = DNS_A_RECORD" "length ?d = 4"
    using rec [OF that(1)] that(2,3) unfolding address_in_def by auto
  have 6: "address_in m (IpV6 ?d)" if "cl = 1" "ty = DNS_AAAA_RECORD" "length ?d = 16"
    using rec [OF that(1)] that(2,3) unfolding address_in_def by auto
  have "(\<forall>a\<in>set as'. address_in m a) \<and> distinct as'"
    using 4 6 assms(2,3) unfolding r(2) record_addresses_def Let_def by (auto simp: add_address_def)
  thus ?thesis using skip_name_bound [OF n] r(1) b(2) by simp
qed

lemma read_answers_spec:
  "read_answers m n off as = Inr as' \<Longrightarrow> \<forall>a\<in>set as. address_in m a \<Longrightarrow> distinct as \<Longrightarrow> (\<forall>a\<in>set as'. address_in m a) \<and> distinct as'"
proof (induction n arbitrary: off as)
  case (Suc n)
  then obtain o1 a1 where "read_answer m off as = Inr (o1, a1)" "read_answers m n o1 a1 = Inr as'" by auto
  thus ?case using Suc.IH read_answer_spec Suc.prems(2,3) by blast
qed auto

text \<open>C36: no address is made up. Every address that a response is read to hold is the data, of 4 or 16 bytes, of an address record of
  class Internet that lies wholly inside the datagram, the datagram carries the query's identifier and the response flag, no
  error and no truncation, and no address is listed twice. The parser is total: compressed names cannot make it loop.\<close>

theorem answers_in_message:
  assumes "parse_response m query_id = Inr as"
  shows "(\<forall>a\<in>set as. address_in m a) \<and> distinct as \<and> 12 \<le> length m \<and> take 2 m = u16_to_be query_id
    \<and> u16_of_be (subslice m 2 4) AND 0x8000 \<noteq> 0 \<and> u16_of_be (subslice m 2 4) AND 0x020f = 0"
proof -
  let ?f = "u16_of_be (subslice m 2 4)"
  obtain n off where r: "12 \<le> length m" "query_id = u16_of_be (subslice m 0 2)" "?f AND 0x8000 \<noteq> 0" "?f AND 0x0200 = 0" "?f AND 0x000f = 0"
      "read_answers m n off [] = Inr as"
    using assms unfolding parse_response_def bind_result_Inr read_u16_Inr field_ends
    by (auto split: if_splits simp: numeral_2_eq_2 [symmetric])
  have "u16_to_be query_id = take 2 m" using r(1) unfolding r(2) by (simp add: byte_simps subslice_0)
  moreover have "?f AND 0x020f = 0"
  proof -
    have "(0x020f :: u16) = 0x0200 OR 0x000f" by simp
    thus ?thesis using r(4,5) by (metis bit.conj_disj_distrib or.left_neutral)
  qed
  ultimately show ?thesis using r read_answers_spec [OF r(6)] by simp
qed

definition sample_response :: bytes where
  "sample_response = [0x12, 0x34, 0x81, 0x80, 0, 1, 0, 1, 0, 0, 0, 0, 2, 118, 107, 2, 114, 117, 0, 0, 1, 0, 1,
     0xc0, 0x0c, 0, 1, 0, 1, 0, 0, 0, 0x3c, 0, 4, 77, 88, 8, 8]"

lemma answers_in_message_witness: "address_in sample_response (IpV4 [77, 88, 8, 8])"
proof -
  have "parse_response sample_response 0x1234 = Inr [IpV4 [77, 88, 8, 8]]" by code_simp
  from answers_in_message [OF this] show ?thesis by simp
qed

section \<open>Queries and their replies\<close>

definition wire_name :: "bytes list \<Rightarrow> bytes" where
  "wire_name ls = concat (map (\<lambda>l. word_of_nat (length l) # l) ls) @ [0]"

lemma encode_labels_spec:
  "encode_labels ls = Inr name \<Longrightarrow> name @ [0] = wire_name ls \<and> (\<forall>l\<in>set ls. l \<noteq> [] \<and> length l \<le> 63)"
  by (induction ls arbitrary: name) (auto simp: wire_name_def split: if_splits)

lemma label_length: "n \<le> 63 \<Longrightarrow> unat (word_of_nat n :: byte) = n \<and> (word_of_nat n :: byte) AND 0xc0 = 0"
proof -
  assume n: "n \<le> 63"
  hence u: "unat (word_of_nat n :: byte) = n" by (intro unat_byte_of_nat) simp
  have "(word_of_nat n :: byte) AND 0xc0 = 0"
  proof (rule bit_word_eqI)
    fix i assume "i < LENGTH(8)"
    have nb: "\<not> bit n 6 \<and> \<not> bit n 7" using n by (simp add: bit_iff_odd)
    have "i = 6 \<or> i = 7 \<or> \<not> bit (0xc0 :: byte) i"
      using \<open>i < LENGTH(8)\<close> by (simp add: less_Suc_eq numeral_eq_Suc) (elim disjE; simp)
    thus "bit ((word_of_nat n :: byte) AND 0xc0) i = bit (0 :: byte) i"
      using nb by (auto simp: bit_simps)
  qed
  with u show ?thesis by simp
qed

lemma skip_wire_name:
  assumes "\<forall>l\<in>set ls. l \<noteq> [] \<and> length l \<le> 63" "drop off m = wire_name ls @ rest" "off < length m"
  shows "skip_name m off = Inr (off + length (wire_name ls))"
  using assms
proof (induction ls arbitrary: off)
  case Nil
  hence "m ! off = 0" by (simp add: wire_name_def nth_via_drop)
  thus ?case using Nil.prems(3) by (subst skip_name.simps) (simp add: wire_name_def)
next
  case (Cons l ls)
  let ?o = "off + 1 + length l"
  have d: "drop off m = word_of_nat (length l) # l @ wire_name ls @ rest" using Cons.prems(2) by (simp add: wire_name_def)
  hence b: "m ! off = word_of_nat (length l)" by (rule nth_via_drop)
  have l: "length l \<le> 63" "l \<noteq> []" using Cons.prems(1) by auto
  have d1: "drop ?o m = wire_name ls @ rest"
  proof -
    have "drop ?o m = drop (1 + length l) (drop off m)" by (simp add: add.commute add.left_commute)
    thus ?thesis by (simp add: d)
  qed
  have lt: "?o < length m"
  proof (rule ccontr)
    assume "\<not> ?o < length m"
    hence "drop ?o m = []" by simp
    thus False using d1 by (simp add: wire_name_def)
  qed
  have nz: "(word_of_nat (length l) :: byte) \<noteq> 0" using label_length [OF l(1)] l(2) by auto
  have "skip_name m off = skip_name m ?o"
    using label_length [OF l(1)] nz lt Cons.prems(3) by (subst skip_name.simps) (simp add: b Let_def)
  thus ?case using Cons.IH [OF _ d1 lt] Cons.prems(1) by (simp add: wire_name_def)
qed

definition query_header :: "u16 \<Rightarrow> bytes" where
  "query_header query_id = u16_to_be query_id @ u16_to_be 0x0100 @ u16_to_be 1 @ u16_to_be 0 @ u16_to_be 0 @ u16_to_be 0"

lemma length_query_header [simp]: "length (query_header query_id) = 12"
  by (simp add: query_header_def)

lemma build_query_spec:
  assumes "build_query host query_id ty = Inr q"
  shows "q = query_header query_id @ wire_name (split_dots (trim_end_dots host)) @ u16_to_be ty @ u16_to_be 1"
    "\<forall>l\<in>set (split_dots (trim_end_dots host)). l \<noteq> [] \<and> length l \<le> 63"
proof -
  obtain name where e: "encode_labels (split_dots (trim_end_dots host)) = Inr name"
    and q: "q = query_header query_id @ (name @ [0]) @ u16_to_be ty @ u16_to_be 1"
    using assms unfolding build_query_def Let_def by (auto split: if_splits simp: query_header_def)
  show "q = query_header query_id @ wire_name (split_dots (trim_end_dots host)) @ u16_to_be ty @ u16_to_be 1"
    "\<forall>l\<in>set (split_dots (trim_end_dots host)). l \<noteq> [] \<and> length l \<le> 63"
    using encode_labels_spec [OF e] q by simp_all
qed

text \<open>A server's reply to a query: the flags of a successful answer, the question, and a record per address whose name points back to
  the question.\<close>

definition reply_record :: "ip_addr \<Rightarrow> bytes" where
  "reply_record a = [0xc0, 12] @ (case a of
     IpV4 b \<Rightarrow> u16_to_be DNS_A_RECORD @ u16_to_be 1 @ u32_to_be 60 @ u16_to_be 4 @ b
   | IpV6 b \<Rightarrow> u16_to_be DNS_AAAA_RECORD @ u16_to_be 1 @ u32_to_be 60 @ u16_to_be 16 @ b)"

definition reply :: "bytes \<Rightarrow> ip_addr list \<Rightarrow> bytes" where
  "reply q as = take 2 q @ u16_to_be 0x8180 @ u16_to_be 1 @ u16_to_be (word_of_nat (length as)) @ u16_to_be 0 @ u16_to_be 0
     @ drop 12 q @ concat (map reply_record as)"

definition well_formed_address :: "ip_addr \<Rightarrow> bool" where
  "well_formed_address a \<longleftrightarrow> (case a of IpV4 b \<Rightarrow> length b = 4 | IpV6 b \<Rightarrow> length b = 16)"

lemma read_reply_record:
  assumes "drop off m = reply_record a @ rest" "well_formed_address a"
  shows "read_answer m off as = Inr (off + length (reply_record a), add_address a as)"
proof -
  define b where "b = (case a of IpV4 b \<Rightarrow> b | IpV6 b \<Rightarrow> b)"
  define ty where "ty = (case a of IpV4 b \<Rightarrow> DNS_A_RECORD | IpV6 b \<Rightarrow> DNS_AAAA_RECORD)"
  have rr: "reply_record a = [0xc0, 12] @ u16_to_be ty @ u16_to_be 1 @ u32_to_be 60 @ u16_to_be (word_of_nat (length b)) @ b"
    using assms(2) by (cases a) (simp_all add: reply_record_def b_def ty_def well_formed_address_def)
  have lb: "length b = 4 \<or> length b = 16" using assms(2) by (cases a) (simp_all add: b_def well_formed_address_def)
  have d: "drop off m = [0xc0, 12] @ u16_to_be ty @ u16_to_be 1 @ u32_to_be 60 @ u16_to_be (word_of_nat (length b)) @ b @ rest"
    using assms(1) rr by simp
  have m: "m = take off m @ drop off m" by simp
  have len: "length m = off + 12 + length b + length rest" "off \<le> length m"
  proof -
    have "length (drop off m) = 12 + length b + length rest" by (simp add: d)
    thus "length m = off + 12 + length b + length rest" "off \<le> length m" by auto
  qed
  obtain p where p: "p = take off m" "length p = off" using len by simp
  have mm: "m = p @ [0xc0, 12] @ u16_to_be ty @ u16_to_be 1 @ u32_to_be 60 @ u16_to_be (word_of_nat (length b)) @ b @ rest"
    using m d p(1) by metis
  have n: "skip_name m off = Inr (off + 2)"
    using len lb by (subst skip_name.simps) (auto simp: mm p(2) nth_append)
  have f: "subslice m (off + 2 + i) (off + 2 + j) = subslice (u16_to_be ty @ u16_to_be 1 @ u32_to_be 60 @ u16_to_be (word_of_nat (length b)) @ b @ rest) i j" for i j
    by (simp add: mm p(2) subslice_def)
  have u: "unat (word_of_nat (length b) :: u16) = length b" using lb by auto
  have r1: "u16_of_be (subslice m (off + 2) (off + 2 + 2)) = ty" using f [of 0 2] by (simp add: subslice_def)
  have r2: "u16_of_be (subslice m (off + 2 + 2) (off + 2 + 2 + 2)) = 1" using f [of 2 4] by (simp add: subslice_def)
  have r3: "u16_of_be (subslice m (off + 2 + 8) (off + 2 + 8 + 2)) = word_of_nat (length b)" using f [of 8 10] by (simp add: subslice_def)
  have r4: "subslice m (off + 2 + 10) (off + 2 + 10 + length b) = b" using f [of 10 "10 + length b"] by (simp add: subslice_def)
  have "record_addresses ty 1 b as = add_address a as"
    using assms(2) by (cases a) (auto simp: record_addresses_def ty_def b_def well_formed_address_def DNS_A_RECORD_def DNS_AAAA_RECORD_def Let_def)
  note add = this
  have R: "dns_read_u16 m (off + 2) = Inr ty" "dns_read_u16 m (off + 2 + 2) = Inr 1" "dns_read_u16 m (off + 2 + 8) = Inr (word_of_nat (length b))"
    unfolding read_u16_Inr r1 r2 r3 using len(1) by simp_all
  have "read_answer m off as = Inr (off + 2 + 10 + length b, record_addresses ty 1 b as)"
    unfolding read_answer_def n bind_result_simps R Let_def u r4 using len(1) by simp
  thus ?thesis unfolding add rr by simp
qed

lemma read_u16_append: "i + 2 \<le> length h \<Longrightarrow> dns_read_u16 (h @ x) i = dns_read_u16 h i"
  unfolding dns_read_u16_def get_range_def by (simp add: subslice_append_left)

lemma read_reply_records:
  "drop off m = concat (map reply_record as) \<Longrightarrow> off \<le> length m \<Longrightarrow> list_all well_formed_address as \<Longrightarrow>
   read_answers m (length as) off bs = Inr (fold add_address as bs)"
proof (induction as arbitrary: off bs)
  case (Cons a as)
  have d: "drop off m = reply_record a @ concat (map reply_record as)" using Cons.prems(1) by simp
  have r: "read_answer m off bs = Inr (off + length (reply_record a), add_address a bs)"
    using read_reply_record [OF d, of bs] Cons.prems(3) by simp
  have d1: "drop (off + length (reply_record a)) m = concat (map reply_record as)"
  proof -
    have "drop (off + length (reply_record a)) m = drop (length (reply_record a)) (drop off m)" by (simp add: add.commute)
    thus ?thesis by (simp add: d)
  qed
  have "length (reply_record a) \<le> length (drop off m)" unfolding d by simp
  hence "off + length (reply_record a) \<le> length m" using Cons.prems(2) by simp
  thus ?case using Cons.IH [OF d1, of "add_address a bs"] Cons.prems(3) r by simp
qed simp

text \<open>Adding addresses keeps the first occurrence of each.\<close>

lemma fold_add_address: "fold add_address as [] = rev (remdups (rev as))"
  by (induction as rule: rev_induct) (simp_all add: add_address_def)

text \<open>C37: a query can be answered. For every host that a query is built for, the reply that a server makes of the query, with any addresses in
  records whose names point back to the question, is read back to exactly these addresses, each once, in the order of their first occurrences.\<close>

theorem reply_read_back:
  assumes q: "build_query host query_id ty = Inr q" and as: "list_all well_formed_address as" "length as < 65536"
  shows "parse_response (reply q as) query_id = Inr (rev (remdups (rev as)))"
proof -
  let ?n = "wire_name (split_dots (trim_end_dots host))" and ?r = "concat (map reply_record as)"
  let ?h = "u16_to_be query_id @ u16_to_be 0x8180 @ u16_to_be 1 @ u16_to_be (word_of_nat (length as)) @ u16_to_be 0 @ u16_to_be 0"
  let ?t = "u16_to_be ty @ u16_to_be 1 @ ?r"
  note Q = build_query_spec [OF q]
  have m: "reply q as = ?h @ ?n @ ?t" unfolding Q(1) by (simp add: reply_def query_header_def)
  have h: "length ?h = 12" by simp
  have f: "dns_read_u16 (reply q as) i = dns_read_u16 ?h i" if "i + 2 \<le> 12" for i
    unfolding m by (rule read_u16_append) (use that h in linarith)
  have F: "dns_read_u16 ?h 0 = Inr query_id" "dns_read_u16 ?h 2 = Inr 0x8180" "dns_read_u16 ?h 4 = Inr 1"
    "dns_read_u16 ?h 6 = Inr (word_of_nat (length as))"
    by (simp_all add: dns_read_u16_def get_range_def subslice_def numeral_eq_Suc)
  have d: "drop 12 (reply q as) = ?n @ ?t" unfolding m by simp
  have s: "skip_name (reply q as) 12 = Inr (12 + length ?n)"
    using skip_wire_name [OF Q(2) d] by (simp add: m wire_name_def)
  have len: "12 + length ?n + 4 \<le> length (reply q as)" by (simp add: m)
  have d2: "drop (12 + length ?n + 4) (reply q as) = ?r" by (simp add: m)
  have "read_answers (reply q as) (length as) (12 + length ?n + 4) [] = Inr (rev (remdups (rev as)))"
    using read_reply_records [OF d2 len as(1), of "[]"] by (simp only: fold_add_address)
  moreover have "unat (word_of_nat (length as) :: u16) = length as" using as(2) by (simp add: unsigned_of_nat take_bit_nat_eq_self)
  moreover have "skip_questions (reply q as) (unat (1 :: u16)) 12 = Inr (12 + length ?n + 4)"
    using s len by (simp add: numeral_eq_Suc)
  moreover have R: "dns_read_u16 (reply q as) 0 = Inr query_id" "dns_read_u16 (reply q as) 2 = Inr 0x8180"
    "dns_read_u16 (reply q as) 4 = Inr 1" "dns_read_u16 (reply q as) 6 = Inr (word_of_nat (length as))"
    using f [of 0] f [of 2] f [of 4] f [of 6] unfolding F by simp_all
  moreover have "\<not> length (reply q as) < 12" using len by simp
  ultimately show ?thesis unfolding parse_response_def R bind_result_simps
    by (simp del: bind_result_Inr skip_questions.simps read_answers.simps)
qed

lemma reply_read_back_witness:
  "\<exists>q. build_query [118, 107, 46, 114, 117, 46] 7 1 = Inr q \<and> parse_response (reply q [IpV4 [1, 2, 3, 4], IpV4 [5, 6, 7, 8], IpV4 [1, 2, 3, 4]]) 7
     = Inr [IpV4 [1, 2, 3, 4], IpV4 [5, 6, 7, 8]]"
proof -
  have "is_ok (build_query [118, 107, 46, 114, 117, 46] 7 1)" by code_simp
  then obtain q where q: "build_query [118, 107, 46, 114, 117, 46] 7 1 = Inr q" by (auto simp: is_ok_def split: sum.splits)
  from reply_read_back [OF q, of "[IpV4 [1, 2, 3, 4], IpV4 [5, 6, 7, 8], IpV4 [1, 2, 3, 4]]"] q show ?thesis by (simp add: well_formed_address_def)
qed

section \<open>Lookups\<close>

text \<open>The cache is bounded, and keeps no empty answer.\<close>

definition dns_cache_ok :: "dns_cache \<Rightarrow> bool" where
  "dns_cache_ok c \<longleftrightarrow> hm_ok c \<and> length c \<le> DNS_CACHE_MAX \<and> (\<forall>(host, entry)\<in>set c. ce_addresses entry \<noteq> [])"

lemma hm_del_subset: "set (hm_del k m) \<subseteq> set m"
  by (induction m) (auto simp: hm_del_def)

lemma length_hm_del: "hm_has m k \<Longrightarrow> length (hm_del k m) < length m"
proof (induction m)
  case (Cons a m)
  thus ?case using length_delete_le [of k m] by (auto simp: hm_del_def hm_has_def split: if_splits)
qed (simp add: hm_has_def)

lemma remember_ok:
  assumes "dns_cache_ok c" "addresses \<noteq> []"
  shows "dns_cache_ok (remember now host addresses c)"
proof -
  have c: "hm_ok c" "length c \<le> DNS_CACHE_MAX" "\<forall>(host, entry)\<in>set c. ce_addresses entry \<noteq> []"
    using assms(1) by (simp_all add: dns_cache_ok_def)
  obtain c1 where c1: "remember now host addresses c = hm_put host \<lparr>ce_addresses = addresses, ce_resolved = now\<rparr> c1"
    "hm_ok c1" "set c1 \<subseteq> set c" "hm_has c1 host \<and> length c1 \<le> DNS_CACHE_MAX \<or> length c1 < DNS_CACHE_MAX"
  proof (cases "DNS_CACHE_MAX \<le> length c \<and> \<not> hm_has c host")
    case False
    thus ?thesis using that [of c] c by (auto simp: remember_def)
  next
    case True
    hence "c \<noteq> []" by (auto simp: DNS_CACHE_MAX_def)
    then obtain key entry where m: "min_by_key (\<lambda>(key, entry). ce_resolved entry) c = Some (key, entry)"
      by (metis min_by_key_None not_None_eq surj_pair)
    hence "(key, entry) \<in> set c" by (blast dest: min_by_key_SomeD)
    hence "hm_has c key" using hm_in_get [OF c(1)] by (simp add: hm_has_get)
    thus ?thesis using that [of "hm_del key c"] True m c(1,2) length_hm_del [of c key] hm_del_subset [of key c]
      by (simp add: remember_def)
  qed
  have "\<forall>(h, e)\<in>set (remember now host addresses c). ce_addresses e \<noteq> []"
    using set_hm_put_subset [of host "\<lparr>ce_addresses = addresses, ce_resolved = now\<rparr>" c1] c1(3) c(3) assms(2) unfolding c1(1) by fastforce
  thus ?thesis using c1 by (auto simp: dns_cache_ok_def length_hm_put)
qed

lemma remember_get:
  "hm_get (remember now host addresses c) host = Some \<lparr>ce_addresses = addresses, ce_resolved = now\<rparr>"
  by (simp add: remember_def Let_def)

lemma unique_addresses_nonempty: "xs \<noteq> [] \<Longrightarrow> unique_addresses xs as \<noteq> []"
proof (induction xs arbitrary: as)
  case (Cons x xs)
  have "unique_addresses xs bs \<noteq> []" if "bs \<noteq> []" for bs using that by (induction xs arbitrary: bs) (auto simp: add_address_def)
  moreover have "add_address x as \<noteq> []" by (auto simp: add_address_def)
  ultimately show ?case by simp
qed simp

lemma lookup_uncached_nonempty: "lookup_uncached env host = Inr as \<Longrightarrow> as \<noteq> []"
  by (auto simp: lookup_uncached_def system_lookup_def Let_def split: if_splits sum.splits yandex_error.splits option.splits)

text \<open>A host's answers over time: every lookup with its environment.\<close>

fun dns_run :: "(lookup_env \<times> bytes) list \<Rightarrow> dns_cache \<Rightarrow> (dns_error + ip_addr list) list \<times> dns_cache" where
  "dns_run [] c = ([], c)"
| "dns_run ((env, host) # xs) c = (case dns_lookup env host c of (r, c1) \<Rightarrow> (case dns_run xs c1 of (rs, c2) \<Rightarrow> (r # rs, c2)))"

lemma dns_lookup_ok:
  "dns_cache_ok c \<Longrightarrow> dns_lookup env host c = (r, c') \<Longrightarrow> dns_cache_ok c' \<and> (\<forall>as. r = Inr as \<longrightarrow> as \<noteq> [])"
proof -
  assume ok: "dns_cache_ok c" and l: "dns_lookup env host c = (r, c')"
  have ne: "as \<noteq> []" if "cached now host age c = Some as" for now age as
    using that ok by (fastforce simp: cached_def dns_cache_ok_def split: option.splits if_splits dest: hm_get_Some_in)
  show ?thesis using l ok ne lookup_uncached_nonempty remember_ok unfolding dns_lookup_def
    by (fastforce split: option.splits sum.splits)
qed

lemma dns_run_ok:
  "dns_cache_ok c \<Longrightarrow> dns_run xs c = (rs, c') \<Longrightarrow> dns_cache_ok c' \<and> (\<forall>as. Inr as \<in> set rs \<longrightarrow> as \<noteq> [])"
proof (induction xs arbitrary: c rs)
  case (Cons x xs)
  obtain env host r c1 rs1 c2 where x: "x = (env, host)" "dns_lookup env host c = (r, c1)" "dns_run xs c1 = (rs1, c2)" by (metis surj_pair)
  thus ?case using Cons.IH [of c1 rs1] dns_lookup_ok [OF Cons.prems(1) x(2)] Cons.prems(2) by auto
qed simp

text \<open>C38: a name that was resolved stays resolved. Over any sequence of lookups the cache holds at most 64 hosts and no empty answer, and no lookup succeeds without an address;
  and while a host is in the cache its lookup cannot fail for six hours, whatever happens to the resolvers: it is the cached
  answer for a minute, and later a newer one or, when there is none, the cached one.\<close>

theorem cached_names_resolve:
  assumes "dns_run xs [] = (rs, c)" "hm_get c host = Some entry" "le_literal env host = None"
    "le_asked env \<le> le_answered env" "le_answered env - ce_resolved entry \<le> DNS_CACHE_STALE_MAX" "dns_lookup env host c = (r, c')"
  shows "dns_cache_ok c' \<and> (\<forall>as. Inr as \<in> set rs \<longrightarrow> as \<noteq> [])
    \<and> r = (if le_asked env - ce_resolved entry \<le> DNS_CACHE_FRESH then Inr (ce_addresses entry)
           else case lookup_uncached env host of Inr as \<Rightarrow> Inr as | Inl e \<Rightarrow> Inr (ce_addresses entry))"
proof -
  have ok: "dns_cache_ok c" "\<forall>as. Inr as \<in> set rs \<longrightarrow> as \<noteq> []"
    using dns_run_ok [OF _ assms(1)] by (auto simp: dns_cache_ok_def)
  have C: "cached (le_asked env) host DNS_CACHE_FRESH c
      = (if le_asked env - ce_resolved entry \<le> DNS_CACHE_FRESH then Some (ce_addresses entry) else None)"
    "cached (le_answered env) host DNS_CACHE_STALE_MAX c = Some (ce_addresses entry)"
    using assms(2,5) by (simp_all add: cached_def)
  have "r = fst (dns_lookup env host c)" using assms(6) by simp
  also have "\<dots> = (if le_asked env - ce_resolved entry \<le> DNS_CACHE_FRESH then Inr (ce_addresses entry)
           else case lookup_uncached env host of Inr as \<Rightarrow> Inr as | Inl e \<Rightarrow> Inr (ce_addresses entry))"
    by (simp add: dns_lookup_def C assms(3) split: sum.splits)
  finally show ?thesis using dns_lookup_ok [OF ok(1) assms(6)] ok(2) by blast
qed

definition sample_env :: "nat \<Rightarrow> (bytes \<Rightarrow> u16 \<Rightarrow> (dns_error + ip_addr list) option \<times> (dns_error + ip_addr list) option) \<Rightarrow> lookup_env" where
  "sample_env now net = \<lparr>le_literal = (\<lambda>_. None), le_network = net, le_query_id = 5, le_tunnel = True, le_system = None,
     le_asked = now, le_answered = now\<rparr>"

lemma cached_names_resolve_witness:
  "fst (dns_lookup (sample_env 90000000000 (\<lambda>_ _. (None, None))) [118, 107]
      (snd (dns_run [(sample_env 7 (\<lambda>_ _. (Some (Inr [IpV4 [1, 2, 3, 4]]), None)), [118, 107])] []))) = Inr [IpV4 [1, 2, 3, 4]]"
proof -
  let ?xs = "[(sample_env 7 (\<lambda>_ _. (Some (Inr [IpV4 [1, 2, 3, 4]]), None)), [118, 107 :: byte])]"
  let ?env = "sample_env 90000000000 (\<lambda>_ _. (None, None))"
  obtain rs c where run: "dns_run ?xs [] = (rs, c)" by force
  have "hm_get (snd (dns_run ?xs [])) [118, 107] = Some \<lparr>ce_addresses = [IpV4 [1, 2, 3, 4]], ce_resolved = 7\<rparr>"
    "lookup_uncached ?env [118, 107] = Inl YandexTimedOut" by code_simp+
  hence e: "hm_get c [118, 107] = Some \<lparr>ce_addresses = [IpV4 [1, 2, 3, 4]], ce_resolved = 7\<rparr>"
    "lookup_uncached ?env [118, 107] = Inl YandexTimedOut" by (simp_all only: run snd_conv)
  obtain r c' where l: "dns_lookup ?env [118, 107] c = (r, c')" by force
  from cached_names_resolve [OF run e(1) _ _ _ l] e(2) show ?thesis
    unfolding run snd_conv l fst_conv by (simp add: sample_env_def DNS_CACHE_STALE_MAX_def DNS_CACHE_FRESH_def)
qed

end
