(* ===== verification/DispatchIo.thy ===== *)
theory DispatchIo
  imports Bridge UdpBatch
begin

text \<open>
  The I/O loops of \<open>dispatcher.rs\<close>: reading packets from the TUN device or from the local UDP socket and dispatching them, writing
  returned packets to either, and what happens when the host replaces the device. The results of the device and of the socket are lists;
  a list that is used up means that nothing more is ready. A round is what a loop does between two waits.
\<close>

section \<open>Errors of the device\<close>

datatype tun_errno = TunInterrupted | TunWouldBlock | TunNoBuffers | TunNoMemory | TunIo | TunBadFile | TunNoDevice | TunOther int

definition is_closed_tun_error :: "tun_errno \<Rightarrow> bool" where
  "is_closed_tun_error e \<longleftrightarrow> e = TunIo \<or> e = TunBadFile \<or> e = TunNoDevice"

definition is_retryable_tun_error :: "tun_errno \<Rightarrow> bool" where
  "is_retryable_tun_error e \<longleftrightarrow> e = TunInterrupted \<or> e = TunWouldBlock \<or> e = TunNoBuffers \<or> e = TunNoMemory"

datatype io_end = IoGoesOn | IoEnds

section \<open>Uplink\<close>

record ('w, 'b) uplink_reader =
  ul_sequences :: flow_sequencer
  ul_scheduler :: scheduler
  ul_dispatcher :: "('w, 'b) dispatcher"
  ul_bytes :: u64

text \<open>What the loops share: the packet is framed, counted and dispatched; one that cannot be framed is dropped. What is counted differs.\<close>

definition uplink_packet :: "(packet_buf, 'w) pq_ops \<Rightarrow> (bytes, 'b) queue_ops \<Rightarrow> bytes \<Rightarrow> worker_channels list \<Rightarrow> (packet_buf \<Rightarrow> nat)
    \<Rightarrow> packet_buf \<Rightarrow> ('w, 'b) uplink_reader \<Rightarrow> ('w, 'b) uplink_reader" where
  "uplink_packet ops bops fresh source counted packet u = (case frame_outbound_packet (ul_sequences u) packet of
     (False, s, p) \<Rightarrow> u\<lparr>ul_sequences := s\<rparr>
   | (True, s, p) \<Rightarrow> (case dispatch_now ops bops fresh source p (ul_scheduler u, ul_dispatcher u) of (sch, d) \<Rightarrow>
       \<lparr>ul_sequences = s, ul_scheduler = sch, ul_dispatcher = d, ul_bytes = ul_bytes u + of_nat (counted p)\<rparr>))"

definition put_pool :: "'b packet_pool \<Rightarrow> ('w, 'b) uplink_reader \<Rightarrow> ('w, 'b) uplink_reader" where
  "put_pool pool u = u\<lparr>ul_dispatcher := (ul_dispatcher u)\<lparr>dp_pool := pool\<rparr>\<rparr>"

definition release_reader :: "(bytes, 'b) queue_ops \<Rightarrow> packet_buf \<Rightarrow> ('w, 'b) uplink_reader \<Rightarrow> ('w, 'b) uplink_reader" where
  "release_reader bops p u = put_pool (release_buf bops p (dp_pool (ul_dispatcher u))) u"

text \<open>A burst of at most 32 reads of the device. A read fills the packet's area behind the headroom.\<close>

datatype tun_read = TunGot bytes | TunReadErr tun_errno

definition TUN_READ_BURST :: nat where "TUN_READ_BURST = 32"

fun read_tun_burst :: "(packet_buf, 'w) pq_ops \<Rightarrow> (bytes, 'b) queue_ops \<Rightarrow> bytes \<Rightarrow> worker_channels list \<Rightarrow> nat \<Rightarrow> tun_read list
    \<Rightarrow> ('w, 'b) uplink_reader \<Rightarrow> io_end \<times> ('w, 'b) uplink_reader" where
  "read_tun_burst ops bops fresh source burst [] u = (IoGoesOn, u)"
| "read_tun_burst ops bops fresh source burst (r # rs) u =
    (if TUN_READ_BURST \<le> burst then (IoGoesOn, u)
     else case try_acquire bops fresh (dp_pool (ul_dispatcher u)) of
       None \<Rightarrow> (IoGoesOn, u)
     | Some (packet, pool) \<Rightarrow> (let u1 = put_pool pool u in case r of
         TunGot wire \<Rightarrow> (let data = take read_area_len wire in
           if data = [] then (IoEnds, release_reader bops packet u1)
           else case set_read_len (length data) (write_at PACKET_HEADROOM data packet) of
             Inl e \<Rightarrow> (IoEnds, release_reader bops packet u1)
           | Inr p \<Rightarrow> read_tun_burst ops bops fresh source (burst + 1) rs (uplink_packet ops bops fresh source (\<lambda>_. length data) p u1))
       | TunReadErr e \<Rightarrow> (if is_retryable_tun_error e then IoGoesOn else IoEnds, release_reader bops packet u1)))"

text \<open>The buffers of a batch; the loop stops when the pool has no more.\<close>

fun acquire_batch :: "(bytes, 'b) queue_ops \<Rightarrow> bytes \<Rightarrow> nat \<Rightarrow> 'b packet_pool \<Rightarrow> packet_buf list \<times> 'b packet_pool" where
  "acquire_batch bops fresh 0 pool = ([], pool)"
| "acquire_batch bops fresh (Suc n) pool = (case try_acquire bops fresh pool of None \<Rightarrow> ([], pool)
   | Some (p, pool1) \<Rightarrow> (let (ps, pool2) = acquire_batch bops fresh n pool1 in (p # ps, pool2)))"

record ('w, 'b, 'a) udp_reader =
  ud_uplink :: "('w, 'b) uplink_reader"
  ud_client :: "'a option"
  ud_receiver :: "'a udp_receiver"
  ud_sources :: "'a list"

definition udp_packet :: "(packet_buf, 'w) pq_ops \<Rightarrow> (bytes, 'b) queue_ops \<Rightarrow> bytes \<Rightarrow> worker_channels list \<Rightarrow> 'a \<times> packet_buf
    \<Rightarrow> ('w, 'b, 'a) udp_reader \<Rightarrow> ('w, 'b, 'a) udp_reader" where
  "udp_packet ops bops fresh source = (\<lambda>(address, p) r.
     r\<lparr>ud_client := Some address, ud_uplink := uplink_packet ops bops fresh source buf_len p (ud_uplink r)\<rparr>)"

definition read_udp_round :: "(packet_buf, 'w) pq_ops \<Rightarrow> (bytes, 'b) queue_ops \<Rightarrow> bytes \<Rightarrow> worker_channels list
    \<Rightarrow> ('w, 'b, 'a) udp_reader \<Rightarrow> ('w, 'b, 'a) udp_reader" where
  "read_udp_round ops bops fresh source r =
    (case acquire_batch bops fresh MAX_DATAGRAMS (dp_pool (ul_dispatcher (ud_uplink r))) of
       ([], pool) \<Rightarrow> r\<lparr>ud_uplink := put_pool pool (ud_uplink r)\<rparr>
     | (ps, pool) \<Rightarrow> (case try_recv_from_batch ps (take (length ps) (ud_sources r)) (ud_receiver r) of (res, ps1, srcs, rv) \<Rightarrow>
         let r1 = r\<lparr>ud_uplink := put_pool pool (ud_uplink r), ud_receiver := rv, ud_sources := srcs @ drop (length ps) (ud_sources r)\<rparr>;
             n = (case res of Inl e \<Rightarrow> 0 | Inr n \<Rightarrow> n);
             r2 = fold (udp_packet ops bops fresh source) (take n (zip srcs ps1)) r1
         in r2\<lparr>ud_uplink := fold (release_reader bops) (drop n ps1) (ud_uplink r2)\<rparr>))"

section \<open>Downlink to the device\<close>

datatype tun_write = TunWrote nat | TunWriteErr tun_errno

datatype tun_write_state = TunComplete | TunContinue | TunWait | TunBackoff | TunYield | TunClosed | TunFailed

text \<open>One write of the rest of the packet; the device takes at most what it is offered.\<close>

definition tun_took :: "tun_write \<Rightarrow> packet_buf \<Rightarrow> nat \<Rightarrow> bytes" where
  "tun_took r p written = (case r of TunWrote n \<Rightarrow> take n (drop written (as_slice p)) | TunWriteErr e \<Rightarrow> [])"

definition try_write_tun_packet :: "tun_write \<Rightarrow> packet_buf \<Rightarrow> nat \<Rightarrow> u64 \<Rightarrow> tun_write_state \<times> nat \<times> u64" where
  "try_write_tun_packet r p written down = (case r of
     TunWrote n \<Rightarrow> (let len = length (tun_took r p written) in
       if len = 0 then (TunFailed, written, down)
       else if written + len = length (as_slice p) then (TunComplete, written + len, down + of_nat (length (as_slice p)))
       else (TunContinue, written + len, down))
   | TunWriteErr e \<Rightarrow>
       (if e = TunWouldBlock then (TunWait, written, down)
        else if is_retryable_tun_error e then (if e = TunNoBuffers \<or> e = TunNoMemory then TunBackoff else TunYield, written, down)
        else if is_closed_tun_error e then (TunClosed, written, down) else (TunFailed, written, down)))"

record 'q tun_writer =
  dw_reorder :: return_reorder
  dw_queues :: "'q return_queues"
  dw_pending :: "(packet_buf \<times> nat) option"
  dw_down :: u64
  dw_out :: bytes

definition dw_next :: "(packet_buf, 'q) pq_ops \<Rightarrow> nat \<Rightarrow> 'q tun_writer \<Rightarrow> 'q tun_writer" where
  "dw_next ops now s = (case next_ordered_return_packet ops now (dw_reorder s, dw_queues s) of (r, reorder, rq) \<Rightarrow>
     s\<lparr>dw_pending := map_option (\<lambda>p. (p, 0)) r, dw_reorder := reorder, dw_queues := rq\<rparr>)"

definition TUN_WRITE_BURST :: nat where "TUN_WRITE_BURST = 64"

text \<open>The writes while the device is writable, at most 64 packets.\<close>

fun write_tun_burst :: "(packet_buf, 'q) pq_ops \<Rightarrow> nat \<Rightarrow> nat \<Rightarrow> tun_write list \<Rightarrow> 'q tun_writer \<Rightarrow> tun_write_state \<times> 'q tun_writer" where
  "write_tun_burst ops now burst [] s = (TunWait, s)"
| "write_tun_burst ops now burst (w # ws) s = (case dw_pending s of
     None \<Rightarrow> (TunComplete, s)
   | Some (p, written) \<Rightarrow> (case try_write_tun_packet w p written (dw_down s) of (state, k, down) \<Rightarrow>
       (let s1 = s\<lparr>dw_pending := Some (p, k), dw_down := down, dw_out := dw_out s @ tun_took w p written\<rparr> in
        case state of
          TunComplete \<Rightarrow> if burst + 1 = TUN_WRITE_BURST then (TunComplete, s1\<lparr>dw_pending := None\<rparr>)
            else let s2 = dw_next ops now s1 in
              if dw_pending s2 = None then (TunComplete, s2) else write_tun_burst ops now (burst + 1) ws s2
        | TunContinue \<Rightarrow> write_tun_burst ops now burst ws s1
        | r \<Rightarrow> (r, s1))))"

text \<open>A round of the writer: what the readers of the sessions returned before it, whether the wait for the device is cancelled or fails, and
  the results of the writes.\<close>

datatype device_wait = DeviceReady | DeviceError | DeviceCancelled

record tun_write_input =
  ti_returned :: "packet_buf list"
  ti_now :: nat
  ti_wait :: device_wait
  ti_writes :: "tun_write list"

definition returns_closed :: "('p, 'q) pq_ops \<Rightarrow> 'q return_queues \<Rightarrow> bool" where
  "returns_closed ops rq \<longleftrightarrow> is_closed ops (rq_latency rq) \<and> is_closed ops (rq_priority rq) \<and> is_closed ops (rq_bulk rq)"

text \<open>The end of a wait for a packet (\<open>recv_ordered_return_packet\<close>): a packet, nothing yet, or no more.\<close>

definition dw_receive :: "(packet_buf, 'q) pq_ops \<Rightarrow> tun_write_input \<Rightarrow> 'q tun_writer \<Rightarrow> io_end \<times> 'q tun_writer" where
  "dw_receive ops i s = (let s1 = s\<lparr>dw_queues := fold (return_packet ops) (ti_returned i) (dw_queues s)\<rparr> in
     if dw_pending s1 \<noteq> None then (IoGoesOn, s1)
     else let s2 = dw_next ops (ti_now i) s1 in
       (if dw_pending s2 = None \<and> (returns_closed ops (dw_queues s2) \<or> ti_wait i = DeviceCancelled) then IoEnds else IoGoesOn, s2))"

definition write_tun_round :: "(packet_buf, 'q) pq_ops \<Rightarrow> tun_write_input \<Rightarrow> 'q tun_writer \<Rightarrow> io_end \<times> 'q tun_writer" where
  "write_tun_round ops i s = (case dw_receive ops i s of
     (IoEnds, s1) \<Rightarrow> (IoEnds, s1)
   | (IoGoesOn, s1) \<Rightarrow>
       if dw_pending s1 = None then (IoGoesOn, s1)
       else if ti_wait i \<noteq> DeviceReady then (IoEnds, s1)
       else (case write_tun_burst ops (ti_now i) 0 (ti_writes i) s1 of
           (state, s2) \<Rightarrow> (if state = TunClosed \<or> state = TunFailed then IoEnds else IoGoesOn, s2)))"

section \<open>Downlink to the local client\<close>

datatype socket_wait = SocketWritable | SocketBroken | SocketCancelled

text \<open>The loop over a batch: what is left of it, the sender, the count. The last component tells that an error ended it.\<close>

fun write_udp_rest :: "'a \<Rightarrow> socket_wait list \<Rightarrow> packet_buf list \<Rightarrow> 'a udp_sender \<times> u64 \<Rightarrow> packet_buf list \<times> ('a udp_sender \<times> u64) \<times> bool" where
  "write_udp_rest dest [] ps (s, down) = (ps, (s, down), False)"
| "write_udp_rest dest (w # ws) ps (s, down) = (if ps = [] then ([], (s, down), False)
     else if w \<noteq> SocketWritable then (ps, (s, down), False)
     else case try_send_batch dest (map as_slice ps) s of
       (Inr n, s1) \<Rightarrow> write_udp_rest dest ws (drop n ps) (s1, down + of_nat (sum_list (map buf_len (take n ps))))
     | (Inl e, s1) \<Rightarrow> if e = WouldBlock then write_udp_rest dest ws ps (s1, down) else (ps, (s1, down), True))"

definition write_udp_batch :: "'a option \<Rightarrow> socket_wait list \<Rightarrow> packet_buf list \<Rightarrow> 'a udp_sender \<times> u64 \<Rightarrow> packet_buf list \<times> ('a udp_sender \<times> u64) \<times> bool" where
  "write_udp_batch address ws ps st = (case address of None \<Rightarrow> (ps, st, False) | Some dest \<Rightarrow> write_udp_rest dest ws ps st)"

record ('q, 'a) udp_writer =
  uw_reorder :: return_reorder
  uw_queues :: "'q return_queues"
  uw_sender :: "'a udp_sender"
  uw_down :: u64

text \<open>A round: the packets returned before it, the client known then, and the waits for the socket. Without a packet the loop waits, or ends
  when the queues are closed or it is cancelled.\<close>

definition write_udp_round :: "(packet_buf, 'q) pq_ops \<Rightarrow> packet_buf list \<Rightarrow> nat \<Rightarrow> bool \<Rightarrow> 'a option \<Rightarrow> socket_wait list
    \<Rightarrow> ('q, 'a) udp_writer \<Rightarrow> io_end \<times> ('q, 'a) udp_writer" where
  "write_udp_round ops returned now cancelled client ws s =
    (let rq = fold (return_packet ops) returned (uw_queues s) in
     case next_ordered_return_packet ops now (uw_reorder s, rq) of
       (None, reorder, rq1) \<Rightarrow> (if returns_closed ops rq1 \<or> cancelled then IoEnds else IoGoesOn, s\<lparr>uw_reorder := reorder, uw_queues := rq1\<rparr>)
     | (Some first, st) \<Rightarrow> (case return_batch ops now first st of (batch, reorder, rq1) \<Rightarrow>
         (case write_udp_batch client ws batch (uw_sender s, uw_down s) of (left, (sender, down), failed) \<Rightarrow>
            (IoGoesOn, \<lparr>uw_reorder = reorder, uw_queues = rq1, uw_sender = sender, uw_down = down\<rparr>))))"

section \<open>The device and its replacement\<close>

text \<open>\<open>TunIdle\<close>: \<open>start\<close> waits for a device; \<open>TunRunning\<close>: the two loops run; \<open>TunAwaiting\<close>: one of them has ended and \<open>run_tun\<close> waits
  for a replacement.\<close>

datatype tun_phase = TunIdle | TunRunning | TunAwaiting | TunEnded

text \<open>A device arrives (it can be registered or not, and the new sequencer draws a sender id), the sender of devices is gone, the engine
  stops, or one of the loops makes a round.\<close>

datatype tun_event = TunDevice bool flow_sequencer | TunNoMoreDevices | TunCancel | TunRead "tun_read list" | TunReadBroken | TunWriteRound tun_write_input

record ('w, 'b, 'q) tun_io =
  tn_phase :: tun_phase
  tn_reader :: "('w, 'b) uplink_reader"
  tn_writer :: "'q tun_writer"

definition attach :: "bool \<Rightarrow> flow_sequencer \<Rightarrow> tun_phase \<Rightarrow> ('w, 'b, 'q) tun_io \<Rightarrow> ('w, 'b, 'q) tun_io" where
  "attach registered sequences otherwise t = (if registered
     then t\<lparr>tn_phase := TunRunning, tn_reader := (tn_reader t)\<lparr>ul_sequences := sequences, ul_scheduler := new_scheduler\<rparr>,
       tn_writer := (tn_writer t)\<lparr>dw_reorder := new_return_reorder, dw_pending := None\<rparr>\<rparr>
     else t\<lparr>tn_phase := otherwise\<rparr>)"

definition resume_returns :: "(packet_buf, 'q) pq_ops \<Rightarrow> 'q return_queues \<Rightarrow> 'q return_queues" where
  "resume_returns ops rq = \<lparr>rq_latency = resume ops (rq_latency rq), rq_priority = resume ops (rq_priority rq), rq_bulk = resume ops (rq_bulk rq)\<rparr>"

definition ended_loop :: "io_end \<Rightarrow> ('w, 'b, 'q) tun_io \<Rightarrow> ('w, 'b, 'q) tun_io" where
  "ended_loop r t = (if r = IoEnds then t\<lparr>tn_phase := TunAwaiting\<rparr> else t)"

text \<open>While no loop runs, returned packets still reach the queues.\<close>

definition tun_step :: "(packet_buf, 'w) pq_ops \<Rightarrow> (bytes, 'b) queue_ops \<Rightarrow> (packet_buf, 'q) pq_ops \<Rightarrow> bytes \<Rightarrow> worker_channels list \<Rightarrow> tun_event
    \<Rightarrow> ('w, 'b, 'q) tun_io \<Rightarrow> ('w, 'b, 'q) tun_io" where
  "tun_step ops bops qops fresh source e t = (case tn_phase t of
     TunEnded \<Rightarrow> t
   | TunIdle \<Rightarrow> (case e of
       TunDevice registered sequences \<Rightarrow> attach registered sequences TunIdle
         (t\<lparr>tn_writer := (tn_writer t)\<lparr>dw_queues := resume_returns qops (dw_queues (tn_writer t))\<rparr>\<rparr>)
     | TunNoMoreDevices \<Rightarrow> t\<lparr>tn_phase := TunEnded\<rparr> | TunCancel \<Rightarrow> t\<lparr>tn_phase := TunEnded\<rparr>
     | TunWriteRound i \<Rightarrow> t\<lparr>tn_writer := (tn_writer t)\<lparr>dw_queues := fold (return_packet qops) (ti_returned i) (dw_queues (tn_writer t))\<rparr>\<rparr>
     | _ \<Rightarrow> t)
   | TunAwaiting \<Rightarrow> (case e of
       TunDevice registered sequences \<Rightarrow> attach registered sequences TunIdle t
     | TunNoMoreDevices \<Rightarrow> t\<lparr>tn_phase := TunEnded\<rparr> | TunCancel \<Rightarrow> t\<lparr>tn_phase := TunEnded\<rparr>
     | TunWriteRound i \<Rightarrow> t\<lparr>tn_writer := (tn_writer t)\<lparr>dw_queues := fold (return_packet qops) (ti_returned i) (dw_queues (tn_writer t))\<rparr>\<rparr>
     | _ \<Rightarrow> t)
   | TunRunning \<Rightarrow> (case e of
       TunDevice registered sequences \<Rightarrow> attach registered sequences TunIdle t
     | TunNoMoreDevices \<Rightarrow> t\<lparr>tn_phase := TunEnded\<rparr> | TunCancel \<Rightarrow> t\<lparr>tn_phase := TunEnded\<rparr>
     | TunRead rs \<Rightarrow> (case read_tun_burst ops bops fresh source 0 rs (tn_reader t) of (r, u) \<Rightarrow> ended_loop r (t\<lparr>tn_reader := u\<rparr>))
     | TunReadBroken \<Rightarrow> ended_loop IoEnds t
     | TunWriteRound i \<Rightarrow> (case write_tun_round qops i (tn_writer t) of (r, w) \<Rightarrow> ended_loop r (t\<lparr>tn_writer := w\<rparr>))))"

section \<open>Starting\<close>

definition RETURN_CAPACITY :: nat where "RETURN_CAPACITY = 1024"
definition RETURN_LATENCY_CAPACITY :: nat where "RETURN_LATENCY_CAPACITY = 128"
definition RETURN_PRIORITY_CAPACITY :: nat where "RETURN_PRIORITY_CAPACITY = 384"
definition RETURN_BULK_CAPACITY :: nat where "RETURN_BULK_CAPACITY = RETURN_CAPACITY - RETURN_LATENCY_CAPACITY - RETURN_PRIORITY_CAPACITY"

definition new_returns :: "('p, 'q) pq_ops \<Rightarrow> bool \<Rightarrow> 'q return_queues" where
  "new_returns ops active = \<lparr>rq_latency = packet_channel ops RETURN_LATENCY_CAPACITY active,
     rq_priority = packet_channel ops RETURN_PRIORITY_CAPACITY active, rq_bulk = packet_channel ops RETURN_BULK_CAPACITY active\<rparr>"

datatype io_mode = IoTun | IoBridge | IoUdp

text \<open>Only the TUN device is waited for; until it comes no returned packet is accepted.\<close>

definition start_mode :: "string option \<Rightarrow> bool \<Rightarrow> io_mode" where
  "start_mode tun_uds packet_bridge = (if tun_uds \<noteq> None then IoTun else if packet_bridge then IoBridge else IoUdp)"

definition start_returns :: "('p, 'q) pq_ops \<Rightarrow> string option \<Rightarrow> 'q return_queues" where
  "start_returns ops tun_uds = new_returns ops (tun_uds = None)"

text \<open>Five attempts at the requested port, one second apart, and then a free one. An attempt that binds returns, also with the error of its
  buffer sizes.\<close>

datatype bound_port = RequestedPort | FreePort

fun bind_attempts :: "(nat \<Rightarrow> bool) \<Rightarrow> (nat \<Rightarrow> bool) \<Rightarrow> nat \<Rightarrow> nat \<Rightarrow> (bool \<times> nat) option" where
  "bind_attempts bound sized attempt 0 = None"
| "bind_attempts bound sized attempt (Suc n) = (if bound attempt then Some (sized attempt, attempt) else bind_attempts bound sized (attempt + 1) n)"

definition bind_udp :: "(nat \<Rightarrow> bool) \<Rightarrow> (nat \<Rightarrow> bool) \<Rightarrow> bool \<Rightarrow> bound_port option" where
  "bind_udp bound sized free = (case bind_attempts bound sized 1 5 of
     Some (ok, attempt) \<Rightarrow> if ok then Some RequestedPort else None
   | None \<Rightarrow> if free then Some FreePort else None)"

section \<open>The uplink of every loop\<close>

text \<open>Whatever the loop, its packets are framed in the order they are read and dispatched in that order.\<close>

lemma uplink_packets:
  "(ul_scheduler (fold (uplink_packet ops bops fresh source counted) ps u), ul_dispatcher (fold (uplink_packet ops bops fresh source counted) ps u))
      = fold (dispatch_now ops bops fresh source) (fst (frame_all (ul_sequences u) ps)) (ul_scheduler u, ul_dispatcher u)
   \<and> ul_sequences (fold (uplink_packet ops bops fresh source counted) ps u) = snd (frame_all (ul_sequences u) ps)
   \<and> ul_bytes (fold (uplink_packet ops bops fresh source counted) ps u) = ul_bytes u + of_nat (sum_list (map counted (fst (frame_all (ul_sequences u) ps))))"
proof (induction ps arbitrary: u)
  case (Cons p ps)
  obtain ok sq q where f: "frame_outbound_packet (ul_sequences u) p = (ok, sq, q)" by (rule prod_cases3)
  obtain sch d where d: "dispatch_now ops bops fresh source q (ul_scheduler u, ul_dispatcher u) = (sch, d)" by force
  obtain qs s2 where qs: "frame_all sq ps = (qs, s2)" by force
  show ?case using Cons.IH [of "uplink_packet ops bops fresh source counted p u"]
    by (cases ok) (simp_all add: uplink_packet_def f d qs)
qed simp

text \<open>The device's loop counts the bytes it read; the others count the packet with its flow header.\<close>

lemma counted_with_header:
  assumes "next_header s (as_slice p) = (Some h, s1)" "FRAME_LEN \<le> pb_start p" "packet_ok p"
  shows "\<exists>q. frame_outbound_packet s p = (True, s1, q) \<and> buf_len q = buf_len p + FRAME_LEN"
proof -
  have q: "prepend FRAME_LEN p = Inr (p\<lparr>pb_start := pb_start p - FRAME_LEN\<rparr>)" using assms(2) by (simp add: prepend_def)
  let ?q = "p\<lparr>pb_start := pb_start p - FRAME_LEN\<rparr>"
  have l: "length (subslice (pb_storage ?q) (pb_start ?q) (pb_start ?q + FRAME_LEN)) = FRAME_LEN"
    using assms(2,3) by (auto simp: subslice_def packet_ok_def min_def)
  obtain ok prefix where e: "encode_frame h (subslice (pb_storage ?q) (pb_start ?q) (pb_start ?q + FRAME_LEN)) = (ok, prefix)" by force
  have "ok" using e l by (auto simp: encode_frame_def Let_def split: if_splits)
  then show ?thesis using assms q e by (simp add: frame_outbound_packet_def buf_len_def write_at_def packet_ok_def)
qed

section \<open>What the device receives\<close>

definition pending_list :: "(packet_buf \<times> nat) option \<Rightarrow> packet_buf list" where
  "pending_list x = (case x of None \<Rightarrow> [] | Some (p, k) \<Rightarrow> [p])"

definition pending_out :: "(packet_buf \<times> nat) option \<Rightarrow> bytes" where
  "pending_out x = (case x of None \<Rightarrow> [] | Some (p, k) \<Rightarrow> take k (as_slice p))"

text \<open>The packets that \<open>n\<close> looks at the queues give, in order.\<close>

fun next_many :: "(packet_buf, 'q) pq_ops \<Rightarrow> nat \<Rightarrow> nat \<Rightarrow> return_reorder \<times> 'q return_queues \<Rightarrow> packet_buf list \<times> return_reorder \<times> 'q return_queues" where
  "next_many ops now 0 st = ([], st)"
| "next_many ops now (Suc n) st = (case next_ordered_return_packet ops now st of
     (None, st1) \<Rightarrow> ([], st1) | (Some p, st1) \<Rightarrow> (let (ps, st2) = next_many ops now n st1 in (p # ps, st2)))"

text \<open>What was written of the pending packet is the beginning of it.\<close>

definition pending_ok :: "(packet_buf \<times> nat) option \<Rightarrow> bool" where
  "pending_ok x = (case x of None \<Rightarrow> True | Some (p, k) \<Rightarrow> k \<le> length (as_slice p))"

definition written :: "(packet_buf, 'q) pq_ops \<Rightarrow> nat \<Rightarrow> 'q tun_writer \<Rightarrow> 'q tun_writer \<Rightarrow> bool" where
  "written ops now s s' \<longleftrightarrow> pending_ok (dw_pending s') \<and> (\<exists>n ps finished out.
     next_many ops now n (dw_reorder s, dw_queues s) = (ps, dw_reorder s', dw_queues s')
     \<and> pending_list (dw_pending s) @ ps = finished @ pending_list (dw_pending s')
     \<and> dw_out s' = dw_out s @ out \<and> pending_out (dw_pending s) @ out = concat (map as_slice finished) @ pending_out (dw_pending s')
     \<and> dw_down s' = dw_down s + of_nat (sum_list (map (length \<circ> as_slice) finished)))"

lemma written_refl: "pending_ok (dw_pending s) \<Longrightarrow> written ops now s s"
  unfolding written_def by (intro conjI exI [of _ 0] exI [of _ "[]"]) simp_all

text \<open>One write that does not finish its packet.\<close>

lemma written_part:
  assumes "try_write_tun_packet w p k down = (state, k', down')" "state \<noteq> TunComplete" "k \<le> length (as_slice p)"
  shows "down' = down \<and> k' \<le> length (as_slice p) \<and> take k' (as_slice p) = take k (as_slice p) @ tun_took w p k"
  using assms by (cases w) (auto simp: try_write_tun_packet_def tun_took_def Let_def take_add [symmetric] min_def split: if_splits)

lemma written_whole:
  assumes "try_write_tun_packet w p k down = (TunComplete, k', down')" "k \<le> length (as_slice p)"
  shows "down' = down + of_nat (length (as_slice p)) \<and> take k (as_slice p) @ tun_took w p k = as_slice p"
proof -
  obtain n where w: "w = TunWrote n" using assms(1) by (cases w) (auto simp: try_write_tun_packet_def split: if_splits)
  have "k + length (tun_took w p k) = length (as_slice p)" "down' = down + of_nat (length (as_slice p))"
    using assms by (auto simp: try_write_tun_packet_def w Let_def split: if_splits)
  then show ?thesis by (auto simp: w tun_took_def take_add [symmetric] min_def split: if_splits)
qed

lemma burst_written:
  "write_tun_burst ops now b ws s = (state, s') \<Longrightarrow> pending_ok (dw_pending s) \<Longrightarrow> written ops now s s'"
proof (induction ws arbitrary: b s)
  case Nil
  then show ?case by (simp add: written_refl)
next
  case (Cons w ws)
  show ?case
  proof (cases "dw_pending s")
    case None
    then show ?thesis using Cons.prems by (simp add: written_refl)
  next
    case (Some pk)
    obtain p k where pk: "dw_pending s = Some (p, k)" using Some by (cases pk) simp
    have k: "k \<le> length (as_slice p)" using Cons.prems(2) pk by (simp add: pending_ok_def)
    obtain r k' down where w: "try_write_tun_packet w p k (dw_down s) = (r, k', down)" by (rule prod_cases3)
    let ?s1 = "s\<lparr>dw_pending := Some (p, k'), dw_down := down, dw_out := dw_out s @ tun_took w p k\<rparr>"
    show ?thesis
    proof (cases "r = TunComplete")
      case False
      note part = written_part [OF w False k]
      have s1: "written ops now s ?s1"
        unfolding written_def using part pk
        by (intro conjI exI [of _ 0] exI [of _ "[]"] exI [of _ "tun_took w p k"]) (simp_all add: pending_ok_def pending_list_def pending_out_def)
      show ?thesis
      proof (cases "r = TunContinue")
        case True
        then have "write_tun_burst ops now b ws ?s1 = (state, s')" using Cons.prems(1) pk w by simp
        from Cons.IH [OF this] have "written ops now ?s1 s'" using part by (simp add: pending_ok_def)
        then show ?thesis using part pk unfolding written_def
          by (auto simp: pending_list_def pending_out_def)
      next
        case stop: False
        then have "s' = ?s1" using False Cons.prems(1) pk w by (cases r) auto
        then show ?thesis using s1 by simp
      qed
    next
      case True
      note whole = written_whole [OF w [unfolded True] k]
      show ?thesis
      proof (cases "b + 1 = TUN_WRITE_BURST")
        case last: True
        then have "s' = ?s1\<lparr>dw_pending := None\<rparr>" using Cons.prems(1) pk w True by simp
        then show ?thesis unfolding written_def using whole pk
          by (intro conjI exI [of _ 0] exI [of _ "[]"] exI [of _ "[p]"] exI [of _ "tun_took w p k"])
             (simp_all add: pending_ok_def pending_list_def pending_out_def)
      next
        case more: False
        obtain q rr rq where q: "next_ordered_return_packet ops now (dw_reorder s, dw_queues s) = (q, rr, rq)" by (rule prod_cases3)
        let ?s2 = "dw_next ops now ?s1"
        have s2: "?s2 = ?s1\<lparr>dw_pending := map_option (\<lambda>p. (p, 0)) q, dw_reorder := rr, dw_queues := rq\<rparr>" by (simp add: dw_next_def q)
        show ?thesis
        proof (cases q)
          case None
          then have "s' = ?s2" using Cons.prems(1) pk w True more s2 by simp
          then show ?thesis unfolding written_def using whole pk q None s2
            by (intro conjI exI [of _ 1] exI [of _ "[]"] exI [of _ "[p]"] exI [of _ "tun_took w p k"])
               (simp_all add: pending_ok_def pending_list_def pending_out_def)
        next
          case (Some p2)
          then have run: "write_tun_burst ops now (b + 1) ws ?s2 = (state, s')" using Cons.prems(1) pk w True more s2 by simp
          have "pending_ok (dw_pending ?s2)" by (simp add: s2 Some pending_ok_def)
          from Cons.IH [OF run this] obtain n ps finished out where
            ok: "pending_ok (dw_pending s')" and n: "next_many ops now n (rr, rq) = (ps, dw_reorder s', dw_queues s')"
            and l: "p2 # ps = finished @ pending_list (dw_pending s')"
            and o: "dw_out s' = dw_out s @ tun_took w p k @ out" "out = concat (map as_slice finished) @ pending_out (dw_pending s')"
            and d: "dw_down s' = down + of_nat (sum_list (map (length \<circ> as_slice) finished))"
            unfolding written_def s2 Some by (auto simp: pending_list_def pending_out_def)
          have "next_many ops now (Suc n) (dw_reorder s, dw_queues s) = (p2 # ps, dw_reorder s', dw_queues s')" using q Some n by simp
          then show ?thesis unfolding written_def using ok l o d whole pk
            by (intro conjI exI [of _ "Suc n"] exI [of _ "p2 # ps"] exI [of _ "p # finished"] exI [of _ "tun_took w p k @ out"])
               (simp_all add: pending_list_def pending_out_def flip: append_assoc)
        qed
      qed
    qed
  qed
qed

lemma received_written:
  assumes "dw_receive ops i s = (e, s1)" "pending_ok (dw_pending s)"
  shows "written ops (ti_now i) (s\<lparr>dw_queues := fold (return_packet ops) (ti_returned i) (dw_queues s)\<rparr>) s1"
proof -
  let ?s0 = "s\<lparr>dw_queues := fold (return_packet ops) (ti_returned i) (dw_queues s)\<rparr>"
  show ?thesis
  proof (cases "dw_pending s")
    case None
    obtain q rr rq where q: "next_ordered_return_packet ops (ti_now i) (dw_reorder ?s0, dw_queues ?s0) = (q, rr, rq)" by (rule prod_cases3)
    have "s1 = ?s0\<lparr>dw_pending := map_option (\<lambda>p. (p, 0)) q, dw_reorder := rr, dw_queues := rq\<rparr>"
      using assms(1) None q by (auto simp: dw_receive_def dw_next_def Let_def)
    then show ?thesis unfolding written_def using q None
      by (cases q; intro conjI exI [of _ 1] exI [of _ "case q of None \<Rightarrow> [] | Some p \<Rightarrow> [p]"] exI [of _ "[]"])
         (simp_all add: pending_ok_def pending_list_def pending_out_def)
  next
    case (Some pk)
    then have "s1 = ?s0" using assms(1) by (auto simp: dw_receive_def Let_def)
    then show ?thesis using written_refl [of ?s0] assms(2) by simp
  qed
qed

lemma received_then_written:
  assumes "dw_receive ops i s = (e, s1)" "pending_ok (dw_pending s)" "dw_pending s1 \<noteq> None" "written ops (ti_now i) s1 s'"
  shows "written ops (ti_now i) (s\<lparr>dw_queues := fold (return_packet ops) (ti_returned i) (dw_queues s)\<rparr>) s'"
proof -
  let ?s0 = "s\<lparr>dw_queues := fold (return_packet ops) (ti_returned i) (dw_queues s)\<rparr>"
  show ?thesis
  proof (cases "dw_pending s")
    case None
    obtain q rr rq where q: "next_ordered_return_packet ops (ti_now i) (dw_reorder ?s0, dw_queues ?s0) = (q, rr, rq)" by (rule prod_cases3)
    have s1: "s1 = ?s0\<lparr>dw_pending := map_option (\<lambda>p. (p, 0)) q, dw_reorder := rr, dw_queues := rq\<rparr>"
      using assms(1) None q by (auto simp: dw_receive_def dw_next_def Let_def)
    obtain p where p: "q = Some p" using assms(3) s1 by (cases q) auto
    obtain n ps finished out where w: "pending_ok (dw_pending s')" "next_many ops (ti_now i) n (rr, rq) = (ps, dw_reorder s', dw_queues s')"
      "p # ps = finished @ pending_list (dw_pending s')" "dw_out s' = dw_out s @ out" "out = concat (map as_slice finished) @ pending_out (dw_pending s')"
      "dw_down s' = dw_down s + of_nat (sum_list (map (length \<circ> as_slice) finished))"
      using assms(4) unfolding written_def s1 p by (auto simp: pending_list_def pending_out_def)
    have "next_many ops (ti_now i) (Suc n) (dw_reorder ?s0, dw_queues ?s0) = (p # ps, dw_reorder s', dw_queues s')" using q p w(2) by simp
    then show ?thesis unfolding written_def using w None
      by (intro conjI exI [of _ "Suc n"] exI [of _ "p # ps"] exI [of _ finished] exI [of _ out]) (simp_all add: pending_list_def pending_out_def)
  next
    case (Some pk)
    then have "s1 = ?s0" using assms(1) by (auto simp: dw_receive_def Let_def)
    then show ?thesis using assms(4) by simp
  qed
qed

section \<open>Properties\<close>

text \<open>C26: The TUN device receives the returned packets whole and in order. In every round of the writer (packets arrive; the device takes parts of packets,
  has no buffers, is interrupted, closes), what the device takes continues the packet begun before and consists of whole packets, each once, in the order in which the
  queues and the reordering give them, and of the beginning of the one that stays pending. The bytes counted are those of the
  packets that are complete.\<close>

theorem tun_writer_in_order:
  assumes "write_tun_round ops i s = (e, s')" "pending_ok (dw_pending s)"
  shows "pending_ok (dw_pending s') \<and> (\<exists>n ps finished out.
     next_many ops (ti_now i) n (dw_reorder s, fold (return_packet ops) (ti_returned i) (dw_queues s)) = (ps, dw_reorder s', dw_queues s')
     \<and> pending_list (dw_pending s) @ ps = finished @ pending_list (dw_pending s')
     \<and> dw_out s' = dw_out s @ out \<and> pending_out (dw_pending s) @ out = concat (map as_slice finished) @ pending_out (dw_pending s')
     \<and> dw_down s' = dw_down s + of_nat (sum_list (map (length \<circ> as_slice) finished)))"
proof -
  let ?s0 = "s\<lparr>dw_queues := fold (return_packet ops) (ti_returned i) (dw_queues s)\<rparr>"
  obtain r s1 where r: "dw_receive ops i s = (r, s1)" by force
  note first = received_written [OF r assms(2)]
  have "written ops (ti_now i) ?s0 s'"
  proof (cases "s' = s1")
    case False
    then obtain state where b: "write_tun_burst ops (ti_now i) 0 (ti_writes i) s1 = (state, s')" "dw_pending s1 \<noteq> None"
      using assms(1) r by (auto simp: write_tun_round_def split: io_end.splits if_splits prod.splits)
    have "pending_ok (dw_pending s1)" using first by (simp add: written_def)
    then show ?thesis using received_then_written [OF r assms(2) b(2) burst_written [OF b(1)]] by simp
  qed (use first in simp)
  then show ?thesis by (simp add: written_def)
qed

text \<open>A frame without a payload becomes an empty packet, and an empty packet ends the writer: a write of no bytes takes none. After that the
  downlink stands still until the host supplies another device.\<close>

lemma empty_frame_empty_packet:
  assumes "decode_frame (as_slice b) = Some (h, [])" "trim_front FRAME_LEN b = Inr p"
  shows "as_slice p = []"
  using assms trim_slice [OF assms(2)] by (auto simp: decode_frame_def split: if_splits)

definition needs_device :: "tun_event \<Rightarrow> bool" where
  "needs_device e = (case e of TunRead rs \<Rightarrow> True | TunReadBroken \<Rightarrow> True | TunWriteRound i \<Rightarrow> True | _ \<Rightarrow> False)"

lemma awaiting_silent:
  "tn_phase t = TunAwaiting \<Longrightarrow> list_all needs_device es
    \<Longrightarrow> tn_phase (fold (tun_step ops bops qops fresh source) es t) = TunAwaiting
      \<and> dw_out (tn_writer (fold (tun_step ops bops qops fresh source) es t)) = dw_out (tn_writer t)
      \<and> tn_reader (fold (tun_step ops bops qops fresh source) es t) = tn_reader t"
proof (induction es arbitrary: t)
  case (Cons e es)
  then show ?case using Cons.IH [of "tun_step ops bops qops fresh source e t"]
    by (cases e) (auto simp: tun_step_def needs_device_def)
qed simp

lemma empty_packet_ends_writer:
  assumes "tn_phase t = TunRunning" "dw_pending (tn_writer t) = Some (p, 0)" "as_slice p = []" "ti_wait i = DeviceReady" "ti_writes i = TunWrote n # ws"
    and "list_all needs_device es"
  shows "tn_phase (fold (tun_step ops bops qops fresh source) (TunWriteRound i # es) t) = TunAwaiting"
    "dw_out (tn_writer (fold (tun_step ops bops qops fresh source) (TunWriteRound i # es) t)) = dw_out (tn_writer t)"
proof -
  have w: "try_write_tun_packet (TunWrote n) p 0 d = (TunFailed, 0, d)" for d by (simp add: try_write_tun_packet_def tun_took_def assms(3))
  obtain s1 where "write_tun_round qops i (tn_writer t) = (IoEnds, s1)" "dw_out s1 = dw_out (tn_writer t)"
    using assms by (auto simp: write_tun_round_def dw_receive_def Let_def w tun_took_def)
  then have "tn_phase (tun_step ops bops qops fresh source (TunWriteRound i) t) = TunAwaiting"
    "dw_out (tn_writer (tun_step ops bops qops fresh source (TunWriteRound i) t)) = dw_out (tn_writer t)"
    using assms(1) by (simp_all add: tun_step_def ended_loop_def)
  then show "tn_phase (fold (tun_step ops bops qops fresh source) (TunWriteRound i # es) t) = TunAwaiting"
    "dw_out (tn_writer (fold (tun_step ops bops qops fresh source) (TunWriteRound i # es) t)) = dw_out (tn_writer t)"
    using awaiting_silent [OF _ assms(6), of "tun_step ops bops qops fresh source (TunWriteRound i) t" ops bops qops fresh source] by simp_all
qed

text \<open>A batch for the local client: what goes out is a prefix of it, each packet once and in order, and unless an error ends the loop exactly that is
  counted and no more is left.\<close>

lemma udp_rest_prefix:
  "write_udp_rest dest ws ps (s, down) = (rest, (s', down'), failed) \<Longrightarrow> \<not> failed \<Longrightarrow>
    \<exists>j\<le>length ps. us_wire s' = us_wire s @ map (Pair dest \<circ> as_slice) (take j ps) \<and> rest = drop j ps
      \<and> down' = down + of_nat (sum_list (map buf_len (take j ps)))"
proof (induction ws arbitrary: ps s down)
  case Nil
  then show ?case by (intro exI [of _ 0]) simp
next
  case (Cons w ws)
  show ?case
  proof (cases "ps = [] \<or> w \<noteq> SocketWritable")
    case True
    then show ?thesis using Cons.prems by (intro exI [of _ 0]) (auto split: if_splits)
  next
    case False
    obtain r s1 where r: "try_send_batch dest (map as_slice ps) s = (r, s1)" by force
    have p: "r = Inl WriteZero \<or> r = Inl InvalidInput \<or> (\<exists>j. sent_prefix dest (map as_slice ps) j s s1 \<and> (\<forall>n. r = Inr n \<longrightarrow> n = j) \<and> (r = Inl WouldBlock \<longrightarrow> j = 0))"
      using r platform_send_prefix [of dest "map as_slice ps" s r s1] by (auto simp: try_send_batch_def validate_batch_len_def split: if_splits)
    show ?thesis
    proof (cases r)
      case (Inl e)
      then have e: "e = WouldBlock" using Cons.prems False r by (auto split: if_splits)
      then have s1: "us_wire s1 = us_wire s" using p Inl by (auto simp: sent_prefix_def)
      have "write_udp_rest dest ws ps (s1, down) = (rest, (s', down'), failed)" using Cons.prems(1) False r Inl e by simp
      from Cons.IH [OF this Cons.prems(2)] show ?thesis by (simp add: s1)
    next
      case (Inr n)
      have n: "n \<le> length ps" "us_wire s1 = us_wire s @ map (Pair dest \<circ> as_slice) (take n ps)"
        using p Inr by (auto simp: sent_prefix_def take_map)
      have "write_udp_rest dest ws (drop n ps) (s1, down + of_nat (sum_list (map buf_len (take n ps)))) = (rest, (s', down'), failed)"
        using Cons.prems(1) False r Inr by simp
      from Cons.IH [OF this Cons.prems(2)] obtain j where j: "j \<le> length ps - n" "us_wire s' = us_wire s1 @ map (Pair dest \<circ> as_slice) (take j (drop n ps))"
        "rest = drop j (drop n ps)" "down' = down + of_nat (sum_list (map buf_len (take n ps))) + of_nat (sum_list (map buf_len (take j (drop n ps))))" by auto
      have t: "take (j + n) ps = take n ps @ take j (drop n ps)" by (metis take_add add.commute)
      show ?thesis using j n by (intro exI [of _ "j + n"]) (simp add: t comp_def)
    qed
  qed
qed

section \<open>Witnesses\<close>

text \<open>A packet of three bytes, of which the device has taken one; it takes another, is out of buffers in the next round, then takes the rest.\<close>

definition three_bytes :: packet_buf where
  "three_bytes = (write_at 64 [1, 2, 3] (buf_of (replicate 2304 0)))\<lparr>pb_end := 67\<rparr>"

definition sample_writer :: "(packet_buf queued_packet) list_queue tun_writer" where
  "sample_writer = \<lparr>dw_reorder = new_return_reorder, dw_queues = empty_returns, dw_pending = Some (three_bytes, 1), dw_down = 0, dw_out = [1]\<rparr>"

lemma tun_writer_in_order_witness:
  "\<exists>s1. write_tun_round list_queue_ops \<lparr>ti_returned = [], ti_now = 0, ti_wait = DeviceReady, ti_writes = [TunWrote 1, TunWriteErr TunNoBuffers]\<rparr> sample_writer = (IoGoesOn, s1)
     \<and> dw_pending s1 = Some (three_bytes, 2) \<and> dw_out s1 = [1, 2] \<and> pending_ok (dw_pending s1)"
proof -
  let ?i = "\<lparr>ti_returned = [], ti_now = 0, ti_wait = DeviceReady, ti_writes = [TunWrote 1, TunWriteErr TunNoBuffers]\<rparr>"
  have b: "as_slice three_bytes = [1, 2, 3]" by (simp add: three_bytes_def as_slice_def subslice_def write_at_def buf_of_def PACKET_HEADROOM_def)
  have ok: "pending_ok (dw_pending sample_writer)" by (simp add: sample_writer_def pending_ok_def b)
  obtain e s1 where r: "write_tun_round list_queue_ops ?i sample_writer = (e, s1)" by force
  have "e = IoGoesOn \<and> dw_pending s1 = Some (three_bytes, 2) \<and> dw_out s1 = [1, 2]" using r
    by (auto simp: write_tun_round_def dw_receive_def sample_writer_def try_write_tun_packet_def tun_took_def b Let_def is_retryable_tun_error_def)
  then show ?thesis using r tun_writer_in_order [OF r ok] by simp
qed

end
