(* ===== verification/Engine.thy ===== *)
theory Engine
  imports WorkerControl VkAuth Obfs
begin

text \<open>
  The start and the control of the engine (\<open>lib.rs\<close>): the checks of the arguments and the plan of a run, the resolution of
  the peer with its cache, the commands of the host, the forwarding of configurations, the wait for ready bots and the
  main loop. Files, sockets, the resolver and the clock are arguments.
\<close>

section \<open>Worker counts\<close>

definition GROUPS_PER_VK_HASH :: nat where "GROUPS_PER_VK_HASH = 3"
definition MAX_VK_HASHES :: nat where "MAX_VK_HASHES = 6"
definition MAX_WORKERS :: nat where "MAX_WORKERS = 126"
definition STREAMS_PER_RUNTIME_WORKER :: nat where "STREAMS_PER_RUNTIME_WORKER = 12"
definition MAX_RUNTIME_WORKER_THREADS :: nat where "MAX_RUNTIME_WORKER_THREADS = 4"

definition clamp :: "nat \<Rightarrow> nat \<Rightarrow> nat \<Rightarrow> nat" where
  "clamp lo hi n = max lo (min hi n)"

definition div_ceil :: "nat \<Rightarrow> nat \<Rightarrow> nat" where
  "div_ceil a b = a div b + (if a mod b = 0 then 0 else 1)"

definition normalize_worker_count :: "nat \<Rightarrow> nat" where
  "normalize_worker_count requested = clamp WORKERS_PER_GROUP MAX_WORKERS requested div WORKERS_PER_GROUP * WORKERS_PER_GROUP"

definition normalize_worker_count_for_hashes :: "nat \<Rightarrow> nat \<Rightarrow> bool \<Rightarrow> nat" where
  "normalize_worker_count_for_hashes requested hash_count allow_hash_redistribution =
    (if allow_hash_redistribution then normalize_worker_count requested
     else min (normalize_worker_count requested) (clamp 1 MAX_VK_HASHES hash_count * GROUPS_PER_VK_HASH * WORKERS_PER_GROUP))"

definition runtime_worker_threads :: "nat \<Rightarrow> nat" where
  "runtime_worker_threads requested_workers =
    clamp 1 MAX_RUNTIME_WORKER_THREADS (div_ceil (normalize_worker_count requested_workers) STREAMS_PER_RUNTIME_WORKER)"

definition required_js_ready_bots :: "nat \<Rightarrow> nat" where
  "required_js_ready_bots groups = clamp 1 2 (div_ceil groups GROUPS_PER_CREDENTIAL)"

section \<open>Arguments\<close>

definition flag_names :: "string list" where
  "flag_names = [''turn'', ''port'', ''listen'', ''vk'', ''vk-hash-mode'', ''peer'', ''device-id'', ''password'', ''vk-auth-mode'',
     ''captcha-mode'', ''fingerprint'', ''client-ids'', ''obfs'', ''turn-transport'', ''gen'', ''salt'', ''tun-uds'',
     ''allow-hash-redistribution'', ''validate-vk-hashes'']"

definition normalize_cli_argument :: "string \<Rightarrow> string" where
  "normalize_cli_argument argument = (case argument of
     CHR ''-'' # v \<Rightarrow> if \<not> starts_with v ''-'' \<and> takeWhile (\<lambda>c. c \<noteq> CHR ''='') v \<in> set flag_names then CHR ''-'' # argument else argument
   | _ \<Rightarrow> argument)"

text \<open>The arguments the plan of a run depends on.\<close>

record arguments =
  ar_turn :: string
  ar_port :: string
  ar_vk :: string
  ar_vk_hash_mode :: string
  ar_vk_js_token :: string
  ar_peer :: string
  ar_workers :: nat
  ar_redistribute :: bool
  ar_password :: string
  ar_vk_auth_mode :: string
  ar_client_ids :: string
  ar_obfs :: string
  ar_turn_transport :: string
  ar_idle_workers :: nat
  ar_idle_after_secs :: nat

datatype engine_error =
    JsAuthNeedsJsHashes | PeerOrHashesMissing | PasswordMissing | PeerUnresolved | ObfsUnsupported | TransportModeUnsupported
  | WrapKeyFailed | JsStartFailed | NoHashes

section \<open>Resolving the peer\<close>

type_synonym 'a peer_cache = "(string \<times> 'a) option"

definition cached_peer :: "string \<Rightarrow> 'a peer_cache \<Rightarrow> 'a option" where
  "cached_peer peer cache = (case cache of Some (p, a) \<Rightarrow> if p = peer then Some a else None | None \<Rightarrow> None)"

text \<open>The attempts from \<open>attempt\<close> on. The result: the address, the cache and the number of seconds slept.\<close>

fun peer_attempts :: "(nat \<Rightarrow> 'a option) \<Rightarrow> string \<Rightarrow> nat \<Rightarrow> nat \<Rightarrow> 'a peer_cache \<Rightarrow> 'a option \<times> 'a peer_cache \<times> nat" where
  "peer_attempts resolve peer 0 attempt cache = (cached_peer peer cache, cache, 0)"
| "peer_attempts resolve peer (Suc left) attempt cache = (case resolve attempt of
     Some a \<Rightarrow> (Some a, Some (peer, a), 0)
   | None \<Rightarrow> if 1 \<le> attempt \<and> cached_peer peer cache \<noteq> None then (cached_peer peer cache, cache, 0)
       else (case peer_attempts resolve peer left (attempt + 1) cache of (r, c, n) \<Rightarrow> (r, c, n + 1)))"

definition resolve_peer :: "(nat \<Rightarrow> 'a option) \<Rightarrow> string \<Rightarrow> 'a peer_cache \<Rightarrow> 'a option \<times> 'a peer_cache \<times> nat" where
  "resolve_peer resolve peer cache = peer_attempts resolve peer 15 0 cache"

section \<open>The plan of a run\<close>

record 'a engine_plan =
  ep_peer :: 'a
  ep_turn_host :: "string option"
  ep_turn_port :: "string option"
  ep_transport :: transport_mode
  ep_mode :: obfs_mode
  ep_hashes :: "string list"
  ep_workers :: nat
  ep_groups :: nat
  ep_client_ids :: "string list"
  ep_pool :: nat
  ep_idle_keep :: nat
  ep_idle_after :: nat

definition client_id_list :: "string \<Rightarrow> string list" where
  "client_id_list s = filter (\<lambda>v. v \<noteq> []) (map trim (split_all CHR '','' s))"

definition nonempty :: "string \<Rightarrow> string option" where
  "nonempty s = (if s = [] then None else Some s)"

fun join_comma :: "string list \<Rightarrow> string" where
  "join_comma [] = []"
| "join_comma [x] = x"
| "join_comma (x # xs) = x @ CHR '','' # join_comma xs"

text \<open>\<open>js\<close> is the start of the calls in the browser: the hashes it reports, given whether the token is in the arguments; \<open>wrap_key\<close>
  tells whether a key can be derived from the password.\<close>

definition engine_plan_of :: "arguments \<Rightarrow> 'a option \<Rightarrow> (string \<Rightarrow> bool) \<Rightarrow> (string option \<Rightarrow> string list option) \<Rightarrow> engine_error + 'a engine_plan" where
  "engine_plan_of a peer wrap_key js =
    (let js_hash_mode = (ar_vk_hash_mode a = ''auto_js''); js_auth_mode = (ar_vk_auth_mode a = ''auto_js'') in
     if js_auth_mode \<and> \<not> js_hash_mode then Inl JsAuthNeedsJsHashes
     else if ar_peer a = [] \<or> \<not> js_hash_mode \<and> ar_vk a = [] then Inl PeerOrHashesMissing
     else if ar_password a = [] then Inl PasswordMissing
     else case peer of None \<Rightarrow> Inl PeerUnresolved | Some address \<Rightarrow>
     (case parse_mode (ar_obfs a) of None \<Rightarrow> Inl ObfsUnsupported | Some mode \<Rightarrow>
     (case parse_transport_mode (ar_turn_transport a) of None \<Rightarrow> Inl TransportModeUnsupported | Some transport \<Rightarrow>
      if \<not> wrap_key (ar_password a) then Inl WrapKeyFailed else
     (case (if js_hash_mode then map_option join_comma (js (nonempty (trim (ar_vk_js_token a)))) else Some (ar_vk a)) of
       None \<Rightarrow> Inl JsStartFailed | Some source \<Rightarrow>
        let hashes = take MAX_VK_HASHES (parse_hashes source);
            workers = normalize_worker_count_for_hashes (ar_workers a) (length hashes) (ar_redistribute a \<or> js_hash_mode)
        in if hashes = [] then Inl NoHashes
           else Inr \<lparr>ep_peer = address, ep_turn_host = nonempty (ar_turn a), ep_turn_port = nonempty (ar_port a),
             ep_transport = transport, ep_mode = mode, ep_hashes = hashes, ep_workers = workers,
             ep_groups = workers div WORKERS_PER_GROUP, ep_client_ids = client_id_list (ar_client_ids a),
             ep_pool = packet_pool_size workers, ep_idle_keep = ar_idle_workers a, ep_idle_after = max (ar_idle_after_secs a) 30\<rparr>))))"

section \<open>Forwarding configurations\<close>

text \<open>The slots the host reads, the number of times it was told that they are ready, and the configurations it was sent.\<close>

record config_state =
  cs_last :: "string option"
  cs_ip :: string
  cs_dns :: string
  cs_ready :: nat
  cs_tunnel_active :: bool
  cs_emitted :: "string list"

definition config_fields :: "string \<Rightarrow> string \<times> string" where
  "config_fields v = (case split_once CHR '':'' v of None \<Rightarrow> (v, [])
     | Some (ip, rest) \<Rightarrow> (ip, (case split_once CHR '':'' rest of None \<Rightarrow> rest | Some (dns, _) \<Rightarrow> dns)))"

definition forward_config :: "string \<Rightarrow> config_state \<Rightarrow> config_state" where
  "forward_config config s =
    (if cs_last s = Some config then s
     else let s1 = (if starts_with config ''TUNCONF:'' then (case config_fields (drop 8 config) of (ip, dns) \<Rightarrow>
            s\<lparr>cs_tunnel_active := True, cs_ip := ip, cs_dns := dns, cs_ready := cs_ready s + 1\<rparr>) else s)
          in s1\<lparr>cs_emitted := cs_emitted s1 @ [config], cs_last := Some config\<rparr>)"

section \<open>Commands of the host\<close>

text \<open>What a read of the standard input gives; \<open>ControlCancelled\<close> is the cancellation of the engine while it waits.\<close>

datatype control_input = ControlLine string | ControlClosed | ControlFailed | ControlCancelled

record control_state =
  ct_gate :: pause_gate
  ct_finish_calls :: bool
  ct_captcha :: "string list"
  ct_cancelled :: bool
  ct_reading :: bool

text \<open>The captcha channel holds one result.\<close>

definition submit_result :: "string \<Rightarrow> string list \<Rightarrow> bool \<times> string list" where
  "submit_result r channel = (if channel = [] then (True, [r]) else (False, channel))"

definition control_command :: "string \<Rightarrow> control_state \<Rightarrow> control_state" where
  "control_command line s =
    (if line = ''PAUSE'' then s\<lparr>ct_gate := set_paused True (ct_gate s)\<rparr>
     else if line = ''RESUME'' then s\<lparr>ct_gate := set_paused False (ct_gate s)\<rparr>
     else if line = ''FINISH_VK_CALLS'' then s\<lparr>ct_finish_calls := True\<rparr>
     else if line = ''STOP'' then s\<lparr>ct_cancelled := True, ct_reading := False\<rparr>
     else if starts_with line ''CAPTCHA_RESULT|'' then s\<lparr>ct_captcha := snd (submit_result (drop 15 line) (ct_captcha s))\<rparr>
     else s)"

definition control_step :: "bool \<Rightarrow> control_input \<Rightarrow> control_state \<Rightarrow> control_state" where
  "control_step required i s = (if \<not> ct_reading s then s else case i of
     ControlCancelled \<Rightarrow> s\<lparr>ct_reading := False\<rparr>
   | ControlLine line \<Rightarrow> control_command (trim line) s
   | _ \<Rightarrow> s\<lparr>ct_cancelled := ct_cancelled s \<or> required, ct_reading := False\<rparr>)"

section \<open>Waiting for ready bots\<close>

datatype ready_event = ReadyCancelled | ReadyCredential nat | ReadyClosed

text \<open>\<open>None\<close> when it is still waiting after the events.\<close>

fun wait_ready :: "nat \<Rightarrow> nat list \<Rightarrow> ready_event list \<Rightarrow> bool option" where
  "wait_ready expected ready es =
    (if expected \<le> length ready then Some (length ready = expected) else case es of [] \<Rightarrow> None
     | ReadyCredential c # rest \<Rightarrow> wait_ready expected (List.insert c ready) rest
     | _ # rest \<Rightarrow> Some (length ready = expected))"

declare wait_ready.simps [simp del]

section \<open>The main loop\<close>

datatype engine_event = GroupsFinished | Interrupted | EngineCancelled | DisconnectRequested

datatype engine_action = Disconnect | CancelEngine | ClearPauseGate | AwaitGroups | ShutdownDispatcher | AbortTasks
  | FinishCalls | LeaveCalls | ReportStopped

text \<open>The loop of \<open>run\<close>: whether the groups completed, with what it did; \<open>None\<close> when it is still running.\<close>

fun engine_loop :: "engine_event list \<Rightarrow> (bool \<times> engine_action list) option" where
  "engine_loop [] = None"
| "engine_loop (GroupsFinished # es) = Some (True, [])"
| "engine_loop (Interrupted # es) = Some (False, [CancelEngine])"
| "engine_loop (EngineCancelled # es) = Some (False, [])"
| "engine_loop (DisconnectRequested # es) = map_option (\<lambda>(b, as). (b, Disconnect # as)) (engine_loop es)"

definition engine_end :: "bool \<Rightarrow> bool \<Rightarrow> bool \<Rightarrow> engine_action list" where
  "engine_end groups_completed js_calls finish_js_calls =
    [CancelEngine, ClearPauseGate] @ (if groups_completed then [] else [AwaitGroups]) @ [ShutdownDispatcher, AbortTasks]
    @ (if js_calls then [if finish_js_calls then FinishCalls else LeaveCalls] else []) @ [ReportStopped]"

definition engine_run :: "engine_event list \<Rightarrow> bool \<Rightarrow> bool \<Rightarrow> engine_action list option" where
  "engine_run es js_calls finish_js_calls = map_option (\<lambda>(b, as). as @ engine_end b js_calls finish_js_calls) (engine_loop es)"

section \<open>The check of hashes on request\<close>

definition hash_report :: "string \<times> hash_check \<Rightarrow> (string \<times> json) list" where
  "hash_report = (\<lambda>(hash, result). (''hash'', JString hash) # (case result of
     HashValid \<Rightarrow> [(''status'', JString ''valid'')]
   | HashInvalid code message \<Rightarrow> [(''status'', JString ''invalid''), (''code'', JInt code), (''message'', JString message)]
   | HashUnavailable \<Rightarrow> [(''status'', JString ''unavailable'')]))"

definition run_vk_hash_validation :: "string \<Rightarrow> (string \<Rightarrow> hash_check) \<Rightarrow> engine_error + (string \<times> json) list list" where
  "run_vk_hash_validation vk verdict = (let hashes = take MAX_VK_HASHES (parse_hashes vk) in
     if hashes = [] then Inl NoHashes else Inr (map (\<lambda>h. hash_report (h, verdict h)) hashes))"

section \<open>Properties\<close>

lemmas worker_count_defs = normalize_worker_count_def normalize_worker_count_for_hashes_def clamp_def WORKERS_PER_GROUP_def
  MAX_WORKERS_def MAX_VK_HASHES_def GROUPS_PER_VK_HASH_def

lemma normalized_count: "normalize_worker_count n mod 9 = 0 \<and> 9 \<le> normalize_worker_count n \<and> normalize_worker_count n \<le> 126"
  by (auto simp: worker_count_defs)

lemma normalized_count_for_hashes:
  "let w = normalize_worker_count_for_hashes n h b in w mod 9 = 0 \<and> 9 \<le> w \<and> w \<le> 126 \<and> (b \<or> h = 0 \<or> w \<le> 27 * h)"
  using normalized_count [of n] by (auto simp: normalize_worker_count_for_hashes_def clamp_def WORKERS_PER_GROUP_def
      MAX_VK_HASHES_def GROUPS_PER_VK_HASH_def Let_def min_def max_def)

text \<open>What a run of the engine starts with. Whatever the arguments, a run that starts has between one and six distinct hashes, a
  whole number of groups of nine workers, at least one and at most fourteen, no more than three groups per hash unless redistribution is
  allowed or the browser supplies the hashes, room in the packet pool for 256 packets per worker, and it starts only with a
  password and a resolved peer.\<close>

theorem plan_sound:
  assumes "engine_plan_of a peer wrap_key js = Inr p"
  shows "ep_hashes p \<noteq> [] \<and> length (ep_hashes p) \<le> 6 \<and> distinct (ep_hashes p)
    \<and> ep_workers p = 9 * ep_groups p \<and> 1 \<le> ep_groups p \<and> ep_groups p \<le> 14
    \<and> (ar_redistribute a \<or> ar_vk_hash_mode a = ''auto_js'' \<or> ep_groups p \<le> 3 * length (ep_hashes p))
    \<and> ep_pool p = 256 * ep_workers p + 512 \<and> 30 \<le> ep_idle_after p
    \<and> peer = Some (ep_peer p) \<and> ar_password a \<noteq> []"
proof -
  obtain source where s: "ep_hashes p = take 6 (parse_hashes source)" "ep_hashes p \<noteq> []"
      "ep_workers p = normalize_worker_count_for_hashes (ar_workers a) (length (ep_hashes p)) (ar_redistribute a \<or> ar_vk_hash_mode a = ''auto_js'')"
      "ep_groups p = ep_workers p div 9" "ep_pool p = packet_pool_size (ep_workers p)" "30 \<le> ep_idle_after p"
      "peer = Some (ep_peer p)" "ar_password a \<noteq> []"
    using assms by (auto simp: engine_plan_of_def Let_def MAX_VK_HASHES_def WORKERS_PER_GROUP_def split: if_splits option.splits)
  have w: "ep_workers p mod 9 = 0" "9 \<le> ep_workers p" "ep_workers p \<le> 126"
      "ar_redistribute a \<or> ar_vk_hash_mode a = ''auto_js'' \<or> ep_workers p \<le> 27 * length (ep_hashes p)"
    using normalized_count_for_hashes [of "ar_workers a" "length (ep_hashes p)" "ar_redistribute a \<or> ar_vk_hash_mode a = ''auto_js''"] s(2)
    by (auto simp: Let_def s(3) [symmetric])
  have "distinct (ep_hashes p)" unfolding s(1) parse_hashes_def using keep_first_set by (intro distinct_take) blast
  moreover have "length (ep_hashes p) \<le> 6" by (simp add: s(1))
  moreover have "ep_pool p = 256 * ep_workers p + 512"
    using w by (simp add: s(5) packet_pool_size_def PACKET_POOL_PER_WORKER_def PACKET_POOL_SHARED_def usize_max_def usize_saturating_add_def)
  ultimately show ?thesis using s w by auto
qed

text \<open>A sample run: two configured hashes and 100 requested workers.\<close>

definition sample_arguments :: arguments where
  "sample_arguments = \<lparr>ar_turn = [], ar_port = [], ar_vk = ''abc,def'', ar_vk_hash_mode = ''manual'', ar_vk_js_token = [], ar_peer = ''peer:9000'',
     ar_workers = 100, ar_redistribute = False, ar_password = ''secret'', ar_vk_auth_mode = ''vkcalls'', ar_client_ids = [],
     ar_obfs = ''audio'', ar_turn_transport = ''udp'', ar_idle_workers = 2, ar_idle_after_secs = 5\<rparr>"

lemma plan_sound_witness:
  "\<exists>p. engine_plan_of sample_arguments (Some (7 :: nat)) (\<lambda>_. True) (\<lambda>_. None) = Inr p
     \<and> ep_workers p = 54 \<and> ep_workers p = 9 * ep_groups p \<and> ep_pool p = 256 * ep_workers p + 512"
proof -
  define p where "p = projr (engine_plan_of sample_arguments (Some (7 :: nat)) (\<lambda>_. True) (\<lambda>_. None))"
  have w: "ep_workers p = 54" unfolding p_def by code_simp
  have "is_ok (engine_plan_of sample_arguments (Some (7 :: nat)) (\<lambda>_. True) (\<lambda>_. None))" by code_simp
  then have run: "engine_plan_of sample_arguments (Some (7 :: nat)) (\<lambda>_. True) (\<lambda>_. None) = Inr p"
    by (cases "engine_plan_of sample_arguments (Some (7 :: nat)) (\<lambda>_. True) (\<lambda>_. None)") (auto simp: p_def is_ok_def)
  show ?thesis using run w plan_sound [OF run] by blast
qed

subsection \<open>The peer\<close>

lemma find_in: "find P xs = Some k \<Longrightarrow> k \<in> set xs \<and> P k"
  by (induction xs) (auto split: if_splits)

lemma peer_attempts_uncached:
  "cached_peer peer cache = None \<Longrightarrow> peer_attempts resolve peer left attempt cache =
    (case find (\<lambda>i. resolve i \<noteq> None) [attempt..<attempt + left] of
       Some k \<Rightarrow> (resolve k, Some (peer, the (resolve k)), k - attempt) | None \<Rightarrow> (None, cache, left))"
proof (induction left arbitrary: attempt)
  case 0
  then show ?case by simp
next
  case (Suc left)
  have u: "[attempt..<attempt + Suc left] = attempt # [attempt + 1..<attempt + 1 + left]" by (simp add: upt_conv_Cons)
  show ?case
  proof (cases "resolve attempt")
    case None
    have "k - attempt = Suc (k - Suc attempt)" if "find (\<lambda>i. \<exists>y. resolve i = Some y) [Suc attempt..<Suc (attempt + left)] = Some k" for k
      using find_in [OF that] by auto
    then show ?thesis using Suc.IH [of "attempt + 1"] Suc.prems None unfolding u by (auto split: option.splits)
  qed (unfold u, simp)
qed

text \<open>C30: How the peer's address is found. The result is that of the first of fifteen attempts (one second apart) that succeeds, and it
  is remembered for this peer; when an address of this same peer is already remembered, only two attempts are made before it is
  used, after a single second, so a restart does not depend on a working resolver. It fails only when nothing is
  remembered and all fifteen attempts fail.\<close>

theorem peer_resolution:
  "resolve_peer resolve peer cache =
    (case find (\<lambda>i. resolve i \<noteq> None) [0..<if cached_peer peer cache = None then 15 else 2] of
       Some k \<Rightarrow> (resolve k, Some (peer, the (resolve k)), k)
     | None \<Rightarrow> (cached_peer peer cache, cache, if cached_peer peer cache = None then 15 else 1))"
proof (cases "cached_peer peer cache")
  case None
  then show ?thesis using peer_attempts_uncached [of peer cache resolve 15 0] by (simp add: resolve_peer_def split: option.splits)
next
  case (Some a)
  have first: "peer_attempts resolve peer 15 0 cache = (case resolve 0 of Some b \<Rightarrow> (Some b, Some (peer, b), 0)
      | None \<Rightarrow> (case peer_attempts resolve peer 14 1 cache of (r, c, n) \<Rightarrow> (r, c, n + 1)))"
    using peer_attempts.simps(2) [of resolve peer 14 0 cache] by (cases "resolve 0") simp_all
  have second: "peer_attempts resolve peer 14 1 cache = (case resolve 1 of Some b \<Rightarrow> (Some b, Some (peer, b), 0) | None \<Rightarrow> (Some a, cache, 0))"
    using peer_attempts.simps(2) [of resolve peer 13 1 cache] Some by (cases "resolve 1") simp_all
  have "[0..<2] = [0, 1 :: nat]" by (simp add: upt_rec)
  then show ?thesis using Some first second by (cases "resolve 0"; cases "resolve 1") (simp_all add: resolve_peer_def)
qed

subsection \<open>Configurations and commands\<close>

definition no_configs :: config_state where
  "no_configs = \<lparr>cs_last = None, cs_ip = [], cs_dns = [], cs_ready = 0, cs_tunnel_active = False, cs_emitted = []\<rparr>"

text \<open>The tunnel configurations among what is sent to the host.\<close>

definition tunnel_configs :: "string list \<Rightarrow> string list" where
  "tunnel_configs cs = filter (\<lambda>c. starts_with c ''TUNCONF:'') cs"

lemma forwarded_fields:
  assumes "s = fold forward_config cs no_configs"
  shows "cs_last s = (if cs = [] then None else Some (last cs)) \<and> cs_emitted s = remdups_adj cs
    \<and> cs_ready s = length (tunnel_configs (remdups_adj cs)) \<and> (cs_tunnel_active s \<longleftrightarrow> tunnel_configs cs \<noteq> [])
    \<and> (cs_ip s, cs_dns s) = (if tunnel_configs cs = [] then ([], []) else config_fields (drop 8 (last (tunnel_configs cs))))"
  using assms
proof (induction cs arbitrary: s rule: rev_induct)
  case Nil
  then show ?case by (simp add: no_configs_def tunnel_configs_def)
next
  case (snoc c cs)
  define s0 where "s0 = fold forward_config cs no_configs"
  note ih = snoc.IH [OF s0_def]
  have s: "s = forward_config c s0" using snoc.prems by (simp add: s0_def)
  have adj: "remdups_adj (cs @ [c]) = remdups_adj cs @ (if cs \<noteq> [] \<and> last cs = c then [] else [c])"
    using remdups_adj_append'' [of cs "[c]"] by (cases "cs = []") auto
  show ?case
  proof (cases "cs \<noteq> [] \<and> last cs = c")
    case True
    then have "forward_config c s0 = s0" using ih by (simp add: forward_config_def)
    moreover obtain cs' where "cs = cs' @ [c]" using True by (metis append_butlast_last_id)
    ultimately show ?thesis using True ih adj unfolding s by (auto simp: tunnel_configs_def)
  next
    case False
    then have "cs_last s0 \<noteq> Some c" using ih by auto
    then show ?thesis using False ih adj unfolding s
      by (cases "starts_with c ''TUNCONF:''"; cases "config_fields (drop 8 c)") (auto simp: forward_config_def tunnel_configs_def Let_def)
  qed
qed

text \<open>What the host sees of the configurations: repetitions of the last one are dropped, and the address slots hold the fields of the last
  tunnel configuration.\<close>

lemma forwarded_configs:
  "cs_emitted (fold forward_config cs no_configs) = remdups_adj cs
    \<and> (tunnel_configs cs \<noteq> [] \<longrightarrow>
        (cs_ip (fold forward_config cs no_configs), cs_dns (fold forward_config cs no_configs)) = config_fields (drop 8 (last (tunnel_configs cs))))"
  using forwarded_fields [OF refl, of cs] by simp

lemma stopped_ignores: "\<not> ct_reading s \<Longrightarrow> fold (control_step required) is s = s"
  by (induction "is") (auto simp: control_step_def)

text \<open>A stop command cancels the engine, and no later input has an effect.\<close>

lemma stop_is_final:
  assumes "ct_reading (fold (control_step required) is s)" "trim line = ''STOP''"
  shows "fold (control_step required) (is @ ControlLine line # js) s
     = (fold (control_step required) is s)\<lparr>ct_cancelled := True, ct_reading := False\<rparr>"
  using assms by (simp add: control_step_def control_command_def stopped_ignores)

text \<open>The credentials reported before the wait is cancelled or its channel closed.\<close>

fun ready_prefix :: "ready_event list \<Rightarrow> nat list" where
  "ready_prefix (ReadyCredential c # es) = c # ready_prefix es"
| "ready_prefix es = []"

lemma wait_ready_spec:
  "distinct ready \<Longrightarrow> length ready \<le> expected \<Longrightarrow> wait_ready expected ready es =
    (if expected \<le> card (set ready \<union> set (ready_prefix es)) then Some True
     else if list_all (\<lambda>e. \<exists>c. e = ReadyCredential c) es then None else Some False)"
proof (induction expected ready es rule: wait_ready.induct)
  case (1 expected ready es)
  have k: "card (set ready) = length ready" using "1.prems"(1) by (rule distinct_card)
  show ?case
  proof (cases "expected \<le> length ready")
    case True
    have "card (set ready) \<le> card (set ready \<union> set (ready_prefix es))" by (rule card_mono) auto
    then show ?thesis using True "1.prems" k by (simp add: wait_ready.simps)
  next
    case False
    show ?thesis
    proof (cases es)
      case Nil
      then show ?thesis using False k by (simp add: wait_ready.simps)
    next
      case (Cons e rest)
      show ?thesis
      proof (cases e)
        case (ReadyCredential c)
        have "length (List.insert c ready) \<le> expected" using False by (auto simp: List.insert_def)
        moreover have "distinct (List.insert c ready)" using "1.prems"(1) by simp
        moreover have "wait_ready expected ready es = wait_ready expected (List.insert c ready) rest"
          unfolding Cons ReadyCredential using False by (simp add: wait_ready.simps [of expected ready "ReadyCredential c # rest"])
        ultimately show ?thesis using "1.IH" [OF False Cons ReadyCredential] Cons ReadyCredential by simp
      qed (use False Cons k in \<open>simp_all add: wait_ready.simps\<close>)
    qed
  qed
qed

end
