(* ===== verification/Logging.thy ===== *)
theory Logging
  imports BoundedQueue Text
begin

text \<open>
  \<open>logging.rs\<close>: lines are formatted into a bounded buffer, producers put them into two bounded queues without ever waiting, and a
  thread writes them, the protocol's lines first. Producers and the writer run concurrently: a step is one atomic operation, a run an
  interleaving of the steps. A string here is the list of the bytes of its UTF-8 encoding.
\<close>

section \<open>Bounded lines\<close>

definition PROTOCOL_CAPACITY :: nat where "PROTOCOL_CAPACITY = 128"
definition DIAGNOSTIC_CAPACITY :: nat where "DIAGNOSTIC_CAPACITY = 512"
definition MAX_LINE_BYTES :: nat where "MAX_LINE_BYTES = 4096"
definition PROTOCOL_BURST :: nat where "PROTOCOL_BURST = 32"
definition COALESCE_BATCH :: nat where "COALESCE_BATCH = 64"

record bounded_line =
  bl_value :: string
  bl_full :: bool

definition new_line :: bounded_line where
  "new_line = \<lparr>bl_value = [], bl_full = False\<rparr>"

definition is_char_boundary :: "string \<Rightarrow> nat \<Rightarrow> bool" where
  "is_char_boundary v i \<longleftrightarrow> i = 0 \<or> i = length v \<or> i < length v \<and> \<not> (128 \<le> (of_char (v ! i) :: nat) \<and> of_char (v ! i) < (192 :: nat))"

fun floor_boundary :: "string \<Rightarrow> nat \<Rightarrow> nat" where
  "floor_boundary v 0 = 0"
| "floor_boundary v (Suc n) = (if is_char_boundary v (Suc n) then Suc n else floor_boundary v n)"

definition write_str :: "string \<Rightarrow> bounded_line \<Rightarrow> bounded_line" where
  "write_str v l = (if bl_full l then l
     else let remaining = MAX_LINE_BYTES - length (bl_value l) in
       if length v \<le> remaining then l\<lparr>bl_value := bl_value l @ v\<rparr>
       else \<lparr>bl_value = bl_value l @ take (floor_boundary v (min remaining (length v))) v, bl_full = True\<rparr>)"

text \<open>The pieces a format string is written in; \<open>None\<close>: formatting fails or panics, and there is no line.\<close>

definition format_line :: "string list option \<Rightarrow> string option" where
  "format_line pieces = map_option (\<lambda>vs. bl_value (fold write_str vs new_line)) pieces"

section \<open>The shared state\<close>

datatype log_kind = Protocol | Diagnostic

record 'q log_channel =
  lc_queue :: 'q
  lc_outstanding :: nat
  lc_dropped :: nat

record 'q log_shared =
  lg_channel :: "log_kind \<Rightarrow> 'q log_channel"
  lg_producers :: nat
  lg_accepting :: bool
  lg_shutdown :: bool
  lg_stopped :: bool
  lg_flush_requested :: nat
  lg_flush_completed :: nat
  lg_wakes :: nat

definition new_log_shared :: "(string, 'q) queue_ops \<Rightarrow> nat \<Rightarrow> nat \<Rightarrow> 'q log_shared" where
  "new_log_shared ops protocol_capacity diagnostic_capacity =
    \<lparr>lg_channel = (\<lambda>k. \<lparr>lc_queue = qo_new ops (max 1 (case k of Protocol \<Rightarrow> protocol_capacity | Diagnostic \<Rightarrow> diagnostic_capacity)),
        lc_outstanding = 0, lc_dropped = 0\<rparr>),
     lg_producers = 0, lg_accepting = True, lg_shutdown = False, lg_stopped = False, lg_flush_requested = 0, lg_flush_completed = 0, lg_wakes = 0\<rparr>"

definition on_channel :: "log_kind \<Rightarrow> ('q log_channel \<Rightarrow> 'q log_channel) \<Rightarrow> 'q log_shared \<Rightarrow> 'q log_shared" where
  "on_channel k f s = s\<lparr>lg_channel := (lg_channel s)(k := f (lg_channel s k))\<rparr>"

definition put_line_queue :: "log_kind \<Rightarrow> 'q \<Rightarrow> 'q log_shared \<Rightarrow> 'q log_shared" where
  "put_line_queue k q = on_channel k (\<lambda>c. c\<lparr>lc_queue := q\<rparr>)"

definition count_line :: "log_kind \<Rightarrow> 'q log_shared \<Rightarrow> 'q log_shared" where
  "count_line k = on_channel k (\<lambda>c. c\<lparr>lc_outstanding := lc_outstanding c + 1\<rparr>)"

definition uncount_line :: "log_kind \<Rightarrow> 'q log_shared \<Rightarrow> 'q log_shared" where
  "uncount_line k = on_channel k (\<lambda>c. c\<lparr>lc_outstanding := lc_outstanding c - 1\<rparr>)"

definition drop_line :: "log_kind \<Rightarrow> 'q log_shared \<Rightarrow> 'q log_shared" where
  "drop_line k = on_channel k (\<lambda>c. c\<lparr>lc_outstanding := lc_outstanding c - 1, lc_dropped := lc_dropped c + 1\<rparr>)"

definition notify_writer :: "'q log_shared \<Rightarrow> 'q log_shared" where
  "notify_writer s = s\<lparr>lg_wakes := lg_wakes s + 1\<rparr>"

section \<open>Producers\<close>

text \<open>Where a call of \<open>enqueue_protocol\<close> or \<open>enqueue_diagnostic\<close> stands: before it looks at \<open>accepting\<close>, before it counts itself, before
  the second look, before counting its line; in the loop of \<open>replace_oldest\<close> with the tries left (about to push, to pop the
  oldest line, to account for the popped one); about to leave; gone.\<close>

datatype producer_pc = PrStart log_kind "string option" | PrCount log_kind "string option" | PrRecheck log_kind "string option"
  | PrBegun log_kind string | PrPush log_kind string nat | PrPop log_kind string nat | PrDropped log_kind string nat | PrLeave | PrDone

definition REPLACE_TRIES :: nat where "REPLACE_TRIES = 4"

fun producer_step :: "(string, 'q) queue_ops \<Rightarrow> producer_pc \<Rightarrow> 'q log_shared \<Rightarrow> producer_pc \<times> 'q log_shared" where
  "producer_step ops (PrStart k line) s = (if lg_accepting s then PrCount k line else PrDone, s)"
| "producer_step ops (PrCount k line) s = (PrRecheck k line, s\<lparr>lg_producers := lg_producers s + 1\<rparr>)"
| "producer_step ops (PrRecheck k line) s =
    (if lg_accepting s then (case line of None \<Rightarrow> PrLeave | Some l \<Rightarrow> PrBegun k l) else PrLeave, s)"
| "producer_step ops (PrBegun k line) s = (PrPush k line REPLACE_TRIES, count_line k s)"
| "producer_step ops (PrPush k line 0) s = (PrLeave, notify_writer (drop_line k s))"
| "producer_step ops (PrPush k line (Suc n)) s = (case qo_push ops line (lc_queue (lg_channel s k)) of
     Some q \<Rightarrow> (PrLeave, notify_writer (put_line_queue k q s)) | None \<Rightarrow> (PrPop k line n, s))"
| "producer_step ops (PrPop k line n) s = (case qo_pop ops (lc_queue (lg_channel s k)) of
     Some (old, q) \<Rightarrow> (PrDropped k line n, put_line_queue k q s) | None \<Rightarrow> (PrPush k line n, s))"
| "producer_step ops (PrDropped k line n) s = (PrPush k line n, drop_line k s)"
| "producer_step ops PrLeave s = (PrDone, notify_writer (s\<lparr>lg_producers := lg_producers s - 1\<rparr>))"
| "producer_step ops PrDone s = (PrDone, s)"

section \<open>The writer\<close>

record log_sink =
  sk_text :: string
  sk_disabled :: bool

text \<open>\<open>io\<close> is the number of bytes after which the writer of the sink fails or panics, if it does.\<close>

definition write_line :: "nat option \<Rightarrow> string \<Rightarrow> nat \<Rightarrow> log_sink \<Rightarrow> log_sink" where
  "write_line io v repetitions k = (if sk_disabled k then k
     else let text = v @ (if 1 < repetitions then '' (x'' @ decimal repetitions @ '')'' else []) @ [CHR 0x0A] in
       case io of None \<Rightarrow> k\<lparr>sk_text := sk_text k @ text\<rparr>
       | Some n \<Rightarrow> \<lparr>sk_text = sk_text k @ take n text, sk_disabled = True\<rparr>)"

definition flush_sink :: "bool \<Rightarrow> log_sink \<Rightarrow> log_sink" where
  "flush_sink ok k = (if sk_disabled k \<or> ok then k else k\<lparr>sk_disabled := True\<rparr>)"

text \<open>The points of \<open>writer_loop\<close>: the pop of a protocol line while the burst lasts, of a diagnostic, the comparison of the next diagnostic with
  the one in hand, the accounting of an equal one, the write, the accounting of a written line (with the new length of the burst), the
  pop of a protocol line after a full burst, the three reads of \<open>idle\<close>, what follows when it holds, the wait (it ends
  after 100 ms at the latest), the end.\<close>

datatype log_writer_pc = WrTop | WrDiagnostic | WrCoalesce string nat | WrSame string nat | WrEmit string nat | WrWritten log_kind nat | WrSecond
  | WrIdleProtocol | WrIdleDiagnostic | WrIdleProducers | WrIdle | WrShutdown | WrWait | WrStopped

record log_writer =
  lw_pc :: log_writer_pc
  lw_burst :: nat
  lw_pending :: "string option"
  lw_stdout :: log_sink
  lw_stderr :: log_sink

text \<open>A step of the writer; \<open>io\<close> and \<open>ok\<close> are the results of the sinks.\<close>

fun log_writer_step :: "(string, 'q) queue_ops \<Rightarrow> nat option \<Rightarrow> bool \<Rightarrow> log_writer_pc \<Rightarrow> log_writer \<Rightarrow> 'q log_shared \<Rightarrow> log_writer \<times> 'q log_shared" where
  "log_writer_step ops io ok WrTop w s = (if lw_burst w < PROTOCOL_BURST
     then (case qo_pop ops (lc_queue (lg_channel s Protocol)) of
         Some (line, q) \<Rightarrow> (w\<lparr>lw_pc := WrWritten Protocol (lw_burst w + 1), lw_stdout := write_line io line 1 (lw_stdout w)\<rparr>, put_line_queue Protocol q s)
       | None \<Rightarrow> (w\<lparr>lw_pc := WrDiagnostic\<rparr>, s))
     else (w\<lparr>lw_pc := WrDiagnostic\<rparr>, s))"
| "log_writer_step ops io ok WrDiagnostic w s = (case lw_pending w of
     Some line \<Rightarrow> (w\<lparr>lw_pc := WrCoalesce line 1, lw_pending := None\<rparr>, s)
   | None \<Rightarrow> (case qo_pop ops (lc_queue (lg_channel s Diagnostic)) of
       Some (line, q) \<Rightarrow> (w\<lparr>lw_pc := WrCoalesce line 1\<rparr>, put_line_queue Diagnostic q s)
     | None \<Rightarrow> (w\<lparr>lw_pc := WrSecond\<rparr>, s)))"
| "log_writer_step ops io ok (WrCoalesce line n) w s = (if COALESCE_BATCH \<le> n then (w\<lparr>lw_pc := WrEmit line n\<rparr>, s)
     else case qo_pop ops (lc_queue (lg_channel s Diagnostic)) of
       None \<Rightarrow> (w\<lparr>lw_pc := WrEmit line n\<rparr>, s)
     | Some (next, q) \<Rightarrow> (if next = line then w\<lparr>lw_pc := WrSame line (n + 1)\<rparr> else w\<lparr>lw_pc := WrEmit line n, lw_pending := Some next\<rparr>,
         put_line_queue Diagnostic q s))"
| "log_writer_step ops io ok (WrSame line n) w s = (w\<lparr>lw_pc := WrCoalesce line n\<rparr>, uncount_line Diagnostic s)"
| "log_writer_step ops io ok (WrEmit line n) w s = (w\<lparr>lw_pc := WrWritten Diagnostic 0, lw_stderr := write_line io line n (lw_stderr w)\<rparr>, s)"
| "log_writer_step ops io ok (WrWritten k burst) w s = (w\<lparr>lw_pc := WrTop, lw_burst := burst\<rparr>, uncount_line k s)"
| "log_writer_step ops io ok WrSecond w s = (case qo_pop ops (lc_queue (lg_channel s Protocol)) of
     Some (line, q) \<Rightarrow> (w\<lparr>lw_pc := WrWritten Protocol 1, lw_stdout := write_line io line 1 (lw_stdout w)\<rparr>, put_line_queue Protocol q s)
   | None \<Rightarrow> (w\<lparr>lw_pc := WrIdleProtocol\<rparr>, s))"
| "log_writer_step ops io ok WrIdleProtocol w s = (w\<lparr>lw_pc := if lc_outstanding (lg_channel s Protocol) = 0 then WrIdleDiagnostic else WrWait\<rparr>, s)"
| "log_writer_step ops io ok WrIdleDiagnostic w s = (w\<lparr>lw_pc := if lc_outstanding (lg_channel s Diagnostic) = 0 then WrIdleProducers else WrWait\<rparr>, s)"
| "log_writer_step ops io ok WrIdleProducers w s = (w\<lparr>lw_pc := if lg_producers s = 0 then WrIdle else WrWait\<rparr>, s)"
| "log_writer_step ops io ok WrIdle w s = (if lg_flush_completed s < lg_flush_requested s
     then (w\<lparr>lw_pc := WrShutdown, lw_stdout := flush_sink ok (lw_stdout w), lw_stderr := flush_sink ok (lw_stderr w)\<rparr>,
       s\<lparr>lg_flush_completed := lg_flush_requested s\<rparr>)
     else (w\<lparr>lw_pc := WrShutdown\<rparr>, s))"
| "log_writer_step ops io ok WrShutdown w s = (if lg_shutdown s
     then (w\<lparr>lw_pc := WrStopped, lw_stdout := flush_sink ok (lw_stdout w), lw_stderr := flush_sink ok (lw_stderr w)\<rparr>, s\<lparr>lg_stopped := True\<rparr>)
     else (w\<lparr>lw_pc := WrWait\<rparr>, s))"
| "log_writer_step ops io ok WrWait w s = (w\<lparr>lw_pc := WrTop\<rparr>, s)"
| "log_writer_step ops io ok WrStopped w s = (w, s)"

section \<open>The logger\<close>

record 'q logger =
  lo_shared :: "'q log_shared"
  lo_calls :: "producer_pc list"
  lo_writer :: log_writer

text \<open>A step of a call, of the writer, of \<open>flush\<close>, and the two stores of \<open>shutdown\<close>.\<close>

datatype log_event = EvCall nat | EvWriter "nat option" bool | EvFlush | EvClose | EvShutdown

definition log_step :: "(string, 'q) queue_ops \<Rightarrow> log_event \<Rightarrow> 'q logger \<Rightarrow> 'q logger" where
  "log_step ops e l = (case e of
     EvCall i \<Rightarrow> (if i < length (lo_calls l)
       then case producer_step ops (lo_calls l ! i) (lo_shared l) of (pc, s) \<Rightarrow> l\<lparr>lo_calls := (lo_calls l)[i := pc], lo_shared := s\<rparr> else l)
   | EvWriter io ok \<Rightarrow> (case log_writer_step ops io ok (lw_pc (lo_writer l)) (lo_writer l) (lo_shared l) of (w, s) \<Rightarrow> l\<lparr>lo_writer := w, lo_shared := s\<rparr>)
   | EvFlush \<Rightarrow> l\<lparr>lo_shared := notify_writer ((lo_shared l)\<lparr>lg_flush_requested := lg_flush_requested (lo_shared l) + 1\<rparr>)\<rparr>
   | EvClose \<Rightarrow> l\<lparr>lo_shared := (lo_shared l)\<lparr>lg_accepting := False\<rparr>\<rparr>
   | EvShutdown \<Rightarrow> l\<lparr>lo_shared := notify_writer ((lo_shared l)\<lparr>lg_shutdown := True\<rparr>)\<rparr>)"

definition new_logger :: "(string, 'q) queue_ops \<Rightarrow> nat \<Rightarrow> nat \<Rightarrow> (log_kind \<times> string list option) list \<Rightarrow> 'q logger" where
  "new_logger ops protocol_capacity diagnostic_capacity calls =
    \<lparr>lo_shared = new_log_shared ops protocol_capacity diagnostic_capacity, lo_calls = map (\<lambda>(k, pieces). PrStart k (format_line pieces)) calls,
     lo_writer = \<lparr>lw_pc = WrTop, lw_burst = 0, lw_pending = None, lw_stdout = \<lparr>sk_text = [], sk_disabled = False\<rparr>,
       lw_stderr = \<lparr>sk_text = [], sk_disabled = False\<rparr>\<rparr>\<rparr>"

section \<open>Lines\<close>

lemma floor_boundary_le: "floor_boundary v n \<le> n"
  by (induction n) auto

lemma floor_boundary_ok: "is_char_boundary v (floor_boundary v n)"
  by (induction n) (auto simp: is_char_boundary_def)

text \<open>What is in the line is a beginning of what was written, cut at a boundary, and everything while it is not full.\<close>

lemma write_str_prefix:
  assumes "length (bl_value l) \<le> MAX_LINE_BYTES" "bl_full l \<longrightarrow> (\<exists>r. vs = bl_value l @ r)" "\<not> bl_full l \<longrightarrow> vs = bl_value l"
  shows "length (bl_value (write_str v l)) \<le> MAX_LINE_BYTES \<and> (bl_full (write_str v l) \<longrightarrow> (\<exists>r. vs @ v = bl_value (write_str v l) @ r))
    \<and> (\<not> bl_full (write_str v l) \<longrightarrow> vs @ v = bl_value (write_str v l))"
proof (cases "bl_full l")
  case False
  let ?n = "floor_boundary v (min (MAX_LINE_BYTES - length (bl_value l)) (length v))"
  have n: "?n \<le> MAX_LINE_BYTES - length (bl_value l)" using floor_boundary_le le_trans min.cobounded1 by blast
  have "vs @ v = (bl_value l @ take ?n v) @ drop ?n v" using False assms(3) by simp
  then show ?thesis using False assms n by (auto simp: write_str_def Let_def simp del: append_assoc)
qed (use assms in \<open>auto simp: write_str_def\<close>)

lemma written_prefix:
  "length (bl_value l) \<le> MAX_LINE_BYTES \<Longrightarrow> (bl_full l \<longrightarrow> (\<exists>r. ws = bl_value l @ r)) \<Longrightarrow> (\<not> bl_full l \<longrightarrow> ws = bl_value l)
    \<Longrightarrow> length (bl_value (fold write_str vs l)) \<le> MAX_LINE_BYTES \<and> (\<exists>r. ws @ concat vs = bl_value (fold write_str vs l) @ r)
      \<and> (\<not> bl_full (fold write_str vs l) \<longrightarrow> ws @ concat vs = bl_value (fold write_str vs l))"
proof (induction vs arbitrary: l ws)
  case Nil
  then show ?case by (cases "bl_full l") auto
next
  case (Cons v vs)
  note w = write_str_prefix [OF Cons.prems, of v]
  show ?case using Cons.IH [of "write_str v l" "ws @ v"] w by simp
qed

lemma line_bounded: "format_line (Some vs) = Some t \<Longrightarrow> length t \<le> MAX_LINE_BYTES \<and> (\<exists>r. concat vs = t @ r)"
  using written_prefix [of new_line "[]" vs] by (auto simp: format_line_def new_line_def)

section \<open>A call never waits\<close>

fun pr_rank :: "producer_pc \<Rightarrow> nat" where
  "pr_rank PrDone = 0" | "pr_rank PrLeave = 1" | "pr_rank (PrPush k l n) = 3 * n + 2" | "pr_rank (PrDropped k l n) = 3 * n + 3"
| "pr_rank (PrPop k l n) = 3 * n + 4" | "pr_rank (PrBegun k l) = 15" | "pr_rank (PrRecheck k l) = 16" | "pr_rank (PrCount k l) = 17"
| "pr_rank (PrStart k l) = 18"

lemma producer_step_rank: "pr_rank (fst (producer_step ops pc s)) \<le> pr_rank pc - 1"
  by (cases "(ops, pc, s)" rule: producer_step.cases) (auto simp: REPLACE_TRIES_def split: option.splits)

lemma calls_rank:
  "i < length (lo_calls l) \<Longrightarrow>
    pr_rank (lo_calls (run_ops (log_step ops) es l) ! i) \<le> pr_rank (lo_calls l ! i) - length (filter (\<lambda>e. e = EvCall i) es)
    \<and> length (lo_calls (run_ops (log_step ops) es l)) = length (lo_calls l)"
proof (induction es arbitrary: l)
  case (Cons e es)
  let ?l = "log_step ops e l"
  have len: "length (lo_calls ?l) = length (lo_calls l)" by (auto simp: log_step_def split: log_event.splits prod.splits)
  have step: "pr_rank (lo_calls ?l ! i) \<le> pr_rank (lo_calls l ! i) - (if e = EvCall i then 1 else 0)"
  proof (cases e)
    case (EvCall j)
    obtain pc s where p: "producer_step ops (lo_calls l ! j) (lo_shared l) = (pc, s)" by force
    show ?thesis using producer_step_rank [of ops "lo_calls l ! j" "lo_shared l"] Cons.prems
      by (cases "j = i") (auto simp: EvCall log_step_def split: prod.splits)
  qed (auto simp: log_step_def split: prod.splits)
  show ?case using Cons.IH [of ?l] Cons.prems step len by (auto split: if_splits)
qed simp

section \<open>The counters\<close>

text \<open>How many lines of a kind a call or the writer has counted but not in the queue; which calls count themselves.\<close>

fun pr_weight :: "log_kind \<Rightarrow> producer_pc \<Rightarrow> nat" where
  "pr_weight k (PrPush j l n) = (if j = k then 1 else 0)"
| "pr_weight k (PrPop j l n) = (if j = k then 1 else 0)"
| "pr_weight k (PrDropped j l n) = (if j = k then 2 else 0)"
| "pr_weight k _ = 0"

fun pr_active :: "producer_pc \<Rightarrow> nat" where
  "pr_active (PrStart k l) = 0" | "pr_active (PrCount k l) = 0" | "pr_active PrDone = 0" | "pr_active _ = 1"

fun pc_weight :: "log_kind \<Rightarrow> log_writer_pc \<Rightarrow> nat" where
  "pc_weight k (WrWritten j b) = (if j = k then 1 else 0)"
| "pc_weight k (WrCoalesce l n) = (if k = Diagnostic then 1 else 0)"
| "pc_weight k (WrSame l n) = (if k = Diagnostic then 2 else 0)"
| "pc_weight k (WrEmit l n) = (if k = Diagnostic then 1 else 0)"
| "pc_weight k _ = 0"

definition wr_weight :: "log_kind \<Rightarrow> log_writer \<Rightarrow> nat" where
  "wr_weight k w = pc_weight k (lw_pc w) + (if k = Diagnostic \<and> lw_pending w \<noteq> None then 1 else 0)"

definition channel_counts :: "('q \<Rightarrow> string list) \<Rightarrow> ('q \<Rightarrow> nat) \<Rightarrow> nat \<Rightarrow> 'q log_channel \<Rightarrow> bool" where
  "channel_counts items cap held c \<longleftrightarrow> lc_outstanding c = length (items (lc_queue c)) + held \<and> length (items (lc_queue c)) \<le> cap (lc_queue c)"

text \<open>Where the writer has nothing set aside.\<close>

fun nothing_pending :: "log_writer_pc \<Rightarrow> bool" where
  "nothing_pending WrTop = False" | "nothing_pending WrDiagnostic = False" | "nothing_pending (WrEmit t n) = False"
| "nothing_pending (WrWritten k n) = False" | "nothing_pending WrWait = False" | "nothing_pending _ = True"

text \<open>The counter of each queue is exactly the lines in it, in the hands of calls and in the hands of the writer; the counter of
  producers is exact; a line that is not in comparison has no pending one behind it before the writer takes the next.\<close>

definition logger_inv :: "('q \<Rightarrow> string list) \<Rightarrow> ('q \<Rightarrow> nat) \<Rightarrow> 'q logger \<Rightarrow> bool" where
  "logger_inv items cap l \<longleftrightarrow>
     (\<forall>k. channel_counts items cap (sum_list (map (pr_weight k) (lo_calls l)) + wr_weight k (lo_writer l)) (lg_channel (lo_shared l) k))
     \<and> lg_producers (lo_shared l) = sum_list (map pr_active (lo_calls l))
     \<and> (nothing_pending (lw_pc (lo_writer l)) \<longrightarrow> lw_pending (lo_writer l) = None)"

lemma sum_at: "i < length xs \<Longrightarrow> sum_list (map f (xs[i := x])) + f (xs ! i) = sum_list (map f xs) + (f x :: nat)"
proof (induction xs arbitrary: i)
  case (Cons y ys)
  then show ?case by (cases i) auto
qed simp

lemma sum_ge: "i < length xs \<Longrightarrow> (f (xs ! i) :: nat) \<le> sum_list (map f xs)"
  by (rule elem_le_sum_list [of i "map f xs", simplified]) simp

lemma on_channel_simps [simp]:
  "lg_channel (on_channel k f s) = (lg_channel s)(k := f (lg_channel s k))" "lg_producers (on_channel k f s) = lg_producers s"
  "lg_accepting (on_channel k f s) = lg_accepting s" "lg_channel (notify_writer s) = lg_channel s"
  "lg_producers (notify_writer s) = lg_producers s" "lg_accepting (notify_writer s) = lg_accepting s"
  by (simp_all add: on_channel_def notify_writer_def)

text \<open>After \<open>shutdown\<close> has closed the logger and no call is between its counting and its end, nothing is queued any more; the writer then stops only
  when it has seen both queues empty.\<close>

fun harmless :: "producer_pc \<Rightarrow> bool" where
  "harmless (PrBegun k t) = False" | "harmless (PrPush k t n) = False" | "harmless (PrPop k t n) = False" | "harmless (PrDropped k t n) = False"
| "harmless _ = True"

definition quiet :: "'q logger \<Rightarrow> bool" where
  "quiet l \<longleftrightarrow> \<not> lg_accepting (lo_shared l) \<and> list_all harmless (lo_calls l)"

definition drained :: "('q \<Rightarrow> string list) \<Rightarrow> 'q logger \<Rightarrow> bool" where
  "drained items l \<longleftrightarrow> (lw_pc (lo_writer l) \<in> {WrIdleDiagnostic, WrIdleProducers, WrIdle, WrShutdown, WrStopped} \<longrightarrow> items (lc_queue (lg_channel (lo_shared l) Protocol)) = [])
     \<and> (lw_pc (lo_writer l) \<in> {WrIdleProducers, WrIdle, WrShutdown, WrStopped} \<longrightarrow> items (lc_queue (lg_channel (lo_shared l) Diagnostic)) = [])"

text \<open>What is written for a line, the lines the writer has in hand, and the diagnostic lines still to be written.\<close>

definition line_text :: "string \<Rightarrow> nat \<Rightarrow> string" where
  "line_text v n = v @ (if 1 < n then '' (x'' @ decimal n @ '')'' else []) @ [CHR 0x0A]"

fun in_hand :: "log_writer_pc \<Rightarrow> string list" where
  "in_hand (WrCoalesce t n) = replicate n t" | "in_hand (WrSame t n) = replicate n t" | "in_hand (WrEmit t n) = replicate n t" | "in_hand _ = []"

definition diagnostic_backlog :: "('q \<Rightarrow> string list) \<Rightarrow> 'q logger \<Rightarrow> string list" where
  "diagnostic_backlog items l = in_hand (lw_pc (lo_writer l)) @ (case lw_pending (lo_writer l) of None \<Rightarrow> [] | Some t \<Rightarrow> [t])
     @ items (lc_queue (lg_channel (lo_shared l) Diagnostic))"

definition protocol_text :: "('q \<Rightarrow> string list) \<Rightarrow> 'q logger \<Rightarrow> string" where
  "protocol_text items l = sk_text (lw_stdout (lo_writer l)) @ concat (map (\<lambda>t. line_text t 1) (items (lc_queue (lg_channel (lo_shared l) Protocol))))"

definition sinks_work :: "'q logger \<Rightarrow> bool" where
  "sinks_work l \<longleftrightarrow> \<not> sk_disabled (lw_stdout (lo_writer l)) \<and> \<not> sk_disabled (lw_stderr (lo_writer l))"

fun sinks_accept :: "log_event \<Rightarrow> bool" where
  "sinks_accept (EvWriter io ok) = (io = None \<and> ok)" | "sinks_accept _ = True"

text \<open>From \<open>l\<close> to \<open>l'\<close> the writer has written the lines of \<open>l\<close> that \<open>l'\<close> has no more: the protocol's each on its own, the diagnostics in
  groups of equal ones, a group with its size.\<close>

definition written_since :: "('q \<Rightarrow> string list) \<Rightarrow> 'q logger \<Rightarrow> 'q logger \<Rightarrow> bool" where
  "written_since items l l' \<longleftrightarrow> sinks_work l' \<and> protocol_text items l' = protocol_text items l
     \<and> (\<exists>groups. sk_text (lw_stderr (lo_writer l')) = sk_text (lw_stderr (lo_writer l)) @ concat (map (\<lambda>(t, n). line_text t n) groups)
          \<and> concat (map (\<lambda>(t, n). replicate n t) groups) @ diagnostic_backlog items l' = diagnostic_backlog items l)"

lemma written_since_refl: "sinks_work l \<Longrightarrow> written_since items l l"
  unfolding written_since_def by (intro conjI exI [of _ "[]"]) simp_all

lemma written_since_trans:
  assumes "written_since items l l'" "written_since items l' l''"
  shows "written_since items l l''"
proof -
  obtain gs where g: "sk_text (lw_stderr (lo_writer l')) = sk_text (lw_stderr (lo_writer l)) @ concat (map (\<lambda>(t, n). line_text t n) gs)"
      "concat (map (\<lambda>(t, n). replicate n t) gs) @ diagnostic_backlog items l' = diagnostic_backlog items l"
    using assms(1) by (auto simp: written_since_def)
  obtain hs where h: "sk_text (lw_stderr (lo_writer l'')) = sk_text (lw_stderr (lo_writer l')) @ concat (map (\<lambda>(t, n). line_text t n) hs)"
      "concat (map (\<lambda>(t, n). replicate n t) hs) @ diagnostic_backlog items l'' = diagnostic_backlog items l'"
    using assms(2) by (auto simp: written_since_def)
  have "sinks_work l''" "protocol_text items l'' = protocol_text items l" using assms by (simp_all add: written_since_def)
  then show ?thesis unfolding written_since_def g(2) [symmetric] h(2) [symmetric] h(1) g(1)
    by (intro conjI exI [of _ "gs @ hs"]) simp_all
qed

lemma written_groups:
  assumes "sinks_work l'" "protocol_text items l' = protocol_text items l"
    and "sk_text (lw_stderr (lo_writer l')) = sk_text (lw_stderr (lo_writer l))" "diagnostic_backlog items l' = diagnostic_backlog items l"
  shows "written_since items l l'"
  unfolding written_since_def by (intro conjI exI [of _ "[]"]) (simp_all add: assms)

text \<open>The queues of lines.\<close>

locale log_queue = array_queue ops items cap
  for ops :: "(string, 'q) queue_ops" and items :: "'q \<Rightarrow> string list" and cap :: "'q \<Rightarrow> nat"
begin

text \<open>A call's step changes the counters by what its state says.\<close>

lemma producer_counts:
  assumes "producer_step ops pc s = (pc', s')" "\<And>k. channel_counts items cap (pr_weight k pc + h k) (lg_channel s k)" "lg_producers s = pr_active pc + n"
  shows "channel_counts items cap (pr_weight k pc' + h k) (lg_channel s' k) \<and> lg_producers s' = pr_active pc' + n"
  using assms(1) assms(2) [of k] assms(3)
  by (cases "(ops, pc, s)" rule: producer_step.cases)
     (auto simp: count_line_def drop_line_def put_line_queue_def notify_writer_def on_channel_def channel_counts_def dest!: push_Some pop_Some split: option.splits if_splits)

lemma writer_counts:
  assumes "log_writer_step ops io ok (lw_pc w) w s = (w', s')" "\<And>k. channel_counts items cap (h k + wr_weight k w) (lg_channel s k)"
    and "nothing_pending (lw_pc w) \<longrightarrow> lw_pending w = None"
  shows "channel_counts items cap (h k + wr_weight k w') (lg_channel s' k) \<and> lg_producers s' = lg_producers s
    \<and> (nothing_pending (lw_pc w') \<longrightarrow> lw_pending w' = None)"
  using assms(1,3) assms(2) [of k]
  by (cases k; cases "lw_pc w")
     (auto simp: wr_weight_def uncount_line_def put_line_queue_def channel_counts_def dest!: pop_Some split: option.splits if_splits)

lemma logger_step_inv: "logger_inv items cap l \<Longrightarrow> logger_inv items cap (log_step ops e l)"
proof -
  assume inv: "logger_inv items cap l"
  show ?thesis
  proof (cases e)
    case (EvCall i)
    show ?thesis
    proof (cases "i < length (lo_calls l)")
      case True
      obtain pc s where p: "producer_step ops (lo_calls l ! i) (lo_shared l) = (pc, s)" by force
      define h where "h k = sum_list (map (pr_weight k) (lo_calls l)) - pr_weight k (lo_calls l ! i) + wr_weight k (lo_writer l)" for k
      define m where "m = sum_list (map pr_active (lo_calls l)) - pr_active (lo_calls l ! i)"
      have h: "sum_list (map (pr_weight k) (lo_calls l)) + wr_weight k (lo_writer l) = pr_weight k (lo_calls l ! i) + h k"
        "sum_list (map (pr_weight k) ((lo_calls l)[i := pc])) + wr_weight k (lo_writer l) = pr_weight k pc + h k" for k
        using sum_at [OF True, of "pr_weight k" pc] sum_ge [OF True, of "pr_weight k"] by (simp_all add: h_def)
      have m: "sum_list (map pr_active (lo_calls l)) = pr_active (lo_calls l ! i) + m" "sum_list (map pr_active ((lo_calls l)[i := pc])) = pr_active pc + m"
        using sum_at [OF True, of pr_active pc] sum_ge [OF True, of pr_active] by (simp_all add: m_def)
      have "channel_counts items cap (pr_weight k pc + h k) (lg_channel s k) \<and> lg_producers s = pr_active pc + m" for k
        by (rule producer_counts [OF p]) (use inv h m in \<open>simp_all add: logger_inv_def\<close>)
      then show ?thesis using inv h m by (simp add: logger_inv_def EvCall log_step_def True p)
    qed (use inv in \<open>simp add: EvCall log_step_def\<close>)
  next
    case (EvWriter io ok)
    obtain w s where w: "log_writer_step ops io ok (lw_pc (lo_writer l)) (lo_writer l) (lo_shared l) = (w, s)" by force
    show ?thesis using writer_counts [OF w, of "\<lambda>k. sum_list (map (pr_weight k) (lo_calls l))"] inv
      by (auto simp: logger_inv_def EvWriter log_step_def w)
  qed (use inv in \<open>auto simp: logger_inv_def log_step_def notify_writer_def\<close>)
qed

lemma new_logger_inv: "logger_inv items cap (new_logger ops a b calls)"
proof -
  let ?l = "new_logger ops a b calls"
  have 0: "sum_list (map (pr_weight k) (lo_calls ?l)) = 0" "sum_list (map pr_active (lo_calls ?l)) = 0" for k
    unfolding new_logger_def by (induction calls) auto
  have w: "wr_weight k (lo_writer ?l) = 0" "lw_pc (lo_writer ?l) = WrTop" "lo_shared ?l = new_log_shared ops a b" for k
    by (simp_all add: new_logger_def wr_weight_def)
  show ?thesis unfolding logger_inv_def 0 w by (simp add: channel_counts_def new_log_shared_def new_items split: log_kind.splits)
qed

lemma quiet_call:
  assumes "harmless pc" "\<not> lg_accepting s" "producer_step ops pc s = (pc', s')"
  shows "harmless pc' \<and> lg_channel s' = lg_channel s \<and> \<not> lg_accepting s'"
  using assms by (cases pc) (auto simp: notify_writer_def)

lemma drained_writer:
  assumes "log_writer_step ops io ok (lw_pc w) w s = (w', s')" "drained items \<lparr>lo_shared = s, lo_calls = cs, lo_writer = w\<rparr>"
    and "\<And>k. lc_outstanding (lg_channel s k) = 0 \<Longrightarrow> items (lc_queue (lg_channel s k)) = []"
  shows "lg_accepting s' = lg_accepting s \<and> drained items \<lparr>lo_shared = s', lo_calls = cs, lo_writer = w'\<rparr>"
  using assms
  by (cases "lw_pc w") (auto simp: drained_def put_line_queue_def uncount_line_def split: option.splits if_splits)

lemma quiet_step:
  assumes "quiet l" "drained items l" "logger_inv items cap l"
  shows "quiet (log_step ops e l) \<and> drained items (log_step ops e l)"
proof (cases e)
  case (EvCall i)
  show ?thesis
  proof (cases "i < length (lo_calls l)")
    case True
    obtain pc s where p: "producer_step ops (lo_calls l ! i) (lo_shared l) = (pc, s)" by force
    have "harmless (lo_calls l ! i)" "\<not> lg_accepting (lo_shared l)" using assms(1) True by (auto simp: quiet_def list_all_length)
    note k = quiet_call [OF this p]
    have "list_all harmless ((lo_calls l)[i := pc])" using assms(1) k set_update_subset_insert [of "lo_calls l" i pc]
      by (auto simp: quiet_def list_all_iff)
    then show ?thesis using assms(2) k by (simp add: EvCall log_step_def True p quiet_def drained_def)
  qed (use assms in \<open>simp add: EvCall log_step_def\<close>)
next
  case (EvWriter io ok)
  obtain w s where w: "log_writer_step ops io ok (lw_pc (lo_writer l)) (lo_writer l) (lo_shared l) = (w, s)" by force
  have o: "lc_outstanding (lg_channel (lo_shared l) k) = 0 \<Longrightarrow> items (lc_queue (lg_channel (lo_shared l) k)) = []" for k
    using assms(3) by (auto simp: logger_inv_def channel_counts_def)
  have "drained items \<lparr>lo_shared = lo_shared l, lo_calls = lo_calls l, lo_writer = lo_writer l\<rparr>" using assms(2) by (simp add: drained_def)
  from drained_writer [OF w this o] show ?thesis using assms(1) by (simp add: EvWriter log_step_def w quiet_def drained_def)
qed (use assms in \<open>auto simp: log_step_def quiet_def drained_def notify_writer_def\<close>)

text \<open>A step of the writer whose sinks work writes the lines it takes.\<close>

lemma writer_writes:
  assumes "log_writer_step ops None True (lw_pc w) w s = (w', s')" "nothing_pending (lw_pc w) \<longrightarrow> lw_pending w = None"
    and "sinks_work \<lparr>lo_shared = s, lo_calls = cs, lo_writer = w\<rparr>"
  shows "written_since items \<lparr>lo_shared = s, lo_calls = cs, lo_writer = w\<rparr> \<lparr>lo_shared = s', lo_calls = cs, lo_writer = w'\<rparr>"
proof (cases "\<exists>t n. lw_pc w = WrEmit t n")
  case True
  then obtain t n where e: "lw_pc w = WrEmit t n" by blast
  have r: "w' = w\<lparr>lw_pc := WrWritten Diagnostic 0, lw_stderr := write_line None t n (lw_stderr w)\<rparr>" "s' = s"
    using assms(1) by (simp_all add: e)
  show ?thesis unfolding written_since_def r
    by (intro conjI exI [of _ "[(t, n)]"])
      (use assms(3) in \<open>simp_all add: e sinks_work_def protocol_text_def diagnostic_backlog_def write_line_def line_text_def Let_def\<close>)
next
  case False
  show ?thesis
    by (rule written_groups; use assms False in \<open>cases "lw_pc w"\<close>)
      (auto simp: sinks_work_def protocol_text_def diagnostic_backlog_def write_line_def line_text_def Let_def flush_sink_def
        put_line_queue_def uncount_line_def replicate_append_same [symmetric] dest!: pop_Some split: option.splits if_splits)
qed

lemma quiet_writes:
  assumes "quiet l" "logger_inv items cap l" "sinks_work l" "sinks_accept e"
  shows "written_since items l (log_step ops e l)"
proof (cases e)
  case (EvCall i)
  show ?thesis
  proof (cases "i < length (lo_calls l)")
    case True
    obtain pc s where p: "producer_step ops (lo_calls l ! i) (lo_shared l) = (pc, s)" by force
    have "harmless (lo_calls l ! i)" "\<not> lg_accepting (lo_shared l)" using assms(1) True by (auto simp: quiet_def list_all_length)
    note k = quiet_call [OF this p]
    show ?thesis by (rule written_groups)
      (use assms(3) k in \<open>simp_all add: EvCall log_step_def True p sinks_work_def protocol_text_def diagnostic_backlog_def\<close>)
  qed (use assms written_since_refl in \<open>simp add: EvCall log_step_def\<close>)
next
  case (EvWriter io ok)
  obtain w s where w: "log_writer_step ops None True (lw_pc (lo_writer l)) (lo_writer l) (lo_shared l) = (w, s)" by force
  have "nothing_pending (lw_pc (lo_writer l)) \<longrightarrow> lw_pending (lo_writer l) = None" using assms(2) by (simp add: logger_inv_def)
  note x = writer_writes [OF w this, of "lo_calls l"]
  have e: "\<lparr>lo_shared = lo_shared l, lo_calls = lo_calls l, lo_writer = lo_writer l\<rparr> = l"
    "\<lparr>lo_shared = s, lo_calls = lo_calls l, lo_writer = w\<rparr> = l\<lparr>lo_writer := w, lo_shared := s\<rparr>" by simp_all
  show ?thesis using x assms(3,4) w unfolding e by (simp add: EvWriter log_step_def)
qed (rule written_groups; use assms(3) in \<open>simp add: log_step_def sinks_work_def protocol_text_def diagnostic_backlog_def\<close>)+

lemma quiet_run_writes:
  "quiet l \<Longrightarrow> drained items l \<Longrightarrow> logger_inv items cap l \<Longrightarrow> sinks_work l \<Longrightarrow> list_all sinks_accept es
    \<Longrightarrow> written_since items l (run_ops (log_step ops) es l)"
proof (induction es arbitrary: l)
  case Nil
  then show ?case by (simp add: written_since_refl)
next
  case (Cons e es)
  have w: "written_since items l (log_step ops e l)" using quiet_writes Cons.prems by simp
  then have "sinks_work (log_step ops e l)" by (simp add: written_since_def)
  then have "written_since items (log_step ops e l) (run_ops (log_step ops) es (log_step ops e l))"
    using Cons.IH quiet_step [OF Cons.prems(1-3), of e] logger_step_inv [OF Cons.prems(3)] Cons.prems(5) by simp
  then show ?case using written_since_trans [OF w] by simp
qed

lemma quiet_run:
  "quiet l \<Longrightarrow> drained items l \<Longrightarrow> logger_inv items cap l
    \<Longrightarrow> quiet (run_ops (log_step ops) es l) \<and> drained items (run_ops (log_step ops) es l) \<and> logger_inv items cap (run_ops (log_step ops) es l)"
proof (induction es arbitrary: l)
  case (Cons e es)
  then show ?case using quiet_step [OF Cons.prems, of e] logger_step_inv [of l e] by simp
qed simp

end

sublocale log_queue \<subseteq> logger: driven "log_step ops" "logger_inv items cap"
  by unfold_locales (rule logger_step_inv)

interpretation llq: log_queue list_queue_ops lq_items lq_cap
  by unfold_locales

lemma no_producer_harmless: "sum_list (map pr_active pcs) = 0 \<Longrightarrow> list_all harmless pcs"
proof (induction pcs)
  case (Cons pc pcs)
  then show ?case by (cases pc) auto
qed simp

lemma harmless_no_weight: "list_all harmless pcs \<Longrightarrow> sum_list (map (pr_weight k) pcs) = 0"
proof (induction pcs)
  case (Cons pc pcs)
  then show ?case by (cases pc) auto
qed simp

context log_queue
begin

lemma run_counts: "logger_inv items cap (run_ops (log_step ops) es (new_logger ops a b calls))"
  by (rule logger.run_inv [OF new_logger_inv])

lemma stopped_drained:
  assumes "logger_inv items cap l" "\<not> lg_accepting (lo_shared l)" "lg_producers (lo_shared l) = 0"
    and "lw_pc (lo_writer l) \<notin> {WrIdleDiagnostic, WrIdleProducers, WrIdle, WrShutdown, WrStopped}"
    and "l' = run_ops (log_step ops) es l" "lw_pc (lo_writer l') = WrStopped"
  shows "items (lc_queue (lg_channel (lo_shared l') k)) = [] \<and> lw_pending (lo_writer l') = None \<and> lc_outstanding (lg_channel (lo_shared l') k) = 0"
proof -
  have "quiet l" using assms(1,2,3) no_producer_harmless by (auto simp: quiet_def logger_inv_def)
  moreover have "drained items l" using assms(4) by (auto simp: drained_def)
  ultimately have r: "quiet l'" "drained items l'" "logger_inv items cap l'" using quiet_run assms(1,5) by blast+
  have "lw_pending (lo_writer l') = None" using r(3) assms(6) by (simp add: logger_inv_def)
  moreover have "items (lc_queue (lg_channel (lo_shared l') k)) = []" using r(2) assms(6) by (cases k) (auto simp: drained_def)
  moreover have "channel_counts items cap (sum_list (map (pr_weight k) (lo_calls l')) + wr_weight k (lo_writer l')) (lg_channel (lo_shared l') k)"
    using r(3) by (simp add: logger_inv_def)
  moreover have "sum_list (map (pr_weight k) (lo_calls l')) = 0" using harmless_no_weight r(1) by (simp only: quiet_def)
  ultimately show ?thesis using assms(6) by (simp only: channel_counts_def) (simp add: wr_weight_def)
qed

end


lemma log_queue_of: "queue_laws ops items cap \<Longrightarrow> log_queue ops items cap"
  by unfold_locales

section \<open>Properties\<close>

text \<open>C33: A log call never waits. In any interleaving with the writer and other calls, full queues, a failed sink and a closed logger
  included, a call has ended once it has made 18 steps of its own.\<close>

theorem log_call_wait_free:
  assumes "i < length calls" "18 \<le> length (filter (\<lambda>e. e = EvCall i) es)"
  shows "lo_calls (run_ops (log_step ops) es (new_logger ops a b calls)) ! i = PrDone"
proof -
  let ?l = "new_logger ops a b calls"
  have "pr_rank (lo_calls ?l ! i) = 18" "i < length (lo_calls ?l)" using assms(1) by (simp_all add: new_logger_def case_prod_beta)
  then have "pr_rank (lo_calls (run_ops (log_step ops) es ?l) ! i) = 0" using calls_rank [of i ?l ops es] assms(2) by simp
  then show ?thesis by (cases "lo_calls (run_ops (log_step ops) es ?l) ! i") auto
qed

text \<open>The counters of the logger are exact in every interleaving: the outstanding lines of a kind are those in its queue, those that calls have
  counted but not queued (twice while a replaced line is still to be accounted for) and those in the writer's hands, no queue exceeds its capacity, and
  the number of producers is that of the calls between their counting and their end.\<close>

theorem log_counters_exact:
  assumes "queue_laws ops items cap"
  shows "logger_inv items cap (run_ops (log_step ops) es (new_logger ops a b calls))"
  by (rule log_queue.run_counts [OF log_queue_of [OF assms]])


section \<open>Shutdown and a late line\<close>

text \<open>\<open>idle\<close> reads the counter of producers last. A call that queues its line and leaves between the reads is missed: the writer stops and the line
  stays in the queue.\<close>

definition late_events :: "log_event list" where
  "late_events = replicate 3 (EvCall 0) @ replicate 5 (EvWriter None True) @ [EvClose, EvShutdown] @ replicate 3 (EvCall 0) @ replicate 3 (EvWriter None True)"

lemma shutdown_loses_line:
  "let l = run_ops (log_step list_queue_ops) late_events (new_logger list_queue_ops 4 4 [(Protocol, Some [''x''])]) in
     lw_pc (lo_writer l) = WrStopped \<and> lo_calls l = [PrDone] \<and> lq_items (lc_queue (lg_channel (lo_shared l) Protocol)) = [''x'']
     \<and> lc_dropped (lg_channel (lo_shared l) Protocol) = 0 \<and> sk_text (lw_stdout (lo_writer l)) = []"
  by code_simp

section \<open>Witnesses\<close>

text \<open>One call on a logger whose queue is full of its own line, and a shutdown after it.\<close>

lemma log_call_wait_free_witness:
  "lo_calls (run_ops (log_step list_queue_ops) (replicate 18 (EvCall 0)) (new_logger list_queue_ops 4 4 [(Protocol, Some [''x''])])) ! 0 = PrDone"
  by (rule log_call_wait_free) simp_all

lemma log_counters_exact_witness:
  "logger_inv lq_items lq_cap (run_ops (log_step list_queue_ops) (replicate 5 (EvCall 0)) (new_logger list_queue_ops 4 4 [(Protocol, Some [''x''])]))"
  by (rule log_counters_exact [OF list_queue_laws])


end
