(* ===== verification/Spec2Isabelle.thy ===== *)
theory Spec2Isabelle
  imports TurnAllocation TurnEndpoint ChannelData TurnStream SessionRun NetworkWatch Credentials
    WorkerProps VkCalls Dns DispatchIo UdpBatch Engine Logging
begin

text \<open>
  The CSQTT packet engine, \<open>src/examples/modulecsqtt/native/csqtt-engine\<close>: an Android module that carries the IP packets of a
  device to a peer through the TURN relays of a video call service, over many allocations (workers) at once. This
  development models its Rust code, file by file; paths below are relative to that directory.

  \<^bold>\<open>The program.\<close> \<open>lib.rs\<close> plans a run from its arguments and starts groups of nine workers (\<open>worker.rs\<close>). A worker takes a
  lease on the TURN credentials that its cohort shares (\<open>worker.rs\<close>, fetched by \<open>auth.rs\<close>), chooses a relay
  (\<open>turn_endpoint.rs\<close>, \<open>dns.rs\<close>), allocates on it (\<open>turn.rs\<close> around the sans-IO client \<open>turn_core.rs\<close>, \<open>stun_codec.rs\<close>;
  \<open>turn_stream.rs\<close> over TCP and TLS, \<open>udp_batch.rs\<close> over UDP) and runs a session (\<open>session.rs\<close>): the GETCONF exchange
  and stream repair (\<open>protocol.rs\<close>, \<open>repair.rs\<close>), then packets, disguised as RTP (\<open>obfs.rs\<close>) and protected against replay.
  Uplink packets come from the host's TCP/IP stack (\<open>packet_bridge.rs\<close>), get a flow header (\<open>shared/flow_frame.rs\<close>), are
  classified (\<open>shared/striped_scheduler.rs\<close>, \<open>shared/selective_fec.rs\<close>) and put into a worker's queue (\<open>dispatcher.rs\<close>);
  downlink packets are put back in order per flow and delivered. \<open>idle.rs\<close>, \<open>wake.rs\<close>, \<open>rebind.rs\<close> and \<open>stats.rs\<close>
  watch the traffic and park, resume or probe the workers.

  \<^bold>\<open>How code becomes HOL.\<close> A struct is a record, an enum a datatype, a function a definition of the same name. A byte is
  \<open>8 word\<close> and fixed-width integers are words where the code wraps; \<open>usize\<close> and saturating counters are naturals with the
  saturation written out. Errors are values (\<open>Inl\<close>), every early return is a branch. Instants are naturals (nanoseconds, or the source's
  milliseconds). Clock readings, random draws, system calls and the answers of other machines are arguments, lists of
  results where a routine makes several calls. Third-party code (hashes, ciphers, crossbeam's queue, CRC) is a record of functions, and what
  is relied on is a named predicate (\<open>queue_laws\<close>, \<open>obfs_laws\<close>). Process-wide atomics are one record per module; queues and
  flags that several tasks share live in a store indexed by address. A future is modelled by the steps between its
  suspensions, another task's action by an operation in the sequence that drives a state.

  \<^bold>\<open>Shared theories.\<close> \<open>Prelude\<close>: machine types, slices, big-endian integers, the hash map as an association list, the result monad, the
  collections \<open>byte_simps\<close>, \<open>ring_simps\<close>, \<open>inv_intros\<close>. \<open>Text\<close>, \<open>ErrorText\<close>: the operations of \<open>str\<close> and the chains of errors.
  \<open>BoundedQueue\<close>: the interface of the queue (locale \<open>array_queue\<close>) and of a component driven by operations (locale \<open>driven\<close>: what every
  operation keeps holds after every run), both interpreted on the components' own definitions.

  \<^bold>\<open>Packets.\<close> \<open>Packet\<close> (\<open>packet.rs\<close>: views of a buffer, the pool never hands out more than its limit and counts exactly).
  \<open>FlowFrame\<close>, \<open>FlowReassembly\<close>, \<open>FlowReorder\<close> (\<open>shared/flow_frame.rs\<close>: the frame codec is a round trip, the reassembler releases every flow in
  order and holds a bounded number of frames, a permuted window of at most 97 frames is restored without loss, and one frame more can be lost).
  \<open>SelectiveFec\<close>, \<open>StripedScheduler\<close> (the two files of these names: the budget of duplicates, the classes and what survives pressure).
  \<open>PacketChannel\<close>, \<open>WorkerSet\<close>, \<open>Dispatch\<close>, \<open>Bridge\<close>, \<open>DispatchIo\<close> (\<open>dispatcher.rs\<close>, \<open>packet_bridge.rs\<close>: epochs of a queue, lost and kept wake-ups of a receiver, the
  choice of a worker, the redistribution of a dead worker's packets, the return path, the loops over the TUN device and the local socket, and the way of a flow through the whole tunnel).

  \<^bold>\<open>TURN.\<close> \<open>StunCodec\<close>, \<open>TurnMessage\<close> (messages stay in bounds; a built request verifies). \<open>TurnCore\<close>, \<open>TurnCoreInv\<close>,
  \<open>TurnCoreProps\<close> (\<open>turn_core.rs\<close>: the invariant of the client over every sequence of calls, the one-way life of an allocation, forged
  responses change nothing, the retransmission ladder). \<open>TurnStream\<close>, \<open>ChannelData\<close> (framing is independent of the chunks of the stream and recovers the
  messages). \<open>TurnDriver\<close>, \<open>TurnDriverProps\<close> (\<open>turn.rs\<close>: the handlers as steps on the driver's state), \<open>TurnLoop\<close> (the two driver
  loops; a closing allocation is torn down in 35 seconds), \<open>TurnAllocation\<close> (connecting, binding and sending, and what a failed connect leaves). \<open>TurnEndpoint\<close>, \<open>Dns\<close>, \<open>UdpBatch\<close>
  (addresses and transports; the resolver reads only what lies in the message and never caches an empty answer; a batch is sent in order
  and every loop over the kernel's results ends).

  \<^bold>\<open>Sessions.\<close> \<open>Obfs\<close>, \<open>ReplayWindow\<close> (the disguise is authentic and reversible; the bitmap refines a set of accepted counters).
  \<open>StreamControl\<close> (\<open>protocol.rs\<close>, \<open>repair.rs\<close>: a repair is applied once). \<open>SessionTransport\<close>, \<open>Session\<close>, \<open>SessionProps\<close> (\<open>session.rs\<close>: what the writer sends the
  peer's transport accepts over a path that may lose and repeat packets but keeps their order, control messages are separated from packets, the exchange and the goodbye end in their budgets, a finished session
  hands its packets over). \<open>SessionRun\<close> (\<open>run_session\<close>: the life of a session and its allocation; nothing it registered survives it).

  \<^bold>\<open>Workers and the engine.\<close> \<open>Credentials\<close>, \<open>VkAuth\<close> (leases, back-off, cohorts; how credentials are obtained and which failures are final).
  \<open>VkCalls\<close> (\<open>vk_js_calls.rs\<close>: the account session that starts and ends a call and brokers credentials; tokens and session keys go only where they belong).
  \<open>WorkerControl\<close>, \<open>Worker\<close>, \<open>WorkerProps\<close> (\<open>worker.rs\<close>: pacing, pausing, the state machine of a worker and of a cohort that shares
  credentials). \<open>IdleMode\<close>, \<open>NetworkWatch\<close> (the watchers). \<open>Engine\<close> (\<open>lib.rs\<close>: the plan of a run, the peer, the host's
  commands). \<open>Logging\<close> (\<open>logging.rs\<close>: calls and the writer thread interleave; a call never waits, a clean shutdown leaves nothing queued and, to sinks that work, has written everything).

  \<^bold>\<open>Loops and fuel.\<close> Loops are structural recursion, or \<open>function\<close>s with a measure (\<open>drain_contiguous\<close>, \<open>skip_name\<close>, \<open>send_rest\<close>,
  \<open>expire_from\<close> and others). Where a bound is passed it is the source's own: the attempts of a request, the records a message announces, the
  extension headers of an IPv6 packet, four legacy authentications, fifteen resolutions of the peer. The loops that empty a queue
  (\<open>pop_all\<close>, \<open>recv_loop\<close>, \<open>next_ordered\<close>, \<open>drain_bridge\<close>) take its length, or its length plus one, as fuel: every round removes an element and a round on
  an empty queue ends the loop, so no run stops early. A loop that a task runs until it is cancelled (\<open>session\<close> loops, \<open>worker_loop\<close>, the
  control input) is a function on its state folded over a list of events. Theorems that something ends, or ends in time, state it outright
  (\<open>log_call_wait_free\<close>, \<open>send_loop_ends\<close>, \<open>goodbye_within_budget\<close>, \<open>getconf_exchange\<close>, \<open>worker_reconnects\<close>).

  \<^bold>\<open>Not modelled.\<close> Sockets, TLS, HTTP, files and the TUN device (\<open>tun.rs\<close>; their results are arguments of the loops that use them); the
  captcha of the call service and the browser identity (\<open>captcha.rs\<close>, \<open>captcha_slider.rs\<close>, \<open>profiles.rs\<close>,
  \<open>namegen.rs\<close>): pages, images and random values of services outside the repository; \<open>wrap.rs\<close>, whose content is a third-party key derivation; the C entry points (\<open>ffi.rs\<close>, \<open>main.rs\<close>), \<open>protect.rs\<close>;
  measurement (\<open>client_perf.rs\<close>, \<open>cpu_task.rs\<close>). The tokio runtime is represented only by the order of steps; memory orderings weaker than
  sequential consistency are not.
\<close>

end
